(* ===== verification/KPWM_Base.thy ===== *)
theory KPWM_Base
  imports Main "HOL-Library.Word" "HOL-Library.Signed_Division"
begin

text \<open>
  Prelude of the development. It fixes the C types of the 32-bit ARM target (\<open>int\<close>,
  \<open>unsigned\<close> and \<open>unsigned long\<close> are 32 bits wide), the faults a C expression can run into,
  the sequencing of fallible expressions and the generic facts on lists and words that the
  components share. The kernel is compiled with \<^verbatim>\<open>-fno-strict-overflow\<close> (Makefile of the kernel tree),
  so signed addition, subtraction and multiplication wrap around, as they do on \<open>32 word\<close>.
\<close>

unbundle bit_operations_syntax

named_theorems res_simps \<open>rewrite rules that run fallible expressions\<close>
named_theorems bits_simps \<open>bit-level characterisations of the shift and mask operations\<close>

section \<open>C types and faults\<close>

type_synonym u8 = "8 word"
type_synonym u16 = "16 word"
type_synonym u32 = "32 word"
type_synonym u64 = "64 word"
type_synonym s32 = "32 word"

text \<open>
  What stops a C expression without a value: a null or out-of-range pointer, a shift by an
  amount outside the width of its operand, a division by zero, a user address that cannot be read, a \<open>BUG()\<close>.
\<close>

datatype fault = NullDeref | OutOfBounds | ShiftRange | DivByZero | UserFault | KernelBug

type_synonym 'a res = "fault + 'a"

definition rbind :: "'a res \<Rightarrow> ('a \<Rightarrow> 'b res) \<Rightarrow> 'b res" where
  "rbind m f = (case m of Inl e \<Rightarrow> Inl e | Inr x \<Rightarrow> f x)"

lemma rbind_simps [simp, res_simps]:
  "rbind (Inl e) f = Inl e"
  "rbind (Inr x) f = f x"
  by (simp_all add: rbind_def)

lemma rbind_Inr_iff [res_simps]: "rbind m f = Inr y \<longleftrightarrow> (\<exists>x. m = Inr x \<and> f x = Inr y)"
  by (cases m) auto

lemma rbind_Inl_iff: "rbind m f = Inl e \<longleftrightarrow> m = Inl e \<or> (\<exists>x. m = Inr x \<and> f x = Inl e)"
  by (cases m) auto

lemma rbind_assoc: "rbind (rbind m f) g = rbind m (\<lambda>x. rbind (f x) g)"
  by (cases m) auto

lemma rbind_cong [fundef_cong]:
  "m = m' \<Longrightarrow> (\<And>x. m' = Inr x \<Longrightarrow> f x = f' x) \<Longrightarrow> rbind m f = rbind m' f'"
  by (cases m') auto

text \<open>Sequencing where the rest, or the first part, is a loop that may not end (\<open>None\<close>).\<close>

definition rthen :: "'a res \<Rightarrow> ('a \<Rightarrow> 'b res option) \<Rightarrow> 'b res option" where
  "rthen m f = (case m of Inl e \<Rightarrow> Some (Inl e) | Inr x \<Rightarrow> f x)"

definition othen :: "'a res option \<Rightarrow> ('a \<Rightarrow> 'b res option) \<Rightarrow> 'b res option" where
  "othen m f = (case m of None \<Rightarrow> None | Some r \<Rightarrow> rthen r f)"

lemma then_simps [simp]:
  "rthen (Inl e) f = Some (Inl e)" "rthen (Inr x) f = f x" "othen None g = None" "othen (Some r) g = rthen r g"
  by (simp_all add: rthen_def othen_def)

lemma rthen_mono [partial_function_mono]:
  "(\<And>x. mono_option (\<lambda>f. B f x)) \<Longrightarrow> mono_option (\<lambda>f. rthen m (\<lambda>x. B f x))"
  by (cases m) (simp_all add: option.const_mono)

lemma othen_mono [partial_function_mono]:
  "(\<And>x. mono_option (\<lambda>f. B f x)) \<Longrightarrow> mono_option (\<lambda>f. othen m (\<lambda>x. B f x))"
  by (cases m) (simp_all add: rthen_mono option.const_mono)

text \<open>Array access in C: an index outside the array is a fault.\<close>

definition arr_get :: "'a list \<Rightarrow> nat \<Rightarrow> 'a res" where
  "arr_get xs i = (if i < length xs then Inr (xs ! i) else Inl OutOfBounds)"

definition arr_set :: "'a list \<Rightarrow> nat \<Rightarrow> 'a \<Rightarrow> 'a list res" where
  "arr_set xs i v = (if i < length xs then Inr (xs[i := v]) else Inl OutOfBounds)"

lemma arr_get_simps [simp, res_simps]:
  "i < length xs \<Longrightarrow> arr_get xs i = Inr (xs ! i)"
  "length xs \<le> i \<Longrightarrow> arr_get xs i = Inl OutOfBounds"
  by (simp_all add: arr_get_def)

lemma arr_set_simps [simp, res_simps]:
  "i < length xs \<Longrightarrow> arr_set xs i v = Inr (xs[i := v])"
  "length xs \<le> i \<Longrightarrow> arr_set xs i v = Inl OutOfBounds"
  by (simp_all add: arr_set_def)

lemma arr_get_Inr_iff: "arr_get xs i = Inr x \<longleftrightarrow> i < length xs \<and> x = xs ! i"
  by (auto simp: arr_get_def)

lemma arr_set_Inr_iff: "arr_set xs i v = Inr ys \<longleftrightarrow> i < length xs \<and> ys = xs[i := v]"
  by (auto simp: arr_set_def)

text \<open>A pointer that may be NULL, dereferenced.\<close>

definition deref :: "'a option \<Rightarrow> 'a res" where
  "deref p = (case p of None \<Rightarrow> Inl NullDeref | Some x \<Rightarrow> Inr x)"

lemma deref_simps [simp, res_simps]:
  "deref None = Inl NullDeref"
  "deref (Some x) = Inr x"
  by (simp_all add: deref_def)

lemma deref_Inr_iff: "deref p = Inr x \<longleftrightarrow> p = Some x"
  by (cases p) auto

section \<open>Shifts and signed division\<close>

text \<open>
  The left shift of a 32-bit operand by an \<open>int\<close> amount. The compiler keeps the bits of
  \<open>1 << 31\<close>; an amount outside \<open>0..31\<close> has no defined value.
\<close>

definition shl32 :: "u32 \<Rightarrow> int \<Rightarrow> u32 res" where
  "shl32 w n = (if 0 \<le> n \<and> n < 32 then Inr (push_bit (nat n) w) else Inl ShiftRange)"

lemma shl32_simps [simp, res_simps]:
  "0 \<le> n \<Longrightarrow> n < 32 \<Longrightarrow> shl32 w n = Inr (push_bit (nat n) w)"
  "n < 0 \<Longrightarrow> shl32 w n = Inl ShiftRange"
  "32 \<le> n \<Longrightarrow> shl32 w n = Inl ShiftRange"
  by (simp_all add: shl32_def)

text \<open>The quotient of two \<open>int\<close>s, truncated towards zero; dividing by zero is a fault.\<close>

definition sdiv32 :: "s32 \<Rightarrow> s32 \<Rightarrow> s32 res" where
  "sdiv32 a b = (if b = 0 then Inl DivByZero else Inr (word_of_int (sint a sdiv sint b)))"

lemma sdiv32_simps [simp, res_simps]:
  "sdiv32 a 0 = Inl DivByZero"
  "b \<noteq> 0 \<Longrightarrow> sdiv32 a b = Inr (word_of_int (sint a sdiv sint b))"
  by (simp_all add: sdiv32_def)

lemma sdiv_nonneg: "0 \<le> a \<Longrightarrow> 0 < b \<Longrightarrow> a sdiv b = a div (b::int)"
  by (auto simp: signed_divide_int_def sgn_if)

lemma smod_nonneg: "0 \<le> a \<Longrightarrow> 0 < b \<Longrightarrow> a smod b = a mod (b::int)"
  by (auto simp: signed_modulo_int_def sgn_if)

lemma sint_of_small:
  fixes x :: int
  assumes "- (2 ^ 31) \<le> x" "x < 2 ^ 31"
  shows "sint (word_of_int x :: s32) = x"
  using assms by (simp add: signed_of_int signed_take_bit_int_eq_self)

lemma sint32_bounds: "- (2 ^ 31) \<le> sint (w :: s32) \<and> sint w < 2 ^ 31"
  using sint_ge [of w] sint_less [of w] by simp

lemma sint32_mult:
  fixes a b :: s32
  assumes "- (2 ^ 31) \<le> sint a * sint b" "sint a * sint b < 2 ^ 31"
  shows "sint (a * b) = sint a * sint b"
proof -
  have "a * b = word_of_int (sint a * sint b)" by simp
  then show ?thesis using sint_of_small [OF assms] by simp
qed

lemma sint32_diff:
  fixes a b :: s32
  assumes "- (2 ^ 31) \<le> sint a - sint b" "sint a - sint b < 2 ^ 31"
  shows "sint (a - b) = sint a - sint b"
proof -
  have "a - b = word_of_int (sint a - sint b)" by simp
  then show ?thesis using sint_of_small [OF assms] by simp
qed

lemma uint_eq_sint_nonneg:
  fixes w :: s32
  assumes "0 \<le> sint w"
  shows "uint w = sint w"
proof -
  have "uint w = take_bit 32 (sint w)"
    by (simp add: uint_sint)
  also have "\<dots> = sint w"
    using assms sint32_bounds [of w] by (intro take_bit_int_eq_self) auto
  finally show ?thesis .
qed

section \<open>Bits\<close>

lemma bit_push_1 [bits_simps]: "bit (2 ^ n :: 'a::len word) m \<longleftrightarrow> m = n \<and> n < LENGTH('a)"
  by (auto simp: bit_simps)

lemma word_and_eq_0_iff_bits: "(a AND b) = 0 \<longleftrightarrow> (\<forall>n < LENGTH('a). \<not> (bit a n \<and> bit b n))"
  for a b :: "'a::len word"
  by (auto simp: bit_eq_iff bit_and_iff)

text \<open>A single bit, tested as C does with a mask.\<close>

lemma and_push_1_neq_0 [bits_simps]:
  "n < LENGTH('a) \<Longrightarrow> (a AND 2 ^ n \<noteq> 0) \<longleftrightarrow> bit a n" for a :: "'a::len word"
  by (auto simp: word_and_eq_0_iff_bits bit_push_1)

lemma unat_of_nat_small: "x < 2 ^ LENGTH('a) \<Longrightarrow> unat (of_nat x :: 'a::len word) = x"
  by (simp add: unat_of_nat take_bit_nat_eq_self)

lemma drop_bit_of_nat_len:
  assumes "x < 2 ^ LENGTH('a)"
  shows "drop_bit k (of_nat x :: 'a::len word) = of_nat (x div 2 ^ k)"
proof -
  have "x div 2 ^ k < 2 ^ LENGTH('a)" using assms by (meson div_le_dividend le_less_trans)
  then have "unat (of_nat (x div 2 ^ k) :: 'a word) = x div 2 ^ k" by (rule unat_of_nat_small)
  moreover have "unat (drop_bit k (of_nat x :: 'a word)) = x div 2 ^ k"
    using assms unat_of_nat_small [OF assms] unfolding unsigned_drop_bit_eq by (simp add: drop_bit_eq_div take_bit_nat_eq_self)
  ultimately show ?thesis by (simp only: word_unat_eq_iff)
qed

lemma drop_bit_of_nat: "x < 2 ^ 32 \<Longrightarrow> drop_bit k (of_nat x :: u32) = of_nat (x div 2 ^ k)"
  by (rule drop_bit_of_nat_len) simp

section \<open>Loops over arrays\<close>

text \<open>The first index below \<open>n\<close> at which a predicate holds: the shape of every search loop.\<close>

fun first_from :: "(nat \<Rightarrow> bool) \<Rightarrow> nat \<Rightarrow> nat \<Rightarrow> nat option" where
  "first_from p i 0 = None"
| "first_from p i (Suc k) = (if p i then Some i else first_from p (Suc i) k)"

lemma first_from_None_iff: "first_from p i k = None \<longleftrightarrow> (\<forall>j. i \<le> j \<and> j < i + k \<longrightarrow> \<not> p j)"
proof (induction k arbitrary: i)
  case 0
  then show ?case by auto
next
  case (Suc k)
  have "(\<forall>j. i \<le> j \<and> j < i + Suc k \<longrightarrow> \<not> p j) \<longleftrightarrow>
    \<not> p i \<and> (\<forall>j. Suc i \<le> j \<and> j < Suc i + k \<longrightarrow> \<not> p j)"
    by (auto simp: Suc_le_eq) (metis le_neq_implies_less)
  with Suc show ?case by simp
qed

lemma first_from_Some:
  "first_from p i k = Some j \<Longrightarrow> i \<le> j \<and> j < i + k \<and> p j \<and> (\<forall>l. i \<le> l \<and> l < j \<longrightarrow> \<not> p l)"
proof (induction k arbitrary: i)
  case 0
  then show ?case by simp
next
  case (Suc k)
  show ?case
  proof (cases "p i")
    case True
    with Suc.prems show ?thesis by auto
  next
    case False
    with Suc.prems have "first_from p (Suc i) k = Some j" by simp
    from Suc.IH [OF this] False show ?thesis
      by (auto simp: Suc_le_eq) (metis le_neq_implies_less)
  qed
qed

lemma first_from_Suc: "first_from p (Suc i) k = map_option Suc (first_from (\<lambda>j. p (Suc j)) i k)"
  by (induction k arbitrary: i) auto

lemma first_from_cong: "(\<And>j. i \<le> j \<Longrightarrow> j < i + k \<Longrightarrow> p j = q j) \<Longrightarrow> first_from p i k = first_from q i k"
  by (induction k arbitrary: i) auto

lemma first_from_add:
  "first_from p i (k + l) = (case first_from p i k of None \<Rightarrow> first_from p (i + k) l | Some j \<Rightarrow> Some j)"
  by (induction k arbitrary: i) (auto split: option.split)

lemma first_from_offset: "first_from p (i + d) k = map_option (\<lambda>j. d + j) (first_from (\<lambda>j. p (d + j)) i k)"
proof (induction k arbitrary: i)
  case (Suc k)
  from Suc [of "Suc i"] show ?case by (simp add: add.commute [of d i])
qed simp

lemma unat_less64: "unat x < 2 ^ 64" for x :: u64
  using unsigned_less [where 'a = nat, of x] by simp

lemma unat_less32: "unat x < 2 ^ 32" for x :: u32
  using unsigned_less [where 'a = nat, of x] by simp

lemma drop_bit_of_nat64: "x < 2 ^ 64 \<Longrightarrow> drop_bit k (of_nat x :: u64) = of_nat (x div 2 ^ k)"
  by (rule drop_bit_of_nat_len) simp

lemma unat_of_nat64: "x < 2 ^ 64 \<Longrightarrow> unat (of_nat x :: u64) = x"
  by (rule unat_of_nat_small) simp

lemma ucast_of_nat: "x < 2 ^ LENGTH('a) \<Longrightarrow> ucast (of_nat x :: 'a :: len word) = (of_nat x :: 'b :: len word)"
  by (simp add: unsigned_of_nat take_bit_nat_eq_self)

lemma high_word:
  fixes n :: u64
  shows "(ucast (drop_bit 32 n) :: u32) = of_nat (unat n div 2 ^ 32)" and "unat n div 2 ^ 32 < 2 ^ 32"
proof -
  have "drop_bit 32 (of_nat (unat n) :: u64) = of_nat (unat n div 2 ^ 32)" by (rule drop_bit_of_nat64 [OF unat_less64])
  then have d: "drop_bit 32 n = of_nat (unat n div 2 ^ 32)" by simp
  show l: "unat n div 2 ^ 32 < 2 ^ 32" using unat_less64 [of n] by (simp add: less_mult_imp_div_less)
  have "unat n div 2 ^ 32 < 2 ^ LENGTH(64)" using l by simp
  then show "(ucast (drop_bit 32 n) :: u32) = of_nat (unat n div 2 ^ 32)" unfolding d by (rule ucast_of_nat)
qed

end
