(* ===== verification/Gpio.thy ===== *)
theory Gpio
  imports KPWM_Base
begin

text \<open>
  The GPIO access layer of both drivers (\<^verbatim>\<open>softPWM/gpio.c\<close>, \<^verbatim>\<open>xenoPWM/gpio.c\<close>) and of the test
  module \<^verbatim>\<open>tests/pi_gpio_access/gpio_access.c\<close>. The register block is hardware: every operation
  takes its word accesses as an argument. The locale \<open>gpio_bank\<close> states what the BCM2835 peripheral
  manual documents about the function-select, set and clear registers; the client facts are
  proved in it once and hold for every device that satisfies it. The record \<open>bcm_gpio\<close> is a register
  block that does.
\<close>

section \<open>Register access\<close>

record 'h mmio =
  io_read :: "'h \<Rightarrow> nat \<Rightarrow> u32"
  io_write :: "'h \<Rightarrow> nat \<Rightarrow> u32 \<Rightarrow> 'h"

definition BCM2837_PERI_BASE :: nat where "BCM2837_PERI_BASE = 0x3F000000"
definition GP_BASE :: nat where "GP_BASE = BCM2837_PERI_BASE + 0x200000"
definition MAP_SIZE :: nat where "MAP_SIZE = 4 * 1024"

text \<open>
  \<open>gpio + i\<close> for the global pointer \<open>volatile unsigned *gpio\<close>: the byte offset in the window that
  \<open>ioremap(GP_BASE, MAP_SIZE)\<close> mapped. The pointer is NULL when the mapping failed.
\<close>

definition gpio_at :: "bool \<Rightarrow> int \<Rightarrow> nat res" where
  "gpio_at gpio i =
     (if \<not> gpio then Inl NullDeref
      else if 0 \<le> i \<and> 4 * i < int MAP_SIZE then Inr (nat (4 * i))
      else Inl OutOfBounds)"

definition gpio_input :: "'h mmio \<Rightarrow> bool \<Rightarrow> s32 \<Rightarrow> 'h \<Rightarrow> 'h res" where
  "gpio_input M gpio pin h =
     rbind (gpio_at gpio (sint pin sdiv 10)) (\<lambda>a.
     rbind (shl32 7 (sint pin smod 10 * 3)) (\<lambda>m.
     Inr (io_write M h a (io_read M h a AND NOT m))))"

definition gpio_output :: "'h mmio \<Rightarrow> bool \<Rightarrow> s32 \<Rightarrow> 'h \<Rightarrow> 'h res" where
  "gpio_output M gpio pin h =
     rbind (gpio_at gpio (sint pin sdiv 10)) (\<lambda>a.
     rbind (shl32 1 (sint pin smod 10 * 3)) (\<lambda>m.
     Inr (io_write M h a (io_read M h a OR m))))"

definition gpio_set :: "'h mmio \<Rightarrow> bool \<Rightarrow> s32 \<Rightarrow> 'h \<Rightarrow> 'h res" where
  "gpio_set M gpio pin h =
     rbind (gpio_at gpio 7) (\<lambda>a.
     rbind (shl32 1 (sint pin)) (\<lambda>v.
     Inr (io_write M h a v)))"

definition gpio_clr :: "'h mmio \<Rightarrow> bool \<Rightarrow> s32 \<Rightarrow> 'h \<Rightarrow> 'h res" where
  "gpio_clr M gpio pin h =
     rbind (gpio_at gpio 10) (\<lambda>a.
     rbind (shl32 1 (sint pin)) (\<lambda>v.
     Inr (io_write M h a v)))"

text \<open>The test module configures pin 16 as an output and drives it high.\<close>

definition set_gpio :: "'h mmio \<Rightarrow> bool \<Rightarrow> s32 \<Rightarrow> 'h \<Rightarrow> 'h res" where
  "set_gpio M gpio pin h =
     rbind (gpio_at gpio 7) (\<lambda>a.
     rbind (shl32 1 (sint pin)) (\<lambda>v.
     Inr (io_write M h a v)))"

definition gp_init :: "'h mmio \<Rightarrow> bool \<Rightarrow> 'h \<Rightarrow> (int \<times> 'h) res" where
  "gp_init M gpio_map h =
     rbind (gpio_input M gpio_map 16 h) (\<lambda>h.
     rbind (gpio_output M gpio_map 16 h) (\<lambda>h.
     rbind (set_gpio M gpio_map 16 h) (\<lambda>h.
     Inr (0, h))))"

section \<open>The documented register block\<close>

text \<open>The three function bits of pin \<open>p\<close> in the function-select words, and the two banks of levels.\<close>

definition pin_function :: "(nat \<Rightarrow> u32) \<Rightarrow> nat \<Rightarrow> u32" where
  "pin_function fs p = take_bit 3 (drop_bit (3 * (p mod 10)) (fs (p div 10)))"

definition pin_latch :: "(nat \<Rightarrow> u32) \<Rightarrow> nat \<Rightarrow> bool" where
  "pin_latch lt p = bit (lt (p div 32)) (p mod 32)"

lemma bit_pin_function:
  "bit (pin_function fs p) n \<longleftrightarrow> n < 3 \<and> bit (fs (p div 10)) (3 * (p mod 10) + n)"
  by (auto simp: pin_function_def bit_simps ac_simps)

text \<open>Three-bit fields at different positions of one word do not meet.\<close>

lemma field_index_eq: "n < 3 \<Longrightarrow> m < 3 \<Longrightarrow> 3 * i + n = 3 * j + (m::nat) \<longleftrightarrow> i = j \<and> n = m"
  by presburger

lemma field_window: "n < 3 \<Longrightarrow> 3 * i \<le> 3 * j + n \<and> 3 * j + n - 3 * i < 3 \<longleftrightarrow> j = (i::nat)"
  by presburger

lemma same_pin: "p div 10 = q div 10 \<Longrightarrow> p mod 10 = q mod 10 \<Longrightarrow> p = (q::nat)"
  by (metis div_mult_mod_eq)

lemma pin_function_set_output:
  assumes "fs' = (\<lambda>i. if i = p div 10 then fs i OR 2 ^ (3 * (p mod 10)) else fs i)"
  shows "pin_function fs' q = (if q = p then pin_function fs p OR 1 else pin_function fs q)"
proof (rule bit_eqI)
  fix n
  have "3 * (p mod 10) < LENGTH(32)" by simp
  have "n < 3 \<Longrightarrow> 3 * (q mod 10) + n = 3 * (p mod 10) \<longleftrightarrow> q mod 10 = p mod 10 \<and> n = 0"
    using field_index_eq [of n 0 "q mod 10" "p mod 10"] by simp
  then show "bit (pin_function fs' q) n =
      bit (if q = p then pin_function fs p OR 1 else pin_function fs q) n"
    using same_pin [of q p]
    by (auto simp: assms bit_pin_function bit_simps bit_1_iff)
qed

lemma pin_function_set_input:
  assumes "fs' = (\<lambda>i. if i = p div 10 then fs i AND NOT (push_bit (3 * (p mod 10)) 7) else fs i)"
  shows "pin_function fs' q = (if q = p then 0 else pin_function fs q)"
proof (rule bit_eqI)
  fix n
  have seven: "(7::u32) = mask 3"
    by (simp add: mask_eq_exp_minus_1)
  have "n < 3 \<Longrightarrow> 3 * (p mod 10) \<le> 3 * (q mod 10) + n \<and> 3 * (q mod 10) + n - 3 * (p mod 10) < 3
      \<longleftrightarrow> q mod 10 = p mod 10"
    by (rule field_window)
  moreover have "n < 3 \<Longrightarrow> 3 * (q mod 10) + n < LENGTH(32)"
    using mod_less_divisor [of 10 q] by simp
  ultimately show "bit (pin_function fs' q) n = bit (if q = p then 0 else pin_function fs q) n"
    using same_pin [of q p]
    unfolding assms seven by (auto simp: bit_pin_function bit_simps)
qed

lemma nonneg_pin_index:
  assumes "sint pin = int p"
  shows "sint pin sdiv 10 = int (p div 10)" "sint pin smod 10 = int (p mod 10)"
  using assms by (simp_all add: sdiv_nonneg smod_nonneg zdiv_int zmod_int)

locale gpio_bank =
  fixes M :: "'h mmio"
    and fsel :: "'h \<Rightarrow> nat \<Rightarrow> u32"
    and latch :: "'h \<Rightarrow> nat \<Rightarrow> u32"
  assumes fsel_read: "i < 6 \<Longrightarrow> io_read M h (4 * i) = fsel h i"
    and fsel_write: "i < 6 \<Longrightarrow> fsel (io_write M h (4 * i) v) = (fsel h)(i := v)"
    and fsel_write_latch: "i < 6 \<Longrightarrow> latch (io_write M h (4 * i) v) = latch h"
    and set_write: "b < 2 \<Longrightarrow> latch (io_write M h (28 + 4 * b) v) = (latch h)(b := latch h b OR v)"
    and set_write_fsel: "b < 2 \<Longrightarrow> fsel (io_write M h (28 + 4 * b) v) = fsel h"
    and clr_write: "b < 2 \<Longrightarrow> latch (io_write M h (40 + 4 * b) v) = (latch h)(b := latch h b AND NOT v)"
    and clr_write_fsel: "b < 2 \<Longrightarrow> fsel (io_write M h (40 + 4 * b) v) = fsel h"
begin

lemma gpio_input_spec:
  assumes "sint pin = int p" "p < 54"
  shows "\<exists>h'. gpio_input M True pin h = Inr h' \<and> latch h' = latch h \<and>
    (\<forall>q. pin_function (fsel h') q = (if q = p then 0 else pin_function (fsel h) q))"
proof -
  have i: "p div 10 < 6" and m: "p mod 10 < 10" using assms by auto
  let ?h = "io_write M h (4 * (p div 10)) (fsel h (p div 10) AND NOT (push_bit (3 * (p mod 10)) 7))"
  have "gpio_input M True pin h = Inr ?h"
    using i m by (simp add: gpio_input_def nonneg_pin_index [OF assms(1)] gpio_at_def MAP_SIZE_def
        fsel_read nat_mult_distrib mult.commute)
  moreover have "pin_function (fsel ?h) q = (if q = p then 0 else pin_function (fsel h) q)" for q
    using i by (intro pin_function_set_input) (auto simp: fsel_write)
  ultimately show ?thesis using fsel_write_latch [OF i] by blast
qed

lemma gpio_output_spec:
  assumes "sint pin = int p" "p < 54"
  shows "\<exists>h'. gpio_output M True pin h = Inr h' \<and> latch h' = latch h \<and>
    (\<forall>q. pin_function (fsel h') q =
       (if q = p then pin_function (fsel h) p OR 1 else pin_function (fsel h) q))"
proof -
  have i: "p div 10 < 6" and m: "p mod 10 < 10" using assms by auto
  let ?h = "io_write M h (4 * (p div 10)) (fsel h (p div 10) OR 2 ^ (3 * (p mod 10)))"
  have "gpio_output M True pin h = Inr ?h"
    using i m by (simp add: gpio_output_def nonneg_pin_index [OF assms(1)] gpio_at_def MAP_SIZE_def
        fsel_read nat_mult_distrib mult.commute)
  moreover have "pin_function (fsel ?h) q =
      (if q = p then pin_function (fsel h) p OR 1 else pin_function (fsel h) q)" for q
    using i by (intro pin_function_set_output) (auto simp: fsel_write)
  ultimately show ?thesis using fsel_write_latch [OF i] by blast
qed

lemma gpio_set_spec:
  assumes "sint pin = int p" "p < 32"
  shows "\<exists>h'. gpio_set M True pin h = Inr h' \<and> fsel h' = fsel h \<and>
    latch h' = (latch h)(0 := latch h 0 OR 2 ^ p)"
proof -
  have "gpio_set M True pin h = Inr (io_write M h (28 + 4 * 0) (2 ^ p))"
    using assms by (simp add: gpio_set_def gpio_at_def MAP_SIZE_def)
  then show ?thesis using set_write [of 0 h] set_write_fsel [of 0 h] by auto
qed

lemma gpio_clr_spec:
  assumes "sint pin = int p" "p < 32"
  shows "\<exists>h'. gpio_clr M True pin h = Inr h' \<and> fsel h' = fsel h \<and>
    latch h' = (latch h)(0 := latch h 0 AND NOT (2 ^ p))"
proof -
  have "gpio_clr M True pin h = Inr (io_write M h (40 + 4 * 0) (2 ^ p))"
    using assms by (simp add: gpio_clr_def gpio_at_def MAP_SIZE_def)
  then show ?thesis using clr_write [of 0 h] clr_write_fsel [of 0 h] by auto
qed

end

text \<open>A set or clear write moves the level of its own pin and of no other.\<close>

lemma pin_latch_set: "p < 32 \<Longrightarrow> pin_latch (lt(0 := lt 0 OR 2 ^ p)) q \<longleftrightarrow> q = p \<or> pin_latch lt q"
  by (auto simp: pin_latch_def bit_simps)

lemma pin_latch_clr:
  "p < 32 \<Longrightarrow> pin_latch (lt(0 := lt 0 AND NOT (2 ^ p))) q \<longleftrightarrow> q \<noteq> p \<and> pin_latch lt q"
  by (auto simp: pin_latch_def bit_simps)

section \<open>A register block\<close>

record bcm_gpio =
  bg_fsel :: "nat \<Rightarrow> u32"
  bg_latch :: "nat \<Rightarrow> u32"
  bg_other :: "nat \<Rightarrow> u32"

definition bcm_read :: "bcm_gpio \<Rightarrow> nat \<Rightarrow> u32" where
  "bcm_read h a =
     (if a < 24 \<and> a mod 4 = 0 then bg_fsel h (a div 4)
      else if a = 28 \<or> a = 32 \<or> a = 40 \<or> a = 44 then 0
      else if a = 52 then bg_latch h 0
      else if a = 56 then bg_latch h 1
      else bg_other h a)"

definition bcm_write :: "bcm_gpio \<Rightarrow> nat \<Rightarrow> u32 \<Rightarrow> bcm_gpio" where
  "bcm_write h a v =
     (if a < 24 \<and> a mod 4 = 0 then h\<lparr>bg_fsel := (bg_fsel h)(a div 4 := v)\<rparr>
      else if a = 28 then h\<lparr>bg_latch := (bg_latch h)(0 := bg_latch h 0 OR v)\<rparr>
      else if a = 32 then h\<lparr>bg_latch := (bg_latch h)(1 := bg_latch h 1 OR v)\<rparr>
      else if a = 40 then h\<lparr>bg_latch := (bg_latch h)(0 := bg_latch h 0 AND NOT v)\<rparr>
      else if a = 44 then h\<lparr>bg_latch := (bg_latch h)(1 := bg_latch h 1 AND NOT v)\<rparr>
      else if a = 52 \<or> a = 56 then h
      else h\<lparr>bg_other := (bg_other h)(a := v)\<rparr>)"

definition bcm_mmio :: "bcm_gpio mmio" where
  "bcm_mmio = \<lparr>io_read = bcm_read, io_write = bcm_write\<rparr>"

definition bcm_reset :: bcm_gpio where
  "bcm_reset = \<lparr>bg_fsel = (\<lambda>_. 0), bg_latch = (\<lambda>_. 0), bg_other = (\<lambda>_. 0)\<rparr>"

interpretation bcm: gpio_bank bcm_mmio bg_fsel bg_latch
proof (unfold_locales, goal_cases)
  case (4 b h v) then show ?case by (cases b) (auto simp: bcm_mmio_def bcm_write_def)
next
  case (5 b h v) then show ?case by (cases b) (auto simp: bcm_mmio_def bcm_write_def)
next
  case (6 b h v) then show ?case by (cases b) (auto simp: bcm_mmio_def bcm_write_def)
next
  case (7 b h v) then show ?case by (cases b) (auto simp: bcm_mmio_def bcm_write_def)
qed (auto simp: bcm_mmio_def bcm_read_def bcm_write_def)

section \<open>Properties\<close>

text \<open>
  C13: On a device with the documented registers, \<open>gpio_input\<close> followed by \<open>gpio_output\<close> makes a pin of the
  54 an output, whatever function it had, and changes neither the function of another pin nor a level.
\<close>

theorem gpio_configure_output:
  assumes "gpio_bank M fsel latch" "sint pin = int p" "p < 54"
  shows "\<exists>h1 h2. gpio_input M True pin h = Inr h1 \<and> gpio_output M True pin h1 = Inr h2 \<and> latch h2 = latch h \<and>
    (\<forall>q. pin_function (fsel h2) q = (if q = p then 1 else pin_function (fsel h) q))"
proof -
  from gpio_bank.gpio_input_spec [OF assms, of h] obtain h1
    where 1: "gpio_input M True pin h = Inr h1" "latch h1 = latch h"
      "\<And>q. pin_function (fsel h1) q = (if q = p then 0 else pin_function (fsel h) q)" by blast
  from gpio_bank.gpio_output_spec [OF assms, of h1] obtain h2
    where 2: "gpio_output M True pin h1 = Inr h2" "latch h2 = latch h1"
      "\<And>q. pin_function (fsel h2) q = (if q = p then pin_function (fsel h1) p OR 1 else pin_function (fsel h1) q)"
    by blast
  show ?thesis using 1 2 by (intro exI [of _ h1] exI [of _ h2]) simp
qed

theorem gpio_configure_output_witness:
  "gpio_bank bcm_mmio bg_fsel bg_latch \<and> sint (16::s32) = int 16 \<and>
   (\<exists>h1 h2. gpio_input bcm_mmio True 16 bcm_reset = Inr h1 \<and> gpio_output bcm_mmio True 16 h1 = Inr h2 \<and>
      bg_latch h2 = bg_latch bcm_reset \<and>
      (\<forall>q. pin_function (bg_fsel h2) q = (if q = 16 then 1 else pin_function (bg_fsel bcm_reset) q)))"
proof -
  have p: "sint (16::s32) = int 16" by simp
  from gpio_configure_output [OF bcm.gpio_bank_axioms p, of bcm_reset] show ?thesis
    using p bcm.gpio_bank_axioms by simp
qed

text \<open>
  \<open>gpio_output\<close> alone only sets the lowest function bit of its pin: the pin becomes an output exactly
  when it was an input or an output before, and an alternate function stays an alternate function.
\<close>

theorem gpio_output_alone:
  assumes "gpio_bank M fsel latch" "sint pin = int p" "p < 54"
  shows "\<exists>h'. gpio_output M True pin h = Inr h' \<and> pin_function (fsel h') p = pin_function (fsel h) p OR 1 \<and>
    (pin_function (fsel h') p = 1 \<longleftrightarrow> pin_function (fsel h) p \<in> {0, 1})"
proof -
  from gpio_bank.gpio_output_spec [OF assms, of h] obtain h' where h':
    "gpio_output M True pin h = Inr h'" "pin_function (fsel h') p = pin_function (fsel h) p OR 1" by auto
  have "w OR 1 = 1 \<longleftrightarrow> w \<in> {0, 1}" for w :: u32
  proof
    assume e: "w OR 1 = 1"
    have "bit w n \<Longrightarrow> n = 0" for n
      using e by (metis bit_1_iff bit_or_iff)
    then have "w = of_bool (bit w 0)" by (intro bit_eqI) (auto simp: bit_simps)
    then show "w \<in> {0, 1}" by (cases "bit w 0") auto
  qed auto
  with h' show ?thesis by auto
qed

theorem gpio_output_alone_witness:
  "\<exists>h'. gpio_output bcm_mmio True 14 (bcm_reset\<lparr>bg_fsel := (\<lambda>_. 0x4000)\<rparr>) = Inr h' \<and>
    pin_function (bg_fsel h') 14 = 4 OR 1 \<and> pin_function (bg_fsel h') 14 \<noteq> 1"
proof -
  have p: "sint (14::s32) = int 14" by simp
  have "pin_function (bg_fsel (bcm_reset\<lparr>bg_fsel := (\<lambda>_. 0x4000)\<rparr>)) 14 = 4"
    by (simp add: pin_function_def)
  with gpio_output_alone [OF bcm.gpio_bank_axioms p, of "bcm_reset\<lparr>bg_fsel := (\<lambda>_. 0x4000)\<rparr>"]
  show ?thesis by auto
qed

text \<open>
  C14: \<open>gpio_set\<close> raises and \<open>gpio_clr\<close> lowers the level of its own pin and of no other, and both leave
  the pin functions alone; a pin number outside 0 to 31 has no defined shift, so the pins 32 to 53 of
  the second bank cannot be driven.
\<close>

theorem gpio_levels:
  assumes "gpio_bank M fsel latch"
  shows "(if 0 \<le> sint pin \<and> sint pin < 32
    then (\<exists>h1 h2. gpio_set M True pin h = Inr h1 \<and> gpio_clr M True pin h = Inr h2 \<and>
      fsel h1 = fsel h \<and> fsel h2 = fsel h \<and>
      (\<forall>q. pin_latch (latch h1) q = (q = nat (sint pin) \<or> pin_latch (latch h) q)) \<and>
      (\<forall>q. pin_latch (latch h2) q = (q \<noteq> nat (sint pin) \<and> pin_latch (latch h) q)))
    else gpio_set M True pin h = Inl ShiftRange \<and> gpio_clr M True pin h = Inl ShiftRange)"
proof (cases "0 \<le> sint pin \<and> sint pin < 32")
  case True
  then have p: "sint pin = int (nat (sint pin))" "nat (sint pin) < 32" by auto
  from gpio_bank.gpio_set_spec [OF assms p, of h] gpio_bank.gpio_clr_spec [OF assms p, of h] True
  show ?thesis by (auto simp: pin_latch_set [OF p(2)] pin_latch_clr [OF p(2)])
next
  case False
  then show ?thesis by (auto simp: gpio_set_def gpio_clr_def gpio_at_def MAP_SIZE_def shl32_def)
qed

theorem gpio_levels_witness:
  "gpio_bank bcm_mmio bg_fsel bg_latch \<and>
   (\<exists>h1 h2. gpio_set bcm_mmio True 21 bcm_reset = Inr h1 \<and> gpio_clr bcm_mmio True 21 bcm_reset = Inr h2 \<and>
      bg_fsel h1 = bg_fsel bcm_reset \<and> bg_fsel h2 = bg_fsel bcm_reset \<and>
      (\<forall>q. pin_latch (bg_latch h1) q = (q = 21 \<or> pin_latch (bg_latch bcm_reset) q)) \<and>
      (\<forall>q. pin_latch (bg_latch h2) q = (q \<noteq> 21 \<and> pin_latch (bg_latch bcm_reset) q)))"
  using gpio_levels [OF bcm.gpio_bank_axioms, of 21 bcm_reset] bcm.gpio_bank_axioms by simp

text \<open>
  No pin number is checked: \<open>gpio_output\<close> of pin 70 to 79 writes the word of the set register, and so
  drives pin \<open>3 * (pin - 70)\<close> high.
\<close>

theorem gpio_output_hits_set_register:
  assumes "gpio_bank M fsel latch" "sint pin = int p" "70 \<le> p" "p \<le> 79"
  shows "\<exists>h'. gpio_output M True pin h = Inr h' \<and> pin_latch (latch h') (3 * (p - 70))"
proof -
  have i: "p div 10 = 7" "p mod 10 = p - 70" using assms(3,4) by presburger+
  let ?v = "io_read M h 28 OR 2 ^ (3 * (p - 70))"
  have e: "nat (int p * 3 - 210) = 3 * (p - 70)" using assms(3) by linarith
  have le: "3 * (p - 70) < 32" using assms(4) by linarith
  have "gpio_output M True pin h = Inr (io_write M h (28 + 4 * 0) ?v)"
    using i assms(4) by (simp add: gpio_output_def nonneg_pin_index [OF assms(2)] gpio_at_def MAP_SIZE_def
        nat_mult_distrib mult.commute e)
  moreover have "pin_latch (latch (io_write M h (28 + 4 * 0) ?v)) (3 * (p - 70))"
    using le gpio_bank.set_write [OF assms(1), of 0 h ?v]
    by (simp add: pin_latch_def bit_simps)
  ultimately show ?thesis by blast
qed

theorem gpio_output_hits_set_register_witness:
  "\<exists>h'. gpio_output bcm_mmio True 72 bcm_reset = Inr h' \<and> pin_latch (bg_latch h') 6"
proof -
  have p: "sint (72::s32) = int 72" by simp
  from gpio_output_hits_set_register [OF bcm.gpio_bank_axioms p, of bcm_reset] show ?thesis by simp
qed

end
