(* ===== verification/Pwm_Common.thy ===== *)
theory Pwm_Common
  imports Gpio
begin

text \<open>
  What the two drivers share: the encoding of ioctl commands (\<^verbatim>\<open>include/uapi/asm-generic/ioctl.h\<close>),
  the per-pin record \<open>Dutycycle\<close>, reads of the caller's argument array, the search loop of the
  \<open>PWM_SET\<close> command, and the contract between the two halves of a PWM period as a locale.
\<close>

section \<open>ioctl command words\<close>

definition IOC :: "u32 \<Rightarrow> u32 \<Rightarrow> u32 \<Rightarrow> u32 \<Rightarrow> u32" where
  "IOC dir type nr sz = push_bit 30 dir OR push_bit 8 type OR push_bit 0 nr OR push_bit 16 sz"

definition IOW :: "u32 \<Rightarrow> u32 \<Rightarrow> u32 \<Rightarrow> u32" where
  "IOW type nr sz = IOC 1 type nr sz"

definition IOC_DIR :: "u32 \<Rightarrow> u32" where "IOC_DIR nr = drop_bit 30 nr AND 3"
definition IOC_TYPE :: "u32 \<Rightarrow> u32" where "IOC_TYPE nr = drop_bit 8 nr AND 255"
definition IOC_NR :: "u32 \<Rightarrow> u32" where "IOC_NR nr = drop_bit 0 nr AND 255"
definition IOC_SIZE :: "u32 \<Rightarrow> u32" where "IOC_SIZE nr = drop_bit 16 nr AND 16383"

definition IOC_WRITE :: u32 where "IOC_WRITE = 1"
definition IOC_READ :: u32 where "IOC_READ = 2"

text \<open>\<open>sizeof(int *)\<close> on the 32-bit target.\<close>

definition sizeof_int_ptr :: u32 where "sizeof_int_ptr = 4"

text \<open>The decoders return the fields that were encoded, when each fits its width.\<close>

lemma mask_consts:
  "(3::u32) = mask 2" "(255::u32) = mask 8" "(16383::u32) = mask 14"
  by (simp_all add: mask_eq_exp_minus_1)

lemma bit_beyond:
  fixes w :: u32
  assumes "w < 2 ^ n" "n < 32" "n \<le> m"
  shows "\<not> bit w m"
proof -
  have "take_bit n w = w" using assms by (simp add: take_bit_eq_mask less_mask_eq)
  then show ?thesis using assms(3) by (metis bit_take_bit_iff not_less)
qed

lemma IOC_roundtrip:
  assumes "dir < 2 ^ 2" "type < 2 ^ 8" "nr < 2 ^ 8" "sz < 2 ^ 14"
  shows "IOC_DIR (IOC dir type nr sz) = dir" "IOC_TYPE (IOC dir type nr sz) = type"
    "IOC_NR (IOC dir type nr sz) = nr" "IOC_SIZE (IOC dir type nr sz) = sz"
proof -
  note b = bit_beyond [OF assms(1)] bit_beyond [OF assms(2)] bit_beyond [OF assms(3)]
    bit_beyond [OF assms(4)]
  note d = IOC_def mask_consts bit_simps
  show "IOC_DIR (IOC dir type nr sz) = dir"
    by (rule bit_eqI) (use b in \<open>auto simp: IOC_DIR_def d not_le [symmetric]\<close>)
  show "IOC_TYPE (IOC dir type nr sz) = type"
    by (rule bit_eqI) (use b in \<open>auto simp: IOC_TYPE_def d not_le [symmetric]\<close>)
  show "IOC_NR (IOC dir type nr sz) = nr"
    by (rule bit_eqI) (use b in \<open>auto simp: IOC_NR_def d not_le [symmetric]\<close>)
  show "IOC_SIZE (IOC dir type nr sz) = sz"
    by (rule bit_eqI) (use b in \<open>auto simp: IOC_SIZE_def d not_le [symmetric]\<close>)
qed

section \<open>Per-pin data\<close>

record Dutycycle =
  dc_pin :: s32
  dc_duty_cycle :: s32
  dc_min :: s32
  dc_max :: s32

text \<open>What \<open>kzalloc\<close> leaves in an array of these records.\<close>

definition dc_zero :: Dutycycle where
  "dc_zero = \<lparr>dc_pin = 0, dc_duty_cycle = 0, dc_min = 0, dc_max = 0\<rparr>"

definition MAX_PWM_NUM :: nat where "MAX_PWM_NUM = 5"

definition PWM_FREQ :: s32 where "PWM_FREQ = 100"

definition task_names :: "string list" where
  "task_names = [''pwmtask_1'', ''pwmtask_2'', ''pwmtask_3'', ''pwmtask_4'', ''pwmtask_5'']"

lemma length_task_names [simp]: "length task_names = 5"
  by (simp add: task_names_def)

text \<open>\<open>PWM_RANGE\<close>, the same macro in both drivers.\<close>

definition PWM_RANGE :: "Dutycycle \<Rightarrow> s32" where
  "PWM_RANGE d = dc_max d - dc_min d"

section \<open>The caller's memory\<close>

text \<open>
  The drivers read the argument array through the user pointer itself: \<open>tmp[i]\<close> is the word at
  \<open>arg + 4 * i\<close>, and a fault when that address cannot be read.
\<close>

type_synonym umem = "u32 \<Rightarrow> s32 option"

definition tmp_at :: "umem \<Rightarrow> u32 \<Rightarrow> nat \<Rightarrow> s32 res" where
  "tmp_at um arg i = (case um (arg + 4 * of_nat i) of None \<Rightarrow> Inl UserFault | Some v \<Rightarrow> Inr v)"

lemma tmp_at_Some [simp]: "um (arg + 4 * of_nat i) = Some v \<Longrightarrow> tmp_at um arg i = Inr v"
  by (simp add: tmp_at_def)

text \<open>A user array of \<open>int\<close>s laid out at an address.\<close>

definition umem_of :: "u32 \<Rightarrow> s32 list \<Rightarrow> umem" where
  "umem_of arg xs a =
     (let i = unat (a - arg) in if i mod 4 = 0 \<and> i div 4 < length xs then Some (xs ! (i div 4)) else None)"

lemma tmp_at_umem_of:
  assumes "i < length xs" "i < 2 ^ 29"
  shows "tmp_at (umem_of arg xs) arg i = Inr (xs ! i)"
proof -
  have "unat (4 * of_nat i :: u32) = 4 * i"
    using assms(2) by (simp add: unat_word_ariths unat_of_nat take_bit_nat_eq_self)
  then show ?thesis using assms(1) by (simp add: tmp_at_def umem_of_def)
qed

section \<open>The search loop of PWM\_SET\<close>

text \<open>
  \<^verbatim>\<open>for (i = 0; i < pwm_pin_count; i++) if (duty_array[i].pin == tmp[0]) { pin_exist = 1; pos = i; break; }\<close>
  The argument is read in every iteration, so not at all when no pin is registered.
\<close>

fun find_pin :: "s32 res \<Rightarrow> Dutycycle list option \<Rightarrow> nat \<Rightarrow> nat \<Rightarrow> nat option res" where
  "find_pin tmp0 da i 0 = Inr None"
| "find_pin tmp0 da i (Suc k) =
     rbind (deref da) (\<lambda>d.
     rbind (arr_get d i) (\<lambda>e.
     rbind tmp0 (\<lambda>p.
     if dc_pin e = p then Inr (Some i) else find_pin tmp0 da (Suc i) k)))"

lemma find_pin_first_from:
  "i + k \<le> length d \<Longrightarrow>
   find_pin (Inr p) (Some d) i k = Inr (first_from (\<lambda>j. dc_pin (d ! j) = p) i k)"
  by (induction k arbitrary: i) auto

lemma find_pin_Inr_bound:
  "find_pin tmp0 da i k = Inr (Some j) \<Longrightarrow> i \<le> j \<and> j < i + k"
  by (induction k arbitrary: i) (fastforce simp: rbind_Inr_iff split: if_splits)+

lemma find_pin_reads:
  "find_pin tmp0 da i k = Inr (Some j) \<Longrightarrow> \<exists>p. tmp0 = Inr p"
  by (cases k) (auto simp: rbind_Inr_iff)

section \<open>The two halves of a period\<close>

text \<open>
  A driver computes from one record how long the pin stays high and how long it stays low.
  \<open>wf\<close> are the records it computes for without overflow, \<open>P\<close> is the nominal period and
  \<open>slack\<close> what rounding may take from it.
\<close>

locale pwm_timing =
  fixes high :: "Dutycycle \<Rightarrow> s32 res"
    and low :: "Dutycycle \<Rightarrow> s32 res"
    and P :: int
    and slack :: "Dutycycle \<Rightarrow> int"
    and wf :: "Dutycycle \<Rightarrow> bool"
  assumes period_pos: "0 < P"
    and halves: "wf d \<Longrightarrow> \<exists>h l. high d = Inr h \<and> low d = Inr l \<and> 0 \<le> sint h \<and> 0 \<le> sint l \<and>
        P - slack d \<le> sint h + sint l \<and> sint h + sint l \<le> P"
begin

lemma high_total: "wf d \<Longrightarrow> \<exists>h. high d = Inr h \<and> 0 \<le> sint h \<and> sint h \<le> P"
  using halves [of d] by fastforce

lemma low_total: "wf d \<Longrightarrow> \<exists>l. low d = Inr l \<and> 0 \<le> sint l \<and> sint l \<le> P"
  using halves [of d] by fastforce

text \<open>As the unsigned argument of the sleep call, both halves keep their value.\<close>

lemma halves_unsigned:
  assumes "wf d" "high d = Inr h" "low d = Inr l"
  shows "uint h + uint l \<le> P" "P - slack d \<le> uint h + uint l"
  using halves [OF assms(1)] assms(2,3) by (auto simp: uint_eq_sint_nonneg)

end

section \<open>What a PWM driver promises its callers\<close>

text \<open>
  The abstract contract: the registered pins form a list of at most \<open>MAX_PWM_NUM\<close> entries; a new
  registration goes to its end, a new duty cycle goes to the first entry of the named pin.
\<close>

definition pin_ids :: "Dutycycle \<Rightarrow> s32 \<times> s32 \<times> s32" where
  "pin_ids d = (dc_pin d, dc_min d, dc_max d)"

fun set_first :: "s32 \<Rightarrow> s32 \<Rightarrow> Dutycycle list \<Rightarrow> Dutycycle list" where
  "set_first p v [] = []"
| "set_first p v (d # ds) =
     (if dc_pin d = p then d\<lparr>dc_duty_cycle := v\<rparr> # ds else d # set_first p v ds)"

lemma length_set_first [simp]: "length (set_first p v ds) = length ds"
  by (induction ds) auto

lemma set_first_ids [simp]: "map pin_ids (set_first p v ds) = map pin_ids ds"
  by (induction ds) (auto simp: pin_ids_def)

lemma set_first_unknown: "p \<notin> dc_pin ` set ds \<Longrightarrow> set_first p v ds = ds"
  by (induction ds) auto

lemma set_first_update:
  assumes "j < length ds" "dc_pin (ds ! j) = p" "\<forall>i < j. dc_pin (ds ! i) \<noteq> p"
  shows "set_first p v ds = ds[j := (ds ! j)\<lparr>dc_duty_cycle := v\<rparr>]"
  using assms
proof (induction ds arbitrary: j)
  case Nil
  then show ?case by simp
next
  case (Cons d ds)
  show ?case
  proof (cases j)
    case 0
    with Cons.prems show ?thesis by simp
  next
    case (Suc j')
    with Cons.prems have "dc_pin d \<noteq> p" "\<forall>i < j'. dc_pin (ds ! i) \<noteq> p" by fastforce+
    with Suc Cons show ?thesis by simp
  qed
qed

fun run_ioctls :: "('e \<Rightarrow> 's \<Rightarrow> (int \<times> 's) res) \<Rightarrow> 'e list \<Rightarrow> 's \<Rightarrow> (int list \<times> 's) res" where
  "run_ioctls f [] s = Inr ([], s)"
| "run_ioctls f (e # es) s =
     rbind (f e s) (\<lambda>(r, s'). rbind (run_ioctls f es s') (\<lambda>(rs, s''). Inr (r # rs, s'')))"

locale pwm_driver =
  fixes ioctl :: "'e \<Rightarrow> 's \<Rightarrow> (int \<times> 's) res"
    and inv :: "'s \<Rightarrow> bool"
    and pins :: "'s \<Rightarrow> Dutycycle list"
    and hwst :: "'s \<Rightarrow> 'h"
  assumes inv_ioctl: "inv s \<Longrightarrow> ioctl e s = Inr (r, s') \<Longrightarrow> inv s'"
    and error_frame: "inv s \<Longrightarrow> ioctl e s = Inr (r, s') \<Longrightarrow> r \<noteq> 0 \<Longrightarrow> pins s' = pins s \<and> hwst s' = hwst s"
    and append_only: "inv s \<Longrightarrow> ioctl e s = Inr (r, s') \<Longrightarrow>
        \<exists>ys. map pin_ids (pins s') = map pin_ids (pins s) @ ys"
    and capacity: "inv s \<Longrightarrow> length (pins s) \<le> MAX_PWM_NUM"
begin

lemma run_inv: "inv s \<Longrightarrow> run_ioctls ioctl es s = Inr (rs, s') \<Longrightarrow> inv s'"
proof (induction es arbitrary: s rs)
  case Nil
  then show ?case by simp
next
  case (Cons e es)
  then show ?case by (auto simp: rbind_Inr_iff dest: inv_ioctl)
qed

lemma run_append_only:
  "inv s \<Longrightarrow> run_ioctls ioctl es s = Inr (rs, s') \<Longrightarrow>
   \<exists>ys. map pin_ids (pins s') = map pin_ids (pins s) @ ys"
proof (induction es arbitrary: s rs)
  case Nil
  then show ?case by simp
next
  case (Cons e es)
  then obtain r s1 rs1 where 1: "ioctl e s = Inr (r, s1)" "run_ioctls ioctl es s1 = Inr (rs1, s')"
    by (auto simp: rbind_Inr_iff)
  from Cons.IH [OF inv_ioctl [OF Cons.prems(1) 1(1)] 1(2)] append_only [OF Cons.prems(1) 1(1)]
  show ?case by auto
qed

lemma run_error_frame:
  "inv s \<Longrightarrow> run_ioctls ioctl es s = Inr (rs, s') \<Longrightarrow> 0 \<notin> set rs \<Longrightarrow> pins s' = pins s \<and> hwst s' = hwst s"
proof (induction es arbitrary: s rs)
  case Nil
  then show ?case by simp
next
  case (Cons e es)
  then obtain r s1 rs1 where 1: "ioctl e s = Inr (r, s1)" "run_ioctls ioctl es s1 = Inr (rs1, s')"
      "rs = r # rs1"
    by (auto simp: rbind_Inr_iff)
  with Cons.prems error_frame [OF Cons.prems(1) 1(1)] Cons.IH [OF inv_ioctl [OF Cons.prems(1) 1(1)] 1(2)]
  show ?case by auto
qed

lemma run_slot_stable:
  assumes "inv s" "run_ioctls ioctl es s = Inr (rs, s')" "i < length (pins s)"
  shows "i < length (pins s') \<and> pin_ids (pins s' ! i) = pin_ids (pins s ! i)"
proof -
  from run_append_only [OF assms(1,2)] obtain ys
    where ys: "map pin_ids (pins s') = map pin_ids (pins s) @ ys" by blast
  then have len: "length (pins s) \<le> length (pins s')"
    by (metis length_append length_map le_add1)
  have "map pin_ids (pins s') ! i = map pin_ids (pins s) ! i"
    using assms(3) by (simp add: ys nth_append)
  with len assms(3) show ?thesis by simp
qed

end

end
