(* ===== verification/SoftPWM.thy ===== *)
theory SoftPWM
  imports Pwm_Common
begin

text \<open>
  The character-device driver \<^verbatim>\<open>softPWM/main.c\<close>: its global variables as a record, the whole ioctl
  handler with every branch, module load and unload, and the two sleep times a PWM thread computes.
  Kernel services (\<open>access_ok\<close>, \<open>kthread_create\<close>, \<open>kzalloc\<close>, \<open>alloc_chrdev_region\<close>, \<open>cdev_add\<close>,
  \<open>ioremap\<close>) answer as the environment argument says; what the driver holds of the kernel is the list
  \<open>held\<close>.
\<close>

section \<open>State\<close>

text \<open>Kernel resources a module acquires and releases, and what it reports.\<close>

datatype kres = IoMap | DutyMem | TskMem | DevRegion | CdevMem | CdevReg | Thread nat

datatype kmsg =
    Warn string
  | WarnAt string nat
  | InfoDuty Dutycycle

type_synonym task = nat

record 'h softpwm =
  duty_array :: "Dutycycle list option"
  pwm_tsk :: "task option list option"
  pwm_pin_count :: nat
  gpio_map :: bool
  cdevp :: bool
  dev_major :: nat
  hw :: 'h
  held :: "kres list"
  woken :: "task list"
  klog :: "kmsg list"

definition log_msg :: "kmsg \<Rightarrow> 'h softpwm \<Rightarrow> 'h softpwm" where
  "log_msg m s = s\<lparr>klog := klog s @ [m]\<rparr>"

definition ENOTTY :: int where "ENOTTY = 25"
definition EFAULT :: int where "EFAULT = 14"

section \<open>Commands\<close>

definition PWM_MAGIC_NUM :: u32 where "PWM_MAGIC_NUM = 0xF1"

definition PIN_SET :: u32 where "PIN_SET = IOW PWM_MAGIC_NUM 0 sizeof_int_ptr"
definition GPIO_SET :: u32 where "GPIO_SET = IOW PWM_MAGIC_NUM 1 sizeof_int_ptr"
definition PWM_INIT :: u32 where "PWM_INIT = IOW PWM_MAGIC_NUM 2 sizeof_int_ptr"
definition PWM_SET :: u32 where "PWM_SET = IOW PWM_MAGIC_NUM 3 sizeof_int_ptr"

text \<open>What the kernel answers during one ioctl call, and the caller's memory.\<close>

record kenv =
  access_ok :: "u32 \<Rightarrow> u32 \<Rightarrow> bool"
  kthread_create :: "nat \<Rightarrow> int + task"
  user_mem :: umem

section \<open>The ioctl handler\<close>

definition ioctl_PIN_SET :: "'h mmio \<Rightarrow> kenv \<Rightarrow> u32 \<Rightarrow> 'h softpwm \<Rightarrow> (int \<times> 'h softpwm) res" where
  "ioctl_PIN_SET M E arg s =
     rbind (tmp_at (user_mem E) arg 1) (\<lambda>t1.
     if t1 \<noteq> 0 \<and> t1 \<noteq> 1 then Inr (0, log_msg (Warn ''wrong pin type input for PIN_SET!'') s)
     else rbind (tmp_at (user_mem E) arg 0) (\<lambda>t0.
       rbind (if t1 = 0 then gpio_input M (gpio_map s) t0 (hw s) else gpio_output M (gpio_map s) t0 (hw s)) (\<lambda>h.
       Inr (0, s\<lparr>hw := h\<rparr>))))"

definition ioctl_GPIO_SET :: "'h mmio \<Rightarrow> kenv \<Rightarrow> u32 \<Rightarrow> 'h softpwm \<Rightarrow> (int \<times> 'h softpwm) res" where
  "ioctl_GPIO_SET M E arg s =
     rbind (tmp_at (user_mem E) arg 1) (\<lambda>t1.
     if t1 \<noteq> 0 \<and> t1 \<noteq> 1 then Inr (0, log_msg (Warn ''wrong pin type input for GPIO_SET!'') s)
     else rbind (tmp_at (user_mem E) arg 0) (\<lambda>t0.
       rbind (if t1 = 0 then gpio_clr M (gpio_map s) t0 (hw s) else gpio_set M (gpio_map s) t0 (hw s)) (\<lambda>h.
       Inr (0, s\<lparr>hw := h\<rparr>))))"

text \<open>
  \<open>PWM_INIT\<close> has no test of \<open>pwm_pin_count\<close>: \<open>name[pwm_pin_count]\<close> and \<open>pwm_tsk[pwm_pin_count]\<close> are
  out of bounds once five pins are registered.
\<close>

definition ioctl_PWM_INIT :: "kenv \<Rightarrow> u32 \<Rightarrow> 'h softpwm \<Rightarrow> (int \<times> 'h softpwm) res" where
  "ioctl_PWM_INIT E arg s =
     (let n = pwm_pin_count s in
     rbind (arr_get task_names n) (\<lambda>_.
     rbind (deref (pwm_tsk s)) (\<lambda>tsk.
     case kthread_create E n of
       Inl e \<Rightarrow>
         rbind (arr_set tsk n None) (\<lambda>tsk'.
         Inr (e, log_msg (WarnAt ''failed to create kthread'' n) (s\<lparr>pwm_tsk := Some tsk'\<rparr>)))
     | Inr t \<Rightarrow>
         rbind (arr_set tsk n (Some t)) (\<lambda>tsk'.
         rbind (tmp_at (user_mem E) arg 0) (\<lambda>t0.
         rbind (tmp_at (user_mem E) arg 1) (\<lambda>t1.
         rbind (tmp_at (user_mem E) arg 2) (\<lambda>t2.
         rbind (deref (duty_array s)) (\<lambda>da.
         let d = \<lparr>dc_pin = t0, dc_duty_cycle = 0, dc_min = t1, dc_max = t2\<rparr> in
         rbind (arr_set da n d) (\<lambda>da'.
         Inr (0, log_msg (InfoDuty d)
           (s\<lparr>pwm_tsk := Some tsk', duty_array := Some da', pwm_pin_count := Suc n,
              held := Thread n # held s, woken := woken s @ [t]\<rparr>))))))))))) "

definition ioctl_PWM_SET :: "kenv \<Rightarrow> u32 \<Rightarrow> 'h softpwm \<Rightarrow> (int \<times> 'h softpwm) res" where
  "ioctl_PWM_SET E arg s =
     rbind (find_pin (tmp_at (user_mem E) arg 0) (duty_array s) 0 (pwm_pin_count s)) (\<lambda>r.
     case r of
       None \<Rightarrow> Inr (0, log_msg (Warn ''wrong pin input for PWM_SET!'') s)
     | Some pos \<Rightarrow>
         rbind (tmp_at (user_mem E) arg 1) (\<lambda>t1.
         rbind (deref (duty_array s)) (\<lambda>da.
         rbind (arr_get da pos) (\<lambda>d.
         rbind (arr_set da pos (d\<lparr>dc_duty_cycle := t1\<rparr>)) (\<lambda>da'.
         Inr (0, s\<lparr>duty_array := Some da'\<rparr>))))))"

definition pwm_ioctl :: "'h mmio \<Rightarrow> kenv \<Rightarrow> u32 \<Rightarrow> u32 \<Rightarrow> 'h softpwm \<Rightarrow> (int \<times> 'h softpwm) res" where
  "pwm_ioctl M E cmd arg s =
     (if IOC_TYPE cmd \<noteq> PWM_MAGIC_NUM then Inr (- ENOTTY, s)
      else if IOC_NR cmd > 4 then Inr (- ENOTTY, s)
      else
        let err = (if IOC_DIR cmd AND IOC_READ \<noteq> 0 then \<not> access_ok E arg (IOC_SIZE cmd)
                   else if IOC_DIR cmd AND IOC_WRITE \<noteq> 0 then \<not> access_ok E arg (IOC_SIZE cmd)
                   else False)
        in if err then Inr (- EFAULT, s)
           else if cmd = PIN_SET then ioctl_PIN_SET M E arg s
           else if cmd = GPIO_SET then ioctl_GPIO_SET M E arg s
           else if cmd = PWM_INIT then ioctl_PWM_INIT E arg s
           else if cmd = PWM_SET then ioctl_PWM_SET E arg s
           else Inr (0, s))"

section \<open>Module load and unload\<close>

text \<open>
  The answers of the kernel while the module loads: whether each allocation succeeds, the result of
  \<open>alloc_chrdev_region\<close> (an error or the major number) and of \<open>cdev_add\<close>.
\<close>

record loadenv =
  ioremap_ok :: bool
  kzalloc_duty :: bool
  kzalloc_tsk :: bool
  chrdev_region :: "int + nat"
  kzalloc_cdev :: bool
  cdev_add :: int

definition acquire :: "kres \<Rightarrow> bool \<Rightarrow> 'h softpwm \<Rightarrow> 'h softpwm" where
  "acquire r ok s = (if ok then s\<lparr>held := r # held s\<rparr> else s)"

definition release :: "kres \<Rightarrow> 'h softpwm \<Rightarrow> 'h softpwm" where
  "release r s = s\<lparr>held := remove1 r (held s)\<rparr>"

definition pwm_init_failed :: "'h softpwm \<Rightarrow> int \<times> 'h softpwm" where
  "pwm_init_failed s = (0, if cdevp s then (release CdevMem s)\<lparr>cdevp := False\<rparr> else s)"

definition pwm_init :: "loadenv \<Rightarrow> 'h softpwm \<Rightarrow> int \<times> 'h softpwm" where
  "pwm_init L s0 =
     (let s1 = (acquire IoMap (ioremap_ok L) s0)\<lparr>gpio_map := ioremap_ok L\<rparr>;
          s2 = (acquire DutyMem (kzalloc_duty L) s1)
                 \<lparr>duty_array := (if kzalloc_duty L then Some (replicate MAX_PWM_NUM dc_zero) else None)\<rparr>;
          s3 = (if kzalloc_duty L then s2 else log_msg (Warn ''failed to allocate duty_array memory by kzalloc'') s2);
          s4 = (acquire TskMem (kzalloc_tsk L) s3)
                 \<lparr>pwm_tsk := (if kzalloc_tsk L then Some (replicate MAX_PWM_NUM None) else None)\<rparr>;
          s5 = (if kzalloc_tsk L then s4 else log_msg (Warn ''failed to allocate pwm_tsk array memory by kzalloc'') s4)
      in case chrdev_region L of
           Inl result \<Rightarrow> (result, log_msg (Warn ''failed to allocate char device for softPWM'') s5)
         | Inr major \<Rightarrow>
             let s6 = (acquire DevRegion True s5)\<lparr>dev_major := major\<rparr>;
                 s7 = (acquire CdevMem (kzalloc_cdev L) s6)\<lparr>cdevp := kzalloc_cdev L\<rparr>
             in if \<not> kzalloc_cdev L
                then pwm_init_failed (log_msg (Warn ''failed to allocate device memory by kzalloc'') s7)
                else if cdev_add L < 0
                then pwm_init_failed (log_msg (Warn ''failed to add char device'') s7)
                else (0, acquire CdevReg True s7))"

text \<open>The globals before the module is loaded.\<close>

definition soft_boot :: "'h \<Rightarrow> 'h softpwm" where
  "soft_boot h = \<lparr>duty_array = None, pwm_tsk = None, pwm_pin_count = 0, gpio_map = False, cdevp = False,
     dev_major = 0, hw = h, held = [], woken = [], klog = []\<rparr>"

text \<open>
  \<open>for (i = 0; i < pwm_pin_count; i++) kthread_stop(pwm_tsk[i])\<close>: a stop waits for the thread to end,
  so the thread is gone when it returns. Stopping a NULL task is a fault.
\<close>

fun stop_threads :: "nat \<Rightarrow> nat \<Rightarrow> 'h softpwm \<Rightarrow> 'h softpwm res" where
  "stop_threads i 0 s = Inr s"
| "stop_threads i (Suc k) s =
     rbind (deref (pwm_tsk s)) (\<lambda>tsk.
     rbind (arr_get tsk i) (\<lambda>p.
     rbind (deref p) (\<lambda>_.
     stop_threads (Suc i) k (release (Thread i) s))))"

text \<open>\<open>kfree(NULL)\<close> does nothing; \<open>pwm_exit\<close> frees neither array and never calls \<open>cdev_del\<close>.\<close>

definition pwm_exit :: "'h softpwm \<Rightarrow> 'h softpwm res" where
  "pwm_exit s =
     rbind (stop_threads 0 (pwm_pin_count s) s) (\<lambda>s1.
     let s2 = release IoMap s1;
         s3 = release DevRegion s2
     in Inr (if cdevp s3 then release CdevMem s3 else s3))"

section \<open>Sleep times\<close>

definition PERIOD_US :: s32 where "PERIOD_US = word_of_int (1000000 sdiv sint PWM_FREQ)"

definition HIGH_TIME :: "Dutycycle \<Rightarrow> s32 res" where
  "HIGH_TIME d = sdiv32 (PERIOD_US * dc_duty_cycle d) (PWM_RANGE d)"

definition LOW_TIME :: "Dutycycle \<Rightarrow> s32 res" where
  "LOW_TIME d = sdiv32 (PERIOD_US * (PWM_RANGE d - dc_duty_cycle d)) (PWM_RANGE d)"

section \<open>Invariant\<close>

definition soft_inv :: "'h softpwm \<Rightarrow> bool" where
  "soft_inv s \<longleftrightarrow>
     (case (duty_array s, pwm_tsk s) of
        (Some da, Some tk) \<Rightarrow>
          length da = MAX_PWM_NUM \<and> length tk = MAX_PWM_NUM \<and> pwm_pin_count s \<le> MAX_PWM_NUM \<and>
          list_all (\<lambda>i. (tk ! i \<noteq> None) = (i < pwm_pin_count s)) [0..<MAX_PWM_NUM]
      | _ \<Rightarrow> False)"

text \<open>The pins the device serves: the entries below \<open>pwm_pin_count\<close>.\<close>

definition soft_pins :: "'h softpwm \<Rightarrow> Dutycycle list" where
  "soft_pins s = (case duty_array s of None \<Rightarrow> [] | Some da \<Rightarrow> take (pwm_pin_count s) da)"

lemma soft_invE:
  assumes "soft_inv s"
  obtains da tk where "duty_array s = Some da" "pwm_tsk s = Some tk" "length da = 5" "length tk = 5"
    "pwm_pin_count s \<le> 5" "\<And>i. i < 5 \<Longrightarrow> (tk ! i \<noteq> None) = (i < pwm_pin_count s)"
  using assms by (auto simp: soft_inv_def MAX_PWM_NUM_def list_all_iff split: option.splits)

lemma soft_invI:
  assumes "duty_array s = Some da" "pwm_tsk s = Some tk" "length da = 5" "length tk = 5"
    "pwm_pin_count s \<le> 5" "\<And>i. i < 5 \<Longrightarrow> (tk ! i \<noteq> None) = (i < pwm_pin_count s)"
  shows "soft_inv s"
  using assms by (auto simp: soft_inv_def MAX_PWM_NUM_def list_all_iff)

lemma log_msg_simps [simp]:
  "duty_array (log_msg m s) = duty_array s" "pwm_tsk (log_msg m s) = pwm_tsk s"
  "pwm_pin_count (log_msg m s) = pwm_pin_count s" "gpio_map (log_msg m s) = gpio_map s"
  "cdevp (log_msg m s) = cdevp s" "hw (log_msg m s) = hw s" "held (log_msg m s) = held s"
  "woken (log_msg m s) = woken s" "klog (log_msg m s) = klog s @ [m]"
  by (simp_all add: log_msg_def)

lemma soft_inv_log [simp]: "soft_inv (log_msg m s) = soft_inv s"
  by (simp add: soft_inv_def split: option.split)

lemma soft_pins_log [simp]: "soft_pins (log_msg m s) = soft_pins s"
  by (simp add: soft_pins_def split: option.split)

lemma soft_inv_hw [simp]: "soft_inv (s\<lparr>hw := h\<rparr>) = soft_inv s"
  by (simp add: soft_inv_def split: option.split)

lemma soft_pins_hw [simp]: "soft_pins (s\<lparr>hw := h\<rparr>) = soft_pins s"
  by (simp add: soft_pins_def split: option.split)

lemma length_soft_pins: "soft_inv s \<Longrightarrow> length (soft_pins s) = pwm_pin_count s"
  by (erule soft_invE) (simp add: soft_pins_def)

section \<open>The four commands\<close>

text \<open>\<open>PIN_SET\<close> and \<open>GPIO_SET\<close> touch the registers and the log only.\<close>

lemma ioctl_PIN_SET_frame:
  "ioctl_PIN_SET M E arg s = Inr (r, s') \<Longrightarrow>
   r = 0 \<and> soft_pins s' = soft_pins s \<and> soft_inv s' = soft_inv s \<and> held s' = held s \<and>
   pwm_pin_count s' = pwm_pin_count s \<and> gpio_map s' = gpio_map s \<and> duty_array s' = duty_array s"
  by (auto simp: ioctl_PIN_SET_def rbind_def split: if_splits sum.splits)

lemma ioctl_GPIO_SET_frame:
  "ioctl_GPIO_SET M E arg s = Inr (r, s') \<Longrightarrow>
   r = 0 \<and> soft_pins s' = soft_pins s \<and> soft_inv s' = soft_inv s \<and> held s' = held s \<and>
   pwm_pin_count s' = pwm_pin_count s \<and> gpio_map s' = gpio_map s \<and> duty_array s' = duty_array s"
  by (auto simp: ioctl_GPIO_SET_def rbind_def split: if_splits sum.splits)

text \<open>\<open>PWM_INIT\<close> on a device with room.\<close>

lemma ioctl_PWM_INIT_ok:
  assumes "soft_inv s" "pwm_pin_count s < 5" "kthread_create E (pwm_pin_count s) = Inr t"
    and "tmp_at (user_mem E) arg 0 = Inr p" "tmp_at (user_mem E) arg 1 = Inr lo" "tmp_at (user_mem E) arg 2 = Inr hi"
  shows "\<exists>s'. ioctl_PWM_INIT E arg s = Inr (0, s') \<and> soft_inv s' \<and>
    soft_pins s' = soft_pins s @ [\<lparr>dc_pin = p, dc_duty_cycle = 0, dc_min = lo, dc_max = hi\<rparr>] \<and>
    pwm_pin_count s' = Suc (pwm_pin_count s) \<and> held s' = Thread (pwm_pin_count s) # held s \<and>
    woken s' = woken s @ [t] \<and> hw s' = hw s \<and> gpio_map s' = gpio_map s"
  using assms(1)
proof (rule soft_invE)
  fix da tk
  assume s: "duty_array s = Some da" "pwm_tsk s = Some tk" "length da = 5" "length tk = 5"
    "pwm_pin_count s \<le> 5" and tk: "\<And>i. i < 5 \<Longrightarrow> (tk ! i \<noteq> None) = (i < pwm_pin_count s)"
  let ?n = "pwm_pin_count s" and ?d = "\<lparr>dc_pin = p, dc_duty_cycle = 0, dc_min = lo, dc_max = hi\<rparr>"
  let ?s' = "log_msg (InfoDuty ?d) (s\<lparr>pwm_tsk := Some (tk[?n := Some t]), duty_array := Some (da[?n := ?d]),
      pwm_pin_count := Suc ?n, held := Thread ?n # held s, woken := woken s @ [t]\<rparr>)"
  have "ioctl_PWM_INIT E arg s = Inr (0, ?s')"
    using assms s by (simp add: ioctl_PWM_INIT_def Let_def)
  moreover have "soft_inv ?s'"
    by (rule soft_invI [where da = "da[?n := ?d]" and tk = "tk[?n := Some t]"])
      (use s tk assms(2) in \<open>auto simp: nth_list_update less_Suc_eq\<close>)
  moreover have "soft_pins ?s' = soft_pins s @ [?d]"
    using s assms(2) by (simp add: soft_pins_def take_Suc_conv_app_nth)
  ultimately show ?thesis by auto
qed

lemma ioctl_PWM_INIT_full:
  "soft_inv s \<Longrightarrow> pwm_pin_count s = 5 \<Longrightarrow> ioctl_PWM_INIT E arg s = Inl OutOfBounds"
  by (simp add: ioctl_PWM_INIT_def)

lemma ioctl_PWM_INIT_kthread_error:
  assumes "soft_inv s" "pwm_pin_count s < 5" "kthread_create E (pwm_pin_count s) = Inl e"
  shows "ioctl_PWM_INIT E arg s = Inr (e, log_msg (WarnAt ''failed to create kthread'' (pwm_pin_count s)) s)"
  using assms(1)
proof (rule soft_invE)
  fix da tk
  assume s: "duty_array s = Some da" "pwm_tsk s = Some tk" "length da = 5" "length tk = 5"
    and tk: "\<And>i. i < 5 \<Longrightarrow> (tk ! i \<noteq> None) = (i < pwm_pin_count s)"
  have "tk ! pwm_pin_count s = None" using tk [of "pwm_pin_count s"] assms(2) by auto
  then have "tk[pwm_pin_count s := None] = tk" by (metis list_update_id)
  then have "s\<lparr>pwm_tsk := Some (tk[pwm_pin_count s := None])\<rparr> = s" using s(2) by simp
  then show ?thesis using assms s by (simp add: ioctl_PWM_INIT_def)
qed

lemma ioctl_PWM_INIT_cases:
  assumes "soft_inv s" "ioctl_PWM_INIT E arg s = Inr (r, s')"
  obtains (fail) e where "kthread_create E (pwm_pin_count s) = Inl e" "r = e"
      "s' = log_msg (WarnAt ''failed to create kthread'' (pwm_pin_count s)) s"
  | (new) t p lo hi where "kthread_create E (pwm_pin_count s) = Inr t" "r = 0" "pwm_pin_count s < 5"
      "tmp_at (user_mem E) arg 0 = Inr p" "tmp_at (user_mem E) arg 1 = Inr lo" "tmp_at (user_mem E) arg 2 = Inr hi"
proof -
  have n: "pwm_pin_count s < 5"
    using assms ioctl_PWM_INIT_full [OF assms(1)] by (fastforce elim: soft_invE)
  show ?thesis
  proof (cases "kthread_create E (pwm_pin_count s)")
    case (Inl e)
    with assms ioctl_PWM_INIT_kthread_error [OF assms(1) n Inl] show ?thesis by (auto intro: fail)
  next
    case (Inr t)
    with assms(2) show ?thesis
      by (auto simp: ioctl_PWM_INIT_def Let_def rbind_Inr_iff intro: new [OF Inr _ n])
  qed
qed

text \<open>\<open>PWM_SET\<close> writes the duty cycle of the first entry of the named pin.\<close>

lemma soft_find_pin:
  assumes "soft_inv s"
  shows "find_pin (Inr p) (duty_array s) 0 (pwm_pin_count s) =
    Inr (first_from (\<lambda>j. dc_pin (soft_pins s ! j) = p) 0 (pwm_pin_count s))"
  using assms
proof (rule soft_invE)
  fix da tk
  assume s: "duty_array s = Some da" "length da = 5" "pwm_pin_count s \<le> 5"
  have "first_from (\<lambda>j. dc_pin (da ! j) = p) i k = first_from (\<lambda>j. dc_pin (soft_pins s ! j) = p) i k"
    if "i + k \<le> pwm_pin_count s" for i k
    using that s by (induction k arbitrary: i) (auto simp: soft_pins_def)
  then show ?thesis using s by (simp add: find_pin_first_from)
qed

lemma ioctl_PWM_SET_ok:
  assumes inv: "soft_inv s" and "tmp_at (user_mem E) arg 0 = Inr p" "tmp_at (user_mem E) arg 1 = Inr v"
  shows "\<exists>s'. ioctl_PWM_SET E arg s = Inr (0, s') \<and> soft_inv s' \<and>
    soft_pins s' = set_first p v (soft_pins s) \<and> pwm_pin_count s' = pwm_pin_count s \<and>
    held s' = held s \<and> hw s' = hw s \<and> gpio_map s' = gpio_map s \<and> woken s' = woken s \<and>
    (p \<notin> dc_pin ` set (soft_pins s) \<longrightarrow> s' = log_msg (Warn ''wrong pin input for PWM_SET!'') s)"
proof (cases "first_from (\<lambda>j. dc_pin (soft_pins s ! j) = p) 0 (pwm_pin_count s)")
  case None
  then have "p \<notin> dc_pin ` set (soft_pins s)"
    using length_soft_pins [OF inv] by (auto simp: first_from_None_iff in_set_conv_nth)
  then show ?thesis
    using None assms by (simp add: ioctl_PWM_SET_def soft_find_pin set_first_unknown)
next
  case (Some j)
  from inv obtain da tk where s: "duty_array s = Some da" "pwm_tsk s = Some tk" "length da = 5"
      "length tk = 5" "pwm_pin_count s \<le> 5" and tk: "\<And>i. i < 5 \<Longrightarrow> (tk ! i \<noteq> None) = (i < pwm_pin_count s)"
    by (rule soft_invE) blast
  from first_from_Some [OF Some] have j: "j < pwm_pin_count s" "dc_pin (soft_pins s ! j) = p"
      "\<forall>i < j. dc_pin (soft_pins s ! i) \<noteq> p" by auto
  let ?da = "da[j := (da ! j)\<lparr>dc_duty_cycle := v\<rparr>]" and ?s' = "\<lambda>da. s\<lparr>duty_array := Some da\<rparr>"
  have find: "find_pin (tmp_at (user_mem E) arg 0) (duty_array s) 0 (pwm_pin_count s) = Inr (Some j)"
    using assms(2) Some by (simp add: soft_find_pin [OF inv])
  have run: "ioctl_PWM_SET E arg s = Inr (0, ?s' ?da)"
    unfolding ioctl_PWM_SET_def find using assms(3) s j(1) by simp
  have "soft_pins (?s' ?da) = (soft_pins s)[j := (soft_pins s ! j)\<lparr>dc_duty_cycle := v\<rparr>]"
    using s j(1) by (simp add: soft_pins_def take_update_swap)
  also have "\<dots> = set_first p v (soft_pins s)"
    using j length_soft_pins [OF inv] by (simp add: set_first_update)
  finally have pins: "soft_pins (?s' ?da) = set_first p v (soft_pins s)" .
  have known: "p \<in> dc_pin ` set (soft_pins s)"
    using j length_soft_pins [OF inv] by (metis imageI nth_mem)
  have "soft_inv (?s' ?da)"
    by (rule soft_invI [where da = ?da and tk = tk]) (use s tk in auto)
  with run pins known show ?thesis by auto
qed

lemma ioctl_PWM_SET_no_pins:
  "pwm_pin_count s = 0 \<Longrightarrow> ioctl_PWM_SET E arg s = Inr (0, log_msg (Warn ''wrong pin input for PWM_SET!'') s)"
  by (simp add: ioctl_PWM_SET_def)

lemma ioctl_PWM_SET_frame:
  assumes inv: "soft_inv s" and run: "ioctl_PWM_SET E arg s = Inr (r, s')"
  shows "r = 0 \<and> soft_inv s' \<and> map pin_ids (soft_pins s') = map pin_ids (soft_pins s) \<and> hw s' = hw s \<and>
    held s' = held s \<and> pwm_pin_count s' = pwm_pin_count s \<and> gpio_map s' = gpio_map s"
proof (cases "\<exists>p v. tmp_at (user_mem E) arg 0 = Inr p \<and> tmp_at (user_mem E) arg 1 = Inr v")
  case True
  with ioctl_PWM_SET_ok [OF inv] run show ?thesis by fastforce
next
  case False
  then have "s' = log_msg (Warn ''wrong pin input for PWM_SET!'') s \<and> r = 0"
    using run by (auto simp: ioctl_PWM_SET_def rbind_Inr_iff split: option.splits
        dest: find_pin_reads)
  with inv show ?thesis by simp
qed

section \<open>The handler\<close>

lemma cmd_values:
  "PIN_SET = 0x4004F100" "GPIO_SET = 0x4004F101" "PWM_INIT = 0x4004F102" "PWM_SET = 0x4004F103"
  by (simp_all add: PIN_SET_def GPIO_SET_def PWM_INIT_def PWM_SET_def IOW_def IOC_def
      PWM_MAGIC_NUM_def sizeof_int_ptr_def)

lemma cmds_distinct:
  "PIN_SET \<noteq> GPIO_SET" "PIN_SET \<noteq> PWM_INIT" "PIN_SET \<noteq> PWM_SET" "GPIO_SET \<noteq> PWM_INIT"
  "GPIO_SET \<noteq> PWM_SET" "PWM_INIT \<noteq> PWM_SET"
  by (simp_all add: cmd_values)

text \<open>Each of the four command words passes the type and number tests and is checked for four bytes.\<close>

lemma cmd_fields:
  assumes "cmd \<in> {PIN_SET, GPIO_SET, PWM_INIT, PWM_SET}"
  shows "IOC_TYPE cmd = PWM_MAGIC_NUM" "IOC_NR cmd \<le> 4" "IOC_DIR cmd = 1" "IOC_SIZE cmd = 4"
  using assms
  by (auto simp: cmd_values IOC_TYPE_def IOC_NR_def IOC_DIR_def IOC_SIZE_def PWM_MAGIC_NUM_def)

lemma pwm_ioctl_dispatch:
  assumes "cmd \<in> {PIN_SET, GPIO_SET, PWM_INIT, PWM_SET}"
  shows "pwm_ioctl M E cmd arg s =
    (if \<not> access_ok E arg 4 then Inr (- EFAULT, s)
     else if cmd = PIN_SET then ioctl_PIN_SET M E arg s
     else if cmd = GPIO_SET then ioctl_GPIO_SET M E arg s
     else if cmd = PWM_INIT then ioctl_PWM_INIT E arg s
     else ioctl_PWM_SET E arg s)"
proof -
  have last: "cmd \<noteq> PIN_SET \<Longrightarrow> cmd \<noteq> GPIO_SET \<Longrightarrow> cmd \<noteq> PWM_INIT \<Longrightarrow> cmd = PWM_SET"
    using assms by blast
  have nr: "\<not> IOC_NR cmd > 4" using cmd_fields(2) [OF assms] by simp
  have dir: "(1::u32) AND IOC_READ = 0" "(1::u32) AND IOC_WRITE \<noteq> 0"
    by (simp_all add: IOC_READ_def IOC_WRITE_def)
  show ?thesis
    unfolding pwm_ioctl_def Let_def cmd_fields(1,3,4) [OF assms] using nr dir last by (simp only: if_True if_False simp_thms) simp
qed

lemma pwm_ioctl_other:
  assumes "cmd \<notin> {PIN_SET, GPIO_SET, PWM_INIT, PWM_SET}"
  shows "\<exists>r. pwm_ioctl M E cmd arg s = Inr (r, s) \<and> r \<in> {0, - ENOTTY, - EFAULT}"
  using assms by (auto simp: pwm_ioctl_def Let_def)

lemma pwm_ioctl_cases:
  assumes "pwm_ioctl M E cmd arg s = Inr (r, s')"
  obtains (same) "s' = s"
  | (pin_set) "ioctl_PIN_SET M E arg s = Inr (r, s')"
  | (gpio_set) "ioctl_GPIO_SET M E arg s = Inr (r, s')"
  | (pwm_init) "ioctl_PWM_INIT E arg s = Inr (r, s')"
  | (pwm_set) "ioctl_PWM_SET E arg s = Inr (r, s')"
  using assms by (auto simp: pwm_ioctl_def Let_def split: if_splits)

lemma ioctl_PWM_INIT_frame:
  assumes inv: "soft_inv s" and run: "ioctl_PWM_INIT E arg s = Inr (r, s')"
  shows "soft_inv s' \<and> (\<exists>ys. soft_pins s' = soft_pins s @ ys \<and> held s' = map Thread (rev [pwm_pin_count s..<pwm_pin_count s']) @ held s) \<and>
    (r \<noteq> 0 \<longrightarrow> soft_pins s' = soft_pins s) \<and> hw s' = hw s \<and> pwm_pin_count s \<le> pwm_pin_count s' \<and> gpio_map s' = gpio_map s"
  using inv run
proof (cases rule: ioctl_PWM_INIT_cases)
  case (fail e)
  with inv show ?thesis by simp
next
  case (new t p lo hi)
  from ioctl_PWM_INIT_ok [OF inv new(3) new(1) new(4,5,6)] run new(2) show ?thesis by auto
qed

text \<open>The driver keeps its contract: \<open>inv\<close>, error frame, append-only registration, capacity.\<close>

type_synonym request = "kenv \<times> u32 \<times> u32"

definition soft_call :: "'h mmio \<Rightarrow> request \<Rightarrow> 'h softpwm \<Rightarrow> (int \<times> 'h softpwm) res" where
  "soft_call M q s = (case q of (E, cmd, arg) \<Rightarrow> pwm_ioctl M E cmd arg s)"

lemma soft_call_effect:
  assumes inv: "soft_inv s" and run: "soft_call M q s = Inr (r, s')"
  shows "soft_inv s'" "r \<noteq> 0 \<Longrightarrow> soft_pins s' = soft_pins s \<and> hw s' = hw s"
    "\<exists>ys. map pin_ids (soft_pins s') = map pin_ids (soft_pins s) @ ys"
    "held s' = map Thread (rev [pwm_pin_count s..<pwm_pin_count s']) @ held s" "pwm_pin_count s \<le> pwm_pin_count s'"
    "gpio_map s' = gpio_map s"
proof -
  obtain E cmd arg where q: "q = (E, cmd, arg)" by (cases q)
  with run have "pwm_ioctl M E cmd arg s = Inr (r, s')" by (simp add: soft_call_def)
  then have "soft_inv s' \<and> (r \<noteq> 0 \<longrightarrow> soft_pins s' = soft_pins s \<and> hw s' = hw s) \<and>
    (\<exists>ys. map pin_ids (soft_pins s') = map pin_ids (soft_pins s) @ ys) \<and>
    held s' = map Thread (rev [pwm_pin_count s..<pwm_pin_count s']) @ held s \<and> pwm_pin_count s \<le> pwm_pin_count s' \<and>
    gpio_map s' = gpio_map s"
  proof (cases rule: pwm_ioctl_cases)
    case same
    with inv show ?thesis by simp
  next
    case pin_set
    from ioctl_PIN_SET_frame [OF this] inv show ?thesis by simp
  next
    case gpio_set
    from ioctl_GPIO_SET_frame [OF this] inv show ?thesis by simp
  next
    case pwm_init
    from ioctl_PWM_INIT_frame [OF inv this] show ?thesis by auto
  next
    case pwm_set
    from ioctl_PWM_SET_frame [OF inv this] show ?thesis by simp
  qed
  then show "soft_inv s'" "r \<noteq> 0 \<Longrightarrow> soft_pins s' = soft_pins s \<and> hw s' = hw s"
    "\<exists>ys. map pin_ids (soft_pins s') = map pin_ids (soft_pins s) @ ys"
    "held s' = map Thread (rev [pwm_pin_count s..<pwm_pin_count s']) @ held s" "pwm_pin_count s \<le> pwm_pin_count s'"
    "gpio_map s' = gpio_map s"
    by simp_all
qed

interpretation soft: pwm_driver "soft_call M" soft_inv soft_pins hw for M
proof (unfold_locales, goal_cases)
  case (4 s)
  then show ?case by (auto simp: length_soft_pins MAX_PWM_NUM_def elim: soft_invE)
qed (blast dest: soft_call_effect)+

section \<open>Load and unload\<close>

text \<open>What a successful load holds, newest first.\<close>

definition loaded_res :: "kres list" where
  "loaded_res = [CdevReg, CdevMem, DevRegion, TskMem, DutyMem, IoMap]"

definition load_all_ok :: "loadenv \<Rightarrow> bool" where
  "load_all_ok L \<longleftrightarrow> ioremap_ok L \<and> kzalloc_duty L \<and> kzalloc_tsk L \<and> (\<exists>m. chrdev_region L = Inr m) \<and>
     kzalloc_cdev L \<and> 0 \<le> cdev_add L"

lemma acquire_simps [simp]:
  "acquire r True s = s\<lparr>held := r # held s\<rparr>" "acquire r False s = s"
  by (simp_all add: acquire_def)

lemma release_simps [simp]:
  "held (release r s) = remove1 r (held s)" "pwm_tsk (release r s) = pwm_tsk s" "cdevp (release r s) = cdevp s"
  "duty_array (release r s) = duty_array s" "pwm_pin_count (release r s) = pwm_pin_count s"
  by (simp_all add: release_def)

lemma pwm_init_ok:
  assumes "load_all_ok L"
  shows "\<exists>s. pwm_init L (soft_boot h) = (0, s) \<and> soft_inv s \<and> soft_pins s = [] \<and> held s = loaded_res \<and>
    gpio_map s \<and> cdevp s \<and> hw s = h \<and> pwm_pin_count s = 0"
proof -
  from assms obtain m where "ioremap_ok L" "kzalloc_duty L" "kzalloc_tsk L" "chrdev_region L = Inr m"
    "kzalloc_cdev L" "\<not> cdev_add L < 0" by (auto simp: load_all_ok_def)
  then show ?thesis
    by (auto simp: pwm_init_def Let_def soft_boot_def loaded_res_def soft_inv_def soft_pins_def
        MAX_PWM_NUM_def upt_conv_Cons list_all_iff)
qed

lemma stop_threads_release:
  assumes "pwm_tsk s = Some tk" "i + k \<le> length tk" "\<forall>j. i \<le> j \<and> j < i + k \<longrightarrow> tk ! j \<noteq> None"
  shows "stop_threads i k s = Inr (s\<lparr>held := fold (\<lambda>j. remove1 (Thread j)) [i..<i + k] (held s)\<rparr>)"
  using assms
proof (induction k arbitrary: i s)
  case 0
  then show ?case by simp
next
  case (Suc k)
  from Suc.prems obtain t where t: "tk ! i = Some t" by fastforce
  have "stop_threads (Suc i) k (release (Thread i) s) =
      Inr ((release (Thread i) s)\<lparr>held := fold (\<lambda>j. remove1 (Thread j)) [Suc i..<Suc i + k] (held (release (Thread i) s))\<rparr>)"
    using Suc.prems by (intro Suc.IH) auto
  moreover have "[i..<i + Suc k] = i # [Suc i..<Suc i + k]"
    by (simp add: upt_conv_Cons)
  ultimately show ?case using Suc.prems t by (simp add: release_def del: upt_Suc)
qed

lemma fold_remove_threads:
  "i \<le> n \<Longrightarrow> fold (\<lambda>j. remove1 (Thread j)) [i..<n] (map Thread (rev [i..<n]) @ r) = r"
proof (induction "n - i" arbitrary: i)
  case 0
  then show ?case by simp
next
  case (Suc k)
  then have "[i..<n] = i # [Suc i..<n]" by (simp add: upt_conv_Cons)
  moreover have "remove1 (Thread i) (map Thread (rev [Suc i..<n]) @ Thread i # r) = map Thread (rev [Suc i..<n]) @ r"
    by (subst remove1_append) auto
  ultimately show ?case using Suc by simp
qed

lemma pwm_exit_run:
  assumes inv: "soft_inv s" and held: "held s = map Thread (rev [0..<pwm_pin_count s]) @ r"
  shows "\<exists>s'. pwm_exit s = Inr s' \<and>
    held s' = (let r' = remove1 DevRegion (remove1 IoMap r) in if cdevp s then remove1 CdevMem r' else r')"
  using inv
proof (rule soft_invE)
  fix da tk
  assume s: "pwm_tsk s = Some tk" "length tk = 5" "pwm_pin_count s \<le> 5"
    and tk: "\<And>i. i < 5 \<Longrightarrow> (tk ! i \<noteq> None) = (i < pwm_pin_count s)"
  have "stop_threads 0 (pwm_pin_count s) s = Inr (s\<lparr>held := r\<rparr>)"
    using stop_threads_release [OF s(1), of 0 "pwm_pin_count s"] s tk
      fold_remove_threads [of 0 "pwm_pin_count s" r] held by auto
  then show ?thesis by (auto simp: pwm_exit_def Let_def)
qed

section \<open>Sleep times\<close>

lemma PERIOD_US_val [simp]: "PERIOD_US = 10000"
  by (simp add: PERIOD_US_def PWM_FREQ_def sdiv_nonneg)

text \<open>
  The records whose products stay below \<open>2 ^ 31\<close>: a duty cycle between 0 and the range, and a range of
  at most 214748.
\<close>

definition soft_dc_wf :: "Dutycycle \<Rightarrow> bool" where
  "soft_dc_wf d \<longleftrightarrow>
     (let r = sint (dc_max d) - sint (dc_min d)
      in 0 \<le> sint (dc_duty_cycle d) \<and> sint (dc_duty_cycle d) \<le> r \<and> 0 < r \<and> r \<le> 214748)"

lemma sint_PWM_RANGE:
  assumes "0 < sint (dc_max d) - sint (dc_min d)" "sint (dc_max d) - sint (dc_min d) < 2 ^ 31"
  shows "sint (PWM_RANGE d) = sint (dc_max d) - sint (dc_min d)"
  using assms by (simp add: PWM_RANGE_def sint32_diff)

lemma soft_times:
  assumes "soft_dc_wf d"
  defines "r \<equiv> sint (dc_max d) - sint (dc_min d)" and "v \<equiv> sint (dc_duty_cycle d)"
  shows "HIGH_TIME d = Inr (word_of_int (10000 * v div r))"
    "LOW_TIME d = Inr (word_of_int (10000 * (r - v) div r))"
proof -
  have b: "0 \<le> v" "v \<le> r" "0 < r" "r \<le> 214748"
    using assms(1) by (auto simp: soft_dc_wf_def Let_def r_def v_def)
  then have r: "sint (PWM_RANGE d) = r" unfolding r_def by (intro sint_PWM_RANGE) auto
  then have nz: "PWM_RANGE d \<noteq> 0" using b by auto
  have t: "sint (10000 :: s32) = 10000" by simp
  have "sint (10000 * dc_duty_cycle d) = 10000 * v"
    using b unfolding v_def by (subst sint32_mult) (simp_all add: t)
  then show "HIGH_TIME d = Inr (word_of_int (10000 * v div r))"
    using nz b r by (simp add: HIGH_TIME_def sdiv_nonneg)
  have "sint (PWM_RANGE d - dc_duty_cycle d) = r - v"
    using b r unfolding v_def by (subst sint32_diff) auto
  then have "sint (10000 * (PWM_RANGE d - dc_duty_cycle d)) = 10000 * (r - v)"
    using b by (subst sint32_mult) (simp_all add: t)
  then show "LOW_TIME d = Inr (word_of_int (10000 * (r - v) div r))"
    using nz b r by (simp add: LOW_TIME_def sdiv_nonneg)
qed

text \<open>Two truncated shares of a whole lose at most one unit.\<close>

lemma div_shares:
  fixes a b r P :: int
  assumes "a + b = P * r" "0 < r"
  shows "P - 1 \<le> a div r + b div r" "a div r + b div r \<le> P"
proof -
  have "a = a div r * r + a mod r" "b = b div r * r + b mod r" by simp_all
  then have "(P - a div r - b div r) * r = a mod r + b mod r"
    using assms(1) by (simp add: algebra_simps)
  moreover have "0 \<le> a mod r + b mod r" "a mod r + b mod r < 2 * r"
    using pos_mod_bound [OF assms(2), of a] pos_mod_bound [OF assms(2), of b]
      pos_mod_sign [OF assms(2), of a] pos_mod_sign [OF assms(2), of b] by linarith+
  ultimately have "0 \<le> (P - a div r - b div r) * r" "(P - a div r - b div r) * r < 2 * r" by simp_all
  then have "0 \<le> P - a div r - b div r" "P - a div r - b div r < 2"
    using assms(2) by (simp_all add: zero_le_mult_iff mult_less_cancel_right)
  then show "P - 1 \<le> a div r + b div r" "a div r + b div r \<le> P" by simp_all
qed

lemma soft_halves:
  assumes "soft_dc_wf d"
  shows "\<exists>h l. HIGH_TIME d = Inr h \<and> LOW_TIME d = Inr l \<and> 0 \<le> sint h \<and> 0 \<le> sint l \<and>
    10000 - 1 \<le> sint h + sint l \<and> sint h + sint l \<le> 10000"
proof -
  let ?r = "sint (dc_max d) - sint (dc_min d)" and ?v = "sint (dc_duty_cycle d)"
  let ?h = "10000 * ?v div ?r" and ?l = "10000 * (?r - ?v) div ?r"
  have b: "0 \<le> ?v" "?v \<le> ?r" "0 < ?r" using assms by (auto simp: soft_dc_wf_def Let_def)
  have sum: "10000 - 1 \<le> ?h + ?l" "?h + ?l \<le> 10000"
    using div_shares [of "10000 * ?v" "10000 * (?r - ?v)" 10000 ?r] b by (simp_all add: algebra_simps)
  have pos: "0 \<le> ?h" "0 \<le> ?l" using b by (simp_all add: pos_imp_zdiv_nonneg_iff)
  with sum have "sint (word_of_int ?h :: s32) = ?h" "sint (word_of_int ?l :: s32) = ?l"
    by (simp_all add: sint_of_small)
  with sum pos soft_times [OF assms] show ?thesis by auto
qed

interpretation soft_time: pwm_timing HIGH_TIME LOW_TIME 10000 "\<lambda>_. 1" soft_dc_wf
  by unfold_locales (use soft_halves in auto)

section \<open>A device that has been loaded\<close>

lemma pwm_ioctl_cdevp: "pwm_ioctl M E cmd arg s = Inr (r, s') \<Longrightarrow> cdevp s' = cdevp s"
  by (erule pwm_ioctl_cases)
    (auto simp: ioctl_PIN_SET_def ioctl_GPIO_SET_def ioctl_PWM_INIT_def ioctl_PWM_SET_def Let_def
      rbind_def split: if_splits sum.splits option.splits)

lemma run_held:
  assumes "soft_inv s" "run_ioctls (soft_call M) qs s = Inr (rs, s')"
    and "held s = map Thread (rev [0..<pwm_pin_count s]) @ r"
  shows "held s' = map Thread (rev [0..<pwm_pin_count s']) @ r \<and> cdevp s' = cdevp s"
  using assms
proof (induction qs arbitrary: s rs)
  case Nil
  then show ?case by simp
next
  case (Cons q qs)
  then obtain rc s1 rs1 where 1: "soft_call M q s = Inr (rc, s1)" "run_ioctls (soft_call M) qs s1 = Inr (rs1, s')"
    by (auto simp: rbind_Inr_iff)
  note e = soft_call_effect [OF Cons.prems(1) 1(1)]
  have "[0..<pwm_pin_count s1] = [0..<pwm_pin_count s] @ [pwm_pin_count s..<pwm_pin_count s1]"
    using upt_add_eq_append [of 0 "pwm_pin_count s" "pwm_pin_count s1 - pwm_pin_count s"] e(5) by simp
  then have "held s1 = map Thread (rev [0..<pwm_pin_count s1]) @ r"
    using e(4) Cons.prems(3) by simp
  moreover have "cdevp s1 = cdevp s"
    using 1(1) pwm_ioctl_cdevp by (cases q) (fastforce simp: soft_call_def)
  ultimately show ?case using Cons.IH [OF e(1) 1(2)] by simp
qed

text \<open>A concrete environment, and the device after two pins have been registered in it.\<close>

definition demo_load :: loadenv where
  "demo_load = \<lparr>ioremap_ok = True, kzalloc_duty = True, kzalloc_tsk = True, chrdev_region = Inr 240,
     kzalloc_cdev = True, cdev_add = 0\<rparr>"

definition demo_env :: "s32 list \<Rightarrow> kenv" where
  "demo_env xs = \<lparr>access_ok = (\<lambda>_ _. True), kthread_create = (\<lambda>n. Inr (100 + n)), user_mem = umem_of 0x1000 xs\<rparr>"

definition demo_loaded :: "bcm_gpio softpwm" where
  "demo_loaded = snd (pwm_init demo_load (soft_boot bcm_reset))"

lemma demo_load_ok: "load_all_ok demo_load"
  by (simp add: load_all_ok_def demo_load_def)

lemma demo_loaded_facts:
  "pwm_init demo_load (soft_boot bcm_reset) = (0, demo_loaded)" "soft_inv demo_loaded" "soft_pins demo_loaded = []"
  "held demo_loaded = loaded_res" "gpio_map demo_loaded" "cdevp demo_loaded" "pwm_pin_count demo_loaded = 0"
  using pwm_init_ok [OF demo_load_ok, of bcm_reset] by (auto simp: demo_loaded_def)

lemma demo_env_tmp:
  "tmp_at (user_mem (demo_env (a # xs))) 0x1000 0 = Inr a"
  "tmp_at (user_mem (demo_env (a # b # xs))) 0x1000 1 = Inr b"
  "tmp_at (user_mem (demo_env (a # b # c # xs))) 0x1000 2 = Inr c"
  using tmp_at_umem_of [of 0 "a # xs" "0x1000"] tmp_at_umem_of [of 1 "a # b # xs" "0x1000"]
    tmp_at_umem_of [of 2 "a # b # c # xs" "0x1000"]
  by (simp_all add: demo_env_def)

lemma demo_init_step:
  assumes "soft_inv s" "pwm_pin_count s < 5"
  shows "\<exists>s'. soft_call M (demo_env [p, lo, hi], PWM_INIT, 0x1000) s = Inr (0, s') \<and> soft_inv s' \<and>
    soft_pins s' = soft_pins s @ [\<lparr>dc_pin = p, dc_duty_cycle = 0, dc_min = lo, dc_max = hi\<rparr>] \<and>
    pwm_pin_count s' = Suc (pwm_pin_count s) \<and> gpio_map s' = gpio_map s \<and> hw s' = hw s"
proof -
  have k: "kthread_create (demo_env [p, lo, hi]) (pwm_pin_count s) = Inr (100 + pwm_pin_count s)"
    and a: "access_ok (demo_env [p, lo, hi]) 0x1000 4"
    by (simp_all add: demo_env_def)
  from ioctl_PWM_INIT_ok [OF assms k demo_env_tmp] a cmds_distinct show ?thesis
    by (auto simp: soft_call_def pwm_ioctl_dispatch)
qed

section \<open>Properties\<close>

text \<open>
  C1: Any sequence of ioctl calls that returns leaves the driver well-formed: both arrays have five
  entries, exactly the slots below \<open>pwm_pin_count\<close> have a thread, at most five pins are registered, and
  a registered slot keeps its pin number and its bounds for good.
\<close>

theorem soft_ioctl_contract:
  assumes "soft_inv s" "run_ioctls (soft_call M) qs s = Inr (rs, s')"
  shows "soft_inv s' \<and> length (soft_pins s') \<le> MAX_PWM_NUM \<and> length (soft_pins s) \<le> length (soft_pins s') \<and>
    (\<forall>i < length (soft_pins s). pin_ids (soft_pins s' ! i) = pin_ids (soft_pins s ! i))"
  using soft.run_inv [OF assms] soft.capacity [OF soft.run_inv [OF assms]] soft.run_slot_stable [OF assms]
    soft.run_append_only [OF assms] by (metis length_append length_map le_add1)

theorem soft_ioctl_contract_witness:
  "\<exists>s1 s2. run_ioctls (soft_call bcm_mmio) [(demo_env [16, 0, 100], PWM_INIT, 0x1000)] demo_loaded = Inr ([0], s1) \<and>
     run_ioctls (soft_call bcm_mmio) [(demo_env [21, 0, 10000], PWM_INIT, 0x1000)] s1 = Inr ([0], s2) \<and>
     soft_inv s2 \<and> length (soft_pins s2) \<le> MAX_PWM_NUM \<and> pin_ids (soft_pins s2 ! 0) = (16, 0, 100)"
proof -
  from demo_init_step [of demo_loaded bcm_mmio 16 0 100] demo_loaded_facts obtain s1
    where 1: "soft_call bcm_mmio (demo_env [16, 0, 100], PWM_INIT, 0x1000) demo_loaded = Inr (0, s1)" "soft_inv s1"
      "soft_pins s1 = [\<lparr>dc_pin = 16, dc_duty_cycle = 0, dc_min = 0, dc_max = 100\<rparr>]" "pwm_pin_count s1 = 1" by auto
  from demo_init_step [of s1 bcm_mmio 21 0 10000] 1 obtain s2
    where 2: "soft_call bcm_mmio (demo_env [21, 0, 10000], PWM_INIT, 0x1000) s1 = Inr (0, s2)" by auto
  from 2 have r: "run_ioctls (soft_call bcm_mmio) [(demo_env [21, 0, 10000], PWM_INIT, 0x1000)] s1 = Inr ([0], s2)" by simp
  from soft_ioctl_contract [OF 1(2) r] 1 r show ?thesis by (auto simp: pin_ids_def)
qed

text \<open>
  C4: \<open>PWM_INIT\<close> refines registration in the abstract list of pins: with a free slot, a readable argument
  and a thread from the kernel it returns 0, appends the pin with duty cycle 0, and wakes exactly one
  new thread; when the kernel has no thread its error is returned and no pin is added.
\<close>

theorem soft_pwm_init_appends:
  assumes "soft_inv s" "length (soft_pins s) < MAX_PWM_NUM" "access_ok E arg 4"
    and "tmp_at (user_mem E) arg 0 = Inr p" "tmp_at (user_mem E) arg 1 = Inr lo" "tmp_at (user_mem E) arg 2 = Inr hi"
  shows "case kthread_create E (pwm_pin_count s) of
      Inr t \<Rightarrow> (\<exists>s'. pwm_ioctl M E PWM_INIT arg s = Inr (0, s') \<and> soft_inv s' \<and> hw s' = hw s \<and>
        soft_pins s' = soft_pins s @ [\<lparr>dc_pin = p, dc_duty_cycle = 0, dc_min = lo, dc_max = hi\<rparr>] \<and>
        woken s' = woken s @ [t] \<and> held s' = Thread (length (soft_pins s)) # held s)
    | Inl e \<Rightarrow> (\<exists>s'. pwm_ioctl M E PWM_INIT arg s = Inr (e, s') \<and> soft_inv s' \<and> hw s' = hw s \<and>
        soft_pins s' = soft_pins s \<and> woken s' = woken s \<and> held s' = held s)"
proof -
  have n: "pwm_pin_count s < 5" using assms(1,2) by (simp add: length_soft_pins MAX_PWM_NUM_def)
  have d: "pwm_ioctl M E PWM_INIT arg s = ioctl_PWM_INIT E arg s"
    using assms(3) cmds_distinct by (simp add: pwm_ioctl_dispatch)
  show ?thesis
  proof (cases "kthread_create E (pwm_pin_count s)")
    case (Inl e)
    from ioctl_PWM_INIT_kthread_error [OF assms(1) n Inl] Inl assms(1) show ?thesis by (simp add: d)
  next
    case (Inr t)
    from ioctl_PWM_INIT_ok [OF assms(1) n Inr assms(4-6)] Inr assms(1) show ?thesis
      by (auto simp: d length_soft_pins)
  qed
qed

theorem soft_pwm_init_appends_witness:
  "\<exists>s'. pwm_ioctl bcm_mmio (demo_env [16, 0, 100]) PWM_INIT 0x1000 demo_loaded = Inr (0, s') \<and>
     soft_pins s' = [\<lparr>dc_pin = 16, dc_duty_cycle = 0, dc_min = 0, dc_max = 100\<rparr>] \<and> woken s' = woken demo_loaded @ [100]"
proof -
  have l: "length (soft_pins demo_loaded) < MAX_PWM_NUM" by (simp add: demo_loaded_facts MAX_PWM_NUM_def)
  have a: "access_ok (demo_env [16, 0, 100]) 0x1000 4" by (simp add: demo_env_def)
  have k: "kthread_create (demo_env [16, 0, 100]) (pwm_pin_count demo_loaded) = Inr 100"
    by (simp add: demo_env_def demo_loaded_facts)
  from soft_pwm_init_appends [OF demo_loaded_facts(2) l a demo_env_tmp, of bcm_mmio, unfolded k]
  show ?thesis by (auto simp: demo_loaded_facts)
qed

text \<open>
  C6: \<open>PWM_SET\<close> refines the abstract update: with a readable argument it returns 0 and writes the duty
  cycle of the first slot of the named pin and of nothing else; for an unregistered pin it changes
  nothing but the kernel log.
\<close>

theorem soft_pwm_set_updates_first:
  assumes "soft_inv s" "access_ok E arg 4" "tmp_at (user_mem E) arg 0 = Inr p" "tmp_at (user_mem E) arg 1 = Inr v"
  shows "\<exists>s'. pwm_ioctl M E PWM_SET arg s = Inr (0, s') \<and> soft_inv s' \<and> hw s' = hw s \<and> held s' = held s \<and>
    soft_pins s' = set_first p v (soft_pins s) \<and>
    (p \<notin> dc_pin ` set (soft_pins s) \<longrightarrow> s' = log_msg (Warn ''wrong pin input for PWM_SET!'') s)"
proof -
  have "pwm_ioctl M E PWM_SET arg s = ioctl_PWM_SET E arg s"
    using assms(2) cmds_distinct by (simp add: pwm_ioctl_dispatch)
  with ioctl_PWM_SET_ok [OF assms(1,3,4)] show ?thesis by auto
qed

theorem soft_pwm_set_updates_first_witness:
  "\<exists>s1 s2. soft_call bcm_mmio (demo_env [16, 0, 100], PWM_INIT, 0x1000) demo_loaded = Inr (0, s1) \<and>
     pwm_ioctl bcm_mmio (demo_env [16, 50]) PWM_SET 0x1000 s1 = Inr (0, s2) \<and>
     soft_pins s2 = [\<lparr>dc_pin = 16, dc_duty_cycle = 50, dc_min = 0, dc_max = 100\<rparr>]"
proof -
  from demo_init_step [of demo_loaded bcm_mmio 16 0 100] demo_loaded_facts obtain s1
    where 1: "soft_call bcm_mmio (demo_env [16, 0, 100], PWM_INIT, 0x1000) demo_loaded = Inr (0, s1)" "soft_inv s1"
      "soft_pins s1 = [\<lparr>dc_pin = 16, dc_duty_cycle = 0, dc_min = 0, dc_max = 100\<rparr>]" by auto
  have a: "access_ok (demo_env [16, 50]) 0x1000 4" by (simp add: demo_env_def)
  from soft_pwm_set_updates_first [OF 1(2) a demo_env_tmp(1,2), of bcm_mmio] 1 show ?thesis by fastforce
qed

text \<open>
  C12: A command of another type or with a number above 4 is refused with \<open>-ENOTTY\<close>, a driver command
  whose argument \<open>access_ok\<close> refuses with \<open>-EFAULT\<close>, and the state is untouched; every word that is not one of the four
  commands leaves the state untouched.
\<close>

theorem soft_ioctl_rejects:
  "(IOC_TYPE cmd \<noteq> PWM_MAGIC_NUM \<or> IOC_NR cmd > 4 \<longrightarrow> pwm_ioctl M E cmd arg s = Inr (-25, s)) \<and>
   (cmd \<in> {PIN_SET, GPIO_SET, PWM_INIT, PWM_SET} \<and> \<not> access_ok E arg 4 \<longrightarrow>
      pwm_ioctl M E cmd arg s = Inr (-14, s)) \<and>
   (cmd \<notin> {PIN_SET, GPIO_SET, PWM_INIT, PWM_SET} \<longrightarrow>
      (\<exists>r. pwm_ioctl M E cmd arg s = Inr (r, s) \<and> r \<in> {0, -25, -14}))"
proof (intro conjI impI)
  assume "IOC_TYPE cmd \<noteq> PWM_MAGIC_NUM \<or> IOC_NR cmd > 4"
  then show "pwm_ioctl M E cmd arg s = Inr (-25, s)" unfolding pwm_ioctl_def ENOTTY_def by simp
next
  assume "cmd \<in> {PIN_SET, GPIO_SET, PWM_INIT, PWM_SET} \<and> \<not> access_ok E arg 4"
  then have c: "cmd \<in> {PIN_SET, GPIO_SET, PWM_INIT, PWM_SET}" and a: "\<not> access_ok E arg 4" by blast+
  from a show "pwm_ioctl M E cmd arg s = Inr (-14, s)"
    unfolding pwm_ioctl_dispatch [OF c] by (simp add: EFAULT_def)
next
  assume "cmd \<notin> {PIN_SET, GPIO_SET, PWM_INIT, PWM_SET}"
  from pwm_ioctl_other [OF this] show "\<exists>r. pwm_ioctl M E cmd arg s = Inr (r, s) \<and> r \<in> {0, -25, -14}"
    by (simp add: ENOTTY_def EFAULT_def)
qed

theorem soft_ioctl_rejects_witness:
  "pwm_ioctl bcm_mmio (demo_env []) 0x5401 0 demo_loaded = Inr (-25, demo_loaded) \<and>
   pwm_ioctl bcm_mmio ((demo_env [])\<lparr>access_ok := (\<lambda>_ _. False)\<rparr>) PIN_SET 0 demo_loaded = Inr (-14, demo_loaded)"
  using soft_ioctl_rejects [of "0x5401" bcm_mmio "demo_env []" 0 demo_loaded]
    soft_ioctl_rejects [of PIN_SET bcm_mmio "(demo_env [])\<lparr>access_ok := (\<lambda>_ _. False)\<rparr>" 0 demo_loaded]
  by (simp add: IOC_TYPE_def PWM_MAGIC_NUM_def)

text \<open>
  C15: \<open>pwm_pin_count\<close> is not compared with \<open>MAX_PWM_NUM\<close>: once five pins are registered a further
  \<open>PWM_INIT\<close> accesses its arrays out of bounds.
\<close>

theorem soft_sixth_pin_faults:
  assumes "soft_inv s" "length (soft_pins s) = MAX_PWM_NUM" "access_ok E arg 4"
  shows "pwm_ioctl M E PWM_INIT arg s = Inl OutOfBounds"
  using assms cmds_distinct ioctl_PWM_INIT_full [OF assms(1), of E arg]
  by (simp add: pwm_ioctl_dispatch length_soft_pins MAX_PWM_NUM_def)

definition demo_full :: "bcm_gpio softpwm" where
  "demo_full = demo_loaded\<lparr>duty_array := Some (replicate 5 dc_zero), pwm_tsk := Some (map Some [100..<105]), pwm_pin_count := 5\<rparr>"

theorem soft_sixth_pin_faults_witness:
  "soft_inv demo_full \<and> pwm_ioctl bcm_mmio (demo_env [4, 0, 100]) PWM_INIT 0x1000 demo_full = Inl OutOfBounds"
proof -
  have i: "soft_inv demo_full" by (simp add: soft_inv_def demo_full_def MAX_PWM_NUM_def upt_conv_Cons)
  have l: "length (soft_pins demo_full) = MAX_PWM_NUM" by (simp add: demo_full_def soft_pins_def MAX_PWM_NUM_def)
  have a: "access_ok (demo_env [4, 0, 100]) 0x1000 4" by (simp add: demo_env_def)
  show ?thesis using soft_sixth_pin_faults [OF i l a] i by simp
qed

text \<open>
  The command words carry \<open>sizeof(int *)\<close>, so \<open>access_ok\<close> is asked for four bytes although two or
  three \<open>int\<close>s are read: when only the first is readable, \<open>PIN_SET\<close> and \<open>GPIO_SET\<close> fault in the kernel.
\<close>

theorem soft_check_too_short:
  assumes "cmd \<in> {PIN_SET, GPIO_SET}" "access_ok E arg (IOC_SIZE cmd)" "user_mem E (arg + 4) = None"
  shows "IOC_SIZE cmd = 4 \<and> pwm_ioctl M E cmd arg s = Inl UserFault"
proof -
  have c: "cmd \<in> {PIN_SET, GPIO_SET, PWM_INIT, PWM_SET}" using assms(1) by blast
  have "tmp_at (user_mem E) arg 1 = Inl UserFault" using assms(3) by (simp add: tmp_at_def)
  with assms(1,2) cmd_fields(4) [OF c] cmds_distinct show ?thesis
    unfolding pwm_ioctl_dispatch [OF c] by (auto simp: ioctl_PIN_SET_def ioctl_GPIO_SET_def)
qed

theorem soft_check_too_short_witness:
  "user_mem (demo_env [17]) 0x1000 = Some 17 \<and>
   pwm_ioctl bcm_mmio (demo_env [17]) PIN_SET 0x1000 demo_loaded = Inl UserFault"
  using soft_check_too_short [of PIN_SET "demo_env [17]" "0x1000" bcm_mmio demo_loaded]
  by (simp add: demo_env_def umem_of_def)

text \<open>
  C0: When the device number was allocated but the cdev could not be allocated or added, \<open>pwm_init\<close>
  reports success: the module stays loaded without a device and keeps the device number.
\<close>

theorem soft_load_reports_success:
  assumes "chrdev_region L = Inr m" "\<not> kzalloc_cdev L \<or> cdev_add L < 0"
  shows "\<exists>s. pwm_init L (soft_boot h) = (0, s) \<and> CdevReg \<notin> set (held s) \<and> CdevMem \<notin> set (held s) \<and>
    DevRegion \<in> set (held s) \<and> \<not> cdevp s"
  using assms
  by (auto simp: pwm_init_def pwm_init_failed_def Let_def soft_boot_def acquire_def release_def log_msg_def)

theorem soft_load_reports_success_witness:
  "\<exists>s. pwm_init (demo_load\<lparr>cdev_add := -12\<rparr>) (soft_boot bcm_reset) = (0, s) \<and> CdevReg \<notin> set (held s) \<and>
    DevRegion \<in> set (held s)"
  using soft_load_reports_success [of "demo_load\<lparr>cdev_add := -12\<rparr>" 240 bcm_reset] by (auto simp: demo_load_def)

text \<open>
  After a full load, any ioctl calls that return and \<open>pwm_exit\<close>, every thread has been stopped and the
  mapping, the device number and the cdev memory are released, but the two arrays are still allocated
  and the cdev is still registered.
\<close>

theorem soft_unload_leaks:
  assumes "load_all_ok L" "pwm_init L (soft_boot h) = (r0, s)" "run_ioctls (soft_call M) qs s = Inr (rs, s')"
  shows "\<exists>s''. pwm_exit s' = Inr s'' \<and> held s'' = [CdevReg, TskMem, DutyMem]"
proof -
  from pwm_init_ok [OF assms(1), of h] assms(2) have s: "soft_inv s" "held s = loaded_res" "cdevp s" "pwm_pin_count s = 0"
    by auto
  from run_held [OF s(1) assms(3), of loaded_res] s
  have h: "held s' = map Thread (rev [0..<pwm_pin_count s']) @ loaded_res" "cdevp s'" by auto
  from pwm_exit_run [OF soft.run_inv [OF s(1) assms(3)] h(1)] h(2) show ?thesis
    by (simp add: loaded_res_def)
qed

theorem soft_unload_leaks_witness:
  "\<exists>s s''. soft_call bcm_mmio (demo_env [16, 0, 100], PWM_INIT, 0x1000) demo_loaded = Inr (0, s) \<and> pwm_pin_count s = 1 \<and>
     pwm_exit s = Inr s'' \<and> held s'' = [CdevReg, TskMem, DutyMem]"
proof -
  from demo_init_step [of demo_loaded bcm_mmio 16 0 100] demo_loaded_facts obtain s
    where s: "soft_call bcm_mmio (demo_env [16, 0, 100], PWM_INIT, 0x1000) demo_loaded = Inr (0, s)" "pwm_pin_count s = 1"
    by auto
  then have "run_ioctls (soft_call bcm_mmio) [(demo_env [16, 0, 100], PWM_INIT, 0x1000)] demo_loaded = Inr ([0], s)" by simp
  from soft_unload_leaks [OF demo_load_ok demo_loaded_facts(1) this] s show ?thesis by blast
qed

text \<open>
  For a duty cycle between 0 and the range and a range of at most 214748 the two sleep times are the
  truncated shares of the 10 ms period, and together they make up the period to within one microsecond.
\<close>

theorem soft_period:
  assumes "0 \<le> sint (dc_duty_cycle d)" "sint (dc_duty_cycle d) \<le> sint (dc_max d) - sint (dc_min d)"
    and "0 < sint (dc_max d) - sint (dc_min d)" "sint (dc_max d) - sint (dc_min d) \<le> 214748"
  shows "\<exists>h l. HIGH_TIME d = Inr h \<and> LOW_TIME d = Inr l \<and>
    uint h = 10000 * sint (dc_duty_cycle d) div (sint (dc_max d) - sint (dc_min d)) \<and>
    uint h + uint l \<in> {9999, 10000}"
proof -
  have w: "soft_dc_wf d" using assms by (simp add: soft_dc_wf_def)
  from soft_times(1) [OF w] soft_halves [OF w] soft_time.halves_unsigned [OF w]
  obtain h l where h: "HIGH_TIME d = Inr h" "LOW_TIME d = Inr l" "0 \<le> sint h" "sint h \<le> 10000"
    "h = word_of_int (10000 * sint (dc_duty_cycle d) div (sint (dc_max d) - sint (dc_min d)))"
    "uint h + uint l \<le> 10000" "9999 \<le> uint h + uint l" by fastforce
  define r where "r = sint (dc_max d) - sint (dc_min d)"
  let ?x = "10000 * sint (dc_duty_cycle d) div (sint (dc_max d) - sint (dc_min d))"
  have "0 \<le> ?x" using assms by (simp add: pos_imp_zdiv_nonneg_iff)
  moreover have "?x \<le> 10000"
    using zdiv_mono1 [of "10000 * sint (dc_duty_cycle d)" "10000 * r" r] assms(2,3) unfolding r_def [symmetric] by simp
  ultimately have "uint h = ?x" using h(5) by (simp add: uint_word_of_int)
  with h show ?thesis by (intro exI [of _ h] exI [of _ l]) auto
qed

theorem soft_period_witness:
  "\<exists>h l. HIGH_TIME \<lparr>dc_pin = 21, dc_duty_cycle = 1000, dc_min = 0, dc_max = 10000\<rparr> = Inr h \<and>
     LOW_TIME \<lparr>dc_pin = 21, dc_duty_cycle = 1000, dc_min = 0, dc_max = 10000\<rparr> = Inr l \<and> uint h = 1000 \<and>
     uint h + uint l \<in> {9999, 10000}"
  using soft_period [of "\<lparr>dc_pin = 21, dc_duty_cycle = 1000, dc_min = 0, dc_max = 10000\<rparr>"] by simp

text \<open>
  The bound on the range is needed: with bounds 0 and 300000 and a duty cycle of 250000 the product
  overflows and the high time, a valid share of 8333 microseconds, comes out negative, which as the unsigned
  argument of the sleep is more than an hour.
\<close>

theorem soft_high_time_overflow:
  "\<exists>h. HIGH_TIME \<lparr>dc_pin = 16, dc_duty_cycle = 250000, dc_min = 0, dc_max = 300000\<rparr> = Inr h \<and>
     sint h < 0 \<and> uint h > 3600 * 1000000"
  by (simp add: HIGH_TIME_def PWM_RANGE_def signed_divide_int_def)

end
