(* ===== verification/SoftPWM_Task.thy ===== *)
theory SoftPWM_Task
  imports SoftPWM
begin

text \<open>
  The PWM threads of \<^verbatim>\<open>softPWM/main.c\<close>. \<open>pwm_task\<close> is a loop without end; its body is a state machine
  with one step per access to shared data, because ioctl calls on other processors change the records
  between these accesses. \<open>sys_step\<close> interleaves the threads, ioctl calls and stop requests in every
  order; facts about all interleavings are invariants of \<open>sys_reach\<close>.
\<close>

section \<open>The thread\<close>

text \<open>
  \<open>usleep_range(HIGH_TIME, HIGH_TIME)\<close> evaluates the macro twice, each time reading the record afresh:
  one step for each evaluation, so \<open>PcHigh2\<close> and \<open>PcLow2\<close> carry the first value.
\<close>

datatype pc = PcCheck | PcSet | PcHigh1 | PcHigh2 s32 | PcClr | PcLow1 | PcLow2 s32 | PcDone

datatype obs = ObsSet s32 | ObsClr s32 | ObsSleep u32 u32

definition duty_at :: "'h softpwm \<Rightarrow> nat \<Rightarrow> Dutycycle res" where
  "duty_at s pos = rbind (deref (duty_array s)) (\<lambda>da. arr_get da pos)"

fun task_step :: "'h mmio \<Rightarrow> bool \<Rightarrow> nat \<Rightarrow> pc \<Rightarrow> 'h softpwm \<Rightarrow> (pc \<times> obs list \<times> 'h softpwm) res" where
  "task_step M stop pos PcCheck s = Inr (if stop then PcDone else PcSet, [], s)"
| "task_step M stop pos PcSet s =
     rbind (duty_at s pos) (\<lambda>d.
     rbind (gpio_set M (gpio_map s) (dc_pin d) (hw s)) (\<lambda>h.
     Inr (PcHigh1, [ObsSet (dc_pin d)], s\<lparr>hw := h\<rparr>)))"
| "task_step M stop pos PcHigh1 s =
     rbind (duty_at s pos) (\<lambda>d. rbind (HIGH_TIME d) (\<lambda>a. Inr (PcHigh2 a, [], s)))"
| "task_step M stop pos (PcHigh2 a) s =
     rbind (duty_at s pos) (\<lambda>d. rbind (HIGH_TIME d) (\<lambda>b. Inr (PcClr, [ObsSleep a b], s)))"
| "task_step M stop pos PcClr s =
     rbind (duty_at s pos) (\<lambda>d.
     rbind (gpio_clr M (gpio_map s) (dc_pin d) (hw s)) (\<lambda>h.
     Inr (PcLow1, [ObsClr (dc_pin d)], s\<lparr>hw := h\<rparr>)))"
| "task_step M stop pos PcLow1 s =
     rbind (duty_at s pos) (\<lambda>d. rbind (LOW_TIME d) (\<lambda>a. Inr (PcLow2 a, [], s)))"
| "task_step M stop pos (PcLow2 a) s =
     rbind (duty_at s pos) (\<lambda>d. rbind (LOW_TIME d) (\<lambda>b. Inr (PcCheck, [ObsSleep a b], s)))"
| "task_step M stop pos PcDone s = Inr (PcDone, [], s)"

text \<open>A thread running on its own for \<open>n\<close> steps.\<close>

fun task_steps :: "'h mmio \<Rightarrow> nat \<Rightarrow> nat \<Rightarrow> pc \<Rightarrow> 'h softpwm \<Rightarrow> (pc \<times> obs list \<times> 'h softpwm) res" where
  "task_steps M pos 0 pc s = Inr (pc, [], s)"
| "task_steps M pos (Suc n) pc s =
     rbind (task_step M False pos pc s) (\<lambda>(pc1, os1, s1).
     rbind (task_steps M pos n pc1 s1) (\<lambda>(pc2, os2, s2).
     Inr (pc2, os1 @ os2, s2)))"

section \<open>All interleavings\<close>

record 'h sys =
  drv :: "'h softpwm"
  pcs :: "nat \<Rightarrow> pc"
  should_stop :: "nat \<Rightarrow> bool"
  trace :: "(nat \<times> obs) list"

inductive sys_step :: "'h mmio \<Rightarrow> 'h sys \<Rightarrow> 'h sys \<Rightarrow> bool" for M where
  ioctl: "soft_call M q (drv \<sigma>) = Inr (r, s') \<Longrightarrow> sys_step M \<sigma> (\<sigma>\<lparr>drv := s'\<rparr>)"
| thread: "i < pwm_pin_count (drv \<sigma>) \<Longrightarrow>
     task_step M (should_stop \<sigma> i) i (pcs \<sigma> i) (drv \<sigma>) = Inr (pc', os, s') \<Longrightarrow>
     sys_step M \<sigma> (\<sigma>\<lparr>drv := s', pcs := (pcs \<sigma>)(i := pc'), trace := trace \<sigma> @ map (Pair i) os\<rparr>)"
| stop: "sys_step M \<sigma> (\<sigma>\<lparr>should_stop := (should_stop \<sigma>)(i := True)\<rparr>)"

inductive_cases sys_stepE: "sys_step M \<sigma> \<tau>"

inductive sys_reach :: "'h mmio \<Rightarrow> 'h sys \<Rightarrow> 'h sys \<Rightarrow> bool" for M where
  refl: "sys_reach M \<sigma> \<sigma>"
| step: "sys_reach M \<sigma> \<tau> \<Longrightarrow> sys_step M \<tau> \<upsilon> \<Longrightarrow> sys_reach M \<sigma> \<upsilon>"

definition sys_start :: "'h softpwm \<Rightarrow> 'h sys" where
  "sys_start s = \<lparr>drv = s, pcs = (\<lambda>_. PcCheck), should_stop = (\<lambda>_. False), trace = []\<rparr>"

section \<open>One step of a thread\<close>

lemma duty_at_pins:
  assumes "soft_inv s" "i < pwm_pin_count s"
  shows "duty_at s i = Inr (soft_pins s ! i)"
  using assms by (auto simp: duty_at_def soft_pins_def elim: soft_invE)

text \<open>A thread writes nothing of the driver's state but the registers.\<close>

lemma task_step_frame:
  assumes "task_step M stop i pc s = Inr (pc', os, s')"
  shows "\<exists>h. s' = s\<lparr>hw := h\<rparr>"
  using assms
  by (cases pc) (auto simp: rbind_def split: sum.splits intro: exI [where x = "hw s"])

text \<open>The kinds of events and the place a thread has in its period.\<close>

fun obs_kind :: "obs \<Rightarrow> nat" where
  "obs_kind (ObsSet p) = 0"
| "obs_kind (ObsSleep a b) = 1"
| "obs_kind (ObsClr p) = 2"

fun pc_phase :: "pc \<Rightarrow> nat option" where
  "pc_phase PcCheck = Some 0"
| "pc_phase PcSet = Some 0"
| "pc_phase PcHigh1 = Some 1"
| "pc_phase (PcHigh2 a) = Some 1"
| "pc_phase PcClr = Some 2"
| "pc_phase PcLow1 = Some 3"
| "pc_phase (PcLow2 a) = Some 3"
| "pc_phase PcDone = None"

text \<open>\<open>phase_kinds\<close>: set, sleep, clear, sleep, and again.\<close>

definition phase_kinds :: "nat \<Rightarrow> nat" where
  "phase_kinds n = [0, 1, 2, 1] ! (n mod 4)"

definition alternates :: "obs list \<Rightarrow> bool" where
  "alternates os \<longleftrightarrow> (\<forall>n < length os. obs_kind (os ! n) = phase_kinds n)"

lemma alternates_Nil [simp]: "alternates []"
  by (simp add: alternates_def)

lemma alternates_snoc: "alternates os \<Longrightarrow> obs_kind ob = phase_kinds (length os) \<Longrightarrow> alternates (os @ [ob])"
  by (auto simp: alternates_def nth_append less_Suc_eq)

lemma task_step_phase:
  assumes "task_step M stop i pc s = Inr (pc', os, s')"
    and "alternates tr" "\<forall>k. pc_phase pc = Some k \<longrightarrow> length tr mod 4 = k"
  shows "alternates (tr @ os) \<and> (\<forall>k. pc_phase pc' = Some k \<longrightarrow> length (tr @ os) mod 4 = k)"
proof -
  have m: "Suc n mod 4 = (if n mod 4 = 3 then 0 else Suc (n mod 4))" for n by (simp add: mod_Suc)
  show ?thesis using assms
    by (cases pc) (auto simp: rbind_def m phase_kinds_def intro!: alternates_snoc split: sum.splits if_splits)
qed

section \<open>Invariants of every interleaving\<close>

definition thread_events :: "nat \<Rightarrow> 'h sys \<Rightarrow> obs list" where
  "thread_events i \<sigma> = map snd (filter (\<lambda>e. fst e = i) (trace \<sigma>))"

definition pins_of_obs :: "obs \<Rightarrow> s32 set" where
  "pins_of_obs ob = (case ob of ObsSet p \<Rightarrow> {p} | ObsClr p \<Rightarrow> {p} | ObsSleep a b \<Rightarrow> {})"

definition sys_inv :: "'h sys \<Rightarrow> bool" where
  "sys_inv \<sigma> \<longleftrightarrow> soft_inv (drv \<sigma>) \<and>
     (\<forall>i. alternates (thread_events i \<sigma>) \<and>
          (\<forall>k. pc_phase (pcs \<sigma> i) = Some k \<longrightarrow> length (thread_events i \<sigma>) mod 4 = k)) \<and>
     (\<forall>(i, ob) \<in> set (trace \<sigma>). \<forall>p \<in> pins_of_obs ob.
          i < pwm_pin_count (drv \<sigma>) \<and> dc_pin (soft_pins (drv \<sigma>) ! i) = p)"

lemma thread_events_append:
  "thread_events i (\<sigma>\<lparr>trace := trace \<sigma> @ map (Pair j) os\<rparr>) =
   thread_events i \<sigma> @ (if i = j then os else [])"
  by (auto simp: thread_events_def filter_map comp_def)

lemma thread_events_update [simp]:
  "thread_events i (\<sigma>\<lparr>drv := s\<rparr>) = thread_events i \<sigma>"
  "thread_events i (\<sigma>\<lparr>pcs := f\<rparr>) = thread_events i \<sigma>"
  "thread_events i (\<sigma>\<lparr>should_stop := g\<rparr>) = thread_events i \<sigma>"
  by (simp_all add: thread_events_def)

lemma task_step_obs_pin:
  assumes "soft_inv s" "i < pwm_pin_count s" "task_step M stop i pc s = Inr (pc', os, s')"
    and "ob \<in> set os" "p \<in> pins_of_obs ob"
  shows "dc_pin (soft_pins s ! i) = p"
  using assms(3-5)
  by (cases pc) (auto simp: rbind_def duty_at_pins [OF assms(1,2)] pins_of_obs_def split: sum.splits)

lemma soft_call_slot:
  assumes "soft_inv s" "soft_call M q s = Inr (r, s')" "i < pwm_pin_count s"
  shows "i < pwm_pin_count s' \<and> pin_ids (soft_pins s' ! i) = pin_ids (soft_pins s ! i)"
proof -
  have "run_ioctls (soft_call M) [q] s = Inr ([r], s')" using assms(2) by simp
  from soft.run_slot_stable [OF assms(1) this, of i] assms soft_call_effect(1) [OF assms(1,2)]
  show ?thesis by (simp add: length_soft_pins)
qed

lemma sys_inv_start: "soft_inv s \<Longrightarrow> sys_inv (sys_start s)"
  by (auto simp: sys_inv_def sys_start_def thread_events_def)

lemma sys_inv_step:
  assumes "sys_step M \<sigma> \<tau>" "sys_inv \<sigma>"
  shows "sys_inv \<tau>"
  using assms(1)
proof (cases rule: sys_step.cases)
  case (ioctl q r s')
  from assms(2) have inv: "soft_inv (drv \<sigma>)" by (simp add: sys_inv_def)
  have "i < pwm_pin_count s' \<and> dc_pin (soft_pins s' ! i) = dc_pin (soft_pins (drv \<sigma>) ! i)"
    if "i < pwm_pin_count (drv \<sigma>)" for i
    using soft_call_slot [OF inv ioctl(2) that] by (simp add: pin_ids_def)
  with ioctl assms(2) soft_call_effect(1) [OF inv ioctl(2)] show ?thesis
    by (fastforce simp: sys_inv_def)
next
  case (thread i pc' os s')
  from assms(2) have inv: "soft_inv (drv \<sigma>)" by (simp add: sys_inv_def)
  from task_step_frame [OF thread(3)] obtain h where s': "s' = (drv \<sigma>)\<lparr>hw := h\<rparr>" by blast
  let ?\<tau> = "\<sigma>\<lparr>trace := trace \<sigma> @ map (Pair i) os\<rparr>"
  have ph: "alternates (thread_events j \<tau>) \<and> (\<forall>k. pc_phase (pcs \<tau> j) = Some k \<longrightarrow> length (thread_events j \<tau>) mod 4 = k)" for j
  proof (cases "j = i")
    case True
    have "alternates (thread_events i \<sigma>)" "\<forall>k. pc_phase (pcs \<sigma> i) = Some k \<longrightarrow> length (thread_events i \<sigma>) mod 4 = k"
      using assms(2) by (auto simp: sys_inv_def)
    from task_step_phase [OF thread(3) this] True show ?thesis
      using thread_events_append [of i \<sigma> i os] by (simp add: thread(1) thread_events_def)
  next
    case False
    have "thread_events j \<tau> = thread_events j \<sigma>"
      using False thread_events_append [of j \<sigma> i os] by (simp add: thread(1) thread_events_def)
    with False assms(2) show ?thesis by (simp add: thread(1) sys_inv_def)
  qed
  have "\<forall>(j, ob) \<in> set (trace \<tau>). \<forall>p \<in> pins_of_obs ob. j < pwm_pin_count s' \<and> dc_pin (soft_pins s' ! j) = p"
    using assms(2) thread(2) task_step_obs_pin [OF inv thread(2,3)] by (auto simp: thread(1) sys_inv_def s')
  with ph inv show ?thesis by (simp add: thread(1) sys_inv_def s')
next
  case (stop i)
  with assms(2) show ?thesis by (simp add: sys_inv_def)
qed

lemma sys_inv_reach: "sys_reach M \<sigma> \<tau> \<Longrightarrow> sys_inv \<sigma> \<Longrightarrow> sys_inv \<tau>"
  by (induction rule: sys_reach.induct) (auto intro: sys_inv_step)

text \<open>A registered slot keeps its pin and its bounds in every later state.\<close>

lemma sys_step_slot:
  assumes "sys_step M \<sigma> \<tau>" "soft_inv (drv \<sigma>)" "i < pwm_pin_count (drv \<sigma>)"
  shows "i < pwm_pin_count (drv \<tau>) \<and> pin_ids (soft_pins (drv \<tau>) ! i) = pin_ids (soft_pins (drv \<sigma>) ! i) \<and>
    gpio_map (drv \<tau>) = gpio_map (drv \<sigma>)"
  using assms(1)
proof (cases rule: sys_step.cases)
  case (ioctl q r s')
  with soft_call_slot [OF assms(2) ioctl(2) assms(3)] soft_call_effect(6) [OF assms(2) ioctl(2)]
  show ?thesis by simp
next
  case (thread j pc' os s')
  with task_step_frame [OF thread(3)] assms(3) show ?thesis by auto
next
  case (stop j)
  with assms(3) show ?thesis by simp
qed

lemma sys_reach_slot:
  assumes "sys_reach M \<sigma> \<tau>" "sys_inv \<sigma>" "i < pwm_pin_count (drv \<sigma>)"
  shows "i < pwm_pin_count (drv \<tau>) \<and> pin_ids (soft_pins (drv \<tau>) ! i) = pin_ids (soft_pins (drv \<sigma>) ! i) \<and>
    gpio_map (drv \<tau>) = gpio_map (drv \<sigma>)"
  using assms
proof (induction rule: sys_reach.induct)
  case (refl \<sigma>)
  then show ?case by simp
next
  case (step \<sigma> \<tau> \<upsilon>)
  then have "sys_inv \<tau>" by (blast intro: sys_inv_reach)
  then have "soft_inv (drv \<tau>)" by (simp add: sys_inv_def)
  with step sys_step_slot [OF step(2) this, of i] show ?case by simp
qed

section \<open>When a thread can run\<close>

text \<open>A slot whose thread never faults: a pin of bank 0 and bounds that differ.\<close>

definition slot_safe :: "Dutycycle \<Rightarrow> bool" where
  "slot_safe d \<longleftrightarrow> 0 \<le> sint (dc_pin d) \<and> sint (dc_pin d) < 32 \<and> PWM_RANGE d \<noteq> 0"

lemma slot_safe_ids: "pin_ids d = pin_ids d' \<Longrightarrow> slot_safe d = slot_safe d'"
  by (simp add: slot_safe_def pin_ids_def PWM_RANGE_def)

lemma task_step_safe:
  assumes "soft_inv s" "gpio_map s" "i < pwm_pin_count s" "slot_safe (soft_pins s ! i)"
  shows "\<exists>pc' os s'. task_step M stop i pc s = Inr (pc', os, s')"
  using assms(2,4)
  by (cases pc) (simp_all add: duty_at_pins [OF assms(1,3)] slot_safe_def gpio_set_def gpio_clr_def
      gpio_at_def MAP_SIZE_def HIGH_TIME_def LOW_TIME_def)

text \<open>With equal bounds the first sleep time divides by zero.\<close>

lemma task_step_div_zero:
  assumes "soft_inv s" "i < pwm_pin_count s" "PWM_RANGE (soft_pins s ! i) = 0"
  shows "task_step M stop i PcHigh1 s = Inl DivByZero"
  using assms(3) by (simp add: duty_at_pins [OF assms(1,2)] HIGH_TIME_def)

section \<open>How a thread ends\<close>

text \<open>A step of thread \<open>i\<close>, and executions in which it takes at least \<open>n\<close> steps among those of the others.\<close>

definition thread_step :: "'h mmio \<Rightarrow> nat \<Rightarrow> 'h sys \<Rightarrow> 'h sys \<Rightarrow> bool" where
  "thread_step M i \<sigma> \<tau> \<longleftrightarrow> i < pwm_pin_count (drv \<sigma>) \<and>
     (\<exists>pc' os s'. task_step M (should_stop \<sigma> i) i (pcs \<sigma> i) (drv \<sigma>) = Inr (pc', os, s') \<and>
        \<tau> = \<sigma>\<lparr>drv := s', pcs := (pcs \<sigma>)(i := pc'), trace := trace \<sigma> @ map (Pair i) os\<rparr>)"

inductive thread_runs :: "'h mmio \<Rightarrow> nat \<Rightarrow> nat \<Rightarrow> 'h sys \<Rightarrow> 'h sys \<Rightarrow> bool" for M i where
  refl: "thread_runs M i 0 \<sigma> \<sigma>"
| own: "thread_runs M i n \<sigma> \<tau> \<Longrightarrow> thread_step M i \<tau> \<upsilon> \<Longrightarrow> thread_runs M i (Suc n) \<sigma> \<upsilon>"
| other: "thread_runs M i n \<sigma> \<tau> \<Longrightarrow> sys_step M \<tau> \<upsilon> \<Longrightarrow> thread_runs M i n \<sigma> \<upsilon>"

fun steps_left :: "pc \<Rightarrow> nat" where
  "steps_left PcCheck = 1"
| "steps_left PcSet = 7"
| "steps_left PcHigh1 = 6"
| "steps_left (PcHigh2 a) = 5"
| "steps_left PcClr = 4"
| "steps_left PcLow1 = 3"
| "steps_left (PcLow2 a) = 2"
| "steps_left PcDone = 0"

lemma steps_left_7: "steps_left pc \<le> 7"
  by (cases pc) auto

lemma steps_left_0: "steps_left pc = 0 \<longleftrightarrow> pc = PcDone"
  by (cases pc) auto

lemma thread_step_sys_step: "thread_step M i \<sigma> \<tau> \<Longrightarrow> sys_step M \<sigma> \<tau>"
  by (auto simp: thread_step_def intro: sys_step.thread)

lemma thread_runs_reach: "thread_runs M i n \<sigma> \<tau> \<Longrightarrow> sys_reach M \<sigma> \<tau>"
  by (induction rule: thread_runs.induct) (auto intro: sys_reach.intros thread_step_sys_step)

lemma task_step_left:
  "task_step M True i pc s = Inr (pc', os, s') \<Longrightarrow> steps_left pc' = steps_left pc - 1"
  by (cases pc) (auto simp: rbind_def split: sum.splits)

lemma sys_step_left:
  assumes "sys_step M \<sigma> \<tau>" and "should_stop \<sigma> i"
  shows "should_stop \<tau> i \<and> steps_left (pcs \<tau> i) \<le> steps_left (pcs \<sigma> i)"
  using assms(1)
proof (cases rule: sys_step.cases)
  case (thread j pc' os s')
  show ?thesis
  proof (cases "j = i")
    case True
    then show ?thesis using thread assms(2) task_step_left [of M i "pcs \<sigma> i" "drv \<sigma>" pc' os s'] by simp
  qed (use thread assms(2) in simp)
qed (use assms(2) in auto)

lemma thread_runs_left:
  assumes "thread_runs M i n \<sigma> \<tau>" and "should_stop \<sigma> i"
  shows "should_stop \<tau> i \<and> steps_left (pcs \<tau> i) \<le> steps_left (pcs \<sigma> i) - n"
  using assms
proof (induction rule: thread_runs.induct)
  case (own n \<sigma> \<tau> \<upsilon>)
  then have "should_stop \<tau> i" "steps_left (pcs \<tau> i) \<le> steps_left (pcs \<sigma> i) - n" by auto
  moreover from own(2) this(1) have "should_stop \<upsilon> i" "steps_left (pcs \<upsilon> i) = steps_left (pcs \<tau> i) - 1"
    by (auto simp: thread_step_def dest: task_step_left)
  ultimately show ?case by simp
next
  case (other n \<sigma> \<tau> \<upsilon>)
  then show ?case using sys_step_left [OF other(2), of i] by auto
qed simp

text \<open>A thread that has ended did so between two periods.\<close>

definition ends_low :: "'h sys \<Rightarrow> bool" where
  "ends_low \<sigma> \<longleftrightarrow> (\<forall>i. pcs \<sigma> i = PcDone \<longrightarrow> 4 dvd length (thread_events i \<sigma>))"

lemma task_step_done:
  "task_step M stop i pc s = Inr (PcDone, os, s') \<Longrightarrow> os = [] \<and> (pc = PcCheck \<or> pc = PcDone)"
  by (cases pc) (auto simp: rbind_def split: sum.splits if_splits)

lemma ends_low_step:
  assumes "sys_step M \<sigma> \<tau>" and "sys_inv \<sigma>" and "ends_low \<sigma>"
  shows "ends_low \<tau>"
  using assms(1)
proof (cases rule: sys_step.cases)
  case (thread i pc' os s')
  have "4 dvd length (thread_events j \<tau>)" if j: "pcs \<tau> j = PcDone" for j
  proof (cases "j = i")
    case True
    then have "os = []" and pc: "pcs \<sigma> i = PcCheck \<or> pcs \<sigma> i = PcDone"
      using task_step_done [of M "should_stop \<sigma> i" i "pcs \<sigma> i" "drv \<sigma>" os s'] thread j by auto
    then have "thread_events j \<tau> = thread_events i \<sigma>" using True thread(1) by (simp add: thread_events_def)
    moreover have "4 dvd length (thread_events i \<sigma>)"
    proof -
      have "length (thread_events i \<sigma>) mod 4 = 0" if "pcs \<sigma> i = PcCheck"
        using assms(2) that unfolding sys_inv_def by (metis pc_phase.simps(1))
      then show ?thesis using pc assms(3) unfolding ends_low_def by (auto simp: mod_eq_0_iff_dvd)
    qed
    ultimately show ?thesis by simp
  next
    case False
    have "thread_events j \<tau> = thread_events j \<sigma>"
      using False thread_events_append [of j \<sigma> i os] by (simp add: thread(1) thread_events_def)
    then show ?thesis using False thread(1) assms(3) j by (simp add: ends_low_def)
  qed
  then show ?thesis by (simp add: ends_low_def)
qed (use assms(3) in \<open>auto simp: ends_low_def\<close>)

lemma ends_low_reach: "sys_reach M \<sigma> \<tau> \<Longrightarrow> sys_inv \<sigma> \<Longrightarrow> ends_low \<sigma> \<Longrightarrow> ends_low \<tau>"
  by (induction rule: sys_reach.induct) (auto intro: ends_low_step sys_inv_reach)

lemma ends_low_start: "ends_low (sys_start s)"
  by (simp add: ends_low_def sys_start_def)

section \<open>One period of a thread on its own\<close>

lemma duty_at_hw [simp]: "duty_at (s\<lparr>hw := h\<rparr>) i = duty_at s i"
  by (simp add: duty_at_def)

lemma task_steps_period:
  assumes d: "duty_at s i = Inr d" and t: "HIGH_TIME d = Inr a" "LOW_TIME d = Inr b" and m: "gpio_map s"
    and g: "gpio_set M True (dc_pin d) (hw s) = Inr h1" "gpio_clr M True (dc_pin d) h1 = Inr h2"
  shows "task_steps M i 7 PcCheck s =
    Inr (PcCheck, [ObsSet (dc_pin d), ObsSleep a a, ObsClr (dc_pin d), ObsSleep b b], s\<lparr>hw := h2\<rparr>)"
  using assms by (simp add: numeral_eq_Suc)

section \<open>Properties\<close>







text \<open>
  C16: \<open>PWM_INIT\<close> does not compare the bounds: a slot registered with equal bounds divides by zero when
  its thread computes the first sleep time.
\<close>

theorem soft_equal_bounds_fault:
  assumes "soft_inv s" "gpio_map s" "i < pwm_pin_count s" "dc_min (soft_pins s ! i) = dc_max (soft_pins s ! i)"
    and "0 \<le> sint (dc_pin (soft_pins s ! i))" "sint (dc_pin (soft_pins s ! i)) < 32"
  shows "task_steps M i 3 PcCheck s = Inl DivByZero"
proof -
  let ?d = "soft_pins s ! i"
  have d: "duty_at s i = Inr ?d" by (rule duty_at_pins [OF assms(1,3)])
  have z: "HIGH_TIME ?d = Inl DivByZero" using assms(4) by (simp add: HIGH_TIME_def PWM_RANGE_def)
  obtain h where "gpio_set M True (dc_pin ?d) (hw s) = Inr h"
    using assms(5,6) by (simp add: gpio_set_def gpio_at_def MAP_SIZE_def)
  with d z assms(2) show ?thesis by (simp add: numeral_eq_Suc)
qed

theorem soft_equal_bounds_fault_witness:
  "\<exists>s1. soft_call bcm_mmio (demo_env [16, 5, 5], PWM_INIT, 0x1000) demo_loaded = Inr (0, s1) \<and>
     task_steps bcm_mmio 0 3 PcCheck s1 = Inl DivByZero"
proof -
  from demo_init_step [of demo_loaded bcm_mmio 16 5 5] demo_loaded_facts obtain s1
    where 1: "soft_call bcm_mmio (demo_env [16, 5, 5], PWM_INIT, 0x1000) demo_loaded = Inr (0, s1)" "soft_inv s1"
      "soft_pins s1 = [\<lparr>dc_pin = 16, dc_duty_cycle = 0, dc_min = 5, dc_max = 5\<rparr>]" "pwm_pin_count s1 = 1" "gpio_map s1" by auto
  with soft_equal_bounds_fault [OF 1(2,5), of 0 bcm_mmio] show ?thesis by simp
qed



end
