(* ===== verification/XenoPWM.thy ===== *)
theory XenoPWM
  imports Pwm_Common
begin

text \<open>
  The real-time driver \<^verbatim>\<open>xenoPWM/main.c\<close> on Xenomai's RTDM interface, and its copy of the GPIO access
  layer \<^verbatim>\<open>xenoPWM/gpio.c\<close>. It shares the commands and the contract of the character device and differs in
  the checks it makes (none on the command word), in the order of \<open>PWM_INIT\<close> (record first, task second)
  and in how it computes the sleep times. RTDM is outside the repository: its class number and the
  results of \<open>rtdm_task_init\<close> and \<open>rtdm_dev_register\<close> are arguments.
\<close>

section \<open>GPIO access\<close>

definition xeno_gpio_input :: "'h mmio \<Rightarrow> bool \<Rightarrow> s32 \<Rightarrow> 'h \<Rightarrow> 'h res" where
  "xeno_gpio_input M gpio pin h =
     rbind (gpio_at gpio (sint pin sdiv 10)) (\<lambda>a.
     rbind (shl32 7 (sint pin smod 10 * 3)) (\<lambda>m.
     Inr (io_write M h a (io_read M h a AND NOT m))))"

definition xeno_gpio_output :: "'h mmio \<Rightarrow> bool \<Rightarrow> s32 \<Rightarrow> 'h \<Rightarrow> 'h res" where
  "xeno_gpio_output M gpio pin h =
     rbind (gpio_at gpio (sint pin sdiv 10)) (\<lambda>a.
     rbind (shl32 1 (sint pin smod 10 * 3)) (\<lambda>m.
     Inr (io_write M h a (io_read M h a OR m))))"

definition xeno_gpio_set :: "'h mmio \<Rightarrow> bool \<Rightarrow> s32 \<Rightarrow> 'h \<Rightarrow> 'h res" where
  "xeno_gpio_set M gpio pin h =
     rbind (gpio_at gpio 7) (\<lambda>a. rbind (shl32 1 (sint pin)) (\<lambda>v. Inr (io_write M h a v)))"

definition xeno_gpio_clr :: "'h mmio \<Rightarrow> bool \<Rightarrow> s32 \<Rightarrow> 'h \<Rightarrow> 'h res" where
  "xeno_gpio_clr M gpio pin h =
     rbind (gpio_at gpio 10) (\<lambda>a. rbind (shl32 1 (sint pin)) (\<lambda>v. Inr (io_write M h a v)))"

lemma xeno_gpio_eqs:
  "xeno_gpio_input = gpio_input" "xeno_gpio_output = gpio_output"
  "xeno_gpio_set = gpio_set" "xeno_gpio_clr = gpio_clr"
  by (simp_all add: fun_eq_iff xeno_gpio_input_def gpio_input_def xeno_gpio_output_def gpio_output_def
      xeno_gpio_set_def gpio_set_def xeno_gpio_clr_def gpio_clr_def)

section \<open>State and commands\<close>

datatype xmsg = XWarn string | XWarnAt string nat | XInfoDuty Dutycycle string

record 'h xenopwm =
  xduty_array :: "Dutycycle list option"
  xtask_array :: "bool list"
  xpwm_pin_count :: nat
  xgpio_map :: bool
  xhw :: 'h
  xregistered :: bool
  xlog :: "xmsg list"

definition xlog_msg :: "xmsg \<Rightarrow> 'h xenopwm \<Rightarrow> 'h xenopwm" where
  "xlog_msg m s = s\<lparr>xlog := xlog s @ [m]\<rparr>"

definition X_PIN_SET :: "u32 \<Rightarrow> u32" where "X_PIN_SET cls = IOW cls 0 sizeof_int_ptr"
definition X_GPIO_SET :: "u32 \<Rightarrow> u32" where "X_GPIO_SET cls = IOW cls 1 sizeof_int_ptr"
definition X_PWM_INIT :: "u32 \<Rightarrow> u32" where "X_PWM_INIT cls = IOW cls 2 sizeof_int_ptr"
definition X_PWM_SET :: "u32 \<Rightarrow> u32" where "X_PWM_SET cls = IOW cls 3 sizeof_int_ptr"

record xenv =
  rtdm_task_init :: "nat \<Rightarrow> int"
  xuser_mem :: umem

section \<open>The ioctl handler\<close>

definition xeno_ioctl_PIN_SET :: "'h mmio \<Rightarrow> xenv \<Rightarrow> u32 \<Rightarrow> 'h xenopwm \<Rightarrow> (int \<times> 'h xenopwm) res" where
  "xeno_ioctl_PIN_SET M E arg s =
     rbind (tmp_at (xuser_mem E) arg 1) (\<lambda>t1.
     if t1 \<noteq> 0 \<and> t1 \<noteq> 1 then Inr (0, xlog_msg (XWarn ''wrong pin type input for PIN_SET!'') s)
     else rbind (tmp_at (xuser_mem E) arg 0) (\<lambda>t0.
       rbind (if t1 = 0 then xeno_gpio_input M (xgpio_map s) t0 (xhw s)
              else xeno_gpio_output M (xgpio_map s) t0 (xhw s)) (\<lambda>h.
       Inr (0, s\<lparr>xhw := h\<rparr>))))"

definition xeno_ioctl_GPIO_SET :: "'h mmio \<Rightarrow> xenv \<Rightarrow> u32 \<Rightarrow> 'h xenopwm \<Rightarrow> (int \<times> 'h xenopwm) res" where
  "xeno_ioctl_GPIO_SET M E arg s =
     rbind (tmp_at (xuser_mem E) arg 1) (\<lambda>t1.
     if t1 \<noteq> 0 \<and> t1 \<noteq> 1 then Inr (0, xlog_msg (XWarn ''wrong pin type input for GPIO_SET!'') s)
     else rbind (tmp_at (xuser_mem E) arg 0) (\<lambda>t0.
       rbind (if t1 = 0 then xeno_gpio_clr M (xgpio_map s) t0 (xhw s)
              else xeno_gpio_set M (xgpio_map s) t0 (xhw s)) (\<lambda>h.
       Inr (0, s\<lparr>xhw := h\<rparr>))))"

definition xeno_ioctl_PWM_INIT :: "xenv \<Rightarrow> u32 \<Rightarrow> 'h xenopwm \<Rightarrow> (int \<times> 'h xenopwm) res" where
  "xeno_ioctl_PWM_INIT E arg s =
     (let n = xpwm_pin_count s in
     rbind (tmp_at (xuser_mem E) arg 0) (\<lambda>t0.
     rbind (tmp_at (xuser_mem E) arg 1) (\<lambda>t1.
     rbind (tmp_at (xuser_mem E) arg 2) (\<lambda>t2.
     rbind (deref (xduty_array s)) (\<lambda>da.
     let d = \<lparr>dc_pin = t0, dc_duty_cycle = 10, dc_min = t1, dc_max = t2\<rparr> in
     rbind (arr_set da n d) (\<lambda>da'.
     rbind (arr_get task_names n) (\<lambda>nm.
     let s1 = xlog_msg (XInfoDuty d nm) (s\<lparr>xduty_array := Some da'\<rparr>); err = rtdm_task_init E n in
     if err \<noteq> 0
     then Inr (err, xlog_msg (XWarnAt ''failed to create pwm task on rtdm_task_init'' n) s1)
     else rbind (arr_set (xtask_array s1) n True) (\<lambda>ta.
       Inr (0, s1\<lparr>xtask_array := ta, xpwm_pin_count := Suc n\<rparr>)))))))))"

definition xeno_ioctl_PWM_SET :: "xenv \<Rightarrow> u32 \<Rightarrow> 'h xenopwm \<Rightarrow> (int \<times> 'h xenopwm) res" where
  "xeno_ioctl_PWM_SET E arg s =
     rbind (find_pin (tmp_at (xuser_mem E) arg 0) (xduty_array s) 0 (xpwm_pin_count s)) (\<lambda>r.
     case r of
       None \<Rightarrow> Inr (0, xlog_msg (XWarn ''wrong pin input for PWM_SET!'') s)
     | Some pos \<Rightarrow>
         rbind (tmp_at (xuser_mem E) arg 1) (\<lambda>t1.
         rbind (deref (xduty_array s)) (\<lambda>da.
         rbind (arr_get da pos) (\<lambda>d.
         rbind (arr_set da pos (d\<lparr>dc_duty_cycle := t1\<rparr>)) (\<lambda>da'.
         Inr (0, s\<lparr>xduty_array := Some da'\<rparr>))))))"

definition xeno_pwm_ioctl ::
  "'h mmio \<Rightarrow> u32 \<Rightarrow> xenv \<Rightarrow> u32 \<Rightarrow> u32 \<Rightarrow> 'h xenopwm \<Rightarrow> (int \<times> 'h xenopwm) res" where
  "xeno_pwm_ioctl M cls E cmd arg s =
     (if cmd = X_PIN_SET cls then xeno_ioctl_PIN_SET M E arg s
      else if cmd = X_GPIO_SET cls then xeno_ioctl_GPIO_SET M E arg s
      else if cmd = X_PWM_INIT cls then xeno_ioctl_PWM_INIT E arg s
      else if cmd = X_PWM_SET cls then xeno_ioctl_PWM_SET E arg s
      else Inr (0, s))"

section \<open>Module load and unload\<close>

text \<open>A failed \<open>rtdm_dev_register\<close> is only logged; the module still reports success.\<close>

definition xeno_pwm_init :: "bool \<Rightarrow> bool \<Rightarrow> int \<Rightarrow> 'h xenopwm \<Rightarrow> int \<times> 'h xenopwm" where
  "xeno_pwm_init ioremap_ok kzalloc_ok ret s0 =
     (let s1 = s0\<lparr>xgpio_map := ioremap_ok\<rparr>;
          s2 = s1\<lparr>xduty_array := (if kzalloc_ok then Some (replicate MAX_PWM_NUM dc_zero) else None)\<rparr>;
          s3 = (if kzalloc_ok then s2
                else xlog_msg (XWarn ''failed to allocate duty_array memory by kzalloc'') s2);
          s4 = s3\<lparr>xregistered := (ret = 0)\<rparr>
      in (0, if ret \<noteq> 0 then xlog_msg (XWarn ''failed to register RTDM device for xenopwm'') s4 else s4))"

definition xeno_boot :: "'h \<Rightarrow> 'h xenopwm" where
  "xeno_boot h = \<lparr>xduty_array = None, xtask_array = replicate MAX_PWM_NUM False, xpwm_pin_count = 0,
     xgpio_map = False, xhw = h, xregistered = False, xlog = []\<rparr>"

fun destroy_tasks :: "nat \<Rightarrow> nat \<Rightarrow> 'h xenopwm \<Rightarrow> 'h xenopwm res" where
  "destroy_tasks i 0 s = Inr s"
| "destroy_tasks i (Suc k) s =
     rbind (arr_set (xtask_array s) i False) (\<lambda>ta. destroy_tasks (Suc i) k (s\<lparr>xtask_array := ta\<rparr>))"

definition xeno_pwm_exit :: "'h xenopwm \<Rightarrow> 'h xenopwm res" where
  "xeno_pwm_exit s =
     rbind (destroy_tasks 0 (xpwm_pin_count s) s) (\<lambda>s1.
     Inr (s1\<lparr>xgpio_map := False, xregistered := False\<rparr>))"

section \<open>Sleep times and the task\<close>

definition PERIOD_NS :: s32 where "PERIOD_NS = word_of_int (1000000000 sdiv sint PWM_FREQ)"

definition X_HIGH_TIME :: "Dutycycle \<Rightarrow> s32 res" where
  "X_HIGH_TIME d = rbind (sdiv32 PERIOD_NS (PWM_RANGE d)) (\<lambda>q. Inr (q * dc_duty_cycle d))"

definition X_LOW_TIME :: "Dutycycle \<Rightarrow> s32 res" where
  "X_LOW_TIME d = rbind (sdiv32 PERIOD_NS (PWM_RANGE d)) (\<lambda>q. Inr (q * (PWM_RANGE d - dc_duty_cycle d)))"

text \<open>\<open>rtdm_task_sleep\<close> takes a signed 64-bit number of nanoseconds: the \<open>int\<close> is sign-extended.\<close>

datatype xpc = XStartPc | XCheck | XSet | XHigh | XClr | XLow | XDone

datatype xobs = XObsStart s32 | XObsSet s32 | XObsClr s32 | XObsSleep int

definition xduty_at :: "'h xenopwm \<Rightarrow> nat \<Rightarrow> Dutycycle res" where
  "xduty_at s pos = rbind (deref (xduty_array s)) (\<lambda>da. arr_get da pos)"

fun xeno_task_step :: "'h mmio \<Rightarrow> bool \<Rightarrow> nat \<Rightarrow> xpc \<Rightarrow> 'h xenopwm \<Rightarrow> (xpc \<times> xobs list \<times> 'h xenopwm) res" where
  "xeno_task_step M stop pos XStartPc s =
     rbind (xduty_at s pos) (\<lambda>d. Inr (XCheck, [XObsStart (dc_pin d)], s))"
| "xeno_task_step M stop pos XCheck s = Inr (if stop then XDone else XSet, [], s)"
| "xeno_task_step M stop pos XSet s =
     rbind (xduty_at s pos) (\<lambda>d.
     rbind (xeno_gpio_set M (xgpio_map s) (dc_pin d) (xhw s)) (\<lambda>h.
     Inr (XHigh, [XObsSet (dc_pin d)], s\<lparr>xhw := h\<rparr>)))"
| "xeno_task_step M stop pos XHigh s =
     rbind (xduty_at s pos) (\<lambda>d. rbind (X_HIGH_TIME d) (\<lambda>t. Inr (XClr, [XObsSleep (sint t)], s)))"
| "xeno_task_step M stop pos XClr s =
     rbind (xduty_at s pos) (\<lambda>d.
     rbind (xeno_gpio_clr M (xgpio_map s) (dc_pin d) (xhw s)) (\<lambda>h.
     Inr (XLow, [XObsClr (dc_pin d)], s\<lparr>xhw := h\<rparr>)))"
| "xeno_task_step M stop pos XLow s =
     rbind (xduty_at s pos) (\<lambda>d. rbind (X_LOW_TIME d) (\<lambda>t. Inr (XCheck, [XObsSleep (sint t)], s)))"
| "xeno_task_step M stop pos XDone s = Inr (XDone, [], s)"

fun xeno_task_steps :: "'h mmio \<Rightarrow> nat \<Rightarrow> nat \<Rightarrow> xpc \<Rightarrow> 'h xenopwm \<Rightarrow> (xpc \<times> xobs list \<times> 'h xenopwm) res" where
  "xeno_task_steps M pos 0 pc s = Inr (pc, [], s)"
| "xeno_task_steps M pos (Suc n) pc s =
     rbind (xeno_task_step M False pos pc s) (\<lambda>(pc1, os1, s1).
     rbind (xeno_task_steps M pos n pc1 s1) (\<lambda>(pc2, os2, s2).
     Inr (pc2, os1 @ os2, s2)))"

section \<open>Invariant\<close>

definition xeno_inv :: "'h xenopwm \<Rightarrow> bool" where
  "xeno_inv s \<longleftrightarrow>
     (case xduty_array s of
        None \<Rightarrow> False
      | Some da \<Rightarrow> length da = MAX_PWM_NUM \<and> length (xtask_array s) = MAX_PWM_NUM \<and>
          xpwm_pin_count s \<le> MAX_PWM_NUM \<and>
          list_all (\<lambda>i. xtask_array s ! i = (i < xpwm_pin_count s)) [0..<MAX_PWM_NUM])"

definition xeno_pins :: "'h xenopwm \<Rightarrow> Dutycycle list" where
  "xeno_pins s = (case xduty_array s of None \<Rightarrow> [] | Some da \<Rightarrow> take (xpwm_pin_count s) da)"

lemma xeno_invE:
  assumes "xeno_inv s"
  obtains da where "xduty_array s = Some da" "length da = 5" "length (xtask_array s) = 5"
    "xpwm_pin_count s \<le> 5" "\<And>i. i < 5 \<Longrightarrow> xtask_array s ! i = (i < xpwm_pin_count s)"
  using assms by (auto simp: xeno_inv_def MAX_PWM_NUM_def list_all_iff split: option.splits)

lemma xeno_invI:
  assumes "xduty_array s = Some da" "length da = 5" "length (xtask_array s) = 5"
    "xpwm_pin_count s \<le> 5" "\<And>i. i < 5 \<Longrightarrow> xtask_array s ! i = (i < xpwm_pin_count s)"
  shows "xeno_inv s"
  using assms by (auto simp: xeno_inv_def MAX_PWM_NUM_def list_all_iff)

lemma xlog_msg_simps [simp]:
  "xduty_array (xlog_msg m s) = xduty_array s" "xtask_array (xlog_msg m s) = xtask_array s"
  "xpwm_pin_count (xlog_msg m s) = xpwm_pin_count s" "xgpio_map (xlog_msg m s) = xgpio_map s"
  "xhw (xlog_msg m s) = xhw s" "xregistered (xlog_msg m s) = xregistered s"
  by (simp_all add: xlog_msg_def)

lemma xeno_view_log [simp]:
  "xeno_inv (xlog_msg m s) = xeno_inv s" "xeno_pins (xlog_msg m s) = xeno_pins s"
  "xeno_inv (s\<lparr>xhw := h\<rparr>) = xeno_inv s" "xeno_pins (s\<lparr>xhw := h\<rparr>) = xeno_pins s"
  by (simp_all add: xeno_inv_def xeno_pins_def split: option.split)

lemma length_xeno_pins: "xeno_inv s \<Longrightarrow> length (xeno_pins s) = xpwm_pin_count s"
  by (erule xeno_invE) (simp add: xeno_pins_def)

section \<open>The four commands\<close>

lemma xeno_ioctl_PIN_SET_frame:
  "xeno_ioctl_PIN_SET M E arg s = Inr (r, s') \<Longrightarrow>
   r = 0 \<and> xeno_pins s' = xeno_pins s \<and> xeno_inv s' = xeno_inv s"
  by (auto simp: xeno_ioctl_PIN_SET_def rbind_def split: if_splits sum.splits)

lemma xeno_ioctl_GPIO_SET_frame:
  "xeno_ioctl_GPIO_SET M E arg s = Inr (r, s') \<Longrightarrow>
   r = 0 \<and> xeno_pins s' = xeno_pins s \<and> xeno_inv s' = xeno_inv s"
  by (auto simp: xeno_ioctl_GPIO_SET_def rbind_def split: if_splits sum.splits)

lemma xeno_ioctl_PWM_INIT_full:
  assumes "xeno_inv s" "xpwm_pin_count s = 5"
    and "tmp_at (xuser_mem E) arg 0 = Inr p" "tmp_at (xuser_mem E) arg 1 = Inr lo" "tmp_at (xuser_mem E) arg 2 = Inr hi"
  shows "xeno_ioctl_PWM_INIT E arg s = Inl OutOfBounds"
  using assms by (auto simp: xeno_ioctl_PWM_INIT_def Let_def elim!: xeno_invE)

lemma xeno_ioctl_PWM_INIT_ok:
  assumes "xeno_inv s" "xpwm_pin_count s < 5"
    and "tmp_at (xuser_mem E) arg 0 = Inr p" "tmp_at (xuser_mem E) arg 1 = Inr lo" "tmp_at (xuser_mem E) arg 2 = Inr hi"
  shows "\<exists>s'. xeno_ioctl_PWM_INIT E arg s = Inr (rtdm_task_init E (xpwm_pin_count s), s') \<and> xeno_inv s' \<and> xhw s' = xhw s \<and>
    xgpio_map s' = xgpio_map s \<and>
    xeno_pins s' = (if rtdm_task_init E (xpwm_pin_count s) = 0
      then xeno_pins s @ [\<lparr>dc_pin = p, dc_duty_cycle = 10, dc_min = lo, dc_max = hi\<rparr>] else xeno_pins s)"
  using assms(1)
proof (rule xeno_invE)
  fix da
  assume s: "xduty_array s = Some da" "length da = 5" "length (xtask_array s) = 5" "xpwm_pin_count s \<le> 5"
    and ta: "\<And>i. i < 5 \<Longrightarrow> xtask_array s ! i = (i < xpwm_pin_count s)"
  let ?n = "xpwm_pin_count s" and ?d = "\<lparr>dc_pin = p, dc_duty_cycle = 10, dc_min = lo, dc_max = hi\<rparr>"
  let ?s1 = "xlog_msg (XInfoDuty ?d (task_names ! ?n)) (s\<lparr>xduty_array := Some (da[?n := ?d])\<rparr>)"
  show ?thesis
  proof (cases "rtdm_task_init E ?n = 0")
    case True
    let ?s' = "?s1\<lparr>xtask_array := (xtask_array s)[?n := True], xpwm_pin_count := Suc ?n\<rparr>"
    have "xeno_ioctl_PWM_INIT E arg s = Inr (0, ?s')"
      using True assms s by (simp add: xeno_ioctl_PWM_INIT_def Let_def)
    moreover have "xeno_inv ?s'"
      by (rule xeno_invI [where da = "da[?n := ?d]"])
        (use s ta assms(2) in \<open>auto simp: nth_list_update less_Suc_eq\<close>)
    moreover have "xeno_pins ?s' = xeno_pins s @ [?d]"
      using s assms(2) by (simp add: xeno_pins_def take_Suc_conv_app_nth)
    ultimately show ?thesis using True by simp
  next
    case False
    let ?s' = "xlog_msg (XWarnAt ''failed to create pwm task on rtdm_task_init'' ?n) ?s1"
    have "xeno_ioctl_PWM_INIT E arg s = Inr (rtdm_task_init E ?n, ?s')"
      using False assms s by (simp add: xeno_ioctl_PWM_INIT_def Let_def)
    moreover have "xeno_inv ?s'"
      by (rule xeno_invI [where da = "da[?n := ?d]"]) (use s ta in auto)
    moreover have "xeno_pins ?s' = xeno_pins s"
      using s by (simp add: xeno_pins_def)
    ultimately show ?thesis using False by simp
  qed
qed

lemma xeno_ioctl_PWM_INIT_frame:
  assumes inv: "xeno_inv s" and run: "xeno_ioctl_PWM_INIT E arg s = Inr (r, s')"
  shows "xeno_inv s' \<and> (\<exists>ys. xeno_pins s' = xeno_pins s @ ys) \<and> (r \<noteq> 0 \<longrightarrow> xeno_pins s' = xeno_pins s) \<and> xhw s' = xhw s"
proof -
  from run obtain p lo hi where t: "tmp_at (xuser_mem E) arg 0 = Inr p" "tmp_at (xuser_mem E) arg 1 = Inr lo"
      "tmp_at (xuser_mem E) arg 2 = Inr hi"
    by (auto simp: xeno_ioctl_PWM_INIT_def Let_def rbind_Inr_iff)
  have "xpwm_pin_count s < 5"
    using inv run xeno_ioctl_PWM_INIT_full [OF inv _ t] by (fastforce elim: xeno_invE)
  from xeno_ioctl_PWM_INIT_ok [OF inv this t] run show ?thesis by auto
qed

lemma xeno_find_pin:
  assumes "xeno_inv s"
  shows "find_pin (Inr p) (xduty_array s) 0 (xpwm_pin_count s) =
    Inr (first_from (\<lambda>j. dc_pin (xeno_pins s ! j) = p) 0 (xpwm_pin_count s))"
  using assms
proof (rule xeno_invE)
  fix da
  assume s: "xduty_array s = Some da" "length da = 5" "xpwm_pin_count s \<le> 5"
  have "first_from (\<lambda>j. dc_pin (da ! j) = p) i k = first_from (\<lambda>j. dc_pin (xeno_pins s ! j) = p) i k"
    if "i + k \<le> xpwm_pin_count s" for i k
    using that s by (induction k arbitrary: i) (auto simp: xeno_pins_def)
  then show ?thesis using s by (simp add: find_pin_first_from)
qed

lemma xeno_ioctl_PWM_SET_ok:
  assumes inv: "xeno_inv s" and "tmp_at (xuser_mem E) arg 0 = Inr p" "tmp_at (xuser_mem E) arg 1 = Inr v"
  shows "\<exists>s'. xeno_ioctl_PWM_SET E arg s = Inr (0, s') \<and> xeno_inv s' \<and>
    xeno_pins s' = set_first p v (xeno_pins s) \<and> xhw s' = xhw s"
proof (cases "first_from (\<lambda>j. dc_pin (xeno_pins s ! j) = p) 0 (xpwm_pin_count s)")
  case None
  then have "p \<notin> dc_pin ` set (xeno_pins s)"
    using length_xeno_pins [OF inv] by (auto simp: first_from_None_iff in_set_conv_nth)
  then show ?thesis
    using None assms by (simp add: xeno_ioctl_PWM_SET_def xeno_find_pin set_first_unknown)
next
  case (Some j)
  from inv obtain da where s: "xduty_array s = Some da" "length da = 5" "length (xtask_array s) = 5"
      "xpwm_pin_count s \<le> 5" and ta: "\<And>i. i < 5 \<Longrightarrow> xtask_array s ! i = (i < xpwm_pin_count s)"
    by (rule xeno_invE) blast
  from first_from_Some [OF Some] have j: "j < xpwm_pin_count s" "dc_pin (xeno_pins s ! j) = p"
      "\<forall>i < j. dc_pin (xeno_pins s ! i) \<noteq> p" by auto
  let ?da = "da[j := (da ! j)\<lparr>dc_duty_cycle := v\<rparr>]"
  have find: "find_pin (tmp_at (xuser_mem E) arg 0) (xduty_array s) 0 (xpwm_pin_count s) = Inr (Some j)"
    using assms(2) Some by (simp add: xeno_find_pin [OF inv])
  have run: "xeno_ioctl_PWM_SET E arg s = Inr (0, s\<lparr>xduty_array := Some ?da\<rparr>)"
    unfolding xeno_ioctl_PWM_SET_def find using assms(3) s j(1) by simp
  have "xeno_pins (s\<lparr>xduty_array := Some ?da\<rparr>) = (xeno_pins s)[j := (xeno_pins s ! j)\<lparr>dc_duty_cycle := v\<rparr>]"
    using s j(1) by (simp add: xeno_pins_def take_update_swap)
  also have "\<dots> = set_first p v (xeno_pins s)"
    using j length_xeno_pins [OF inv] by (simp add: set_first_update)
  finally have pins: "xeno_pins (s\<lparr>xduty_array := Some ?da\<rparr>) = set_first p v (xeno_pins s)" .
  have "xeno_inv (s\<lparr>xduty_array := Some ?da\<rparr>)"
    by (rule xeno_invI [where da = ?da]) (use s ta in auto)
  with run pins show ?thesis by auto
qed

lemma xeno_ioctl_PWM_SET_frame:
  assumes inv: "xeno_inv s" and run: "xeno_ioctl_PWM_SET E arg s = Inr (r, s')"
  shows "r = 0 \<and> xeno_inv s' \<and> map pin_ids (xeno_pins s') = map pin_ids (xeno_pins s) \<and> xhw s' = xhw s"
proof (cases "\<exists>p v. tmp_at (xuser_mem E) arg 0 = Inr p \<and> tmp_at (xuser_mem E) arg 1 = Inr v")
  case True
  with xeno_ioctl_PWM_SET_ok [OF inv] run show ?thesis by fastforce
next
  case False
  then have "s' = xlog_msg (XWarn ''wrong pin input for PWM_SET!'') s \<and> r = 0"
    using run by (auto simp: xeno_ioctl_PWM_SET_def rbind_Inr_iff split: option.splits
        dest: find_pin_reads)
  with inv show ?thesis by simp
qed

section \<open>The handler keeps the contract\<close>

type_synonym xrequest = "xenv \<times> u32 \<times> u32"

definition xeno_call :: "'h mmio \<Rightarrow> u32 \<Rightarrow> xrequest \<Rightarrow> 'h xenopwm \<Rightarrow> (int \<times> 'h xenopwm) res" where
  "xeno_call M cls q s = (case q of (E, cmd, arg) \<Rightarrow> xeno_pwm_ioctl M cls E cmd arg s)"

text \<open>The number field tells the four commands apart, whatever the class.\<close>

lemma IOC_NR_IOC: "nr < 2 ^ 8 \<Longrightarrow> IOC_NR (IOC dir cls nr sz) = nr"
proof (rule bit_eqI)
  fix n
  assume nr: "nr < 2 ^ 8"
  show "bit (IOC_NR (IOC dir cls nr sz)) n = bit nr n"
    using bit_beyond [OF nr, of n]
    by (auto simp: IOC_NR_def IOC_def mask_consts bit_simps not_le [symmetric])
qed

lemma xeno_cmds_distinct:
  "X_PIN_SET cls \<noteq> X_GPIO_SET cls" "X_PIN_SET cls \<noteq> X_PWM_INIT cls" "X_PIN_SET cls \<noteq> X_PWM_SET cls"
  "X_GPIO_SET cls \<noteq> X_PWM_INIT cls" "X_GPIO_SET cls \<noteq> X_PWM_SET cls" "X_PWM_INIT cls \<noteq> X_PWM_SET cls"
proof -
  have "IOC_NR (X_PIN_SET cls) = 0" "IOC_NR (X_GPIO_SET cls) = 1" "IOC_NR (X_PWM_INIT cls) = 2"
    "IOC_NR (X_PWM_SET cls) = 3"
    by (simp_all add: X_PIN_SET_def X_GPIO_SET_def X_PWM_INIT_def X_PWM_SET_def IOW_def IOC_NR_IOC)
  then show "X_PIN_SET cls \<noteq> X_GPIO_SET cls" "X_PIN_SET cls \<noteq> X_PWM_INIT cls" "X_PIN_SET cls \<noteq> X_PWM_SET cls"
    "X_GPIO_SET cls \<noteq> X_PWM_INIT cls" "X_GPIO_SET cls \<noteq> X_PWM_SET cls" "X_PWM_INIT cls \<noteq> X_PWM_SET cls"
    by auto
qed

lemma xeno_call_effect:
  assumes inv: "xeno_inv s" and run: "xeno_call M cls q s = Inr (r, s')"
  shows "xeno_inv s'" "r \<noteq> 0 \<Longrightarrow> xeno_pins s' = xeno_pins s \<and> xhw s' = xhw s"
    "\<exists>ys. map pin_ids (xeno_pins s') = map pin_ids (xeno_pins s) @ ys"
proof -
  obtain E cmd arg where q: "q = (E, cmd, arg)" by (cases q)
  consider "s' = s" | "xeno_ioctl_PIN_SET M E arg s = Inr (r, s')" | "xeno_ioctl_GPIO_SET M E arg s = Inr (r, s')"
    | "xeno_ioctl_PWM_INIT E arg s = Inr (r, s')" | "xeno_ioctl_PWM_SET E arg s = Inr (r, s')"
    using run by (auto simp: q xeno_call_def xeno_pwm_ioctl_def split: if_splits)
  then have "xeno_inv s' \<and> (r \<noteq> 0 \<longrightarrow> xeno_pins s' = xeno_pins s \<and> xhw s' = xhw s) \<and>
    (\<exists>ys. map pin_ids (xeno_pins s') = map pin_ids (xeno_pins s) @ ys)"
  proof cases
    case 1
    with inv show ?thesis by simp
  next
    case 2
    from xeno_ioctl_PIN_SET_frame [OF this] inv show ?thesis by simp
  next
    case 3
    from xeno_ioctl_GPIO_SET_frame [OF this] inv show ?thesis by simp
  next
    case 4
    from xeno_ioctl_PWM_INIT_frame [OF inv this] show ?thesis by auto
  next
    case 5
    from xeno_ioctl_PWM_SET_frame [OF inv this] show ?thesis by simp
  qed
  then show "xeno_inv s'" "r \<noteq> 0 \<Longrightarrow> xeno_pins s' = xeno_pins s \<and> xhw s' = xhw s"
    "\<exists>ys. map pin_ids (xeno_pins s') = map pin_ids (xeno_pins s) @ ys"
    by simp_all
qed

interpretation xeno: pwm_driver "xeno_call M cls" xeno_inv xeno_pins xhw for M cls
proof (unfold_locales, goal_cases)
  case (4 s)
  then show ?case by (auto simp: length_xeno_pins MAX_PWM_NUM_def elim: xeno_invE)
qed (blast dest: xeno_call_effect)+

section \<open>Sleep times\<close>

lemma PERIOD_NS_val [simp]: "PERIOD_NS = 10000000"
  by (simp add: PERIOD_NS_def PWM_FREQ_def sdiv_nonneg)

definition xeno_dc_wf :: "Dutycycle \<Rightarrow> bool" where
  "xeno_dc_wf d \<longleftrightarrow>
     (let r = sint (dc_max d) - sint (dc_min d)
      in 0 \<le> sint (dc_duty_cycle d) \<and> sint (dc_duty_cycle d) \<le> r \<and> 0 < r \<and> r < 2 ^ 31)"

lemma xeno_times:
  assumes "xeno_dc_wf d"
  defines "r \<equiv> sint (dc_max d) - sint (dc_min d)" and "v \<equiv> sint (dc_duty_cycle d)"
  shows "\<exists>h l. X_HIGH_TIME d = Inr h \<and> sint h = 10000000 div r * v \<and>
    X_LOW_TIME d = Inr l \<and> sint l = 10000000 div r * (r - v)"
proof -
  have b: "0 \<le> v" "v \<le> r" "0 < r" "r < 2 ^ 31"
    using assms(1) by (auto simp: xeno_dc_wf_def Let_def r_def v_def)
  have r: "sint (PWM_RANGE d) = r"
    using b unfolding r_def PWM_RANGE_def by (intro sint32_diff) auto
  then have nz: "PWM_RANGE d \<noteq> 0" using b by auto
  let ?q = "10000000 div r"
  have "?q * r = 10000000 - 10000000 mod r" by (simp add: minus_mod_eq_div_mult)
  then have qr: "?q * r \<le> 10000000" using pos_mod_sign [OF b(3), of 10000000] by linarith
  have q0: "0 \<le> ?q" using b by (simp add: pos_imp_zdiv_nonneg_iff)
  then have "?q \<le> ?q * r" using b by (simp add: mult_le_cancel_left1)
  with q0 qr have q: "0 \<le> ?q" "?q \<le> 10000000" by linarith+
  have le: "?q * x \<le> 10000000" if "0 \<le> x" "x \<le> r" for x
    using mult_left_mono [OF that(2) q(1)] qr by linarith
  have nn: "0 \<le> ?q * (r - v)" using q b by (intro mult_nonneg_nonneg) auto
  let ?Q = "word_of_int ?q :: s32"
  have Q: "sint ?Q = ?q" using q by (simp add: sint_of_small)
  have div: "sdiv32 PERIOD_NS (PWM_RANGE d) = Inr ?Q"
    using nz r b by (simp add: sdiv_nonneg)
  have "sint (?Q * dc_duty_cycle d) = ?q * v"
    using le [of v] b mult_nonneg_nonneg [OF q(1) b(1)] unfolding v_def by (subst sint32_mult) (auto simp: Q)
  moreover have rv: "sint (PWM_RANGE d - dc_duty_cycle d) = r - v"
    using b r unfolding v_def by (subst sint32_diff) auto
  moreover have "sint (?Q * (PWM_RANGE d - dc_duty_cycle d)) = ?q * (r - v)"
    using le [of "r - v"] b nn by (subst sint32_mult) (auto simp: Q rv)
  ultimately show ?thesis
    unfolding X_HIGH_TIME_def X_LOW_TIME_def div by simp
qed

text \<open>The truncated quotient is multiplied, so the loss is the remainder of the period by the range.\<close>

definition xeno_slack :: "Dutycycle \<Rightarrow> int" where
  "xeno_slack d = 10000000 mod (sint (dc_max d) - sint (dc_min d))"

lemma xeno_halves:
  assumes "xeno_dc_wf d"
  shows "\<exists>h l. X_HIGH_TIME d = Inr h \<and> X_LOW_TIME d = Inr l \<and> 0 \<le> sint h \<and> 0 \<le> sint l \<and>
    sint h + sint l = 10000000 - xeno_slack d"
proof -
  let ?r = "sint (dc_max d) - sint (dc_min d)" and ?v = "sint (dc_duty_cycle d)"
  have b: "0 \<le> ?v" "?v \<le> ?r" "0 < ?r" using assms by (auto simp: xeno_dc_wf_def Let_def)
  then have q: "0 \<le> 10000000 div ?r" by (simp add: pos_imp_zdiv_nonneg_iff)
  have "10000000 div ?r * ?v + 10000000 div ?r * (?r - ?v) = 10000000 div ?r * ?r"
    by (simp add: algebra_simps)
  also have "\<dots> = 10000000 - xeno_slack d"
    by (simp add: xeno_slack_def minus_mod_eq_div_mult)
  finally show ?thesis using xeno_times [OF assms] b mult_nonneg_nonneg [OF q] by fastforce
qed

interpretation xeno_time: pwm_timing X_HIGH_TIME X_LOW_TIME 10000000 xeno_slack xeno_dc_wf
proof (unfold_locales, goal_cases)
  case (2 d)
  have "0 \<le> xeno_slack d" using 2 by (auto simp: xeno_slack_def xeno_dc_wf_def Let_def)
  with xeno_halves [OF 2] show ?case by fastforce
qed simp

lemma xduty_at_pins:
  assumes "xeno_inv s" "i < xpwm_pin_count s"
  shows "xduty_at s i = Inr (xeno_pins s ! i)"
  using assms by (auto simp: xduty_at_def xeno_pins_def elim: xeno_invE)

lemma xduty_at_hw [simp]: "xduty_at (s\<lparr>xhw := h\<rparr>) i = xduty_at s i"
  by (simp add: xduty_at_def)

lemma xeno_task_steps_period:
  assumes "xduty_at s i = Inr d" "X_HIGH_TIME d = Inr a" "X_LOW_TIME d = Inr b" "xgpio_map s"
    and "gpio_set M True (dc_pin d) (xhw s) = Inr h1" "gpio_clr M True (dc_pin d) h1 = Inr h2"
  shows "xeno_task_steps M i 5 XCheck s =
    Inr (XCheck, [XObsSet (dc_pin d), XObsSleep (sint a), XObsClr (dc_pin d), XObsSleep (sint b)], s\<lparr>xhw := h2\<rparr>)"
  using assms by (simp add: numeral_eq_Suc xeno_gpio_eqs)

section \<open>Load and unload\<close>

lemma xeno_pwm_init_ok:
  "\<exists>s. xeno_pwm_init True True 0 (xeno_boot h) = (0, s) \<and> xeno_inv s \<and> xeno_pins s = [] \<and> xgpio_map s \<and>
    xhw s = h \<and> xregistered s \<and> xpwm_pin_count s = 0"
  by (auto simp: xeno_pwm_init_def xeno_boot_def Let_def xeno_inv_def xeno_pins_def MAX_PWM_NUM_def upt_conv_Cons
      list_all_iff)

lemma destroy_tasks_run:
  "i + k \<le> length (xtask_array s) \<Longrightarrow>
   \<exists>s'. destroy_tasks i k s = Inr s' \<and> length (xtask_array s') = length (xtask_array s) \<and>
     (\<forall>j < length (xtask_array s). xtask_array s' ! j = (if i \<le> j \<and> j < i + k then False else xtask_array s ! j))"
proof (induction k arbitrary: i s)
  case 0
  then show ?case by auto
next
  case (Suc k)
  let ?s1 = "s\<lparr>xtask_array := (xtask_array s)[i := False]\<rparr>"
  from Suc.IH [of "Suc i" ?s1] Suc.prems obtain s' where s': "destroy_tasks (Suc i) k ?s1 = Inr s'"
      "length (xtask_array s') = length (xtask_array s)"
      "\<And>j. j < length (xtask_array s) \<Longrightarrow>
        xtask_array s' ! j = (if Suc i \<le> j \<and> j < Suc i + k then False else (xtask_array s)[i := False] ! j)"
    by auto
  have "xtask_array s' ! j = (if i \<le> j \<and> j < i + Suc k then False else xtask_array s ! j)"
    if "j < length (xtask_array s)" for j
    using s'(3) [OF that] that by (cases "j = i") auto
  with s' Suc.prems show ?case by (intro exI [of _ s']) simp
qed

definition demo_xenv :: "s32 list \<Rightarrow> xenv" where
  "demo_xenv xs = \<lparr>rtdm_task_init = (\<lambda>_. 0), xuser_mem = umem_of 0x1000 xs\<rparr>"

definition demo_xloaded :: "bcm_gpio xenopwm" where
  "demo_xloaded = snd (xeno_pwm_init True True 0 (xeno_boot bcm_reset))"

lemma demo_xloaded_facts:
  "xeno_pwm_init True True 0 (xeno_boot bcm_reset) = (0, demo_xloaded)" "xeno_inv demo_xloaded"
  "xeno_pins demo_xloaded = []" "xgpio_map demo_xloaded" "xpwm_pin_count demo_xloaded = 0"
  using xeno_pwm_init_ok [of bcm_reset] by (auto simp: demo_xloaded_def)

lemma demo_xenv_tmp:
  "tmp_at (xuser_mem (demo_xenv (a # xs))) 0x1000 0 = Inr a"
  "tmp_at (xuser_mem (demo_xenv (a # b # xs))) 0x1000 1 = Inr b"
  "tmp_at (xuser_mem (demo_xenv (a # b # c # xs))) 0x1000 2 = Inr c"
  using tmp_at_umem_of [of 0 "a # xs" "0x1000"] tmp_at_umem_of [of 1 "a # b # xs" "0x1000"]
    tmp_at_umem_of [of 2 "a # b # c # xs" "0x1000"]
  by (simp_all add: demo_xenv_def)

section \<open>Properties\<close>

text \<open>
  C9: The real-time driver keeps the same contract as the character device under any sequence of ioctl
  calls that return: well-formed arrays, a task for exactly the registered slots, at most five pins,
  stable pin numbers and bounds; and a sequence of failing calls leaves registered pins and registers alone.
\<close>

theorem xeno_ioctl_contract:
  assumes "xeno_inv s" "run_ioctls (xeno_call M cls) qs s = Inr (rs, s')"
  shows "xeno_inv s' \<and> length (xeno_pins s') \<le> MAX_PWM_NUM \<and>
    (\<forall>i < length (xeno_pins s). i < length (xeno_pins s') \<and> pin_ids (xeno_pins s' ! i) = pin_ids (xeno_pins s ! i)) \<and>
    (0 \<notin> set rs \<longrightarrow> xeno_pins s' = xeno_pins s \<and> xhw s' = xhw s)"
  using xeno.run_inv [OF assms] xeno.capacity [OF xeno.run_inv [OF assms]] xeno.run_slot_stable [OF assms]
    xeno.run_error_frame [OF assms] by blast

theorem xeno_ioctl_contract_witness:
  "\<exists>s'. run_ioctls (xeno_call bcm_mmio 5) [((demo_xenv [16, 0, 100])\<lparr>rtdm_task_init := (\<lambda>_. -12)\<rparr>, X_PWM_INIT 5, 0x1000)] demo_xloaded
       = Inr ([-12], s') \<and> xeno_inv s' \<and> xeno_pins s' = xeno_pins demo_xloaded"
proof -
  let ?E = "(demo_xenv [16, 0, 100])\<lparr>rtdm_task_init := (\<lambda>_. -12)\<rparr>"
  have t: "tmp_at (xuser_mem ?E) 0x1000 0 = Inr 16" "tmp_at (xuser_mem ?E) 0x1000 1 = Inr 0"
    "tmp_at (xuser_mem ?E) 0x1000 2 = Inr 100" using demo_xenv_tmp by simp_all
  from xeno_ioctl_PWM_INIT_ok [OF demo_xloaded_facts(2) _ t] demo_xloaded_facts obtain s'
    where "xeno_ioctl_PWM_INIT ?E 0x1000 demo_xloaded = Inr (-12, s')" by auto
  then have r: "run_ioctls (xeno_call bcm_mmio 5) [(?E, X_PWM_INIT 5, 0x1000)] demo_xloaded = Inr ([-12], s')"
    using xeno_cmds_distinct [of 5] by (simp add: xeno_call_def xeno_pwm_ioctl_def)
  from xeno_ioctl_contract [OF demo_xloaded_facts(2) r] r show ?thesis by auto
qed

text \<open>
  C10: A real-time task alone through one period drives its pin high and low again, and its two sleeps add
  up to the 10 ms period less exactly the remainder of 10000000 by the range: the driver divides before
  it multiplies, so up to one unit per step of the range is lost, and a range above ten million loses
  the whole period.
\<close>

theorem xeno_task_period:
  assumes "gpio_bank M fsel latch" "xeno_inv s" "xgpio_map s" "i < xpwm_pin_count s"
    and "xeno_dc_wf (xeno_pins s ! i)" "sint (dc_pin (xeno_pins s ! i)) = int p" "p < 32"
  shows "\<exists>a b h. xeno_task_steps M i 5 XCheck s =
      Inr (XCheck, [XObsSet (dc_pin (xeno_pins s ! i)), XObsSleep a, XObsClr (dc_pin (xeno_pins s ! i)), XObsSleep b], s\<lparr>xhw := h\<rparr>) \<and>
    0 \<le> a \<and> 0 \<le> b \<and> a + b = 10000000 - 10000000 mod (sint (dc_max (xeno_pins s ! i)) - sint (dc_min (xeno_pins s ! i))) \<and>
    fsel h = fsel (xhw s) \<and> (\<forall>q. pin_latch (latch h) q = (q \<noteq> p \<and> pin_latch (latch (xhw s)) q))"
proof -
  let ?d = "xeno_pins s ! i"
  from xeno_halves [OF assms(5)] obtain a b where ab: "X_HIGH_TIME ?d = Inr a" "X_LOW_TIME ?d = Inr b"
    "0 \<le> sint a" "0 \<le> sint b" "sint a + sint b = 10000000 - xeno_slack ?d" by blast
  from gpio_bank.gpio_set_spec [OF assms(1,6,7), of "xhw s"] obtain h1
    where h1: "gpio_set M True (dc_pin ?d) (xhw s) = Inr h1" "fsel h1 = fsel (xhw s)"
      "latch h1 = (latch (xhw s))(0 := latch (xhw s) 0 OR 2 ^ p)" by blast
  from gpio_bank.gpio_clr_spec [OF assms(1,6,7), of h1] obtain h2
    where h2: "gpio_clr M True (dc_pin ?d) h1 = Inr h2" "fsel h2 = fsel h1"
      "latch h2 = (latch h1)(0 := latch h1 0 AND NOT (2 ^ p))" by blast
  have "pin_latch (latch h2) q = (q \<noteq> p \<and> pin_latch (latch (xhw s)) q)" for q
    using pin_latch_clr [OF assms(7), of "latch h1" q] pin_latch_set [OF assms(7), of "latch (xhw s)" q] h1(3) h2(3) by auto
  with xeno_task_steps_period [OF xduty_at_pins [OF assms(2,4)] ab(1,2) assms(3) h1(1) h2(1)] ab h1(2) h2(2)
  show ?thesis by (auto simp: xeno_slack_def)
qed

theorem xeno_task_period_witness:
  "\<exists>s1 a b h. xeno_call bcm_mmio 5 (demo_xenv [21, 0, 10000], X_PWM_INIT 5, 0x1000) demo_xloaded = Inr (0, s1) \<and>
     xeno_task_steps bcm_mmio 0 5 XCheck s1 = Inr (XCheck, [XObsSet 21, XObsSleep a, XObsClr 21, XObsSleep b], s1\<lparr>xhw := h\<rparr>) \<and>
     a + b = 10000000"
proof -
  let ?d = "\<lparr>dc_pin = 21, dc_duty_cycle = 10, dc_min = 0, dc_max = 10000\<rparr>"
  let ?E = "demo_xenv [21, 0, 10000]"
  have t: "tmp_at (xuser_mem ?E) 0x1000 0 = Inr 21" "tmp_at (xuser_mem ?E) 0x1000 1 = Inr 0"
    "tmp_at (xuser_mem ?E) 0x1000 2 = Inr 10000" by (rule demo_xenv_tmp)+
  have r: "rtdm_task_init ?E n = 0" for n by (simp add: demo_xenv_def)
  from xeno_ioctl_PWM_INIT_ok [OF demo_xloaded_facts(2) _ t] demo_xloaded_facts obtain s1
    where 1: "xeno_ioctl_PWM_INIT (demo_xenv [21, 0, 10000]) 0x1000 demo_xloaded = Inr (0, s1)" "xeno_inv s1"
      "xgpio_map s1" "xeno_pins s1 = [?d]" by (auto simp: r)
  have c: "xeno_call bcm_mmio 5 (demo_xenv [21, 0, 10000], X_PWM_INIT 5, 0x1000) demo_xloaded = Inr (0, s1)"
    using 1(1) xeno_cmds_distinct [of 5] by (simp add: xeno_call_def xeno_pwm_ioctl_def)
  have "xeno_dc_wf ?d" by (simp add: xeno_dc_wf_def Let_def)
  then have w: "xeno_dc_wf (xeno_pins s1 ! 0)" "sint (dc_pin (xeno_pins s1 ! 0)) = int 21" by (simp_all add: 1(4))
  have n: "0 < xpwm_pin_count s1" by (simp add: 1(4) flip: length_xeno_pins [OF 1(2)])
  from xeno_task_period [OF bcm.gpio_bank_axioms 1(2,3) n w] 1(4) c show ?thesis by auto
qed

text \<open>
  C11: The two drivers refine one registry but start a pin differently: with a free slot \<open>PWM_INIT\<close> returns
  what \<open>rtdm_task_init\<close> returns and appends the pin, with duty cycle 10, exactly when that is 0; with five
  pins registered it writes out of bounds.
\<close>

theorem xeno_pwm_init_appends:
  assumes "xeno_inv s" "tmp_at (xuser_mem E) arg 0 = Inr p" "tmp_at (xuser_mem E) arg 1 = Inr lo"
    and "tmp_at (xuser_mem E) arg 2 = Inr hi"
  shows "if length (xeno_pins s) = MAX_PWM_NUM
    then xeno_pwm_ioctl M cls E (X_PWM_INIT cls) arg s = Inl OutOfBounds
    else (\<exists>s'. xeno_pwm_ioctl M cls E (X_PWM_INIT cls) arg s = Inr (rtdm_task_init E (xpwm_pin_count s), s') \<and>
      xeno_inv s' \<and> xhw s' = xhw s \<and>
      xeno_pins s' = (if rtdm_task_init E (xpwm_pin_count s) = 0
        then xeno_pins s @ [\<lparr>dc_pin = p, dc_duty_cycle = 10, dc_min = lo, dc_max = hi\<rparr>] else xeno_pins s))"
proof -
  have d: "xeno_pwm_ioctl M cls E (X_PWM_INIT cls) arg s = xeno_ioctl_PWM_INIT E arg s"
    using xeno_cmds_distinct [of cls] by (simp add: xeno_pwm_ioctl_def)
  have n: "length (xeno_pins s) = xpwm_pin_count s" "xpwm_pin_count s \<le> 5"
    using assms(1) by (auto simp: length_xeno_pins elim: xeno_invE)
  show ?thesis
    using xeno_ioctl_PWM_INIT_full [OF assms(1) _ assms(2-4)] xeno_ioctl_PWM_INIT_ok [OF assms(1) _ assms(2-4)] n
    by (auto simp: d MAX_PWM_NUM_def)
qed

theorem xeno_pwm_init_appends_witness:
  "\<exists>s'. xeno_pwm_ioctl bcm_mmio 5 (demo_xenv [16, 0, 100]) (X_PWM_INIT 5) 0x1000 demo_xloaded = Inr (0, s') \<and>
     xeno_pins s' = [\<lparr>dc_pin = 16, dc_duty_cycle = 10, dc_min = 0, dc_max = 100\<rparr>]"
proof -
  let ?E = "demo_xenv [16, 0, 100]"
  have t: "tmp_at (xuser_mem ?E) 0x1000 0 = Inr 16" "tmp_at (xuser_mem ?E) 0x1000 1 = Inr 0"
    "tmp_at (xuser_mem ?E) 0x1000 2 = Inr 100" by (rule demo_xenv_tmp)+
  have r: "rtdm_task_init ?E n = 0" for n by (simp add: demo_xenv_def)
  from xeno_pwm_init_appends [OF demo_xloaded_facts(2) t, of bcm_mmio 5] show ?thesis
    by (auto simp: r demo_xloaded_facts MAX_PWM_NUM_def)
qed

end
