(* ===== verification/Uapi.thy ===== *)
theory Uapi
  imports SoftPWM_Task XenoPWM
begin

text \<open>
  The user-space libraries \<^verbatim>\<open>softPWM/uapi/pwm_user.c\<close> and \<^verbatim>\<open>xenoPWM/uapi/pwm_user.c\<close> and their example
  programs \<^verbatim>\<open>main.c\<close>. The C library's \<open>open\<close> and \<open>ioctl\<close> are arguments: \<open>ioctl\<close> takes the file
  descriptor, the command word and the contents of the array whose address the program passes, and
  returns its result, \<open>errno\<close> and the new state of the kernel. What the program prints is a list.
\<close>

section \<open>Output and system calls\<close>

datatype uout = OutInt s32 | OutFailed string s32 int | OutOpenFailed string "int option"

record 'k usys =
  u_open :: "'k \<Rightarrow> s32 \<times> int \<times> 'k"
  u_ioctl :: "s32 \<Rightarrow> u32 \<Rightarrow> s32 list \<Rightarrow> 'k \<Rightarrow> (s32 \<times> int \<times> 'k) res"

text \<open>A library call: it makes one ioctl and prints a line when the result is negative.\<close>

type_synonym 'k ucall = "uout list \<times> 'k \<Rightarrow> (uout list \<times> 'k) res"

definition report :: "string \<Rightarrow> s32 \<Rightarrow> int \<Rightarrow> uout list \<Rightarrow> uout list" where
  "report what ret errno out = (if sint ret < 0 then out @ [OutFailed what ret errno] else out)"

section \<open>The library of softPWM\<close>

definition LOW :: s32 where "LOW = 0"
definition HIGH :: s32 where "HIGH = 1"
definition INPUT :: s32 where "INPUT = 0"
definition OUTPUT :: s32 where "OUTPUT = 1"

definition pinMode :: "'k usys \<Rightarrow> s32 \<Rightarrow> s32 \<Rightarrow> s32 \<Rightarrow> 'k ucall" where
  "pinMode U filp pin type = (\<lambda>(out, k).
     let out' = out @ [OutInt pin] in
     rbind (u_ioctl U filp PIN_SET [pin, type] k) (\<lambda>(ret, errno, k').
     Inr (report ''PIN_SET'' ret errno out', k')))"

definition digitalWrite :: "'k usys \<Rightarrow> s32 \<Rightarrow> s32 \<Rightarrow> s32 \<Rightarrow> 'k ucall" where
  "digitalWrite U filp pin status = (\<lambda>(out, k).
     rbind (u_ioctl U filp GPIO_SET [pin, status] k) (\<lambda>(ret, errno, k').
     Inr (report ''GPIO_SET'' ret errno out, k')))"

definition softPwmCreate :: "'k usys \<Rightarrow> s32 \<Rightarrow> s32 \<Rightarrow> s32 \<Rightarrow> s32 \<Rightarrow> 'k ucall" where
  "softPwmCreate U filp pin lo hi = (\<lambda>(out, k).
     rbind (u_ioctl U filp PWM_INIT [pin, lo, hi] k) (\<lambda>(ret, errno, k').
     Inr (report ''PWM_INIT'' ret errno out, k')))"

definition softPwmWrite :: "'k usys \<Rightarrow> s32 \<Rightarrow> s32 \<Rightarrow> s32 \<Rightarrow> 'k ucall" where
  "softPwmWrite U filp pin duty = (\<lambda>(out, k).
     rbind (u_ioctl U filp PWM_SET [pin, duty] k) (\<lambda>(ret, errno, k').
     Inr (report ''PWM_SET'' ret errno out, k')))"

text \<open>The example program: it goes on when \<open>open\<close> has failed.\<close>

definition PIN1 :: s32 where "PIN1 = 16"
definition PIN2 :: s32 where "PIN2 = 21"

definition soft_main :: "'k usys \<Rightarrow> 'k \<Rightarrow> (int \<times> uout list \<times> 'k) res" where
  "soft_main U k0 =
     (let (filp, errno, k) = u_open U k0;
          out = (if sint filp < 0 then [OutOpenFailed ''failed to open device softpwm'' None] else []) in
      rbind (pinMode U filp PIN1 OUTPUT (out, k)) (\<lambda>u.
      rbind (pinMode U filp PIN2 OUTPUT u) (\<lambda>u.
      rbind (softPwmCreate U filp PIN1 0 100 u) (\<lambda>u.
      rbind (softPwmCreate U filp PIN2 0 10000 u) (\<lambda>u.
      rbind (softPwmWrite U filp PIN1 50 u) (\<lambda>u.
      rbind (softPwmWrite U filp PIN2 1000 u) (\<lambda>(out', k').
      Inr (0, out', k'))))))))"

section \<open>The library of xenoPWM\<close>

definition xeno_pinMode :: "'k usys \<Rightarrow> u32 \<Rightarrow> s32 \<Rightarrow> s32 \<Rightarrow> s32 \<Rightarrow> 'k ucall" where
  "xeno_pinMode U cls filp pin type = (\<lambda>(out, k).
     rbind (u_ioctl U filp (X_PIN_SET cls) [pin, type] k) (\<lambda>(ret, errno, k').
     Inr (report ''PIN_SET'' ret errno out, k')))"

definition xeno_digitalWrite :: "'k usys \<Rightarrow> u32 \<Rightarrow> s32 \<Rightarrow> s32 \<Rightarrow> s32 \<Rightarrow> 'k ucall" where
  "xeno_digitalWrite U cls filp pin status = (\<lambda>(out, k).
     rbind (u_ioctl U filp (X_GPIO_SET cls) [pin, status] k) (\<lambda>(ret, errno, k').
     Inr (report ''GPIO_SET'' ret errno out, k')))"

definition xeno_softPwmCreate :: "'k usys \<Rightarrow> u32 \<Rightarrow> s32 \<Rightarrow> s32 \<Rightarrow> s32 \<Rightarrow> s32 \<Rightarrow> 'k ucall" where
  "xeno_softPwmCreate U cls filp pin lo hi = (\<lambda>(out, k).
     rbind (u_ioctl U filp (X_PWM_INIT cls) [pin, lo, hi] k) (\<lambda>(ret, errno, k').
     Inr (report ''PWM_INIT'' ret errno out, k')))"

definition xeno_softPwmWrite :: "'k usys \<Rightarrow> u32 \<Rightarrow> s32 \<Rightarrow> s32 \<Rightarrow> s32 \<Rightarrow> 'k ucall" where
  "xeno_softPwmWrite U cls filp pin duty = (\<lambda>(out, k).
     rbind (u_ioctl U filp (X_PWM_SET cls) [pin, duty] k) (\<lambda>(ret, errno, k').
     Inr (report ''PWM_SET'' ret errno out, k')))"

definition xeno_main :: "'k usys \<Rightarrow> u32 \<Rightarrow> 'k \<Rightarrow> (int \<times> uout list \<times> 'k) res" where
  "xeno_main U cls k0 =
     (let (filp, errno, k) = u_open U k0;
          out = (if sint filp < 0 then [OutOpenFailed ''failed to open device xenoPWM'' (Some errno)] else []) in
      rbind (xeno_pinMode U cls filp PIN1 OUTPUT (out, k)) (\<lambda>u.
      rbind (xeno_pinMode U cls filp PIN2 OUTPUT u) (\<lambda>u.
      rbind (xeno_softPwmCreate U cls filp PIN1 0 100 u) (\<lambda>u.
      rbind (xeno_softPwmCreate U cls filp PIN2 0 10000 u) (\<lambda>u.
      rbind (xeno_softPwmWrite U cls filp PIN1 50 u) (\<lambda>u.
      rbind (xeno_softPwmWrite U cls filp PIN2 1000 u) (\<lambda>(out', k').
      Inr (0, out', k'))))))))"

section \<open>The drivers behind the system calls\<close>

text \<open>
  What libc and the kernel do between the program and the handler: a bad descriptor is refused with
  \<open>EBADF\<close>; otherwise the handler runs on the program's array, and a negative result becomes \<open>-1\<close> with
  \<open>errno\<close>. \<open>arg\<close> is the address of the array on the program's stack.
\<close>

definition libc_ret :: "int \<times> 'k \<Rightarrow> s32 \<times> int \<times> 'k" where
  "libc_ret = (\<lambda>(r, k). if r < 0 then (-1, - r, k) else (word_of_int r, 0, k))"

definition soft_sys :: "'h mmio \<Rightarrow> kenv \<Rightarrow> u32 \<Rightarrow> s32 \<Rightarrow> 'h softpwm usys" where
  "soft_sys M E arg fd = \<lparr>u_open = (\<lambda>s. (fd, 2, s)),
     u_ioctl = (\<lambda>filp cmd xs s. if sint filp < 0 then Inr (-1, 9, s)
        else rbind (pwm_ioctl M (E\<lparr>user_mem := umem_of arg xs\<rparr>) cmd arg s) (\<lambda>r. Inr (libc_ret r)))\<rparr>"

definition xeno_sys :: "'h mmio \<Rightarrow> u32 \<Rightarrow> (nat \<Rightarrow> int) \<Rightarrow> u32 \<Rightarrow> s32 \<Rightarrow> 'h xenopwm usys" where
  "xeno_sys M cls ti arg fd = \<lparr>u_open = (\<lambda>s. (fd, 2, s)),
     u_ioctl = (\<lambda>filp cmd xs s. if sint filp < 0 then Inr (-1, 9, s)
        else rbind (xeno_pwm_ioctl M cls \<lparr>rtdm_task_init = ti, xuser_mem = umem_of arg xs\<rparr> cmd arg s)
               (\<lambda>r. Inr (libc_ret r)))\<rparr>"

section \<open>What a program relies on\<close>

text \<open>The body of both example programs.\<close>

definition example_calls ::
  "(s32 \<Rightarrow> s32 \<Rightarrow> 'k ucall) \<Rightarrow> (s32 \<Rightarrow> s32 \<Rightarrow> s32 \<Rightarrow> 'k ucall) \<Rightarrow> (s32 \<Rightarrow> s32 \<Rightarrow> 'k ucall) \<Rightarrow> 'k ucall" where
  "example_calls mode create put u =
     rbind (mode PIN1 OUTPUT u) (\<lambda>u. rbind (mode PIN2 OUTPUT u) (\<lambda>u.
     rbind (create PIN1 0 100 u) (\<lambda>u. rbind (create PIN2 0 10000 u) (\<lambda>u.
     rbind (put PIN1 50 u) (\<lambda>u. put PIN2 1000 u)))))"

text \<open>
  The library calls as a service: \<open>ok\<close> are the kernel states in which the device answers, \<open>pins\<close> the
  registered pins, \<open>fn\<close> the function of each pin; \<open>echo\<close> is what \<open>pinMode\<close> prints and \<open>d0\<close> the duty
  cycle of a new pin.
\<close>

locale pwm_service =
  fixes mode :: "s32 \<Rightarrow> s32 \<Rightarrow> 'k ucall"
    and create :: "s32 \<Rightarrow> s32 \<Rightarrow> s32 \<Rightarrow> 'k ucall"
    and put :: "s32 \<Rightarrow> s32 \<Rightarrow> 'k ucall"
    and ok :: "'k \<Rightarrow> bool"
    and pins :: "'k \<Rightarrow> Dutycycle list"
    and fn :: "'k \<Rightarrow> nat \<Rightarrow> u32"
    and echo :: "s32 \<Rightarrow> uout list"
    and d0 :: s32
  assumes mode_out: "ok k \<Longrightarrow> sint p = int n \<Longrightarrow> n < 54 \<Longrightarrow>
        \<exists>k'. mode p OUTPUT (out, k) = Inr (out @ echo p, k') \<and> ok k' \<and> pins k' = pins k \<and>
          (\<forall>q. fn k' q = (if q = n then fn k n OR 1 else fn k q))"
    and create_new: "ok k \<Longrightarrow> length (pins k) < MAX_PWM_NUM \<Longrightarrow>
        \<exists>k'. create p lo hi (out, k) = Inr (out, k') \<and> ok k' \<and> fn k' = fn k \<and>
          pins k' = pins k @ [\<lparr>dc_pin = p, dc_duty_cycle = d0, dc_min = lo, dc_max = hi\<rparr>]"
    and put_first: "ok k \<Longrightarrow>
        \<exists>k'. put p v (out, k) = Inr (out, k') \<and> ok k' \<and> fn k' = fn k \<and> pins k' = set_first p v (pins k)"
begin

lemma example_registers:
  assumes "ok k" "pins k = []"
  shows "\<exists>k'. example_calls mode create put (out, k) = Inr (out @ echo PIN1 @ echo PIN2, k') \<and> ok k' \<and>
    pins k' = [\<lparr>dc_pin = 16, dc_duty_cycle = 50, dc_min = 0, dc_max = 100\<rparr>,
               \<lparr>dc_pin = 21, dc_duty_cycle = 1000, dc_min = 0, dc_max = 10000\<rparr>] \<and>
    (\<forall>q. fn k' q = (if q = 16 \<or> q = 21 then fn k q OR 1 else fn k q))"
proof -
  have p: "sint PIN1 = int 16" "sint PIN2 = int 21" by (simp_all add: PIN1_def PIN2_def)
  from mode_out [OF assms(1) p(1), of out] obtain k1 where 1: "mode PIN1 OUTPUT (out, k) = Inr (out @ echo PIN1, k1)"
    "ok k1" "pins k1 = []" "\<And>q. fn k1 q = (if q = 16 then fn k q OR 1 else fn k q)" using assms(2) by auto
  from mode_out [OF 1(2) p(2), of "out @ echo PIN1"] obtain k2
    where 2: "mode PIN2 OUTPUT (out @ echo PIN1, k1) = Inr (out @ echo PIN1 @ echo PIN2, k2)"
    "ok k2" "pins k2 = []" "\<And>q. fn k2 q = (if q = 21 then fn k1 q OR 1 else fn k1 q)" using 1(3) by auto
  let ?o = "out @ echo PIN1 @ echo PIN2"
  from create_new [OF 2(2), of PIN1 0 100 ?o] obtain k3 where 3: "create PIN1 0 100 (?o, k2) = Inr (?o, k3)" "ok k3"
    "fn k3 = fn k2" "pins k3 = [\<lparr>dc_pin = PIN1, dc_duty_cycle = d0, dc_min = 0, dc_max = 100\<rparr>]"
    using 2(3) by (auto simp: MAX_PWM_NUM_def)
  from create_new [OF 3(2), of PIN2 0 10000 ?o] obtain k4 where 4: "create PIN2 0 10000 (?o, k3) = Inr (?o, k4)" "ok k4"
    "fn k4 = fn k3" "pins k4 = [\<lparr>dc_pin = PIN1, dc_duty_cycle = d0, dc_min = 0, dc_max = 100\<rparr>,
      \<lparr>dc_pin = PIN2, dc_duty_cycle = d0, dc_min = 0, dc_max = 10000\<rparr>]"
    using 3(4) by (auto simp: MAX_PWM_NUM_def)
  from put_first [OF 4(2), of PIN1 50 ?o] obtain k5 where 5: "put PIN1 50 (?o, k4) = Inr (?o, k5)" "ok k5"
    "fn k5 = fn k4" "pins k5 = set_first PIN1 50 (pins k4)" by blast
  from put_first [OF 5(2), of PIN2 1000 ?o] obtain k6 where 6: "put PIN2 1000 (?o, k5) = Inr (?o, k6)" "ok k6"
    "fn k6 = fn k5" "pins k6 = set_first PIN2 1000 (pins k5)" by blast
  have "pins k6 = [\<lparr>dc_pin = 16, dc_duty_cycle = 50, dc_min = 0, dc_max = 100\<rparr>,
      \<lparr>dc_pin = 21, dc_duty_cycle = 1000, dc_min = 0, dc_max = 10000\<rparr>]"
    using 6(4) 5(4) 4(4) by (simp add: PIN1_def PIN2_def)
  moreover have "fn k6 q = (if q = 16 \<or> q = 21 then fn k q OR 1 else fn k q)" for q
    using 6(3) 5(3) 4(3) 3(3) 2(4) 1(4) by auto
  ultimately show ?thesis using 1(1) 2(1) 3(1) 4(1) 5(1) 6(1,2) by (auto simp: example_calls_def)
qed

end

section \<open>Both drivers provide the service\<close>

text \<open>The kernel gives memory, threads and checks; what a program sees of the driver behind \<open>soft_sys\<close>.\<close>

definition kind_env :: "kenv \<Rightarrow> bool" where
  "kind_env E \<longleftrightarrow> (\<forall>a n. access_ok E a n) \<and> (\<forall>n. \<exists>t. kthread_create E n = Inr t)"

lemma umem_of_args:
  "tmp_at (umem_of arg (a # xs)) arg 0 = Inr a" "tmp_at (umem_of arg (a # b # xs)) arg (Suc 0) = Inr b"
  "tmp_at (umem_of arg (a # b # c # xs)) arg 2 = Inr c"
  using tmp_at_umem_of [of 0 "a # xs" arg] tmp_at_umem_of [of 1 "a # b # xs" arg] tmp_at_umem_of [of 2 "a # b # c # xs" arg]
  by simp_all

lemma soft_sys_ioctl:
  "0 \<le> sint fd \<Longrightarrow> u_ioctl (soft_sys M E arg fd') fd cmd xs s =
    rbind (pwm_ioctl M (E\<lparr>user_mem := umem_of arg xs\<rparr>) cmd arg s) (\<lambda>r. Inr (libc_ret r))"
  by (simp add: soft_sys_def)

lemma libc_ret_0 [simp]: "libc_ret (0, k) = (0, 0, k)"
  by (simp add: libc_ret_def)

lemma report_0 [simp]: "report what 0 e out = out"
  by (simp add: report_def)

lemma soft_pinMode:
  assumes "gpio_bank M fsel latch" "kind_env E" "0 \<le> sint fd" "gpio_map s" "sint p = int n" "n < 54"
  shows "\<exists>h. pinMode (soft_sys M E arg fd) fd p OUTPUT (out, s) = Inr (out @ [OutInt p], s\<lparr>hw := h\<rparr>) \<and>
    (\<forall>q. pin_function (fsel h) q = (if q = n then pin_function (fsel (hw s)) n OR 1 else pin_function (fsel (hw s)) q))"
proof -
  from gpio_bank.gpio_output_spec [OF assms(1,5,6), of "hw s"] obtain h where h: "gpio_output M True p (hw s) = Inr h"
    "\<forall>q. pin_function (fsel h) q = (if q = n then pin_function (fsel (hw s)) n OR 1 else pin_function (fsel (hw s)) q)" by blast
  have "access_ok E arg 4" using assms(2) by (simp add: kind_env_def)
  with h show ?thesis
    by (intro exI [of _ h]) (simp add: pinMode_def soft_sys_ioctl [OF assms(3)] pwm_ioctl_dispatch ioctl_PIN_SET_def umem_of_args
        OUTPUT_def assms(4))
qed

lemma soft_softPwmCreate:
  assumes "kind_env E" "0 \<le> sint fd" "soft_inv s" "length (soft_pins s) < MAX_PWM_NUM"
  shows "\<exists>s'. softPwmCreate (soft_sys M E arg fd) fd p lo hi (out, s) = Inr (out, s') \<and> soft_inv s' \<and>
    gpio_map s' = gpio_map s \<and> hw s' = hw s \<and>
    soft_pins s' = soft_pins s @ [\<lparr>dc_pin = p, dc_duty_cycle = 0, dc_min = lo, dc_max = hi\<rparr>]"
proof -
  let ?E = "E\<lparr>user_mem := umem_of arg [p, lo, hi]\<rparr>"
  from assms(1) obtain t where t: "kthread_create ?E (pwm_pin_count s) = Inr t" "access_ok E arg 4"
    unfolding kind_env_def by fastforce
  have n: "pwm_pin_count s < 5" using assms(3,4) by (simp add: length_soft_pins MAX_PWM_NUM_def)
  have a: "tmp_at (user_mem ?E) arg 0 = Inr p" "tmp_at (user_mem ?E) arg 1 = Inr lo" "tmp_at (user_mem ?E) arg 2 = Inr hi"
    using umem_of_args by simp_all
  from ioctl_PWM_INIT_ok [OF assms(3) n t(1) a] t(2) show ?thesis
    by (auto simp: softPwmCreate_def soft_sys_ioctl [OF assms(2)] pwm_ioctl_dispatch cmds_distinct [symmetric])
qed

lemma soft_softPwmWrite:
  assumes "kind_env E" "0 \<le> sint fd" "soft_inv s"
  shows "\<exists>s'. softPwmWrite (soft_sys M E arg fd) fd p v (out, s) = Inr (out, s') \<and> soft_inv s' \<and>
    gpio_map s' = gpio_map s \<and> hw s' = hw s \<and> soft_pins s' = set_first p v (soft_pins s)"
proof -
  let ?E = "E\<lparr>user_mem := umem_of arg [p, v]\<rparr>"
  have t: "access_ok E arg 4" using assms(1) by (simp add: kind_env_def)
  have a: "tmp_at (user_mem ?E) arg 0 = Inr p" "tmp_at (user_mem ?E) arg 1 = Inr v"
    using umem_of_args by simp_all
  from ioctl_PWM_SET_ok [OF assms(3) a] t show ?thesis
    by (auto simp: softPwmWrite_def soft_sys_ioctl [OF assms(2)] pwm_ioctl_dispatch cmds_distinct [symmetric])
qed

definition soft_ready :: "'h mmio \<Rightarrow> ('h \<Rightarrow> nat \<Rightarrow> u32) \<Rightarrow> ('h \<Rightarrow> nat \<Rightarrow> u32) \<Rightarrow> kenv \<Rightarrow> s32 \<Rightarrow> 'h softpwm \<Rightarrow> bool" where
  "soft_ready M fsel latch E fd s \<longleftrightarrow> gpio_bank M fsel latch \<and> kind_env E \<and> 0 \<le> sint fd \<and> soft_inv s \<and> gpio_map s"

interpretation soft_lib: pwm_service "pinMode (soft_sys M E arg fd) fd" "softPwmCreate (soft_sys M E arg fd) fd"
  "softPwmWrite (soft_sys M E arg fd) fd" "soft_ready M fsel latch E fd" soft_pins
  "\<lambda>s. pin_function (fsel (hw s))" "\<lambda>p. [OutInt p]" 0 for M fsel latch E arg fd
proof (unfold_locales, goal_cases)
  case (1 s p n out)
  from soft_pinMode [of M fsel latch E fd s p n arg out] 1 show ?case by (auto simp: soft_ready_def)
next
  case (2 s p lo hi out)
  from soft_softPwmCreate [of E fd s M arg p lo hi out] 2 show ?case by (auto simp: soft_ready_def)
next
  case (3 s p v out)
  from soft_softPwmWrite [of E fd s M arg p v out] 3 show ?case by (auto simp: soft_ready_def)
qed

lemma xeno_sys_ioctl:
  "0 \<le> sint fd \<Longrightarrow> u_ioctl (xeno_sys M cls ti arg fd') fd cmd xs s =
    rbind (xeno_pwm_ioctl M cls \<lparr>rtdm_task_init = ti, xuser_mem = umem_of arg xs\<rparr> cmd arg s) (\<lambda>r. Inr (libc_ret r))"
  by (simp add: xeno_sys_def)

lemma xeno_hw_simps [simp]: "xeno_inv (s\<lparr>xhw := h\<rparr>) = xeno_inv s" "xeno_pins (s\<lparr>xhw := h\<rparr>) = xeno_pins s"
  by (simp_all add: xeno_inv_def xeno_pins_def split: option.split)

lemma xeno_PWM_SET_map: "xeno_ioctl_PWM_SET E arg s = Inr (r, s') \<Longrightarrow> xgpio_map s' = xgpio_map s"
  by (auto simp: xeno_ioctl_PWM_SET_def rbind_Inr_iff xlog_msg_def split: option.splits)

lemma xeno_dispatch:
  "xeno_pwm_ioctl M cls E (X_PIN_SET cls) arg s = xeno_ioctl_PIN_SET M E arg s"
  "xeno_pwm_ioctl M cls E (X_PWM_INIT cls) arg s = xeno_ioctl_PWM_INIT E arg s"
  "xeno_pwm_ioctl M cls E (X_PWM_SET cls) arg s = xeno_ioctl_PWM_SET E arg s"
  using xeno_cmds_distinct [of cls] by (simp_all add: xeno_pwm_ioctl_def)

definition xeno_ready :: "'h mmio \<Rightarrow> ('h \<Rightarrow> nat \<Rightarrow> u32) \<Rightarrow> ('h \<Rightarrow> nat \<Rightarrow> u32) \<Rightarrow> (nat \<Rightarrow> int) \<Rightarrow> s32 \<Rightarrow> 'h xenopwm \<Rightarrow> bool" where
  "xeno_ready M fsel latch ti fd s \<longleftrightarrow> gpio_bank M fsel latch \<and> (\<forall>n. ti n = 0) \<and> 0 \<le> sint fd \<and> xeno_inv s \<and> xgpio_map s"

lemma xeno_pinMode_ok:
  assumes "xeno_ready M fsel latch ti fd s" "sint p = int n" "n < 54"
  shows "\<exists>s'. xeno_pinMode (xeno_sys M cls ti arg fd) cls fd p OUTPUT (out, s) = Inr (out, s') \<and>
    xeno_ready M fsel latch ti fd s' \<and> xeno_pins s' = xeno_pins s \<and>
    (\<forall>q. pin_function (fsel (xhw s')) q = (if q = n then pin_function (fsel (xhw s)) n OR 1 else pin_function (fsel (xhw s)) q))"
proof -
  note r = assms(1) [unfolded xeno_ready_def]
  from gpio_bank.gpio_output_spec [of M fsel latch, OF _ assms(2,3), of "xhw s"] r
  obtain h where h: "gpio_output M True p (xhw s) = Inr h"
    "\<forall>q. pin_function (fsel h) q = (if q = n then pin_function (fsel (xhw s)) n OR 1 else pin_function (fsel (xhw s)) q)" by blast
  with r show ?thesis
    by (intro exI [of _ "s\<lparr>xhw := h\<rparr>"]) (simp add: xeno_pinMode_def xeno_sys_ioctl xeno_dispatch xeno_ioctl_PIN_SET_def
        umem_of_args OUTPUT_def xeno_gpio_eqs xeno_ready_def)
qed

lemma xeno_create_ok:
  assumes "xeno_ready M fsel latch ti fd s" "length (xeno_pins s) < MAX_PWM_NUM"
  shows "\<exists>s'. xeno_softPwmCreate (xeno_sys M cls ti arg fd) cls fd p lo hi (out, s) = Inr (out, s') \<and>
    xeno_ready M fsel latch ti fd s' \<and> xhw s' = xhw s \<and>
    xeno_pins s' = xeno_pins s @ [\<lparr>dc_pin = p, dc_duty_cycle = 10, dc_min = lo, dc_max = hi\<rparr>]"
proof -
  note r = assms(1) [unfolded xeno_ready_def]
  let ?E = "\<lparr>rtdm_task_init = ti, xuser_mem = umem_of arg [p, lo, hi]\<rparr>"
  have a: "tmp_at (xuser_mem ?E) arg 0 = Inr p" "tmp_at (xuser_mem ?E) arg 1 = Inr lo" "tmp_at (xuser_mem ?E) arg 2 = Inr hi"
    using umem_of_args by simp_all
  have n: "xpwm_pin_count s < 5" using r assms(2) by (simp add: length_xeno_pins MAX_PWM_NUM_def)
  from xeno_ioctl_PWM_INIT_ok [of s, OF _ n a] r show ?thesis
    by (auto simp: xeno_softPwmCreate_def xeno_sys_ioctl xeno_dispatch xeno_ready_def)
qed

lemma xeno_write_ok:
  assumes "xeno_ready M fsel latch ti fd s"
  shows "\<exists>s'. xeno_softPwmWrite (xeno_sys M cls ti arg fd) cls fd p v (out, s) = Inr (out, s') \<and>
    xeno_ready M fsel latch ti fd s' \<and> xhw s' = xhw s \<and> xeno_pins s' = set_first p v (xeno_pins s)"
proof -
  note r = assms(1) [unfolded xeno_ready_def]
  let ?E = "\<lparr>rtdm_task_init = ti, xuser_mem = umem_of arg [p, v]\<rparr>"
  have a: "tmp_at (xuser_mem ?E) arg 0 = Inr p" "tmp_at (xuser_mem ?E) arg 1 = Inr v"
    using umem_of_args by simp_all
  from xeno_ioctl_PWM_SET_ok [of s, OF _ a] r show ?thesis
    by (fastforce simp: xeno_softPwmWrite_def xeno_sys_ioctl xeno_dispatch xeno_ready_def dest: xeno_PWM_SET_map)
qed

interpretation xeno_lib: pwm_service "xeno_pinMode (xeno_sys M cls ti arg fd) cls fd"
  "xeno_softPwmCreate (xeno_sys M cls ti arg fd) cls fd" "xeno_softPwmWrite (xeno_sys M cls ti arg fd) cls fd"
  "xeno_ready M fsel latch ti fd" xeno_pins "\<lambda>s. pin_function (fsel (xhw s))" "\<lambda>p. []" 10 for M fsel latch ti arg fd cls
proof (unfold_locales, goal_cases)
  case (1 s p n out)
  from xeno_pinMode_ok [OF 1] show ?case by auto
next
  case (2 s p lo hi out)
  from xeno_create_ok [OF 2, of cls arg p lo hi out] show ?case by auto
next
  case (3 s p v out)
  from xeno_write_ok [OF 3, of cls arg p v out] show ?case by auto
qed

section \<open>The example programs\<close>

lemma soft_main_calls:
  "0 \<le> sint fd \<Longrightarrow> soft_main (soft_sys M E arg fd) s =
    rbind (example_calls (pinMode (soft_sys M E arg fd) fd) (softPwmCreate (soft_sys M E arg fd) fd)
      (softPwmWrite (soft_sys M E arg fd) fd) ([], s)) (\<lambda>(out, s'). Inr (0, out, s'))"
  by (simp add: soft_main_def example_calls_def Let_def rbind_assoc) (simp add: soft_sys_def)

lemma xeno_main_calls:
  "0 \<le> sint fd \<Longrightarrow> xeno_main (xeno_sys M cls ti arg fd) cls s =
    rbind (example_calls (xeno_pinMode (xeno_sys M cls ti arg fd) cls fd) (xeno_softPwmCreate (xeno_sys M cls ti arg fd) cls fd)
      (xeno_softPwmWrite (xeno_sys M cls ti arg fd) cls fd) ([], s)) (\<lambda>(out, s'). Inr (0, out, s'))"
  by (simp add: xeno_main_def example_calls_def Let_def rbind_assoc) (simp add: xeno_sys_def)



text \<open>
  The same program over the real-time driver registers the same two pins and bounds and prints
  nothing; its tasks hold pin 16 high for 5 ms and pin 21 for 1 ms of every 10 ms.
\<close>

theorem xeno_example_program:
  assumes "gpio_bank M fsel latch" "\<forall>n. ti n = 0" "0 \<le> sint fd" "xeno_pwm_init True True 0 (xeno_boot h) = (r0, s)"
  shows "\<exists>s' d1 d2. xeno_main (xeno_sys M cls ti arg fd) cls s = Inr (0, [], s') \<and> xeno_inv s' \<and>
    xeno_pins s' = [d1, d2] \<and> dc_pin d1 = 16 \<and> dc_pin d2 = 21 \<and>
    X_HIGH_TIME d1 = Inr 5000000 \<and> X_LOW_TIME d1 = Inr 5000000 \<and> X_HIGH_TIME d2 = Inr 1000000 \<and> X_LOW_TIME d2 = Inr 9000000"
proof -
  from xeno_pwm_init_ok [of h] assms(4) have s: "xeno_inv s" "xgpio_map s" "xeno_pins s = []" "xhw s = h" by auto
  then have "xeno_ready M fsel latch ti fd s" using assms(1-3) by (simp add: xeno_ready_def)
  from xeno_lib.example_registers [OF this s(3), of cls arg "[]"] obtain s' where s':
    "xeno_main (xeno_sys M cls ti arg fd) cls s = Inr (0, [], s')" "xeno_ready M fsel latch ti fd s'"
    "xeno_pins s' = [\<lparr>dc_pin = 16, dc_duty_cycle = 50, dc_min = 0, dc_max = 100\<rparr>,
       \<lparr>dc_pin = 21, dc_duty_cycle = 1000, dc_min = 0, dc_max = 10000\<rparr>]"
    by (auto simp: xeno_main_calls [OF assms(3)])
  have t: "X_HIGH_TIME \<lparr>dc_pin = 16, dc_duty_cycle = 50, dc_min = 0, dc_max = 100\<rparr> = Inr 5000000"
    "X_LOW_TIME \<lparr>dc_pin = 16, dc_duty_cycle = 50, dc_min = 0, dc_max = 100\<rparr> = Inr 5000000"
    "X_HIGH_TIME \<lparr>dc_pin = 21, dc_duty_cycle = 1000, dc_min = 0, dc_max = 10000\<rparr> = Inr 1000000"
    "X_LOW_TIME \<lparr>dc_pin = 21, dc_duty_cycle = 1000, dc_min = 0, dc_max = 10000\<rparr> = Inr 9000000"
    by (simp_all add: X_HIGH_TIME_def X_LOW_TIME_def PWM_RANGE_def sdiv_nonneg)
  show ?thesis
    by (rule exI [of _ s'], rule exI, rule exI, intro conjI, rule s'(1), use s'(2) in \<open>simp add: xeno_ready_def\<close>,
        rule s'(3)) (simp_all only: t Dutycycle.simps)
qed

theorem xeno_example_program_witness:
  "\<exists>s'. xeno_main (xeno_sys bcm_mmio 5 (\<lambda>_. 0) 0x7ff0 3) 5 demo_xloaded = Inr (0, [], s') \<and> length (xeno_pins s') = 2"
  using xeno_example_program [OF bcm.gpio_bank_axioms _ _ demo_xloaded_facts(1), of "\<lambda>_. 0" 3 5 "0x7ff0"] by auto

text \<open>
  A failed \<open>open\<close> does not stop the example program: all six calls are made on the bad descriptor,
  each fails and is reported, the driver is untouched and the exit status is still 0.
\<close>

theorem example_program_ignores_open:
  assumes "sint fd < 0"
  shows "soft_main (soft_sys M E arg fd) s =
    Inr (0, [OutOpenFailed ''failed to open device softpwm'' None, OutInt 16, OutFailed ''PIN_SET'' (-1) 9,
      OutInt 21, OutFailed ''PIN_SET'' (-1) 9, OutFailed ''PWM_INIT'' (-1) 9, OutFailed ''PWM_INIT'' (-1) 9,
      OutFailed ''PWM_SET'' (-1) 9, OutFailed ''PWM_SET'' (-1) 9], s)"
proof -
  have i: "u_ioctl (soft_sys M E arg fd) fd cmd xs s = Inr (-1, 9, s)" for cmd xs s
    using assms by (simp add: soft_sys_def)
  have o: "u_open (soft_sys M E arg fd) s = (fd, 2, s)" by (simp add: soft_sys_def)
  have r: "report what (-1) e out = out @ [OutFailed what (-1) e]" for what e out by (simp add: report_def)
  show ?thesis
    using assms by (simp add: soft_main_def o pinMode_def softPwmCreate_def softPwmWrite_def i r PIN1_def PIN2_def)
qed

theorem example_program_ignores_open_witness:
  "\<exists>out. soft_main (soft_sys bcm_mmio (demo_env []) 0 (-1)) demo_loaded = Inr (0, out, demo_loaded) \<and> length out = 9"
  using example_program_ignores_open [of "-1" bcm_mmio "demo_env []" 0 demo_loaded] by simp

end
