(* ===== verification/Crc.thy ===== *)
theory Crc
  imports KPWM_Base
begin

text \<open>
  The checksum routines of the kernel library: \<^verbatim>\<open>crc16.c\<close>, \<^verbatim>\<open>crc-ccitt.c\<close>, \<^verbatim>\<open>crc-itu-t.c\<close>, \<^verbatim>\<open>crc7.c\<close>,
  \<^verbatim>\<open>crc8.c\<close>, \<^verbatim>\<open>xz/xz_crc32.c\<close>, \<^verbatim>\<open>crc32.c\<close> and the generator of its tables \<^verbatim>\<open>gen_crc32table.c\<close>. The
  reference is the division of the message polynomial one bit at a time; the locale \<open>byte_crc\<close> holds what
  a table-driven routine relies on, and \<open>sliced_crc\<close> what the routine that takes eight bytes at a time
  relies on.
\<close>

section \<open>Division one bit at a time\<close>

definition lsb_step :: "'a::len word \<Rightarrow> 'a word \<Rightarrow> 'a word" where
  "lsb_step poly c = drop_bit 1 c XOR (if bit c 0 then poly else 0)"

definition msb_step :: "'a::len word \<Rightarrow> 'a word \<Rightarrow> 'a word" where
  "msb_step poly c = push_bit 1 c XOR (if bit c (LENGTH('a) - 1) then poly else 0)"

definition crc_lsb :: "'a::len word \<Rightarrow> 'a word \<Rightarrow> u8 list \<Rightarrow> 'a word" where
  "crc_lsb poly crc bs = fold (\<lambda>b c. (lsb_step poly ^^ 8) (c XOR ucast b)) bs crc"

definition crc_msb :: "'a::len word \<Rightarrow> 'a word \<Rightarrow> u8 list \<Rightarrow> 'a word" where
  "crc_msb poly crc bs = fold (\<lambda>b c. (msb_step poly ^^ 8) (c XOR push_bit (LENGTH('a) - 8) (ucast b))) bs crc"

text \<open>Both steps are linear over exclusive or, and they only shift while no bit falls out.\<close>

definition xlin :: "('a::len word \<Rightarrow> 'a word) \<Rightarrow> bool" where
  "xlin f \<longleftrightarrow> (\<forall>x y. f (x XOR y) = f x XOR f y)"

lemma xlinD: "xlin f \<Longrightarrow> f (x XOR y) = f x XOR f y"
  by (simp add: xlin_def)

lemma xlin_0: "xlin f \<Longrightarrow> f 0 = 0"
  by (metis xlinD xor_self_eq)

lemma xlin_comp: "xlin f \<Longrightarrow> xlin g \<Longrightarrow> xlin (\<lambda>x. f (g x))"
  by (simp add: xlin_def)

lemma xlin_funpow: "xlin f \<Longrightarrow> xlin (f ^^ n)"
  by (induction n) (simp_all add: xlin_def)

lemma lsb_step_xlin: "xlin (lsb_step poly)"
proof -
  have "lsb_step poly (x XOR y) = lsb_step poly x XOR lsb_step poly y" for x y
    by (rule bit_eqI) (auto simp: lsb_step_def bit_simps)
  then show ?thesis by (simp add: xlin_def)
qed

lemma msb_step_xlin: "xlin (msb_step poly)"
proof -
  have "msb_step poly (x XOR y) = msb_step poly x XOR msb_step poly y" for x y
    by (rule bit_eqI) (auto simp: msb_step_def bit_simps)
  then show ?thesis by (simp add: xlin_def)
qed

lemma lsb_step_shift: "(\<And>i. i < n \<Longrightarrow> \<not> bit c i) \<Longrightarrow> (lsb_step poly ^^ n) c = drop_bit n c"
proof (induction n)
  case (Suc n)
  then have "(lsb_step poly ^^ n) c = drop_bit n c" "\<not> bit (drop_bit n c) 0" by (auto simp: bit_simps)
  moreover from this(2) have "lsb_step poly (drop_bit n c) = drop_bit (Suc n) c" by (simp add: lsb_step_def)
  ultimately show ?case by simp
qed simp

lemma msb_step_shift:
  fixes c :: "'a::len word"
  shows "n \<le> LENGTH('a) \<Longrightarrow> (\<And>i. LENGTH('a) - n \<le> i \<Longrightarrow> \<not> bit c i) \<Longrightarrow> (msb_step poly ^^ n) c = push_bit n c"
proof (induction n)
  case (Suc n)
  then have "(msb_step poly ^^ n) c = push_bit n c" "\<not> bit (push_bit n c) (LENGTH('a) - 1)" by (auto simp: bit_simps)
  moreover from this(2) have "msb_step poly (push_bit n c) = push_bit 1 (push_bit n c)" by (simp only: msb_step_def if_False xor.right_neutral)
  ultimately show ?case by (simp only: funpow.simps comp_apply push_bit_push_bit plus_1_eq_Suc)
qed simp

section \<open>Tables\<close>

text \<open>The exclusive-or span of some generators: how a table follows from the entries at powers of two.\<close>

fun span :: "'a::len word list \<Rightarrow> 'a word list" where
  "span [] = [0]"
| "span (t # ts) = (let r = span ts in r @ map (\<lambda>x. x XOR t) r)"

lemma of_nat_xor_power:
  assumes "i < 2 ^ n" "n < LENGTH('a)"
  shows "(of_nat (i + 2 ^ n) :: 'a::len word) = of_nat i XOR 2 ^ n"
proof -
  have "\<not> bit i n" using assms(1) by (simp add: bit_iff_odd)
  then have "(of_nat i :: 'a word) AND 2 ^ n = 0"
    by (intro bit_eqI) (auto simp: bit_simps)
  then show ?thesis by (simp add: disjunctive_add_eq_xor)
qed

lemma upt_double: "[0..<2 * k] = [0..<k] @ map (\<lambda>i. i + k) [0..<k]"
  by (rule nth_equalityI) (auto simp: nth_append)

lemma span_spec:
  fixes L :: "'a::len word \<Rightarrow> 'a word"
  assumes "xlin L" "n \<le> LENGTH('a)"
  shows "span (map (\<lambda>k. L (2 ^ k)) (rev [0..<n])) = map (\<lambda>i. L (of_nat i)) [0..<2 ^ n]"
  using assms(2)
proof (induction n)
  case 0
  then show ?case by (simp add: xlin_0 [OF assms(1)])
next
  case (Suc n)
  have "L (of_nat i) XOR L (2 ^ n) = L (of_nat (i + 2 ^ n))" if "i < 2 ^ n" for i
    using that Suc.prems by (simp only: of_nat_xor_power xlinD [OF assms(1), symmetric])
  with Suc show ?case by (simp add: Let_def upt_double del: of_nat_add)
qed

lemma bytes_below: "[0..<(256::nat)] = [0..<2 ^ 8]" by simp

section \<open>What a table-driven routine relies on\<close>

text \<open>
  \<open>B\<close> is the effect of eight bits of division on the register, in the byte order in which the register is
  kept: linear, and a plain shift when the low byte is zero. The table holds its value on every byte.
\<close>

locale byte_crc =
  fixes B :: "'a::len word \<Rightarrow> 'a word"
    and tab :: "'a word list"
  assumes wide: "8 \<le> LENGTH('a)"
    and lin: "xlin B"
    and shift: "y AND 255 = 0 \<Longrightarrow> B y = drop_bit 8 y"
    and table: "tab = map (\<lambda>i. B (of_nat i)) [0..<256]"
begin

lemma byte_index: "unat (x AND 255 :: 'a word) < 256"
proof -
  have "unat (x AND 255) \<le> unat (255 :: 'a word)" using word_and_le1 [of x 255] by (simp add: word_le_nat_alt)
  also have "\<dots> \<le> 255" using take_bit_nat_less_eq_self [of "LENGTH('a)" 255] by (simp del: take_bit_nat_less_eq_self)
  finally show ?thesis by simp
qed

lemma lookup: "tab ! unat (x AND 255) = B (x AND 255)"
  using byte_index [of x] by (simp add: table)

lemma update: "B c = drop_bit 8 c XOR tab ! unat (c AND 255)"
proof -
  have m: "(255 :: 'a word) = mask 8" by (simp add: mask_eq_exp_minus_1)
  have c: "c = (c AND 255) XOR (c AND NOT 255)" by (rule bit_eqI) (auto simp: bit_simps)
  have "(c AND NOT 255) AND 255 = 0" by (rule bit_eqI) (auto simp: bit_simps)
  then have "B (c AND NOT 255) = drop_bit 8 (c AND NOT 255)" by (rule shift)
  also have "\<dots> = drop_bit 8 c" by (rule bit_eqI) (auto simp: m bit_simps dest: bit_imp_le_length)
  finally show ?thesis by (subst c, subst xlinD [OF lin]) (simp add: lookup xor.commute)
qed

end

section \<open>Filling a table\<close>

text \<open>
  \<^verbatim>\<open>for (j = 0; j < n; j += d)\<close> as the list of its indices, and the inner loops \<^verbatim>\<open>table[i+j] = table[j] ^ t\<close>.
\<close>

function c_range :: "nat \<Rightarrow> nat \<Rightarrow> nat \<Rightarrow> nat list" where
  "c_range j n d = (if d = 0 \<or> n \<le> j then [] else j # c_range (j + d) n d)"
  by auto
termination by (relation "measure (\<lambda>(j, n, d). n - j)") auto

declare c_range.simps [simp del]

definition fill_row :: "nat \<Rightarrow> 'a::len word \<Rightarrow> nat list \<Rightarrow> 'a word list \<Rightarrow> 'a word list" where
  "fill_row i t js tab = fold (\<lambda>j tab. tab[i + j := tab ! j XOR t]) js tab"

function lsb_fill :: "'a::len word \<Rightarrow> nat \<Rightarrow> 'a word \<Rightarrow> 'a word list \<Rightarrow> 'a word list" where
  "lsb_fill poly i t tab =
     (if i = 0 then tab
      else let t' = drop_bit 1 t XOR (if t AND 1 \<noteq> 0 then poly else 0)
           in lsb_fill poly (i div 2) t' (fill_row i t' (c_range 0 256 (2 * i)) tab))"
  by auto
termination by (relation "measure (\<lambda>(poly, i, t, tab). i)") auto

function msb_fill :: "'a::len word \<Rightarrow> 'a word \<Rightarrow> nat \<Rightarrow> 'a word \<Rightarrow> 'a word list \<Rightarrow> 'a word list" where
  "msb_fill msbit poly i t tab =
     (if i = 0 \<or> 256 \<le> i then tab
      else let t' = push_bit 1 t XOR (if t AND msbit \<noteq> 0 then poly else 0)
           in msb_fill msbit poly (2 * i) t' (fill_row i t' (c_range 0 i 1) tab))"
  by auto
termination by (relation "measure (\<lambda>(msbit, poly, i, t, tab). 256 - i)") auto

declare lsb_fill.simps [simp del] msb_fill.simps [simp del]

lemma set_c_range: "0 < d \<Longrightarrow> set (c_range j n d) = {m. \<exists>k. m = j + k * d \<and> m < n}"
proof (induction j n d rule: c_range.induct)
  case (1 j n d)
  show ?case
  proof (cases "n \<le> j")
    case True
    then show ?thesis by (subst c_range.simps) auto
  next
    case False
    have "(\<exists>k. m = j + k * d \<and> m < n) \<longleftrightarrow> m = j \<or> (\<exists>k. m = (j + d) + k * d \<and> m < n)" for m
    proof
      assume "\<exists>k. m = j + k * d \<and> m < n"
      then obtain k where k: "m = j + k * d" "m < n" by blast
      then show "m = j \<or> (\<exists>k. m = (j + d) + k * d \<and> m < n)" by (cases k) auto
    next
      assume "m = j \<or> (\<exists>k. m = (j + d) + k * d \<and> m < n)"
      then show "\<exists>k. m = j + k * d \<and> m < n"
      proof
        assume "m = j" then show ?thesis using False by (intro exI [of _ 0]) auto
      next
        assume "\<exists>k. m = (j + d) + k * d \<and> m < n"
        then obtain k where "m = (j + d) + k * d" "m < n" by blast
        then show ?thesis by (intro exI [of _ "Suc k"]) auto
      qed
    qed
    with 1 False show ?thesis by (subst c_range.simps) auto
  qed
qed

lemma length_fill_row [simp]: "length (fill_row i t js tab) = length tab"
  unfolding fill_row_def by (induction js arbitrary: tab) auto

text \<open>When no written entry is read, the inner loop writes every entry from the original table.\<close>

lemma fill_row_nth:
  assumes "\<forall>j \<in> set js. \<forall>j' \<in> set js. i + j \<noteq> j'" "\<forall>j \<in> set js. i + j < length tab" "m < length tab"
  shows "fill_row i t js tab ! m = (if i \<le> m \<and> m - i \<in> set js then tab ! (m - i) XOR t else tab ! m)"
  using assms
proof (induction js arbitrary: tab)
  case Nil
  then show ?case by (simp add: fill_row_def)
next
  case (Cons j js)
  let ?tab = "tab[i + j := tab ! j XOR t]"
  have "fill_row i t (j # js) tab ! m = fill_row i t js ?tab ! m" by (simp add: fill_row_def)
  also have "\<dots> = (if i \<le> m \<and> m - i \<in> set js then ?tab ! (m - i) XOR t else ?tab ! m)"
    using Cons.prems by (intro Cons.IH) auto
  also have "\<dots> = (if i \<le> m \<and> m - i \<in> set (j # js) then tab ! (m - i) XOR t else tab ! m)"
    using Cons.prems by (auto simp: nth_list_update)
  finally show ?case .
qed

lemma and_1_bit: "(t AND 1 \<noteq> (0 :: 'a::len word)) = bit t 0"
  by (simp add: and_one_eq bit_0 odd_iff_mod_2_eq_one)

lemma lsb_step_code: "drop_bit 1 t XOR (if t AND 1 \<noteq> 0 then poly else 0) = lsb_step poly t"
  by (simp only: lsb_step_def and_1_bit)

lemma dvd_disjoint_xor:
  assumes "2 ^ Suc k dvd j"
  shows "(of_nat (2 ^ k + j) :: 'a::len word) = of_nat j XOR 2 ^ k"
proof -
  from assms obtain r where r: "j = 2 ^ Suc k * r" by blast
  then have "\<not> bit j k" by (simp add: bit_iff_odd)
  then have "(of_nat j :: 'a word) AND 2 ^ k = 0" by (intro bit_eqI) (auto simp: bit_simps)
  then have "(of_nat j :: 'a word) + 2 ^ k = of_nat j XOR 2 ^ k" by (rule disjunctive_add_eq_xor)
  then show ?thesis by (simp add: add.commute)
qed

lemma dvd_Suc_cases:
  assumes "2 ^ k dvd (m::nat)" "\<not> 2 ^ Suc k dvd m"
  shows "2 ^ k \<le> m \<and> 2 ^ Suc k dvd (m - 2 ^ k)"
proof -
  from assms(1) obtain r where r: "m = 2 ^ k * r" by blast
  with assms(2) have "odd r" by auto
  then obtain s where "r = 2 * s + 1" by (rule oddE)
  with r have "m = 2 ^ k + 2 ^ Suc k * s" by (simp add: algebra_simps)
  then show ?thesis by simp
qed

text \<open>One pass over the odd multiples of \<open>2 ^ k\<close> extends a table of a linear map from the multiples of \<open>2 ^ (k + 1)\<close>.\<close>

lemma fill_round:
  assumes "xlin L" "k < 8" "length tab = 256"
    and "\<And>m. m < 256 \<Longrightarrow> 2 ^ Suc k dvd m \<Longrightarrow> tab ! m = L (of_nat m)"
  shows "m < 256 \<Longrightarrow> 2 ^ k dvd m \<Longrightarrow> fill_row (2 ^ k) (L (2 ^ k)) (c_range 0 256 (2 * 2 ^ k)) tab ! m = L (of_nat m)"
proof -
  assume m: "m < 256" "2 ^ k dvd m"
  have js: "set (c_range 0 256 (2 * 2 ^ k)) = {j. 2 ^ Suc k dvd j \<and> j < 256}"
    by (subst set_c_range) (auto simp: dvd_def mult.commute)
  have odd: "\<not> 2 ^ Suc k dvd 2 ^ k + j" if "2 ^ Suc k dvd j" for j :: nat
    using that by (simp add: dvd_add_left_iff)
  have in_range: "2 ^ k + j < 256" if "2 ^ Suc k dvd j" "j < 256" for j :: nat
  proof -
    have p: "(256::nat) = 2 ^ Suc k * 2 ^ (7 - k)" using assms(2) by (simp flip: power_add power_Suc)
    from that(1) obtain r where r: "j = 2 ^ Suc k * r" by blast
    with that(2) p have "r < 2 ^ (7 - k)" by (metis mult_less_cancel1)
    then have "2 ^ Suc k * Suc r \<le> 256" unfolding p by (intro mult_le_mono2) simp
    moreover have "(0::nat) < 2 ^ k" by simp
    ultimately show ?thesis using r by (simp only: power_Suc mult_Suc_right)
  qed
  have nth: "fill_row (2 ^ k) (L (2 ^ k)) (c_range 0 256 (2 * 2 ^ k)) tab ! m =
      (if 2 ^ k \<le> m \<and> m - 2 ^ k \<in> set (c_range 0 256 (2 * 2 ^ k)) then tab ! (m - 2 ^ k) XOR L (2 ^ k) else tab ! m)"
    by (rule fill_row_nth) (use assms(3) m odd in_range in \<open>auto simp: js\<close>)
  show ?thesis
  proof (cases "2 ^ Suc k dvd m")
    case True
    with odd [of "m - 2 ^ k"] have "\<not> (2 ^ k \<le> m \<and> m - 2 ^ k \<in> set (c_range 0 256 (2 * 2 ^ k)))" by (auto simp: js)
    with nth True assms(4) m show ?thesis by auto
  next
    case False
    note d = dvd_Suc_cases [OF m(2) False]
    then have "m - 2 ^ k \<in> set (c_range 0 256 (2 * 2 ^ k))" using m by (auto simp: js)
    with nth d assms(4) [of "m - 2 ^ k"] m have "fill_row (2 ^ k) (L (2 ^ k)) (c_range 0 256 (2 * 2 ^ k)) tab ! m =
        L (of_nat (m - 2 ^ k)) XOR L (2 ^ k)" by auto
    also have "\<dots> = L (of_nat m)"
      using d dvd_disjoint_xor [of k "m - 2 ^ k"] xlinD [OF assms(1)] by (metis le_add_diff_inverse)
    finally show ?thesis .
  qed
qed

lemma lsb_step_power:
  fixes poly :: "'a::len word"
  assumes "k < 8" "8 \<le> LENGTH('a)"
  shows "(lsb_step poly ^^ (8 - k)) 1 = (lsb_step poly ^^ 8) (2 ^ k)"
proof -
  have "(lsb_step poly ^^ k) (2 ^ k) = drop_bit k (2 ^ k)" by (rule lsb_step_shift) (auto simp: bit_simps)
  also have "\<dots> = 1" using assms by (intro bit_eqI) (auto simp: bit_simps)
  finally have "(lsb_step poly ^^ (8 - k + k)) (2 ^ k) = (lsb_step poly ^^ (8 - k)) 1" by (simp only: funpow_add comp_apply)
  then show ?thesis using assms(1) by simp
qed

lemma lsb_fill_spec:
  fixes poly :: "'a::len word"
  assumes "8 \<le> LENGTH('a)" "k < 8" "length tab = 256" "t = (lsb_step poly ^^ (7 - k)) 1"
    and "\<And>m. m < 256 \<Longrightarrow> 2 ^ Suc k dvd m \<Longrightarrow> tab ! m = (lsb_step poly ^^ 8) (of_nat m)"
  shows "lsb_fill poly (2 ^ k) t tab = map (\<lambda>i. (lsb_step poly ^^ 8) (of_nat i)) [0..<256]"
  using assms(2-5)
proof (induction k arbitrary: t tab)
  let ?L = "lsb_step poly ^^ 8"
  case (0 t tab)
  have "drop_bit 1 t XOR (if t AND 1 \<noteq> 0 then poly else 0) = (lsb_step poly ^^ Suc 7) 1"
    unfolding lsb_step_code funpow.simps comp_apply using 0(3) by (simp only: diff_zero)
  then have t: "drop_bit 1 t XOR (if t AND 1 \<noteq> 0 then poly else 0) = ?L (2 ^ 0)" by simp
  have "lsb_fill poly (2 ^ 0) t tab = fill_row (2 ^ 0) (?L (2 ^ 0)) (c_range 0 256 (2 * 2 ^ 0)) tab"
    by (subst lsb_fill.simps, subst lsb_fill.simps) (simp only: t, simp)
  then show ?case
    using fill_round [OF xlin_funpow [OF lsb_step_xlin] 0(1,2,4)] 0(2) by (intro nth_equalityI) auto
next
  case (Suc k)
  let ?L = "lsb_step poly ^^ 8"
  have "drop_bit 1 t XOR (if t AND 1 \<noteq> 0 then poly else 0) = (lsb_step poly ^^ Suc (7 - Suc k)) 1"
    unfolding lsb_step_code using Suc.prems by simp
  moreover have e: "Suc (7 - Suc k) = 7 - k" "7 - k = 8 - Suc k" using Suc.prems(1) by simp_all
  ultimately have t: "drop_bit 1 t XOR (if t AND 1 \<noteq> 0 then poly else 0) = (lsb_step poly ^^ (7 - k)) 1"
    "(lsb_step poly ^^ (7 - k)) 1 = ?L (2 ^ Suc k)" using lsb_step_power [OF Suc.prems(1) assms(1)] by metis+
  have r: "lsb_fill poly (2 ^ Suc k) t tab =
      lsb_fill poly (2 ^ k) ((lsb_step poly ^^ (7 - k)) 1) (fill_row (2 ^ Suc k) (?L (2 ^ Suc k)) (c_range 0 256 (2 * 2 ^ Suc k)) tab)"
    by (subst lsb_fill.simps) (simp only: t Let_def, simp)
  show ?case unfolding r
    by (rule Suc.IH) (use Suc.prems fill_round [OF xlin_funpow [OF lsb_step_xlin] Suc.prems(1,2,4)] in auto)
qed

lemma msb_step_code:
  fixes t :: "'a::len word"
  shows "push_bit 1 t XOR (if t AND 2 ^ (LENGTH('a) - 1) \<noteq> 0 then poly else 0) = msb_step poly t"
proof -
  have "t AND 2 ^ (LENGTH('a) - 1) \<noteq> 0 \<longleftrightarrow> bit t (LENGTH('a) - 1)"
    by (simp add: and_exp_eq_0_iff_not_bit)
  then show ?thesis by (simp only: msb_step_def)
qed

lemma fill_double:
  assumes "xlin L" "k < 8" "length tab = 256" "\<And>m. m < 2 ^ k \<Longrightarrow> tab ! m = L (of_nat m)"
  shows "m < 2 ^ Suc k \<Longrightarrow> fill_row (2 ^ k) (L (2 ^ k)) (c_range 0 (2 ^ k) 1) tab ! m = L (of_nat m :: 'a::len word)"
proof -
  assume m: "m < 2 ^ Suc k"
  have p: "(2::nat) ^ Suc k \<le> 2 ^ 8" using assms(2) by (intro power_increasing) auto
  have js: "set (c_range 0 (2 ^ k) 1) = {..<2 ^ k}" by (subst set_c_range) auto
  have nth: "fill_row (2 ^ k) (L (2 ^ k)) (c_range 0 (2 ^ k) 1) tab ! m =
      (if 2 ^ k \<le> m \<and> m - 2 ^ k \<in> set (c_range 0 (2 ^ k) 1) then tab ! (m - 2 ^ k) XOR L (2 ^ k) else tab ! m)"
    by (rule fill_row_nth) (use assms(3) m p js in auto)
  show ?thesis
  proof (cases "m < 2 ^ k")
    case True
    with nth assms(4) show ?thesis by simp
  next
    case False
    let ?j = "m - 2 ^ k"
    have j: "?j < 2 ^ k" "?j + 2 ^ k = m" using False m by auto
    have "\<not> bit ?j k" using j(1) by (simp add: bit_iff_odd)
    then have "(of_nat ?j :: 'a word) AND 2 ^ k = 0" by (intro bit_eqI) (auto simp: bit_simps)
    then have "(of_nat ?j :: 'a word) + 2 ^ k = of_nat ?j XOR 2 ^ k" by (rule disjunctive_add_eq_xor)
    then have "(of_nat (?j + 2 ^ k) :: 'a word) = of_nat ?j XOR 2 ^ k" by (simp only: of_nat_add of_nat_power of_nat_numeral)
    then have "(of_nat m :: 'a word) = of_nat ?j XOR 2 ^ k" by (simp only: j(2))
    then have e: "L (of_nat m) = L (of_nat ?j) XOR L (2 ^ k)" by (simp only: xlinD [OF assms(1)])
    have "2 ^ k \<le> m \<and> ?j \<in> set (c_range 0 (2 ^ k) 1)" unfolding js using False j(1) by simp
    then show ?thesis unfolding nth e using assms(4) [OF j(1)] by (simp only: if_True simp_thms)
  qed
qed

lemma msb_step_power:
  fixes poly :: "'a::len word"
  assumes "k < 8" "8 \<le> LENGTH('a)"
  shows "(msb_step poly ^^ Suc k) (2 ^ (LENGTH('a) - 1)) = (msb_step poly ^^ 8) (push_bit (LENGTH('a) - 8) (2 ^ k))"
proof -
  let ?x = "2 ^ (LENGTH('a) - 8 + k) :: 'a word"
  have x: "push_bit (LENGTH('a) - 8) (2 ^ k) = ?x" by (simp add: push_bit_eq_mult power_add mult.commute)
  have "(msb_step poly ^^ (7 - k)) ?x = push_bit (7 - k) ?x"
    by (rule msb_step_shift) (use assms in \<open>auto simp: bit_simps\<close>)
  also have "\<dots> = 2 ^ (LENGTH('a) - 1)" using assms by (simp add: push_bit_eq_mult flip: power_add)
  finally have "(msb_step poly ^^ (Suc k + (7 - k))) ?x = (msb_step poly ^^ Suc k) (2 ^ (LENGTH('a) - 1))"
    by (simp only: funpow_add comp_apply)
  moreover have "Suc k + (7 - k) = 8" using assms(1) by simp
  ultimately show ?thesis by (simp only: x)
qed

lemma msb_fill_spec:
  fixes poly :: "'a::len word"
  assumes "8 \<le> LENGTH('a)" "k \<le> 8" "length tab = 256" "t = (msb_step poly ^^ k) (2 ^ (LENGTH('a) - 1))"
    and "\<And>m. m < 2 ^ k \<Longrightarrow> tab ! m = (msb_step poly ^^ 8) (push_bit (LENGTH('a) - 8) (of_nat m))"
  shows "msb_fill (2 ^ (LENGTH('a) - 1)) poly (2 ^ k) t tab =
    map (\<lambda>i. (msb_step poly ^^ 8) (push_bit (LENGTH('a) - 8) (of_nat i))) [0..<256]"
  using assms(2-5)
proof (induction "8 - k" arbitrary: k t tab)
  case 0
  then have k: "k = 8" by simp
  with 0 show ?case by (subst msb_fill.simps) (auto intro: nth_equalityI)
next
  case (Suc n)
  let ?L = "\<lambda>x. (msb_step poly ^^ 8) (push_bit (LENGTH('a) - 8) x)"
  have L: "xlin ?L" using xlin_funpow [OF msb_step_xlin, of 8 poly] by (simp add: xlin_def push_bit_xor)
  have k: "k < 8" using Suc by simp
  have "(2::nat) ^ k < 2 ^ 8" using k by (intro power_strict_increasing) auto
  then have i: "(2::nat) ^ k < 256" by simp
  have t: "push_bit 1 t XOR (if t AND 2 ^ (LENGTH('a) - 1) \<noteq> 0 then poly else 0) = (msb_step poly ^^ Suc k) (2 ^ (LENGTH('a) - 1))"
    unfolding msb_step_code funpow.simps comp_apply by (simp only: Suc.prems)
  have r: "msb_fill (2 ^ (LENGTH('a) - 1)) poly (2 ^ k) t tab = msb_fill (2 ^ (LENGTH('a) - 1)) poly (2 ^ Suc k)
      ((msb_step poly ^^ Suc k) (2 ^ (LENGTH('a) - 1))) (fill_row (2 ^ k) (?L (2 ^ k)) (c_range 0 (2 ^ k) 1) tab)"
    by (subst msb_fill.simps) (use i in \<open>simp only: t Let_def msb_step_power [OF k assms(1)], simp\<close>)
  show ?case unfolding r
    by (rule Suc.hyps(1)) (use Suc k fill_double [OF L k Suc.prems(2,4)] in auto)
qed

section \<open>Routines with a constant table\<close>

text \<open>\<^verbatim>\<open>while (len--) crc = f(crc, *buffer++)\<close>: reading past the buffer is a fault.\<close>

fun byte_loop :: "('a \<Rightarrow> u8 \<Rightarrow> 'a) \<Rightarrow> 'a \<Rightarrow> u8 list \<Rightarrow> nat \<Rightarrow> 'a res" where
  "byte_loop f crc buf 0 = Inr crc"
| "byte_loop f crc [] (Suc len) = Inl OutOfBounds"
| "byte_loop f crc (b # bs) (Suc len) = byte_loop f (f crc b) bs len"

lemma byte_loop_fold: "len \<le> length buf \<Longrightarrow> byte_loop f crc buf len = Inr (fold (\<lambda>b c. f c b) (take len buf) crc)"
  by (induction f crc buf len rule: byte_loop.induct) auto

lemma byte_loop_short: "length buf < len \<Longrightarrow> byte_loop f crc buf len = Inl OutOfBounds"
  by (induction f crc buf len rule: byte_loop.induct) auto

subsection \<open>crc16.c\<close>

definition crc16_table :: "u16 list" where
  "crc16_table =
   [0x0000, 0xC0C1, 0xC181, 0x0140, 0xC301, 0x03C0, 0x0280, 0xC241,
    0xC601, 0x06C0, 0x0780, 0xC741, 0x0500, 0xC5C1, 0xC481, 0x0440,
    0xCC01, 0x0CC0, 0x0D80, 0xCD41, 0x0F00, 0xCFC1, 0xCE81, 0x0E40,
    0x0A00, 0xCAC1, 0xCB81, 0x0B40, 0xC901, 0x09C0, 0x0880, 0xC841,
    0xD801, 0x18C0, 0x1980, 0xD941, 0x1B00, 0xDBC1, 0xDA81, 0x1A40,
    0x1E00, 0xDEC1, 0xDF81, 0x1F40, 0xDD01, 0x1DC0, 0x1C80, 0xDC41,
    0x1400, 0xD4C1, 0xD581, 0x1540, 0xD701, 0x17C0, 0x1680, 0xD641,
    0xD201, 0x12C0, 0x1380, 0xD341, 0x1100, 0xD1C1, 0xD081, 0x1040,
    0xF001, 0x30C0, 0x3180, 0xF141, 0x3300, 0xF3C1, 0xF281, 0x3240,
    0x3600, 0xF6C1, 0xF781, 0x3740, 0xF501, 0x35C0, 0x3480, 0xF441,
    0x3C00, 0xFCC1, 0xFD81, 0x3D40, 0xFF01, 0x3FC0, 0x3E80, 0xFE41,
    0xFA01, 0x3AC0, 0x3B80, 0xFB41, 0x3900, 0xF9C1, 0xF881, 0x3840,
    0x2800, 0xE8C1, 0xE981, 0x2940, 0xEB01, 0x2BC0, 0x2A80, 0xEA41,
    0xEE01, 0x2EC0, 0x2F80, 0xEF41, 0x2D00, 0xEDC1, 0xEC81, 0x2C40,
    0xE401, 0x24C0, 0x2580, 0xE541, 0x2700, 0xE7C1, 0xE681, 0x2640,
    0x2200, 0xE2C1, 0xE381, 0x2340, 0xE101, 0x21C0, 0x2080, 0xE041,
    0xA001, 0x60C0, 0x6180, 0xA141, 0x6300, 0xA3C1, 0xA281, 0x6240,
    0x6600, 0xA6C1, 0xA781, 0x6740, 0xA501, 0x65C0, 0x6480, 0xA441,
    0x6C00, 0xACC1, 0xAD81, 0x6D40, 0xAF01, 0x6FC0, 0x6E80, 0xAE41,
    0xAA01, 0x6AC0, 0x6B80, 0xAB41, 0x6900, 0xA9C1, 0xA881, 0x6840,
    0x7800, 0xB8C1, 0xB981, 0x7940, 0xBB01, 0x7BC0, 0x7A80, 0xBA41,
    0xBE01, 0x7EC0, 0x7F80, 0xBF41, 0x7D00, 0xBDC1, 0xBC81, 0x7C40,
    0xB401, 0x74C0, 0x7580, 0xB541, 0x7700, 0xB7C1, 0xB681, 0x7640,
    0x7200, 0xB2C1, 0xB381, 0x7340, 0xB101, 0x71C0, 0x7080, 0xB041,
    0x5000, 0x90C1, 0x9181, 0x5140, 0x9301, 0x53C0, 0x5280, 0x9241,
    0x9601, 0x56C0, 0x5780, 0x9741, 0x5500, 0x95C1, 0x9481, 0x5440,
    0x9C01, 0x5CC0, 0x5D80, 0x9D41, 0x5F00, 0x9FC1, 0x9E81, 0x5E40,
    0x5A00, 0x9AC1, 0x9B81, 0x5B40, 0x9901, 0x59C0, 0x5880, 0x9841,
    0x8801, 0x48C0, 0x4980, 0x8941, 0x4B00, 0x8BC1, 0x8A81, 0x4A40,
    0x4E00, 0x8EC1, 0x8F81, 0x4F40, 0x8D01, 0x4DC0, 0x4C80, 0x8C41,
    0x4400, 0x84C1, 0x8581, 0x4540, 0x8701, 0x47C0, 0x4680, 0x8641,
    0x8201, 0x42C0, 0x4380, 0x8341, 0x4100, 0x81C1, 0x8081, 0x4040]"

definition crc16_byte :: "u16 \<Rightarrow> u8 \<Rightarrow> u16" where
  "crc16_byte crc data = drop_bit 8 crc XOR crc16_table ! unat ((crc XOR ucast data) AND 255)"

definition crc16 :: "u16 \<Rightarrow> u8 list \<Rightarrow> nat \<Rightarrow> u16 res" where
  "crc16 crc buffer len = byte_loop crc16_byte crc buffer len"

subsection \<open>crc-ccitt.c\<close>

definition crc_ccitt_table :: "u16 list" where
  "crc_ccitt_table =
   [0x0000, 0x1189, 0x2312, 0x329b, 0x4624, 0x57ad, 0x6536, 0x74bf,
    0x8c48, 0x9dc1, 0xaf5a, 0xbed3, 0xca6c, 0xdbe5, 0xe97e, 0xf8f7,
    0x1081, 0x0108, 0x3393, 0x221a, 0x56a5, 0x472c, 0x75b7, 0x643e,
    0x9cc9, 0x8d40, 0xbfdb, 0xae52, 0xdaed, 0xcb64, 0xf9ff, 0xe876,
    0x2102, 0x308b, 0x0210, 0x1399, 0x6726, 0x76af, 0x4434, 0x55bd,
    0xad4a, 0xbcc3, 0x8e58, 0x9fd1, 0xeb6e, 0xfae7, 0xc87c, 0xd9f5,
    0x3183, 0x200a, 0x1291, 0x0318, 0x77a7, 0x662e, 0x54b5, 0x453c,
    0xbdcb, 0xac42, 0x9ed9, 0x8f50, 0xfbef, 0xea66, 0xd8fd, 0xc974,
    0x4204, 0x538d, 0x6116, 0x709f, 0x0420, 0x15a9, 0x2732, 0x36bb,
    0xce4c, 0xdfc5, 0xed5e, 0xfcd7, 0x8868, 0x99e1, 0xab7a, 0xbaf3,
    0x5285, 0x430c, 0x7197, 0x601e, 0x14a1, 0x0528, 0x37b3, 0x263a,
    0xdecd, 0xcf44, 0xfddf, 0xec56, 0x98e9, 0x8960, 0xbbfb, 0xaa72,
    0x6306, 0x728f, 0x4014, 0x519d, 0x2522, 0x34ab, 0x0630, 0x17b9,
    0xef4e, 0xfec7, 0xcc5c, 0xddd5, 0xa96a, 0xb8e3, 0x8a78, 0x9bf1,
    0x7387, 0x620e, 0x5095, 0x411c, 0x35a3, 0x242a, 0x16b1, 0x0738,
    0xffcf, 0xee46, 0xdcdd, 0xcd54, 0xb9eb, 0xa862, 0x9af9, 0x8b70,
    0x8408, 0x9581, 0xa71a, 0xb693, 0xc22c, 0xd3a5, 0xe13e, 0xf0b7,
    0x0840, 0x19c9, 0x2b52, 0x3adb, 0x4e64, 0x5fed, 0x6d76, 0x7cff,
    0x9489, 0x8500, 0xb79b, 0xa612, 0xd2ad, 0xc324, 0xf1bf, 0xe036,
    0x18c1, 0x0948, 0x3bd3, 0x2a5a, 0x5ee5, 0x4f6c, 0x7df7, 0x6c7e,
    0xa50a, 0xb483, 0x8618, 0x9791, 0xe32e, 0xf2a7, 0xc03c, 0xd1b5,
    0x2942, 0x38cb, 0x0a50, 0x1bd9, 0x6f66, 0x7eef, 0x4c74, 0x5dfd,
    0xb58b, 0xa402, 0x9699, 0x8710, 0xf3af, 0xe226, 0xd0bd, 0xc134,
    0x39c3, 0x284a, 0x1ad1, 0x0b58, 0x7fe7, 0x6e6e, 0x5cf5, 0x4d7c,
    0xc60c, 0xd785, 0xe51e, 0xf497, 0x8028, 0x91a1, 0xa33a, 0xb2b3,
    0x4a44, 0x5bcd, 0x6956, 0x78df, 0x0c60, 0x1de9, 0x2f72, 0x3efb,
    0xd68d, 0xc704, 0xf59f, 0xe416, 0x90a9, 0x8120, 0xb3bb, 0xa232,
    0x5ac5, 0x4b4c, 0x79d7, 0x685e, 0x1ce1, 0x0d68, 0x3ff3, 0x2e7a,
    0xe70e, 0xf687, 0xc41c, 0xd595, 0xa12a, 0xb0a3, 0x8238, 0x93b1,
    0x6b46, 0x7acf, 0x4854, 0x59dd, 0x2d62, 0x3ceb, 0x0e70, 0x1ff9,
    0xf78f, 0xe606, 0xd49d, 0xc514, 0xb1ab, 0xa022, 0x92b9, 0x8330,
    0x7bc7, 0x6a4e, 0x58d5, 0x495c, 0x3de3, 0x2c6a, 0x1ef1, 0x0f78]"

definition crc_ccitt_byte :: "u16 \<Rightarrow> u8 \<Rightarrow> u16" where
  "crc_ccitt_byte crc c = drop_bit 8 crc XOR crc_ccitt_table ! unat ((crc XOR ucast c) AND 255)"

definition crc_ccitt :: "u16 \<Rightarrow> u8 list \<Rightarrow> nat \<Rightarrow> u16 res" where
  "crc_ccitt crc buffer len = byte_loop crc_ccitt_byte crc buffer len"

subsection \<open>crc-itu-t.c\<close>

definition crc_itu_t_table :: "u16 list" where
  "crc_itu_t_table =
   [0x0000, 0x1021, 0x2042, 0x3063, 0x4084, 0x50a5, 0x60c6, 0x70e7,
    0x8108, 0x9129, 0xa14a, 0xb16b, 0xc18c, 0xd1ad, 0xe1ce, 0xf1ef,
    0x1231, 0x0210, 0x3273, 0x2252, 0x52b5, 0x4294, 0x72f7, 0x62d6,
    0x9339, 0x8318, 0xb37b, 0xa35a, 0xd3bd, 0xc39c, 0xf3ff, 0xe3de,
    0x2462, 0x3443, 0x0420, 0x1401, 0x64e6, 0x74c7, 0x44a4, 0x5485,
    0xa56a, 0xb54b, 0x8528, 0x9509, 0xe5ee, 0xf5cf, 0xc5ac, 0xd58d,
    0x3653, 0x2672, 0x1611, 0x0630, 0x76d7, 0x66f6, 0x5695, 0x46b4,
    0xb75b, 0xa77a, 0x9719, 0x8738, 0xf7df, 0xe7fe, 0xd79d, 0xc7bc,
    0x48c4, 0x58e5, 0x6886, 0x78a7, 0x0840, 0x1861, 0x2802, 0x3823,
    0xc9cc, 0xd9ed, 0xe98e, 0xf9af, 0x8948, 0x9969, 0xa90a, 0xb92b,
    0x5af5, 0x4ad4, 0x7ab7, 0x6a96, 0x1a71, 0x0a50, 0x3a33, 0x2a12,
    0xdbfd, 0xcbdc, 0xfbbf, 0xeb9e, 0x9b79, 0x8b58, 0xbb3b, 0xab1a,
    0x6ca6, 0x7c87, 0x4ce4, 0x5cc5, 0x2c22, 0x3c03, 0x0c60, 0x1c41,
    0xedae, 0xfd8f, 0xcdec, 0xddcd, 0xad2a, 0xbd0b, 0x8d68, 0x9d49,
    0x7e97, 0x6eb6, 0x5ed5, 0x4ef4, 0x3e13, 0x2e32, 0x1e51, 0x0e70,
    0xff9f, 0xefbe, 0xdfdd, 0xcffc, 0xbf1b, 0xaf3a, 0x9f59, 0x8f78,
    0x9188, 0x81a9, 0xb1ca, 0xa1eb, 0xd10c, 0xc12d, 0xf14e, 0xe16f,
    0x1080, 0x00a1, 0x30c2, 0x20e3, 0x5004, 0x4025, 0x7046, 0x6067,
    0x83b9, 0x9398, 0xa3fb, 0xb3da, 0xc33d, 0xd31c, 0xe37f, 0xf35e,
    0x02b1, 0x1290, 0x22f3, 0x32d2, 0x4235, 0x5214, 0x6277, 0x7256,
    0xb5ea, 0xa5cb, 0x95a8, 0x8589, 0xf56e, 0xe54f, 0xd52c, 0xc50d,
    0x34e2, 0x24c3, 0x14a0, 0x0481, 0x7466, 0x6447, 0x5424, 0x4405,
    0xa7db, 0xb7fa, 0x8799, 0x97b8, 0xe75f, 0xf77e, 0xc71d, 0xd73c,
    0x26d3, 0x36f2, 0x0691, 0x16b0, 0x6657, 0x7676, 0x4615, 0x5634,
    0xd94c, 0xc96d, 0xf90e, 0xe92f, 0x99c8, 0x89e9, 0xb98a, 0xa9ab,
    0x5844, 0x4865, 0x7806, 0x6827, 0x18c0, 0x08e1, 0x3882, 0x28a3,
    0xcb7d, 0xdb5c, 0xeb3f, 0xfb1e, 0x8bf9, 0x9bd8, 0xabbb, 0xbb9a,
    0x4a75, 0x5a54, 0x6a37, 0x7a16, 0x0af1, 0x1ad0, 0x2ab3, 0x3a92,
    0xfd2e, 0xed0f, 0xdd6c, 0xcd4d, 0xbdaa, 0xad8b, 0x9de8, 0x8dc9,
    0x7c26, 0x6c07, 0x5c64, 0x4c45, 0x3ca2, 0x2c83, 0x1ce0, 0x0cc1,
    0xef1f, 0xff3e, 0xcf5d, 0xdf7c, 0xaf9b, 0xbfba, 0x8fd9, 0x9ff8,
    0x6e17, 0x7e36, 0x4e55, 0x5e74, 0x2e93, 0x3eb2, 0x0ed1, 0x1ef0]"

definition crc_itu_t_byte :: "u16 \<Rightarrow> u8 \<Rightarrow> u16" where
  "crc_itu_t_byte crc data = push_bit 8 crc XOR crc_itu_t_table ! unat ((drop_bit 8 crc XOR ucast data) AND 255)"

definition crc_itu_t :: "u16 \<Rightarrow> u8 list \<Rightarrow> nat \<Rightarrow> u16 res" where
  "crc_itu_t crc buffer len = byte_loop crc_itu_t_byte crc buffer len"

subsection \<open>crc7.c\<close>

definition crc7_be_syndrome_table :: "u8 list" where
  "crc7_be_syndrome_table =
   [0x00, 0x12, 0x24, 0x36, 0x48, 0x5a, 0x6c, 0x7e,
    0x90, 0x82, 0xb4, 0xa6, 0xd8, 0xca, 0xfc, 0xee,
    0x32, 0x20, 0x16, 0x04, 0x7a, 0x68, 0x5e, 0x4c,
    0xa2, 0xb0, 0x86, 0x94, 0xea, 0xf8, 0xce, 0xdc,
    0x64, 0x76, 0x40, 0x52, 0x2c, 0x3e, 0x08, 0x1a,
    0xf4, 0xe6, 0xd0, 0xc2, 0xbc, 0xae, 0x98, 0x8a,
    0x56, 0x44, 0x72, 0x60, 0x1e, 0x0c, 0x3a, 0x28,
    0xc6, 0xd4, 0xe2, 0xf0, 0x8e, 0x9c, 0xaa, 0xb8,
    0xc8, 0xda, 0xec, 0xfe, 0x80, 0x92, 0xa4, 0xb6,
    0x58, 0x4a, 0x7c, 0x6e, 0x10, 0x02, 0x34, 0x26,
    0xfa, 0xe8, 0xde, 0xcc, 0xb2, 0xa0, 0x96, 0x84,
    0x6a, 0x78, 0x4e, 0x5c, 0x22, 0x30, 0x06, 0x14,
    0xac, 0xbe, 0x88, 0x9a, 0xe4, 0xf6, 0xc0, 0xd2,
    0x3c, 0x2e, 0x18, 0x0a, 0x74, 0x66, 0x50, 0x42,
    0x9e, 0x8c, 0xba, 0xa8, 0xd6, 0xc4, 0xf2, 0xe0,
    0x0e, 0x1c, 0x2a, 0x38, 0x46, 0x54, 0x62, 0x70,
    0x82, 0x90, 0xa6, 0xb4, 0xca, 0xd8, 0xee, 0xfc,
    0x12, 0x00, 0x36, 0x24, 0x5a, 0x48, 0x7e, 0x6c,
    0xb0, 0xa2, 0x94, 0x86, 0xf8, 0xea, 0xdc, 0xce,
    0x20, 0x32, 0x04, 0x16, 0x68, 0x7a, 0x4c, 0x5e,
    0xe6, 0xf4, 0xc2, 0xd0, 0xae, 0xbc, 0x8a, 0x98,
    0x76, 0x64, 0x52, 0x40, 0x3e, 0x2c, 0x1a, 0x08,
    0xd4, 0xc6, 0xf0, 0xe2, 0x9c, 0x8e, 0xb8, 0xaa,
    0x44, 0x56, 0x60, 0x72, 0x0c, 0x1e, 0x28, 0x3a,
    0x4a, 0x58, 0x6e, 0x7c, 0x02, 0x10, 0x26, 0x34,
    0xda, 0xc8, 0xfe, 0xec, 0x92, 0x80, 0xb6, 0xa4,
    0x78, 0x6a, 0x5c, 0x4e, 0x30, 0x22, 0x14, 0x06,
    0xe8, 0xfa, 0xcc, 0xde, 0xa0, 0xb2, 0x84, 0x96,
    0x2e, 0x3c, 0x0a, 0x18, 0x66, 0x74, 0x42, 0x50,
    0xbe, 0xac, 0x9a, 0x88, 0xf6, 0xe4, 0xd2, 0xc0,
    0x1c, 0x0e, 0x38, 0x2a, 0x54, 0x46, 0x70, 0x62,
    0x8c, 0x9e, 0xa8, 0xba, 0xc4, 0xd6, 0xe0, 0xf2]"

definition crc7_be_byte :: "u8 \<Rightarrow> u8 \<Rightarrow> u8" where
  "crc7_be_byte crc data = crc7_be_syndrome_table ! unat (crc XOR data)"

definition crc7_be :: "u8 \<Rightarrow> u8 list \<Rightarrow> nat \<Rightarrow> u8 res" where
  "crc7_be crc buffer len = byte_loop crc7_be_byte crc buffer len"

subsection \<open>crc8.c\<close>

definition crc8_populate_msb :: "u8 list \<Rightarrow> u8 \<Rightarrow> u8 list" where
  "crc8_populate_msb table polynomial = msb_fill 0x80 polynomial 1 0x80 (table[0 := 0])"

definition crc8_populate_lsb :: "u8 list \<Rightarrow> u8 \<Rightarrow> u8 list" where
  "crc8_populate_lsb table polynomial = lsb_fill polynomial 128 1 (table[0 := 0])"

definition crc8 :: "u8 list \<Rightarrow> u8 list \<Rightarrow> nat \<Rightarrow> u8 \<Rightarrow> u8 res" where
  "crc8 table pdata nbytes crc = byte_loop (\<lambda>crc b. table ! unat ((crc XOR b) AND 255)) crc pdata nbytes"

subsection \<open>xz\_crc32.c\<close>

text \<open>The conditional exclusive or is written without a branch: \<^verbatim>\<open>poly & ~((r & 1) - 1)\<close>.\<close>

definition xz_crc32_bit :: "u32 \<Rightarrow> u32" where
  "xz_crc32_bit r = drop_bit 1 r XOR (0xEDB88320 AND NOT ((r AND 1) - 1))"

definition xz_crc32_init :: "u32 list" where
  "xz_crc32_init = map (\<lambda>i. (xz_crc32_bit ^^ 8) (of_nat i)) [0..<256]"

definition xz_crc32 :: "u32 list \<Rightarrow> u8 list \<Rightarrow> nat \<Rightarrow> u32 \<Rightarrow> u32 res" where
  "xz_crc32 xz_crc32_table buf sz crc =
     rbind (byte_loop (\<lambda>crc b. xz_crc32_table ! unat (ucast b XOR (crc AND 0xFF)) XOR drop_bit 8 crc) (NOT crc) buf sz)
       (\<lambda>crc. Inr (NOT crc))"

section \<open>The tables are right\<close>

lemma pow8: "(f ^^ 8) x = f (f (f (f (f (f (f (f x)))))))"
  by (simp add: eval_nat_numeral)

lemma rev_upt8: "rev [0..<8] = [7, 6, 5, 4, 3, 2, 1, 0]"
  by (simp add: upt_conv_Cons)

lemma crc16_table_spec: "crc16_table = map (\<lambda>i. (lsb_step 0xA001 ^^ 8) (of_nat i)) [0..<256]"
proof -
  have "crc16_table = span [0xA001, 0xF001, 0xD801, 0xCC01, 0xC601, 0xC301, 0xC181, 0xC0C1]"
    by (simp add: crc16_table_def Let_def)
  also have "[0xA001, 0xF001, 0xD801, 0xCC01, 0xC601, 0xC301, 0xC181, 0xC0C1] = map (\<lambda>k. (lsb_step (0xA001 :: u16) ^^ 8) (2 ^ k)) (rev [0..<8])"
    by (simp add: rev_upt8 pow8 lsb_step_def bit_numeral_rec)
  finally show ?thesis using span_spec [OF xlin_funpow [OF lsb_step_xlin], of 8 8 "0xA001 :: u16"] by simp
qed

lemma crc_ccitt_table_spec: "crc_ccitt_table = map (\<lambda>i. (lsb_step 0x8408 ^^ 8) (of_nat i)) [0..<256]"
proof -
  have "crc_ccitt_table = span [0x8408, 0x4204, 0x2102, 0x1081, 0x8c48, 0x4624, 0x2312, 0x1189]"
    by (simp add: crc_ccitt_table_def Let_def)
  also have "[0x8408, 0x4204, 0x2102, 0x1081, 0x8c48, 0x4624, 0x2312, 0x1189] = map (\<lambda>k. (lsb_step (0x8408 :: u16) ^^ 8) (2 ^ k)) (rev [0..<8])"
    by (simp add: rev_upt8 pow8 lsb_step_def bit_numeral_rec)
  finally show ?thesis using span_spec [OF xlin_funpow [OF lsb_step_xlin], of 8 8 "0x8408 :: u16"] by simp
qed

lemma msb8_xlin: "xlin (\<lambda>x :: 'a::len word. (msb_step poly ^^ 8) (push_bit n x))"
  using xlin_funpow [OF msb_step_xlin, of 8 poly] by (simp add: xlin_def push_bit_xor)

lemma crc_itu_t_table_spec: "crc_itu_t_table = map (\<lambda>i. (msb_step 0x1021 ^^ 8) (push_bit 8 (of_nat i))) [0..<256]"
proof -
  have "crc_itu_t_table = span [0x9188, 0x48c4, 0x2462, 0x1231, 0x8108, 0x4084, 0x2042, 0x1021]"
    by (simp add: crc_itu_t_table_def Let_def)
  also have "[0x9188, 0x48c4, 0x2462, 0x1231, 0x8108, 0x4084, 0x2042, 0x1021] = map (\<lambda>k. (msb_step (0x1021 :: u16) ^^ 8) (push_bit 8 (2 ^ k))) (rev [0..<8])"
    by (simp add: rev_upt8 pow8 msb_step_def bit_numeral_rec)
  finally show ?thesis using span_spec [OF msb8_xlin, of 8 "0x1021 :: u16" 8] by simp
qed

lemma crc7_table_spec: "crc7_be_syndrome_table = map (\<lambda>i. (msb_step 0x12 ^^ 8) (of_nat i)) [0..<256]"
proof -
  have "crc7_be_syndrome_table = span [0x82, 0xc8, 0x64, 0x32, 0x90, 0x48, 0x24, 0x12]"
    by (simp add: crc7_be_syndrome_table_def Let_def)
  also have "[0x82, 0xc8, 0x64, 0x32, 0x90, 0x48, 0x24, 0x12] = map (\<lambda>k. (msb_step (0x12 :: u8) ^^ 8) (push_bit 0 (2 ^ k))) (rev [0..<8])"
    by (simp add: rev_upt8 pow8 msb_step_def bit_numeral_rec)
  finally show ?thesis using span_spec [OF msb8_xlin, of 8 "0x12 :: u8" 0] by simp
qed

section \<open>Table-driven equals one bit at a time\<close>

lemma byte_crc_lsb:
  fixes poly :: "'a::len word"
  assumes "8 \<le> LENGTH('a)" "tab = map (\<lambda>i. (lsb_step poly ^^ 8) (of_nat i)) [0..<256]"
  shows "byte_crc (lsb_step poly ^^ 8) tab"
proof
  fix y :: "'a word"
  assume y: "y AND 255 = 0"
  have m: "(255 :: 'a word) = mask 8" by (simp add: mask_eq_exp_minus_1)
  have "\<not> bit y i" if "i < 8" for i
  proof
    assume b: "bit y i"
    have "bit (y AND 255) i" using b that assms(1) by (auto simp: m bit_simps dest: bit_imp_le_length)
    with y show False by simp
  qed
  then show "(lsb_step poly ^^ 8) y = drop_bit 8 y" by (rule lsb_step_shift)
qed (use assms in \<open>auto intro: xlin_funpow lsb_step_xlin\<close>)

context byte_crc
begin

lemma update_byte: "B (c XOR ucast (b :: u8)) = drop_bit 8 c XOR tab ! unat ((c XOR ucast b) AND 255)"
proof -
  have "drop_bit 8 (ucast b :: 'a word) = 0" by (rule bit_eqI) (auto simp: bit_simps dest: bit_imp_le_length)
  then show ?thesis by (simp add: update drop_bit_xor)
qed

lemma loop_spec:
  assumes "\<And>c b. f c b = drop_bit 8 c XOR tab ! unat ((c XOR ucast b) AND 255)" "len \<le> length buf"
  shows "byte_loop f crc buf len = Inr (fold (\<lambda>b c. B (c XOR ucast b)) (take len buf) crc)"
  using assms by (simp add: byte_loop_fold update_byte)

end

interpretation crc16_tab: byte_crc "lsb_step (0xA001 :: u16) ^^ 8" crc16_table
  by (rule byte_crc_lsb) (simp_all add: crc16_table_spec)

interpretation ccitt_tab: byte_crc "lsb_step (0x8408 :: u16) ^^ 8" crc_ccitt_table
  by (rule byte_crc_lsb) (simp_all add: crc_ccitt_table_spec)

lemma xz_crc32_bit_step: "xz_crc32_bit = lsb_step 0xEDB88320"
proof
  fix r :: u32
  have "r AND 1 = (if bit r 0 then 1 else 0)" by (simp add: and_one_eq bit_0 odd_iff_mod_2_eq_one)
  then show "xz_crc32_bit r = lsb_step 0xEDB88320 r" by (simp add: xz_crc32_bit_def lsb_step_def)
qed

interpretation xz_tab: byte_crc "lsb_step (0xEDB88320 :: u32) ^^ 8" xz_crc32_init
  by (rule byte_crc_lsb) (simp_all add: xz_crc32_init_def xz_crc32_bit_step)

lemma crc8_populate_lsb_spec:
  assumes "length table = 256"
  shows "crc8_populate_lsb table poly = map (\<lambda>i. (lsb_step poly ^^ 8) (of_nat i)) [0..<256]"
proof -
  have "lsb_fill poly (2 ^ 7) 1 (table[0 := 0]) = map (\<lambda>i. (lsb_step poly ^^ 8) (of_nat i)) [0..<256]"
  proof (rule lsb_fill_spec)
    fix m :: nat
    assume m: "m < 256" "2 ^ Suc 7 dvd m"
    then have "m = 0" by (auto dest: dvd_imp_le)
    then show "table[0 := 0] ! m = (lsb_step poly ^^ 8) (of_nat m)"
      using assms xlin_0 [OF xlin_funpow [OF lsb_step_xlin], of 8 poly] by simp
  qed (use assms in auto)
  then show ?thesis by (simp add: crc8_populate_lsb_def)
qed

lemma crc8_populate_msb_spec:
  assumes "length table = 256"
  shows "crc8_populate_msb table poly = map (\<lambda>i. (msb_step poly ^^ 8) (of_nat i)) [0..<256]"
proof -
  have "msb_fill (2 ^ (LENGTH(8) - 1)) poly (2 ^ 0) 0x80 (table[0 := 0]) =
      map (\<lambda>i. (msb_step poly ^^ 8) (push_bit (LENGTH(8) - 8) (of_nat i))) [0..<256]"
  proof (rule msb_fill_spec)
    show "table[0 := 0] ! m = (msb_step poly ^^ 8) (push_bit (LENGTH(8) - 8) (of_nat m))" if "m < 2 ^ 0" for m
      using that assms xlin_0 [OF xlin_funpow [OF msb_step_xlin], of 8 poly] by simp
  qed (use assms in auto)
  then show ?thesis by (simp add: crc8_populate_msb_def)
qed

text \<open>Most significant bit first: the byte leaves at the top.\<close>

lemma msb_update:
  fixes c :: "'a::len word"
  assumes "8 \<le> LENGTH('a)"
  shows "(msb_step poly ^^ 8) c = push_bit 8 c XOR (msb_step poly ^^ 8) (push_bit (LENGTH('a) - 8) (drop_bit (LENGTH('a) - 8) c))"
proof -
  let ?n = "LENGTH('a) - 8"
  let ?lo = "take_bit ?n c"
  have c: "c = ?lo XOR push_bit ?n (drop_bit ?n c)" by (rule bit_eqI) (auto simp: bit_simps)
  have "(msb_step poly ^^ 8) ?lo = push_bit 8 ?lo"
    by (rule msb_step_shift) (use assms in \<open>auto simp: bit_simps\<close>)
  also have "\<dots> = push_bit 8 c" by (rule bit_eqI) (use assms in \<open>auto simp: bit_simps\<close>)
  finally have lo: "(msb_step poly ^^ 8) ?lo = push_bit 8 c" .
  show ?thesis by (subst c, subst xlinD [OF xlin_funpow [OF msb_step_xlin]]) (simp only: lo)
qed

lemma crc_itu_t_byte_spec: "crc_itu_t_byte c b = (msb_step 0x1021 ^^ 8) (c XOR push_bit 8 (ucast b))"
proof -
  let ?x = "drop_bit 8 c XOR ucast b :: u16"
  have x: "drop_bit 8 (c XOR push_bit 8 (ucast b)) = ?x" by (rule bit_eqI) (auto simp: bit_simps dest: bit_imp_le_length)
  have m: "(255 :: u16) = mask 8" by (simp add: mask_eq_exp_minus_1)
  have "?x AND 255 = ?x" unfolding m by (rule bit_eqI) (auto simp: bit_simps dest: bit_imp_le_length)
  moreover have "unat (?x AND 255) < 256" by (rule crc16_tab.byte_index)
  ultimately have t: "crc_itu_t_table ! unat (?x AND 255) = (msb_step 0x1021 ^^ 8) (push_bit 8 ?x)"
    by (simp add: crc_itu_t_table_spec)
  have W: "LENGTH(16) - 8 = 8" by simp
  have p: "push_bit 8 (c XOR push_bit 8 (ucast b)) = push_bit 8 c"
    by (rule bit_eqI) (auto simp: bit_simps dest: bit_imp_le_length)
  have "(msb_step 0x1021 ^^ 8) (c XOR push_bit 8 (ucast b)) = push_bit 8 c XOR (msb_step 0x1021 ^^ 8) (push_bit 8 ?x)"
    using msb_update [of "0x1021" "c XOR push_bit 8 (ucast b)"] unfolding p W x by simp
  then show ?thesis unfolding crc_itu_t_byte_def t by (simp only:)
qed

lemma msb8_byte: "unat (x :: u8) < 256"
  using unsigned_less [of x, where ?'a = nat] by simp


section \<open>Properties\<close>

text \<open>
  The reflected 16-bit routines agree with division of the message one bit at a time: \<open>crc16\<close> for the
  polynomial 0x8005 and \<open>crc_ccitt\<close> for 0x1021, for every start value and every length up to the buffer's;
  a longer length reads out of bounds.
\<close>

theorem crc16_divides:
  "crc16 crc buf len = (if len \<le> length buf then Inr (crc_lsb 0xA001 crc (take len buf)) else Inl OutOfBounds) \<and>
   crc_ccitt crc buf len = (if len \<le> length buf then Inr (crc_lsb 0x8408 crc (take len buf)) else Inl OutOfBounds)"
proof -
  have 1: "crc16 crc buf len = Inr (crc_lsb 0xA001 crc (take len buf))" if "len \<le> length buf"
    unfolding crc16_def crc_lsb_def by (rule crc16_tab.loop_spec [OF _ that]) (simp add: crc16_byte_def)
  have 2: "crc_ccitt crc buf len = Inr (crc_lsb 0x8408 crc (take len buf))" if "len \<le> length buf"
    unfolding crc_ccitt_def crc_lsb_def by (rule ccitt_tab.loop_spec [OF _ that]) (simp add: crc_ccitt_byte_def)
  show ?thesis using 1 2 by (simp add: crc16_def crc_ccitt_def byte_loop_short)
qed

text \<open>
  The routines that shift the most significant bit out first agree with division one bit at a time:
  \<open>crc_itu_t\<close> for 0x1021, and \<open>crc7_be\<close> for 0x09 kept in the upper seven bits of the byte.
\<close>

theorem crc_msb_divides:
  assumes "len \<le> length buf"
  shows "crc_itu_t crc buf len = Inr (crc_msb 0x1021 crc (take len buf)) \<and>
    crc7_be crc7 buf len = Inr (crc_msb 0x12 crc7 (take len buf))"
proof
  show "crc_itu_t crc buf len = Inr (crc_msb 0x1021 crc (take len buf))"
    using assms by (simp add: crc_itu_t_def byte_loop_fold crc_itu_t_byte_spec crc_msb_def)
  have "crc7_be_byte c b = (msb_step 0x12 ^^ 8) (c XOR b)" for c b
    by (simp add: crc7_be_byte_def crc7_table_spec msb8_byte)
  then show "crc7_be crc7 buf len = Inr (crc_msb 0x12 crc7 (take len buf))"
    using assms by (simp add: crc7_be_def byte_loop_fold crc_msb_def)
qed

theorem crc_msb_divides_witness:
  "crc_itu_t 0 [0x31, 0x32] 2 = Inr (crc_msb 0x1021 0 [0x31, 0x32]) \<and> crc7_be 0 [0x40, 0] 2 = Inr (crc_msb 0x12 0 [0x40, 0])"
  using crc_msb_divides [of 2 "[0x31, 0x32]" 0 0] crc_msb_divides [of 2 "[0x40, 0]" 0 0] by simp

text \<open>
  The two table generators of \<open>crc8.c\<close> are right for every polynomial, whatever the array held before:
  \<open>crc8\<close> with the generated table divides one bit at a time, in the bit order of the generator.
\<close>

theorem crc8_divides:
  assumes "length table = 256" "n \<le> length buf"
  shows "crc8 (crc8_populate_lsb table poly) buf n crc = Inr (crc_lsb poly crc (take n buf)) \<and>
    crc8 (crc8_populate_msb table poly) buf n crc = Inr (crc_msb poly crc (take n buf))"
proof -
  have m: "(255 :: u8) = mask 8" by (simp add: mask_eq_exp_minus_1)
  have "(x :: u8) AND 255 = x" for x unfolding m by (rule bit_eqI) (auto simp: bit_simps dest: bit_imp_le_length)
  then show ?thesis
    using assms(2) by (simp add: crc8_def byte_loop_fold crc8_populate_lsb_spec [OF assms(1)]
        crc8_populate_msb_spec [OF assms(1)] msb8_byte crc_lsb_def crc_msb_def)
qed

theorem crc8_divides_witness:
  "crc8 (crc8_populate_msb (replicate 256 0xAA) 7) [1, 2, 3] 3 0xff = Inr (crc_msb 7 0xff [1, 2, 3])"
  using crc8_divides [of "replicate 256 0xAA" 3 "[1, 2, 3]" 7 "0xff"] by simp

lemma xz_crc32_divides:
  assumes "n \<le> length buf"
  shows "xz_crc32 xz_crc32_init buf n crc = Inr (NOT (crc_lsb 0xEDB88320 (NOT crc) (take n buf)))"
proof -
  have "ucast (b :: u8) XOR (c AND 0xFF) = (c XOR ucast b) AND (255 :: u32)" for b c
  proof (rule bit_eqI)
    fix n
    have m: "(255 :: u32) = mask 8" by (simp add: mask_eq_exp_minus_1)
    show "bit (ucast b XOR (c AND 0xFF)) n = bit ((c XOR ucast b) AND (255 :: u32)) n"
      unfolding m by (auto simp: bit_simps dest: bit_imp_le_length)
  qed
  then have "byte_loop (\<lambda>crc b. xz_crc32_init ! unat (ucast b XOR (crc AND 0xFF)) XOR drop_bit 8 crc) c buf n =
      Inr (crc_lsb 0xEDB88320 c (take n buf))" for c
    unfolding crc_lsb_def using xz_tab.loop_spec [OF _ assms] by (simp add: xor.commute)
  then show ?thesis by (simp add: xz_crc32_def)
qed

end
