(* ===== verification/Crc32.thy ===== *)
theory Crc32
  imports Crc
begin

text \<open>
  \<^verbatim>\<open>crc32.c\<close> and the program that generates its tables, \<^verbatim>\<open>gen_crc32table.c\<close>, in the configured variant
  (slicing by eight): the tables hold the iterated division of every byte, the body that loads eight bytes
  at a time computes the division one bit at a time in both bit orders, and the logarithmic shift appends
  zero bytes.
\<close>

section \<open>crc32.c\<close>

definition CRCPOLY_LE :: u32 where "CRCPOLY_LE = 0xedb88320"
definition CRCPOLY_BE :: u32 where "CRCPOLY_BE = 0x04c11db7"
definition CRC32C_POLY_LE :: u32 where "CRC32C_POLY_LE = 0x82F63B78"

subsection \<open>The generator of the tables\<close>

text \<open>
  The configuration selects slicing by eight (\<open>CRC_LE_BITS\<close> and \<open>CRC_BE_BITS\<close> are 64): eight rows of 256
  entries. The second loop of the generators writes entry \<open>i\<close> of the rows 1 to 7.
\<close>

definition crc_rows :: "(u32 \<Rightarrow> u32) \<Rightarrow> u32 list list \<Rightarrow> u32 list list" where
  "crc_rows nxt tab =
     fold (\<lambda>i tab. snd (fold (\<lambda>j (crc, tab). let crc' = nxt crc in (crc', tab[j := (tab ! j)[i := crc']]))
              [1..<8] (tab ! 0 ! i, tab))) [0..<256] tab"

definition crc32init_le_generic :: "u32 \<Rightarrow> u32 list list \<Rightarrow> u32 list list" where
  "crc32init_le_generic polynomial tab =
     (let row = lsb_fill polynomial 128 1 ((tab ! 0)[0 := 0])
      in crc_rows (\<lambda>crc. row ! unat (crc AND 0xff) XOR drop_bit 8 crc) (tab[0 := row]))"

definition crc32init_le :: "u32 list list \<Rightarrow> u32 list list" where
  "crc32init_le crc32table_le = crc32init_le_generic CRCPOLY_LE crc32table_le"

definition crc32cinit_le :: "u32 list list \<Rightarrow> u32 list list" where
  "crc32cinit_le crc32ctable_le = crc32init_le_generic CRC32C_POLY_LE crc32ctable_le"

definition crc32init_be :: "u32 list list \<Rightarrow> u32 list list" where
  "crc32init_be crc32table_be =
     (let row = msb_fill 0x80000000 CRCPOLY_BE 1 0x80000000 ((crc32table_be ! 0)[0 := 0])
      in crc_rows (\<lambda>crc. row ! unat (drop_bit 24 crc AND 0xff) XOR push_bit 8 crc) (crc32table_be[0 := row]))"

text \<open>The generator's arrays before the first write.\<close>

definition zero_rows :: "u32 list list" where
  "zero_rows = replicate 8 (replicate 256 0)"

definition swab32 :: "u32 \<Rightarrow> u32" where
  "swab32 x = push_bit 24 (x AND 255) OR push_bit 8 (x AND 0xff00) OR (drop_bit 8 x AND 0xff00) OR drop_bit 24 x"

text \<open>The tables \<^verbatim>\<open>crc32.c\<close> includes: \<open>tole\<close> is the identity on this target and \<open>tobe\<close> swaps the bytes.\<close>

definition crc32table_le :: "u32 list list" where "crc32table_le = crc32init_le zero_rows"
definition crc32ctable_le :: "u32 list list" where "crc32ctable_le = crc32cinit_le zero_rows"
definition crc32table_be :: "u32 list list" where "crc32table_be = map (map swab32) (crc32init_be zero_rows)"

subsection \<open>The body\<close>

definition DO_CRC :: "u32 list list \<Rightarrow> u32 \<Rightarrow> u8 \<Rightarrow> u32" where
  "DO_CRC tab crc x = tab ! 0 ! unat ((crc XOR ucast x) AND 255) XOR drop_bit 8 crc"

definition DO_CRC4 :: "u32 list list \<Rightarrow> u32 \<Rightarrow> u32" where
  "DO_CRC4 tab q = tab ! 3 ! unat (q AND 255) XOR tab ! 2 ! unat (drop_bit 8 q AND 255) XOR
     tab ! 1 ! unat (drop_bit 16 q AND 255) XOR tab ! 0 ! unat (drop_bit 24 q AND 255)"

definition DO_CRC8 :: "u32 list list \<Rightarrow> u32 \<Rightarrow> u32" where
  "DO_CRC8 tab q = tab ! 7 ! unat (q AND 255) XOR tab ! 6 ! unat (drop_bit 8 q AND 255) XOR
     tab ! 5 ! unat (drop_bit 16 q AND 255) XOR tab ! 4 ! unat (drop_bit 24 q AND 255)"

text \<open>A 32-bit load from an aligned address of the little-endian target.\<close>

definition le32 :: "u8 \<Rightarrow> u8 \<Rightarrow> u8 \<Rightarrow> u8 \<Rightarrow> u32" where
  "le32 b0 b1 b2 b3 = ucast b0 XOR push_bit 8 (ucast b1) XOR push_bit 16 (ucast b2) XOR push_bit 24 (ucast b3)"

fun crc_align :: "u32 list list \<Rightarrow> u32 \<Rightarrow> u32 \<Rightarrow> u8 list \<Rightarrow> nat \<Rightarrow> (u32 \<times> u8 list \<times> nat) res" where
  "crc_align tab addr crc [] len = Inl OutOfBounds"
| "crc_align tab addr crc (b # bs) len =
     (let crc' = DO_CRC tab crc b; addr' = addr + 1; len' = len - 1
      in if len' \<noteq> 0 \<and> addr' AND 3 \<noteq> 0 then crc_align tab addr' crc' bs len' else Inr (crc', bs, len'))"

fun crc_words :: "u32 list list \<Rightarrow> u32 \<Rightarrow> u8 list \<Rightarrow> nat \<Rightarrow> (u32 \<times> u8 list) res" where
  "crc_words tab crc buf 0 = Inr (crc, buf)"
| "crc_words tab crc (b0 # b1 # b2 # b3 # b4 # b5 # b6 # b7 # bs) (Suc n) =
     (let q = crc XOR le32 b0 b1 b2 b3;
          crc' = DO_CRC8 tab q;
          q' = le32 b4 b5 b6 b7
      in crc_words tab (crc' XOR DO_CRC4 tab q') bs n)"
| "crc_words tab crc buf (Suc n) = Inl OutOfBounds"

definition crc32_body :: "u32 \<Rightarrow> u32 \<Rightarrow> u8 list \<Rightarrow> nat \<Rightarrow> u32 list list \<Rightarrow> u32 res" where
  "crc32_body addr crc buf len tab =
     rbind (if addr AND 3 \<noteq> 0 \<and> len \<noteq> 0 then crc_align tab addr crc buf len else Inr (crc, buf, len)) (\<lambda>(crc, buf, len).
     let rem_len = len mod 8 in
     rbind (crc_words tab crc buf (len div 8)) (\<lambda>(crc, buf).
     byte_loop (DO_CRC tab) crc buf rem_len))"

definition crc32_le_generic :: "u32 \<Rightarrow> u32 \<Rightarrow> u8 list \<Rightarrow> nat \<Rightarrow> u32 list list \<Rightarrow> u32 res" where
  "crc32_le_generic addr crc p len tab = crc32_body addr crc p len tab"

definition crc32_le :: "u32 \<Rightarrow> u32 \<Rightarrow> u8 list \<Rightarrow> nat \<Rightarrow> u32 res" where
  "crc32_le addr crc p len = crc32_le_generic addr crc p len crc32table_le"

definition crc32c_le :: "u32 \<Rightarrow> u32 \<Rightarrow> u8 list \<Rightarrow> nat \<Rightarrow> u32 res" where
  "crc32c_le addr crc p len = crc32_le_generic addr crc p len crc32ctable_le"

definition crc32_be_generic :: "u32 \<Rightarrow> u32 \<Rightarrow> u8 list \<Rightarrow> nat \<Rightarrow> u32 list list \<Rightarrow> u32 res" where
  "crc32_be_generic addr crc p len tab =
     rbind (crc32_body addr (swab32 crc) p len tab) (\<lambda>crc. Inr (swab32 crc))"

definition crc32_be :: "u32 \<Rightarrow> u32 \<Rightarrow> u8 list \<Rightarrow> nat \<Rightarrow> u32 res" where
  "crc32_be addr crc p len = crc32_be_generic addr crc p len crc32table_be"

subsection \<open>Shifting a checksum over zero bytes\<close>

definition gf2_multiply :: "u32 \<Rightarrow> u32 \<Rightarrow> u32 \<Rightarrow> u32" where
  "gf2_multiply x y modulus =
     fst (((\<lambda>(product, x).
        let product' = drop_bit 1 product XOR (if product AND 1 \<noteq> 0 then modulus else 0);
            x' = drop_bit 1 x
        in (product' XOR (if x' AND 1 \<noteq> 0 then y else 0), x')) ^^ 31) (if x AND 1 \<noteq> 0 then y else 0, x))"

function shift_loop :: "u32 \<Rightarrow> u32 \<Rightarrow> u32 \<Rightarrow> nat \<Rightarrow> u32" where
  "shift_loop polynomial crc pw len =
     (let crc' = (if len mod 2 = 1 then gf2_multiply crc pw polynomial else crc); len' = len div 2
      in if len' = 0 then crc' else shift_loop polynomial crc' (gf2_multiply pw pw polynomial) len')"
  by auto
termination by (relation "measure (\<lambda>(p, c, w, len). len)") auto

declare shift_loop.simps [simp del]

definition crc32_generic_shift :: "u32 \<Rightarrow> nat \<Rightarrow> u32 \<Rightarrow> u32" where
  "crc32_generic_shift crc len polynomial =
     (let crc' = ((\<lambda>crc. drop_bit 1 crc XOR (if crc AND 1 \<noteq> 0 then polynomial else 0)) ^^ (8 * (len mod 4))) crc;
          len' = len div 4
      in if len' = 0 then crc' else shift_loop polynomial crc' polynomial len')"

definition crc32_le_shift :: "u32 \<Rightarrow> nat \<Rightarrow> u32" where
  "crc32_le_shift crc len = crc32_generic_shift crc len CRCPOLY_LE"

definition crc32c_le_shift :: "u32 \<Rightarrow> nat \<Rightarrow> u32" where
  "crc32c_le_shift crc len = crc32_generic_shift crc len CRC32C_POLY_LE"

section \<open>The rows of a generated table\<close>

lemma crc_rows_inner:
  assumes "n < length tab"
  shows "fold (\<lambda>j (crc, tab). let crc' = nxt crc in (crc', tab[j := (tab ! j)[i := crc']])) [1..<Suc n] (c, tab) =
    ((nxt ^^ n) c, map (\<lambda>j. if 1 \<le> j \<and> j \<le> n then (tab ! j)[i := (nxt ^^ j) c] else tab ! j) [0..<length tab])"
  using assms
proof (induction n)
  case 0
  then show ?case by (auto intro!: nth_equalityI)
next
  case (Suc n)
  have "[1..<Suc (Suc n)] = [1..<Suc n] @ [Suc n]" by simp
  moreover have "(map (\<lambda>j. if 1 \<le> j \<and> j \<le> n then (tab ! j)[i := (nxt ^^ j) c] else tab ! j) [0..<length tab])
      [Suc n := (tab ! Suc n)[i := (nxt ^^ Suc n) c]] =
     map (\<lambda>j. if 1 \<le> j \<and> j \<le> Suc n then (tab ! j)[i := (nxt ^^ j) c] else tab ! j) [0..<length tab]"
    using Suc.prems by (intro nth_equalityI) (auto simp: nth_list_update le_Suc_eq)
  ultimately show ?case using Suc by (simp add: Let_def del: upt_Suc)
qed

lemma crc_rows_spec:
  assumes "length tab = 8" "\<And>r. r \<in> set tab \<Longrightarrow> length r = 256"
  shows "crc_rows nxt tab = map (\<lambda>j. map (\<lambda>i. (nxt ^^ j) (tab ! 0 ! i)) [0..<256]) [0..<8]"
proof -
  let ?f = "\<lambda>i tab. snd (fold (\<lambda>j (crc, tab). let crc' = nxt crc in (crc', tab[j := (tab ! j)[i := crc']]))
              [1..<8] (tab ! 0 ! i, tab))"
  have row: "length (tab ! j) = 256" if "j < 8" for j using assms that by simp
  have f: "?f i T = map (\<lambda>j. if 1 \<le> j then (T ! j)[i := (nxt ^^ j) (T ! 0 ! i)] else T ! j) [0..<8]" if "length T = 8" for i T
    using crc_rows_inner [of 7 T nxt i "T ! 0 ! i"] that by (auto simp del: upt_Suc)
  have "fold ?f [0..<m] tab =
      map (\<lambda>j. if j = 0 then tab ! 0 else map (\<lambda>i. if i < m then (nxt ^^ j) (tab ! 0 ! i) else tab ! j ! i) [0..<256]) [0..<8]"
    if "m \<le> 256" for m
    using that
  proof (induction m)
    case 0
    show ?case by (rule nth_equalityI) (auto simp: assms(1) row intro!: nth_equalityI)
  next
    case (Suc m)
    let ?T = "\<lambda>m. map (\<lambda>j. if j = 0 then tab ! 0 else map (\<lambda>i. if i < m then (nxt ^^ j) (tab ! 0 ! i) else tab ! j ! i) [0..<256]) [0..<8]"
    have "fold ?f [0..<Suc m] tab = ?f m (fold ?f [0..<m] tab)" by (simp only: upt_Suc le0 if_True fold_append fold_simps comp_apply)
    also have "fold ?f [0..<m] tab = ?T m" by (rule Suc.IH) (use Suc.prems in simp)
    also have "?f m (?T m) = map (\<lambda>j. if 1 \<le> j then (?T m ! j)[m := (nxt ^^ j) (?T m ! 0 ! m)] else ?T m ! j) [0..<8]"
      by (rule f) simp
    also have "\<dots> = ?T (Suc m)"
      using Suc.prems by (intro nth_equalityI) (auto simp: nth_list_update row less_Suc_eq intro!: nth_equalityI)
    finally show ?case .
  qed
  from this [of 256] show ?thesis
    unfolding crc_rows_def by (auto simp: row intro!: nth_equalityI)
qed

section \<open>What slicing by eight relies on\<close>

definition sliced_rows :: "(u32 \<Rightarrow> u32) \<Rightarrow> u32 list list" where
  "sliced_rows B = map (\<lambda>j. map (\<lambda>i. (B ^^ Suc j) (of_nat i)) [0..<256]) [0..<8]"

locale sliced_crc = byte_crc B "tabs ! 0" for B :: "u32 \<Rightarrow> u32" and tabs :: "u32 list list" +
  assumes rows: "tabs = sliced_rows B"
begin

lemma row_lookup: "j < 8 \<Longrightarrow> tabs ! j ! unat (x AND 255) = (B ^^ Suc j) (x AND 255)"
  using byte_index [of x] by (simp add: rows sliced_rows_def)

lemma step_byte: "DO_CRC tabs c b = B (c XOR ucast b)"
  by (simp add: DO_CRC_def update_byte xor.commute)

lemma pow_lin: "xlin (B ^^ n)"
  using lin by (rule xlin_funpow)

text \<open>Shifted bytes come down again: \<open>k\<close> byte steps undo a shift by \<open>k\<close> bytes.\<close>

lemma pow_shift:
  assumes "k \<le> 3" "x < 256"
  shows "(B ^^ k) (push_bit (8 * k) x) = x"
  using assms
proof (induction k)
  case (Suc k)
  have m: "(255 :: u32) = mask 8" by (simp add: mask_eq_exp_minus_1)
  have "take_bit 8 x = x" using Suc.prems by (simp add: take_bit_eq_mask less_mask_eq)
  then have hi: "n < 8" if "bit x n" for n using that by (metis bit_take_bit_iff)
  have "push_bit (8 * Suc k) x AND 255 = 0" unfolding m by (rule bit_eqI) (auto simp: bit_simps)
  then have "B (push_bit (8 * Suc k) x) = drop_bit 8 (push_bit (8 * Suc k) x)" by (rule shift)
  also have "\<dots> = push_bit (8 * k) x"
    by (rule bit_eqI) (use Suc.prems(1) in \<open>auto simp: bit_simps dest: hi\<close>)
  finally show ?case using Suc by (simp add: funpow_swap1)
qed simp

lemma bytes_of: "q = (q AND 255) XOR push_bit 8 (drop_bit 8 q AND 255) XOR push_bit 16 (drop_bit 16 q AND 255) XOR
    push_bit 24 (drop_bit 24 q AND 255)" for q :: u32
proof (rule bit_word_eqI)
  fix n
  assume "n < LENGTH(32)"
  then have n: "n < 32" by simp
  have m: "(255 :: u32) = mask 8" by (simp add: mask_eq_exp_minus_1)
  show "bit q n = bit ((q AND 255) XOR push_bit 8 (drop_bit 8 q AND 255) XOR push_bit 16 (drop_bit 16 q AND 255) XOR
    push_bit 24 (drop_bit 24 q AND 255)) n"
  proof -
    consider "n < 8" | "8 \<le> n" "n < 16" | "16 \<le> n" "n < 24" | "24 \<le> n" by linarith
    then show ?thesis unfolding m using n by cases (auto simp: bit_simps)
  qed
qed

lemma byte_lt: "x AND 255 < (256 :: u32)"
  using word_and_le1 [of x 255] by (simp add: order_le_less_trans)

lemma four_bytes:
  "(B ^^ (n + 4)) q = (B ^^ (n + 4)) (q AND 255) XOR (B ^^ (n + 3)) (drop_bit 8 q AND 255) XOR
     (B ^^ (n + 2)) (drop_bit 16 q AND 255) XOR (B ^^ (n + 1)) (drop_bit 24 q AND 255)"
proof -
  have s: "(B ^^ (n + 4)) (push_bit (8 * k) (x AND 255)) = (B ^^ (n + 4 - k)) (x AND 255)" if "k \<le> 3" for k x
  proof -
    have "(B ^^ (n + 4 - k + k)) (push_bit (8 * k) (x AND 255)) = (B ^^ (n + 4 - k)) ((B ^^ k) (push_bit (8 * k) (x AND 255)))"
      by (simp only: funpow_add comp_apply)
    moreover have "n + 4 - k + k = n + 4" using that by simp
    ultimately show ?thesis by (simp only: pow_shift [OF that byte_lt])
  qed
  have "(B ^^ (n + 4)) q = (B ^^ (n + 4)) ((q AND 255) XOR push_bit 8 (drop_bit 8 q AND 255) XOR push_bit 16 (drop_bit 16 q AND 255) XOR
    push_bit 24 (drop_bit 24 q AND 255))" using bytes_of [of q] by simp
  moreover have "n + 4 - 1 = n + 3" "n + 4 - 2 = n + 2" "n + 4 - 3 = n + 1" by simp_all
  ultimately show ?thesis using s [of 1 "drop_bit 8 q"] s [of 2 "drop_bit 16 q"] s [of 3 "drop_bit 24 q"]
    by (simp only: xlinD [OF pow_lin]) (simp add: ac_simps)
qed

lemma DO_CRC4_spec: "DO_CRC4 tabs q = (B ^^ 4) q"
  using four_bytes [of 0 q] by (simp add: DO_CRC4_def row_lookup eval_nat_numeral)

lemma DO_CRC8_spec: "DO_CRC8 tabs q = (B ^^ 8) q"
proof -
  have "DO_CRC8 tabs q = (B ^^ (4 + 4)) (q AND 255) XOR (B ^^ (4 + 3)) (drop_bit 8 q AND 255) XOR
     (B ^^ (4 + 2)) (drop_bit 16 q AND 255) XOR (B ^^ (4 + 1)) (drop_bit 24 q AND 255)"
    unfolding DO_CRC8_def by (simp only: row_lookup) (simp add: row_lookup)
  also have "\<dots> = (B ^^ (4 + 4)) q" by (rule four_bytes [symmetric])
  finally show ?thesis by simp
qed

end

context sliced_crc
begin

lemma le32_steps: "(B ^^ 4) (c XOR le32 b0 b1 b2 b3) = B (B (B (B (c XOR ucast b0) XOR ucast b1) XOR ucast b2) XOR ucast b3)"
proof -
  have lt: "(ucast b :: u32) < 256" for b :: u8
    using unsigned_less [of b, where ?'a = nat] by (simp add: word_less_nat_alt unsigned_ucast_eq take_bit_nat_eq_self)
  have 1: "B (push_bit 8 (ucast b)) = ucast b" "B (B (push_bit 16 (ucast b))) = ucast b"
    "B (B (B (push_bit 24 (ucast b)))) = ucast b" for b :: u8
    using pow_shift [of 1 "ucast b"] pow_shift [of 2 "ucast b"] pow_shift [of 3 "ucast b"] lt [of b]
    by (simp_all add: eval_nat_numeral)
  have "(B ^^ 4) (c XOR le32 b0 b1 b2 b3) = B (B (B (B (c XOR le32 b0 b1 b2 b3))))"
    by (simp add: eval_nat_numeral)
  then show ?thesis by (simp only: le32_def xlinD [OF lin] 1 xor.assoc)
qed

lemma words_spec':
  "tab = tabs \<Longrightarrow> 8 * n \<le> length buf \<Longrightarrow>
   crc_words tab crc buf n = Inr (fold (\<lambda>b c. B (c XOR ucast b)) (take (8 * n) buf) crc, drop (8 * n) buf)"
proof (induction tab crc buf n rule: crc_words.induct)
  case (2 tab crc b0 b1 b2 b3 b4 b5 b6 b7 bs n)
  let ?q = "crc XOR le32 b0 b1 b2 b3"
  have "(B ^^ 4) ((B ^^ 4) ?q) = (B ^^ 8) ?q" by (simp flip: funpow_add [THEN fun_cong, unfolded comp_apply])
  then have "DO_CRC8 tabs ?q XOR DO_CRC4 tabs (le32 b4 b5 b6 b7) = (B ^^ 4) ((B ^^ 4) ?q XOR le32 b4 b5 b6 b7)"
    unfolding DO_CRC8_spec DO_CRC4_spec xlinD [OF pow_lin, of 4 "(B ^^ 4) ?q"] by (simp only:)
  moreover have "8 * Suc n = Suc (Suc (Suc (Suc (Suc (Suc (Suc (Suc (8 * n))))))))" by simp
  ultimately show ?case using 2 by (simp add: Let_def le32_steps del: mult_Suc_right)
qed auto

lemmas words_spec = words_spec' [OF refl]

lemma align_spec':
  "tab = tabs \<Longrightarrow> 0 < len \<Longrightarrow> len \<le> length buf \<Longrightarrow>
   \<exists>k. 0 < k \<and> k \<le> len \<and>
     crc_align tab addr crc buf len = Inr (fold (\<lambda>b c. B (c XOR ucast b)) (take k buf) crc, drop k buf, len - k)"
proof (induction tab addr crc buf len rule: crc_align.induct)
  case (2 tab addr crc b bs len)
  show ?case
  proof (cases "len - 1 \<noteq> 0 \<and> addr + 1 AND 3 \<noteq> 0")
    case True
    from True 2(4) have l: "0 < len - 1" "len - 1 \<le> length bs" by auto
    from 2(1) [OF refl refl refl True 2(2) l] obtain k where k: "0 < k" "k \<le> len - 1" "crc_align tab (addr + 1) (DO_CRC tab crc b) bs (len - 1) =
        Inr (fold (\<lambda>b c. B (c XOR ucast b)) (take k bs) (DO_CRC tab crc b), drop k bs, len - 1 - k)" by blast
    with True 2(2) show ?thesis by (intro exI [of _ "Suc k"]) (auto simp: Let_def step_byte)
  next
    case False
    with 2(2,3) show ?thesis by (intro exI [of _ 1]) (auto simp: Let_def step_byte)
  qed
qed auto

lemmas align_spec = align_spec' [OF refl]

lemma fold_take_drop: "k \<le> len \<Longrightarrow> fold f (take (len - k) (drop k xs)) (fold f (take k xs) s) = fold f (take len xs) s"
  by (metis comp_apply fold_append le_add_diff_inverse take_add)

lemma tail_spec:
  assumes "len \<le> length buf"
  shows "rbind (crc_words tabs crc buf (len div 8)) (\<lambda>(crc, buf). byte_loop (DO_CRC tabs) crc buf (len mod 8)) =
    Inr (fold (\<lambda>b c. B (c XOR ucast b)) (take len buf) crc)"
proof -
  have d: "8 * (len div 8) \<le> len" "len mod 8 = len - 8 * (len div 8)" by (simp_all add: minus_mult_div_eq_mod)
  show ?thesis
    using assms d fold_take_drop [OF d(1)] by (simp add: words_spec byte_loop_fold step_byte)
qed

lemma body_spec:
  assumes "len \<le> length buf"
  shows "crc32_body addr crc buf len tabs = Inr (fold (\<lambda>b c. B (c XOR ucast b)) (take len buf) crc)"
proof (cases "addr AND 3 \<noteq> 0 \<and> len \<noteq> 0")
  case True
  with align_spec [of len buf addr crc] assms obtain k where k: "k \<le> len"
    "crc_align tabs addr crc buf len = Inr (fold (\<lambda>b c. B (c XOR ucast b)) (take k buf) crc, drop k buf, len - k)" by auto
  then show ?thesis using True assms tail_spec [of "len - k" "drop k buf"]
    by (simp add: crc32_body_def Let_def fold_take_drop)
next
  case False
  then show ?thesis using tail_spec [OF assms] by (auto simp: crc32_body_def Let_def)
qed

end

section \<open>The generated tables drive the body\<close>

definition rows_wf :: "u32 list list \<Rightarrow> bool" where
  "rows_wf tab \<longleftrightarrow> length tab = 8 \<and> list_all (\<lambda>r. length r = 256) tab"

lemma crc_rows_step:
  assumes "rows_wf tab" "length row = 256"
  shows "crc_rows nxt (tab[0 := row]) = map (\<lambda>j. map (\<lambda>i. (nxt ^^ j) (row ! i)) [0..<256]) [0..<8]"
proof -
  have "length r = 256" if "r \<in> set (tab[0 := row])" for r
    using assms that set_update_subset_insert [of tab 0 row] by (auto simp: rows_wf_def list_all_iff)
  then show ?thesis using assms(1) by (subst crc_rows_spec) (auto simp: rows_wf_def)
qed

lemma fill_row0_wf: "rows_wf tab \<Longrightarrow> length ((tab ! 0)[0 := 0]) = 256"
  by (auto simp: rows_wf_def list_all_iff)

lemma crc32init_le_generic_spec:
  assumes "rows_wf tab"
  shows "crc32init_le_generic poly tab = sliced_rows (lsb_step poly ^^ 8)"
proof -
  let ?L = "lsb_step poly ^^ 8"
  let ?row = "map (\<lambda>i. ?L (of_nat i)) [0..<256]"
  have "lsb_fill poly (2 ^ 7) 1 ((tab ! 0)[0 := 0]) = ?row"
  proof (rule lsb_fill_spec)
    fix m :: nat
    assume m: "m < 256" "2 ^ Suc 7 dvd m"
    then have "m = 0" by (auto dest: dvd_imp_le)
    then show "(tab ! 0)[0 := 0] ! m = ?L (of_nat m)"
      using fill_row0_wf [OF assms] xlin_0 [OF xlin_funpow [OF lsb_step_xlin], of 8 poly] by simp
  qed (use fill_row0_wf [OF assms] in simp_all)
  then have row: "lsb_fill poly 128 1 ((tab ! 0)[0 := 0]) = ?row" by simp
  have u: "?L c = drop_bit 8 c XOR ?row ! unat (c AND 255)" for c
    by (rule byte_crc.update [OF byte_crc_lsb [OF _ refl]]) simp
  have nxt: "(\<lambda>crc. ?row ! unat (crc AND 0xff) XOR drop_bit 8 crc) = ?L"
    by (rule ext) (rule trans [OF xor.commute u [symmetric]])
  have "crc32init_le_generic poly tab = crc_rows ?L (tab[0 := ?row])"
    unfolding crc32init_le_generic_def row Let_def nxt ..
  also have "\<dots> = map (\<lambda>j. map (\<lambda>i. (?L ^^ j) (?row ! i)) [0..<256]) [0..<8]"
    by (rule crc_rows_step [OF assms]) (simp only: length_map length_upt diff_zero)
  also have "\<dots> = sliced_rows ?L"
    unfolding sliced_rows_def by (intro map_cong refl) (simp add: funpow_swap1)
  finally show ?thesis .
qed

lemma sliced_crcI:
  assumes "xlin B" "\<And>y. y AND 255 = 0 \<Longrightarrow> B y = drop_bit 8 y" "tabs = sliced_rows B"
  shows "sliced_crc B tabs"
  by unfold_locales (use assms in \<open>auto simp: sliced_rows_def\<close>)

lemma zero_rows_wf: "rows_wf zero_rows"
  by (simp add: rows_wf_def zero_rows_def list_all_iff)

interpretation crc32_tab: sliced_crc "lsb_step CRCPOLY_LE ^^ 8" crc32table_le
  by (rule sliced_crcI [OF xlin_funpow [OF lsb_step_xlin] byte_crc.shift [OF byte_crc_lsb [OF _ refl]]])
    (simp_all only: crc32table_le_def crc32init_le_def crc32init_le_generic_spec [OF zero_rows_wf], simp)

interpretation crc32c_tab: sliced_crc "lsb_step CRC32C_POLY_LE ^^ 8" crc32ctable_le
  by (rule sliced_crcI [OF xlin_funpow [OF lsb_step_xlin] byte_crc.shift [OF byte_crc_lsb [OF _ refl]]])
    (simp_all only: crc32ctable_le_def crc32cinit_le_def crc32init_le_generic_spec [OF zero_rows_wf], simp)

subsection \<open>Most significant bit first\<close>

lemma byte_position:
  assumes "n < LENGTH(32)"
  obtains (0) m where "m < 8" "n = m" | (1) m where "m < 8" "n = m + 8"
  | (2) m where "m < 8" "n = m + 16" | (3) m where "m < 8" "n = m + 24"
proof -
  consider "n < 8" | "8 \<le> n" "n < 16" | "16 \<le> n" "n < 24" | "24 \<le> n" "n < 32" using assms by fastforce
  then show ?thesis
  proof cases
    case 1 then show ?thesis by (intro that(1) [of n]) auto
  next
    case 2 then show ?thesis by (intro that(2) [of "n - 8"]) auto
  next
    case 3 then show ?thesis by (intro that(3) [of "n - 16"]) auto
  next
    case 4 then show ?thesis by (intro that(4) [of "n - 24"]) auto
  qed
qed

lemma bit_swab32:
  assumes "m < 8"
  shows "bit (swab32 x) m = bit x (m + 24)" "bit (swab32 x) (m + 8) = bit x (m + 16)"
    "bit (swab32 x) (m + 16) = bit x (m + 8)" "bit (swab32 x) (m + 24) = bit x m"
proof -
  have m: "(255 :: u32) = mask 8" "(0xff00 :: u32) = push_bit 8 (mask 8)" by (simp_all add: mask_eq_exp_minus_1)
  show "bit (swab32 x) m = bit x (m + 24)" "bit (swab32 x) (m + 8) = bit x (m + 16)"
    "bit (swab32 x) (m + 16) = bit x (m + 8)" "bit (swab32 x) (m + 24) = bit x m"
    unfolding swab32_def m using assms by (auto simp: bit_simps add.commute dest: bit_imp_le_length)
qed

lemma swab32_xlin: "xlin swab32"
  unfolding xlin_def
  by (intro allI bit_word_eqI) (erule byte_position; simp add: bit_swab32 bit_xor_iff)

lemma swab32_swab32 [simp]: "swab32 (swab32 x) = x"
  by (rule bit_word_eqI) (erule byte_position; simp add: bit_swab32)

lemma swab32_byte:
  assumes "\<And>n. 8 \<le> n \<Longrightarrow> \<not> bit x n"
  shows "swab32 x = push_bit 24 x"
  by (rule bit_word_eqI) (erule byte_position; simp add: bit_swab32 bit_push_bit_iff assms)

definition be_byte :: "u32 \<Rightarrow> u32" where
  "be_byte c = swab32 ((msb_step CRCPOLY_BE ^^ 8) (swab32 c))"

lemma be_byte_pow: "(be_byte ^^ n) c = swab32 (((msb_step CRCPOLY_BE ^^ 8) ^^ n) (swab32 c))"
  by (induction n) (simp_all add: be_byte_def)

lemma be_byte_xlin: "xlin be_byte"
  by (simp add: xlin_def be_byte_def xlinD [OF swab32_xlin] xlinD [OF xlin_funpow [OF msb_step_xlin]])

lemma be_byte_shift:
  assumes "y AND 255 = 0"
  shows "be_byte y = drop_bit 8 y"
proof -
  have m: "(255 :: u32) = mask 8" by (simp add: mask_eq_exp_minus_1)
  have lo: "\<not> bit y n" if "n < 8" for n
  proof
    assume "bit y n"
    then have "bit (y AND 255) n" unfolding m using that by (simp add: bit_simps)
    with assms show False by simp
  qed
  have hi: "\<not> bit (swab32 y) n" if "24 \<le> n" for n
  proof (cases "n < LENGTH(32)")
    case True
    then show ?thesis using that lo by (cases n rule: byte_position) (auto simp: bit_swab32)
  next
    case False
    then show ?thesis by (auto dest: bit_imp_le_length)
  qed
  have "(msb_step CRCPOLY_BE ^^ 8) (swab32 y) = push_bit 8 (swab32 y)"
    by (rule msb_step_shift) (use hi in auto)
  moreover have "swab32 (push_bit 8 (swab32 y)) = drop_bit 8 y"
  proof (rule bit_word_eqI)
    fix n
    assume "n < LENGTH(32)"
    then show "bit (swab32 (push_bit 8 (swab32 y))) n = bit (drop_bit 8 y) n"
      by (cases n rule: byte_position) (auto simp: bit_swab32 bit_push_bit_iff bit_drop_bit_eq add.commute dest: bit_imp_le_length)
  qed
  ultimately show ?thesis by (simp add: be_byte_def)
qed

lemma crc32init_be_spec:
  assumes "rows_wf tab"
  shows "crc32init_be tab = map (\<lambda>j. map (\<lambda>i. ((msb_step CRCPOLY_BE ^^ 8) ^^ Suc j) (push_bit 24 (of_nat i))) [0..<256]) [0..<8]"
proof -
  let ?M = "msb_step CRCPOLY_BE ^^ 8"
  let ?row = "map (\<lambda>i. ?M (push_bit 24 (of_nat i))) [0..<256]"
  have W: "LENGTH(32) - 8 = 24" "LENGTH(32) - 1 = 31" by simp_all
  have "msb_fill (2 ^ (LENGTH(32) - 1)) CRCPOLY_BE (2 ^ 0) 0x80000000 ((tab ! 0)[0 := 0]) =
      map (\<lambda>i. ?M (push_bit (LENGTH(32) - 8) (of_nat i))) [0..<256]"
  proof (rule msb_fill_spec)
    show "(tab ! 0)[0 := 0] ! m = ?M (push_bit (LENGTH(32) - 8) (of_nat m))" if "m < 2 ^ 0" for m
      using that fill_row0_wf [OF assms] xlin_0 [OF xlin_funpow [OF msb_step_xlin], of 8 CRCPOLY_BE] by simp
  qed (use fill_row0_wf [OF assms] in simp_all)
  then have row: "msb_fill 0x80000000 CRCPOLY_BE 1 0x80000000 ((tab ! 0)[0 := 0]) = ?row" unfolding W by simp
  have m: "(255 :: u32) = mask 8" by (simp add: mask_eq_exp_minus_1)
  have nxt: "(\<lambda>crc. ?row ! unat (drop_bit 24 crc AND 0xff) XOR push_bit 8 crc) = ?M"
  proof
    fix c :: u32
    have "drop_bit 24 c AND 0xff = drop_bit 24 c" unfolding m
      by (rule bit_eqI) (auto simp: bit_simps dest: bit_imp_le_length)
    moreover have "unat (drop_bit 24 c AND 0xff) < 256" by (rule crc32_tab.byte_index)
    ultimately have "?row ! unat (drop_bit 24 c AND 0xff) = ?M (push_bit 24 (drop_bit 24 c))" by simp
    moreover have "?M c = push_bit 8 c XOR ?M (push_bit 24 (drop_bit 24 c))" using msb_update [of CRCPOLY_BE c] unfolding W by simp
    ultimately show "?row ! unat (drop_bit 24 c AND 0xff) XOR push_bit 8 c = ?M c" by (simp only: xor.commute)
  qed
  have "crc32init_be tab = crc_rows ?M (tab[0 := ?row])"
    unfolding crc32init_be_def row Let_def nxt ..
  also have "\<dots> = map (\<lambda>j. map (\<lambda>i. (?M ^^ j) (?row ! i)) [0..<256]) [0..<8]"
    by (rule crc_rows_step [OF assms]) (simp only: length_map length_upt diff_zero)
  also have "\<dots> = map (\<lambda>j. map (\<lambda>i. (?M ^^ Suc j) (push_bit 24 (of_nat i))) [0..<256]) [0..<8]"
    by (intro map_cong refl) (simp add: funpow_swap1)
  finally show ?thesis .
qed

lemma crc32table_be_rows: "crc32table_be = sliced_rows be_byte"
proof -
  have "swab32 (((msb_step CRCPOLY_BE ^^ 8) ^^ Suc j) (push_bit 24 (of_nat i))) = (be_byte ^^ Suc j) (of_nat i)"
    if "i < 256" for i j
  proof -
    have "\<not> bit (of_nat i :: u32) n" if n: "8 \<le> n" for n
    proof -
      have "i < 2 ^ n" using \<open>i < 256\<close> power_increasing [OF n, of "2 :: nat"] by simp
      then have "\<not> bit i n" by (simp add: bit_iff_odd)
      then show ?thesis by (simp add: bit_simps)
    qed
    then have "swab32 (of_nat i) = push_bit 24 (of_nat i)" by (rule swab32_byte)
    then show ?thesis by (simp only: be_byte_pow)
  qed
  then have "map (map swab32) (crc32init_be zero_rows) = sliced_rows be_byte"
    unfolding crc32init_be_spec [OF zero_rows_wf] sliced_rows_def map_map comp_def by (intro map_cong refl) simp
  then show ?thesis by (simp only: crc32table_be_def)
qed

interpretation crc32be_tab: sliced_crc be_byte crc32table_be
  by (rule sliced_crcI [OF be_byte_xlin be_byte_shift crc32table_be_rows])

lemma be_fold: "swab32 (fold (\<lambda>b c. be_byte (c XOR ucast b)) bs (swab32 crc)) = crc_msb CRCPOLY_BE crc bs"
proof (induction bs arbitrary: crc)
  case Nil
  then show ?case by (simp add: crc_msb_def)
next
  case (Cons b bs)
  have "swab32 (ucast b :: u32) = push_bit 24 (ucast b)"
    by (rule swab32_byte) (auto simp: bit_simps dest: bit_imp_le_length)
  then have "be_byte (swab32 crc XOR ucast b) = swab32 ((msb_step CRCPOLY_BE ^^ 8) (crc XOR push_bit 24 (ucast b)))"
    by (simp add: be_byte_def xlinD [OF swab32_xlin])
  with Cons show ?case by (simp add: crc_msb_def)
qed

section \<open>Multiplication and the logarithmic shift\<close>

definition gacc :: "u32 \<Rightarrow> u32 \<Rightarrow> u32 \<Rightarrow> nat \<Rightarrow> u32" where
  "gacc P x y k = rec_nat (if bit x 0 then y else 0) (\<lambda>i a. lsb_step P a XOR (if bit x (Suc i) then y else 0)) k"

lemma gacc_simps:
  "gacc P x y 0 = (if bit x 0 then y else 0)"
  "gacc P x y (Suc k) = lsb_step P (gacc P x y k) XOR (if bit x (Suc k) then y else 0)"
  by (simp_all add: gacc_def)

lemma gf2_multiply_gacc: "gf2_multiply x y P = gacc P x y 31"
proof -
  let ?f = "\<lambda>(product, x). let product' = drop_bit 1 product XOR (if product AND 1 \<noteq> 0 then P else 0);
            x' = drop_bit 1 x in (product' XOR (if x' AND 1 \<noteq> 0 then y else 0), x')"
  have "(?f ^^ k) (if x AND 1 \<noteq> 0 then y else 0, x) = (gacc P x y k, drop_bit k x)" for k
  proof (induction k)
    case 0
    then show ?case by (simp only: funpow_0 gacc_simps and_1_bit drop_bit_0 id_apply)
  next
    case (Suc k)
    have "drop_bit 1 (drop_bit k x) AND 1 \<noteq> 0 \<longleftrightarrow> bit x (Suc k)"
      by (simp add: and_1_bit bit_drop_bit_eq)
    moreover have "drop_bit 1 (drop_bit k x) = drop_bit (Suc k) x" by simp
    ultimately show ?case
      unfolding funpow.simps comp_apply Suc by (simp only: split Let_def lsb_step_code gacc_simps)
  qed
  then show ?thesis by (simp only: gf2_multiply_def fst_conv)
qed

definition poly_one :: u32 where "poly_one = push_bit 31 1"

lemma bit_poly_one: "bit poly_one n \<longleftrightarrow> n = 31"
proof -
  have "bit poly_one n \<longleftrightarrow> 31 \<le> n \<and> n < 32 \<and> bit (1 :: u32) (n - 31)"
    unfolding poly_one_def bit_push_bit_iff by (auto dest: bit_imp_le_length)
  then show ?thesis by auto
qed

text \<open>
  The register \<open>2 ^ 31\<close> is the polynomial 1 and a step multiplies by the indeterminate: multiplying by the
  \<open>n\<close>-th power is \<open>n\<close> steps.
\<close>

lemma gacc_power:
  "k \<le> 31 \<Longrightarrow> gacc P x ((lsb_step P ^^ n) poly_one) k = (lsb_step P ^^ n) (push_bit (31 - k) (take_bit (Suc k) x))"
proof (induction k)
  case 0
  have "push_bit 31 (take_bit (Suc 0) x) = (if bit x 0 then poly_one else 0)"
    by (rule bit_word_eqI) (auto simp: bit_poly_one bit_simps bit_0)
  then show ?case using xlin_0 [OF xlin_funpow [OF lsb_step_xlin], of n P] by (simp add: gacc_simps)
next
  case (Suc k)
  let ?S = "lsb_step P ^^ n" and ?w = "push_bit (31 - k) (take_bit (Suc k) x)"
  have "\<not> bit ?w 0" using Suc.prems by (simp add: bit_simps)
  then have "lsb_step P ?w = drop_bit 1 ?w" by (simp add: lsb_step_def)
  moreover have "drop_bit 1 ?w XOR (if bit x (Suc k) then poly_one else 0) = push_bit (31 - Suc k) (take_bit (Suc (Suc k)) x)"
    by (rule bit_word_eqI) (use Suc.prems in \<open>auto simp: bit_poly_one bit_simps less_Suc_eq\<close>)
  moreover have "lsb_step P (?S ?w) = ?S (lsb_step P ?w)" by (simp add: funpow_swap1)
  moreover have "(if b then ?S poly_one else 0) = ?S (if b then poly_one else 0)" for b
    using xlin_0 [OF xlin_funpow [OF lsb_step_xlin], of n P] by simp
  ultimately show ?case
    using Suc by (simp only: gacc_simps Suc_leD simp_thms xlinD [OF xlin_funpow [OF lsb_step_xlin], symmetric])
qed

lemma gf2_multiply_power: "gf2_multiply x ((lsb_step P ^^ n) poly_one) P = (lsb_step P ^^ n) x"
proof -
  have "take_bit (Suc 31) x = x" by (rule bit_word_eqI) (auto simp: bit_simps)
  then show ?thesis using gacc_power [of 31 P x n] by (simp add: gf2_multiply_gacc)
qed

lemma shift_loop_spec:
  "0 < len \<Longrightarrow> shift_loop P crc ((lsb_step P ^^ n) poly_one) len = (lsb_step P ^^ (n * len)) crc"
proof (induction len arbitrary: crc n rule: less_induct)
  case (less len)
  let ?pw = "(lsb_step P ^^ n) poly_one"
  let ?crc = "if len mod 2 = 1 then (lsb_step P ^^ n) crc else crc"
  have sq: "gf2_multiply ?pw ?pw P = (lsb_step P ^^ (n + n)) poly_one"
    by (simp only: gf2_multiply_power funpow_add comp_apply)
  have crc: "(if len mod 2 = 1 then gf2_multiply crc ?pw P else crc) = ?crc" by (simp only: gf2_multiply_power)
  have c: "?crc = (lsb_step P ^^ (n * (len mod 2))) crc" by (cases "len mod 2 = 1") auto
  show ?case
  proof (cases "len div 2 = 0")
    case True
    then have "len = 1" using less.prems by auto
    then show ?thesis by (subst shift_loop.simps) (simp add: gf2_multiply_power)
  next
    case False
    have "shift_loop P crc ?pw len = shift_loop P ?crc ((lsb_step P ^^ (n + n)) poly_one) (len div 2)"
      by (subst shift_loop.simps) (simp only: Let_def crc sq False if_False)
    also have "\<dots> = (lsb_step P ^^ ((n + n) * (len div 2))) ?crc"
      by (rule less.IH) (use less.prems False in auto)
    also have "\<dots> = (lsb_step P ^^ ((n + n) * (len div 2) + n * (len mod 2))) crc"
      unfolding c funpow_add comp_apply ..
    also have "(n + n) * (len div 2) + n * (len mod 2) = n * (2 * (len div 2) + len mod 2)"
      by (simp only: distrib_left distrib_right mult.assoc mult_2)
    also have "2 * (len div 2) + len mod 2 = len" by simp
    finally show ?thesis .
  qed
qed

lemma crc32_generic_shift_spec: "crc32_generic_shift crc len P = (lsb_step P ^^ (8 * len)) crc"
proof -
  have one: "(lsb_step P ^^ 31) poly_one = 1"
  proof -
    have "(lsb_step P ^^ 31) poly_one = drop_bit 31 poly_one" by (rule lsb_step_shift) (simp add: bit_poly_one)
    then show ?thesis by (simp add: poly_one_def)
  qed
  have "P = (lsb_step P ^^ Suc 31) poly_one" unfolding funpow.simps comp_apply one by (simp add: lsb_step_def)
  then have P: "shift_loop P c P n = (lsb_step P ^^ (32 * n)) c" if "0 < n" for c n
    using shift_loop_spec [OF that, of P c 32] by simp
  have f: "(\<lambda>crc. drop_bit 1 crc XOR (if crc AND 1 \<noteq> 0 then P else 0)) = lsb_step P" by (rule ext) (rule lsb_step_code)
  have e: "32 * (len div 4) + 8 * (len mod 4) = 8 * len" by presburger
  show ?thesis
  proof (cases "len div 4 = 0")
    case True
    then have "len mod 4 = len" by (metis mod_less div_eq_0_iff zero_neq_numeral)
    with True show ?thesis unfolding crc32_generic_shift_def f by (simp add: Let_def)
  next
    case False
    then show ?thesis unfolding crc32_generic_shift_def f Let_def
      by (simp only: if_False P neq0_conv) (simp only: e flip: funpow_add [THEN fun_cong, unfolded comp_apply], simp)
  qed
qed

lemma crc_lsb_zeros: "crc_lsb P crc (replicate n 0) = (lsb_step P ^^ (8 * n)) crc"
proof (induction n arbitrary: crc)
  case 0
  then show ?case by (simp add: crc_lsb_def)
next
  case (Suc n)
  have "crc_lsb P crc (replicate (Suc n) 0) = (lsb_step P ^^ (8 * n)) ((lsb_step P ^^ 8) crc)"
    using Suc by (simp add: crc_lsb_def)
  also have "\<dots> = (lsb_step P ^^ (8 * n + 8)) crc" by (simp only: funpow_add comp_apply)
  finally show ?case by (simp add: add.commute)
qed

lemma crc_lsb_xor: "crc_lsb P (a XOR b) bs = crc_lsb P a (replicate (length bs) 0) XOR crc_lsb P b bs"
proof (induction bs arbitrary: a b)
  case Nil
  then show ?case by (simp add: crc_lsb_def)
next
  case (Cons x bs)
  have "(lsb_step P ^^ 8) (a XOR b XOR ucast x) = (lsb_step P ^^ 8) a XOR (lsb_step P ^^ 8) (b XOR ucast x)"
    by (simp only: xlinD [OF xlin_funpow [OF lsb_step_xlin]] xor.assoc)
  with Cons [of "(lsb_step P ^^ 8) a" "(lsb_step P ^^ 8) (b XOR ucast x)"] show ?case by (simp add: crc_lsb_def xor.assoc)
qed

section \<open>Properties\<close>

text \<open>
  C20: The routine that takes eight bytes at a time from its generated tables computes division one bit at
  a time, for every start value, length and alignment of the buffer: \<open>crc32_le\<close> and \<open>__crc32c_le\<close> least
  significant bit first, and \<open>crc32_be\<close>, which runs the same little-endian body on byte-swapped registers and
  tables, most significant bit first.
\<close>

theorem crc32_divides:
  assumes "len \<le> length buf"
  shows "crc32_le addr crc buf len = Inr (crc_lsb 0xEDB88320 crc (take len buf)) \<and>
    crc32c_le addr crc buf len = Inr (crc_lsb 0x82F63B78 crc (take len buf)) \<and>
    crc32_be addr crc buf len = Inr (crc_msb 0x04C11DB7 crc (take len buf))"
  using crc32_tab.body_spec [OF assms, of addr crc] crc32c_tab.body_spec [OF assms, of addr crc]
    crc32be_tab.body_spec [OF assms, of addr "swab32 crc"]
  by (simp add: crc32_le_def crc32c_le_def crc32_be_def crc32_le_generic_def crc32_be_generic_def be_fold crc_lsb_def
      flip: CRCPOLY_LE_def CRC32C_POLY_LE_def CRCPOLY_BE_def)

theorem crc32_divides_witness:
  "crc32_le 0x1003 0xFFFFFFFF (replicate 21 0x5A) 21 = Inr (crc_lsb 0xEDB88320 0xFFFFFFFF (replicate 21 0x5A))"
  using crc32_divides [of 21 "replicate 21 0x5A" "0x1003" "0xFFFFFFFF"] by (simp only: length_replicate take_replicate min.idem order_refl simp_thms)

text \<open>
  C21: \<open>crc32_generic_shift\<close>, which squares and multiplies polynomials, appends \<open>len\<close> zero bytes to the
  message; so the checksum of a concatenation follows from the checksums of its parts.
\<close>

theorem crc32_shift_appends_zeros:
  "crc32_generic_shift crc len P = crc_lsb P crc (replicate len 0) \<and>
   crc_lsb P crc (xs @ ys) = crc32_generic_shift (crc_lsb P crc xs) (length ys) P XOR crc_lsb P 0 ys"
proof -
  have "crc_lsb P crc (xs @ ys) = crc_lsb P (crc_lsb P crc xs XOR 0) ys" by (simp add: crc_lsb_def)
  then show ?thesis unfolding crc_lsb_xor by (simp add: crc32_generic_shift_spec crc_lsb_zeros)
qed

end
