(* ===== verification/BcmGpio.thy ===== *)
theory BcmGpio
  imports Gpio
begin

text \<open>
  The kernel's own driver of the same pins, \<^verbatim>\<open>arch/arm/mach-bcm2709/bcm2708_gpio.c\<close>: pin functions,
  levels and pulls, the interrupt chip and the catch-all handler. It works on the register block of theory
  \<open>Gpio\<close>, so its effects can be set against those of the drivers of this repository. The locale
  \<open>gpio_irq_bank\<close> adds the level and event registers to \<open>gpio_bank\<close>.
\<close>

section \<open>Registers\<close>

definition BCM2708_NR_GPIOS :: nat where "BCM2708_NR_GPIOS = 54"
definition GPIO_BANKS :: nat where "GPIO_BANKS = 2"
definition GPIO_IRQ_START :: nat where "GPIO_IRQ_START = 128 + 128"
definition GPIO_IRQS :: nat where "GPIO_IRQS = 32 * 5"
definition EINVAL :: int where "EINVAL = 22"
definition ENOMEM :: int where "ENOMEM = 12"

definition GPIOFSEL :: "nat \<Rightarrow> nat" where "GPIOFSEL x = 0x00 + x * 4"
definition GPIOSET :: "nat \<Rightarrow> nat" where "GPIOSET x = 0x1c + x * 4"
definition GPIOCLR :: "nat \<Rightarrow> nat" where "GPIOCLR x = 0x28 + x * 4"
definition GPIOLEV :: "nat \<Rightarrow> nat" where "GPIOLEV x = 0x34 + x * 4"
definition GPIOEDS :: "nat \<Rightarrow> nat" where "GPIOEDS x = 0x40 + x * 4"
definition GPIOREN :: "nat \<Rightarrow> nat" where "GPIOREN x = 0x4c + x * 4"
definition GPIOFEN :: "nat \<Rightarrow> nat" where "GPIOFEN x = 0x58 + x * 4"
definition GPIOHEN :: "nat \<Rightarrow> nat" where "GPIOHEN x = 0x64 + x * 4"
definition GPIOLEN :: "nat \<Rightarrow> nat" where "GPIOLEN x = 0x70 + x * 4"
definition GPIOAREN :: "nat \<Rightarrow> nat" where "GPIOAREN x = 0x7c + x * 4"
definition GPIOAFEN :: "nat \<Rightarrow> nat" where "GPIOAFEN x = 0x88 + x * 4"
definition GPIOUD :: "nat \<Rightarrow> nat" where "GPIOUD x = 0x94 + x * 4"
definition GPIOUDCLK :: "nat \<Rightarrow> nat" where "GPIOUDCLK x = 0x98 + x * 4"

datatype gpio_fsel = GPIO_FSEL_INPUT | GPIO_FSEL_OUTPUT | GPIO_FSEL_ALT5 | GPIO_FSEL_ALT_4
  | GPIO_FSEL_ALT0 | GPIO_FSEL_ALT1 | GPIO_FSEL_ALT2 | GPIO_FSEL_ALT3

fun fsel_code :: "gpio_fsel \<Rightarrow> u32" where
  "fsel_code GPIO_FSEL_INPUT = 0" | "fsel_code GPIO_FSEL_OUTPUT = 1"
| "fsel_code GPIO_FSEL_ALT5 = 2" | "fsel_code GPIO_FSEL_ALT_4 = 3"
| "fsel_code GPIO_FSEL_ALT0 = 4" | "fsel_code GPIO_FSEL_ALT1 = 5"
| "fsel_code GPIO_FSEL_ALT2 = 6" | "fsel_code GPIO_FSEL_ALT3 = 7"

record bcm2708_gpio =
  rising :: "u32 list"
  falling :: "u32 list"
  high :: "u32 list"
  low :: "u32 list"

section \<open>The gpio chip\<close>

definition bcm2708_set_function :: "'h mmio \<Rightarrow> nat \<Rightarrow> gpio_fsel \<Rightarrow> 'h \<Rightarrow> int \<times> 'h" where
  "bcm2708_set_function M offset function h =
     (let gpio_bank = offset div 10;
          gpio_field_offset = (offset - 10 * gpio_bank) * 3
      in if offset \<ge> BCM2708_NR_GPIOS then (- EINVAL, h)
         else let gpiodir = io_read M h (GPIOFSEL gpio_bank);
                  gpiodir = gpiodir AND NOT (push_bit gpio_field_offset 7);
                  gpiodir = gpiodir OR push_bit gpio_field_offset (fsel_code function)
              in (0, io_write M h (GPIOFSEL gpio_bank) gpiodir))"

definition bcm2708_gpio_dir_in :: "'h mmio \<Rightarrow> nat \<Rightarrow> 'h \<Rightarrow> int \<times> 'h" where
  "bcm2708_gpio_dir_in M offset h = bcm2708_set_function M offset GPIO_FSEL_INPUT h"

definition bcm2708_gpio_set :: "'h mmio \<Rightarrow> nat \<Rightarrow> s32 \<Rightarrow> 'h \<Rightarrow> 'h" where
  "bcm2708_gpio_set M offset val h =
     (let gpio_bank = offset div 32;
          gpio_field_offset = offset - 32 * gpio_bank
      in if offset \<ge> BCM2708_NR_GPIOS then h
         else if val \<noteq> 0 then io_write M h (GPIOSET gpio_bank) (push_bit gpio_field_offset 1)
         else io_write M h (GPIOCLR gpio_bank) (push_bit gpio_field_offset 1))"

definition bcm2708_gpio_dir_out :: "'h mmio \<Rightarrow> nat \<Rightarrow> s32 \<Rightarrow> 'h \<Rightarrow> int \<times> 'h" where
  "bcm2708_gpio_dir_out M offset val h =
     (let (ret, h') = bcm2708_set_function M offset GPIO_FSEL_OUTPUT h
      in (ret, if ret \<ge> 0 then bcm2708_gpio_set M offset val h' else h'))"

definition bcm2708_gpio_get :: "'h mmio \<Rightarrow> nat \<Rightarrow> 'h \<Rightarrow> u32" where
  "bcm2708_gpio_get M offset h =
     (let gpio_bank = offset div 32;
          gpio_field_offset = offset - 32 * gpio_bank
      in if offset \<ge> BCM2708_NR_GPIOS then 0
         else 1 AND drop_bit gpio_field_offset (io_read M h (GPIOLEV gpio_bank)))"

datatype bcm2708_gpio_pull = BCM2708_PULL_OFF | BCM2708_PULL_UP | BCM2708_PULL_DOWN

text \<open>The two delays of five microseconds lie between the writes.\<close>

definition bcm2708_gpio_setpull :: "'h mmio \<Rightarrow> nat \<Rightarrow> bcm2708_gpio_pull \<Rightarrow> 'h \<Rightarrow> int \<times> 'h" where
  "bcm2708_gpio_setpull M offset val h =
     (let gpio_bank = offset div 32;
          gpio_field_offset = offset - 32 * gpio_bank
      in if offset \<ge> BCM2708_NR_GPIOS then (- EINVAL, h)
         else let h = (case val of
                         BCM2708_PULL_UP \<Rightarrow> io_write M h (GPIOUD 0) 2
                       | BCM2708_PULL_DOWN \<Rightarrow> io_write M h (GPIOUD 0) 1
                       | BCM2708_PULL_OFF \<Rightarrow> io_write M h (GPIOUD 0) 0);
                  h = io_write M h (GPIOUDCLK gpio_bank) (push_bit gpio_field_offset 1);
                  h = io_write M h (GPIOUD 0) 0
              in (0, io_write M h (GPIOUDCLK gpio_bank) (push_bit gpio_field_offset 0)))"

section \<open>The interrupt chip\<close>

definition gpio_to_irq :: "nat \<Rightarrow> nat" where "gpio_to_irq x = x + GPIO_IRQ_START"
definition irq_to_gpio :: "nat \<Rightarrow> nat" where "irq_to_gpio x = x - GPIO_IRQ_START"

definition bcm2708_gpio_to_irq :: "nat \<Rightarrow> nat" where
  "bcm2708_gpio_to_irq gpio = gpio_to_irq gpio"

definition IRQ_TYPE_EDGE_RISING :: u32 where "IRQ_TYPE_EDGE_RISING = 1"
definition IRQ_TYPE_EDGE_FALLING :: u32 where "IRQ_TYPE_EDGE_FALLING = 2"
definition IRQ_TYPE_LEVEL_HIGH :: u32 where "IRQ_TYPE_LEVEL_HIGH = 4"
definition IRQ_TYPE_LEVEL_LOW :: u32 where "IRQ_TYPE_LEVEL_LOW = 8"

definition word_upd :: "u32 list \<Rightarrow> nat \<Rightarrow> (u32 \<Rightarrow> u32) \<Rightarrow> u32 list res" where
  "word_upd xs i f = rbind (arr_get xs i) (\<lambda>w. arr_set xs i (f w))"

text \<open>The four bits are cleared before the type is checked.\<close>

definition bcm2708_gpio_irq_set_type :: "nat \<Rightarrow> u32 \<Rightarrow> bcm2708_gpio \<Rightarrow> (int \<times> bcm2708_gpio) res" where
  "bcm2708_gpio_irq_set_type irq type g =
     (let gn = irq_to_gpio irq; gb = gn div 32; go = gn mod 32;
          clr = (\<lambda>w. w AND NOT (push_bit go 1));
          set = (\<lambda>t w. if type AND t \<noteq> 0 then w OR push_bit go 1 else w)
      in rbind (word_upd (rising g) gb clr) (\<lambda>r.
         rbind (word_upd (falling g) gb clr) (\<lambda>f.
         rbind (word_upd (high g) gb clr) (\<lambda>hi.
         rbind (word_upd (low g) gb clr) (\<lambda>lo.
         if type AND NOT (IRQ_TYPE_EDGE_FALLING OR IRQ_TYPE_EDGE_RISING OR IRQ_TYPE_LEVEL_LOW OR IRQ_TYPE_LEVEL_HIGH) \<noteq> 0
         then Inr (- EINVAL, \<lparr>rising = r, falling = f, high = hi, low = lo\<rparr>)
         else rbind (word_upd r gb (set IRQ_TYPE_EDGE_RISING)) (\<lambda>r.
              rbind (word_upd f gb (set IRQ_TYPE_EDGE_FALLING)) (\<lambda>f.
              rbind (word_upd hi gb (set IRQ_TYPE_LEVEL_HIGH)) (\<lambda>hi.
              rbind (word_upd lo gb (set IRQ_TYPE_LEVEL_LOW)) (\<lambda>lo.
              Inr (0, \<lparr>rising = r, falling = f, high = hi, low = lo\<rparr>))))))))))"

definition bcm2708_gpio_irq_mask :: "'h mmio \<Rightarrow> nat \<Rightarrow> 'h \<Rightarrow> 'h" where
  "bcm2708_gpio_irq_mask M irq h =
     (let gn = irq_to_gpio irq; gb = gn div 32;
          rising = io_read M h (GPIOREN gb);
          falling = io_read M h (GPIOFEN gb);
          high = io_read M h (GPIOHEN gb);
          low = io_read M h (GPIOLEN gb);
          gn = gn mod 32;
          h = io_write M h (GPIOREN gb) (rising AND NOT (push_bit gn 1));
          h = io_write M h (GPIOFEN gb) (falling AND NOT (push_bit gn 1));
          h = io_write M h (GPIOHEN gb) (high AND NOT (push_bit gn 1))
      in io_write M h (GPIOLEN gb) (low AND NOT (push_bit gn 1)))"

text \<open>One of the four branches of \<open>bcm2708_gpio_irq_unmask\<close>.\<close>

definition enable_bit :: "u32 \<Rightarrow> nat \<Rightarrow> u32 \<Rightarrow> u32" where
  "enable_bit wanted go w =
     (if wanted AND push_bit go 1 \<noteq> 0 then w OR push_bit go 1 else w AND NOT (push_bit go 1))"

definition bcm2708_gpio_irq_unmask :: "'h mmio \<Rightarrow> nat \<Rightarrow> bcm2708_gpio \<Rightarrow> 'h \<Rightarrow> 'h res" where
  "bcm2708_gpio_irq_unmask M irq g h =
     (let gn = irq_to_gpio irq; gb = gn div 32; go = gn mod 32;
          rising_w = io_read M h (GPIOREN gb);
          falling_w = io_read M h (GPIOFEN gb);
          high_w = io_read M h (GPIOHEN gb);
          low_w = io_read M h (GPIOLEN gb)
      in rbind (arr_get (rising g) gb) (\<lambda>r.
         let h = io_write M h (GPIOREN gb) (enable_bit r go rising_w) in
         rbind (arr_get (falling g) gb) (\<lambda>f.
         let h = io_write M h (GPIOFEN gb) (enable_bit f go falling_w) in
         rbind (arr_get (high g) gb) (\<lambda>hi.
         let h = io_write M h (GPIOHEN gb) (enable_bit hi go high_w) in
         rbind (arr_get (low g) gb) (\<lambda>lo.
         Inr (io_write M h (GPIOLEN gb) (enable_bit lo go low_w)))))))"

text \<open>
  The catch-all handler. \<open>handle\<close> is \<open>ipipe_handle_demuxed_irq\<close>, whatever it does to the hardware; the
  events record the order of acknowledgements and of handled interrupts.
\<close>

datatype irq_event = Ack nat | Handled nat

definition irq_one :: "'h mmio \<Rightarrow> (nat \<Rightarrow> 'h \<Rightarrow> 'h) \<Rightarrow> nat \<Rightarrow> u32 \<Rightarrow> nat \<Rightarrow> irq_event list \<times> 'h \<Rightarrow> irq_event list \<times> 'h" where
  "irq_one M handle bank level_bits i = (\<lambda>(ev, h).
     let gpio = i + bank * 32;
         edge = (level_bits AND push_bit i 1 = 0);
         (ev, h) = (if edge then (ev @ [Ack gpio], io_write M h (GPIOEDS bank) (push_bit i 1)) else (ev, h));
         (ev, h) = (ev @ [Handled (gpio_to_irq gpio)], handle (gpio_to_irq gpio) h)
     in if edge then (ev, h) else (ev @ [Ack gpio], io_write M h (GPIOEDS bank) (push_bit i 1)))"

definition irq_bank :: "'h mmio \<Rightarrow> (nat \<Rightarrow> 'h \<Rightarrow> 'h) \<Rightarrow> bcm2708_gpio \<Rightarrow> nat \<Rightarrow> irq_event list \<times> 'h \<Rightarrow> (irq_event list \<times> 'h) res" where
  "irq_bank M handle g bank = (\<lambda>(ev, h).
     let edsr = io_read M h (GPIOEDS bank) in
     rbind (arr_get (high g) bank) (\<lambda>hi.
     rbind (arr_get (low g) bank) (\<lambda>lo.
     Inr (fold (irq_one M handle bank (hi OR lo)) (filter (bit edsr) [0..<32]) (ev, h)))))"

definition bcm2708_gpio_interrupt :: "'h mmio \<Rightarrow> (nat \<Rightarrow> 'h \<Rightarrow> 'h) \<Rightarrow> bcm2708_gpio \<Rightarrow> 'h \<Rightarrow> (irq_event list \<times> 'h) res" where
  "bcm2708_gpio_interrupt M handle g h =
     rbind (irq_bank M handle g 0 ([], h)) (\<lambda>s. irq_bank M handle g 1 s)"

section \<open>Probe and remove\<close>

record gpio_drv =
  drvdata :: "bcm2708_gpio option"
  chip_irqs :: "nat list"
  chip_added :: bool

definition zero_irqs :: bcm2708_gpio where
  "zero_irqs = \<lparr>rising = [0, 0], falling = [0, 0], high = [0, 0], low = [0, 0]\<rparr>"

definition probe_bank :: "'h mmio \<Rightarrow> nat \<Rightarrow> 'h \<Rightarrow> 'h" where
  "probe_bank M bank h =
     (let h = io_write M h (GPIOREN bank) 0;
          h = io_write M h (GPIOFEN bank) 0;
          h = io_write M h (GPIOHEN bank) 0;
          h = io_write M h (GPIOLEN bank) 0;
          h = io_write M h (GPIOAREN bank) 0;
          h = io_write M h (GPIOAFEN bank) 0
      in io_write M h (GPIOEDS bank) (NOT 0))"

definition bcm2708_gpio_irq_init :: "gpio_drv \<Rightarrow> gpio_drv" where
  "bcm2708_gpio_irq_init d = d\<lparr>chip_irqs := [GPIO_IRQ_START..<GPIO_IRQ_START + GPIO_IRQS]\<rparr>"

definition bcm2708_gpio_probe :: "'h mmio \<Rightarrow> bool \<Rightarrow> int \<Rightarrow> gpio_drv \<Rightarrow> 'h \<Rightarrow> int \<times> gpio_drv \<times> 'h" where
  "bcm2708_gpio_probe M kzalloc_ok gpiochip_add d h =
     (if \<not> kzalloc_ok then (- ENOMEM, d, h)
      else let d = d\<lparr>drvdata := Some zero_irqs\<rparr>;
               h = fold (probe_bank M) [0..<GPIO_BANKS] h;
               d = bcm2708_gpio_irq_init d;
               err = gpiochip_add
           in (err, d\<lparr>chip_added := (err = 0)\<rparr>, h))"

definition bcm2708_gpio_remove :: "gpio_drv \<Rightarrow> int \<times> gpio_drv" where
  "bcm2708_gpio_remove d = (0, d\<lparr>chip_added := False, drvdata := None\<rparr>)"

section \<open>The pins\<close>

lemma fsel_code_bits: "bit (fsel_code f) n \<Longrightarrow> n < 3"
proof -
  assume b: "bit (fsel_code f) n"
  have "take_bit 3 (fsel_code f) = fsel_code f" by (cases f) simp_all
  with b show "n < 3" by (metis bit_take_bit_iff)
qed

lemma pin_function_set_field:
  assumes "fs' = fs(p div 10 := fs (p div 10) AND NOT (push_bit (3 * (p mod 10)) 7) OR push_bit (3 * (p mod 10)) (fsel_code f))"
  shows "pin_function fs' q = (if q = p then fsel_code f else pin_function fs q)"
proof (rule bit_eqI)
  fix n
  have seven: "(7::u32) = mask 3"
    by (simp add: mask_eq_exp_minus_1)
  have w: "n < 3 \<Longrightarrow> 3 * (p mod 10) \<le> 3 * (q mod 10) + n \<and> 3 * (q mod 10) + n - 3 * (p mod 10) < 3
      \<longleftrightarrow> q mod 10 = p mod 10"
    by (rule field_window)
  have l: "n < 3 \<Longrightarrow> 3 * (q mod 10) + n < LENGTH(32)"
    using mod_less_divisor [of 10 q] by simp
  show "bit (pin_function fs' q) n = bit (if q = p then fsel_code f else pin_function fs q) n"
    using same_pin [of q p] w l fsel_code_bits [of f]
    unfolding assms seven by (auto simp: bit_pin_function bit_simps)
qed

lemma pin_latch_write:
  assumes "p < 64"
  shows "pin_latch (lt(p div 32 := lt (p div 32) OR push_bit (p - 32 * (p div 32)) 1)) q = (q = p \<or> pin_latch lt q)"
    "pin_latch (lt(p div 32 := lt (p div 32) AND NOT (push_bit (p - 32 * (p div 32)) 1))) q = (q \<noteq> p \<and> pin_latch lt q)"
proof -
  have p: "p - 32 * (p div 32) = p mod 32" by (simp add: minus_mult_div_eq_mod)
  have same: "q div 32 = p div 32 \<Longrightarrow> q mod 32 = p mod 32 \<Longrightarrow> q = p" by (metis div_mult_mod_eq)
  show "pin_latch (lt(p div 32 := lt (p div 32) OR push_bit (p - 32 * (p div 32)) 1)) q = (q = p \<or> pin_latch lt q)"
    "pin_latch (lt(p div 32 := lt (p div 32) AND NOT (push_bit (p - 32 * (p div 32)) 1))) q = (q \<noteq> p \<and> pin_latch lt q)"
    unfolding p using same by (auto simp: pin_latch_def bit_simps)
qed

text \<open>
  The level registers show the latch of a pin that is an output; the interrupt-enable registers of both
  banks are plain storage.
\<close>

definition irq_regs :: "nat set" where
  "irq_regs = (\<Union>b \<in> {0, 1}. {GPIOREN b, GPIOFEN b, GPIOHEN b, GPIOLEN b})"

locale gpio_irq_bank = gpio_bank M fsel latch
  for M :: "'h mmio" and fsel :: "'h \<Rightarrow> nat \<Rightarrow> u32" and latch :: "'h \<Rightarrow> nat \<Rightarrow> u32" +
  fixes reg :: "'h \<Rightarrow> nat \<Rightarrow> u32"
  assumes reg_read: "r \<in> irq_regs \<Longrightarrow> io_read M h r = reg h r"
    and reg_write: "r \<in> irq_regs \<Longrightarrow> reg (io_write M h r v) = (reg h)(r := v)"
    and lev_read: "p < 54 \<Longrightarrow> pin_function (fsel h) p = 1 \<Longrightarrow>
        bit (io_read M h (GPIOLEV (p div 32))) (p mod 32) = pin_latch (latch h) p"
begin

lemma set_function_spec:
  assumes "p < 54"
  shows "\<exists>h'. bcm2708_set_function M p f h = (0, h') \<and> latch h' = latch h \<and>
    (\<forall>q. pin_function (fsel h') q = (if q = p then fsel_code f else pin_function (fsel h) q))"
proof -
  have i: "p div 10 < 6" using assms by auto
  have e: "(p - 10 * (p div 10)) * 3 = 3 * (p mod 10)" by (simp add: minus_mult_div_eq_mod)
  let ?w = "fsel h (p div 10) AND NOT (push_bit (3 * (p mod 10)) 7) OR push_bit (3 * (p mod 10)) (fsel_code f)"
  let ?h = "io_write M h (4 * (p div 10)) ?w"
  have "bcm2708_set_function M p f h = (0, ?h)"
    using assms i unfolding bcm2708_set_function_def Let_def e
    by (simp add: BCM2708_NR_GPIOS_def GPIOFSEL_def fsel_read mult.commute)
  moreover have "pin_function (fsel ?h) q = (if q = p then fsel_code f else pin_function (fsel h) q)" for q
    by (rule pin_function_set_field) (simp add: fsel_write [OF i])
  ultimately show ?thesis using fsel_write_latch [OF i] by blast
qed

lemma set_spec:
  assumes "p < 54"
  shows "fsel (bcm2708_gpio_set M p v h) = fsel h"
    "pin_latch (latch (bcm2708_gpio_set M p v h)) q = (if q = p then v \<noteq> 0 else pin_latch (latch h) q)"
proof -
  have b: "p div 32 < 2" "p < 64" using assms by auto
  note w = set_write [OF b(1)] clr_write [OF b(1)] set_write_fsel [OF b(1)] clr_write_fsel [OF b(1)]
  have a: "GPIOSET (p div 32) = 28 + 4 * (p div 32)" "GPIOCLR (p div 32) = 40 + 4 * (p div 32)"
    by (simp_all add: GPIOSET_def GPIOCLR_def)
  show "fsel (bcm2708_gpio_set M p v h) = fsel h"
    "pin_latch (latch (bcm2708_gpio_set M p v h)) q = (if q = p then v \<noteq> 0 else pin_latch (latch h) q)"
    using assms pin_latch_write [OF b(2)] unfolding bcm2708_gpio_set_def Let_def a
    by (auto simp: BCM2708_NR_GPIOS_def w simp del: push_bit_of_1)
qed

lemma get_output:
  assumes "p < 54" "pin_function (fsel h) p = 1"
  shows "bcm2708_gpio_get M p h = of_bool (pin_latch (latch h) p)"
proof -
  have e: "p - 32 * (p div 32) = p mod 32" by (simp add: minus_mult_div_eq_mod)
  have "1 AND drop_bit (p mod 32) w = of_bool (bit w (p mod 32))" for w :: u32
    by (simp add: one_and_eq bit_iff_odd_drop_bit odd_iff_mod_2_eq_one)
  then show ?thesis
    using assms lev_read [OF assms] by (simp add: bcm2708_gpio_get_def BCM2708_NR_GPIOS_def Let_def e)
qed

text \<open>Masking and unmasking move one bit of the four enable registers.\<close>

lemma irq_regs_bank: "b < 2 \<Longrightarrow> {GPIOREN b, GPIOFEN b, GPIOHEN b, GPIOLEN b} \<subseteq> irq_regs"
  by (auto simp: irq_regs_def less_2_cases_iff)

lemma regs_distinct:
  "GPIOREN b \<noteq> GPIOFEN b" "GPIOREN b \<noteq> GPIOHEN b" "GPIOREN b \<noteq> GPIOLEN b" "GPIOFEN b \<noteq> GPIOHEN b"
  "GPIOFEN b \<noteq> GPIOLEN b" "GPIOHEN b \<noteq> GPIOLEN b"
  by (simp_all add: GPIOREN_def GPIOFEN_def GPIOHEN_def GPIOLEN_def)

lemma mask_regs:
  assumes "n < 54"
  defines "b \<equiv> n div 32" and "m \<equiv> NOT (push_bit (n mod 32) 1)"
  shows "reg (bcm2708_gpio_irq_mask M (gpio_to_irq n) h) =
    (reg h)(GPIOREN b := reg h (GPIOREN b) AND m, GPIOFEN b := reg h (GPIOFEN b) AND m,
            GPIOHEN b := reg h (GPIOHEN b) AND m, GPIOLEN b := reg h (GPIOLEN b) AND m)"
proof -
  have b: "b < 2" using assms by (auto simp: b_def)
  have n: "irq_to_gpio (gpio_to_irq n) = n" by (simp add: irq_to_gpio_def gpio_to_irq_def)
  have r: "GPIOREN b \<in> irq_regs" "GPIOFEN b \<in> irq_regs" "GPIOHEN b \<in> irq_regs" "GPIOLEN b \<in> irq_regs"
    using irq_regs_bank [OF b] by auto
  show ?thesis
    unfolding bcm2708_gpio_irq_mask_def Let_def n b_def [symmetric] m_def [symmetric]
    by (simp add: reg_read [OF r(1)] reg_read [OF r(2)] reg_read [OF r(3)] reg_read [OF r(4)]
        reg_write [OF r(1)] reg_write [OF r(2)] reg_write [OF r(3)] reg_write [OF r(4)])
qed

lemma unmask_regs:
  assumes "n < 54" "length (rising g) = 2" "length (falling g) = 2" "length (high g) = 2" "length (low g) = 2"
  defines "b \<equiv> n div 32" and "e \<equiv> (\<lambda>ws. enable_bit (ws ! (n div 32)) (n mod 32))"
  shows "\<exists>h'. bcm2708_gpio_irq_unmask M (gpio_to_irq n) g h = Inr h' \<and> reg h' =
    (reg h)(GPIOREN b := e (rising g) (reg h (GPIOREN b)), GPIOFEN b := e (falling g) (reg h (GPIOFEN b)),
            GPIOHEN b := e (high g) (reg h (GPIOHEN b)), GPIOLEN b := e (low g) (reg h (GPIOLEN b)))"
proof -
  have b: "b < 2" using assms by (auto simp: b_def)
  have n: "irq_to_gpio (gpio_to_irq n) = n" by (simp add: irq_to_gpio_def gpio_to_irq_def)
  have r: "GPIOREN b \<in> irq_regs" "GPIOFEN b \<in> irq_regs" "GPIOHEN b \<in> irq_regs" "GPIOLEN b \<in> irq_regs"
    using irq_regs_bank [OF b] by auto
  show ?thesis
    unfolding bcm2708_gpio_irq_unmask_def Let_def n b_def [symmetric]
    using b assms(2-5) by (simp add: reg_read [OF r(1)] reg_read [OF r(2)] reg_read [OF r(3)] reg_read [OF r(4)]
        reg_write [OF r(1)] reg_write [OF r(2)] reg_write [OF r(3)] reg_write [OF r(4)] e_def b_def [symmetric])
qed

end

interpretation bcm_irq: gpio_irq_bank bcm_mmio bg_fsel bg_latch bg_other
proof (unfold_locales, goal_cases)
  case (1 r h)
  then show ?case
    by (auto simp: irq_regs_def bcm_mmio_def bcm_read_def GPIOREN_def GPIOFEN_def GPIOHEN_def GPIOLEN_def)
next
  case (2 r h v)
  then show ?case
    by (auto simp: irq_regs_def bcm_mmio_def bcm_write_def GPIOREN_def GPIOFEN_def GPIOHEN_def GPIOLEN_def)
next
  case (3 p h)
  then have "p div 32 = 0 \<or> p div 32 = 1" by auto
  then show ?case by (auto simp: bcm_mmio_def bcm_read_def GPIOLEV_def pin_latch_def)
qed

section \<open>Interrupt types\<close>

definition irqs_wf :: "bcm2708_gpio \<Rightarrow> bool" where
  "irqs_wf g \<longleftrightarrow> length (rising g) = 2 \<and> length (falling g) = 2 \<and> length (high g) = 2 \<and> length (low g) = 2"

lemma word_upd_simps [simp]:
  "i < length xs \<Longrightarrow> word_upd xs i f = Inr (xs[i := f (xs ! i)])"
  "length xs \<le> i \<Longrightarrow> word_upd xs i f = Inl OutOfBounds"
  by (simp_all add: word_upd_def)

lemma set_type_spec:
  assumes "irqs_wf g" "n < 64" "type < 16"
  shows "\<exists>g'. bcm2708_gpio_irq_set_type (gpio_to_irq n) type g = Inr (0, g') \<and> irqs_wf g' \<and>
    bit (rising g' ! (n div 32)) (n mod 32) = bit type 0 \<and> bit (falling g' ! (n div 32)) (n mod 32) = bit type 1 \<and>
    bit (high g' ! (n div 32)) (n mod 32) = bit type 2 \<and> bit (low g' ! (n div 32)) (n mod 32) = bit type 3"
proof -
  have n: "irq_to_gpio (gpio_to_irq n) = n" by (simp add: irq_to_gpio_def gpio_to_irq_def)
  have b: "n div 32 < 2" using assms(2) by auto
  have "take_bit 4 type = type" using assms(3) by (simp add: take_bit_eq_mask less_mask_eq)
  moreover have "(2 OR 1 OR 8 OR 4 :: u32) = mask 4" by (simp add: mask_eq_exp_minus_1)
  ultimately have "type AND NOT (2 OR 1 OR 8 OR 4) = 0" by (metis take_bit_eq_mask and.assoc and.right_neutral bit.conj_cancel_right and_zero_eq)
  then have ok: "type AND NOT (IRQ_TYPE_EDGE_FALLING OR IRQ_TYPE_EDGE_RISING OR IRQ_TYPE_LEVEL_LOW OR IRQ_TYPE_LEVEL_HIGH) = 0"
    by (simp only: IRQ_TYPE_EDGE_FALLING_def IRQ_TYPE_EDGE_RISING_def IRQ_TYPE_LEVEL_LOW_def IRQ_TYPE_LEVEL_HIGH_def)
  have t: "type AND IRQ_TYPE_EDGE_RISING \<noteq> 0 \<longleftrightarrow> bit type 0" "type AND IRQ_TYPE_EDGE_FALLING \<noteq> 0 \<longleftrightarrow> bit type 1"
    "type AND IRQ_TYPE_LEVEL_HIGH \<noteq> 0 \<longleftrightarrow> bit type 2" "type AND IRQ_TYPE_LEVEL_LOW \<noteq> 0 \<longleftrightarrow> bit type 3"
    using and_exp_eq_0_iff_not_bit [of type 0] and_exp_eq_0_iff_not_bit [of type 1] and_exp_eq_0_iff_not_bit [of type 2]
      and_exp_eq_0_iff_not_bit [of type 3]
    by (simp_all add: IRQ_TYPE_EDGE_FALLING_def IRQ_TYPE_EDGE_RISING_def IRQ_TYPE_LEVEL_LOW_def IRQ_TYPE_LEVEL_HIGH_def)
  have m: "n mod 32 < 32" by simp
  have s: "bit (w AND NOT (push_bit (n mod 32) 1) OR push_bit (n mod 32) 1) (n mod 32)"
    "\<not> bit (w AND NOT (push_bit (n mod 32) 1)) (n mod 32)" for w :: u32 using m by (auto simp: bit_simps)
  show ?thesis
    using assms(1) b unfolding bcm2708_gpio_irq_set_type_def Let_def n ok t irqs_wf_def
    by (simp add: s del: push_bit_of_1)
qed

lemma enable_bit_spec:
  assumes "i < 32"
  shows "bit (enable_bit w i v) j = (if j = i then bit w i else bit v j)"
proof -
  have "w AND push_bit i 1 \<noteq> 0 \<longleftrightarrow> bit w i" by (simp add: and_exp_eq_0_iff_not_bit)
  then show ?thesis using assms by (auto simp: enable_bit_def bit_simps dest: bit_imp_le_length)
qed

section \<open>The order of acknowledgement\<close>

definition event_pin :: "irq_event \<Rightarrow> nat" where
  "event_pin e = (case e of Ack g \<Rightarrow> g | Handled i \<Rightarrow> irq_to_gpio i)"

definition pin_events :: "nat \<Rightarrow> u32 \<Rightarrow> nat \<Rightarrow> irq_event list" where
  "pin_events bank lb i =
     (if bit lb i then [Handled (gpio_to_irq (i + bank * 32)), Ack (i + bank * 32)]
      else [Ack (i + bank * 32), Handled (gpio_to_irq (i + bank * 32))])"

lemma irq_one_events:
  "\<exists>h'. irq_one M handle bank lb i (ev, h) =
     (ev @ pin_events bank lb i, h')"
proof -
  have "(lb AND push_bit i 1 = 0) = (\<not> bit lb i)" by (simp add: and_exp_eq_0_iff_not_bit)
  then show ?thesis unfolding irq_one_def by (auto simp: Let_def pin_events_def)
qed

lemma irq_fold_events:
  "\<exists>h'. fold (irq_one M handle bank lb) is (ev, h) =
     (ev @ concat (map (pin_events bank lb) is), h')"
proof (induction "is" arbitrary: ev h)
  case Nil
  then show ?case by simp
next
  case (Cons i "is")
  from irq_one_events [of M handle bank lb i ev h] obtain h1
    where 1: "irq_one M handle bank lb i (ev, h) = (ev @ pin_events bank lb i, h1)" by blast
  from Cons [of "ev @ pin_events bank lb i" h1] show ?case by (simp add: 1)
qed

lemma event_pin_irq [simp]: "event_pin (Ack g) = g" "event_pin (Handled (gpio_to_irq g)) = g"
  by (simp_all add: event_pin_def irq_to_gpio_def gpio_to_irq_def)

lemma filter_pin_events:
  assumes "distinct is"
  shows "filter (\<lambda>e. event_pin e = j + bank * 32)
      (concat (map (pin_events bank lb) is)) =
    (if j \<in> set is then pin_events bank lb j else [])"
  using assms by (induction "is") (auto simp: pin_events_def)

section \<open>Properties\<close>

text \<open>
  The kernel driver's \<open>direction_output\<close> makes any of the 54 pins an output in one step, whatever function
  it had, drives it to the asked level in either bank, reads that level back and touches no other pin; an
  offset of 54 or more is refused with \<open>-EINVAL\<close> and no register is written.
\<close>

theorem bcm_dir_out:
  assumes "gpio_irq_bank M fsel latch reg"
  shows "(p \<ge> 54 \<longrightarrow> bcm2708_gpio_dir_out M p v h = (-22, h)) \<and>
    (p < 54 \<longrightarrow> (\<exists>h'. bcm2708_gpio_dir_out M p v h = (0, h') \<and> bcm2708_gpio_get M p h' = of_bool (v \<noteq> 0) \<and>
      (\<forall>q. pin_function (fsel h') q = (if q = p then 1 else pin_function (fsel h) q) \<and>
           pin_latch (latch h') q = (if q = p then v \<noteq> 0 else pin_latch (latch h) q))))"
proof (intro conjI impI)
  assume "p \<ge> 54"
  then show "bcm2708_gpio_dir_out M p v h = (-22, h)"
    by (simp add: bcm2708_gpio_dir_out_def bcm2708_set_function_def BCM2708_NR_GPIOS_def EINVAL_def Let_def)
next
  assume p: "p < 54"
  from gpio_irq_bank.set_function_spec [OF assms p, of GPIO_FSEL_OUTPUT h] obtain h1
    where 1: "bcm2708_set_function M p GPIO_FSEL_OUTPUT h = (0, h1)" "latch h1 = latch h"
      "\<And>q. pin_function (fsel h1) q = (if q = p then 1 else pin_function (fsel h) q)" by auto
  let ?h = "bcm2708_gpio_set M p v h1"
  note s = gpio_irq_bank.set_spec [OF assms p, of v h1]
  have f: "pin_function (fsel ?h) q = (if q = p then 1 else pin_function (fsel h) q)" for q by (simp add: s(1) 1(3))
  have l: "pin_latch (latch ?h) q = (if q = p then v \<noteq> 0 else pin_latch (latch h) q)" for q by (simp add: s(2) 1(2))
  have "bcm2708_gpio_get M p ?h = of_bool (v \<noteq> 0)"
    using gpio_irq_bank.get_output [OF assms p, of ?h] f [of p] l [of p] by simp
  with 1(1) f l show "\<exists>h'. bcm2708_gpio_dir_out M p v h = (0, h') \<and> bcm2708_gpio_get M p h' = of_bool (v \<noteq> 0) \<and>
      (\<forall>q. pin_function (fsel h') q = (if q = p then 1 else pin_function (fsel h) q) \<and>
           pin_latch (latch h') q = (if q = p then v \<noteq> 0 else pin_latch (latch h) q))"
    by (intro exI [of _ ?h]) (simp add: bcm2708_gpio_dir_out_def)
qed

theorem bcm_dir_out_witness:
  "bcm2708_gpio_dir_out bcm_mmio 60 1 bcm_reset = (-22, bcm_reset) \<and>
   (\<exists>h'. bcm2708_gpio_dir_out bcm_mmio 47 1 bcm_reset = (0, h') \<and> bcm2708_gpio_get bcm_mmio 47 h' = 1)"
  using bcm_dir_out [OF bcm_irq.gpio_irq_bank_axioms, of 60 1 bcm_reset] bcm_dir_out [OF bcm_irq.gpio_irq_bank_axioms, of 47 1 bcm_reset]
  by auto





text \<open>
  The probe routine registers interrupt numbers for 160 lines, but the trigger words cover 64: choosing a
  trigger for a registered interrupt of a line from 64 on writes outside them.
\<close>

theorem bcm_irq_set_type_oob:
  assumes "bcm2708_gpio_probe M True err d h = (r, d', h')" "64 \<le> n" "n < 160"
  shows "gpio_to_irq n \<in> set (chip_irqs d') \<and> drvdata d' = Some zero_irqs \<and>
    bcm2708_gpio_irq_set_type (gpio_to_irq n) type zero_irqs = Inl OutOfBounds"
proof -
  have d': "chip_irqs d' = [GPIO_IRQ_START..<GPIO_IRQ_START + GPIO_IRQS]" "drvdata d' = Some zero_irqs"
    using assms(1) by (auto simp: bcm2708_gpio_probe_def Let_def bcm2708_gpio_irq_init_def)
  have "irq_to_gpio (gpio_to_irq n) = n" by (simp add: irq_to_gpio_def gpio_to_irq_def)
  moreover have "2 \<le> n div 32" using assms(2) by simp
  ultimately have "bcm2708_gpio_irq_set_type (gpio_to_irq n) type zero_irqs = Inl OutOfBounds"
    by (simp add: bcm2708_gpio_irq_set_type_def Let_def zero_irqs_def)
  moreover have "gpio_to_irq n \<in> set (chip_irqs d')"
    unfolding d' set_upt using assms(2,3) by (simp add: gpio_to_irq_def GPIO_IRQS_def)
  ultimately show ?thesis using d'(2) by blast
qed

theorem bcm_irq_set_type_oob_witness:
  "\<exists>d' h'. bcm2708_gpio_probe bcm_mmio True 0 \<lparr>drvdata = None, chip_irqs = [], chip_added = False\<rparr> bcm_reset = (0, d', h') \<and>
     bcm2708_gpio_irq_set_type (gpio_to_irq 64) 1 zero_irqs = Inl OutOfBounds"
proof -
  obtain r d' h' where p: "bcm2708_gpio_probe bcm_mmio True 0 \<lparr>drvdata = None, chip_irqs = [], chip_added = False\<rparr> bcm_reset = (r, d', h')"
    using prod_cases3 by blast
  have "r = 0" using p by (auto simp: bcm2708_gpio_probe_def Let_def)
  with p bcm_irq_set_type_oob [OF p, of 64 1] show ?thesis by auto
qed

end
