(* ===== verification/Armctrl.thy ===== *)
theory Armctrl
  imports BcmGpio
begin

text \<open>
  The interrupt controller of the board, \<^verbatim>\<open>arch/arm/mach-bcm2709/armctrl.c\<close>: masking and unmasking a line, the
  translation of a device-tree interrupt specifier, wake-up sources and the initialisation that remaps
  the shortcut lines. Addresses are the physical addresses that \<open>__io_address\<close> takes; \<open>force_core\<close> and the
  number of online processors are arguments.
\<close>

section \<open>Lines and registers\<close>

definition ARM_IRQ1_BASE :: nat where "ARM_IRQ1_BASE = 0"
definition ARM_IRQ2_BASE :: nat where "ARM_IRQ2_BASE = 32"
definition ARM_IRQ0_BASE :: nat where "ARM_IRQ0_BASE = 64"
definition ARM_IRQ_LOCAL_BASE :: nat where "ARM_IRQ_LOCAL_BASE = 96"
definition FIQ_START :: nat where "FIQ_START = 128"
definition BCM2708_ALLOC_IRQS :: nat where "BCM2708_ALLOC_IRQS = 128 + 128 + 32 * 5 + 64"

definition INTERRUPT_JPEG :: nat where "INTERRUPT_JPEG = ARM_IRQ0_BASE + 10"
definition INTERRUPT_ARASANSDIO :: nat where "INTERRUPT_ARASANSDIO = ARM_IRQ0_BASE + 20"
definition IRQ_ARM_LOCAL_CNTPSIRQ :: nat where "IRQ_ARM_LOCAL_CNTPSIRQ = ARM_IRQ_LOCAL_BASE + 0"
definition IRQ_ARM_LOCAL_MAILBOX0 :: nat where "IRQ_ARM_LOCAL_MAILBOX0 = ARM_IRQ_LOCAL_BASE + 4"
definition IRQ_ARM_LOCAL_PMU_FAST :: nat where "IRQ_ARM_LOCAL_PMU_FAST = ARM_IRQ_LOCAL_BASE + 9"
definition IRQ_ARM_LOCAL_TIMER :: nat where "IRQ_ARM_LOCAL_TIMER = ARM_IRQ_LOCAL_BASE + 11"

definition ARM_BASE :: nat where "ARM_BASE = 0x3F000000 + 0xB000"
definition ARM_LOCAL_BASE :: nat where "ARM_LOCAL_BASE = 0x40000000"
definition ARM_IRQ_FAST :: nat where "ARM_IRQ_FAST = ARM_BASE + 0x20C"
definition ARM_LOCAL_GPU_INT_ROUTING :: nat where "ARM_LOCAL_GPU_INT_ROUTING = ARM_LOCAL_BASE + 0x00C"
definition ARM_LOCAL_PM_ROUTING_SET :: nat where "ARM_LOCAL_PM_ROUTING_SET = ARM_LOCAL_BASE + 0x010"
definition ARM_LOCAL_PM_ROUTING_CLR :: nat where "ARM_LOCAL_PM_ROUTING_CLR = ARM_LOCAL_BASE + 0x014"
definition ARM_LOCAL_TIMER_INT_CONTROL0 :: nat where "ARM_LOCAL_TIMER_INT_CONTROL0 = ARM_LOCAL_BASE + 0x040"

text \<open>
  \<open>INTERRUPT_VC_JPEG\<close>, \<open>_USB\<close>, \<open>_3D\<close>, \<open>_DMA2\<close>, \<open>_DMA3\<close>, \<open>_I2C\<close>, \<open>_SPI\<close>, \<open>_I2SPCM\<close>, \<open>_SDIO\<close>, \<open>_UART\<close> and
  \<open>_ARASANSDIO\<close>: the lines behind the shortcuts 74 to 84.
\<close>

definition remap_irqs :: "nat list" where
  "remap_irqs = [ARM_IRQ1_BASE + 7, ARM_IRQ1_BASE + 9, ARM_IRQ1_BASE + 10, ARM_IRQ1_BASE + 18, ARM_IRQ1_BASE + 19,
     ARM_IRQ2_BASE + 21, ARM_IRQ2_BASE + 22, ARM_IRQ2_BASE + 23, ARM_IRQ2_BASE + 24, ARM_IRQ2_BASE + 25, ARM_IRQ2_BASE + 30]"

definition disables :: "nat list" where
  "disables = [ARM_BASE + 0x21C, ARM_BASE + 0x220, ARM_BASE + 0x224, 0]"

definition enables :: "nat list" where
  "enables = [ARM_BASE + 0x210, ARM_BASE + 0x214, ARM_BASE + 0x218, 0]"

section \<open>Masking\<close>

text \<open>\<open>data\<close> is \<open>irq_get_chip_data(d->irq)\<close>. The mailbox lines do nothing: their loops are compiled out.\<close>

definition timer_control :: "'h mmio \<Rightarrow> (u32 \<Rightarrow> u32) \<Rightarrow> 'h \<Rightarrow> 'h" where
  "timer_control M f h =
     fold (\<lambda>i h. let a = ARM_LOCAL_TIMER_INT_CONTROL0 + 4 * i in io_write M h a (f (io_read M h a))) [0..<4] h"

definition armctrl_mask_irq :: "'h mmio \<Rightarrow> nat \<Rightarrow> u32 \<Rightarrow> 'h \<Rightarrow> 'h res" where
  "armctrl_mask_irq M irq data h =
     (if irq \<ge> FIQ_START then Inr (io_write M h ARM_IRQ_FAST 0)
      else if irq \<ge> IRQ_ARM_LOCAL_CNTPSIRQ \<and> irq < IRQ_ARM_LOCAL_CNTPSIRQ + 4 then
        rbind (shl32 1 (uint (data - of_nat IRQ_ARM_LOCAL_CNTPSIRQ))) (\<lambda>b.
        Inr (timer_control M (\<lambda>v. v AND NOT b) h))
      else if irq \<ge> IRQ_ARM_LOCAL_MAILBOX0 \<and> irq < IRQ_ARM_LOCAL_MAILBOX0 + 4 then Inr h
      else if irq \<ge> ARM_IRQ1_BASE \<and> irq < ARM_IRQ_LOCAL_BASE then
        rbind (arr_get disables (unat (drop_bit 5 data AND 3))) (\<lambda>a.
        Inr (io_write M h a (push_bit (unat (data AND 0x1f)) 1)))
      else if irq = IRQ_ARM_LOCAL_PMU_FAST then Inr (io_write M h ARM_LOCAL_PM_ROUTING_CLR 0xf)
      else Inl KernelBug)"

definition route :: "'h mmio \<Rightarrow> u32 \<Rightarrow> u32 \<Rightarrow> 'h \<Rightarrow> 'h" where
  "route M clear put h =
     (let data = io_read M h ARM_LOCAL_GPU_INT_ROUTING;
          data = data AND NOT clear;
          data = data OR put
      in io_write M h ARM_LOCAL_GPU_INT_ROUTING data)"

definition armctrl_unmask_irq :: "'h mmio \<Rightarrow> u32 \<Rightarrow> nat \<Rightarrow> nat \<Rightarrow> u32 \<Rightarrow> 'h \<Rightarrow> 'h res" where
  "armctrl_unmask_irq M force_core cpus irq data h =
     (if irq \<ge> FIQ_START then
        let h = (if force_core \<noteq> 0 then route M 0xc (push_bit 2 (force_core - 1)) h
                 else if cpus > 1 then route M 0xc (push_bit 2 1) h
                 else h);
            data = data - of_nat FIQ_START
        in Inr (io_write M h ARM_IRQ_FAST (0x80 OR data))
      else if irq \<ge> IRQ_ARM_LOCAL_CNTPSIRQ \<and> irq < IRQ_ARM_LOCAL_CNTPSIRQ + 4 then
        rbind (shl32 1 (uint (data - of_nat IRQ_ARM_LOCAL_CNTPSIRQ))) (\<lambda>b.
        Inr (timer_control M (\<lambda>v. v OR b) h))
      else if irq \<ge> IRQ_ARM_LOCAL_MAILBOX0 \<and> irq < IRQ_ARM_LOCAL_MAILBOX0 + 4 then Inr h
      else if irq \<ge> ARM_IRQ1_BASE \<and> irq < ARM_IRQ_LOCAL_BASE then
        let h = (if force_core \<noteq> 0 then route M 0x3 (push_bit 0 (force_core - 1)) h else h) in
        rbind (arr_get enables (unat (drop_bit 5 data AND 3))) (\<lambda>a.
        Inr (io_write M h a (push_bit (unat (data AND 0x1f)) 1)))
      else if irq = IRQ_ARM_LOCAL_PMU_FAST then Inr (io_write M h ARM_LOCAL_PM_ROUTING_SET 0xf)
      else Inl KernelBug)"

section \<open>Device-tree specifiers\<close>

definition NR_IRQS_BANK0 :: nat where "NR_IRQS_BANK0 = 21"
definition NR_BANKS :: nat where "NR_BANKS = 4"
definition IRQS_PER_BANK :: nat where "IRQS_PER_BANK = 32"

text \<open>The \<open>switch\<close> that reverses \<open>remap_irqs\<close>.\<close>

definition reverse_remap :: "nat \<Rightarrow> nat" where
  "reverse_remap hwirq =
     (if hwirq = ARM_IRQ1_BASE + 7 then ARM_IRQ0_BASE + 10
      else if hwirq = ARM_IRQ1_BASE + 9 then ARM_IRQ0_BASE + 11
      else if hwirq = ARM_IRQ1_BASE + 10 then ARM_IRQ0_BASE + 12
      else if hwirq = ARM_IRQ1_BASE + 18 then ARM_IRQ0_BASE + 13
      else if hwirq = ARM_IRQ1_BASE + 19 then ARM_IRQ0_BASE + 14
      else if hwirq = ARM_IRQ2_BASE + 21 then ARM_IRQ0_BASE + 15
      else if hwirq = ARM_IRQ2_BASE + 22 then ARM_IRQ0_BASE + 16
      else if hwirq = ARM_IRQ2_BASE + 23 then ARM_IRQ0_BASE + 17
      else if hwirq = ARM_IRQ2_BASE + 24 then ARM_IRQ0_BASE + 18
      else if hwirq = ARM_IRQ2_BASE + 25 then ARM_IRQ0_BASE + 19
      else if hwirq = ARM_IRQ2_BASE + 30 then ARM_IRQ0_BASE + 20
      else hwirq)"

text \<open>The result: an error, or the line and the type \<open>IRQ_TYPE_NONE\<close>.\<close>

definition armctrl_xlate :: "nat list \<Rightarrow> nat \<Rightarrow> (int + nat \<times> nat) res" where
  "armctrl_xlate intspec intsize =
     (if intsize \<noteq> 2 then Inr (Inl (- EINVAL))
      else rbind (arr_get intspec 0) (\<lambda>bank. rbind (arr_get intspec 1) (\<lambda>i.
        if bank \<ge> NR_BANKS then Inr (Inl (- EINVAL))
        else if i \<ge> IRQS_PER_BANK then Inr (Inl (- EINVAL))
        else if bank = 0 \<and> i \<ge> NR_IRQS_BANK0 then Inr (Inl (- EINVAL))
        else if bank = 3 \<and> i > 3 \<and> i \<noteq> 5 \<and> i \<noteq> 9 then Inr (Inl (- EINVAL))
        else let hwirq = (if bank = 0 then ARM_IRQ0_BASE + i
                          else if bank = 1 then ARM_IRQ1_BASE + i
                          else if bank = 2 then ARM_IRQ2_BASE + i
                          else ARM_IRQ_LOCAL_BASE + i)
             in Inr (Inr (reverse_remap hwirq, 0)))))"

section \<open>Wake-up and initialisation\<close>

record armctrl_info =
  ac_base :: nat
  ac_irq :: nat
  resume_sources :: u32
  resume_irqs :: u32

definition armctrl_pm_register :: "nat \<Rightarrow> nat \<Rightarrow> u32 \<Rightarrow> armctrl_info \<Rightarrow> armctrl_info" where
  "armctrl_pm_register base irq sources a = a\<lparr>ac_base := base, resume_sources := sources, ac_irq := irq\<rparr>"

definition armctrl_set_wake :: "nat \<Rightarrow> bool \<Rightarrow> armctrl_info \<Rightarrow> int \<times> armctrl_info" where
  "armctrl_set_wake irq on a =
     (let b = push_bit (irq mod 32) 1
      in if b AND resume_sources a = 0 then (- EINVAL, a)
         else if on then (0, a\<lparr>resume_irqs := resume_irqs a OR b\<rparr>)
         else (0, a\<lparr>resume_irqs := resume_irqs a AND NOT b\<rparr>))"

datatype irq_handler = handle_percpu_devid_irq | handle_level_irq

text \<open>What \<open>armctrl_init\<close> sets for one line: its handler and its chip data.\<close>

definition armctrl_line :: "nat \<Rightarrow> (irq_handler \<times> u32) res" where
  "armctrl_line irq =
     rbind (if irq \<ge> INTERRUPT_JPEG \<and> irq \<le> INTERRUPT_ARASANSDIO then arr_get remap_irqs (irq - INTERRUPT_JPEG) else Inr irq) (\<lambda>data.
     Inr (if irq \<ge> IRQ_ARM_LOCAL_CNTPSIRQ \<and> irq \<le> IRQ_ARM_LOCAL_TIMER then handle_percpu_devid_irq else handle_level_irq, of_nat data))"

fun armctrl_lines :: "nat list \<Rightarrow> (irq_handler \<times> u32) list res" where
  "armctrl_lines [] = Inr []"
| "armctrl_lines (irq # irqs) = rbind (armctrl_line irq) (\<lambda>l. rbind (armctrl_lines irqs) (\<lambda>ls. Inr (l # ls)))"

definition armctrl_init :: "nat \<Rightarrow> nat \<Rightarrow> u32 \<Rightarrow> armctrl_info \<Rightarrow> (int \<times> (irq_handler \<times> u32) list \<times> armctrl_info) res" where
  "armctrl_init base irq_start sources a =
     rbind (armctrl_lines [0..<BCM2708_ALLOC_IRQS]) (\<lambda>ls.
     Inr (0, ls, armctrl_pm_register base irq_start sources a))"

section \<open>Every line is set up\<close>

lemmas irq_consts = ARM_IRQ1_BASE_def ARM_IRQ2_BASE_def ARM_IRQ0_BASE_def ARM_IRQ_LOCAL_BASE_def FIQ_START_def
  INTERRUPT_JPEG_def INTERRUPT_ARASANSDIO_def IRQ_ARM_LOCAL_CNTPSIRQ_def IRQ_ARM_LOCAL_MAILBOX0_def
  IRQ_ARM_LOCAL_PMU_FAST_def IRQ_ARM_LOCAL_TIMER_def

definition line_data :: "nat \<Rightarrow> nat" where
  "line_data irq = (if irq \<ge> 74 \<and> irq \<le> 84 then remap_irqs ! (irq - 74) else irq)"

lemma armctrl_line_data:
  "\<exists>k. armctrl_line irq = Inr (k, of_nat (line_data irq))"
proof (cases "irq \<ge> 74 \<and> irq \<le> 84")
  case True
  have "length remap_irqs = 11" by (simp add: remap_irqs_def)
  then have "irq - 74 < length remap_irqs" using True by linarith
  with True show ?thesis by (simp add: armctrl_line_def line_data_def irq_consts)
next
  case False
  then show ?thesis by (auto simp: armctrl_line_def line_data_def irq_consts)
qed

lemma armctrl_lines_data: "\<exists>ls. armctrl_lines irqs = Inr ls \<and> map snd ls = map (\<lambda>irq. of_nat (line_data irq)) irqs"
proof (induction irqs)
  case (Cons irq irqs)
  from armctrl_line_data [of irq] Cons show ?case by fastforce
qed simp

lemma gpu_lines:
  assumes "irq < 96"
  shows "armctrl_unmask_irq M 0 cpus irq data h =
      rbind (arr_get enables (unat (drop_bit 5 data AND 3))) (\<lambda>a. Inr (io_write M h a (push_bit (unat (data AND 0x1f)) 1)))"
    "armctrl_mask_irq M irq data h =
      rbind (arr_get disables (unat (drop_bit 5 data AND 3))) (\<lambda>a. Inr (io_write M h a (push_bit (unat (data AND 0x1f)) 1)))"
  using assms by (simp_all add: armctrl_unmask_irq_def armctrl_mask_irq_def irq_consts)

lemma remap_roundtrip:
  assumes "i < 32" "b = 1 \<or> b = 2"
  shows "line_data (reverse_remap (32 * (b - 1) + i)) = 32 * (b - 1) + i \<and> reverse_remap (32 * (b - 1) + i) < 96"
proof -
  have "list_all (\<lambda>n. line_data (reverse_remap n) = n \<and> reverse_remap n < 96) [0..<64]"
    by code_simp
  then have "\<And>n. n < 64 \<Longrightarrow> line_data (reverse_remap n) = n \<and> reverse_remap n < 96" by (simp add: list_all_iff)
  then show ?thesis using assms by auto
qed

section \<open>Properties\<close>

text \<open>
  C19: An interrupt that the device tree names by bank 1 or 2 and a bit of it is served by that bit: the
  translation gives a line whose chip data, set by the initialisation, leads \<open>armctrl_unmask_irq\<close> to write
  just that bit to the enable register of the bank and \<open>armctrl_mask_irq\<close> to write it to the disable register,
  also for the eleven lines that are known by a shortcut of bank 0.
\<close>

theorem armctrl_line_roundtrip:
  assumes "b \<in> {1, 2}" "i < 32" "armctrl_init base start sources a = Inr (r, ls, a')"
  shows "\<exists>irq. armctrl_xlate [b, i] 2 = Inr (Inr (irq, 0)) \<and> irq < length ls \<and>
    armctrl_unmask_irq M 0 cpus irq (snd (ls ! irq)) h = Inr (io_write M h (ARM_BASE + 0x210 + 4 * (b - 1)) (push_bit i 1)) \<and>
    armctrl_mask_irq M irq (snd (ls ! irq)) h = Inr (io_write M h (ARM_BASE + 0x21C + 4 * (b - 1)) (push_bit i 1))"
proof -
  let ?n = "32 * (b - 1) + i" and ?irq = "reverse_remap (32 * (b - 1) + i)"
  note rt = remap_roundtrip [OF assms(2), of b]
  from armctrl_lines_data [of "[0..<BCM2708_ALLOC_IRQS]"] assms(3)
  have ls: "map snd ls = map (\<lambda>irq. of_nat (line_data irq)) [0..<BCM2708_ALLOC_IRQS]"
    by (auto simp: armctrl_init_def rbind_Inr_iff)
  then have len: "length ls = BCM2708_ALLOC_IRQS" using map_eq_imp_length_eq by fastforce
  have irq: "?irq < 96" "?irq < BCM2708_ALLOC_IRQS" using rt assms(1) by (auto simp: BCM2708_ALLOC_IRQS_def)
  have "map snd ls ! ?irq = of_nat (line_data ?irq)" unfolding ls using irq(2) by simp
  then have d: "snd (ls ! ?irq) = of_nat ?n" using irq(2) len rt assms(1) by auto
  have x: "armctrl_xlate [b, i] 2 = Inr (Inr (?irq, 0))"
    using assms(1,2) by (auto simp: armctrl_xlate_def NR_BANKS_def IRQS_PER_BANK_def irq_consts)
  have "?n < 64" using assms(1,2) by auto
  then have "unat (of_nat ?n :: u32) = ?n" by (simp add: unat_of_nat take_bit_nat_eq_self del: of_nat_add of_nat_mult)
  moreover have m: "(0x1f :: u32) = mask 5" "(3 :: u32) = mask 2" by (simp_all add: mask_eq_exp_minus_1)
  ultimately have u: "unat (of_nat ?n :: u32) = ?n" by blast
  have v: "unat (w AND (0x1f :: u32)) = take_bit 5 (unat w)" "unat (drop_bit 5 w AND (3 :: u32)) = take_bit 2 (drop_bit 5 (unat w))" for w
    unfolding m by (simp_all only: take_bit_eq_mask [symmetric] unsigned_take_bit_eq unsigned_drop_bit_eq) (simp add: take_bit_drop_bit)
  have lo: "unat (of_nat ?n AND (0x1f :: u32)) = i" unfolding v u using assms(1,2) by (auto simp: take_bit_eq_mod)
  have hi: "unat (drop_bit 5 (of_nat ?n) AND (3 :: u32)) = b - 1"
    unfolding v u using assms(1,2) by (auto simp: take_bit_eq_mod drop_bit_eq_div)
  have a: "arr_get enables (b - 1) = Inr (ARM_BASE + 0x210 + 4 * (b - 1))" "arr_get disables (b - 1) = Inr (ARM_BASE + 0x21C + 4 * (b - 1))"
    using assms(1) by (auto simp: enables_def disables_def)
  show ?thesis
    unfolding x by (intro exI [of _ ?irq], unfold gpu_lines [OF irq(1)] d lo hi a) (use irq(2) len in simp)
qed

lemma armctrl_init_ok: "\<exists>ls. armctrl_init base start sources a = Inr (0, ls, armctrl_pm_register base start sources a)"
  using armctrl_lines_data [of "[0..<BCM2708_ALLOC_IRQS]"] by (auto simp: armctrl_init_def)

theorem armctrl_line_roundtrip_witness:
  "\<exists>irq d. armctrl_xlate [2, 21] 2 = Inr (Inr (irq, 0)) \<and>
     armctrl_unmask_irq bcm_mmio 0 4 irq d bcm_reset = Inr (io_write bcm_mmio bcm_reset (ARM_BASE + 0x214) (push_bit 21 1))"
proof -
  let ?a = "\<lparr>ac_base = 0, ac_irq = 0, resume_sources = 0, resume_irqs = 0\<rparr>"
  from armctrl_init_ok [of 0 0 0 ?a] obtain ls a' where "armctrl_init 0 0 0 ?a = Inr (0, ls, a')" by blast
  from armctrl_line_roundtrip [of 2 21, OF _ _ this, of bcm_mmio 4 bcm_reset] show ?thesis
    by (auto simp: add.commute [of ARM_BASE])
qed

end
