(* ===== verification/KString.thy ===== *)
theory KString
  imports KPWM_Base
begin

text \<open>
  The character classes of \<^verbatim>\<open>lib/ctype.c\<close> and the string and memory routines of \<^verbatim>\<open>lib/string.c\<close>. A pointer
  argument is the list of bytes from the pointer to the end of its object, so that a read or write past the end
  is a fault; a returned pointer is an offset from the argument. \<open>char\<close>s are bytes, and an \<open>int\<close> argument that the
  routine first converts to \<open>char\<close> is that byte. Routines that write return
  the new contents. \<open>memmove\<close>, whose areas may overlap, works on one object and two offsets.
\<close>

section \<open>ctype.c\<close>

definition CT_U :: u8 where "CT_U = 0x01"
definition CT_L :: u8 where "CT_L = 0x02"
definition CT_D :: u8 where "CT_D = 0x04"
definition CT_C :: u8 where "CT_C = 0x08"
definition CT_P :: u8 where "CT_P = 0x10"
definition CT_S :: u8 where "CT_S = 0x20"
definition CT_X :: u8 where "CT_X = 0x40"
definition CT_SP :: u8 where "CT_SP = 0x80"

definition ctype_table :: "u8 list" where
  "ctype_table =
   [CT_C, CT_C, CT_C, CT_C, CT_C, CT_C, CT_C, CT_C,
    CT_C, CT_C OR CT_S, CT_C OR CT_S, CT_C OR CT_S, CT_C OR CT_S, CT_C OR CT_S, CT_C, CT_C,
    CT_C, CT_C, CT_C, CT_C, CT_C, CT_C, CT_C, CT_C,
    CT_C, CT_C, CT_C, CT_C, CT_C, CT_C, CT_C, CT_C,
    CT_S OR CT_SP, CT_P, CT_P, CT_P, CT_P, CT_P, CT_P, CT_P,
    CT_P, CT_P, CT_P, CT_P, CT_P, CT_P, CT_P, CT_P,
    CT_D, CT_D, CT_D, CT_D, CT_D, CT_D, CT_D, CT_D,
    CT_D, CT_D, CT_P, CT_P, CT_P, CT_P, CT_P, CT_P,
    CT_P, CT_U OR CT_X, CT_U OR CT_X, CT_U OR CT_X, CT_U OR CT_X, CT_U OR CT_X, CT_U OR CT_X, CT_U,
    CT_U, CT_U, CT_U, CT_U, CT_U, CT_U, CT_U, CT_U,
    CT_U, CT_U, CT_U, CT_U, CT_U, CT_U, CT_U, CT_U,
    CT_U, CT_U, CT_U, CT_P, CT_P, CT_P, CT_P, CT_P,
    CT_P, CT_L OR CT_X, CT_L OR CT_X, CT_L OR CT_X, CT_L OR CT_X, CT_L OR CT_X, CT_L OR CT_X, CT_L,
    CT_L, CT_L, CT_L, CT_L, CT_L, CT_L, CT_L, CT_L,
    CT_L, CT_L, CT_L, CT_L, CT_L, CT_L, CT_L, CT_L,
    CT_L, CT_L, CT_L, CT_P, CT_P, CT_P, CT_P, CT_C,
    0, 0, 0, 0, 0, 0, 0, 0,
    0, 0, 0, 0, 0, 0, 0, 0,
    0, 0, 0, 0, 0, 0, 0, 0,
    0, 0, 0, 0, 0, 0, 0, 0,
    CT_S OR CT_SP, CT_P, CT_P, CT_P, CT_P, CT_P, CT_P, CT_P,
    CT_P, CT_P, CT_P, CT_P, CT_P, CT_P, CT_P, CT_P,
    CT_P, CT_P, CT_P, CT_P, CT_P, CT_P, CT_P, CT_P,
    CT_P, CT_P, CT_P, CT_P, CT_P, CT_P, CT_P, CT_P,
    CT_U, CT_U, CT_U, CT_U, CT_U, CT_U, CT_U, CT_U,
    CT_U, CT_U, CT_U, CT_U, CT_U, CT_U, CT_U, CT_U,
    CT_U, CT_U, CT_U, CT_U, CT_U, CT_U, CT_U, CT_P,
    CT_U, CT_U, CT_U, CT_U, CT_U, CT_U, CT_U, CT_L,
    CT_L, CT_L, CT_L, CT_L, CT_L, CT_L, CT_L, CT_L,
    CT_L, CT_L, CT_L, CT_L, CT_L, CT_L, CT_L, CT_L,
    CT_L, CT_L, CT_L, CT_L, CT_L, CT_L, CT_L, CT_P,
    CT_L, CT_L, CT_L, CT_L, CT_L, CT_L, CT_L, CT_L]"

definition ismask :: "u8 \<Rightarrow> u8" where "ismask x = ctype_table ! unat x"

definition isspace :: "u8 \<Rightarrow> bool" where "isspace c \<longleftrightarrow> ismask c AND CT_S \<noteq> 0"
definition isupper :: "u8 \<Rightarrow> bool" where "isupper c \<longleftrightarrow> ismask c AND CT_U \<noteq> 0"
definition islower :: "u8 \<Rightarrow> bool" where "islower c \<longleftrightarrow> ismask c AND CT_L \<noteq> 0"
definition isdigit :: "u8 \<Rightarrow> bool" where "isdigit c \<longleftrightarrow> ismask c AND CT_D \<noteq> 0"
definition isxdigit :: "u8 \<Rightarrow> bool" where "isxdigit c \<longleftrightarrow> ismask c AND (CT_D OR CT_X) \<noteq> 0"
definition isalnum :: "u8 \<Rightarrow> bool" where "isalnum c \<longleftrightarrow> ismask c AND (CT_U OR CT_L OR CT_D) \<noteq> 0"
definition isalpha :: "u8 \<Rightarrow> bool" where "isalpha c \<longleftrightarrow> ismask c AND (CT_U OR CT_L) \<noteq> 0"
definition iscntrl :: "u8 \<Rightarrow> bool" where "iscntrl c \<longleftrightarrow> ismask c AND CT_C \<noteq> 0"
definition isgraph :: "u8 \<Rightarrow> bool" where "isgraph c \<longleftrightarrow> ismask c AND (CT_P OR CT_U OR CT_L OR CT_D) \<noteq> 0"
definition isprint :: "u8 \<Rightarrow> bool" where "isprint c \<longleftrightarrow> ismask c AND (CT_P OR CT_U OR CT_L OR CT_D OR CT_SP) \<noteq> 0"
definition ispunct :: "u8 \<Rightarrow> bool" where "ispunct c \<longleftrightarrow> ismask c AND CT_P \<noteq> 0"
definition isascii :: "u8 \<Rightarrow> bool" where "isascii c \<longleftrightarrow> c \<le> 0x7f"
definition toascii :: "u8 \<Rightarrow> u8" where "toascii c = c AND 0x7f"

definition tolower :: "u8 \<Rightarrow> u8" where
  "tolower c = (if isupper c then c - (65 - 97) else c)"

definition toupper :: "u8 \<Rightarrow> u8" where
  "toupper c = (if islower c then c - (97 - 65) else c)"

definition isodigit :: "u8 \<Rightarrow> bool" where "isodigit c \<longleftrightarrow> c \<ge> 48 \<and> c \<le> 55"

text \<open>A fact about a byte and its entry of the table, checked on all of them.\<close>

definition all_entries :: "(u8 \<Rightarrow> u8 \<Rightarrow> bool) \<Rightarrow> bool" where
  "all_entries P \<longleftrightarrow> list_all (\<lambda>(n, m). P (of_nat n) m) (zip [0..<256] ctype_table)"

lemma all_entriesD: "all_entries P \<Longrightarrow> P c (ismask c)"
proof -
  assume P: "all_entries P"
  have c: "unat c < 256" using unsigned_less [where 'a = nat, of c] by simp
  have l: "length ctype_table = 256" by (simp add: ctype_table_def)
  have "zip [0..<256] ctype_table ! unat c = (unat c, ismask c)" using c l by (simp add: ismask_def)
  then have "(unat c, ismask c) \<in> set (zip [0..<256] ctype_table)"
    using c l by (metis length_upt length_zip min.idem minus_nat.diff_0 nth_mem)
  with P show "P c (ismask c)" by (fastforce simp: all_entries_def list_all_iff)
qed

text \<open>The classes are what their names say on ASCII, and the combined ones are the unions they name.\<close>

lemma ctype_ascii: "c \<le> 127 \<Longrightarrow>
  (isdigit c \<longleftrightarrow> 48 \<le> c \<and> c \<le> 57) \<and> (isupper c \<longleftrightarrow> 65 \<le> c \<and> c \<le> 90) \<and> (islower c \<longleftrightarrow> 97 \<le> c \<and> c \<le> 122) \<and>
  (isspace c \<longleftrightarrow> (9 \<le> c \<and> c \<le> 13) \<or> c = 32) \<and> (iscntrl c \<longleftrightarrow> c < 32 \<or> c = 127) \<and> (isprint c \<longleftrightarrow> 32 \<le> c \<and> c < 127)"
proof -
  have "all_entries (\<lambda>c m. c \<le> 127 \<longrightarrow>
    (m AND CT_D \<noteq> 0 \<longleftrightarrow> 48 \<le> c \<and> c \<le> 57) \<and> (m AND CT_U \<noteq> 0 \<longleftrightarrow> 65 \<le> c \<and> c \<le> 90) \<and>
    (m AND CT_L \<noteq> 0 \<longleftrightarrow> 97 \<le> c \<and> c \<le> 122) \<and> (m AND CT_S \<noteq> 0 \<longleftrightarrow> (9 \<le> c \<and> c \<le> 13) \<or> c = 32) \<and>
    (m AND CT_C \<noteq> 0 \<longleftrightarrow> c < 32 \<or> c = 127) \<and> (m AND (CT_P OR CT_U OR CT_L OR CT_D OR CT_SP) \<noteq> 0 \<longleftrightarrow> 32 \<le> c \<and> c < 127))"
    by code_simp
  from all_entriesD [OF this, of c] show "c \<le> 127 \<Longrightarrow> ?thesis"
    unfolding isdigit_def isupper_def islower_def isspace_def iscntrl_def isprint_def by blast
qed

lemma ctype_partition:
  "(isalnum c \<longleftrightarrow> isalpha c \<or> isdigit c) \<and> (isgraph c \<longleftrightarrow> isalnum c \<or> ispunct c) \<and>
   (isprint c \<longleftrightarrow> isgraph c \<or> c = 32 \<or> c = 160) \<and> \<not> (iscntrl c \<and> isprint c) \<and> \<not> (ispunct c \<and> isalnum c)"
proof -
  have "all_entries (\<lambda>c m. (m AND (CT_U OR CT_L OR CT_D) \<noteq> 0 \<longleftrightarrow> m AND (CT_U OR CT_L) \<noteq> 0 \<or> m AND CT_D \<noteq> 0) \<and>
   (m AND (CT_P OR CT_U OR CT_L OR CT_D) \<noteq> 0 \<longleftrightarrow> m AND (CT_U OR CT_L OR CT_D) \<noteq> 0 \<or> m AND CT_P \<noteq> 0) \<and>
   (m AND (CT_P OR CT_U OR CT_L OR CT_D OR CT_SP) \<noteq> 0 \<longleftrightarrow> m AND (CT_P OR CT_U OR CT_L OR CT_D) \<noteq> 0 \<or> c = 32 \<or> c = 160) \<and>
   \<not> (m AND CT_C \<noteq> 0 \<and> m AND (CT_P OR CT_U OR CT_L OR CT_D OR CT_SP) \<noteq> 0) \<and>
   \<not> (m AND CT_P \<noteq> 0 \<and> m AND (CT_U OR CT_L OR CT_D) \<noteq> 0))"
    by code_simp
  from all_entriesD [OF this, of c] show ?thesis
    unfolding isalnum_def isalpha_def isdigit_def isgraph_def ispunct_def isprint_def iscntrl_def .
qed

text \<open>The digits that stand for hexadecimal numbers.\<close>

definition hex_val :: "u8 \<Rightarrow> nat option" where
  "hex_val c = (if 48 \<le> c \<and> c \<le> 57 then Some (unat c - 48)
     else if 97 \<le> c \<and> c \<le> 102 then Some (unat c - 87)
     else if 65 \<le> c \<and> c \<le> 70 then Some (unat c - 55) else None)"

lemma hex_val_xdigit: "isxdigit c \<longleftrightarrow> hex_val c \<noteq> None"
proof -
  have "all_entries (\<lambda>c m. m AND (CT_D OR CT_X) \<noteq> 0 \<longleftrightarrow> hex_val c \<noteq> None)" by code_simp
  from all_entriesD [OF this, of c] show ?thesis unfolding isxdigit_def .
qed

text \<open>The bytes of a string literal.\<close>

definition str_bytes :: "string \<Rightarrow> u8 list" where
  "str_bytes s = map of_char s"

section \<open>Comparing\<close>

definition rd :: "u8 list \<Rightarrow> u8 res" where
  "rd s = (case s of [] \<Rightarrow> Inl OutOfBounds | c # _ \<Rightarrow> Inr c)"

lemma rd_simps [simp, res_simps]: "rd [] = Inl OutOfBounds" "rd (c # s) = Inr c"
  by (simp_all add: rd_def)

definition byte_diff :: "u8 \<Rightarrow> u8 \<Rightarrow> int" where
  "byte_diff c1 c2 = uint c1 - uint c2"

fun strncasecmp :: "u8 list \<Rightarrow> u8 list \<Rightarrow> nat \<Rightarrow> int res" where
  "strncasecmp s1 s2 0 = Inr 0"
| "strncasecmp (c1 # s1) (c2 # s2) (Suc len) =
     (if c1 = 0 \<or> c2 = 0 then Inr (byte_diff c1 c2)
      else if c1 = c2 then (if len = 0 then Inr (byte_diff c1 c2) else strncasecmp s1 s2 len)
      else let c1' = tolower c1; c2' = tolower c2
           in if c1' \<noteq> c2' then Inr (byte_diff c1' c2')
              else if len = 0 then Inr (byte_diff c1' c2') else strncasecmp s1 s2 len)"
| "strncasecmp s1 s2 (Suc len) = Inl OutOfBounds"

fun strcasecmp :: "u8 list \<Rightarrow> u8 list \<Rightarrow> int res" where
  "strcasecmp (a # s1) (b # s2) =
     (let c1 = tolower a; c2 = tolower b
      in if c1 = c2 \<and> c1 \<noteq> 0 then strcasecmp s1 s2 else Inr (byte_diff c1 c2))"
| "strcasecmp s1 s2 = Inl OutOfBounds"

fun strcmp :: "u8 list \<Rightarrow> u8 list \<Rightarrow> int res" where
  "strcmp (c1 # cs) (c2 # ct) =
     (if c1 \<noteq> c2 then Inr (if c1 < c2 then -1 else 1)
      else if c1 = 0 then Inr 0 else strcmp cs ct)"
| "strcmp cs ct = Inl OutOfBounds"

fun strncmp :: "u8 list \<Rightarrow> u8 list \<Rightarrow> nat \<Rightarrow> int res" where
  "strncmp cs ct 0 = Inr 0"
| "strncmp (c1 # cs) (c2 # ct) (Suc count) =
     (if c1 \<noteq> c2 then Inr (if c1 < c2 then -1 else 1)
      else if c1 = 0 then Inr 0 else strncmp cs ct count)"
| "strncmp cs ct (Suc count) = Inl OutOfBounds"

fun memcmp :: "u8 list \<Rightarrow> u8 list \<Rightarrow> nat \<Rightarrow> int res" where
  "memcmp cs ct 0 = Inr 0"
| "memcmp (a # cs) (b # ct) (Suc count) =
     (if byte_diff a b \<noteq> 0 then Inr (byte_diff a b) else memcmp cs ct count)"
| "memcmp cs ct (Suc count) = Inl OutOfBounds"

fun sysfs_streq :: "u8 list \<Rightarrow> u8 list \<Rightarrow> bool res" where
  "sysfs_streq (a # s1) (b # s2) =
     (if a \<noteq> 0 \<and> a = b then sysfs_streq s1 s2
      else if a = b then Inr True
      else if a = 0 \<and> b = 10 then
        rbind (rd s2) (\<lambda>c. if c = 0 then Inr True else Inr False)
      else if a = 10 then rbind (rd s1) (\<lambda>c. Inr (c = 0 \<and> b = 0))
      else Inr False)"
| "sysfs_streq s1 s2 = Inl OutOfBounds"

definition strtobool :: "u8 list \<Rightarrow> (int + bool) res" where
  "strtobool s =
     rbind (rd s) (\<lambda>c.
     if c \<in> {121, 89, 49} then Inr (Inr True)
     else if c \<in> {110, 78, 48} then Inr (Inr False)
     else Inr (Inl (- 22)))"

section \<open>Searching\<close>

definition opt_Suc :: "nat option \<Rightarrow> nat option" where
  "opt_Suc r = map_option Suc r"

fun strlen :: "u8 list \<Rightarrow> nat res" where
  "strlen [] = Inl OutOfBounds"
| "strlen (c # s) = (if c = 0 then Inr 0 else rbind (strlen s) (\<lambda>n. Inr (Suc n)))"

fun strnlen :: "u8 list \<Rightarrow> nat \<Rightarrow> nat res" where
  "strnlen s 0 = Inr 0"
| "strnlen [] (Suc count) = Inl OutOfBounds"
| "strnlen (c # s) (Suc count) = (if c = 0 then Inr 0 else rbind (strnlen s count) (\<lambda>n. Inr (Suc n)))"

fun strchr :: "u8 list \<Rightarrow> u8 \<Rightarrow> nat option res" where
  "strchr [] c = Inl OutOfBounds"
| "strchr (x # s) c =
     (if x = c then Inr (Some 0) else if x = 0 then Inr None else rbind (strchr s c) (\<lambda>r. Inr (opt_Suc r)))"

fun strchrnul :: "u8 list \<Rightarrow> u8 \<Rightarrow> nat res" where
  "strchrnul [] c = Inl OutOfBounds"
| "strchrnul (x # s) c = (if x \<noteq> 0 \<and> x \<noteq> c then rbind (strchrnul s c) (\<lambda>n. Inr (Suc n)) else Inr 0)"

fun strrchr_from :: "u8 list \<Rightarrow> u8 \<Rightarrow> nat \<Rightarrow> nat option \<Rightarrow> nat option res" where
  "strrchr_from [] c i lst = Inl OutOfBounds"
| "strrchr_from (x # s) c i lst =
     (let lst' = (if x = c then Some i else lst)
      in if x \<noteq> 0 then strrchr_from s c (Suc i) lst' else Inr lst')"

definition strrchr :: "u8 list \<Rightarrow> u8 \<Rightarrow> nat option res" where
  "strrchr s c = strrchr_from s c 0 None"

fun strnchr :: "u8 list \<Rightarrow> nat \<Rightarrow> u8 \<Rightarrow> nat option res" where
  "strnchr s 0 c = Inr None"
| "strnchr [] (Suc count) c = Inl OutOfBounds"
| "strnchr (x # s) (Suc count) c =
     (if x = 0 then Inr None else if x = c then Inr (Some 0) else rbind (strnchr s count c) (\<lambda>r. Inr (opt_Suc r)))"

fun skip_spaces :: "u8 list \<Rightarrow> nat res" where
  "skip_spaces [] = Inl OutOfBounds"
| "skip_spaces (c # s) = (if isspace c then rbind (skip_spaces s) (\<lambda>n. Inr (Suc n)) else Inr 0)"

text \<open>
  The inner loops of \<open>strspn\<close>, \<open>strcspn\<close> and \<open>strpbrk\<close>: is the character in the second string?
\<close>

fun in_set :: "u8 \<Rightarrow> u8 list \<Rightarrow> bool res" where
  "in_set c [] = Inl OutOfBounds"
| "in_set c (a # as) = (if a = 0 then Inr False else if c = a then Inr True else in_set c as)"

fun strspn :: "u8 list \<Rightarrow> u8 list \<Rightarrow> nat res" where
  "strspn [] acc = Inl OutOfBounds"
| "strspn (p # s) acc =
     (if p = 0 then Inr 0
      else rbind (in_set p acc) (\<lambda>b. if \<not> b then Inr 0 else rbind (strspn s acc) (\<lambda>n. Inr (Suc n))))"

fun strcspn :: "u8 list \<Rightarrow> u8 list \<Rightarrow> nat res" where
  "strcspn [] rej = Inl OutOfBounds"
| "strcspn (p # s) rej =
     (if p = 0 then Inr 0
      else rbind (in_set p rej) (\<lambda>b. if b then Inr 0 else rbind (strcspn s rej) (\<lambda>n. Inr (Suc n))))"

fun strpbrk :: "u8 list \<Rightarrow> u8 list \<Rightarrow> nat option res" where
  "strpbrk [] ct = Inl OutOfBounds"
| "strpbrk (p # cs) ct =
     (if p = 0 then Inr None
      else rbind (in_set p ct) (\<lambda>b. if b then Inr (Some 0) else rbind (strpbrk cs ct) (\<lambda>r. Inr (opt_Suc r))))"

fun memscan :: "u8 list \<Rightarrow> int \<Rightarrow> nat \<Rightarrow> nat res" where
  "memscan p c 0 = Inr 0"
| "memscan [] c (Suc sz) = Inl OutOfBounds"
| "memscan (x # p) c (Suc sz) = (if uint x = c then Inr 0 else rbind (memscan p c sz) (\<lambda>n. Inr (Suc n)))"

fun memchr :: "u8 list \<Rightarrow> u8 \<Rightarrow> nat \<Rightarrow> nat option res" where
  "memchr p c 0 = Inr None"
| "memchr [] c (Suc n) = Inl OutOfBounds"
| "memchr (x # p) c (Suc n) = (if c = x then Inr (Some 0) else rbind (memchr p c n) (\<lambda>r. Inr (opt_Suc r)))"

text \<open>The search loops of \<open>strstr\<close> and \<open>strnstr\<close>, with the length still to search and the offset reached.\<close>

function strstr_loop :: "u8 list \<Rightarrow> u8 list \<Rightarrow> nat \<Rightarrow> nat \<Rightarrow> nat \<Rightarrow> nat option res" where
  "strstr_loop s1 s2 l2 l1 i =
     (if l1 \<ge> l2 \<and> 0 < l1 then
        rbind (memcmp (drop i s1) s2 l2) (\<lambda>r.
        if r = 0 then Inr (Some i) else strstr_loop s1 s2 l2 (l1 - 1) (Suc i))
      else Inr None)"
  by auto
termination by (relation "measure (\<lambda>(s1, s2, l2, l1, i). l1)") auto

declare strstr_loop.simps [simp del]

definition strstr :: "u8 list \<Rightarrow> u8 list \<Rightarrow> nat option res" where
  "strstr s1 s2 =
     rbind (strlen s2) (\<lambda>l2.
     if l2 = 0 then Inr (Some 0)
     else rbind (strlen s1) (\<lambda>l1. strstr_loop s1 s2 l2 l1 0))"

definition strnstr :: "u8 list \<Rightarrow> u8 list \<Rightarrow> nat \<Rightarrow> nat option res" where
  "strnstr s1 s2 len =
     rbind (strlen s2) (\<lambda>l2.
     if l2 = 0 then Inr (Some 0) else strstr_loop s1 s2 l2 len 0)"

section \<open>Copying\<close>

fun strcpy :: "u8 list \<Rightarrow> u8 list \<Rightarrow> u8 list res" where
  "strcpy (d # dest) (c # src) =
     (if c \<noteq> 0 then rbind (strcpy dest src) (\<lambda>r. Inr (c # r)) else Inr (0 # dest))"
| "strcpy dest src = Inl OutOfBounds"

fun strncpy :: "u8 list \<Rightarrow> u8 list \<Rightarrow> nat \<Rightarrow> u8 list res" where
  "strncpy dest src 0 = Inr dest"
| "strncpy (d # dest) (c # src) (Suc count) =
     rbind (strncpy dest (if c \<noteq> 0 then src else c # src) count) (\<lambda>r. Inr (c # r))"
| "strncpy dest src (Suc count) = Inl OutOfBounds"

fun memcpy :: "u8 list \<Rightarrow> u8 list \<Rightarrow> nat \<Rightarrow> u8 list res" where
  "memcpy dest src 0 = Inr dest"
| "memcpy (d # dest) (c # src) (Suc count) = rbind (memcpy dest src count) (\<lambda>r. Inr (c # r))"
| "memcpy dest src (Suc count) = Inl OutOfBounds"

fun memset :: "u8 list \<Rightarrow> u8 \<Rightarrow> nat \<Rightarrow> u8 list res" where
  "memset s c 0 = Inr s"
| "memset (x # s) c (Suc count) = rbind (memset s c count) (\<lambda>r. Inr (c # r))"
| "memset [] c (Suc count) = Inl OutOfBounds"

definition memzero_explicit :: "u8 list \<Rightarrow> nat \<Rightarrow> u8 list res" where
  "memzero_explicit s count = memset s 0 count"

definition strlcpy :: "u8 list \<Rightarrow> u8 list \<Rightarrow> nat \<Rightarrow> (nat \<times> u8 list) res" where
  "strlcpy dest src sz =
     rbind (strlen src) (\<lambda>ret.
     if sz \<noteq> 0 then
       let len = (if ret \<ge> sz then sz - 1 else ret) in
       rbind (memcpy dest src len) (\<lambda>dest.
       rbind (arr_set dest len 0) (\<lambda>dest.
       Inr (ret, dest)))
     else Inr (ret, dest))"

fun strcat :: "u8 list \<Rightarrow> u8 list \<Rightarrow> u8 list res" where
  "strcat [] src = Inl OutOfBounds"
| "strcat (d # dest) src =
     (if d \<noteq> 0 then rbind (strcat dest src) (\<lambda>r. Inr (d # r)) else strcpy (d # dest) src)"

text \<open>The second loop of \<open>strncat\<close>; \<open>count\<close> is not zero.\<close>

fun strncat_copy :: "u8 list \<Rightarrow> u8 list \<Rightarrow> nat \<Rightarrow> u8 list res" where
  "strncat_copy (d # dest) (c # src) (Suc count) =
     (if c = 0 then Inr (0 # dest)
      else if count = 0 then rbind (arr_set dest 0 0) (\<lambda>r. Inr (c # r))
      else rbind (strncat_copy dest src count) (\<lambda>r. Inr (c # r)))"
| "strncat_copy dest src count = Inl OutOfBounds"

fun strncat :: "u8 list \<Rightarrow> u8 list \<Rightarrow> nat \<Rightarrow> u8 list res" where
  "strncat dest src 0 = Inr dest"
| "strncat [] src (Suc count) = Inl OutOfBounds"
| "strncat (d # dest) src (Suc count) =
     (if d \<noteq> 0 then rbind (strncat dest src (Suc count)) (\<lambda>r. Inr (d # r))
      else strncat_copy (d # dest) src (Suc count))"

definition strlcat :: "u8 list \<Rightarrow> u8 list \<Rightarrow> nat \<Rightarrow> (nat \<times> u8 list) res" where
  "strlcat dest src count =
     rbind (strlen dest) (\<lambda>dsize.
     rbind (strlen src) (\<lambda>len.
     let r = dsize + len in
     if dsize \<ge> count then Inl KernelBug
     else let count = count - dsize;
              len = (if len \<ge> count then count - 1 else len) in
          rbind (memcpy (drop dsize dest) src len) (\<lambda>d.
          rbind (arr_set d len 0) (\<lambda>d.
          Inr (r, take dsize dest @ d)))))"

text \<open>\<open>strim\<close>: the index of the last character that is not a space, plus one.\<close>

fun trim_end :: "u8 list \<Rightarrow> nat \<Rightarrow> nat" where
  "trim_end s 0 = 0"
| "trim_end s (Suc n) = (if isspace (s ! n) then trim_end s n else Suc n)"

definition strim :: "u8 list \<Rightarrow> (nat \<times> u8 list) res" where
  "strim s =
     rbind (strlen s) (\<lambda>sz.
     if sz = 0 then Inr (0, s)
     else rbind (arr_set s (trim_end s sz) 0) (\<lambda>s.
          rbind (skip_spaces s) (\<lambda>i. Inr (i, s))))"

text \<open>\<open>strsep\<close>: the token starts at the old position; the new position follows the separator, or is NULL.\<close>

definition strsep :: "u8 list option \<Rightarrow> u8 list \<Rightarrow> (u8 list \<times> nat option) option res" where
  "strsep s ct =
     (case s of
        None \<Rightarrow> Inr None
      | Some sbegin \<Rightarrow>
          rbind (strpbrk sbegin ct) (\<lambda>e.
          case e of
            None \<Rightarrow> Inr (Some (sbegin, None))
          | Some i \<Rightarrow> rbind (arr_set sbegin i 0) (\<lambda>s'. Inr (Some (s', Some (Suc i))))))"

text \<open>One object, two offsets: the direction of the copy depends on which area starts first.\<close>

fun copy_up :: "u8 list \<Rightarrow> nat \<Rightarrow> nat \<Rightarrow> nat \<Rightarrow> u8 list res" where
  "copy_up m d s 0 = Inr m"
| "copy_up m d s (Suc count) =
     rbind (arr_get m s) (\<lambda>c. rbind (arr_set m d c) (\<lambda>m. copy_up m (Suc d) (Suc s) count))"

fun copy_down :: "u8 list \<Rightarrow> nat \<Rightarrow> nat \<Rightarrow> nat \<Rightarrow> u8 list res" where
  "copy_down m d s 0 = Inr m"
| "copy_down m d s (Suc count) =
     rbind (arr_get m (s + count)) (\<lambda>c. rbind (arr_set m (d + count) c) (\<lambda>m. copy_down m d s count))"

definition memmove :: "u8 list \<Rightarrow> nat \<Rightarrow> nat \<Rightarrow> nat \<Rightarrow> u8 list res" where
  "memmove m dest src count = (if dest \<le> src then copy_up m dest src count else copy_down m dest src count)"

section \<open>memchr\_inv\<close>

fun check_bytes8 :: "u8 list \<Rightarrow> u8 \<Rightarrow> nat \<Rightarrow> nat option res" where
  "check_bytes8 start v 0 = Inr None"
| "check_bytes8 [] v (Suc bytes) = Inl OutOfBounds"
| "check_bytes8 (x # start) v (Suc bytes) =
     (if x \<noteq> v then Inr (Some 0) else rbind (check_bytes8 start v bytes) (\<lambda>r. Inr (opt_Suc r)))"

definition at_offset :: "nat \<Rightarrow> nat option res \<Rightarrow> nat option res" where
  "at_offset k r = rbind r (\<lambda>o'. Inr (map_option (\<lambda>i. k + i) o'))"

definition le64 :: "u8 list \<Rightarrow> u64 res" where
  "le64 s = (case s of b0 # b1 # b2 # b3 # b4 # b5 # b6 # b7 # _ \<Rightarrow>
       Inr (ucast b0 OR push_bit 8 (ucast b1) OR push_bit 16 (ucast b2) OR push_bit 24 (ucast b3) OR
            push_bit 32 (ucast b4) OR push_bit 40 (ucast b5) OR push_bit 48 (ucast b6) OR push_bit 56 (ucast b7))
     | _ \<Rightarrow> Inl OutOfBounds)"

definition spread64 :: "u8 \<Rightarrow> u64" where
  "spread64 v =
     (let w = ucast v;
          w = w OR push_bit 8 w;
          w = w OR push_bit 16 w
      in w OR push_bit 32 w)"

fun inv_words :: "u8 list \<Rightarrow> u8 \<Rightarrow> u64 \<Rightarrow> nat \<Rightarrow> nat \<Rightarrow> nat option res" where
  "inv_words start v v64 0 rest = check_bytes8 start v rest"
| "inv_words start v v64 (Suc words) rest =
     rbind (le64 start) (\<lambda>w.
     if w \<noteq> v64 then check_bytes8 start v 8
     else at_offset 8 (inv_words (drop 8 start) v v64 words rest))"

text \<open>\<open>addr\<close> is the address of the area, which decides how many bytes come before the first aligned word.\<close>

definition memchr_inv :: "nat \<Rightarrow> u8 list \<Rightarrow> u8 \<Rightarrow> nat \<Rightarrow> nat option res" where
  "memchr_inv addr start v bytes =
     (if bytes \<le> 16 then check_bytes8 start v bytes
      else let v64 = spread64 v; prefix = addr mod 8 in
        if prefix \<noteq> 0 then
          let prefix = 8 - prefix in
          rbind (check_bytes8 start v prefix) (\<lambda>r.
          case r of
            Some i \<Rightarrow> Inr (Some i)
          | None \<Rightarrow> at_offset prefix (inv_words (drop prefix start) v v64 ((bytes - prefix) div 8) ((bytes - prefix) mod 8)))
        else inv_words start v v64 (bytes div 8) (bytes mod 8))"

section \<open>C strings\<close>

definition cstr :: "u8 list \<Rightarrow> u8 list" where
  "cstr s = takeWhile (\<lambda>c. c \<noteq> 0) s"

lemma cstr_simps [simp]: "cstr [] = []" "cstr (c # s) = (if c = 0 then [] else c # cstr s)"
  by (simp_all add: cstr_def)

lemma cstr_nz: "0 \<notin> set (cstr s)"
  by (induction s) auto

lemma cstr_split: "0 \<in> set s \<Longrightarrow> \<exists>r. s = cstr s @ 0 # r"
  by (induction s) auto

lemma cstr_append: "0 \<notin> set xs \<Longrightarrow> cstr (xs @ ys) = xs @ cstr ys"
  by (induction xs) auto

lemma length_cstr: "0 \<in> set s \<Longrightarrow> length (cstr s) < length s"
  by (induction s) auto

lemma take_cstr: "take (length (cstr s)) s = cstr s"
  by (induction s) auto

lemma strlen_spec: "strlen s = (if 0 \<in> set s then Inr (length (cstr s)) else Inl OutOfBounds)"
  by (induction s) auto

lemma memcpy_spec:
  "count \<le> length dest \<Longrightarrow> count \<le> length src \<Longrightarrow> memcpy dest src count = Inr (take count src @ drop count dest)"
  by (induction dest src count rule: memcpy.induct) auto

lemma byte_diff_0 [simp]: "byte_diff a b = 0 \<longleftrightarrow> a = b"
  by (auto simp: byte_diff_def word_uint_eq_iff)

lemma memcmp_spec:
  "count \<le> length cs \<Longrightarrow> count \<le> length ct \<Longrightarrow>
   \<exists>r. memcmp cs ct count = Inr r \<and> (r = 0 \<longleftrightarrow> take count cs = take count ct)"
  by (induction cs ct count rule: memcmp.induct) auto

lemma in_set_spec: "0 \<in> set as \<Longrightarrow> in_set c as = Inr (c \<in> set (cstr as))"
  by (induction as) auto

lemma strspn_spec:
  "0 \<in> set s \<Longrightarrow> 0 \<in> set acc \<Longrightarrow> strspn s acc = Inr (length (takeWhile (\<lambda>c. c \<in> set (cstr acc)) (cstr s)))"
  by (induction s) (auto simp: in_set_spec)

lemma strcspn_spec:
  "0 \<in> set s \<Longrightarrow> 0 \<in> set rej \<Longrightarrow> strcspn s rej = Inr (length (takeWhile (\<lambda>c. c \<notin> set (cstr rej)) (cstr s)))"
  by (induction s) (auto simp: in_set_spec)

lemma strcpy_spec:
  "0 \<in> set src \<Longrightarrow> length (cstr src) < length dest \<Longrightarrow>
   strcpy dest src = Inr (cstr src @ 0 # drop (Suc (length (cstr src))) dest)"
  by (induction dest src rule: strcpy.induct) auto

lemma strcat_spec:
  "0 \<in> set src \<Longrightarrow> 0 \<in> set dest \<Longrightarrow> length (cstr dest) + length (cstr src) < length dest \<Longrightarrow>
   strcat dest src = Inr (cstr dest @ cstr src @ 0 # drop (Suc (length (cstr dest) + length (cstr src))) dest)"
  by (induction dest src rule: strcat.induct) (auto simp: strcpy_spec)

lemma arr_set_split: "length xs = n \<Longrightarrow> arr_set (xs @ y # ys) n v = Inr (xs @ v # ys)"
  by (auto simp: arr_set_def)

lemma copy_up_spec:
  "d \<le> s \<Longrightarrow> s + n \<le> length m \<Longrightarrow> copy_up m d s n = Inr (take d m @ take n (drop s m) @ drop (d + n) m)"
proof (induction n arbitrary: m d s)
  case (Suc n)
  let ?m = "m[d := m ! s]"
  have "copy_up m d s (Suc n) = copy_up ?m (Suc d) (Suc s) n" using Suc.prems by simp
  also have "\<dots> = Inr (take (Suc d) ?m @ take n (drop (Suc s) ?m) @ drop (Suc d + n) ?m)"
    using Suc.prems by (intro Suc.IH) auto
  also have "take (Suc d) ?m = take d m @ [m ! s]" using Suc.prems by (simp add: take_Suc_conv_app_nth)
  also have "drop (Suc s) ?m = drop (Suc s) m" using Suc.prems by simp
  finally show ?case using Suc.prems by (simp add: Cons_nth_drop_Suc [symmetric])
qed simp

lemma copy_down_spec:
  "s < d \<Longrightarrow> d + n \<le> length m \<Longrightarrow> copy_down m d s n = Inr (take d m @ take n (drop s m) @ drop (d + n) m)"
proof (induction n arbitrary: m)
  case (Suc n)
  let ?m = "m[d + n := m ! (s + n)]"
  have "copy_down m d s (Suc n) = copy_down ?m d s n" using Suc.prems by simp
  also have "\<dots> = Inr (take d ?m @ take n (drop s ?m) @ drop (d + n) ?m)"
    using Suc.prems by (intro Suc.IH) auto
  also have "take d ?m = take d m" by simp
  also have "take n (drop s ?m) = take n (drop s m)"
    using Suc.prems by (simp add: take_drop)
  also have "drop (d + n) ?m = m ! (s + n) # drop (d + Suc n) m"
    using Suc.prems by (simp add: drop_update_swap Cons_nth_drop_Suc [symmetric])
  also have "take n (drop s m) @ m ! (s + n) # drop (d + Suc n) m = take (Suc n) (drop s m) @ drop (d + Suc n) m"
    using Suc.prems by (simp add: take_Suc_conv_app_nth)
  finally show ?case .
qed simp

lemma check_bytes8_spec:
  "n \<le> length s \<Longrightarrow> check_bytes8 s v n = Inr (first_from (\<lambda>j. s ! j \<noteq> v) 0 n)"
proof (induction s v n rule: check_bytes8.induct)
  case (3 x s v n)
  then show ?case by (simp add: opt_Suc_def first_from_Suc)
qed auto

lemma bits_of_byte: "bit (ucast (b :: u8) :: u64) n \<longleftrightarrow> n < 8 \<and> bit b n"
  by (auto simp: bit_simps dest: bit_imp_le_length)

lemma le64_eq_spread:
  assumes "le64 s = Inr w"
  shows "w = spread64 v \<longleftrightarrow> take 8 s = replicate 8 v"
proof -
  from assms obtain b0 b1 b2 b3 b4 b5 b6 b7 r where s: "s = b0 # b1 # b2 # b3 # b4 # b5 # b6 # b7 # r"
    and w: "w = ucast b0 OR push_bit 8 (ucast b1) OR push_bit 16 (ucast b2) OR push_bit 24 (ucast b3) OR
            push_bit 32 (ucast b4) OR push_bit 40 (ucast b5) OR push_bit 48 (ucast b6) OR push_bit 56 (ucast b7)"
    by (auto simp: le64_def split: list.splits)
  have bits: "bit w n = bit b0 n" "bit w (8 + n) = bit b1 n" "bit w (16 + n) = bit b2 n" "bit w (24 + n) = bit b3 n"
    "bit w (32 + n) = bit b4 n" "bit w (40 + n) = bit b5 n" "bit w (48 + n) = bit b6 n" "bit w (56 + n) = bit b7 n"
    if "n < 8" for n
    using that unfolding w by (simp_all add: bit_or_iff bit_push_bit_iff bits_of_byte)
  have sp: "bit (spread64 v) n = bit v n" "bit (spread64 v) (8 + n) = bit v n" "bit (spread64 v) (16 + n) = bit v n"
    "bit (spread64 v) (24 + n) = bit v n" "bit (spread64 v) (32 + n) = bit v n" "bit (spread64 v) (40 + n) = bit v n"
    "bit (spread64 v) (48 + n) = bit v n" "bit (spread64 v) (56 + n) = bit v n"
    if "n < 8" for n
    using that unfolding spread64_def Let_def by (simp_all add: bit_or_iff bit_push_bit_iff bits_of_byte)
  show ?thesis
  proof
    assume "w = spread64 v"
    then have "bit b n = bit v n" if "b \<in> {b0, b1, b2, b3, b4, b5, b6, b7}" "n < 8" for b n
      using that bits [of n] sp [of n] by auto
    then have "b = v" if "b \<in> {b0, b1, b2, b3, b4, b5, b6, b7}" for b
      using that by (intro bit_word_eqI) auto
    then show "take 8 s = replicate 8 v" by (simp add: s eval_nat_numeral)
  next
    assume "take 8 s = replicate 8 v"
    then have "b0 = v" "b1 = v" "b2 = v" "b3 = v" "b4 = v" "b5 = v" "b6 = v" "b7 = v" by (simp_all add: s eval_nat_numeral)
    then show "w = spread64 v" unfolding w spread64_def Let_def
      by (simp add: push_bit_or ac_simps)
  qed
qed

lemma le64_total: "8 \<le> length s \<Longrightarrow> \<exists>w. le64 s = Inr w"
proof -
  assume "8 \<le> length s"
  then obtain b0 b1 b2 b3 b4 b5 b6 b7 r where "s = b0 # b1 # b2 # b3 # b4 # b5 # b6 # b7 # r"
    by (metis (no_types, opaque_lifting) Suc_le_length_iff eval_nat_numeral(2,3) semiring_norm(26,27,28) numeral_One One_nat_def)
  then show ?thesis by (simp add: le64_def)
qed

lemma all_equal_first: "(first_from (\<lambda>j. s ! j \<noteq> v) 0 n = None) = (take n s = replicate n v)" if "n \<le> length s"
proof -
  have "take n s = replicate n v \<longleftrightarrow> (\<forall>j < n. s ! j = v)"
    using that by (auto simp: list_eq_iff_nth_eq)
  then show ?thesis by (auto simp: first_from_None_iff)
qed

lemma inv_words_spec:
  "8 * words + rest \<le> length start \<Longrightarrow>
   inv_words start v (spread64 v) words rest = Inr (first_from (\<lambda>j. start ! j \<noteq> v) 0 (8 * words + rest))"
proof (induction words arbitrary: start)
  case 0
  then show ?case by (simp add: check_bytes8_spec)
next
  case (Suc words)
  let ?p = "\<lambda>j. start ! j \<noteq> v"
  from Suc.prems obtain w where w: "le64 start = Inr w" using le64_total by fastforce
  note eq = le64_eq_spread [OF w, of v]
  have e: "8 * Suc words + rest = 8 + (8 * words + rest)" by simp
  have split: "first_from ?p 0 (8 * Suc words + rest) =
      (case first_from ?p 0 8 of None \<Rightarrow> first_from ?p 8 (8 * words + rest) | Some j \<Rightarrow> Some j)"
    unfolding e using first_from_add [of ?p 0 8 "8 * words + rest"] unfolding add_0 .
  have 8: "(first_from ?p 0 8 = None) = (take 8 start = replicate 8 v)"
    using Suc.prems by (intro all_equal_first) simp
  show ?case
  proof (cases "w = spread64 v")
    case True
    have "first_from ?p (0 + 8) (8 * words + rest) = map_option (\<lambda>j. 8 + j) (first_from (\<lambda>j. start ! (8 + j) \<noteq> v) 0 (8 * words + rest))"
      by (rule first_from_offset)
    moreover have "first_from (\<lambda>j. start ! (8 + j) \<noteq> v) 0 (8 * words + rest) = first_from (\<lambda>j. drop 8 start ! j \<noteq> v) 0 (8 * words + rest)"
      by (rule first_from_cong) (use Suc.prems in simp)
    moreover have "inv_words (drop 8 start) v (spread64 v) words rest = Inr (first_from (\<lambda>j. drop 8 start ! j \<noteq> v) 0 (8 * words + rest))"
      using Suc.prems by (intro Suc.IH) simp
    ultimately show ?thesis using True w split 8 eq by (simp add: at_offset_def)
  next
    case False
    then obtain i where "first_from ?p 0 8 = Some i" using eq 8 by auto
    moreover have "check_bytes8 start v 8 = Inr (first_from ?p 0 8)" using Suc.prems by (intro check_bytes8_spec) simp
    ultimately show ?thesis using False w split by simp
  qed
qed

lemma memchr_inv_spec:
  assumes "bytes \<le> length start"
  shows "memchr_inv addr start v bytes = Inr (first_from (\<lambda>j. start ! j \<noteq> v) 0 bytes)"
proof -
  let ?p = "\<lambda>j. start ! j \<noteq> v"
  consider "bytes \<le> 16" | "16 < bytes" "addr mod 8 = 0" | "16 < bytes" "addr mod 8 \<noteq> 0" by linarith
  then show ?thesis
  proof cases
    case 1
    then show ?thesis using assms by (simp add: memchr_inv_def check_bytes8_spec)
  next
    case 2
    have "inv_words start v (spread64 v) (bytes div 8) (bytes mod 8) = Inr (first_from ?p 0 (8 * (bytes div 8) + bytes mod 8))"
      by (rule inv_words_spec) (use assms in simp)
    then show ?thesis using 2 by (simp add: memchr_inv_def Let_def)
  next
    case 3
    define k where "k = 8 - addr mod 8"
    have big: "\<not> bytes \<le> 16" using 3(1) by simp
    have k: "k \<le> 8" "k \<le> bytes" using 3 by (auto simp: k_def)
    have c: "check_bytes8 start v k = Inr (first_from ?p 0 k)" using assms k by (intro check_bytes8_spec) simp
    have w: "inv_words (drop k start) v (spread64 v) ((bytes - k) div 8) ((bytes - k) mod 8) =
        Inr (first_from (\<lambda>j. drop k start ! j \<noteq> v) 0 (8 * ((bytes - k) div 8) + (bytes - k) mod 8))"
      by (rule inv_words_spec) (use assms k in simp)
    have o: "first_from ?p (0 + k) (bytes - k) = map_option (\<lambda>j. k + j) (first_from (\<lambda>j. drop k start ! j \<noteq> v) 0 (bytes - k))"
      unfolding first_from_offset by (rule arg_cong [of _ _ "map_option _"], rule first_from_cong) (use assms k in simp)
    have "first_from ?p 0 bytes = (case first_from ?p 0 k of None \<Rightarrow> first_from ?p (0 + k) (bytes - k) | Some j \<Rightarrow> Some j)"
      using first_from_add [of ?p 0 k "bytes - k"] k by simp
    moreover have "memchr_inv addr start v bytes = rbind (check_bytes8 start v k) (\<lambda>r. case r of Some i \<Rightarrow> Inr (Some i)
          | None \<Rightarrow> at_offset k (inv_words (drop k start) v (spread64 v) ((bytes - k) div 8) ((bytes - k) mod 8)))"
      using big 3(2) unfolding k_def memchr_inv_def Let_def by (simp only: if_False if_True simp_thms)
    ultimately show ?thesis using o by (simp add: c w at_offset_def split: option.split)
  qed
qed

lemma strstr_loop_spec:
  assumes "length s2 \<ge> l2" "0 < l2" "i + l1 \<le> length s1"
  shows "strstr_loop s1 s2 l2 l1 i = Inr (first_from (\<lambda>j. take l2 (drop j s1) = take l2 s2) i (Suc l1 - l2))"
  using assms(3)
proof (induction l1 arbitrary: i)
  case 0
  then show ?case using assms(2) by (subst strstr_loop.simps) simp
next
  case (Suc l1)
  show ?case
  proof (cases "l2 \<le> Suc l1")
    case True
    have l: "l2 \<le> length (drop i s1)" using True Suc.prems by simp
    from memcmp_spec [OF l assms(1)] obtain r
      where r: "memcmp (drop i s1) s2 l2 = Inr r" "r = 0 \<longleftrightarrow> take l2 (drop i s1) = take l2 s2" by blast
    have e: "Suc (Suc l1) - l2 = Suc (Suc l1 - l2)" using True by simp
    have "strstr_loop s1 s2 l2 (Suc l1) i = (if r = 0 then Inr (Some i) else strstr_loop s1 s2 l2 l1 (Suc i))"
      using True r(1) by (subst strstr_loop.simps) simp
    then show ?thesis unfolding e using Suc r(2) by simp
  next
    case False
    then show ?thesis by (subst strstr_loop.simps) simp
  qed
qed

lemma strstr_spec:
  assumes "0 \<in> set s1" "0 \<in> set s2"
  shows "strstr s1 s2 = Inr (first_from (\<lambda>j. take (length (cstr s2)) (drop j (cstr s1)) = cstr s2) 0 (Suc (length (cstr s1)) - length (cstr s2)))"
proof (cases "cstr s2 = []")
  case True
  then show ?thesis using assms by (simp add: strstr_def strlen_spec)
next
  case False
  let ?l1 = "length (cstr s1)" and ?l2 = "length (cstr s2)"
  have "strstr s1 s2 = strstr_loop s1 s2 ?l2 ?l1 0" using assms False by (simp add: strstr_def strlen_spec)
  also have "\<dots> = Inr (first_from (\<lambda>j. take ?l2 (drop j s1) = take ?l2 s2) 0 (Suc ?l1 - ?l2))"
    using length_cstr [OF assms(1)] length_cstr [OF assms(2)] False by (intro strstr_loop_spec) auto
  also have "first_from (\<lambda>j. take ?l2 (drop j s1) = take ?l2 s2) 0 (Suc ?l1 - ?l2) =
      first_from (\<lambda>j. take ?l2 (drop j (cstr s1)) = cstr s2) 0 (Suc ?l1 - ?l2)"
  proof (rule first_from_cong)
    fix j
    assume "j < 0 + (Suc ?l1 - ?l2)"
    then have j: "j + ?l2 \<le> ?l1" by simp
    from cstr_split [OF assms(1)] obtain r where r: "s1 = cstr s1 @ 0 # r" by blast
    have "take ?l2 (drop j s1) = take ?l2 (drop j (cstr s1))" using j by (subst r) simp
    then show "(take ?l2 (drop j s1) = take ?l2 s2) = (take ?l2 (drop j (cstr s1)) = cstr s2)" by (simp add: take_cstr)
  qed
  finally show ?thesis .
qed

lemma strcmp_lex:
  "0 \<in> set cs \<Longrightarrow> 0 \<in> set ct \<Longrightarrow>
   strcmp cs ct = Inr (if cstr cs = cstr ct then 0 else if ord_class.lexordp (cstr cs) (cstr ct) then -1 else 1)"
  by (induction cs ct rule: strcmp.induct) (auto simp: word_gt_0)

lemma strlcpy_spec:
  assumes "0 \<in> set src" "sz \<le> length dest" "0 < sz"
  shows "\<exists>d. strlcpy dest src sz = Inr (length (cstr src), d) \<and> d = take (sz - 1) (cstr src) @ 0 # drop (Suc (min (sz - 1) (length (cstr src)))) dest"
proof -
  let ?n = "length (cstr src)"
  let ?l = "if ?n \<ge> sz then sz - 1 else ?n"
  have l: "?l = min (sz - 1) ?n" "?l < length dest" "?l \<le> length src" using assms length_cstr [OF assms(1)] by auto
  have t: "take ?l src = take (sz - 1) (cstr src)"
  proof -
    have "take ?l src = take ?l (take ?n src)" using l(1) by simp
    then show ?thesis using l(1) by (simp add: take_cstr min_def)
  qed
  obtain y ys where d: "drop ?l dest = y # ys" "ys = drop (Suc ?l) dest" using l(2) by (metis Cons_nth_drop_Suc)
  have "memcpy dest src ?l = Inr (take ?l src @ y # ys)" using memcpy_spec [of ?l dest src] l d by simp
  moreover have "arr_set (take ?l src @ y # ys) ?l 0 = Inr (take ?l src @ 0 # ys)" using l(3) by (intro arr_set_split) simp
  ultimately show ?thesis using assms(1,3) by (simp add: strlcpy_def strlen_spec Let_def t d(2) l(1) [symmetric] del: drop_append)
qed

lemma cstr_cut: "0 \<notin> set xs \<Longrightarrow> cstr (xs @ 0 # ys) = xs"
  by (simp add: cstr_append)

lemma cstr_take_nz: "0 \<notin> set (take n (cstr s))"
  using cstr_nz [of s] by (auto dest: in_set_takeD)

lemma strlcat_spec:
  assumes "0 \<in> set src" "0 \<in> set dest" "count \<le> length dest" "length (cstr dest) < count"
  shows "\<exists>d. strlcat dest src count = Inr (length (cstr dest) + length (cstr src), d) \<and> length d = length dest \<and>
    cstr d = take (count - 1) (cstr dest @ cstr src) \<and> drop count d = drop count dest"
proof -
  let ?m = "length (cstr dest)" and ?n = "length (cstr src)"
  define k where "k = (if ?n \<ge> count - ?m then count - ?m - 1 else ?n)"
  let ?d = "drop ?m dest"
  have l: "k = min (count - ?m - 1) ?n" "k < length ?d" "k \<le> length src" "Suc (?m + k) \<le> count"
    using assms length_cstr [OF assms(1)] by (auto simp: k_def)
  have t: "take k src = take (count - ?m - 1) (cstr src)"
  proof -
    have "take k src = take k (take ?n src)" using l(1) by simp
    then show ?thesis using l(1) by (simp add: take_cstr min_def)
  qed
  obtain y ys where d: "drop k ?d = y # ys" "ys = drop (Suc k) ?d" using l(2) by (metis Cons_nth_drop_Suc)
  have "memcpy ?d src k = Inr (take k src @ y # ys)" using memcpy_spec [of k ?d src] l d by simp
  moreover have "arr_set (take k src @ y # ys) k 0 = Inr (take k src @ 0 # ys)" using l(3) by (intro arr_set_split) simp
  ultimately have "strlcat dest src count = Inr (?m + ?n, cstr dest @ take k src @ 0 # ys)"
    using assms by (simp add: strlcat_def strlen_spec Let_def take_cstr flip: k_def)
  moreover have "length (cstr dest @ take k src @ 0 # ys) = length dest"
    using l(2-4) length_cstr [OF assms(2)] by (simp add: d(2))
  moreover have "cstr (cstr dest @ take k src @ 0 # ys) = take (count - 1) (cstr dest @ cstr src)"
    using assms(4) unfolding t by (simp add: cstr_append cstr_nz cstr_cut cstr_take_nz)
  moreover have "drop count (cstr dest @ take k src @ 0 # ys) = drop count dest"
  proof -
    have "length (cstr dest @ take k src @ [0]) = Suc (?m + k)" using l(3) by simp
    then have "drop count ((cstr dest @ take k src @ [0]) @ ys) = drop (count - Suc (?m + k)) ys"
      using l(4) by (simp only: drop_append drop_all) simp
    then show ?thesis using l(4) by (simp add: d(2) add.commute)
  qed
  ultimately show ?thesis by blast
qed

section \<open>Properties\<close>

text \<open>
  \<open>memmove\<close> copes with overlapping areas: whatever the two offsets, the destination holds what the source
  held before the call, and every byte outside the destination is unchanged.
\<close>

theorem memmove_overlap:
  assumes "d + n \<le> length m" "s + n \<le> length m"
  shows "memmove m d s n = Inr (take d m @ take n (drop s m) @ drop (d + n) m)"
  using assms copy_up_spec [of d s n m] copy_down_spec [of s d n m] by (simp add: memmove_def)

theorem memmove_overlap_witness:
  "memmove [1, 2, 3, 4, 5] 1 0 4 = Inr [1, 1, 2, 3, 4] \<and> memmove [1, 2, 3, 4, 5] 0 1 4 = Inr [2, 3, 4, 5, 5]"
  using memmove_overlap [of 1 4 "[1, 2, 3, 4, 5]" 0] memmove_overlap [of 0 4 "[1, 2, 3, 4, 5]" 1] by simp

text \<open>
  \<open>memchr_inv\<close>, which compares eight aligned bytes at a time with the byte spread over a word, returns the
  first offset whose byte differs, or NULL, for every address and size.
\<close>

theorem memchr_inv_first:
  assumes "bytes \<le> length start"
  shows "\<exists>r. memchr_inv addr start v bytes = Inr r \<and>
    (case r of None \<Rightarrow> \<forall>j < bytes. start ! j = v
     | Some i \<Rightarrow> i < bytes \<and> start ! i \<noteq> v \<and> (\<forall>j < i. start ! j = v))"
proof -
  let ?r = "first_from (\<lambda>j. start ! j \<noteq> v) 0 bytes"
  have "case ?r of None \<Rightarrow> \<forall>j < bytes. start ! j = v
     | Some i \<Rightarrow> i < bytes \<and> start ! i \<noteq> v \<and> (\<forall>j < i. start ! j = v)"
  proof (cases ?r)
    case None
    then show ?thesis using first_from_None_iff [of "\<lambda>j. start ! j \<noteq> v" 0 bytes] by simp
  next
    case (Some i)
    from first_from_Some [OF Some] Some show ?thesis by simp
  qed
  with memchr_inv_spec [OF assms] show ?thesis by blast
qed

theorem memchr_inv_first_witness:
  "\<exists>r. memchr_inv 3 (replicate 20 7 @ [8]) 7 21 = Inr r \<and> r \<noteq> None"
proof -
  from memchr_inv_first [of 21 "replicate 20 7 @ [8]" 3 7] obtain r where r: "memchr_inv 3 (replicate 20 7 @ [8]) 7 21 = Inr r"
    "case r of None \<Rightarrow> \<forall>j < 21. (replicate 20 7 @ [8]) ! j = (7 :: u8) | Some i \<Rightarrow> True"
    by (auto split: option.splits)
  have "(replicate 20 7 @ [8]) ! 20 \<noteq> (7 :: u8)" by (simp add: nth_append)
  with r show ?thesis by (intro exI [of _ r]) (auto split: option.splits)
qed



text \<open>
  \<open>strstr\<close> returns the first offset at which the second string occurs in the first and NULL when it does not occur,
  and \<open>strcmp\<close> orders strings lexicographically by unsigned bytes.
\<close>

theorem strstr_strcmp_spec:
  assumes "0 \<in> set s1" "0 \<in> set s2"
  shows "(\<exists>r. strstr s1 s2 = Inr r \<and>
      (case r of None \<Rightarrow> \<nexists>a b. cstr s1 = a @ cstr s2 @ b
       | Some i \<Rightarrow> (\<exists>b. cstr s1 = take i (cstr s1) @ cstr s2 @ b) \<and>
                   (\<forall>a b. cstr s1 = a @ cstr s2 @ b \<longrightarrow> i \<le> length a))) \<and>
    strcmp s1 s2 = Inr (if cstr s1 = cstr s2 then 0 else if ord_class.lexordp (cstr s1) (cstr s2) then -1 else 1)"
proof (rule conjI)
  let ?p = "\<lambda>j. take (length (cstr s2)) (drop j (cstr s1)) = cstr s2"
  let ?n = "Suc (length (cstr s1)) - length (cstr s2)"
  let ?r = "first_from ?p 0 ?n"
  have occ: "?p (length a) \<and> length a < ?n" if "cstr s1 = a @ cstr s2 @ b" for a b using that by simp
  have "case ?r of None \<Rightarrow> \<nexists>a b. cstr s1 = a @ cstr s2 @ b
       | Some i \<Rightarrow> (\<exists>b. cstr s1 = take i (cstr s1) @ cstr s2 @ b) \<and> (\<forall>a b. cstr s1 = a @ cstr s2 @ b \<longrightarrow> i \<le> length a)"
  proof (cases ?r)
    case None
    then have "\<not> ?p j" if "j < ?n" for j using that by (simp only: first_from_None_iff) simp
    then have "\<nexists>a b. cstr s1 = a @ cstr s2 @ b" using occ by blast
    then show ?thesis unfolding None option.case .
  next
    case (Some i)
    from first_from_Some [OF Some] have i: "?p i" "\<And>l. l < i \<Longrightarrow> \<not> ?p l" by auto
    have "cstr s1 = take i (cstr s1) @ cstr s2 @ drop (length (cstr s2)) (drop i (cstr s1))"
      using i(1) by (metis append_take_drop_id)
    moreover have "i \<le> length a" if "cstr s1 = a @ cstr s2 @ b" for a b
      using occ [OF that] i(2) [of "length a"] by linarith
    ultimately show ?thesis using Some by auto
  qed
  then show "\<exists>r. strstr s1 s2 = Inr r \<and> (case r of None \<Rightarrow> \<nexists>a b. cstr s1 = a @ cstr s2 @ b
       | Some i \<Rightarrow> (\<exists>b. cstr s1 = take i (cstr s1) @ cstr s2 @ b) \<and> (\<forall>a b. cstr s1 = a @ cstr s2 @ b \<longrightarrow> i \<le> length a))"
    using strstr_spec [OF assms] by blast
qed (rule strcmp_lex [OF assms])

theorem strstr_strcmp_spec_witness:
  "strcmp [97, 98, 0] [97, 99, 0] = Inr (-1) \<and> (\<exists>r. strstr [97, 98, 98, 99, 0] [98, 99, 0] = Inr r)"
  using strstr_strcmp_spec [of "[97, 98, 0]" "[97, 99, 0]"] strstr_strcmp_spec [of "[97, 98, 98, 99, 0]" "[98, 99, 0]"]
  by auto

end
