(* ===== verification/Kstrtox.thy ===== *)
theory Kstrtox
  imports KString
begin

text \<open>
  The conversion of strings to integers, \<^verbatim>\<open>lib/kstrtox.c\<close>. A string is the list of bytes from the pointer to the end of
  its object, as in \<open>KString\<close>; \<open>char\<close> is unsigned on this target. A conversion returns a negative error code
  (\<open>Inl\<close>), with the result left alone, or the value stored in the result (\<open>Inr\<close>).
\<close>

section \<open>Parsing digits\<close>

definition ERANGE :: int where "ERANGE = 34"
definition K_EINVAL :: int where "K_EINVAL = 22"
definition K_EFAULT :: int where "K_EFAULT = 14"
definition KSTRTOX_OVERFLOW :: u32 where "KSTRTOX_OVERFLOW = 0x80000000"

definition fast_tolower :: "u8 \<Rightarrow> u8" where "fast_tolower c = c OR 0x20"

definition parse_integer_fixup_radix :: "u8 list \<Rightarrow> u32 \<Rightarrow> (u8 list \<times> u32) res" where
  "parse_integer_fixup_radix s base =
     rbind (if base = 0 then
              rbind (arr_get s 0) (\<lambda>c0.
              if c0 = 48 then
                rbind (arr_get s 1) (\<lambda>c1.
                if fast_tolower c1 = 120 then
                  rbind (arr_get s 2) (\<lambda>c2. if isxdigit c2 then Inr 16 else Inr 8)
                else Inr 8)
              else Inr 10)
            else Inr base) (\<lambda>base.
     if base = 16 then
       rbind (arr_get s 0) (\<lambda>c0.
       if c0 = 48 then
         rbind (arr_get s 1) (\<lambda>c1. Inr (if fast_tolower c1 = 120 then drop 2 s else s, base))
       else Inr (s, base))
     else Inr (s, base))"

text \<open>The value of a digit, \<open>None\<close> where the loop breaks because the character is none.\<close>

definition digit_val :: "u8 \<Rightarrow> u32 option" where
  "digit_val c =
     (if 48 \<le> c \<and> c \<le> 57 then Some (ucast c - 48)
      else if 97 \<le> fast_tolower c \<and> fast_tolower c \<le> 102 then Some (ucast (fast_tolower c) - 97 + 10)
      else None)"

text \<open>
  The loop. The quotient is only taken once a digit is below the base, so the base is not zero there.
\<close>

fun parse_digits :: "u8 list \<Rightarrow> u32 \<Rightarrow> u64 \<Rightarrow> u32 \<Rightarrow> bool \<Rightarrow> (u64 \<times> u32 \<times> bool) res" where
  "parse_digits [] base r rv overflow = Inl OutOfBounds"
| "parse_digits (c # s) base r rv overflow =
     (if c = 0 then Inr (r, rv, overflow)
      else case digit_val c of
        None \<Rightarrow> Inr (r, rv, overflow)
      | Some val \<Rightarrow>
          if val \<ge> base then Inr (r, rv, overflow)
          else let overflow' = (if r AND push_bit 60 (NOT 0) \<noteq> 0 \<and> r > (NOT 0 - ucast val) div ucast base then True else overflow)
               in parse_digits s base (r * ucast base + ucast val) (rv + 1) overflow')"

definition parse_integer :: "u8 list \<Rightarrow> u32 \<Rightarrow> (u32 \<times> u64) res" where
  "parse_integer s base =
     rbind (parse_digits s base 0 0 False) (\<lambda>(r, rv, overflow).
     Inr (if overflow then rv OR KSTRTOX_OVERFLOW else rv, r))"

section \<open>The conversions\<close>

definition kstrtoull_unsigned :: "u8 list \<Rightarrow> u32 \<Rightarrow> (int + u64) res" where
  "kstrtoull_unsigned s base =
     rbind (parse_integer_fixup_radix s base) (\<lambda>(s, base).
     rbind (parse_integer s base) (\<lambda>(rv, r).
     if rv AND KSTRTOX_OVERFLOW \<noteq> 0 then Inr (Inl (- ERANGE))
     else if rv = 0 then Inr (Inl (- K_EINVAL))
     else let s = drop (unat rv) s in
       rbind (rd s) (\<lambda>c.
       let s = (if c = 10 then drop 1 s else s) in
       rbind (rd s) (\<lambda>c.
       if c \<noteq> 0 then Inr (Inl (- K_EINVAL)) else Inr (Inr r)))))"

definition kstrtoull :: "u8 list \<Rightarrow> u32 \<Rightarrow> (int + u64) res" where
  "kstrtoull s base =
     rbind (rd s) (\<lambda>c. kstrtoull_unsigned (if c = 43 then drop 1 s else s) base)"

definition kstrtoll :: "u8 list \<Rightarrow> u32 \<Rightarrow> (int + u64) res" where
  "kstrtoll s base =
     rbind (rd s) (\<lambda>c.
     if c = 45 then
       rbind (kstrtoull_unsigned (drop 1 s) base) (\<lambda>rv. case rv of
         Inl e \<Rightarrow> Inr (Inl e)
       | Inr tmp \<Rightarrow> if 0 \<le> sint (- tmp) then Inr (Inl (- ERANGE)) else Inr (Inr (- tmp)))
     else
       rbind (kstrtoull s base) (\<lambda>rv. case rv of
         Inl e \<Rightarrow> Inr (Inl e)
       | Inr tmp \<Rightarrow> if sint tmp < 0 then Inr (Inl (- ERANGE)) else Inr (Inr tmp)))"

text \<open>
  The narrower conversions differ in the type they cast to. \<open>unsigned_fit\<close> is the check
  \<^verbatim>\<open>tmp != (unsigned long long)(type)tmp\<close>, \<open>signed_fit\<close> the check \<^verbatim>\<open>tmp != (long long)(type)tmp\<close>.
\<close>

definition unsigned_fit :: "int + u64 \<Rightarrow> (int + 'a::len word) res" where
  "unsigned_fit rv = (case rv of
     Inl e \<Rightarrow> Inr (Inl e)
   | Inr tmp \<Rightarrow> if tmp \<noteq> ucast (ucast tmp :: 'a word) then Inr (Inl (- ERANGE)) else Inr (Inr (ucast tmp)))"

definition signed_fit :: "int + u64 \<Rightarrow> (int + 'a::len word) res" where
  "signed_fit rv = (case rv of
     Inl e \<Rightarrow> Inr (Inl e)
   | Inr tmp \<Rightarrow> if tmp \<noteq> scast (ucast tmp :: 'a word) then Inr (Inl (- ERANGE)) else Inr (Inr (ucast tmp)))"

definition kstrtoul :: "u8 list \<Rightarrow> u32 \<Rightarrow> (int + 32 word) res" where
  "kstrtoul s base = rbind (kstrtoull s base) unsigned_fit"

definition kstrtol :: "u8 list \<Rightarrow> u32 \<Rightarrow> (int + 32 word) res" where
  "kstrtol s base = rbind (kstrtoll s base) signed_fit"

definition kstrtouint :: "u8 list \<Rightarrow> u32 \<Rightarrow> (int + 32 word) res" where
  "kstrtouint s base = rbind (kstrtoull s base) unsigned_fit"

definition kstrtoint :: "u8 list \<Rightarrow> u32 \<Rightarrow> (int + 32 word) res" where
  "kstrtoint s base = rbind (kstrtoll s base) signed_fit"

definition kstrtou16 :: "u8 list \<Rightarrow> u32 \<Rightarrow> (int + 16 word) res" where
  "kstrtou16 s base = rbind (kstrtoull s base) unsigned_fit"

definition kstrtos16 :: "u8 list \<Rightarrow> u32 \<Rightarrow> (int + 16 word) res" where
  "kstrtos16 s base = rbind (kstrtoll s base) signed_fit"

definition kstrtou8 :: "u8 list \<Rightarrow> u32 \<Rightarrow> (int + 8 word) res" where
  "kstrtou8 s base = rbind (kstrtoull s base) unsigned_fit"

definition kstrtos8 :: "u8 list \<Rightarrow> u32 \<Rightarrow> (int + 8 word) res" where
  "kstrtos8 s base = rbind (kstrtoll s base) signed_fit"

text \<open>
  The macro \<open>kstrto_from_user\<close>: \<open>bits\<close> is the width of the type. \<open>user\<close> is what \<open>copy_from_user\<close> can read
  at the user's pointer, \<open>None\<close> when the copy faults for that count.
\<close>

definition kstrto_from_user :: "(u8 list \<Rightarrow> u32 \<Rightarrow> (int + 'a::len word) res) \<Rightarrow> (nat \<Rightarrow> u8 list option) \<Rightarrow> nat \<Rightarrow> u32 \<Rightarrow> (int + 'a word) res" where
  "kstrto_from_user g user count base =
     (let bufsize = 1 + LENGTH('a) + 1 + 1;
          count = min count (bufsize - 1)
      in case user count of
           None \<Rightarrow> Inr (Inl (- K_EFAULT))
         | Some bytes \<Rightarrow> g (take count bytes @ [0]) base)"

definition kstrtoull_from_user where "kstrtoull_from_user = kstrto_from_user kstrtoull"
definition kstrtoll_from_user where "kstrtoll_from_user = kstrto_from_user kstrtoll"
definition kstrtoul_from_user where "kstrtoul_from_user = kstrto_from_user kstrtoul"
definition kstrtol_from_user where "kstrtol_from_user = kstrto_from_user kstrtol"
definition kstrtouint_from_user where "kstrtouint_from_user = kstrto_from_user kstrtouint"
definition kstrtoint_from_user where "kstrtoint_from_user = kstrto_from_user kstrtoint"
definition kstrtou16_from_user where "kstrtou16_from_user = kstrto_from_user kstrtou16"
definition kstrtos16_from_user where "kstrtos16_from_user = kstrto_from_user kstrtos16"
definition kstrtou8_from_user where "kstrtou8_from_user = kstrto_from_user kstrtou8"
definition kstrtos8_from_user where "kstrtos8_from_user = kstrto_from_user kstrtos8"

section \<open>What the digits mean\<close>

definition digit_in :: "u32 \<Rightarrow> u8 \<Rightarrow> bool" where
  "digit_in base c \<longleftrightarrow> (case digit_val c of None \<Rightarrow> False | Some v \<Rightarrow> v < base)"

definition digit_num :: "u8 \<Rightarrow> nat" where
  "digit_num c = (case digit_val c of None \<Rightarrow> 0 | Some v \<Rightarrow> unat v)"

definition number :: "nat \<Rightarrow> nat \<Rightarrow> u8 list \<Rightarrow> nat" where
  "number base n ds = fold (\<lambda>c n. n * base + digit_num c) ds n"

definition has_0x :: "u8 list \<Rightarrow> bool" where
  "has_0x t \<longleftrightarrow> 2 \<le> length t \<and> t ! 0 = 48 \<and> fast_tolower (t ! 1) = 120"

definition radix_of :: "u32 \<Rightarrow> u8 list \<Rightarrow> u32" where
  "radix_of base t =
     (if base \<noteq> 0 then base
      else if has_0x t \<and> 3 \<le> length t \<and> isxdigit (t ! 2) then 16
      else if t \<noteq> [] \<and> t ! 0 = 48 then 8 else 10)"

definition digits_of :: "u32 \<Rightarrow> u8 list \<Rightarrow> u8 list" where
  "digits_of base t = (if radix_of base t = 16 \<and> has_0x t then drop 2 t else t)"

text \<open>What \<open>kstrtoull\<close> makes of a string without its sign: the error codes, or a number.\<close>

definition ull_result :: "u32 \<Rightarrow> u8 list \<Rightarrow> int + nat" where
  "ull_result base t =
     (let b = radix_of base t; ds = takeWhile (digit_in b) (digits_of base t); rest = dropWhile (digit_in b) (digits_of base t);
          n = number (unat b) 0 ds
      in if 2 ^ 64 \<le> n then Inl (- ERANGE)
         else if ds = [] \<or> rest \<notin> {[], [10]} then Inl (- K_EINVAL)
         else Inr n)"

lemma high_bits_nat: "r AND push_bit 60 (NOT 0) \<noteq> 0 \<longleftrightarrow> 2 ^ 60 \<le> unat r" for r :: u64
proof -
  have "r AND push_bit 60 (NOT 0) = 0 \<longleftrightarrow> take_bit 60 r = r"
    by (auto simp: bit_eq_iff bit_and_iff bit_push_bit_iff bit_take_bit_iff bit_not_iff bit_mask_iff)
  also have "\<dots> \<longleftrightarrow> take_bit 60 (unat r) = unat r"
    by (metis unsigned_take_bit_eq word_unat_eq_iff)
  also have "\<dots> \<longleftrightarrow> unat r < 2 ^ 60" by (rule take_bit_nat_eq_self_iff)
  finally show ?thesis by auto
qed

lemma unat32_less: "unat (w :: u32) < 2 ^ 32"
proof -
  have "unat w < 2 ^ LENGTH(32)" by (rule unsigned_less)
  then show ?thesis by simp
qed

text \<open>The test in the loop, taken only near the top of the range, detects every overflow for the bases up to 16.\<close>

lemma overflow_test:
  fixes base val :: u32
  assumes "unat base \<le> 16" "val < base" "n < 2 ^ 64"
  shows "((of_nat n :: u64) AND push_bit 60 (NOT 0) \<noteq> 0 \<and> of_nat n > (NOT 0 - ucast val) div (ucast base :: u64)) \<longleftrightarrow>
    2 ^ 64 \<le> n * unat base + unat val"
proof -
  let ?b = "unat base" and ?v = "unat val"
  have v: "?v < ?b" using assms(2) by (simp add: word_less_nat_alt)
  have n: "unat (of_nat n :: u64) = n" using assms(3) by (simp add: unat_of_nat take_bit_nat_eq_self)
  have u: "unat (ucast val :: u64) = ?v" "unat (ucast base :: u64) = ?b"
    using unat32_less [of val] unat32_less [of base] by (simp_all add: unsigned_ucast_eq take_bit_nat_eq_self)
  have "unat (NOT 0 - ucast val :: u64) = 2 ^ 64 - 1 - ?v"
  proof -
    have "ucast val \<le> (NOT 0 :: u64)" by simp
    then have "unat (NOT 0 - ucast val :: u64) = unat (NOT 0 :: u64) - ?v" by (simp add: unat_sub u)
    then show ?thesis by (simp add: unsigned_minus_1_eq_mask mask_eq_exp_minus_1)
  qed
  then have q: "unat ((NOT 0 - ucast val) div (ucast base :: u64)) = (2 ^ 64 - 1 - ?v) div ?b"
    by (simp add: unat_div u)
  have "(2 ^ 64 - 1 - ?v) div ?b < n \<longleftrightarrow> 2 ^ 64 - 1 - ?v < n * ?b"
    using v by (intro div_less_iff_less_mult) simp
  also have "\<dots> \<longleftrightarrow> 2 ^ 64 \<le> n * ?b + ?v" using v assms(1) by auto
  finally have big: "(2 ^ 64 - 1 - ?v) div ?b < n \<longleftrightarrow> 2 ^ 64 \<le> n * ?b + ?v" .
  have small: "n * ?b + ?v < 2 ^ 64" if "n < 2 ^ 60"
  proof -
    have "n * ?b + ?v < Suc n * ?b" using v by simp
    also have "\<dots> \<le> 2 ^ 60 * 16" using that assms(1) by (intro mult_le_mono) auto
    finally show ?thesis by simp
  qed
  have "(of_nat n AND push_bit 60 (NOT 0 :: u64) \<noteq> 0) = (2 ^ 60 \<le> n)" using high_bits_nat [of "of_nat n"] unfolding n .
  moreover have "(of_nat n > (NOT 0 - ucast val) div (ucast base :: u64)) = (2 ^ 64 \<le> n * ?b + ?v)"
    unfolding word_less_nat_alt q n by (rule big)
  ultimately show ?thesis using small by (meson not_le)
qed

lemma parse_digits_spec:
  assumes "0 \<in> set s" "unat base \<le> 16"
  shows "parse_digits s base (of_nat n) rv (2 ^ 64 \<le> n) =
    (let ds = takeWhile (digit_in base) (cstr s); m = number (unat base) n ds
     in Inr (of_nat m, rv + of_nat (length ds), 2 ^ 64 \<le> m))"
  using assms(1)
proof (induction s arbitrary: n rv)
  case (Cons c s)
  show ?case
  proof (cases "c \<noteq> 0 \<and> digit_in base c")
    case True
    then obtain v where v: "digit_val c = Some v" "v < base" by (auto simp: digit_in_def split: option.splits)
    define n' where "n' = n * unat base + unat v"
    have o: "(if (of_nat n :: u64) AND push_bit 60 (NOT 0) \<noteq> 0 \<and> of_nat n > (NOT 0 - ucast v) div (ucast base :: u64)
        then True else 2 ^ 64 \<le> n) = (2 ^ 64 \<le> n')"
    proof (cases "n < 2 ^ 64")
      case True
      then show ?thesis unfolding overflow_test [OF assms(2) v(2) True] n'_def by simp
    next
      case False
      moreover have "n \<le> n'" using v(2) by (auto simp: n'_def word_less_nat_alt intro: trans_le_add1)
      ultimately show ?thesis by simp
    qed
    have "parse_digits (c # s) base (of_nat n) rv (2 ^ 64 \<le> n) = parse_digits s base (of_nat n') (rv + 1) (2 ^ 64 \<le> n')"
    proof -
      have "of_nat n * ucast base + ucast v = (of_nat n' :: u64)" by (simp add: n'_def)
      moreover have "(c = 0) = False" "(base \<le> v) = False" using v(2) True by auto
      ultimately show ?thesis by (simp only: parse_digits.simps(2) v(1) option.case Let_def o if_False)
    qed
    moreover have "number (unat base) n (c # ds) = number (unat base) n' ds" for ds
      using v by (simp add: number_def n'_def digit_num_def)
    ultimately show ?thesis using Cons True by (simp add: Let_def add.assoc)
  next
    case False
    then show ?thesis by (auto simp: digit_in_def number_def split: option.splits)
  qed
qed simp

lemma fixup_cases:
  assumes "0 \<notin> set t"
  shows "parse_integer_fixup_radix (t @ 0 # r) base =
    Inr (if radix_of base t = 16 \<and> has_0x t then drop 2 t @ 0 # r else t @ 0 # r, radix_of base t)"
proof -
  have x0: "\<not> isxdigit 0" by (simp add: isxdigit_def ismask_def ctype_table_def CT_C_def CT_D_def CT_X_def)
  have f0: "fast_tolower 0 \<noteq> 120" by (simp add: fast_tolower_def)
  note defs = parse_integer_fixup_radix_def radix_of_def has_0x_def
  show ?thesis
  proof (cases t rule: remdups_adj.cases)
    case 1
    then show ?thesis by (simp add: defs)
  next
    case (2 a)
    then show ?thesis using f0 by (simp add: defs)
  next
    case (3 a b xs)
    then show ?thesis using x0 by (cases xs) (simp_all add: defs)
  qed
qed

lemma fixup_spec:
  assumes "0 \<in> set s"
  shows "\<exists>s'. parse_integer_fixup_radix s base = Inr (s', radix_of base (cstr s)) \<and> 0 \<in> set s' \<and>
    length s' \<le> length s \<and> cstr s' = digits_of base (cstr s)"
proof -
  obtain t r where t: "s = t @ 0 # r" "cstr s = t" using cstr_split [OF assms] by metis
  then have nz: "0 \<notin> set t" using cstr_nz [of s] by simp
  then have "0 \<notin> set (drop 2 t)" using in_set_dropD by fastforce
  then show ?thesis
    using fixup_cases [OF nz, of r base] nz unfolding t(2) t(1)
    by (intro exI [of _ "digits_of base t @ 0 # r"]) (simp add: digits_of_def cstr_cut)
qed

lemma radix_16: "unat base \<le> 16 \<Longrightarrow> unat (radix_of base t) \<le> 16"
  by (simp add: radix_of_def)

lemma overflow_bit:
  assumes "m < 2 ^ 31"
  shows "(of_nat m :: u32) AND KSTRTOX_OVERFLOW = 0" "(of_nat m OR KSTRTOX_OVERFLOW) AND KSTRTOX_OVERFLOW \<noteq> (0 :: u32)"
    "unat (of_nat m :: u32) = m" "(of_nat m :: u32) = 0 \<longleftrightarrow> m = 0"
proof -
  have o: "KSTRTOX_OVERFLOW = 2 ^ 31" by (simp add: KSTRTOX_OVERFLOW_def)
  show u: "unat (of_nat m :: u32) = m" using assms by (simp add: unat_of_nat take_bit_nat_eq_self)
  show "(of_nat m :: u32) = 0 \<longleftrightarrow> m = 0"
  proof
    assume "(of_nat m :: u32) = 0"
    with u show "m = 0" by simp
  qed simp
  have "\<not> bit m 31" using assms by (simp add: bit_iff_odd)
  then have "\<not> bit (of_nat m :: u32) 31" by (simp add: bit_of_nat_iff)
  then show "(of_nat m :: u32) AND KSTRTOX_OVERFLOW = 0" unfolding o word_and_eq_0_iff_bits bit_push_1 by auto
  show "(of_nat m OR KSTRTOX_OVERFLOW) AND KSTRTOX_OVERFLOW \<noteq> (0 :: u32)"
    unfolding KSTRTOX_OVERFLOW_def by simp
qed

lemma kstrtoull_core:
  assumes "parse_integer_fixup_radix s base = Inr (s', b)" "parse_digits s' b 0 0 False = Inr (of_nat n, of_nat m, 2 ^ 64 \<le> n)"
    "m < 2 ^ 31" "drop m s' = rest @ 0 # r" "0 \<notin> set rest"
  shows "kstrtoull_unsigned s base = Inr (if 2 ^ 64 \<le> n then Inl (- ERANGE)
    else if m = 0 \<or> rest \<notin> {[], [10]} then Inl (- K_EINVAL) else Inr (of_nat n))"
proof -
  note o = overflow_bit [OF assms(3)]
  have nz: "KSTRTOX_OVERFLOW \<noteq> 0" by (simp add: KSTRTOX_OVERFLOW_def)
  consider "2 ^ 64 \<le> n" | "\<not> 2 ^ 64 \<le> n" "m = 0" | "\<not> 2 ^ 64 \<le> n" "m \<noteq> 0" by blast
  then show ?thesis
  proof cases
    case 3
    then have "kstrtoull_unsigned s base = (let t = rest @ 0 # r in
        rbind (rd t) (\<lambda>c. let t = (if c = 10 then drop 1 t else t) in
        rbind (rd t) (\<lambda>c. if c \<noteq> 0 then Inr (Inl (- K_EINVAL)) else Inr (Inr (of_nat n)))))"
      using assms(4) by (simp add: kstrtoull_unsigned_def assms(1) parse_integer_def assms(2) o)
    then show ?thesis using 3 assms(5)
      by (cases rest; cases "tl rest") (auto simp: rd_def Let_def)
  qed (simp_all add: kstrtoull_unsigned_def assms(1) parse_integer_def assms(2) o nz)
qed

lemma kstrtoull_unsigned_spec:
  assumes "0 \<in> set s" "unat base \<le> 16" "length s < 2 ^ 31"
  shows "kstrtoull_unsigned s base = Inr (map_sum id of_nat (ull_result base (cstr s)))"
proof -
  let ?b = "radix_of base (cstr s)"
  obtain s' where s': "parse_integer_fixup_radix s base = Inr (s', ?b)" "0 \<in> set s'" "length s' \<le> length s"
      "cstr s' = digits_of base (cstr s)"
    using fixup_spec [OF assms(1)] by blast
  let ?ds = "takeWhile (digit_in ?b) (cstr s')" and ?rest = "dropWhile (digit_in ?b) (cstr s')"
  let ?n = "number (unat ?b) 0 ?ds"
  have p: "parse_digits s' ?b 0 0 False = Inr (of_nat ?n, of_nat (length ?ds), 2 ^ 64 \<le> ?n)"
    using parse_digits_spec [OF s'(2) radix_16 [OF assms(2)], where n = 0 and rv = 0] by (simp add: Let_def)
  have "length ?ds \<le> length (cstr s')" by (rule length_takeWhile_le)
  then have m: "length ?ds < 2 ^ 31" using assms(3) s'(3) length_cstr [OF s'(2)] by linarith
  obtain r where r: "s' = cstr s' @ 0 # r" using cstr_split [OF s'(2)] by blast
  have d: "drop (length ?ds) s' = ?rest @ 0 # r"
  proof -
    have "s' = ?ds @ ?rest @ 0 # r" using r by (metis append_assoc takeWhile_dropWhile_id)
    then show ?thesis by (metis append_eq_conv_conj)
  qed
  have nz: "0 \<notin> set ?rest" using cstr_nz [of s'] by (metis set_dropWhileD)
  from kstrtoull_core [OF s'(1) p m d nz]
  have "kstrtoull_unsigned s base = Inr (if 2 ^ 64 \<le> ?n then Inl (- ERANGE)
      else if ?ds = [] \<or> ?rest \<notin> {[], [10]} then Inl (- K_EINVAL) else Inr (of_nat ?n))"
    unfolding length_0_conv .
  then show ?thesis
    unfolding ull_result_def Let_def s'(4) by (simp only: if_distrib [where f = "map_sum id of_nat"] map_sum.simps id_apply)
qed

definition unplus :: "u8 list \<Rightarrow> u8 list" where
  "unplus t = (if take 1 t = [43] then drop 1 t else t)"

text \<open>What \<open>kstrtoll\<close> makes of a string: the magnitude decides, and zero with a minus sign is out of range.\<close>

definition ll_result :: "u32 \<Rightarrow> u8 list \<Rightarrow> int + int" where
  "ll_result base t =
     (if take 1 t = [45] then
        case ull_result base (drop 1 t) of Inl e \<Rightarrow> Inl e
        | Inr n \<Rightarrow> if 0 < n \<and> n \<le> 2 ^ 63 then Inr (- int n) else Inl (- ERANGE)
      else
        case ull_result base (unplus t) of Inl e \<Rightarrow> Inl e
        | Inr n \<Rightarrow> if n < 2 ^ 63 then Inr (int n) else Inl (- ERANGE))"

lemma ull_result_less: "ull_result base t = Inr n \<Longrightarrow> n < 2 ^ 64"
  by (simp add: ull_result_def Let_def split: if_splits)

lemma sint64_neg:
  assumes "n < 2 ^ 64"
  shows "0 \<le> sint (- (of_nat n :: u64)) \<longleftrightarrow> \<not> (0 < n \<and> n \<le> 2 ^ 63)" "sint (of_nat n :: u64) < 0 \<longleftrightarrow> \<not> n < 2 ^ 63"
proof -
  have i: "- (of_nat n :: u64) = word_of_int (- int n)" "(of_nat n :: u64) = word_of_int (int n)" by simp_all
  have s: "sint (word_of_int k :: u64) = (k + 2 ^ 63) mod 2 ^ 64 - 2 ^ 63" for k
    by (simp add: signed_of_int signed_take_bit_eq_take_bit_shift take_bit_eq_mod)
  show "sint (of_nat n :: u64) < 0 \<longleftrightarrow> \<not> n < 2 ^ 63"
  proof (cases "n < 2 ^ 63")
    case True
    then have "(int n + 2 ^ 63) mod 2 ^ 64 = int n + 2 ^ 63" by (intro mod_pos_pos_trivial) auto
    then show ?thesis using True unfolding i s by simp
  next
    case False
    then have "(int n + 2 ^ 63) mod 2 ^ 64 = int n + 2 ^ 63 - 2 ^ 64"
      using assms by (simp add: mod_pos_geq)
    then show ?thesis using False assms unfolding i s by simp
  qed
  show "0 \<le> sint (- (of_nat n :: u64)) \<longleftrightarrow> \<not> (0 < n \<and> n \<le> 2 ^ 63)"
  proof (cases "n \<le> 2 ^ 63")
    case True
    then have "(- int n + 2 ^ 63) mod 2 ^ 64 = - int n + 2 ^ 63" by (intro mod_pos_pos_trivial) auto
    then show ?thesis using True unfolding i(1) s by auto
  next
    case False
    have "(- int n + 2 ^ 63) mod 2 ^ 64 = (- int n + 2 ^ 63 + 2 ^ 64) mod 2 ^ 64" by (simp only: mod_add_self2)
    also have "\<dots> = - int n + 2 ^ 63 + 2 ^ 64" using False assms by (intro mod_pos_pos_trivial) auto
    finally show ?thesis using False assms unfolding i(1) s by simp
  qed
qed

lemma rd_cstr: "0 \<in> set s \<Longrightarrow> rd s = Inr (if cstr s = [] then 0 else hd (cstr s))"
  by (cases s) (auto simp: rd_def)

lemma kstrtoull_spec:
  assumes "0 \<in> set s" "unat base \<le> 16" "length s < 2 ^ 31"
  shows "kstrtoull s base = Inr (map_sum id of_nat (ull_result base (unplus (cstr s))))"
proof (cases s)
  case (Cons c s')
  show ?thesis
  proof (cases "c = 43")
    case True
    then show ?thesis
      using assms Cons kstrtoull_unsigned_spec [of s' base] by (simp add: kstrtoull_def rd_def unplus_def)
  next
    case False
    then show ?thesis
      using Cons kstrtoull_unsigned_spec [OF assms] by (simp add: kstrtoull_def rd_def unplus_def)
  qed
qed (use assms in simp)

lemma kstrtoll_spec:
  assumes "0 \<in> set s" "unat base \<le> 16" "length s < 2 ^ 31"
  shows "kstrtoll s base = Inr (map_sum id of_int (ll_result base (cstr s)))"
proof (cases s)
  case (Cons c s')
  show ?thesis
  proof (cases "c = 45")
    case True
    then have "kstrtoull_unsigned s' base = Inr (map_sum id of_nat (ull_result base (cstr s')))"
      using assms Cons by (intro kstrtoull_unsigned_spec) auto
    then show ?thesis using Cons True
      by (cases "ull_result base (cstr s')")
        (simp_all add: kstrtoll_def rd_def ll_result_def sint64_neg [OF ull_result_less])
  next
    case False
    then show ?thesis using Cons kstrtoull_spec [OF assms]
      by (cases "ull_result base (unplus (cstr s))")
        (simp_all add: kstrtoll_def rd_def ll_result_def sint64_neg [OF ull_result_less])
  qed
qed (use assms in simp)

text \<open>The casts keep exactly the values that fit.\<close>

lemma unsigned_fit_spec:
  assumes "LENGTH('a::len) \<le> 64"
  shows "(unsigned_fit r :: (int + 'a word) res) = Inr (case r of Inl e \<Rightarrow> Inl e
    | Inr x \<Rightarrow> if uint x < 2 ^ LENGTH('a) then Inr (ucast x) else Inl (- ERANGE))"
proof -
  have "x = ucast (ucast x :: 'a word) \<longleftrightarrow> uint x < 2 ^ LENGTH('a)" for x :: u64
  proof -
    have "uint (ucast (ucast x :: 'a word) :: u64) = take_bit LENGTH('a) (uint x)"
      using assms by (simp add: unsigned_ucast_eq unsigned_take_bit_eq)
    then have "x = ucast (ucast x :: 'a word) \<longleftrightarrow> take_bit LENGTH('a) (uint x) = uint x" by (metis word_uint_eq_iff)
    then show ?thesis by (simp add: take_bit_int_eq_self_iff)
  qed
  then show ?thesis by (auto simp: unsigned_fit_def split: sum.split)
qed

lemma signed_fit_spec:
  assumes "LENGTH('a::len) \<le> 64"
  shows "(signed_fit r :: (int + 'a word) res) = Inr (case r of Inl e \<Rightarrow> Inl e
    | Inr x \<Rightarrow> if - (2 ^ (LENGTH('a) - 1)) \<le> sint x \<and> sint x < 2 ^ (LENGTH('a) - 1) then Inr (ucast x) else Inl (- ERANGE))"
proof -
  have "x = scast (ucast x :: 'a word) \<longleftrightarrow> - (2 ^ (LENGTH('a) - 1)) \<le> sint x \<and> sint x < 2 ^ (LENGTH('a) - 1)" for x :: u64
  proof -
    have "sint (scast (ucast x :: 'a word) :: u64) = signed_take_bit (LENGTH('a) - 1) (sint x)"
    proof -
      have "sint (scast (ucast x :: 'a word) :: u64) = sint (ucast x :: 'a word)"
        using assms by (intro sint_up_scast) (simp add: is_up)
      also have "\<dots> = signed_take_bit (LENGTH('a) - 1) (uint x)"
        by (simp add: signed_ucast_eq)
      moreover have "min (LENGTH('a) - Suc 0) 63 = LENGTH('a) - Suc 0" using assms by simp
      ultimately show ?thesis by (simp add: sint_uint [of x])
    qed
    then have "x = scast (ucast x :: 'a word) \<longleftrightarrow> signed_take_bit (LENGTH('a) - 1) (sint x) = sint x"
      by (metis signed_word_eqI)
    then show ?thesis by (simp add: signed_take_bit_int_eq_self_iff)
  qed
  then show ?thesis by (auto simp: signed_fit_def split: sum.split)
qed

section \<open>Properties\<close>

text \<open>
  C22: \<open>kstrtoull\<close> and \<open>kstrtoll\<close>, on every NUL-terminated string and every base from 0 (autodetection) to 16, return the
  number the longest run of digits denotes after an optional sign and radix prefix, when it fits and only a newline
  follows; otherwise -ERANGE when the number is too large and -EINVAL when the text is malformed. No wrapped-around
  value is ever returned, although the parser multiplies modulo two to the 64. A minus sign before zero is -ERANGE.
\<close>

theorem kstrtox_spec:
  assumes "0 \<in> set s" "unat base \<le> 16" "length s < 2 ^ 31"
  shows "kstrtoull s base = Inr (map_sum id of_nat (ull_result base (unplus (cstr s)))) \<and>
    kstrtoll s base = Inr (map_sum id of_int (ll_result base (cstr s)))"
  using kstrtoull_spec [OF assms] kstrtoll_spec [OF assms] by simp

lemma ull_examples:
  "ull_result 0 [48, 120, 49, 102, 10] = Inr 31"
  "ull_result 0 [48] = Inr 0"
  "ull_result 10 [49, 50, 33] = Inl (- K_EINVAL)"
  by (simp_all add: ull_result_def radix_of_def digits_of_def has_0x_def fast_tolower_def digit_in_def digit_val_def
      number_def digit_num_def isxdigit_def ismask_def ctype_table_def CT_D_def CT_X_def CT_C_def Let_def)

theorem kstrtox_spec_witness:
  "kstrtoull [43, 48, 120, 49, 102, 10, 0] 0 = Inr (Inr 31) \<and> kstrtoll [45, 48, 0] 0 = Inr (Inl (- ERANGE)) \<and>
   kstrtoull [49, 50, 33, 0] 10 = Inr (Inl (- K_EINVAL))"
  using kstrtox_spec [of "[43, 48, 120, 49, 102, 10, 0]" 0] kstrtox_spec [of "[45, 48, 0]" 0]
    kstrtox_spec [of "[49, 50, 33, 0]" 10] by (simp add: unplus_def ll_result_def ull_examples)

text \<open>
  The narrower conversions return exactly the values of \<open>kstrtoull\<close> and \<open>kstrtoll\<close> that fit the type, unchanged,
  and -ERANGE for all others.
\<close>

theorem kstrtox_narrow:
  "kstrtouint s base = rbind (kstrtoull s base) (\<lambda>r. Inr (case r of Inl e \<Rightarrow> Inl e
      | Inr x \<Rightarrow> if uint x < 2 ^ 32 then Inr (ucast x) else Inl (- ERANGE))) \<and>
   kstrtou16 s base = rbind (kstrtoull s base) (\<lambda>r. Inr (case r of Inl e \<Rightarrow> Inl e
      | Inr x \<Rightarrow> if uint x < 2 ^ 16 then Inr (ucast x) else Inl (- ERANGE))) \<and>
   kstrtou8 s base = rbind (kstrtoull s base) (\<lambda>r. Inr (case r of Inl e \<Rightarrow> Inl e
      | Inr x \<Rightarrow> if uint x < 2 ^ 8 then Inr (ucast x) else Inl (- ERANGE))) \<and>
   kstrtoint s base = rbind (kstrtoll s base) (\<lambda>r. Inr (case r of Inl e \<Rightarrow> Inl e
      | Inr x \<Rightarrow> if - (2 ^ 31) \<le> sint x \<and> sint x < 2 ^ 31 then Inr (ucast x) else Inl (- ERANGE))) \<and>
   kstrtos16 s base = rbind (kstrtoll s base) (\<lambda>r. Inr (case r of Inl e \<Rightarrow> Inl e
      | Inr x \<Rightarrow> if - (2 ^ 15) \<le> sint x \<and> sint x < 2 ^ 15 then Inr (ucast x) else Inl (- ERANGE))) \<and>
   kstrtos8 s base = rbind (kstrtoll s base) (\<lambda>r. Inr (case r of Inl e \<Rightarrow> Inl e
      | Inr x \<Rightarrow> if - (2 ^ 7) \<le> sint x \<and> sint x < 2 ^ 7 then Inr (ucast x) else Inl (- ERANGE))) \<and>
   kstrtoul s base = kstrtouint s base \<and> kstrtol s base = kstrtoint s base"
proof -
  note defs = kstrtouint_def kstrtou16_def kstrtou8_def kstrtoint_def kstrtos16_def kstrtos8_def kstrtoul_def kstrtol_def
  show ?thesis
    unfolding defs by (intro conjI rbind_cong refl) (simp_all add: unsigned_fit_spec signed_fit_spec split: sum.split)
qed

text \<open>
  The copy from user space is cut to the length of the longest binary representation, so a longer string with leading
  zeroes is converted to another number without an error.
\<close>

lemma kstrtou8_from_user_cuts:
  "kstrtou8_from_user (\<lambda>n. Some [48, 48, 48, 48, 48, 48, 48, 48, 48, 48, 50, 53, 53, 0]) 14 10 = Inr (Inr 0)"
proof -
  have "ull_result 10 [48, 48, 48, 48, 48, 48, 48, 48, 48, 48] = Inr 0"
    by (simp add: ull_result_def radix_of_def digits_of_def has_0x_def fast_tolower_def digit_in_def digit_val_def
      number_def digit_num_def Let_def)
  then have "kstrtoull [48, 48, 48, 48, 48, 48, 48, 48, 48, 48, 0] 10 = Inr (Inr 0)"
    using kstrtoull_spec [of "[48, 48, 48, 48, 48, 48, 48, 48, 48, 48, 0]" 10] by (simp add: unplus_def)
  then show ?thesis
    by (simp add: kstrtou8_from_user_def kstrto_from_user_def kstrtou8_def unsigned_fit_def)
qed

end
