(* ===== verification/Bitmap.thy ===== *)
theory Bitmap
  imports KPWM_Base
begin

text \<open>
  Bitmaps, \<^verbatim>\<open>lib/bitmap.c\<close> and \<^verbatim>\<open>lib/find_bit.c\<close>. A bitmap is the list of its
  words (\<open>unsigned long\<close>, 32 bits); an operation with a destination takes its old words and returns the new ones. Source
  and destination are distinct objects. Sizes and positions are natural numbers: a position is below the number of
  bits of an object in memory, so the index arithmetic of the code does not wrap around. The abstraction of a bitmap of
  \<open>n\<close> bits is the set of its positions that are one.
\<close>

section \<open>Masks and loops\<close>

definition BITS_TO_LONGS :: "nat \<Rightarrow> nat" where
  "BITS_TO_LONGS nr = (nr + 31) div 32"

definition BITMAP_FIRST_WORD_MASK :: "nat \<Rightarrow> u32" where
  "BITMAP_FIRST_WORD_MASK start = push_bit (start mod 32) (NOT 0)"

definition BITMAP_LAST_WORD_MASK :: "int \<Rightarrow> u32" where
  "BITMAP_LAST_WORD_MASK nbits = drop_bit (nat ((- nbits) mod 32)) (NOT 0)"

text \<open>The word \<open>k\<close> of two bitmaps; the loops that write a word at each index; the loops that return at the first word that fails.\<close>

definition get2 :: "u32 list \<Rightarrow> u32 list \<Rightarrow> nat \<Rightarrow> (u32 \<Rightarrow> u32 \<Rightarrow> 'a res) \<Rightarrow> 'a res" where
  "get2 a b k f = rbind (arr_get a k) (\<lambda>x. rbind (arr_get b k) (\<lambda>y. f x y))"

fun for_words :: "(nat \<Rightarrow> u32 res) \<Rightarrow> nat \<Rightarrow> nat \<Rightarrow> u32 list \<Rightarrow> u32 list res" where
  "for_words f k 0 dst = Inr dst"
| "for_words f k (Suc n) dst = rbind (f k) (\<lambda>w. rbind (arr_set dst k w) (\<lambda>dst. for_words f (Suc k) n dst))"

fun all_words :: "(nat \<Rightarrow> bool res) \<Rightarrow> nat \<Rightarrow> nat \<Rightarrow> bool res" where
  "all_words p k 0 = Inr True"
| "all_words p k (Suc n) = rbind (p k) (\<lambda>b. if b then all_words p (Suc k) n else Inr False)"

section \<open>bitmap.c\<close>

text \<open>The shape of the tests: all whole words, then the last word under its mask.\<close>

definition words_test :: "(u32 \<Rightarrow> u32 \<Rightarrow> u32) \<Rightarrow> u32 list \<Rightarrow> u32 list \<Rightarrow> nat \<Rightarrow> bool res" where
  "words_test bad b1 b2 bits =
     rbind (all_words (\<lambda>k. get2 b1 b2 k (\<lambda>x y. Inr (bad x y = 0))) 0 (bits div 32)) (\<lambda>ok.
     if \<not> ok then Inr False
     else if bits mod 32 \<noteq> 0 then
       get2 b1 b2 (bits div 32) (\<lambda>x y. Inr (bad x y AND BITMAP_LAST_WORD_MASK (int bits) = 0))
     else Inr True)"

definition bitmap_equal :: "u32 list \<Rightarrow> u32 list \<Rightarrow> nat \<Rightarrow> bool res" where
  "bitmap_equal bitmap1 bitmap2 bits = words_test (\<lambda>x y. x XOR y) bitmap1 bitmap2 bits"

definition bitmap_intersects :: "u32 list \<Rightarrow> u32 list \<Rightarrow> nat \<Rightarrow> bool res" where
  "bitmap_intersects bitmap1 bitmap2 bits = rbind (words_test (\<lambda>x y. x AND y) bitmap1 bitmap2 bits) (\<lambda>b. Inr (\<not> b))"

definition bitmap_subset :: "u32 list \<Rightarrow> u32 list \<Rightarrow> nat \<Rightarrow> bool res" where
  "bitmap_subset bitmap1 bitmap2 bits = words_test (\<lambda>x y. x AND NOT y) bitmap1 bitmap2 bits"

definition bitmap_complement :: "u32 list \<Rightarrow> u32 list \<Rightarrow> nat \<Rightarrow> u32 list res" where
  "bitmap_complement dst src bits =
     rbind (for_words (\<lambda>k. rbind (arr_get src k) (\<lambda>x. Inr (NOT x))) 0 (bits div 32) dst) (\<lambda>dst.
     if bits mod 32 \<noteq> 0 then
       rbind (arr_get src (bits div 32)) (\<lambda>x. arr_set dst (bits div 32) (NOT x))
     else Inr dst)"

definition bitmap_or :: "u32 list \<Rightarrow> u32 list \<Rightarrow> u32 list \<Rightarrow> nat \<Rightarrow> u32 list res" where
  "bitmap_or dst bitmap1 bitmap2 bits =
     for_words (\<lambda>k. get2 bitmap1 bitmap2 k (\<lambda>x y. Inr (x OR y))) 0 (BITS_TO_LONGS bits) dst"

definition bitmap_xor :: "u32 list \<Rightarrow> u32 list \<Rightarrow> u32 list \<Rightarrow> nat \<Rightarrow> u32 list res" where
  "bitmap_xor dst bitmap1 bitmap2 bits =
     for_words (\<lambda>k. get2 bitmap1 bitmap2 k (\<lambda>x y. Inr (x XOR y))) 0 (BITS_TO_LONGS bits) dst"

text \<open>The loop of \<open>__bitmap_and\<close> and \<open>__bitmap_andnot\<close>, which also collects the words it wrote.\<close>

fun acc_words :: "(nat \<Rightarrow> u32 res) \<Rightarrow> nat \<Rightarrow> nat \<Rightarrow> u32 \<Rightarrow> u32 list \<Rightarrow> (u32 \<times> u32 list) res" where
  "acc_words f k 0 result dst = Inr (result, dst)"
| "acc_words f k (Suc n) result dst =
     rbind (f k) (\<lambda>w. rbind (arr_set dst k w) (\<lambda>dst. acc_words f (Suc k) n (result OR w) dst))"

definition masked_op :: "(u32 \<Rightarrow> u32 \<Rightarrow> u32) \<Rightarrow> u32 list \<Rightarrow> u32 list \<Rightarrow> u32 list \<Rightarrow> nat \<Rightarrow> (bool \<times> u32 list) res" where
  "masked_op f dst bitmap1 bitmap2 bits =
     rbind (acc_words (\<lambda>k. get2 bitmap1 bitmap2 k (\<lambda>x y. Inr (f x y))) 0 (bits div 32) 0 dst) (\<lambda>(result, dst).
     if bits mod 32 \<noteq> 0 then
       get2 bitmap1 bitmap2 (bits div 32) (\<lambda>x y.
       let w = f x y AND BITMAP_LAST_WORD_MASK (int bits) in
       rbind (arr_set dst (bits div 32) w) (\<lambda>dst. Inr (result OR w \<noteq> 0, dst)))
     else Inr (result \<noteq> 0, dst))"

definition bitmap_and :: "u32 list \<Rightarrow> u32 list \<Rightarrow> u32 list \<Rightarrow> nat \<Rightarrow> (bool \<times> u32 list) res" where
  "bitmap_and dst bitmap1 bitmap2 bits = masked_op (\<lambda>x y. x AND y) dst bitmap1 bitmap2 bits"

definition bitmap_andnot :: "u32 list \<Rightarrow> u32 list \<Rightarrow> u32 list \<Rightarrow> nat \<Rightarrow> (bool \<times> u32 list) res" where
  "bitmap_andnot dst bitmap1 bitmap2 bits = masked_op (\<lambda>x y. x AND NOT y) dst bitmap1 bitmap2 bits"

subsection \<open>Shifts\<close>

text \<open>The word written at \<open>k\<close> by the loop of \<open>__bitmap_shift_right\<close>.\<close>

definition shift_right_word :: "u32 list \<Rightarrow> nat \<Rightarrow> nat \<Rightarrow> nat \<Rightarrow> u32 \<Rightarrow> nat \<Rightarrow> u32 res" where
  "shift_right_word src lim off r msk k =
     rbind (if r = 0 \<or> off + k + 1 \<ge> lim then Inr 0
            else rbind (arr_get src (off + k + 1)) (\<lambda>upper.
                 Inr (push_bit (32 - r) (if off + k + 1 = lim - 1 then upper AND msk else upper)))) (\<lambda>upper.
     rbind (arr_get src (off + k)) (\<lambda>lower.
     Inr (drop_bit r (if off + k = lim - 1 then lower AND msk else lower) OR upper)))"

definition bitmap_shift_right :: "u32 list \<Rightarrow> u32 list \<Rightarrow> nat \<Rightarrow> nat \<Rightarrow> u32 list res" where
  "bitmap_shift_right dst src shift nbits =
     (let lim = BITS_TO_LONGS nbits; off = shift div 32; r = shift mod 32; msk = BITMAP_LAST_WORD_MASK (int nbits) in
      rbind (for_words (shift_right_word src lim off r msk) 0 (lim - off) dst) (\<lambda>dst.
      if off \<noteq> 0 then (if lim < off then Inl OutOfBounds else for_words (\<lambda>k. Inr 0) (lim - off) off dst) else Inr dst))"

text \<open>The loop of \<open>__bitmap_shift_left\<close> goes down from word \<open>lim - off - 1\<close>.\<close>

fun shift_left_loop :: "u32 list \<Rightarrow> nat \<Rightarrow> nat \<Rightarrow> nat \<Rightarrow> u32 list \<Rightarrow> u32 list res" where
  "shift_left_loop src off r 0 dst = Inr dst"
| "shift_left_loop src off r (Suc k) dst =
     rbind (if r \<noteq> 0 \<and> k > 0 then rbind (arr_get src (k - 1)) (\<lambda>w. Inr (drop_bit (32 - r) w)) else Inr 0) (\<lambda>lower.
     rbind (arr_get src k) (\<lambda>upper.
     rbind (arr_set dst (k + off) (lower OR push_bit r upper)) (\<lambda>dst.
     shift_left_loop src off r k dst)))"

definition bitmap_shift_left :: "u32 list \<Rightarrow> u32 list \<Rightarrow> nat \<Rightarrow> nat \<Rightarrow> u32 list res" where
  "bitmap_shift_left dst src shift nbits =
     (let lim = BITS_TO_LONGS nbits; off = shift div 32; r = shift mod 32 in
      rbind (shift_left_loop src off r (lim - off) dst) (\<lambda>dst.
      if off \<noteq> 0 then for_words (\<lambda>k. Inr 0) 0 off dst else Inr dst))"

subsection \<open>Ranges\<close>

text \<open>
  The loops of \<open>bitmap_set\<close> and \<open>bitmap_clear\<close>, which differ in how a mask is applied to a word. The number of bits left in
  the current word is never zero.
\<close>

function range_loop :: "(u32 \<Rightarrow> u32 \<Rightarrow> u32) \<Rightarrow> int \<Rightarrow> nat \<Rightarrow> int \<Rightarrow> int \<Rightarrow> u32 \<Rightarrow> u32 list \<Rightarrow> u32 list res" where
  "range_loop upd sz p len bits msk m =
     (if 0 < bits \<and> len - bits \<ge> 0 then
        rbind (arr_get m p) (\<lambda>w. rbind (arr_set m p (upd msk w)) (\<lambda>m.
        range_loop upd sz (Suc p) (len - bits) 32 (NOT 0) m))
      else if len \<noteq> 0 then
        rbind (arr_get m p) (\<lambda>w. arr_set m p (upd (msk AND BITMAP_LAST_WORD_MASK sz) w))
      else Inr m)"
  by pat_completeness auto
termination by (relation "measure (\<lambda>(upd, sz, p, len, bits, msk, m). nat len)") auto

declare range_loop.simps [simp del]

definition bitmap_set :: "u32 list \<Rightarrow> nat \<Rightarrow> int \<Rightarrow> u32 list res" where
  "bitmap_set m start len =
     range_loop (\<lambda>msk w. w OR msk) (int start + len) (start div 32) len (32 - int (start mod 32))
       (BITMAP_FIRST_WORD_MASK start) m"

definition bitmap_clear :: "u32 list \<Rightarrow> nat \<Rightarrow> int \<Rightarrow> u32 list res" where
  "bitmap_clear m start len =
     range_loop (\<lambda>msk w. w AND NOT msk) (int start + len) (start div 32) len (32 - int (start mod 32))
       (BITMAP_FIRST_WORD_MASK start) m"

section \<open>find\_bit.c\<close>

text \<open>\<open>__ffs\<close> and \<open>__fls\<close>, instructions of the processor: the lowest and the highest bit that is one.\<close>

definition ffs_word :: "u32 \<Rightarrow> nat" where
  "ffs_word w = (case first_from (bit w) 0 32 of None \<Rightarrow> 32 | Some i \<Rightarrow> i)"

definition fls_word :: "u32 \<Rightarrow> nat" where
  "fls_word w = (case first_from (\<lambda>j. bit w (31 - j)) 0 32 of None \<Rightarrow> 32 | Some j \<Rightarrow> 31 - j)"

function find_next_loop :: "u32 list \<Rightarrow> nat \<Rightarrow> u32 \<Rightarrow> u32 \<Rightarrow> nat \<Rightarrow> nat res" where
  "find_next_loop addr nbits invert tmp start =
     (if tmp = 0 then
        (if start + 32 \<ge> nbits then Inr nbits
         else rbind (arr_get addr ((start + 32) div 32)) (\<lambda>w. find_next_loop addr nbits invert (w XOR invert) (start + 32)))
      else Inr (min (start + ffs_word tmp) nbits))"
  by pat_completeness auto
termination by (relation "measure (\<lambda>(addr, nbits, invert, tmp, start). nbits - start)") auto

declare find_next_loop.simps [simp del]

definition find_next :: "u32 list \<Rightarrow> nat \<Rightarrow> nat \<Rightarrow> u32 \<Rightarrow> nat res" where
  "find_next addr nbits start invert =
     (if nbits = 0 \<or> start \<ge> nbits then Inr nbits
      else rbind (arr_get addr (start div 32)) (\<lambda>w.
           find_next_loop addr nbits invert ((w XOR invert) AND BITMAP_FIRST_WORD_MASK start) (start - start mod 32)))"

definition find_next_bit :: "u32 list \<Rightarrow> nat \<Rightarrow> nat \<Rightarrow> nat res" where
  "find_next_bit addr sz offset = find_next addr sz offset 0"

definition find_next_zero_bit :: "u32 list \<Rightarrow> nat \<Rightarrow> nat \<Rightarrow> nat res" where
  "find_next_zero_bit addr sz offset = find_next addr sz offset (NOT 0)"

function find_first_loop :: "(u32 \<Rightarrow> u32) \<Rightarrow> u32 list \<Rightarrow> nat \<Rightarrow> nat \<Rightarrow> nat res" where
  "find_first_loop g addr sz idx =
     (if idx * 32 < sz then
        rbind (arr_get addr idx) (\<lambda>w.
        if g w \<noteq> 0 then Inr (min (idx * 32 + ffs_word (g w)) sz) else find_first_loop g addr sz (Suc idx))
      else Inr sz)"
  by pat_completeness auto
termination by (relation "measure (\<lambda>(g, addr, sz, idx). sz - idx * 32)") auto

declare find_first_loop.simps [simp del]

definition find_first_bit :: "u32 list \<Rightarrow> nat \<Rightarrow> nat res" where
  "find_first_bit addr sz = find_first_loop (\<lambda>w. w) addr sz 0"

text \<open>\<open>ffz(w)\<close> is \<open>__ffs(~w)\<close>, and the test \<open>w != ~0\<close> is that of the complement against zero.\<close>

definition find_first_zero_bit :: "u32 list \<Rightarrow> nat \<Rightarrow> nat res" where
  "find_first_zero_bit addr sz = find_first_loop (\<lambda>w. NOT w) addr sz 0"

fun find_last_loop :: "u32 list \<Rightarrow> nat \<Rightarrow> u32 \<Rightarrow> nat \<Rightarrow> nat res" where
  "find_last_loop addr sz val 0 =
     rbind (arr_get addr 0) (\<lambda>w. if val AND w \<noteq> 0 then Inr (fls_word (val AND w)) else Inr sz)"
| "find_last_loop addr sz val (Suc idx) =
     rbind (arr_get addr (Suc idx)) (\<lambda>w.
     if val AND w \<noteq> 0 then Inr (Suc idx * 32 + fls_word (val AND w)) else find_last_loop addr sz (NOT 0) idx)"

definition find_last_bit :: "u32 list \<Rightarrow> nat \<Rightarrow> nat res" where
  "find_last_bit addr sz =
     (if sz \<noteq> 0 then find_last_loop addr sz (BITMAP_LAST_WORD_MASK (int sz)) ((sz - 1) div 32) else Inr sz)"

section \<open>Searching for a free area\<close>

text \<open>
  \<open>bitmap_find_next_zero_area_off\<close>. The loop goes back to \<open>again\<close> with a larger start: the aligned position is never
  below the position found, whatever the mask.
\<close>

definition ALIGN_MASK :: "nat \<Rightarrow> nat \<Rightarrow> nat" where
  "ALIGN_MASK x msk = ((x + msk) - ((x + msk) AND msk))"

lemma ALIGN_MASK_ge: "x \<le> ALIGN_MASK x msk"
proof -
  have "int ((x + msk) AND msk) \<le> int msk" by (simp only: of_nat_and_eq) (simp add: AND_upper2)
  then show ?thesis by (simp add: ALIGN_MASK_def)
qed

lemma find_next_loop_range:
  "find_next_loop addr nbits invert tmp start = Inr r \<Longrightarrow> r \<le> nbits \<and> (start \<le> r \<or> r = nbits)"
proof (induction addr nbits invert tmp start rule: find_next_loop.induct)
  case (1 addr nbits invert tmp start)
  show ?case
  proof (cases "tmp = 0 \<and> start + 32 < nbits")
    case True
    with "1.prems" obtain w where w: "arr_get addr ((start + 32) div 32) = Inr w"
        "find_next_loop addr nbits invert (w XOR invert) (start + 32) = Inr r"
      by (subst (asm) find_next_loop.simps) (auto simp: rbind_Inr_iff)
    have "r \<le> nbits \<and> (start + 32 \<le> r \<or> r = nbits)" using True w by (intro "1.IH") auto
    then show ?thesis by auto
  next
    case False
    with "1.prems" show ?thesis by (subst (asm) find_next_loop.simps) (auto split: if_splits)
  qed
qed

text \<open>In the first word the bits below the start are masked out, so the result is not below the start.\<close>

lemma word_zero_bits: "w = 0 \<longleftrightarrow> (\<forall>j < 32. \<not> bit w j)" for w :: u32
  by (auto simp: bit_eq_iff)

lemma ffs_word_bit: "w \<noteq> 0 \<Longrightarrow> ffs_word w < 32 \<and> bit w (ffs_word w) \<and> (\<forall>j < ffs_word w. \<not> bit w j)"
proof -
  assume "w \<noteq> 0"
  then obtain j where "j < 32" "bit w j" by (auto simp: word_zero_bits)
  then have "first_from (bit w) 0 32 \<noteq> None" by (auto simp: first_from_None_iff)
  then obtain i where i: "first_from (bit w) 0 32 = Some i" by blast
  from first_from_Some [OF i] i show ?thesis by (simp add: ffs_word_def)
qed

lemma first_mask_bit [bits_simps]: "bit (BITMAP_FIRST_WORD_MASK start) j \<longleftrightarrow> start mod 32 \<le> j \<and> j < 32"
  by (auto simp: BITMAP_FIRST_WORD_MASK_def bit_push_bit_iff bit_not_iff bit_mask_iff)

lemma find_next_range: "find_next addr nbits start invert = Inr r \<Longrightarrow> r \<le> nbits \<and> (start \<le> r \<or> r = nbits)"
proof -
  assume r: "find_next addr nbits start invert = Inr r"
  show ?thesis
  proof (cases "start < nbits")
    case False
    with r show ?thesis by (auto simp: find_next_def)
  next
    case True
    with r obtain w where w: "arr_get addr (start div 32) = Inr w"
        "find_next_loop addr nbits invert ((w XOR invert) AND BITMAP_FIRST_WORD_MASK start) (start - start mod 32) = Inr r"
      by (auto simp: find_next_def rbind_Inr_iff)
    let ?t = "(w XOR invert) AND BITMAP_FIRST_WORD_MASK start"
    show ?thesis
    proof (cases "?t = 0")
      case True
      from w(2) True have "r = nbits \<or> (\<exists>v. find_next_loop addr nbits invert v (start - start mod 32 + 32) = Inr r)"
        by (subst (asm) find_next_loop.simps) (auto simp: rbind_Inr_iff split: if_splits)
      moreover have "start \<le> start - start mod 32 + 32" using mod_less_divisor [of 32 start] by simp
      ultimately show ?thesis using find_next_loop_range by fastforce
    next
      case False
      have "start mod 32 \<le> ffs_word ?t" using ffs_word_bit [OF False] by (simp add: bit_and_iff first_mask_bit)
      moreover have "r = min (start - start mod 32 + ffs_word ?t) nbits"
        using w(2) False by (subst (asm) find_next_loop.simps) simp
      ultimately show ?thesis by auto
    qed
  qed
qed

function bitmap_find_next_zero_area_off :: "u32 list \<Rightarrow> nat \<Rightarrow> nat \<Rightarrow> nat \<Rightarrow> nat \<Rightarrow> nat \<Rightarrow> nat res" where
  "bitmap_find_next_zero_area_off m sz start nr align_mask align_offset =
     rbind (find_next_zero_bit m sz start) (\<lambda>index.
     let index = ALIGN_MASK (index + align_offset) align_mask - align_offset;
         fin = index + nr
     in if fin > sz then Inr fin
        else rbind (find_next_bit m fin index) (\<lambda>i.
             if i < fin then bitmap_find_next_zero_area_off m sz (i + 1) nr align_mask align_offset
             else Inr index))"
  by pat_completeness auto
termination
proof (relation "measure (\<lambda>(m, sz, start, nr, align_mask, align_offset). sz - start)", goal_cases)
  case (2 m sz start nr align_mask align_offset x xa fin i)
  have "x \<le> xa" using ALIGN_MASK_ge [of "x + align_offset" align_mask] 2(2) by simp
  moreover have "start \<le> x \<or> x = sz" using find_next_range 2(1) by (simp add: find_next_zero_bit_def)
  moreover have "xa \<le> i \<or> i = fin" using find_next_range 2(5) by (simp add: find_next_bit_def)
  ultimately show ?case using 2 by auto
qed simp

declare bitmap_find_next_zero_area_off.simps [simp del]

section \<open>Bitmaps as sets\<close>

definition bm :: "u32 list \<Rightarrow> nat \<Rightarrow> bool" where
  "bm m i \<longleftrightarrow> bit (m ! (i div 32)) (i mod 32)"

definition bset :: "nat \<Rightarrow> u32 list \<Rightarrow> nat set" where
  "bset n m = {i. i < n \<and> bm m i}"

lemma last_mask_bit [bits_simps]:
  "bit (BITMAP_LAST_WORD_MASK (int n)) j \<longleftrightarrow> j < 32 \<and> (n mod 32 = 0 \<or> j < n mod 32)"
proof -
  have "nat ((- int n) mod 32) = (if n mod 32 = 0 then 0 else 32 - n mod 32)"
  proof -
    have "int n mod 32 = int (n mod 32)" by (simp add: of_nat_mod)
    then show ?thesis by (simp add: zmod_zminus1_eq_if nat_diff_distrib)
  qed
  then have "BITMAP_LAST_WORD_MASK (int n) = drop_bit (if n mod 32 = 0 then 0 else 32 - n mod 32) (- 1)"
    by (simp add: BITMAP_LAST_WORD_MASK_def)
  moreover have "n mod 32 < 32" by simp
  ultimately show ?thesis by (auto simp: bit_drop_bit_eq bit_mask_iff)
qed

lemma word_index: "i < n \<Longrightarrow> n \<le> 32 * k \<Longrightarrow> i div 32 < k" for i n k :: nat
  by (rule less_mult_imp_div_less) simp

lemma words_bound:
  assumes "n \<le> 32 * length m"
  shows "n div 32 \<le> length m \<and> (n mod 32 \<noteq> 0 \<longrightarrow> n div 32 < length m)"
proof -
  have "n div 32 \<le> (32 * length m) div 32" using assms by (rule div_le_mono)
  then have l: "n div 32 \<le> length m" by simp
  moreover have "n div 32 < length m" if "n mod 32 \<noteq> 0" using div_mult_mod_eq [of n 32] assms l that by linarith
  ultimately show ?thesis by blast
qed

lemma BITS_TO_LONGS_le: "n \<le> 32 * k \<Longrightarrow> BITS_TO_LONGS n \<le> k"
proof -
  assume "n \<le> 32 * k"
  then have "(n + 31) div 32 < Suc k" by (intro less_mult_imp_div_less) simp
  then show ?thesis by (simp add: BITS_TO_LONGS_def)
qed

lemma BITS_TO_LONGS_gt: "i < n \<Longrightarrow> i div 32 < BITS_TO_LONGS n"
proof -
  assume "i < n"
  then have "(i + 32) div 32 \<le> (n + 31) div 32" by (intro div_le_mono) simp
  then show ?thesis by (simp add: BITS_TO_LONGS_def)
qed

text \<open>Positions and their words.\<close>

lemma pos_less: "j < n div 32 \<Longrightarrow> r < 32 \<Longrightarrow> 32 * j + r < n" for j n r :: nat
  using div_mult_mod_eq [of n 32] by linarith

lemma pos_less_last: "r < n mod 32 \<Longrightarrow> 32 * (n div 32) + r < n \<and> r < 32" for n r :: nat
  using div_mult_mod_eq [of n 32] mod_less_divisor [of 32 n] by linarith

lemma pos_last: "i < n \<Longrightarrow> \<not> i div 32 < n div 32 \<Longrightarrow> i div 32 = n div 32 \<and> i mod 32 < n mod 32" for i n :: nat
proof -
  assume i: "i < n" "\<not> i div 32 < n div 32"
  then have e: "i div 32 = n div 32" using div_le_mono [of i n 32] by simp
  moreover have "i mod 32 < n mod 32" using div_mult_mod_eq [of n 32] div_mult_mod_eq [of i 32] i(1) e by linarith
  ultimately show ?thesis by blast
qed

lemma all_from_Suc:
  "(\<forall>j. k \<le> j \<and> j < k + Suc n \<longrightarrow> q j) \<longleftrightarrow> q k \<and> (\<forall>j. Suc k \<le> j \<and> j < Suc k + n \<longrightarrow> q j)"
  by (auto simp: Suc_le_eq) (metis le_neq_implies_less)

text \<open>Testing every whole word and the masked last word tests every bit.\<close>

lemma all_bits_words:
  "(\<forall>j < n div 32. w j = 0) \<and> (n mod 32 \<noteq> 0 \<longrightarrow> w (n div 32) AND BITMAP_LAST_WORD_MASK (int n) = 0) \<longleftrightarrow>
   (\<forall>i < n. \<not> bit (w (i div 32) :: u32) (i mod 32))"
proof (intro iffI allI impI conjI)
  fix i
  assume h: "(\<forall>j < n div 32. w j = 0) \<and> (n mod 32 \<noteq> 0 \<longrightarrow> w (n div 32) AND BITMAP_LAST_WORD_MASK (int n) = 0)" and i: "i < n"
  show "\<not> bit (w (i div 32)) (i mod 32)"
  proof (cases "i div 32 < n div 32")
    case False
    then have e: "i div 32 = n div 32" "i mod 32 < n mod 32" using pos_last [OF i] by auto
    then have "w (n div 32) AND BITMAP_LAST_WORD_MASK (int n) = 0" using h by auto
    then have "\<not> bit (w (n div 32) AND BITMAP_LAST_WORD_MASK (int n)) (i mod 32)" by simp
    then show ?thesis using e by (simp add: bit_and_iff last_mask_bit)
  qed (use h in simp)
next
  fix j
  assume h: "\<forall>i < n. \<not> bit (w (i div 32)) (i mod 32)" and j: "j < n div 32"
  have "\<not> bit (w j) r" if "r < 32" for r
  proof -
    have "32 * j + r < n" using pos_less [OF j that] .
    with h have "\<not> bit (w ((32 * j + r) div 32)) ((32 * j + r) mod 32)" by blast
    then show ?thesis using that by simp
  qed
  then show "w j = 0" by (simp add: word_zero_bits)
next
  assume h: "\<forall>i < n. \<not> bit (w (i div 32)) (i mod 32)" and n: "n mod 32 \<noteq> 0"
  have "\<not> bit (w (n div 32)) r" if "r < n mod 32" for r
  proof -
    have "32 * (n div 32) + r < n" "r < 32" using pos_less_last [OF that] by auto
    with h have "\<not> bit (w ((32 * (n div 32) + r) div 32)) ((32 * (n div 32) + r) mod 32)" by blast
    then show ?thesis using \<open>r < 32\<close> by simp
  qed
  then show "w (n div 32) AND BITMAP_LAST_WORD_MASK (int n) = 0"
    using n by (auto simp: word_zero_bits bit_and_iff last_mask_bit)
qed

lemma all_words_spec:
  "(\<And>j. k \<le> j \<Longrightarrow> j < k + n \<Longrightarrow> p j = Inr (q j)) \<Longrightarrow> all_words p k n = Inr (\<forall>j. k \<le> j \<and> j < k + n \<longrightarrow> q j)"
proof (induction n arbitrary: k)
  case (Suc n)
  have "all_words p (Suc k) n = Inr (\<forall>j. Suc k \<le> j \<and> j < Suc k + n \<longrightarrow> q j)" using Suc.prems by (intro Suc.IH) auto
  moreover have "p k = Inr (q k)" using Suc.prems by simp
  ultimately show ?case unfolding all_from_Suc by simp
qed auto

lemma words_test_spec:
  assumes "n \<le> 32 * length b1" "n \<le> 32 * length b2"
  shows "words_test bad b1 b2 n = Inr (\<forall>i < n. \<not> bit (bad (b1 ! (i div 32)) (b2 ! (i div 32))) (i mod 32))"
proof -
  have b: "n div 32 \<le> length b1" "n div 32 \<le> length b2" "n mod 32 \<noteq> 0 \<Longrightarrow> n div 32 < length b1 \<and> n div 32 < length b2"
    using words_bound [OF assms(1)] words_bound [OF assms(2)] by auto
  have "all_words (\<lambda>k. get2 b1 b2 k (\<lambda>x y. Inr (bad x y = 0))) 0 (n div 32) =
      Inr (\<forall>j. 0 \<le> j \<and> j < 0 + n div 32 \<longrightarrow> bad (b1 ! j) (b2 ! j) = 0)"
    using b by (intro all_words_spec) (simp add: get2_def)
  then have "words_test bad b1 b2 n = Inr ((\<forall>j < n div 32. bad (b1 ! j) (b2 ! j) = 0) \<and>
      (n mod 32 \<noteq> 0 \<longrightarrow> bad (b1 ! (n div 32)) (b2 ! (n div 32)) AND BITMAP_LAST_WORD_MASK (int n) = 0))"
    using b by (auto simp: words_test_def get2_def)
  then show ?thesis unfolding all_bits_words [of n "\<lambda>j. bad (b1 ! j) (b2 ! j)"] .
qed

text \<open>A loop that writes words \<open>k\<close> to \<open>k + n - 1\<close>.\<close>

definition over :: "(nat \<Rightarrow> u32) \<Rightarrow> nat \<Rightarrow> nat \<Rightarrow> u32 list \<Rightarrow> u32 list" where
  "over g k n dst = map (\<lambda>j. if k \<le> j \<and> j < k + n then g j else dst ! j) [0..<length dst]"

lemma over_simps [simp]:
  "length (over g k n dst) = length dst"
  "j < length dst \<Longrightarrow> over g k n dst ! j = (if k \<le> j \<and> j < k + n then g j else dst ! j)"
  "over g k 0 dst = dst"
  by (auto simp: over_def intro!: nth_equalityI)

lemma over_Suc: "k < length dst \<Longrightarrow> over g (Suc k) n (dst[k := g k]) = over g k (Suc n) dst"
  by (rule nth_equalityI) (auto simp: nth_list_update)

lemma for_words_spec:
  "(\<And>j. k \<le> j \<Longrightarrow> j < k + n \<Longrightarrow> f j = Inr (g j)) \<Longrightarrow> k + n \<le> length dst \<Longrightarrow>
   for_words f k n dst = Inr (over g k n dst)"
proof (induction n arbitrary: k dst)
  case (Suc n)
  have "for_words f (Suc k) n (dst[k := g k]) = Inr (over g (Suc k) n (dst[k := g k]))"
    using Suc.prems by (intro Suc.IH) auto
  moreover have "f k = Inr (g k)" using Suc.prems by simp
  ultimately show ?case using Suc.prems by (simp add: over_Suc)
qed simp

lemma acc_words_spec:
  "(\<And>j. k \<le> j \<Longrightarrow> j < k + n \<Longrightarrow> f j = Inr (g j)) \<Longrightarrow> k + n \<le> length dst \<Longrightarrow>
   \<exists>r'. acc_words f k n r dst = Inr (r', over g k n dst) \<and> (r' = 0 \<longleftrightarrow> r = 0 \<and> (\<forall>j. k \<le> j \<and> j < k + n \<longrightarrow> g j = 0))"
proof (induction n arbitrary: k r dst)
  case (Suc n)
  have "\<exists>r'. acc_words f (Suc k) n (r OR g k) (dst[k := g k]) = Inr (r', over g (Suc k) n (dst[k := g k])) \<and>
      (r' = 0 \<longleftrightarrow> r OR g k = 0 \<and> (\<forall>j. Suc k \<le> j \<and> j < Suc k + n \<longrightarrow> g j = 0))"
    using Suc.prems by (intro Suc.IH) auto
  moreover have "f k = Inr (g k)" using Suc.prems by simp
  ultimately show ?case using Suc.prems(2) unfolding all_from_Suc by (auto simp: over_Suc or_eq_0_iff)
qed auto

text \<open>What every operation with a destination keeps: the number of words and the words after the last one of the bitmap.\<close>

definition kept :: "nat \<Rightarrow> u32 list \<Rightarrow> u32 list \<Rightarrow> bool" where
  "kept n dst d \<longleftrightarrow> length d = length dst \<and> (\<forall>j. BITS_TO_LONGS n \<le> j \<and> j < length dst \<longrightarrow> d ! j = dst ! j)"

lemma BITS_TO_LONGS_whole: "n div 32 \<le> BITS_TO_LONGS n" "n mod 32 \<noteq> 0 \<Longrightarrow> n div 32 < BITS_TO_LONGS n"
proof -
  show "n div 32 \<le> BITS_TO_LONGS n" unfolding BITS_TO_LONGS_def by (rule div_le_mono) simp
  assume "n mod 32 \<noteq> 0"
  then have "32 * (n div 32) < n" using pos_less_last [of 0 n] by simp
  from BITS_TO_LONGS_gt [OF this] show "n div 32 < BITS_TO_LONGS n" by simp
qed

lemma masked_op_spec:
  assumes "n \<le> 32 * length dst" "n \<le> 32 * length b1" "n \<le> 32 * length b2"
  shows "\<exists>d. masked_op f dst b1 b2 n = Inr (\<exists>i < n. bit (f (b1 ! (i div 32)) (b2 ! (i div 32))) (i mod 32), d) \<and>
    (\<forall>i < n. bm d i \<longleftrightarrow> bit (f (b1 ! (i div 32)) (b2 ! (i div 32))) (i mod 32)) \<and> kept n dst d"
proof -
  define g where "g j = f (b1 ! j) (b2 ! j)" for j
  note b = words_bound [OF assms(1)] words_bound [OF assms(2)] words_bound [OF assms(3)]
  let ?l = "n div 32" and ?d = "over g 0 (n div 32) dst"
  obtain r where r: "acc_words (\<lambda>k. get2 b1 b2 k (\<lambda>x y. Inr (f x y))) 0 ?l 0 dst = Inr (r, ?d)"
      "r = 0 \<longleftrightarrow> (\<forall>j < ?l. g j = 0)"
    using acc_words_spec [of 0 ?l "\<lambda>k. get2 b1 b2 k (\<lambda>x y. Inr (f x y))" g dst 0] b by (auto simp: get2_def g_def)
  have any: "(\<exists>i < n. bit (g (i div 32)) (i mod 32)) \<longleftrightarrow>
      \<not> ((\<forall>j < ?l. g j = 0) \<and> (n mod 32 \<noteq> 0 \<longrightarrow> g ?l AND BITMAP_LAST_WORD_MASK (int n) = 0))"
    unfolding all_bits_words by blast
  show ?thesis
  proof (cases "n mod 32 = 0")
    case True
    have "masked_op f dst b1 b2 n = Inr (r \<noteq> 0, ?d)" using True by (simp add: masked_op_def r(1))
    moreover have "bm ?d i \<longleftrightarrow> bit (g (i div 32)) (i mod 32)" if "i < n" for i
      using that True pos_last [OF that] word_index [OF that assms(1)] by (auto simp: bm_def)
    moreover have "kept n dst ?d" using BITS_TO_LONGS_whole(1) [of n] by (auto simp: kept_def)
    ultimately show ?thesis using True any r(2) by (auto simp: g_def)
  next
    case False
    let ?w = "g ?l AND BITMAP_LAST_WORD_MASK (int n)"
    let ?e = "?d[?l := ?w]"
    have "masked_op f dst b1 b2 n = Inr (r OR ?w \<noteq> 0, ?e)"
      using False b unfolding masked_op_def r(1) rbind_simps prod.case by (simp add: get2_def g_def Let_def)
    moreover have "bm ?e i \<longleftrightarrow> bit (g (i div 32)) (i mod 32)" if "i < n" for i
      using that pos_last [OF that] word_index [OF that assms(1)]
      by (cases "i div 32 < ?l") (auto simp: bm_def nth_list_update bit_and_iff last_mask_bit)
    moreover have "kept n dst ?e" using BITS_TO_LONGS_whole [of n] False by (auto simp: kept_def nth_list_update)
    moreover have "r OR ?w \<noteq> 0 \<longleftrightarrow> (\<exists>i < n. bit (g (i div 32)) (i mod 32))" using False any r(2) by (auto simp: or_eq_0_iff)
    ultimately show ?thesis by (auto simp: g_def)
  qed
qed

lemma over_spec:
  assumes "n \<le> 32 * length dst"
  shows "(\<forall>i < n. bm (over g 0 (BITS_TO_LONGS n) dst) i \<longleftrightarrow> bit (g (i div 32)) (i mod 32)) \<and>
    kept n dst (over g 0 (BITS_TO_LONGS n) dst)"
  using word_index [OF _ assms] BITS_TO_LONGS_gt by (auto simp: bm_def kept_def)

lemma pointwise_spec:
  assumes "n \<le> 32 * length dst" "n \<le> 32 * length b1" "n \<le> 32 * length b2"
  shows "for_words (\<lambda>k. get2 b1 b2 k (\<lambda>x y. Inr (f x y))) 0 (BITS_TO_LONGS n) dst =
    Inr (over (\<lambda>j. f (b1 ! j) (b2 ! j)) 0 (BITS_TO_LONGS n) dst)"
  using BITS_TO_LONGS_le [OF assms(1)] BITS_TO_LONGS_le [OF assms(2)] BITS_TO_LONGS_le [OF assms(3)]
  by (intro for_words_spec) (auto simp: get2_def)

lemma complement_over:
  assumes "n \<le> 32 * length dst" "n \<le> 32 * length src"
  shows "bitmap_complement dst src n = Inr (over (\<lambda>j. NOT (src ! j)) 0 (BITS_TO_LONGS n) dst)"
proof -
  note b = words_bound [OF assms(1)] words_bound [OF assms(2)]
  let ?g = "\<lambda>j. NOT (src ! j)"
  have f: "for_words (\<lambda>k. rbind (arr_get src k) (\<lambda>x. Inr (NOT x))) 0 (n div 32) dst = Inr (over ?g 0 (n div 32) dst)"
    using b by (intro for_words_spec) auto
  have l: "BITS_TO_LONGS n = (if n mod 32 = 0 then n div 32 else Suc (n div 32))"
  proof -
    have m: "n mod 32 < 32" by simp
    have "n \<le> 32 * (if n mod 32 = 0 then n div 32 else Suc (n div 32))"
      using div_mult_mod_eq [of n 32] m unfolding if_distrib [of "\<lambda>k. 32 * k"] mult_Suc_right
      by (split if_split, intro conjI impI) linarith+
    from BITS_TO_LONGS_le [OF this] show ?thesis using BITS_TO_LONGS_whole [of n] by (auto split: if_splits)
  qed
  have "(over ?g 0 (n div 32) dst)[n div 32 := ?g (n div 32)] = over ?g 0 (Suc (n div 32)) dst"
    by (rule nth_equalityI) (auto simp: nth_list_update less_Suc_eq)
  then show ?thesis using b by (auto simp: bitmap_complement_def f l)
qed

lemma bset_eqI: "(\<And>i. i < n \<Longrightarrow> bm d i \<longleftrightarrow> i \<in> A) \<Longrightarrow> A \<subseteq> {..<n} \<Longrightarrow> bset n d = A"
  by (auto simp: bset_def)

lemma mem_bset [simp]: "i \<in> bset n m \<longleftrightarrow> i < n \<and> bm m i"
  by (simp add: bset_def)

subsection \<open>Shifts\<close>

lemma push_drop_bit: "r < 32 \<Longrightarrow> bit (push_bit k w) r \<longleftrightarrow> k \<le> r \<and> bit w (r - k)"
    "bit (drop_bit k w) r \<longleftrightarrow> bit w (r + k)" for w :: u32
  by (auto simp: bit_push_bit_iff bit_drop_bit_eq add.commute)

lemma bm_at: "r < 32 \<Longrightarrow> bm m (32 * j + r) \<longleftrightarrow> bit (m ! j) r"
  by (simp add: bm_def)

text \<open>The source words, with the last one under its mask, hold the bits below \<open>n\<close>.\<close>

lemma masked_word_bit:
  assumes "j < BITS_TO_LONGS n" "r < 32"
  shows "bit (if j = BITS_TO_LONGS n - 1 then w AND BITMAP_LAST_WORD_MASK (int n) else w) r \<longleftrightarrow> bit w r \<and> 32 * j + r < n"
proof -
  have m: "n mod 32 < 32" by simp
  note d = div_mult_mod_eq [of n 32]
  have b: "32 * BITS_TO_LONGS n < n + 32" "n \<le> 32 * BITS_TO_LONGS n"
    using BITS_TO_LONGS_le [of n "BITS_TO_LONGS n"] BITS_TO_LONGS_gt [of "32 * BITS_TO_LONGS n" n]
      div_mult_mod_eq [of "n + 31" 32] mod_less_divisor [of 32 "n + 31"] unfolding BITS_TO_LONGS_def by linarith+
  show ?thesis
  proof (cases "j = BITS_TO_LONGS n - 1")
    case False
    then have "32 * j + r < n" using assms b by linarith
    then show ?thesis using False by simp
  next
    case True
    have "n mod 32 = 0 \<or> r < n mod 32 \<longleftrightarrow> 32 * j + r < n"
    proof (cases "n mod 32 = 0")
      case t: True
      then have "BITS_TO_LONGS n = n div 32" using b d by linarith
      then show ?thesis using t True assms d by linarith
    next
      case f: False
      then have "BITS_TO_LONGS n = Suc (n div 32)" using b d m by linarith
      then show ?thesis using f True assms d by linarith
    qed
    then show ?thesis using True assms by (auto simp: bit_and_iff last_mask_bit)
  qed
qed

lemma shift_right_word_spec:
  assumes "off + k < lim" "lim = BITS_TO_LONGS n" "n \<le> 32 * length src" "s < 32"
  shows "\<exists>w. shift_right_word src lim off s (BITMAP_LAST_WORD_MASK (int n)) k = Inr w \<and>
    (\<forall>r < 32. bit w r \<longleftrightarrow> 32 * k + r + (32 * off + s) < n \<and> bm src (32 * k + r + (32 * off + s)))"
proof -
  have l: "lim \<le> length src" using BITS_TO_LONGS_le [OF assms(3)] assms(2) by simp
  define sm where "sm j = (if j = lim - 1 then src ! j AND BITMAP_LAST_WORD_MASK (int n) else src ! j)" for j
  have sm: "bit (sm j) r \<longleftrightarrow> 32 * j + r < n \<and> bm src (32 * j + r)" if "j < lim" "r < 32" for j r
    using masked_word_bit [of j n r "src ! j"] that assms(2) by (auto simp: sm_def bm_at)
  define up where "up = (if s = 0 \<or> off + k + 1 \<ge> lim then 0 else push_bit (32 - s) (sm (off + k + 1)))"
  have "shift_right_word src lim off s (BITMAP_LAST_WORD_MASK (int n)) k = Inr (drop_bit s (sm (off + k)) OR up)"
    using l assms(1) by (auto simp: shift_right_word_def sm_def up_def)
  moreover have "bit (drop_bit s (sm (off + k)) OR up) r \<longleftrightarrow>
      32 * k + r + (32 * off + s) < n \<and> bm src (32 * k + r + (32 * off + s))" if r: "r < 32" for r
  proof (cases "r + s < 32")
    case True
    have "\<not> bit up r" using True r by (auto simp: up_def push_drop_bit)
    then have "bit (drop_bit s (sm (off + k)) OR up) r \<longleftrightarrow> bit (sm (off + k)) (r + s)" by (simp add: bit_or_iff push_drop_bit)
    then show ?thesis using sm [OF assms(1) True] by (simp add: algebra_simps)
  next
    case False
    have "\<not> bit (sm (off + k)) (r + s)" using False by (auto dest: bit_imp_le_length)
    then have e: "bit (drop_bit s (sm (off + k)) OR up) r \<longleftrightarrow> bit up r" by (simp add: bit_or_iff push_drop_bit)
    have p: "32 * k + r + (32 * off + s) = 32 * (off + k + 1) + (r + s - 32)" using False by simp
    show ?thesis
    proof (cases "off + k + 1 < lim")
      case True
      have "bit up r \<longleftrightarrow> bit (sm (off + k + 1)) (r + s - 32)"
        using True False r assms(4) by (auto simp: up_def push_drop_bit algebra_simps)
      then show ?thesis unfolding e p using sm [OF True, of "r + s - 32"] r assms(4) by simp
    next
      case f: False
      have "n \<le> 32 * (off + k + 1)"
      proof -
        have "n \<le> 32 * lim" using BITS_TO_LONGS_gt [of "32 * lim" n] assms(2) by (cases "32 * lim < n") auto
        also have "\<dots> \<le> 32 * (off + k + 1)" using f by (intro mult_le_mono2) simp
        finally show ?thesis .
      qed
      then show ?thesis unfolding e p using f by (simp add: up_def)
    qed
  qed
  ultimately show ?thesis by blast
qed

lemma n_le_words: "n \<le> 32 * BITS_TO_LONGS n"
  using BITS_TO_LONGS_gt [of "32 * BITS_TO_LONGS n" n] by (cases "32 * BITS_TO_LONGS n < n") auto

lemma for_words_choose:
  assumes "\<And>j. k \<le> j \<Longrightarrow> j < k + n \<Longrightarrow> \<exists>w. f j = Inr w \<and> P j w" "k + n \<le> length dst"
  shows "\<exists>g. for_words f k n dst = Inr (over g k n dst) \<and> (\<forall>j. k \<le> j \<and> j < k + n \<longrightarrow> P j (g j))"
proof -
  have "\<exists>g. \<forall>j. k \<le> j \<and> j < k + n \<longrightarrow> f j = Inr (g j) \<and> P j (g j)" using assms(1) by (intro choice) blast
  then obtain g where g: "\<And>j. k \<le> j \<Longrightarrow> j < k + n \<Longrightarrow> f j = Inr (g j) \<and> P j (g j)" by blast
  then show ?thesis using for_words_spec [of k n f g dst] assms(2) by blast
qed

lemma shift_right_spec:
  assumes "n \<le> 32 * length dst" "n \<le> 32 * length src" "shift \<le> n"
  shows "\<exists>d. bitmap_shift_right dst src shift n = Inr d \<and> kept n dst d \<and>
    (\<forall>i < n. bm d i \<longleftrightarrow> i + shift < n \<and> bm src (i + shift))"
proof -
  define lim where "lim = BITS_TO_LONGS n"
  define off where "off = shift div 32"
  define s where "s = shift mod 32"
  have s: "s < 32" "32 * off + s = shift" by (simp_all add: s_def off_def)
  have l: "lim \<le> length dst" "off \<le> lim"
    using BITS_TO_LONGS_le [OF assms(1)] div_le_mono [OF assms(3), of 32] BITS_TO_LONGS_whole(1) [of n]
    by (auto simp: lim_def off_def)
  have "\<exists>g. for_words (shift_right_word src lim off s (BITMAP_LAST_WORD_MASK (int n))) 0 (lim - off) dst =
        Inr (over g 0 (lim - off) dst) \<and> (\<forall>k. 0 \<le> k \<and> k < 0 + (lim - off) \<longrightarrow>
        (\<forall>r < 32. bit (g k) r \<longleftrightarrow> 32 * k + r + (32 * off + s) < n \<and> bm src (32 * k + r + (32 * off + s))))"
    using l s(1) assms(2) by (intro for_words_choose shift_right_word_spec) (auto simp: lim_def)
  then obtain g where g: "for_words (shift_right_word src lim off s (BITMAP_LAST_WORD_MASK (int n))) 0 (lim - off) dst =
        Inr (over g 0 (lim - off) dst)"
      "\<And>k r. k < lim - off \<Longrightarrow> r < 32 \<Longrightarrow> bit (g k) r \<longleftrightarrow> 32 * k + r + shift < n \<and> bm src (32 * k + r + shift)"
    unfolding s(2) by auto
  define d where "d = (if off \<noteq> 0 then over (\<lambda>k. 0) (lim - off) off (over g 0 (lim - off) dst) else over g 0 (lim - off) dst)"
  have "bitmap_shift_right dst src shift n = Inr d"
    using g(1) l for_words_spec [of "lim - off" off "\<lambda>k. Inr 0" "\<lambda>k. 0" "over g 0 (lim - off) dst"]
    by (auto simp: bitmap_shift_right_def Let_def d_def simp flip: lim_def off_def s_def)
  moreover have "kept n dst d" using l by (auto simp: kept_def d_def simp flip: lim_def)
  moreover have "bm d i \<longleftrightarrow> i + shift < n \<and> bm src (i + shift)" if i: "i < n" for i
  proof -
    have k: "i div 32 < lim" "i div 32 < length dst" using BITS_TO_LONGS_gt [OF i] l by (auto simp: lim_def)
    show ?thesis
    proof (cases "i div 32 < lim - off")
      case True
      then show ?thesis using g(2) [OF True, of "i mod 32"] k by (auto simp: bm_def d_def)
    next
      case False
      have "n \<le> 32 * (i div 32 + off)"
        using n_le_words [of n] False l mult_le_mono2 [of lim "i div 32 + off" 32] by (simp add: lim_def)
      then have "n \<le> 32 * (i div 32) + 32 * off" by (simp only: add_mult_distrib2)
      then have "n \<le> i + shift" using s div_mult_mod_eq [of i 32] by linarith
      moreover have "\<not> bm d i" using False k l by (auto simp: bm_def d_def)
      ultimately show ?thesis by simp
    qed
  qed
  ultimately show ?thesis by blast
qed

definition shift_left_word :: "u32 list \<Rightarrow> nat \<Rightarrow> nat \<Rightarrow> u32" where
  "shift_left_word src s k = (if s \<noteq> 0 \<and> k > 0 then drop_bit (32 - s) (src ! (k - 1)) else 0) OR push_bit s (src ! k)"

lemma shift_left_loop_spec:
  "n + off \<le> length dst \<Longrightarrow> n \<le> length src \<Longrightarrow>
   shift_left_loop src off s n dst = Inr (over (\<lambda>j. shift_left_word src s (j - off)) off n dst)"
proof (induction n arbitrary: dst)
  case (Suc n)
  let ?g = "\<lambda>j. shift_left_word src s (j - off)"
  have "shift_left_loop src off s (Suc n) dst = shift_left_loop src off s n (dst[n + off := ?g (n + off)])"
    using Suc.prems by (auto simp: shift_left_word_def)
  also have "\<dots> = Inr (over ?g off n (dst[n + off := ?g (n + off)]))" using Suc.prems by (intro Suc.IH) auto
  also have "over ?g off n (dst[n + off := ?g (n + off)]) = over ?g off (Suc n) dst"
    by (rule nth_equalityI) (auto simp: nth_list_update less_Suc_eq add.commute [of off])
  finally show ?case .
qed simp

lemma shift_left_word_bit:
  assumes "r < 32" "s < 32"
  shows "bit (shift_left_word src s k) r \<longleftrightarrow> s \<le> 32 * k + r \<and> bm src (32 * k + r - s)"
proof (cases "s \<le> r")
  case True
  then have p: "32 * k + r - s = 32 * k + (r - s)" by simp
  have "\<not> bit (drop_bit (32 - s) (src ! (k - 1))) r" if "s \<noteq> 0"
    using True that assms by (auto simp: push_drop_bit dest: bit_imp_le_length)
  moreover have "bm src (32 * k + r - s) \<longleftrightarrow> bit (src ! k) (r - s)" unfolding p using assms by (intro bm_at) simp
  ultimately show ?thesis using True assms by (auto simp: shift_left_word_def bit_or_iff push_drop_bit)
next
  case False
  show ?thesis
  proof (cases k)
    case 0
    then show ?thesis using False assms by (simp add: shift_left_word_def push_drop_bit)
  next
    case (Suc k')
    then have p: "32 * k + r - s = 32 * k' + (r + (32 - s))" "r + (32 - s) < 32" "s \<le> 32 * k + r" using False assms by auto
    show ?thesis using False assms Suc p(2,3) unfolding p(1) bm_at [OF p(2)]
      by (auto simp: shift_left_word_def bit_or_iff push_drop_bit)
  qed
qed

lemma shift_left_spec:
  assumes "n \<le> 32 * length dst" "n \<le> 32 * length src" "shift \<le> n"
  shows "\<exists>d. bitmap_shift_left dst src shift n = Inr d \<and> kept n dst d \<and>
    (\<forall>i < n. bm d i \<longleftrightarrow> shift \<le> i \<and> bm src (i - shift))"
proof -
  define lim where "lim = BITS_TO_LONGS n"
  define off where "off = shift div 32"
  define s where "s = shift mod 32"
  have s: "s < 32" "32 * off + s = shift" by (simp_all add: s_def off_def)
  have l: "lim \<le> length dst" "off \<le> lim" "lim \<le> length src"
    using BITS_TO_LONGS_le [OF assms(1)] BITS_TO_LONGS_le [OF assms(2)] div_le_mono [OF assms(3), of 32] BITS_TO_LONGS_whole(1) [of n]
    by (auto simp: lim_def off_def)
  let ?g = "\<lambda>j. shift_left_word src s (j - off)"
  let ?e = "over ?g off (lim - off) dst"
  define d where "d = (if off \<noteq> 0 then over (\<lambda>k. 0) 0 off ?e else ?e)"
  have "bitmap_shift_left dst src shift n = Inr d"
    using l for_words_spec [of 0 off "\<lambda>k. Inr 0" "\<lambda>k. 0" ?e] shift_left_loop_spec [of "lim - off" off dst src s]
    by (auto simp: bitmap_shift_left_def Let_def d_def simp flip: lim_def off_def s_def)
  moreover have "kept n dst d" using l by (auto simp: kept_def d_def simp flip: lim_def)
  moreover have "bm d i \<longleftrightarrow> shift \<le> i \<and> bm src (i - shift)" if i: "i < n" for i
  proof -
    have k: "i div 32 < lim" "i div 32 < length dst" using BITS_TO_LONGS_gt [OF i] l by (auto simp: lim_def)
    note dm = div_mult_mod_eq [of i 32]
    show ?thesis
    proof (cases "i div 32 < off")
      case True
      then have "32 * (i div 32) + 32 \<le> 32 * off" by simp
      then have "i < shift" using s dm mod_less_divisor [of 32 i] by linarith
      moreover have "\<not> bm d i" using True k by (auto simp: bm_def d_def)
      ultimately show ?thesis by simp
    next
      case False
      then have "bm d i \<longleftrightarrow> bit (?g (i div 32)) (i mod 32)" using k by (auto simp: bm_def d_def)
      also have "\<dots> \<longleftrightarrow> s \<le> 32 * (i div 32 - off) + i mod 32 \<and> bm src (32 * (i div 32 - off) + i mod 32 - s)"
        using s(1) by (intro shift_left_word_bit) auto
      also have "32 * (i div 32 - off) + i mod 32 = i - 32 * off" using False dm by (simp add: diff_mult_distrib2)
      finally show ?thesis using s False dm by auto
    qed
  qed
  ultimately show ?thesis by blast
qed

subsection \<open>Ranges\<close>

text \<open>
  The loop at word \<open>p\<close> with \<open>b\<close> bits left in it and \<open>l\<close> bits to go: the position reached is \<open>32 * p + (32 - b)\<close>. The
  update writes the value \<open>v\<close> under the mask.
\<close>

lemma range_loop_spec:
  assumes upd: "\<And>msk w r. r < 32 \<Longrightarrow> bit (upd msk w) r \<longleftrightarrow> (if bit msk r then v else bit w r)"
  shows "0 < b \<Longrightarrow> b \<le> 32 \<Longrightarrow> (\<And>r. bit msk r \<longleftrightarrow> 32 - b \<le> r \<and> r < 32) \<Longrightarrow> sz = int (32 * p + (32 - b) + l) \<Longrightarrow>
    32 * p + (32 - b) + l \<le> 32 * length m \<Longrightarrow>
    \<exists>d. range_loop upd sz p (int l) (int b) msk m = Inr d \<and> length d = length m \<and>
      (\<forall>i. bm d i \<longleftrightarrow> (if 32 * p + (32 - b) \<le> i \<and> i < 32 * p + (32 - b) + l then v else bm m i))"
proof (induction l arbitrary: p b msk m rule: less_induct)
  case (less l)
  let ?a = "32 * p + (32 - b)"
  consider "b \<le> l" | "0 < l" "l < b" | "l = 0" by linarith
  then show ?case
  proof cases
    case 1
    let ?m = "m[p := upd msk (m ! p)]"
    have p: "p < length m" using less.prems 1 by linarith
    have "\<exists>d. range_loop upd sz (Suc p) (int (l - b)) (int 32) (NOT 0) ?m = Inr d \<and> length d = length ?m \<and>
      (\<forall>i. bm d i \<longleftrightarrow> (if 32 * Suc p + (32 - 32) \<le> i \<and> i < 32 * Suc p + (32 - 32) + (l - b) then v else bm ?m i))"
      using less.prems 1 by (intro less.IH) (auto simp: bit_not_iff)
    then obtain d where d: "range_loop upd sz (Suc p) (int (l - b)) 32 (NOT 0) ?m = Inr d" "length d = length m"
      "\<And>i. bm d i \<longleftrightarrow> (if 32 * Suc p \<le> i \<and> i < 32 * Suc p + (l - b) then v else bm ?m i)" by auto
    have "range_loop upd sz p (int l) (int b) msk m = Inr d"
      using d(1) 1 less.prems p by (subst range_loop.simps) (simp add: of_nat_diff)
    moreover have "bm d i \<longleftrightarrow> (if ?a \<le> i \<and> i < ?a + l then v else bm m i)" for i
    proof -
      have "bm ?m i \<longleftrightarrow> (if ?a \<le> i \<and> i < 32 * Suc p then v else bm m i)"
      proof (cases "i div 32 = p")
        case True
        then obtain r where r: "i = 32 * p + r" "i mod 32 = r" "r < 32" using div_mult_mod_eq [of i 32] by (metis mod_less_divisor mult.commute zero_less_numeral)
        then have "(?a \<le> i \<and> i < 32 * Suc p) = (32 - b \<le> i mod 32)" unfolding r(2) by (simp add: r(1,3))
        then show ?thesis using True p less.prems(3) upd [of "i mod 32"] by (simp add: bm_def)
      next
        case False
        have "\<not> (?a \<le> i \<and> i < 32 * Suc p)"
        proof
          assume "?a \<le> i \<and> i < 32 * Suc p"
          then have "i div 32 = p" by (intro div_nat_eqI) auto
          with False show False ..
        qed
        then show ?thesis using False by (auto simp: bm_def)
      qed
      moreover have "32 * Suc p + (l - b) = ?a + l" "?a \<le> 32 * Suc p" using 1 less.prems(1,2) by auto
      ultimately show ?thesis unfolding d(3) by auto
    qed
    ultimately show ?thesis using d(2) by blast
  next
    case 2
    let ?k = "msk AND BITMAP_LAST_WORD_MASK sz"
    let ?m = "m[p := upd ?k (m ! p)]"
    have p: "p < length m" using less.prems 2 by linarith
    have b: "32 - b + l < 32" using less.prems(1,2) 2 by simp
    then have e: "(32 * p + (32 - b) + l) mod 32 = 32 - b + l" "32 - b + l \<noteq> 0"
      using 2 by (simp_all only: add.assoc mod_mult_self4 mod_less)
    have lm: "bit (BITMAP_LAST_WORD_MASK sz) r \<longleftrightarrow> r < 32 - b + l" for r
      unfolding less.prems(4) last_mask_bit e(1) using e(2) b by linarith
    have k: "bit ?k r \<longleftrightarrow> 32 - b \<le> r \<and> r < 32 - b + l" for r
      unfolding bit_and_iff less.prems(3) lm using less_trans [OF _ b] by blast
    have "range_loop upd sz p (int l) (int b) msk m = Inr ?m"
      using 2 p by (subst range_loop.simps) simp
    moreover have "bm ?m i \<longleftrightarrow> (if ?a \<le> i \<and> i < ?a + l then v else bm m i)" for i
    proof (cases "i div 32 = p")
      case True
      then have "i = 32 * p + i mod 32" using div_mult_mod_eq [of i 32] by simp
      then obtain r where r: "i = 32 * p + r" "i mod 32 = r" by blast
      then have "(?a \<le> i \<and> i < ?a + l) = (32 - b \<le> i mod 32 \<and> i mod 32 < 32 - b + l)" unfolding r(2) by (simp add: r(1))
      then show ?thesis using True p k upd [of "i mod 32"] by (simp add: bm_def)
    next
      case False
      have "\<not> (?a \<le> i \<and> i < ?a + l)"
      proof
        assume "?a \<le> i \<and> i < ?a + l"
        then have "i div 32 = p" using 2 less.prems(1,2) by (intro div_nat_eqI) auto
        with False show False ..
      qed
      then show ?thesis using False by (auto simp: bm_def)
    qed
    ultimately show ?thesis by auto
  next
    case 3
    then have "range_loop upd sz p (int l) (int b) msk m = Inr m" using less.prems(1) by (subst range_loop.simps) simp
    then show ?thesis using 3 by auto
  qed
qed

lemma range_spec:
  assumes upd: "\<And>msk w r. r < 32 \<Longrightarrow> bit (upd msk w) r \<longleftrightarrow> (if bit msk r then v else bit w r)"
    and "start + l \<le> 32 * length m"
  shows "\<exists>d. range_loop upd (int start + int l) (start div 32) (int l) (32 - int (start mod 32)) (BITMAP_FIRST_WORD_MASK start) m = Inr d \<and>
    length d = length m \<and> (\<forall>i. bm d i \<longleftrightarrow> (if start \<le> i \<and> i < start + l then v else bm m i))"
proof -
  have s: "32 * (start div 32) + (32 - (32 - start mod 32)) = start" using mod_less_divisor [of 32 start] by simp
  have b: "32 - int (start mod 32) = int (32 - start mod 32)" using mod_less_divisor [of 32 start] by (simp add: of_nat_diff)
  have m: "start mod 32 < 32" by simp
  then have c: "0 < 32 - start mod 32" "32 - start mod 32 \<le> 32" by auto
  have f: "bit (BITMAP_FIRST_WORD_MASK start) r \<longleftrightarrow> 32 - (32 - start mod 32) \<le> r \<and> r < 32" for r
    using m by (simp add: first_mask_bit)
  have z: "int start + int l = int (32 * (start div 32) + (32 - (32 - start mod 32)) + l)" unfolding s by simp
  have e: "32 * (start div 32) + (32 - (32 - start mod 32)) + l \<le> 32 * length m" unfolding s by (rule assms(2))
  from range_loop_spec [OF upd c f z e]
  show ?thesis unfolding s b .
qed

subsection \<open>Searching\<close>

text \<open>The result of a search for the first position of \<open>Q\<close> below \<open>n\<close>.\<close>

definition first_pos :: "(nat \<Rightarrow> bool) \<Rightarrow> nat \<Rightarrow> nat \<Rightarrow> bool" where
  "first_pos Q n r \<longleftrightarrow> r \<le> n \<and> (\<forall>i < r. \<not> Q i) \<and> (r < n \<longrightarrow> Q r)"

lemma first_pos_less: "first_pos Q n r \<Longrightarrow> i < r \<Longrightarrow> \<not> Q i"
  by (auto simp: first_pos_def)

lemma first_pos_word:
  assumes "w \<noteq> 0" "\<And>r. r < 32 \<Longrightarrow> bit w r \<longleftrightarrow> Q (s + r)" "\<And>i. i < s \<Longrightarrow> \<not> Q i"
  shows "first_pos Q n (min (s + ffs_word w) n)"
proof -
  have f: "ffs_word w < 32" "bit w (ffs_word w)" "\<And>j. j < ffs_word w \<Longrightarrow> \<not> bit w j" using ffs_word_bit [OF assms(1)] by auto
  have "\<not> Q i" if "i < s + ffs_word w" for i
  proof (cases "i < s")
    case False
    then have "\<not> bit w (i - s)" "i - s < 32" using that f(1,3) by auto
    then show ?thesis using assms(2) [of "i - s"] False by simp
  qed (rule assms(3))
  then show ?thesis using f(1,2) assms(2) [of "ffs_word w"] by (auto simp: first_pos_def)
qed

lemma not_in_word:
  assumes "w = (0 :: u32)" "\<And>r. r < 32 \<Longrightarrow> bit w r \<longleftrightarrow> Q (s + r)" "\<And>i. i < s \<Longrightarrow> \<not> Q i" "i < s + 32"
  shows "\<not> Q i"
  using assms(2) [of "i - s"] assms(1,3,4) by (cases "i < s") auto

lemma find_next_loop_spec:
  "(\<And>r. r < 32 \<Longrightarrow> bit tmp r \<longleftrightarrow> Q (32 * k + r)) \<Longrightarrow> (\<And>i. i < 32 * k \<Longrightarrow> \<not> Q i) \<Longrightarrow> n \<le> 32 * length addr \<Longrightarrow>
   (\<And>j r. k < j \<Longrightarrow> r < 32 \<Longrightarrow> bit (addr ! j XOR invert) r \<longleftrightarrow> Q (32 * j + r)) \<Longrightarrow>
   \<exists>r. find_next_loop addr n invert tmp (32 * k) = Inr r \<and> first_pos Q n r"
proof (induction "n - 32 * k" arbitrary: k tmp rule: less_induct)
  case less
  show ?case
  proof (cases "tmp = 0")
    case True
    have none: "\<not> Q i" if "i < 32 * k + 32" for i using not_in_word [OF True less.prems(1,2) that] .
    show ?thesis
    proof (cases "32 * k + 32 < n")
      case False
      then have "find_next_loop addr n invert tmp (32 * k) = Inr n" using True by (subst find_next_loop.simps) simp
      then show ?thesis using none False by (auto simp: first_pos_def)
    next
      case t: True
      have d: "(32 * k + 32) div 32 = Suc k" by simp
      have a: "Suc k < length addr" using t less.prems(3) by linarith
      have "\<exists>r. find_next_loop addr n invert (addr ! Suc k XOR invert) (32 * Suc k) = Inr r \<and> first_pos Q n r"
        using t none less.prems(3,4) by (intro less.hyps) auto
      moreover have "find_next_loop addr n invert tmp (32 * k) = find_next_loop addr n invert (addr ! Suc k XOR invert) (32 * Suc k)"
        using True t a d by (subst find_next_loop.simps) (simp add: add.commute)
      ultimately show ?thesis by simp
    qed
  next
    case False
    then have "find_next_loop addr n invert tmp (32 * k) = Inr (min (32 * k + ffs_word tmp) n)"
      by (subst find_next_loop.simps) simp
    then show ?thesis using first_pos_word [OF False less.prems(1,2)] by simp
  qed
qed

lemma find_next_spec:
  assumes "n \<le> 32 * length addr" "\<And>w r. r < 32 \<Longrightarrow> bit (w XOR invert) r \<longleftrightarrow> bit w r \<noteq> c"
  shows "\<exists>r. find_next addr n start invert = Inr r \<and> first_pos (\<lambda>i. start \<le> i \<and> bm addr i \<noteq> c) n r"
proof (cases "start < n")
  case False
  then show ?thesis by (auto simp: find_next_def first_pos_def)
next
  case True
  let ?k = "start div 32" and ?Q = "\<lambda>i. start \<le> i \<and> bm addr i \<noteq> c"
  have k: "?k < length addr" using word_index [OF True assms(1)] .
  have s: "start - start mod 32 = 32 * ?k" by (simp add: minus_mod_eq_mult_div)
  note d = div_mult_mod_eq [of start 32]
  have m: "start mod 32 < 32" by simp
  have "\<exists>r. find_next_loop addr n invert ((addr ! ?k XOR invert) AND BITMAP_FIRST_WORD_MASK start) (32 * ?k) = Inr r \<and> first_pos ?Q n r"
  proof (rule find_next_loop_spec [OF _ _ assms(1)])
    fix r :: nat
    assume r: "r < 32"
    have "start mod 32 \<le> r \<longleftrightarrow> start \<le> 32 * ?k + r" using d by linarith
    then show "bit ((addr ! ?k XOR invert) AND BITMAP_FIRST_WORD_MASK start) r \<longleftrightarrow> start \<le> 32 * ?k + r \<and> bm addr (32 * ?k + r) \<noteq> c"
      using r assms(2) [OF r, of "addr ! ?k"] by (auto simp: bit_and_iff first_mask_bit bm_at)
  next
    fix i
    assume "i < 32 * ?k"
    then show "\<not> (start \<le> i \<and> bm addr i \<noteq> c)" using d by linarith
  next
    fix j r
    assume j: "?k < j" and r: "r < (32 :: nat)"
    have "32 * ?k + 32 \<le> 32 * j" using j by simp
    then have "start \<le> 32 * j + r" using d m by linarith
    then show "bit (addr ! j XOR invert) r \<longleftrightarrow> start \<le> 32 * j + r \<and> bm addr (32 * j + r) \<noteq> c"
      using r assms(2) [OF r, of "addr ! j"] by (simp add: bm_at)
  qed
  then show ?thesis using True k s by (auto simp: find_next_def)
qed

lemma find_next_bit_spec:
  "n \<le> 32 * length addr \<Longrightarrow> \<exists>r. find_next_bit addr n start = Inr r \<and> first_pos (\<lambda>i. start \<le> i \<and> bm addr i) n r"
  using find_next_spec [of n addr 0 False start] by (simp add: find_next_bit_def)

lemma find_next_zero_bit_spec:
  "n \<le> 32 * length addr \<Longrightarrow> \<exists>r. find_next_zero_bit addr n start = Inr r \<and> first_pos (\<lambda>i. start \<le> i \<and> \<not> bm addr i) n r"
  using find_next_spec [of n addr "NOT 0" True start] by (simp add: find_next_zero_bit_def bit_xor_iff bit_not_iff)

lemma find_first_loop_spec:
  assumes "n \<le> 32 * length addr" "\<And>w r. r < 32 \<Longrightarrow> bit (g w) r \<longleftrightarrow> bit w r \<noteq> c"
  shows "(\<And>i. i < 32 * k \<Longrightarrow> \<not> (bm addr i \<noteq> c)) \<Longrightarrow>
    \<exists>r. find_first_loop g addr n k = Inr r \<and> first_pos (\<lambda>i. bm addr i \<noteq> c) n r"
proof (induction "n - 32 * k" arbitrary: k rule: less_induct)
  case less
  let ?Q = "\<lambda>i. bm addr i \<noteq> c"
  show ?case
  proof (cases "32 * k < n")
    case False
    then have "find_first_loop g addr n k = Inr n" by (subst find_first_loop.simps) simp
    then show ?thesis using False less.prems by (auto simp: first_pos_def)
  next
    case True
    then have a: "k < length addr" using assms(1) by linarith
    have b: "bit (g (addr ! k)) r \<longleftrightarrow> ?Q (32 * k + r)" if "r < 32" for r using assms(2) [OF that] that by (simp add: bm_at)
    show ?thesis
    proof (cases "g (addr ! k) = 0")
      case z: True
      have "\<not> ?Q i" if "i < 32 * Suc k" for i
        using that by (intro not_in_word [OF z b less.prems]) auto
      then have "\<exists>r. find_first_loop g addr n (Suc k) = Inr r \<and> first_pos ?Q n r" using True by (intro less.hyps) auto
      moreover have "find_first_loop g addr n k = find_first_loop g addr n (Suc k)"
        using True a z by (subst find_first_loop.simps) (simp add: mult.commute)
      ultimately show ?thesis by simp
    next
      case False
      then have "find_first_loop g addr n k = Inr (min (32 * k + ffs_word (g (addr ! k))) n)"
        using True a by (subst find_first_loop.simps) (simp add: mult.commute)
      then show ?thesis using first_pos_word [OF False b less.prems] by simp
    qed
  qed
qed

lemma find_first_bit_spec: "n \<le> 32 * length addr \<Longrightarrow> \<exists>r. find_first_bit addr n = Inr r \<and> first_pos (bm addr) n r"
  using find_first_loop_spec [of n addr "\<lambda>w. w" False 0] by (simp add: find_first_bit_def)

lemma find_first_zero_bit_spec:
  "n \<le> 32 * length addr \<Longrightarrow> \<exists>r. find_first_zero_bit addr n = Inr r \<and> first_pos (\<lambda>i. \<not> bm addr i) n r"
  using find_first_loop_spec [of n addr "\<lambda>w. NOT w" True 0] by (simp add: find_first_zero_bit_def bit_not_iff)

text \<open>The last position: the largest one below \<open>n\<close>, or \<open>n\<close>.\<close>

definition last_pos :: "(nat \<Rightarrow> bool) \<Rightarrow> nat \<Rightarrow> nat \<Rightarrow> bool" where
  "last_pos Q n r \<longleftrightarrow> (if \<exists>i < n. Q i then r < n \<and> Q r \<and> (\<forall>i < n. Q i \<longrightarrow> i \<le> r) else r = n)"

lemma fls_word_bit: "w \<noteq> 0 \<Longrightarrow> fls_word w < 32 \<and> bit w (fls_word w) \<and> (\<forall>j. bit w j \<longrightarrow> j \<le> fls_word w)"
proof -
  assume "w \<noteq> 0"
  then obtain j where j: "j < 32" "bit w j" by (auto simp: word_zero_bits)
  have "first_from (\<lambda>j. bit w (31 - j)) 0 32 \<noteq> None"
    using j by (auto simp: first_from_None_iff intro!: exI [of _ "31 - j"])
  then obtain i where i: "first_from (\<lambda>j. bit w (31 - j)) 0 32 = Some i" by blast
  from first_from_Some [OF i] have f: "i < 32" "bit w (31 - i)" "\<And>l. l < i \<Longrightarrow> \<not> bit w (31 - l)" by auto
  have "k \<le> 31 - i" if "bit w k" for k
  proof (rule ccontr)
    assume "\<not> k \<le> 31 - i"
    moreover have "k < 32" using bit_imp_le_length [OF that] by simp
    ultimately have "31 - k < i" "31 - (31 - k) = k" using f(1) by auto
    with f(3) [of "31 - k"] that show False by simp
  qed
  with f i show ?thesis by (simp add: fls_word_def)
qed

lemma find_last_loop_spec:
  assumes "n \<le> 32 * length addr"
  shows "32 * idx < n \<Longrightarrow> (\<And>r. r < 32 \<Longrightarrow> bit (val AND addr ! idx) r \<longleftrightarrow> 32 * idx + r < n \<and> bm addr (32 * idx + r)) \<Longrightarrow>
    (\<And>i. 32 * idx + 32 \<le> i \<Longrightarrow> i < n \<Longrightarrow> \<not> bm addr i) \<Longrightarrow>
    \<exists>r. find_last_loop addr n val idx = Inr r \<and> last_pos (bm addr) n r"
proof (induction idx arbitrary: val)
  case (0 val)
  have a: "addr \<noteq> []" using 0 assms by auto
  have none: "\<not> bm addr i" if "val AND addr ! 0 = 0" "i < n" for i
    using 0(2) [of i] 0(3) [of i] that by (cases "i < 32") auto
  show ?case
  proof (cases "val AND addr ! 0 = 0")
    case True
    then show ?thesis using none a by (auto simp: last_pos_def)
  next
    case False
    from fls_word_bit [OF False] have f: "fls_word (val AND addr ! 0) < 32" "bit (val AND addr ! 0) (fls_word (val AND addr ! 0))"
      "\<And>j. bit (val AND addr ! 0) j \<Longrightarrow> j \<le> fls_word (val AND addr ! 0)" by auto
    have "i \<le> fls_word (val AND addr ! 0)" if "i < n" "bm addr i" for i
      using f(3) [of i] 0(2) [of i] 0(3) [of i] that by (cases "i < 32") auto
    moreover have "fls_word (val AND addr ! 0) < n \<and> bm addr (fls_word (val AND addr ! 0))" using f(1,2) 0(2) by auto
    ultimately show ?thesis using False a by (auto simp: last_pos_def)
  qed
next
  case (Suc idx val)
  let ?w = "val AND addr ! Suc idx" and ?s = "32 * Suc idx"
  have a: "Suc idx < length addr" using Suc.prems(1) assms by simp
  show ?case
  proof (cases "?w = 0")
    case True
    have none: "\<not> bm addr i" if "?s \<le> i" "i < n" for i
      using Suc.prems(2) [of "i - ?s"] Suc.prems(3) [of i] that True by (cases "i - ?s < 32") auto
    have "\<exists>r. find_last_loop addr n (NOT 0) idx = Inr r \<and> last_pos (bm addr) n r"
    proof (rule Suc.IH)
      show "32 * idx < n" using Suc.prems(1) by simp
      show "bit (NOT 0 AND addr ! idx) r \<longleftrightarrow> 32 * idx + r < n \<and> bm addr (32 * idx + r)" if "r < 32" for r
        using that Suc.prems(1) by (simp add: bm_at)
      show "\<not> bm addr i" if "32 * idx + 32 \<le> i" "i < n" for i using none that by simp
    qed
    then show ?thesis using True a by simp
  next
    case False
    from fls_word_bit [OF False] have f: "fls_word ?w < 32" "bit ?w (fls_word ?w)" "\<And>j. bit ?w j \<Longrightarrow> j \<le> fls_word ?w" by auto
    have "i \<le> ?s + fls_word ?w" if "i < n" "bm addr i" for i
    proof (cases "i < ?s + 32 \<and> ?s \<le> i")
      case True
      then have "bit ?w (i - ?s)" using Suc.prems(2) [of "i - ?s"] that by auto
      from f(3) [OF this] show ?thesis by simp
    next
      case False
      then show ?thesis using Suc.prems(3) [of i] that by (auto simp: not_le)
    qed
    moreover have "?s + fls_word ?w < n \<and> bm addr (?s + fls_word ?w)" using f(1,2) Suc.prems(2) by blast
    moreover have "find_last_loop addr n val (Suc idx) = Inr (?s + fls_word ?w)" using False a by (simp add: add.commute)
    ultimately show ?thesis by (auto simp: last_pos_def)
  qed
qed

lemma find_last_bit_spec:
  assumes "n \<le> 32 * length addr"
  shows "\<exists>r. find_last_bit addr n = Inr r \<and> last_pos (bm addr) n r"
proof (cases "n = 0")
  case True
  then show ?thesis by (simp add: find_last_bit_def last_pos_def)
next
  case False
  let ?k = "(n - 1) div 32"
  have i: "32 * ?k \<le> n - 1" "n - 1 < 32 * ?k + 32"
    using div_mult_mod_eq [of "n - 1" 32] mod_less_divisor [of 32 "n - 1"] by linarith+
  have k: "?k < BITS_TO_LONGS n" "?k = BITS_TO_LONGS n - 1"
  proof -
    show l: "?k < BITS_TO_LONGS n" using False by (intro BITS_TO_LONGS_gt) simp
    have "BITS_TO_LONGS n \<le> Suc ?k" using i False by (intro BITS_TO_LONGS_le) simp
    with l show "?k = BITS_TO_LONGS n - 1" by simp
  qed
  have "\<exists>r. find_last_loop addr n (BITMAP_LAST_WORD_MASK (int n)) ?k = Inr r \<and> last_pos (bm addr) n r"
  proof (rule find_last_loop_spec [OF assms])
    show "32 * ?k < n" using i False by linarith
    show "bit (BITMAP_LAST_WORD_MASK (int n) AND addr ! ?k) r \<longleftrightarrow> 32 * ?k + r < n \<and> bm addr (32 * ?k + r)" if "r < 32" for r
      using masked_word_bit [OF k(1) that, of "addr ! ?k"] k(2) that by (auto simp: bm_at and.commute)
    show "\<not> bm addr j" if "32 * ?k + 32 \<le> j" "j < n" for j using that i by linarith
  qed
  then show ?thesis using False by (simp add: find_last_bit_def)
qed

lemma ALIGN_MASK_pow2: "ALIGN_MASK x (2 ^ k - 1) = (x + (2 ^ k - 1)) div 2 ^ k * 2 ^ k"
proof -
  have "(x + (2 ^ k - 1)) AND (2 ^ k - 1) = (x + (2 ^ k - 1)) mod 2 ^ k"
    by (simp only: mask_eq_exp_minus_1 [symmetric] take_bit_eq_mask [symmetric] take_bit_eq_mod)
  then show ?thesis unfolding ALIGN_MASK_def by (simp only: minus_mod_eq_div_mult)
qed

lemma ALIGN_MASK_least: "x \<le> y \<Longrightarrow> 2 ^ k dvd y \<Longrightarrow> ALIGN_MASK x (2 ^ k - 1) \<le> y"
proof -
  assume "x \<le> y" "2 ^ k dvd y"
  then obtain q where q: "y = q * 2 ^ k" "x \<le> q * 2 ^ k" by (auto simp: dvd_def mult.commute)
  have "(x + (2 ^ k - 1)) div 2 ^ k < Suc q" 
  proof (rule less_mult_imp_div_less)
    have "0 < (2 :: nat) ^ k" by simp
    with q(2) show "x + (2 ^ k - 1) < Suc q * 2 ^ k" unfolding mult_Suc by linarith
  qed
  then show ?thesis unfolding ALIGN_MASK_pow2 q(1) by simp
qed

text \<open>An aligned area of \<open>nr\<close> zero bits at \<open>a\<close>, not below \<open>start\<close>.\<close>

definition free_area :: "u32 list \<Rightarrow> nat \<Rightarrow> nat \<Rightarrow> nat \<Rightarrow> nat \<Rightarrow> nat \<Rightarrow> nat \<Rightarrow> bool" where
  "free_area m n start nr al off a \<longleftrightarrow>
     start \<le> a \<and> al dvd a + off \<and> a + nr \<le> n \<and> (\<forall>i. a \<le> i \<and> i < a + nr \<longrightarrow> \<not> bm m i)"

lemma find_next_zero_area_spec:
  assumes "n \<le> 32 * length m" "0 < nr"
  shows "\<exists>r. bitmap_find_next_zero_area_off m n start nr (2 ^ k - 1) off = Inr r \<and>
    (\<forall>a. free_area m n start nr (2 ^ k) off a \<longrightarrow> r \<le> a) \<and> (r \<le> n \<longrightarrow> free_area m n start nr (2 ^ k) off r)"
proof (induction "n - start" arbitrary: start rule: less_induct)
  case less
  obtain z where z: "find_next_zero_bit m n start = Inr z" "first_pos (\<lambda>i. start \<le> i \<and> \<not> bm m i) n z"
    using find_next_zero_bit_spec [OF assms(1)] by blast
  have zs: "start \<le> z \<or> z = n" using find_next_range z(1) by (simp add: find_next_zero_bit_def)
  define x where "x = ALIGN_MASK (z + off) (2 ^ k - 1) - off"
  have x: "x + off = ALIGN_MASK (z + off) (2 ^ k - 1)" "z \<le> x"
    using ALIGN_MASK_ge [of "z + off" "2 ^ k - 1"] by (auto simp: x_def)
  have al: "2 ^ k dvd x + off" unfolding x(1) ALIGN_MASK_pow2 by simp
  have ge: "x \<le> a" if "free_area m n start nr (2 ^ k) off a" for a
  proof -
    have a: "start \<le> a" "\<not> bm m a" "2 ^ k dvd a + off" using that assms(2) by (auto simp: free_area_def)
    then have "z \<le> a" using first_pos_less [OF z(2), of a] by (meson not_le)
    then have "x + off \<le> a + off" unfolding x(1) using a(3) by (intro ALIGN_MASK_least) auto
    then show ?thesis by simp
  qed
  note unf = bitmap_find_next_zero_area_off.simps [of m n start nr "2 ^ k - 1" off]
  show ?case
  proof (cases "x + nr \<le> n")
    case False
    then have "bitmap_find_next_zero_area_off m n start nr (2 ^ k - 1) off = Inr (x + nr)"
      unfolding unf z(1) rbind_simps Let_def x_def [symmetric] by simp
    moreover have "\<not> free_area m n start nr (2 ^ k) off a" for a using ge [of a] False by (auto simp: free_area_def)
    ultimately show ?thesis using False by auto
  next
    case True
    obtain i where i: "find_next_bit m (x + nr) x = Inr i" "first_pos (\<lambda>i. x \<le> i \<and> bm m i) (x + nr) i"
      using find_next_bit_spec [of "x + nr" m x] True assms(1) by auto
    show ?thesis
    proof (cases "i < x + nr")
      case lt: True
      then have xi: "x \<le> i" "bm m i" using i(2) by (auto simp: first_pos_def)
      have same: "free_area m n start nr (2 ^ k) off a \<longleftrightarrow> free_area m n (Suc i) nr (2 ^ k) off a" for a
      proof
        assume f: "free_area m n start nr (2 ^ k) off a"
        have "i < a" using ge [OF f] f xi lt by (auto simp: free_area_def not_less intro: ccontr)
        then show "free_area m n (Suc i) nr (2 ^ k) off a" using f by (simp add: free_area_def)
      next
        assume "free_area m n (Suc i) nr (2 ^ k) off a"
        then show "free_area m n start nr (2 ^ k) off a" using zs x(2) xi lt True by (auto simp: free_area_def)
      qed
      have "bitmap_find_next_zero_area_off m n start nr (2 ^ k - 1) off = bitmap_find_next_zero_area_off m n (Suc i) nr (2 ^ k - 1) off"
        unfolding unf z(1) rbind_simps Let_def x_def [symmetric] using True lt i(1) by simp
      moreover have "n - Suc i < n - start" using zs x(2) xi lt True by auto
      ultimately show ?thesis using less.hyps [of "Suc i"] unfolding same by simp
    next
      case ge_fin: False
      have zero: "\<not> bm m j" if "x \<le> j" "j < x + nr" for j using first_pos_less [OF i(2), of j] that ge_fin by auto
      have "bitmap_find_next_zero_area_off m n start nr (2 ^ k - 1) off = Inr x"
        unfolding unf z(1) rbind_simps Let_def x_def [symmetric] using True ge_fin i(1) by simp
      moreover have "start \<le> x" using zs x(2) True assms(2) by auto
      ultimately show ?thesis using ge zero al True by (auto simp: free_area_def)
    qed
  qed
qed

section \<open>Properties\<close>

text \<open>
  C23: The operations of \<^verbatim>\<open>bitmap.c\<close> on whole bitmaps implement the operations on sets of positions: conjunction, and-not,
  disjunction, exclusive or and complement compute intersection, difference, union, symmetric difference and
  complement below the size, the first two also report whether the result is empty; the tests decide equality,
  intersection and inclusion. Words after the bitmap are never changed, whatever the size is modulo the word size.
\<close>

theorem bitmap_algebra:
  assumes "n \<le> 32 * length dst" "n \<le> 32 * length b1" "n \<le> 32 * length b2"
  shows "(\<exists>d. bitmap_and dst b1 b2 n = Inr (bset n b1 \<inter> bset n b2 \<noteq> {}, d) \<and> bset n d = bset n b1 \<inter> bset n b2 \<and> kept n dst d) \<and>
    (\<exists>d. bitmap_andnot dst b1 b2 n = Inr (bset n b1 - bset n b2 \<noteq> {}, d) \<and> bset n d = bset n b1 - bset n b2 \<and> kept n dst d) \<and>
    (\<exists>d. bitmap_or dst b1 b2 n = Inr d \<and> bset n d = bset n b1 \<union> bset n b2 \<and> kept n dst d) \<and>
    (\<exists>d. bitmap_xor dst b1 b2 n = Inr d \<and> bset n d = (bset n b1 - bset n b2) \<union> (bset n b2 - bset n b1) \<and> kept n dst d) \<and>
    (\<exists>d. bitmap_complement dst b1 n = Inr d \<and> bset n d = {..<n} - bset n b1 \<and> kept n dst d) \<and>
    bitmap_equal b1 b2 n = Inr (bset n b1 = bset n b2) \<and>
    bitmap_intersects b1 b2 n = Inr (bset n b1 \<inter> bset n b2 \<noteq> {}) \<and>
    bitmap_subset b1 b2 n = Inr (bset n b1 \<subseteq> bset n b2)"
proof (intro conjI)
  note b = bit_and_iff bit_or_iff bit_xor_iff bit_not_iff
  show "\<exists>d. bitmap_and dst b1 b2 n = Inr (bset n b1 \<inter> bset n b2 \<noteq> {}, d) \<and> bset n d = bset n b1 \<inter> bset n b2 \<and> kept n dst d"
    using masked_op_spec [OF assms, of "(AND)"] by (fastforce simp: bitmap_and_def bm_def bset_def b)
  show "\<exists>d. bitmap_andnot dst b1 b2 n = Inr (bset n b1 - bset n b2 \<noteq> {}, d) \<and> bset n d = bset n b1 - bset n b2 \<and> kept n dst d"
    using masked_op_spec [OF assms, of "\<lambda>x y. x AND NOT y"] by (fastforce simp: bitmap_andnot_def bm_def bset_def b)
  show "\<exists>d. bitmap_or dst b1 b2 n = Inr d \<and> bset n d = bset n b1 \<union> bset n b2 \<and> kept n dst d"
    using over_spec [OF assms(1), of "\<lambda>j. b1 ! j OR b2 ! j"]
    by (auto simp: bitmap_or_def pointwise_spec [OF assms] bset_def b bm_def [of b1] bm_def [of b2])
  show "\<exists>d. bitmap_xor dst b1 b2 n = Inr d \<and> bset n d = (bset n b1 - bset n b2) \<union> (bset n b2 - bset n b1) \<and> kept n dst d"
    using over_spec [OF assms(1), of "\<lambda>j. b1 ! j XOR b2 ! j"]
    by (auto simp: bitmap_xor_def pointwise_spec [OF assms] bset_def b bm_def [of b1] bm_def [of b2])
  show "\<exists>d. bitmap_complement dst b1 n = Inr d \<and> bset n d = {..<n} - bset n b1 \<and> kept n dst d"
    using over_spec [OF assms(1), of "\<lambda>j. NOT (b1 ! j)"]
    by (auto simp: complement_over [OF assms(1,2)] bset_def b bm_def [of b1])
  show "bitmap_equal b1 b2 n = Inr (bset n b1 = bset n b2)"
    by (auto simp: bitmap_equal_def words_test_spec [OF assms(2,3)] bset_def bm_def b)
  show "bitmap_intersects b1 b2 n = Inr (bset n b1 \<inter> bset n b2 \<noteq> {})"
    by (auto simp: bitmap_intersects_def words_test_spec [OF assms(2,3)] bset_def bm_def b)
  show "bitmap_subset b1 b2 n = Inr (bset n b1 \<subseteq> bset n b2)"
    by (auto simp: bitmap_subset_def words_test_spec [OF assms(2,3)] bset_def bm_def b)
qed

theorem bitmap_algebra_witness:
  "(\<exists>d. bitmap_and [7, 7] [5, 1] [4, 3] 33 = Inr (bset 33 [5, 1] \<inter> bset 33 [4, 3] \<noteq> {}, d)) \<and>
   bitmap_subset [5, 1] [5, 3] 33 = Inr (bset 33 [5, 1] \<subseteq> bset 33 [5, 3])"
  using bitmap_algebra [of 33 "[7, 7]" "[5, 1]" "[4, 3]"] bitmap_algebra [of 33 "[7, 7]" "[5, 1]" "[5, 3]"] by auto

text \<open>
  The shifts move every position by the shift: to the right, position \<open>i\<close> of the result is position \<open>i + shift\<close> of the
  source (bits at or above the size read as zero); to the left, it is position \<open>i - shift\<close>. \<open>bitmap_set\<close> and
  \<open>bitmap_clear\<close> write exactly the positions of their range.
\<close>

theorem bitmap_shift_range:
  assumes "n \<le> 32 * length dst" "n \<le> 32 * length src" "shift \<le> n" "start + l \<le> 32 * length m"
  shows "(\<exists>d. bitmap_shift_right dst src shift n = Inr d \<and> kept n dst d \<and> bset n d = {i. i + shift \<in> bset n src}) \<and>
    (\<exists>d. bitmap_shift_left dst src shift n = Inr d \<and> kept n dst d \<and> bset n d = {i. i < n \<and> shift \<le> i \<and> i - shift \<in> bset n src}) \<and>
    (\<exists>d. bitmap_set m start (int l) = Inr d \<and> length d = length m \<and> bset k d = bset k m \<union> {i. i < k \<and> start \<le> i \<and> i < start + l}) \<and>
    (\<exists>d. bitmap_clear m start (int l) = Inr d \<and> length d = length m \<and> bset k d = bset k m - {start..<start + l})"
proof (intro conjI)
  show "\<exists>d. bitmap_shift_right dst src shift n = Inr d \<and> kept n dst d \<and> bset n d = {i. i + shift \<in> bset n src}"
    using shift_right_spec [OF assms(1-3)] by (fastforce simp: bset_def)
  show "\<exists>d. bitmap_shift_left dst src shift n = Inr d \<and> kept n dst d \<and>
      bset n d = {i. i < n \<and> shift \<le> i \<and> i - shift \<in> bset n src}"
    using shift_left_spec [OF assms(1-3)] by (fastforce simp: bset_def)
  show "\<exists>d. bitmap_set m start (int l) = Inr d \<and> length d = length m \<and>
      bset k d = bset k m \<union> {i. i < k \<and> start \<le> i \<and> i < start + l}"
    using range_spec [where upd = "\<lambda>msk w. w OR msk" and v = True, OF _ assms(4)]
    by (fastforce simp: bitmap_set_def bit_or_iff bset_def)
  show "\<exists>d. bitmap_clear m start (int l) = Inr d \<and> length d = length m \<and> bset k d = bset k m - {start..<start + l}"
  proof -
    have "bit (w AND NOT msk) r \<longleftrightarrow> (if bit msk r then False else bit w r)" if "r < 32" for msk w :: u32 and r
      using that by (auto simp: bit_and_iff bit_not_iff)
    from range_spec [where upd = "\<lambda>msk w. w AND NOT msk" and v = False, OF this assms(4)] obtain d where
      d: "bitmap_clear m start (int l) = Inr d" "length d = length m" "\<And>i. bm d i \<longleftrightarrow> (if start \<le> i \<and> i < start + l then False else bm m i)"
      unfolding bitmap_clear_def by blast
    then show ?thesis by (auto simp: bset_def)
  qed
qed

theorem bitmap_shift_range_witness:
  "(\<exists>d. bitmap_shift_right [0, 0] [5, 1] 33 40 = Inr d \<and> kept 40 [0, 0] d) \<and>
   (\<exists>d. bitmap_set [0, 0] 30 (int 4) = Inr d \<and> bset 64 d = bset 64 [0, 0] \<union> {i. i < 64 \<and> 30 \<le> i \<and> i < 30 + 4})"
  using bitmap_shift_range [of 40 "[0, 0]" "[5, 1]" 33 30 4 "[0, 0]" 64] by auto



end
