(* ===== verification/Hweight.thy ===== *)
theory Hweight
  imports Bitmap
begin

text \<open>
  The population counts of \<^verbatim>\<open>lib/hweight.c\<close>, which add neighbouring groups of bits in parallel, and \<open>__bitmap_weight\<close> of
  \<^verbatim>\<open>lib/bitmap.c\<close>, which sums them over the words. The configuration has no fast multiplier, so the branch with shifts is
  the one compiled.
\<close>

section \<open>hweight.c\<close>

definition sw_hweight32 :: "u32 \<Rightarrow> u32" where
  "sw_hweight32 w =
     (let r = w - (drop_bit 1 w AND 0x55555555);
          r = (r AND 0x33333333) + (drop_bit 2 r AND 0x33333333);
          r = (r + drop_bit 4 r) AND 0x0F0F0F0F;
          r = r + drop_bit 8 r
      in (r + drop_bit 16 r) AND 0x000000FF)"

definition sw_hweight16 :: "u32 \<Rightarrow> u32" where
  "sw_hweight16 w =
     (let r = w - (drop_bit 1 w AND 0x5555);
          r = (r AND 0x3333) + (drop_bit 2 r AND 0x3333);
          r = (r + drop_bit 4 r) AND 0x0F0F
      in (r + drop_bit 8 r) AND 0x00FF)"

definition sw_hweight8 :: "u32 \<Rightarrow> u32" where
  "sw_hweight8 w =
     (let r = w - (drop_bit 1 w AND 0x55);
          r = (r AND 0x33) + (drop_bit 2 r AND 0x33)
      in (r + drop_bit 4 r) AND 0x0F)"

definition sw_hweight64 :: "u64 \<Rightarrow> u32" where
  "sw_hweight64 w = sw_hweight32 (ucast (drop_bit 32 w)) + sw_hweight32 (ucast w)"

text \<open>\<open>hweight_long\<close> is \<open>__sw_hweight32\<close> on this target.\<close>

fun weight_words :: "u32 list \<Rightarrow> nat \<Rightarrow> nat \<Rightarrow> s32 \<Rightarrow> s32 res" where
  "weight_words m k 0 w = Inr w"
| "weight_words m k (Suc n) w = rbind (arr_get m k) (\<lambda>x. weight_words m (Suc k) n (w + sw_hweight32 x))"

definition bitmap_weight :: "u32 list \<Rightarrow> nat \<Rightarrow> s32 res" where
  "bitmap_weight m bits =
     rbind (weight_words m 0 (bits div 32) 0) (\<lambda>w.
     if bits mod 32 \<noteq> 0 then
       rbind (arr_get m (bits div 32)) (\<lambda>x. Inr (w + sw_hweight32 (x AND BITMAP_LAST_WORD_MASK (int bits))))
     else Inr w)"

section \<open>Numbers in digits\<close>

text \<open>Numbers written with digits of \<open>m\<close> bits, the least first; conjunction and shifts act on the digits.\<close>

fun num :: "nat \<Rightarrow> nat list \<Rightarrow> nat" where
  "num m [] = 0"
| "num m (d # ds) = d + 2 ^ m * num m ds"

lemma bit_digit: "d < 2 ^ m \<Longrightarrow> bit (d + 2 ^ m * b) n \<longleftrightarrow> (if n < m then bit d n else bit b (n - m))" for d b :: nat
proof -
  assume "d < 2 ^ m"
  then have t: "take_bit m d = d" by (rule take_bit_nat_eq_self)
  have d: "bit d k \<Longrightarrow> k < m" for k using t by (metis bit_take_bit_iff)
  have "d + 2 ^ m * b = d OR push_bit m b"
    unfolding push_bit_eq_mult mult.commute [of b]
    by (rule disjunctive_add_eq_or) (auto simp: bit_eq_iff bit_and_iff bit_push_bit_iff dest: d simp flip: push_bit_eq_mult simp: mult.commute)
  then show ?thesis by (auto simp: bit_or_iff bit_push_bit_iff dest: d)
qed

lemma num_and:
  "length ds = length es \<Longrightarrow> \<forall>d \<in> set ds. d < 2 ^ m \<Longrightarrow> \<forall>e \<in> set es. e < 2 ^ m \<Longrightarrow>
   num m ds AND num m es = num m (map2 (AND) ds es)"
proof (induction ds es rule: list_induct2)
  case (Cons d ds e es)
  have "d AND e < 2 ^ m"
  proof -
    have "take_bit m (d AND e) = d AND e" using Cons.prems by (simp add: take_bit_and take_bit_nat_eq_self)
    then show ?thesis by (simp only: take_bit_nat_eq_self_iff)
  qed
  moreover have "bit (num m ds) k \<and> bit (num m es) k \<longleftrightarrow> bit (num m (map2 (AND) ds es)) k" for k
    using Cons by (simp flip: bit_and_iff)
  ultimately show ?case using Cons.prems by (intro bit_eqI) (auto simp: bit_and_iff bit_digit)
qed simp

lemma num_less: "\<forall>d \<in> set ds. d < 2 ^ m \<Longrightarrow> num m ds < 2 ^ (m * length ds)"
proof (induction ds)
  case (Cons d ds)
  then have "d < 2 ^ m" "Suc (num m ds) \<le> 2 ^ (m * length ds)" by auto
  then have "d + 2 ^ m * num m ds < 2 ^ m * Suc (num m ds)" by simp
  also have "\<dots> \<le> 2 ^ m * 2 ^ (m * length ds)" using \<open>Suc (num m ds) \<le> _\<close> by (rule mult_le_mono2)
  finally show ?case by (simp add: power_add)
qed simp

lemma num_and_map:
  assumes "\<And>i. i < n \<Longrightarrow> f i < 2 ^ m" "\<And>i. i < n \<Longrightarrow> g i < 2 ^ m"
  shows "num m (map f [0..<n]) AND num m (map g [0..<n]) = num m (map (\<lambda>i. f i AND g i) [0..<n])"
  using num_and [of "map f [0..<n]" "map g [0..<n]" m] assms by (auto simp: zip_map_map comp_def split_def zip_same_conv_map)

text \<open>Shifting by a digit, joining pairs of digits, adding digit by digit, keeping every second digit.\<close>

lemma num_shift:
  assumes "f 0 < 2 ^ m" "f n = 0"
  shows "num m (map f [0..<n]) div 2 ^ m = num m (map (\<lambda>i. f (Suc i)) [0..<n])"
proof (cases n)
  case (Suc k)
  have z: "num m (ds @ [0]) = num m ds" for ds by (induction ds) auto
  have "map (\<lambda>i. f (Suc i)) [0..<n] = map (\<lambda>i. f (Suc i)) [0..<k] @ [0]" using assms(2) Suc by simp
  moreover have "map f [0..<n] = f 0 # map (\<lambda>i. f (Suc i)) [0..<k]" unfolding Suc by (rule map_upt_Suc)
  ultimately show ?thesis using assms(1) z by simp
qed simp

lemma num_mod: "0 < n \<Longrightarrow> f 0 < 2 ^ m \<Longrightarrow> num m (map f [0..<n]) mod 2 ^ m = f 0"
  by (cases n) (simp_all add: map_upt_Suc del: upt_Suc)

lemma num_pairs: "num m (map f [0..<2 * n]) = num (2 * m) (map (\<lambda>i. f (2 * i) + 2 ^ m * f (2 * i + 1)) [0..<n])"
proof (induction n arbitrary: f)
  case (Suc n)
  have "map f [0..<2 * Suc n] = f 0 # f 1 # map (\<lambda>i. f (Suc (Suc i))) [0..<2 * n]"
    by (simp add: map_upt_Suc del: upt_Suc)
  moreover have "map (\<lambda>i. f (2 * i) + 2 ^ m * f (2 * i + 1)) [0..<Suc n] =
      (f 0 + 2 ^ m * f 1) # map (\<lambda>i. f (Suc (Suc (2 * i))) + 2 ^ m * f (Suc (Suc (2 * i + 1)))) [0..<n]"
    by (simp add: map_upt_Suc del: upt_Suc)
  moreover have "(2 :: nat) ^ (2 * m) = 2 ^ m * 2 ^ m" by (simp add: mult_2 power_add)
  ultimately show ?case using Suc [of "\<lambda>i. f (Suc (Suc i))"] by (simp only: num.simps distrib_left mult.assoc add.assoc)
qed simp

lemma num_add: "num m (map f xs) + num m (map g xs) = num m (map (\<lambda>i. f i + g i) xs)"
proof (induction xs)
  case (Cons x xs)
  then have "2 ^ m * num m (map f xs) + 2 ^ m * num m (map g xs) = 2 ^ m * num m (map (\<lambda>i. f i + g i) xs)"
    by (simp flip: distrib_left)
  then show ?case by simp
qed simp

lemma num_every_second:
  assumes "\<And>i. f i < 2 ^ m"
  shows "num m (map f [0..<2 * n]) AND num m (map (\<lambda>i. if even i then 2 ^ m - 1 else 0) [0..<2 * n]) =
    num (2 * m) (map (\<lambda>i. f (2 * i)) [0..<n])"
proof -
  have "num m (map f [0..<2 * n]) AND num m (map (\<lambda>i. if even i then 2 ^ m - 1 else 0) [0..<2 * n]) =
      num m (map (\<lambda>i. f i AND (if even i then 2 ^ m - 1 else 0)) [0..<2 * n])"
    using assms by (intro num_and_map) auto
  also have "\<dots> = num (2 * m) (map (\<lambda>i. f (2 * i)) [0..<n])"
  proof -
    have "f i AND (2 ^ m - 1) = f i" for i
      using assms [of i] by (simp only: mask_eq_exp_minus_1 [symmetric] take_bit_eq_mask [symmetric] take_bit_nat_eq_self)
    then show ?thesis unfolding num_pairs by simp
  qed
  finally show ?thesis .
qed

lemma num_replicate: "num k (replicate n c) * (2 ^ k - 1) + c = c * 2 ^ (k * n)"
proof (induction n)
  case (Suc n)
  obtain p where p: "(2 :: nat) ^ k = Suc p" by (metis not0_implies_Suc power_not_zero zero_neq_numeral)
  have "num k (replicate (Suc n) c) * (2 ^ k - 1) + c = 2 ^ k * (num k (replicate n c) * (2 ^ k - 1) + c)"
    by (simp add: p algebra_simps)
  also have "\<dots> = c * 2 ^ (k * Suc n)" unfolding Suc by (simp add: power_add)
  finally show ?case .
qed simp

lemma num_alternate: "num m (map (\<lambda>i. if even i then c else 0) [0..<2 * n]) = num (2 * m) (replicate n c)"
  unfolding num_pairs by (simp add: map_replicate_const)

lemma masks:
  "num 1 (map (\<lambda>i. if even i then 2 ^ 1 - 1 else 0) [0..<2 * 16]) = 0x55555555"
  "num 2 (map (\<lambda>i. if even i then 2 ^ 2 - 1 else 0) [0..<2 * 8]) = 0x33333333"
  "num 4 (map (\<lambda>i. if even i then 2 ^ 4 - 1 else 0) [0..<2 * 4]) = 0x0F0F0F0F"
  unfolding num_alternate
  using num_replicate [of "2 * 1" 16 "2 ^ 1 - 1"] num_replicate [of "2 * 2" 8 "2 ^ 2 - 1"] num_replicate [of "2 * 4" 4 "2 ^ 4 - 1"]
  by simp_all

text \<open>The three steps on halves of digits, and the sums of neighbours.\<close>

lemma hw_step_1:
  assumes "\<And>i. b i < (2 :: nat)" "b (2 * n) = 0"
  shows "num 1 (map b [0..<2 * n]) - (num 1 (map b [0..<2 * n]) div 2 AND num 1 (map (\<lambda>i. if even i then 2 ^ 1 - 1 else 0) [0..<2 * n])) =
    num 2 (map (\<lambda>i. b (2 * i) + b (2 * i + 1)) [0..<n])"
proof -
  have "num 1 (map b [0..<2 * n]) div 2 = num 1 (map (\<lambda>i. b (Suc i)) [0..<2 * n])"
    using num_shift [of b 1 "2 * n"] assms by simp
  then have h: "num 1 (map b [0..<2 * n]) div 2 AND num 1 (map (\<lambda>i. if even i then 2 ^ 1 - 1 else 0) [0..<2 * n]) =
      num (2 * 1) (map (\<lambda>i. b (Suc (2 * i))) [0..<n])"
    using num_every_second [of "\<lambda>i. b (Suc i)" 1 n] assms(1) by simp
  have "num 2 (map (\<lambda>i. b (2 * i) + b (2 * i + 1)) [0..<n]) + num 2 (map (\<lambda>i. b (Suc (2 * i))) [0..<n]) = num 1 (map b [0..<2 * n])"
  proof -
    have e: "b (2 * i) + b (2 * i + 1) + b (Suc (2 * i)) = b (2 * i) + 2 ^ 1 * b (2 * i + 1)" for i by simp
    show ?thesis unfolding num_add num_pairs [of 1] e by simp
  qed
  then show ?thesis unfolding h by simp
qed

lemma hw_step_2:
  assumes "\<And>i. p i < 2 ^ m" "p (2 * n) = 0"
  shows "(num m (map p [0..<2 * n]) AND num m (map (\<lambda>i. if even i then 2 ^ m - 1 else 0) [0..<2 * n])) +
    (num m (map p [0..<2 * n]) div 2 ^ m AND num m (map (\<lambda>i. if even i then 2 ^ m - 1 else 0) [0..<2 * n])) =
    num (2 * m) (map (\<lambda>i. p (2 * i) + p (2 * i + 1)) [0..<n])"
  unfolding num_shift [of p, OF assms(1) assms(2)] num_every_second [OF assms(1)]
  using num_every_second [of "\<lambda>i. p (Suc i)" m n] assms(1) by (simp add: num_add)

lemma hw_step_3:
  assumes "\<And>i. q i + q (Suc i) < 2 ^ m" "q (2 * n) = 0"
  shows "(num m (map q [0..<2 * n]) + num m (map q [0..<2 * n]) div 2 ^ m) AND
      num m (map (\<lambda>i. if even i then 2 ^ m - 1 else 0) [0..<2 * n]) =
    num (2 * m) (map (\<lambda>i. q (2 * i) + q (2 * i + 1)) [0..<n])"
proof -
  have "q 0 < 2 ^ m" using assms(1) [of 0] by simp
  then show ?thesis
    using num_every_second [of "\<lambda>i. q i + q (Suc i)" m n] assms(1) by (simp add: num_shift [of q m "2 * n"] assms(2) num_add)
qed

section \<open>The 32-bit count\<close>

lemma word_num: "w = of_nat (num 1 (map (\<lambda>i. of_bool (bit w i)) [0..<32]))" for w :: u32
proof -
  have h: "num 1 (map of_bool bs) = horner_sum of_bool 2 bs" for bs by (induction bs) auto
  have "horner_sum of_bool 2 (map (bit w) [0..<32]) = w"
    unfolding horner_sum_bit_eq_take_bit by (simp add: take_bit_word_eq_self)
  moreover have "of_nat (horner_sum of_bool 2 bs) = (horner_sum of_bool 2 bs :: u32)" for bs by (induction bs) auto
  ultimately show ?thesis using h [of "map (bit w) [0..<32]"] by (simp add: comp_def)
qed

lemma sum_pairs: "(\<Sum>i < 2 * n. f i) = (\<Sum>i < n. f (2 * i) + f (2 * i + 1))" for f :: "nat \<Rightarrow> nat"
  by (induction n) auto

lemma num_bound: "(\<And>i. f i < 2 ^ m) \<Longrightarrow> num m (map f [0..<n]) < 2 ^ (m * n)"
  using num_less [of "map f [0..<n]" m] by auto

lemma and_nat_le: "x AND y \<le> x" for x y :: nat
proof -
  have "int (x AND y) \<le> int x" by (simp only: of_nat_and_eq) (simp add: AND_upper1)
  then show ?thesis by simp
qed

lemma sw_hweight32_sum:
  fixes b :: "nat \<Rightarrow> nat"
  assumes b: "\<And>i. b i < 2" "\<And>i. 32 \<le> i \<Longrightarrow> b i = 0"
  shows "sw_hweight32 (of_nat (num 1 (map b [0..<32]))) = of_nat (\<Sum>i < 32. b i)"
proof -
  define p where "p i = b (2 * i) + b (2 * i + 1)" for i
  define q where "q i = p (2 * i) + p (2 * i + 1)" for i
  define s where "s i = q (2 * i) + q (2 * i + 1)" for i
  have p: "p i \<le> 2" "16 \<le> i \<Longrightarrow> p i = 0" for i using b(1) [of "2 * i"] b(1) [of "2 * i + 1"] b(2) by (auto simp: p_def)
  have q: "q i \<le> 4" "8 \<le> i \<Longrightarrow> q i = 0" for i using p(1) [of "2 * i"] p(1) [of "2 * i + 1"] p(2) by (auto simp: q_def)
  have s: "s i \<le> 8" "4 \<le> i \<Longrightarrow> s i = 0" for i using q(1) [of "2 * i"] q(1) [of "2 * i + 1"] q(2) by (auto simp: s_def)
  let ?N = "num 1 (map b [0..<32])" and ?P = "num 2 (map p [0..<16])" and ?Q = "num 4 (map q [0..<8])" and ?S = "num 8 (map s [0..<4])"
  have lt: "?N < 2 ^ 32" "?P < 2 ^ 32" "?Q < 2 ^ 32" "?S < 2 ^ 32"
    using num_bound [of b 1 32] num_bound [of p 2 16] num_bound [of q 4 8] num_bound [of s 8 4] b(1)
      le_less_trans [OF p(1)] le_less_trans [OF q(1)] le_less_trans [OF s(1)] by auto
  have 1: "?N - (?N div 2 AND 0x55555555) = ?P"
    using hw_step_1 [of b 16] b unfolding masks p_def [abs_def] by simp
  have 2: "(?P AND 0x33333333) + (?P div 4 AND 0x33333333) = ?Q"
    using hw_step_2 [of p 2 8] le_less_trans [OF p(1)] p(2) unfolding masks q_def [abs_def] by simp
  have 3: "(?Q + ?Q div 16) AND 0x0F0F0F0F = ?S"
    using hw_step_3 [of q 4 4] le_less_trans [OF add_mono [OF q(1) q(1)]] q(2) unfolding masks s_def [abs_def] by simp
  have 4: "?S + ?S div 256 = num 8 (map (\<lambda>i. s i + s (Suc i)) [0..<4])"
    using num_shift [of s 8 4] le_less_trans [OF s(1) [of 0]] s(2) by (simp add: num_add)
  let ?T = "num 8 (map (\<lambda>i. s i + s (Suc i)) [0..<4])"
  have t: "s i + s (Suc i) < 2 ^ 8" for i using add_mono [OF s(1) s(1), of i "Suc i"] by simp
  have ltT: "?T < 2 ^ 32" using num_bound [of "\<lambda>i. s i + s (Suc i)" 8 4] t by simp
  have 5: "(?T + ?T div 65536) AND 255 = s 0 + s 1 + s 2 + s 3"
  proof -
    have "?T div 65536 = ?T div 2 ^ 8 div 2 ^ 8" by (simp add: div_mult2_eq [symmetric])
    also have "?T div 2 ^ 8 = num 8 (map (\<lambda>i. s (Suc i) + s (Suc (Suc i))) [0..<4])"
      using num_shift [of "\<lambda>i. s i + s (Suc i)" 8 4] t s(2) by simp
    also have "\<dots> div 2 ^ 8 = num 8 (map (\<lambda>i. s (Suc (Suc i)) + s (Suc (Suc (Suc i)))) [0..<4])"
      using num_shift [of "\<lambda>i. s (Suc i) + s (Suc (Suc i))" 8 4] t s(2) by simp
    finally have "?T + ?T div 65536 = num 8 (map (\<lambda>i. s i + s (Suc i) + (s (Suc (Suc i)) + s (Suc (Suc (Suc i))))) [0..<4])"
      by (simp only: num_add)
    moreover have "s 0 + s (Suc 0) + (s (Suc (Suc 0)) + s (Suc (Suc (Suc 0)))) < 2 ^ 8"
      using s(1) [of 0] s(1) [of "Suc 0"] s(1) [of "Suc (Suc 0)"] s(1) [of "Suc (Suc (Suc 0))"] by simp
    ultimately have "(?T + ?T div 65536) mod 256 = s 0 + s (Suc 0) + (s (Suc (Suc 0)) + s (Suc (Suc (Suc 0))))"
      using num_mod [of 4 "\<lambda>i. s i + s (Suc i) + (s (Suc (Suc i)) + s (Suc (Suc (Suc i))))" 8] by simp
    then have "(?T + ?T div 65536) mod 256 = s 0 + s 1 + s 2 + s 3" by (simp add: numeral_2_eq_2 numeral_3_eq_3)
    moreover have "x AND 255 = x mod 256" for x :: nat using take_bit_eq_mask [of 8 x] by (simp add: mask_eq_exp_minus_1 take_bit_eq_mod)
    ultimately show ?thesis by simp
  qed
  have sums: "(\<Sum>i < 32. b i) = s 0 + s 1 + s 2 + s 3"
    using sum_pairs [of b 16] sum_pairs [of p 8] sum_pairs [of q 4] unfolding p_def [symmetric] q_def [symmetric] s_def [symmetric]
    by (simp add: eval_nat_numeral)
  have le: "?N div 2 AND 0x55555555 \<le> ?N"
    using and_nat_le [of "?N div 2" "0x55555555"] div_le_dividend [of ?N 2] by (rule le_trans)
  have w1: "of_nat ?N - (drop_bit 1 (of_nat ?N) AND 0x55555555) = (of_nat ?P :: u32)"
    using arg_cong [OF 1, of "of_nat :: nat \<Rightarrow> u32"] le unfolding drop_bit_of_nat [OF lt(1)] by (simp add: of_nat_diff of_nat_and_eq)
  have w2: "(of_nat ?P AND 0x33333333) + (drop_bit 2 (of_nat ?P) AND 0x33333333) = (of_nat ?Q :: u32)"
    using arg_cong [OF 2, of "of_nat :: nat \<Rightarrow> u32"] unfolding drop_bit_of_nat [OF lt(2)] by (simp add: of_nat_and_eq)
  have w3: "(of_nat ?Q + drop_bit 4 (of_nat ?Q)) AND 0x0F0F0F0F = (of_nat ?S :: u32)"
    using arg_cong [OF 3, of "of_nat :: nat \<Rightarrow> u32"] unfolding drop_bit_of_nat [OF lt(3)] by (simp add: of_nat_and_eq)
  have w4: "of_nat ?S + drop_bit 8 (of_nat ?S) = (of_nat ?T :: u32)"
    using arg_cong [OF 4, of "of_nat :: nat \<Rightarrow> u32"] unfolding drop_bit_of_nat [OF lt(4)] by simp
  have w5: "(of_nat ?T + drop_bit 16 (of_nat ?T)) AND 0x000000FF = (of_nat (\<Sum>i < 32. b i) :: u32)"
    using arg_cong [OF 5, of "of_nat :: nat \<Rightarrow> u32"] unfolding drop_bit_of_nat [OF ltT] sums by (simp add: of_nat_and_eq)
  show ?thesis unfolding sw_hweight32_def Let_def w1 w2 w3 w4 w5 ..
qed

lemma sw_hweight32_card: "sw_hweight32 w = of_nat (card {i. i < 32 \<and> bit w i})"
proof -
  have "sw_hweight32 w = sw_hweight32 (of_nat (num 1 (map (\<lambda>i. of_bool (bit w i)) [0..<32])))"
    using word_num [of w] by simp
  also have "\<dots> = of_nat (\<Sum>i < 32. of_bool (bit w i))"
    by (rule sw_hweight32_sum) (auto dest: bit_imp_le_length)
  also have "(\<Sum>i < 32. of_bool (bit w i)) = card {i. i < 32 \<and> bit w i}"
    by (simp add: sum_of_bool_eq Int_def lessThan_def)
  finally show ?thesis .
qed

text \<open>The counts of half a word and of a byte are the count of the word, as long as the rest of it is zero.\<close>

lemma and_low: "unat x < 2 ^ n \<Longrightarrow> x AND m = x AND (m AND mask n)" for x :: u32
proof -
  assume "unat x < 2 ^ n"
  then have "take_bit n (unat x) = unat x" by (rule take_bit_nat_eq_self)
  then have "take_bit n x = x" by (metis unsigned_take_bit_eq unsigned_word_eqI)
  then have "x = x AND mask n" by (simp add: take_bit_eq_mask)
  then show ?thesis by (metis and.assoc and.commute)
qed

lemma unat_and_le: "unat (x AND y) \<le> unat x" "unat (x AND y) \<le> unat y" for x y :: u32
  by (simp_all flip: word_le_nat_alt add: word_and_le1 word_and_le2)
lemma unat_drop_le: "unat (drop_bit n x) \<le> unat x" for x :: u32
  unfolding unat_drop_bit_eq by (simp add: drop_bit_eq_div)

lemma unat_add_bound: "unat x \<le> a \<Longrightarrow> unat y \<le> b \<Longrightarrow> a + b < 2 ^ 32 \<Longrightarrow> unat (x + y) \<le> a + b" for x y :: u32
proof -
  assume a: "unat x \<le> a" "unat y \<le> b" "a + b < 2 ^ 32"
  have "unat (x + y) \<le> unat x + unat y" by (simp add: unat_word_ariths)
  then show ?thesis using a by linarith
qed

lemma drop_bit_small: "unat x < 2 ^ n \<Longrightarrow> drop_bit n x = 0" for x :: u32
proof -
  assume "unat x < 2 ^ n"
  then have "unat (drop_bit n x) = 0" unfolding unat_drop_bit_eq by (simp add: drop_bit_eq_div)
  then show ?thesis by (simp add: unat_eq_zero)
qed

lemma hw_narrow:
  fixes w :: u32
  assumes "unat w < 2 ^ n"
  defines "r \<equiv> w - (drop_bit 1 w AND (0x55555555 AND mask n))"
  shows "w - (drop_bit 1 w AND 0x55555555) = r" and "unat r < 2 ^ n"
    and "(r AND 0x33333333) + (drop_bit 2 r AND 0x33333333) = (r AND (0x33333333 AND mask n)) + (drop_bit 2 r AND (0x33333333 AND mask n))"
proof -
  have "unat (drop_bit 1 w) < 2 ^ n" using le_less_trans [OF unat_drop_le assms(1)] .
  then show "w - (drop_bit 1 w AND 0x55555555) = r" unfolding r_def by (subst and_low) simp_all
  have "drop_bit 1 w AND (0x55555555 AND mask n) \<le> w"
    unfolding word_le_nat_alt using order_trans [OF unat_and_le(1) unat_drop_le] .
  then have "unat r \<le> unat w" unfolding r_def by (simp add: unat_sub)
  then show l: "unat r < 2 ^ n" using assms(1) by simp
  have "unat (drop_bit 2 r) < 2 ^ n" using le_less_trans [OF unat_drop_le l] .
  with l show "(r AND 0x33333333) + (drop_bit 2 r AND 0x33333333) = (r AND (0x33333333 AND mask n)) + (drop_bit 2 r AND (0x33333333 AND mask n))"
    by (metis and_low)
qed

lemma sw_hweight16_narrow:
  assumes "unat w < 2 ^ 16"
  shows "sw_hweight16 w = sw_hweight32 w"
proof -
  have m: "(0x55555555 :: u32) AND mask 16 = 0x5555" "(0x33333333 :: u32) AND mask 16 = 0x3333" "(0x0F0F0F0F :: u32) AND mask 16 = 0x0F0F"
    by (simp_all add: mask_eq_exp_minus_1)
  define r where "r = w - (drop_bit 1 w AND 0x5555)"
  define q where "q = (r AND 0x3333) + (drop_bit 2 r AND 0x3333)"
  define t where "t = (q + drop_bit 4 q) AND 0x0F0F"
  note h = hw_narrow [OF assms, unfolded m, folded r_def]
  have "unat q \<le> 0x3333 + 0x3333" unfolding q_def using unat_and_le(2) [of r "0x3333"] unat_and_le(2) [of "drop_bit 2 r" "0x3333"]
    by (intro unat_add_bound) simp_all
  then have q: "unat q \<le> 0x6666" by simp
  have "unat (q + drop_bit 4 q) \<le> 0x6666 + 0x6666" using q order_trans [OF unat_drop_le q] by (intro unat_add_bound) simp_all
  then have "unat (q + drop_bit 4 q) < 2 ^ 16" by simp
  from and_low [OF this, of "0x0F0F0F0F"] have t: "(q + drop_bit 4 q) AND 0x0F0F0F0F = t" unfolding m t_def .
  have tb: "unat t \<le> 0x0F0F" unfolding t_def using unat_and_le(2) [of "q + drop_bit 4 q" "0x0F0F"] by simp
  have "unat (t + drop_bit 8 t) \<le> 0x0F0F + 0x0F0F" using tb order_trans [OF unat_drop_le tb] by (intro unat_add_bound) simp_all
  then have z: "drop_bit 16 (t + drop_bit 8 t) = 0" by (intro drop_bit_small) simp
  have "sw_hweight32 w = (t + drop_bit 8 t + drop_bit 16 (t + drop_bit 8 t)) AND 0xFF"
    unfolding sw_hweight32_def Let_def h(1) h(3) q_def [symmetric] t ..
  then show ?thesis unfolding z sw_hweight16_def Let_def r_def [symmetric] q_def [symmetric] t_def [symmetric] by simp
qed

lemma sw_hweight8_narrow:
  assumes "unat w < 2 ^ 8"
  shows "sw_hweight8 w = sw_hweight32 w"
proof -
  have m: "(0x55555555 :: u32) AND mask 8 = 0x55" "(0x33333333 :: u32) AND mask 8 = 0x33" "(0x0F0F0F0F :: u32) AND mask 8 = 0x0F"
    by (simp_all add: mask_eq_exp_minus_1)
  define r where "r = w - (drop_bit 1 w AND 0x55)"
  define q where "q = (r AND 0x33) + (drop_bit 2 r AND 0x33)"
  define t where "t = (q + drop_bit 4 q) AND 0x0F"
  note h = hw_narrow [OF assms, unfolded m, folded r_def]
  have "unat q \<le> 0x33 + 0x33" unfolding q_def using unat_and_le(2) [of r "0x33"] unat_and_le(2) [of "drop_bit 2 r" "0x33"]
    by (intro unat_add_bound) simp_all
  then have q: "unat q \<le> 0x66" by simp
  have "unat (q + drop_bit 4 q) \<le> 0x66 + 0x66" using q order_trans [OF unat_drop_le q] by (intro unat_add_bound) simp_all
  then have "unat (q + drop_bit 4 q) < 2 ^ 8" by simp
  from and_low [OF this, of "0x0F0F0F0F"] have t: "(q + drop_bit 4 q) AND 0x0F0F0F0F = t" unfolding m t_def .
  have tb: "unat t < 2 ^ 8" unfolding t_def using unat_and_le(2) [of "q + drop_bit 4 q" "0x0F"] by simp
  have z: "drop_bit 8 t = 0" "drop_bit 16 t = 0" using tb by (auto intro: drop_bit_small)
  have "t AND 0xFF = t" using and_low [OF tb, of "- 1"] by (simp add: mask_eq_exp_minus_1)
  moreover have "sw_hweight32 w = (t + drop_bit 8 t + drop_bit 16 (t + drop_bit 8 t)) AND 0xFF"
    unfolding sw_hweight32_def Let_def h(1) h(3) q_def [symmetric] t ..
  ultimately show ?thesis unfolding z sw_hweight8_def Let_def r_def [symmetric] q_def [symmetric] t_def [symmetric] by (simp add: z)
qed

section \<open>Weighing a bitmap\<close>

lemma weight_words_spec:
  "k + n \<le> length m \<Longrightarrow> weight_words m k n w = Inr (w + of_nat (\<Sum>j = k..<k + n. card {i. i < 32 \<and> bit (m ! j) i}))"
proof (induction n arbitrary: k w)
  case (Suc n)
  have "weight_words m k (Suc n) w = weight_words m (Suc k) n (w + sw_hweight32 (m ! k))" using Suc.prems by simp
  also have "\<dots> = Inr (w + sw_hweight32 (m ! k) + of_nat (\<Sum>j = Suc k..<Suc k + n. card {i. i < 32 \<and> bit (m ! j) i}))"
    using Suc.prems by (intro Suc.IH) simp
  finally have "weight_words m k (Suc n) w = \<dots>" .
  moreover have "(\<Sum>j = k..<k + Suc n. card {i. i < 32 \<and> bit (m ! j) i}) =
      card {i. i < 32 \<and> bit (m ! k) i} + (\<Sum>j = Suc k..<Suc k + n. card {i. i < 32 \<and> bit (m ! j) i})"
    by (simp add: sum.atLeast_Suc_lessThan)
  ultimately show ?case by (simp add: sw_hweight32_card add.assoc)
qed simp

text \<open>The positions of a bitmap, word by word.\<close>

lemma card_split:
  assumes "c \<le> 32"
  shows "card (bset (32 * k + c) m) = card (bset (32 * k) m) + card {r. r < c \<and> bit (m ! k) r}"
proof -
  let ?I = "(\<lambda>r. 32 * k + r) ` {r. r < c \<and> bit (m ! k) r}"
  have "bset (32 * k + c) m = bset (32 * k) m \<union> ?I"
  proof (rule set_eqI)
    fix i
    show "i \<in> bset (32 * k + c) m \<longleftrightarrow> i \<in> bset (32 * k) m \<union> ?I"
    proof (cases "i < 32 * k")
      case False
      then obtain r where r: "i = 32 * k + r" using le_Suc_ex not_less by blast
      then show ?thesis using assms by (auto simp: bm_at)
    qed auto
  qed
  moreover have "bset (32 * k) m \<inter> ?I = {}" by auto
  moreover have "finite (bset n m)" for n by (simp add: bset_def)
  ultimately have "card (bset (32 * k + c) m) = card (bset (32 * k) m) + card ?I" by (simp add: card_Un_disjoint)
  then show ?thesis by (simp add: card_image)
qed

lemma card_words: "card (bset (32 * k) m) = (\<Sum>j = 0..<k. card {i. i < 32 \<and> bit (m ! j) i})"
proof (induction k)
  case (Suc k)
  then show ?case using card_split [of 32 k m] by (simp add: add.commute)
qed (simp add: bset_def)

lemma bitmap_weight_spec:
  assumes "n \<le> 32 * length m"
  shows "bitmap_weight m n = Inr (of_nat (card (bset n m)))"
proof -
  note b = words_bound [OF assms]
  have w: "weight_words m 0 (n div 32) 0 = Inr (of_nat (card (bset (32 * (n div 32)) m)))"
    using weight_words_spec [of 0 "n div 32" m 0] b by (simp add: card_words)
  have s: "card (bset n m) = card (bset (32 * (n div 32)) m) + card {r. r < n mod 32 \<and> bit (m ! (n div 32)) r}"
    using card_split [of "n mod 32" "n div 32" m] by (simp add: less_imp_le)
  show ?thesis
  proof (cases "n mod 32 = 0")
    case True
    then show ?thesis using s by (simp add: bitmap_weight_def w)
  next
    case False
    have "{r. r < 32 \<and> bit (m ! (n div 32) AND BITMAP_LAST_WORD_MASK (int n)) r} = {r. r < n mod 32 \<and> bit (m ! (n div 32)) r}"
      using False by (auto simp: bit_and_iff last_mask_bit dest: bit_imp_le_length)
    then show ?thesis using False b s by (simp add: bitmap_weight_def w sw_hweight32_card)
  qed
qed

section \<open>Property\<close>

text \<open>
  The parallel counts are right for every word: \<open>__sw_hweight32\<close> and \<open>__sw_hweight64\<close> return the number of bits
  that are one, \<open>__sw_hweight16\<close> and \<open>__sw_hweight8\<close> do so for arguments of that width, and \<open>__bitmap_weight\<close> returns the number of positions of the bitmap that are one, also when its size is not a
  multiple of the word size.
\<close>

theorem hweight_counts:
  assumes "n \<le> 32 * length m"
  shows "sw_hweight32 w = of_nat (card {i. bit w i}) \<and> sw_hweight64 v = of_nat (card {i. bit v i}) \<and>
    (unat w < 2 ^ 16 \<longrightarrow> sw_hweight16 w = of_nat (card {i. bit w i})) \<and> (unat w < 2 ^ 8 \<longrightarrow> sw_hweight8 w = of_nat (card {i. bit w i})) \<and>
    bitmap_weight m n = Inr (of_nat (card (bset n m)))"
proof (intro conjI impI)
  have c: "{i. bit w i} = {i. i < 32 \<and> bit w i}" for w :: u32 by (auto dest: bit_imp_le_length)
  show w: "sw_hweight32 w = of_nat (card {i. bit w i})" unfolding c by (rule sw_hweight32_card)
  show "sw_hweight16 w = of_nat (card {i. bit w i})" if "unat w < 2 ^ 16" unfolding w [symmetric] by (rule sw_hweight16_narrow [OF that])
  show "sw_hweight8 w = of_nat (card {i. bit w i})" if "unat w < 2 ^ 8" unfolding w [symmetric] by (rule sw_hweight8_narrow [OF that])
  have "{i. bit v i} = {i. i < 32 \<and> bit v i} \<union> (\<lambda>i. 32 + i) ` {i. i < 32 \<and> bit v (32 + i)}"
  proof (rule set_eqI)
    fix i
    have "i < 64" if "bit v i" using bit_imp_le_length [OF that] by simp
    then show "i \<in> {i. bit v i} \<longleftrightarrow> i \<in> {i. i < 32 \<and> bit v i} \<union> (\<lambda>i. 32 + i) ` {i. i < 32 \<and> bit v (32 + i)}"
      by (cases "i < 32") (auto intro: image_eqI [of _ _ "i - 32"])
  qed
  moreover have "{i. i < 32 \<and> bit v i} \<inter> (\<lambda>i. 32 + i) ` {i. i < 32 \<and> bit v (32 + i)} = {}" by auto
  ultimately have "card {i. bit v i} = card {i. i < 32 \<and> bit v i} + card {i. i < 32 \<and> bit v (32 + i)}"
    by (simp add: card_Un_disjoint card_image)
  moreover have "{i. i < 32 \<and> bit (ucast (drop_bit 32 v) :: u32) i} = {i. i < 32 \<and> bit v (32 + i)}"
    "{i. i < 32 \<and> bit (ucast v :: u32) i} = {i. i < 32 \<and> bit v i}"
    by (auto simp: bit_unsigned_iff bit_drop_bit_eq)
  ultimately show "sw_hweight64 v = of_nat (card {i. bit v i})" by (simp add: sw_hweight64_def sw_hweight32_card)
  show "bitmap_weight m n = Inr (of_nat (card (bset n m)))" by (rule bitmap_weight_spec [OF assms])
qed

theorem hweight_counts_witness: "bitmap_weight [0xF0, 3] 33 = Inr (of_nat (card (bset 33 [0xF0, 3])))"
  using hweight_counts [of 33 "[0xF0, 3]"] by simp

end
