(* ===== verification/Bitops.thy ===== *)
theory Bitops
  imports Bitmap
begin

text \<open>
  The bit searches of a word: the generic routines of \<open>include/asm-generic/bitops/\<close>, which halve the word, and the
  ones of \<open>arch/arm/include/asm/bitops.h\<close>, which use the instruction \<open>clz\<close>; and the powers of two of
  \<open>include/linux/log2.h\<close>. Every routine is shown to find the highest or the lowest bit that is one, so that the two
  implementations agree with each other and with the searches that \<open>find_bit.c\<close> is modelled with.
\<close>

unbundle bit_operations_syntax

section \<open>Definitions\<close>

definition fls :: "u32 \<Rightarrow> nat" where
  "fls x =
     (if x = 0 then 0
      else let (x, r) = (x, 32);
               (x, r) = (if x AND 0xffff0000 = 0 then (push_bit 16 x, r - 16) else (x, r));
               (x, r) = (if x AND 0xff000000 = 0 then (push_bit 8 x, r - 8) else (x, r));
               (x, r) = (if x AND 0xf0000000 = 0 then (push_bit 4 x, r - 4) else (x, r));
               (x, r) = (if x AND 0xc0000000 = 0 then (push_bit 2 x, r - 2) else (x, r));
               (x, r) = (if x AND 0x80000000 = 0 then (push_bit 1 x, r - 1) else (x, r))
           in r)"

definition gen_fls :: "u32 \<Rightarrow> nat" where
  "gen_fls word =
     (let (word, num) = (word, 32 - 1);
          (word, num) = (if word AND push_bit (32 - 16) (NOT 0) = 0 then (push_bit 16 word, num - 16) else (word, num));
          (word, num) = (if word AND push_bit (32 - 8) (NOT 0) = 0 then (push_bit 8 word, num - 8) else (word, num));
          (word, num) = (if word AND push_bit (32 - 4) (NOT 0) = 0 then (push_bit 4 word, num - 4) else (word, num));
          (word, num) = (if word AND push_bit (32 - 2) (NOT 0) = 0 then (push_bit 2 word, num - 2) else (word, num));
          num = (if word AND push_bit (32 - 1) (NOT 0) = 0 then num - 1 else num)
      in num)"

definition ffs :: "u32 \<Rightarrow> nat" where
  "ffs x =
     (if x = 0 then 0
      else let (x, r) = (x, 1);
               (x, r) = (if x AND 0xffff = 0 then (signed_drop_bit 16 x, r + 16) else (x, r));
               (x, r) = (if x AND 0xff = 0 then (signed_drop_bit 8 x, r + 8) else (x, r));
               (x, r) = (if x AND 0xf = 0 then (signed_drop_bit 4 x, r + 4) else (x, r));
               (x, r) = (if x AND 3 = 0 then (signed_drop_bit 2 x, r + 2) else (x, r));
               (x, r) = (if x AND 1 = 0 then (signed_drop_bit 1 x, r + 1) else (x, r))
           in r)"

definition gen_ffs :: "u32 \<Rightarrow> nat" where
  "gen_ffs word =
     (let (word, num) = (word, 0);
          (word, num) = (if word AND 0xffff = 0 then (drop_bit 16 word, num + 16) else (word, num));
          (word, num) = (if word AND 0xff = 0 then (drop_bit 8 word, num + 8) else (word, num));
          (word, num) = (if word AND 0xf = 0 then (drop_bit 4 word, num + 4) else (word, num));
          (word, num) = (if word AND 0x3 = 0 then (drop_bit 2 word, num + 2) else (word, num))
      in if word AND 0x1 = 0 then num + 1 else num)"

definition gen_ffz :: "u32 \<Rightarrow> nat" where
  "gen_ffz x = gen_ffs (NOT x)"

definition fls64 :: "u64 \<Rightarrow> nat" where
  "fls64 x = (let h = ucast (drop_bit 32 x) :: u32 in if h \<noteq> 0 then fls h + 32 else fls (ucast x))"

text \<open>The routines of ARMv5 and above. \<open>const\<close> says whether the compiler knows the argument (\<open>__builtin_constant_p\<close>),
  and \<open>clz\<close> is the instruction: the number of leading zeros, 32 for zero.\<close>

definition clz :: "u32 \<Rightarrow> nat" where
  "clz x = (case first_from (\<lambda>j. bit x (31 - j)) 0 32 of None \<Rightarrow> 32 | Some j \<Rightarrow> j)"

definition constant_fls :: "u32 \<Rightarrow> nat" where
  "constant_fls x =
     (if x = 0 then 0
      else let (x, r) = (x, 32);
               (x, r) = (if x AND 0xffff0000 = 0 then (push_bit 16 x, r - 16) else (x, r));
               (x, r) = (if x AND 0xff000000 = 0 then (push_bit 8 x, r - 8) else (x, r));
               (x, r) = (if x AND 0xf0000000 = 0 then (push_bit 4 x, r - 4) else (x, r));
               (x, r) = (if x AND 0xc0000000 = 0 then (push_bit 2 x, r - 2) else (x, r));
               (x, r) = (if x AND 0x80000000 = 0 then (push_bit 1 x, r - 1) else (x, r))
           in r)"

definition arm_fls :: "bool \<Rightarrow> u32 \<Rightarrow> nat" where
  "arm_fls const x = (if const then constant_fls x else 32 - clz x)"

definition arm_fls_idx :: "bool \<Rightarrow> u32 \<Rightarrow> u32" where
  "arm_fls_idx const x = of_nat (arm_fls const x) - 1"

definition arm_ffs :: "bool \<Rightarrow> u32 \<Rightarrow> nat" where
  "arm_ffs const x = arm_fls const (x AND - x)"

definition arm_ffs_idx :: "bool \<Rightarrow> u32 \<Rightarrow> u32" where
  "arm_ffs_idx const x = of_nat (arm_ffs const x) - 1"

definition is_power_of_2 :: "u32 \<Rightarrow> bool" where
  "is_power_of_2 n = (n \<noteq> 0 \<and> n AND (n - 1) = 0)"

definition ilog2_u32 :: "u32 \<Rightarrow> int" where
  "ilog2_u32 n = int (fls n) - 1"

definition ilog2_u64 :: "u64 \<Rightarrow> int" where
  "ilog2_u64 n = int (fls64 n) - 1"

definition fls_long :: "u32 \<Rightarrow> nat" where
  "fls_long l = fls l"

definition roundup_pow_of_two :: "u32 \<Rightarrow> u32 res" where
  "roundup_pow_of_two n = shl32 1 (int (fls_long (n - 1)))"

definition rounddown_pow_of_two :: "u32 \<Rightarrow> u32 res" where
  "rounddown_pow_of_two n = shl32 1 (int (fls_long n) - 1)"

section \<open>The highest bit\<close>

lemma and_not_mask_eq_0: "x AND NOT (mask n) = 0 \<longleftrightarrow> unat x < 2 ^ n" for x :: u32
proof -
  have e: "x AND NOT (mask n) = push_bit n (drop_bit n x)" by (rule bit_word_eqI) (auto simp: bit_simps)
  have "drop_bit n x = 0 \<longleftrightarrow> unat (drop_bit n x) = 0" by (simp add: unat_eq_zero)
  also have "\<dots> \<longleftrightarrow> unat x < 2 ^ n" unfolding unat_drop_bit_eq by (simp add: drop_bit_eq_div div_eq_0_iff)
  finally have d: "drop_bit n x = 0 \<longleftrightarrow> unat x < 2 ^ n" .
  have "drop_bit n (push_bit n (drop_bit n x)) = drop_bit n x" by (rule bit_word_eqI) (auto simp: bit_simps dest: bit_imp_le_length)
  then show ?thesis unfolding e d [symmetric] by (metis drop_bit_of_0 push_bit_of_0)
qed

text \<open>The search has shifted \<open>x0\<close> by \<open>32 - r\<close> so far and its highest bit is among the upper \<open>k\<close>.\<close>

definition in_top :: "u32 \<Rightarrow> nat \<Rightarrow> u32 \<Rightarrow> nat \<Rightarrow> bool" where
  "in_top x0 k x r \<longleftrightarrow> r \<le> 32 \<and> unat x = unat x0 * 2 ^ (32 - r) \<and> 2 ^ (32 - k) \<le> unat x"

lemma in_top_step:
  assumes i: "in_top x0 (2 * m) x r" and m: "2 * m \<le> 32" and z: "z \<longleftrightarrow> unat x < 2 ^ (32 - m)"
  shows "in_top x0 m (if z then push_bit m x else x) (if z then r - m else r) \<and> (z \<longrightarrow> m < r)"
proof (cases z)
  case True
  then have x: "unat x < 2 ^ (32 - m)" using z by blast
  have s: "unat x * 2 ^ m < 2 ^ 32"
    using mult_strict_right_mono [OF x, of "2 ^ m"] m by (simp flip: power_add)
  have u: "unat (push_bit m x) = unat x * 2 ^ m"
    unfolding unsigned_push_bit_eq using s by (simp add: push_bit_eq_mult take_bit_nat_eq_self)
  have "unat x0 \<noteq> 0" using i unfolding in_top_def by (metis mult_0 not_less_zero order_le_less_trans le_zero_eq power_eq_0_iff zero_neq_numeral)
  then have "2 ^ (32 - r) \<le> unat x" using i by (simp add: in_top_def)
  then have "2 ^ (32 - r) < (2 :: nat) ^ (32 - m)" using x by (rule le_less_trans)
  then have r: "m < r" by (simp add: power_strict_increasing_iff)
  have "32 - (r - m) = 32 - r + m" using i r by (simp add: in_top_def)
  then have "unat (push_bit m x) = unat x0 * 2 ^ (32 - (r - m))" using i u unfolding in_top_def by (simp only: power_add mult.assoc)
  moreover have "2 ^ (32 - m) \<le> unat (push_bit m x)"
  proof -
    have "(2 :: nat) ^ (32 - m) = 2 ^ (32 - 2 * m) * 2 ^ m" using m by (simp flip: power_add)
    also have "\<dots> \<le> unat x * 2 ^ m" using i by (simp add: in_top_def)
    finally show ?thesis unfolding u .
  qed
  ultimately show ?thesis using True r i by (auto simp: in_top_def)
next
  case False
  then show ?thesis using i z by (simp add: in_top_def)
qed

lemma in_top_end:
  assumes "in_top x0 1 x r"
  shows "1 \<le> r \<and> r \<le> 32 \<and> 2 ^ (r - 1) \<le> unat x0 \<and> unat x0 < 2 ^ r"
proof -
  have r: "r \<le> 32" and x: "unat x = unat x0 * 2 ^ (32 - r)" and g: "2 ^ 31 \<le> unat x"
    using assms by (simp_all add: in_top_def)
  have "unat x0 * 2 ^ (32 - r) < 2 ^ r * 2 ^ (32 - r)"
    unfolding x [symmetric] power_add [symmetric] using r unsigned_less [where 'a = nat, of x] by simp
  then have l: "unat x0 < 2 ^ r" by simp
  have p: "1 \<le> r" using l g x by (cases r) auto
  have "2 ^ (r - 1) * 2 ^ (32 - r) = (2 :: nat) ^ 31" using p r by (simp flip: power_add)
  also have "\<dots> \<le> unat x0 * 2 ^ (32 - r)" using g unfolding x .
  finally show ?thesis using l p r by simp
qed

lemma fls_mask_consts:
  "(0xffff0000 :: u32) = NOT (mask 16)" "(0xff000000 :: u32) = NOT (mask 24)" "(0xf0000000 :: u32) = NOT (mask 28)"
  "(0xc0000000 :: u32) = NOT (mask 30)" "(0x80000000 :: u32) = NOT (mask 31)"
  by (simp_all add: mask_eq_exp_minus_1)

lemma push_ones: "push_bit n (NOT 0) = NOT (mask n :: u32)"
  by (rule bit_word_eqI) (auto simp: bit_simps)

definition top_step :: "nat \<Rightarrow> u32 \<times> nat \<Rightarrow> u32 \<times> nat" where
  "top_step m xr = (if unat (fst xr) < 2 ^ (32 - m) then (push_bit m (fst xr), snd xr - m) else xr)"

lemma in_top_top_step:
  "in_top x k (fst xr) (snd xr) \<Longrightarrow> k = 2 * m \<Longrightarrow> k \<le> 32 \<Longrightarrow> in_top x m (fst (top_step m xr)) (snd (top_step m xr))"
  using in_top_step [of x m "fst xr" "snd xr", OF _ _ refl] by (auto simp: top_step_def)

lemma top_step_pred: "top_step m (x, r - 1) = (fst (top_step m (x, r)), snd (top_step m (x, r)) - 1)"
  by (simp add: top_step_def)

lemma top_step_fold:
  "(if unat x < 2 ^ 16 then (push_bit 16 x, r - 16) else (x, r)) = top_step 16 (x, r)"
  "(if unat x < 2 ^ 24 then (push_bit 8 x, r - 8) else (x, r)) = top_step 8 (x, r)"
  "(if unat x < 2 ^ 28 then (push_bit 4 x, r - 4) else (x, r)) = top_step 4 (x, r)"
  "(if unat x < 2 ^ 30 then (push_bit 2 x, r - 2) else (x, r)) = top_step 2 (x, r)"
  "(if unat x < 2 ^ 31 then (push_bit 1 x, r - 1) else (x, r)) = top_step 1 (x, r)"
  "(if unat x < 2 ^ 31 then r - 1 else r) = snd (top_step 1 (x, r))"
  by (simp_all add: top_step_def)

lemma fls_steps: "x \<noteq> 0 \<Longrightarrow> fls x = snd (top_step 1 (top_step 2 (top_step 4 (top_step 8 (top_step 16 (x, 32))))))"
  by (simp only: fls_def fls_mask_consts and_not_mask_eq_0 top_step_fold if_False Let_def case_prod_beta prod.collapse prod.sel)

lemma width_minus: "32 - 16 = (16 :: nat)" "32 - 8 = (24 :: nat)" "32 - 4 = (28 :: nat)" "32 - 2 = (30 :: nat)" "32 - 1 = (31 :: nat)"
  by simp_all

lemma gen_fls_steps: "gen_fls x = snd (top_step 1 (top_step 2 (top_step 4 (top_step 8 (top_step 16 (x, 31))))))"
  by (simp only: gen_fls_def width_minus push_ones and_not_mask_eq_0 top_step_fold Let_def case_prod_beta prod.collapse prod.sel)

lemma gen_fls_eq: "x \<noteq> 0 \<Longrightarrow> gen_fls x = fls x - 1"
proof -
  have p: "top_step m (fst p, snd p - 1) = (fst (top_step m p), snd (top_step m p) - 1)" for m p
    using top_step_pred [of m "fst p" "snd p"] by simp
  assume "x \<noteq> 0"
  then show ?thesis
    using p [of 16 "(x, 32)"] unfolding fls_steps [OF \<open>x \<noteq> 0\<close>] gen_fls_steps by (simp add: p [unfolded One_nat_def])
qed

lemma fls_bounds:
  assumes "x \<noteq> 0"
  shows "1 \<le> fls x \<and> fls x \<le> 32 \<and> 2 ^ (fls x - 1) \<le> unat x \<and> unat x < 2 ^ fls x"
proof -
  have "in_top x 32 (fst (x, 32)) (snd (x, 32 :: nat))" using assms by (simp add: in_top_def Suc_leI unat_gt_0)
  note i = this
  have "in_top x 1 (fst (top_step 1 (top_step 2 (top_step 4 (top_step 8 (top_step 16 (x, 32)))))))
      (snd (top_step 1 (top_step 2 (top_step 4 (top_step 8 (top_step 16 (x, 32)))))))"
    by (rule in_top_top_step [where k = 2], rule in_top_top_step [where k = 4], rule in_top_top_step [where k = 8],
        rule in_top_top_step [where k = 16], rule in_top_top_step [where k = 32], rule i) simp_all
  then show ?thesis unfolding fls_steps [OF assms] by (rule in_top_end)
qed

section \<open>The lowest bit\<close>

text \<open>The search has dropped \<open>r\<close> bits of \<open>x0\<close>, all zero, and the lowest one is among the lower \<open>k\<close> of the rest.\<close>

definition in_low :: "u32 \<Rightarrow> nat \<Rightarrow> u32 \<Rightarrow> nat \<Rightarrow> bool" where
  "in_low x0 k x r \<longleftrightarrow> (\<forall>j < r. \<not> bit x0 j) \<and> (\<forall>j. j + r < 32 \<longrightarrow> bit x j = bit x0 (j + r)) \<and> (\<exists>j < k. j + r < 32 \<and> bit x j)"

definition low_step :: "(nat \<Rightarrow> u32 \<Rightarrow> u32) \<Rightarrow> nat \<Rightarrow> u32 \<times> nat \<Rightarrow> u32 \<times> nat" where
  "low_step sh m xr = (if take_bit m (fst xr) = 0 then (sh m (fst xr), snd xr + m) else xr)"

definition is_shift :: "(nat \<Rightarrow> u32 \<Rightarrow> u32) \<Rightarrow> bool" where
  "is_shift sh \<longleftrightarrow> (\<forall>m x j. j + m < 32 \<longrightarrow> bit (sh m x) j = bit x (j + m))"

lemma is_shift_drop: "is_shift drop_bit" "is_shift signed_drop_bit"
  by (auto simp: is_shift_def bit_simps add.commute)

lemma in_low_step:
  assumes sh: "is_shift sh" and i: "in_low x0 k (fst xr) (snd xr)" and k: "k = 2 * m"
  shows "in_low x0 m (fst (low_step sh m xr)) (snd (low_step sh m xr))"
proof -
  obtain x r where xr: "xr = (x, r)" by (cases xr)
  have low: "\<not> bit x0 j" if "j < r" for j using i that by (simp add: in_low_def xr)
  have cp: "bit x j = bit x0 (j + r)" if "j + r < 32" for j using i that by (simp add: in_low_def xr)
  obtain i where i: "i < 2 * m" "i + r < 32" "bit x i" using i by (auto simp: in_low_def xr k)
  show ?thesis
  proof (cases "take_bit m x = 0")
    case True
    have z: "\<not> bit x j" if "j < m" for j using arg_cong [OF True, of "\<lambda>w. bit w j"] that by (simp add: bit_take_bit_iff)
    have m: "m \<le> i" using z [of i] i(3) by (meson not_le)
    have "\<not> bit x0 j" if "j < r + m" for j
    proof (cases "j < r")
      case False
      then have "bit x (j - r) = bit x0 j" "j - r < m" using cp [of "j - r"] that i(2) m by auto
      then show ?thesis using z by blast
    qed (rule low)
    moreover have "bit (sh m x) j = bit x0 (j + (r + m))" if "j + (r + m) < 32" for j
      using sh cp [of "j + m"] that unfolding is_shift_def by (simp add: add.assoc add.commute [of m r])
    moreover from this [of "i - m"] have "bit (sh m x) (i - m)" using cp [of i] i m by (simp add: add.commute)
    moreover have "i - m < m" "i - m + (r + m) < 32" using i m by auto
    ultimately show ?thesis using True unfolding xr low_step_def in_low_def by auto
  next
    case False
    then obtain j where j: "j < m" "bit x j" by (auto simp: bit_eq_iff bit_take_bit_iff)
    then have "\<exists>j < m. j + r < 32 \<and> bit x j"
      using i by (cases "i < m") (auto intro: exI [of _ j] exI [of _ i])
    then show ?thesis using False low cp by (simp add: xr low_step_def in_low_def)
  qed
qed

lemma low_step_Suc: "low_step sh m (x, Suc r) = (fst (low_step sh m (x, r)), Suc (snd (low_step sh m (x, r))))"
  by (simp add: low_step_def)

abbreviation low_steps :: "(nat \<Rightarrow> u32 \<Rightarrow> u32) \<Rightarrow> u32 \<Rightarrow> nat \<Rightarrow> nat" where
  "low_steps sh x r \<equiv> snd (low_step sh 1 (low_step sh 2 (low_step sh 4 (low_step sh 8 (low_step sh 16 (x, r))))))"

lemma low_steps_word:
  assumes "is_shift sh" and "x \<noteq> 0"
  shows "low_steps sh x 0 = ffs_word x"
proof -
  let ?p = "low_step sh 1 (low_step sh 2 (low_step sh 4 (low_step sh 8 (low_step sh 16 (x, 0)))))"
  have i: "in_low x 32 (fst (x, 0)) (snd (x, 0 :: nat))" using ffs_word_bit [OF assms(2)] by (auto simp: in_low_def)
  have "in_low x 1 (fst ?p) (snd ?p)"
    by (rule in_low_step [OF assms(1), where k = 2], rule in_low_step [OF assms(1), where k = 4], rule in_low_step [OF assms(1), where k = 8],
        rule in_low_step [OF assms(1), where k = 16], rule in_low_step [OF assms(1), where k = 32], rule i) simp_all
  then have "bit x (snd ?p)" "\<forall>j < snd ?p. \<not> bit x j" by (auto simp: in_low_def)
  then show ?thesis using ffs_word_bit [OF assms(2)] by (meson linorder_neqE_nat)
qed

lemma low_step_fold:
  "(if x AND 0xffff = 0 then (sh 16 x, r + 16) else (x, r)) = low_step sh 16 (x, r)"
  "(if x AND 0xff = 0 then (sh 8 x, r + 8) else (x, r)) = low_step sh 8 (x, r)"
  "(if x AND 0xf = 0 then (sh 4 x, r + 4) else (x, r)) = low_step sh 4 (x, r)"
  "(if x AND 3 = 0 then (sh 2 x, r + 2) else (x, r)) = low_step sh 2 (x, r)"
  "(if x AND 1 = 0 then (sh 1 x, r + 1) else (x, r)) = low_step sh 1 (x, r)"
  "(if x AND 1 = 0 then r + 1 else r) = snd (low_step sh 1 (x, r))"
  by (simp_all add: low_step_def take_bit_eq_mask mask_eq_exp_minus_1)

lemma ffs_eq: "ffs x = (if x = 0 then 0 else Suc (ffs_word x))"
proof (cases "x = 0")
  case False
  have p: "low_step sh m (fst p, Suc (snd p)) = (fst (low_step sh m p), Suc (snd (low_step sh m p)))" for sh m p
    using low_step_Suc [of sh m "fst p" "snd p"] by simp
  have "ffs x = low_steps signed_drop_bit x 1"
    using False by (simp only: ffs_def low_step_fold if_False Let_def case_prod_beta prod.collapse prod.sel)
  also have "\<dots> = Suc (low_steps signed_drop_bit x 0)"
    using p [of signed_drop_bit 16 "(x, 0)"] by (simp add: p)
  finally show ?thesis using False low_steps_word [OF is_shift_drop(2) False] by simp
qed (simp add: ffs_def)

lemma gen_ffs_eq: "x \<noteq> 0 \<Longrightarrow> gen_ffs x = ffs_word x"
  unfolding low_steps_word [OF is_shift_drop(1), symmetric]
  by (simp only: gen_ffs_def low_step_fold(1-4) low_step_fold(6) [of _ _ drop_bit] Let_def case_prod_beta prod.collapse prod.sel)

section \<open>The routines of the processor\<close>

lemma unat_ge_bit: "bit x n \<Longrightarrow> 2 ^ n \<le> unat x" for x :: u32
proof (rule ccontr)
  assume b: "bit x n" and "\<not> 2 ^ n \<le> unat x"
  then have "take_bit n (unat x) = unat x" by (simp add: take_bit_nat_eq_self)
  moreover have "bit (unat x) n" using b by (simp add: bit_unsigned_iff)
  ultimately show False by (metis bit_take_bit_iff less_irrefl)
qed

lemma fls_eq: "fls x = (if x = 0 then 0 else Suc (fls_word x))"
proof (cases "x = 0")
  case False
  have b: "1 \<le> fls x" "2 ^ (fls x - 1) \<le> unat x" "unat x < 2 ^ fls x" using fls_bounds [OF False] by auto
  have w: "bit x (fls_word x)" "\<And>j. bit x j \<Longrightarrow> j \<le> fls_word x" using fls_word_bit [OF False] by auto
  have "2 ^ fls_word x < (2 :: nat) ^ fls x" using unat_ge_bit [OF w(1)] b(3) by (rule le_less_trans)
  then have u: "fls_word x < fls x" by simp
  have "unat x < 2 ^ Suc (fls_word x)"
  proof -
    have "take_bit (Suc (fls_word x)) x = x"
      using w(2) by (intro bit_word_eqI) (auto simp: bit_take_bit_iff less_Suc_eq_le)
    then have "take_bit (Suc (fls_word x)) (unat x) = unat x" by (metis unsigned_take_bit_eq)
    then show ?thesis by (metis take_bit_nat_eq_self_iff)
  qed
  then have "2 ^ (fls x - 1) < (2 :: nat) ^ Suc (fls_word x)" using b(2) by (metis le_less_trans)
  then have "fls x - 1 < Suc (fls_word x)" by (simp add: power_strict_increasing_iff del: power_Suc)
  then show ?thesis using False u by simp
qed (simp add: fls_def)

lemma clz_eq: "32 - clz x = fls x"
proof (cases "first_from (\<lambda>j. bit x (31 - j)) 0 32")
  case None
  have "x = 0"
  proof (rule bit_word_eqI)
    fix n assume "n < LENGTH(32)"
    then show "bit x n = bit 0 n" using None unfolding first_from_None_iff by (auto dest!: spec [of _ "31 - n"])
  qed
  then show ?thesis using None by (simp add: clz_def fls_def)
next
  case (Some j)
  then have "j < 32" "bit x (31 - j)" using first_from_Some [OF Some] by auto
  then show ?thesis using Some by (auto simp: clz_def fls_eq fls_word_def)
qed

lemma constant_fls_eq: "constant_fls = fls"
  unfolding constant_fls_def fls_def ..

lemma arm_fls_eq: "arm_fls const x = fls x"
  by (simp add: arm_fls_def constant_fls_eq clz_eq)

text \<open>A word is its lowest bit and the bits above it; one less turns the lowest bit into ones below it.\<close>

lemma lowest_split:
  fixes x :: u32
  assumes "bit x i" and "\<And>j. j < i \<Longrightarrow> \<not> bit x j"
  shows "x - 1 = (x AND NOT (mask (Suc i))) OR mask i"
proof -
  let ?h = "x AND NOT (mask (Suc i))"
  have "x = ?h OR push_bit i 1"
    using assms by (intro bit_word_eqI) (auto simp: bit_simps Suc_le_eq not_less le_less intro: linorder_neqE_nat)
  also have "\<dots> = ?h + 2 ^ i"
    by (subst disjunctive_add_eq_or [symmetric]) (auto intro!: bit_word_eqI simp: bit_simps push_bit_of_1)
  finally have "x - 1 = ?h + mask i" by (simp add: mask_eq_exp_minus_1)
  also have "\<dots> = ?h OR mask i" by (rule disjunctive_add_eq_or) (auto intro!: bit_word_eqI simp: bit_simps)
  finally show ?thesis .
qed

lemma and_minus: "x \<noteq> 0 \<Longrightarrow> x AND - x = push_bit (ffs_word x) 1" for x :: u32
proof -
  assume x: "x \<noteq> 0"
  have b: "ffs_word x < 32" "bit x (ffs_word x)" "\<And>j. j < ffs_word x \<Longrightarrow> \<not> bit x j" using ffs_word_bit [OF x] by auto
  have m: "- x = NOT (x - 1)" by (simp add: minus_eq_not_minus_1)
  have "x AND - x = x AND NOT ((x AND NOT (mask (Suc (ffs_word x)))) OR mask (ffs_word x))"
    unfolding m by (subst lowest_split [OF b(2,3)]) simp_all
  also have "\<dots> = push_bit (ffs_word x) 1"
    using b by (intro bit_word_eqI) (auto simp: bit_simps not_less less_Suc_eq le_less)
  finally show ?thesis .
qed

lemma arm_ffs_eq: "arm_ffs const x = ffs x"
proof (cases "x = 0")
  case True
  then show ?thesis by (simp add: arm_ffs_def arm_fls_eq fls_def ffs_def)
next
  case False
  let ?p = "push_bit (ffs_word x) 1 :: u32"
  have b: "bit ?p j \<longleftrightarrow> j = ffs_word x" for j using ffs_word_bit [OF False] by (auto simp: bit_simps)
  then have "?p \<noteq> 0" by (metis bit_0_eq bot_apply bot_bool_def)
  from fls_word_bit [OF this] b have "fls_word ?p = ffs_word x" by blast
  then show ?thesis using False \<open>?p \<noteq> 0\<close> by (simp add: arm_ffs_def arm_fls_eq and_minus fls_eq ffs_eq)
qed

lemma is_power_of_2_iff: "is_power_of_2 x \<longleftrightarrow> (\<exists>i < 32. x = push_bit i 1)"
proof (cases "x = 0")
  case True
  have "bit (push_bit i 1 :: u32) i" if "i < 32" for i using that by (simp add: bit_simps)
  then show ?thesis using True by (metis bit_0_eq bot_apply bot_bool_def is_power_of_2_def)
next
  case False
  let ?i = "ffs_word x"
  have b: "?i < 32" "bit x ?i" "\<And>j. j < ?i \<Longrightarrow> \<not> bit x j" using ffs_word_bit [OF False] by auto
  have "x AND (x - 1) = x AND ((x AND NOT (mask (Suc ?i))) OR mask ?i)" by (subst lowest_split [OF b(2,3)]) simp_all
  also have "\<dots> = x AND NOT (push_bit ?i 1)"
    using b by (intro bit_word_eqI) (auto simp: bit_simps not_less less_Suc_eq Suc_le_eq le_less)
  finally have e: "x AND (x - 1) = x AND NOT (push_bit ?i 1)" .
  have p: "bit (push_bit ?i 1 :: u32) j \<longleftrightarrow> j = ?i" for j using b(1) by (auto simp: bit_simps)
  show ?thesis
  proof
    assume "is_power_of_2 x"
    then have "x AND NOT (push_bit ?i 1) = 0" using e by (simp add: is_power_of_2_def)
    then have n: "\<not> bit (x AND NOT (push_bit ?i 1)) j" for j by simp
    have o: "j = ?i" if "bit x j" for j
      using n [of j] p [of j] that bit_imp_le_length [OF that] unfolding bit_and_iff bit_not_iff by simp
    have "x = push_bit ?i 1" by (rule bit_word_eqI, unfold p) (use o b(2) in blast)
    then show "\<exists>i < 32. x = push_bit i 1" using b(1) by blast
  next
    assume "\<exists>i < 32. x = push_bit i 1"
    then obtain i where i: "i < 32" "x = push_bit i 1" by blast
    then have "bit x j \<longleftrightarrow> j = i" for j by (auto simp: bit_simps)
    then have "?i = i" using b(2) by blast
    then have "x = push_bit ?i 1" by (rule ssubst) (rule i(2))
    then have "x AND NOT (push_bit ?i 1) = 0" by simp
    then show "is_power_of_2 x" using e False by (simp add: is_power_of_2_def)
  qed
qed

text \<open>Rounding to powers of two; above \<open>2 ^ 31\<close> the next power does not fit, and the shift is undefined.\<close>

lemma rounddown_spec:
  assumes "x \<noteq> 0"
  shows "\<exists>k < 32. rounddown_pow_of_two x = Inr (push_bit k 1) \<and> 2 ^ k \<le> unat x \<and> unat x < 2 ^ Suc k"
proof -
  have f: "1 \<le> fls x" "fls x \<le> 32" "2 ^ (fls x - 1) \<le> unat x" "unat x < 2 ^ fls x" using fls_bounds [OF assms] by auto
  then have "rounddown_pow_of_two x = Inr (push_bit (fls x - 1) 1)" by (simp add: rounddown_pow_of_two_def fls_long_def shl32_def nat_diff_distrib)
  moreover have "Suc (fls x - 1) = fls x" using f(1) by simp
  ultimately show ?thesis using f by (intro exI [of _ "fls x - 1"]) simp
qed

lemma roundup_spec:
  assumes "x \<noteq> 0"
  shows "if unat x \<le> 2 ^ 31 then \<exists>k < 32. roundup_pow_of_two x = Inr (push_bit k 1) \<and> unat x \<le> 2 ^ k \<and> (\<forall>j. unat x \<le> 2 ^ j \<longrightarrow> k \<le> j)
    else roundup_pow_of_two x = Inl ShiftRange"
proof (cases "x - 1 = 0")
  case True
  then have "x = 1" by simp
  then show ?thesis by (simp add: roundup_pow_of_two_def fls_long_def fls_def shl32_def) (auto intro: exI [of _ 0])
next
  case False
  have u: "unat (x - 1) = unat x - 1" using assms by (simp add: unat_minus_one)
  have p: "0 < unat x" using assms by (simp add: unat_gt_0)
  let ?l = "fls (x - 1)"
  have f: "1 \<le> ?l" "?l \<le> 32" "2 ^ (?l - 1) \<le> unat x - 1" "unat x - 1 < 2 ^ ?l" using fls_bounds [OF False, unfolded u] by auto
  have up: "unat x \<le> 2 ^ ?l" using f(4) p by linarith
  have low: "?l \<le> j" if "unat x \<le> 2 ^ j" for j
  proof -
    have "2 ^ (?l - 1) < (2 :: nat) ^ j" using f(3) p that by linarith
    then show ?thesis using f(1) by (simp add: power_strict_increasing_iff)
  qed
  have "?l < 32 \<longleftrightarrow> unat x \<le> 2 ^ 31"
  proof
    assume "?l < 32"
    then have "(2 :: nat) ^ ?l \<le> 2 ^ 31" by (intro power_increasing) auto
    then show "unat x \<le> 2 ^ 31" using up by (rule le_trans [rotated])
  next
    assume "unat x \<le> 2 ^ 31"
    then show "?l < 32" using low [of 31] by simp
  qed
  then show ?thesis using up low by (auto simp: roundup_pow_of_two_def fls_long_def shl32_def)
qed

lemma fls64_bounds:
  assumes "x \<noteq> 0"
  shows "1 \<le> fls64 x \<and> fls64 x \<le> 64 \<and> 2 ^ (fls64 x - 1) \<le> unat x \<and> unat x < 2 ^ fls64 x"
proof -
  let ?h = "ucast (drop_bit 32 x) :: u32"
  have u: "unat ?h = unat x div 2 ^ 32" unfolding high_word(1) using high_word(2) by (intro unat_of_nat_small) simp
  show ?thesis
  proof (cases "?h = 0")
    case True
    then have n: "unat x < 2 ^ 32" using u by (simp add: div_eq_0_iff)
    have "unat (ucast x :: u32) = unat x"
      using n by (simp add: unsigned_ucast_eq take_bit_nat_eq_self)
    moreover from this have "(ucast x :: u32) \<noteq> 0" using assms by (metis unsigned_0 unsigned_eq_0_iff)
    ultimately show ?thesis using fls_bounds [of "ucast x"] True by (simp add: fls64_def)
  next
    case False
    note b = fls_bounds [OF False, unfolded u]
    have "2 ^ (fls ?h - 1) * 2 ^ 32 \<le> unat x" using b by (meson div_times_less_eq_dividend mult_le_mono1 order_trans)
    moreover have "unat x < 2 ^ fls ?h * 2 ^ 32" using b by (metis div_less_iff_less_mult zero_less_power zero_less_numeral)
    moreover have "fls64 x = fls ?h + 32" using False by (simp add: fls64_def Let_def)
    moreover have "fls ?h + 32 - 1 = fls ?h - 1 + 32" using b by simp
    ultimately show ?thesis using b by (simp only: power_add) simp
  qed
qed

text \<open>
  C37: for a word that is not zero, every implementation of the bit searches finds the same bits. The halving routines of
  \<open>asm-generic\<close> and the \<open>clz\<close> routines of ARM, whichever branch \<open>__builtin_constant_p\<close> chooses, agree: \<open>fls\<close> is the number
  of significant bits (\<open>2 ^ (fls x - 1) \<le> x < 2 ^ fls x\<close>), \<open>ffs\<close> is one more than the index of the lowest bit that is one
  (ARM takes it as \<open>fls (x & -x)\<close>), \<open>__fls\<close> and \<open>__ffs\<close> are one less than these, and \<open>fls64\<close> bounds a
  double word in the same way. \<open>is_power_of_2\<close> holds for the 32 words with a single bit and for no other; \<open>rounddown_pow_of_two\<close>
  and \<open>roundup_pow_of_two\<close> return the nearest ones, except that above \<open>2 ^ 31\<close> rounding up shifts by 32, which is undefined.
\<close>

theorem bit_searches_agree:
  assumes "x \<noteq> 0" and "y \<noteq> 0"
  shows "arm_fls const x = fls x \<and> arm_ffs const x = ffs x \<and>
    2 ^ (fls x - 1) \<le> unat x \<and> unat x < 2 ^ fls x \<and>
    1 \<le> ffs x \<and> bit x (ffs x - 1) \<and> (\<forall>j. bit x j \<longrightarrow> ffs x - 1 \<le> j) \<and>
    gen_fls x = fls x - 1 \<and> arm_fls_idx const x = of_nat (gen_fls x) \<and>
    gen_ffs x = ffs x - 1 \<and> arm_ffs_idx const x = of_nat (gen_ffs x) \<and>
    2 ^ (fls64 y - 1) \<le> unat y \<and> unat y < 2 ^ fls64 y \<and>
    (is_power_of_2 x \<longleftrightarrow> (\<exists>i < 32. x = push_bit i 1)) \<and>
    (\<exists>k < 32. rounddown_pow_of_two x = Inr (push_bit k 1) \<and> 2 ^ k \<le> unat x \<and> unat x < 2 ^ Suc k) \<and>
    (if unat x \<le> 2 ^ 31 then \<exists>k < 32. roundup_pow_of_two x = Inr (push_bit k 1) \<and> unat x \<le> 2 ^ k \<and> (\<forall>j. unat x \<le> 2 ^ j \<longrightarrow> k \<le> j)
     else roundup_pow_of_two x = Inl ShiftRange)"
proof -
  have "gen_fls x = fls x - 1 \<and> arm_fls_idx const x = of_nat (gen_fls x)"
    using fls_bounds [OF assms(1)] by (simp add: arm_fls_idx_def arm_fls_eq gen_fls_eq [OF assms(1)] of_nat_diff)
  moreover have "gen_ffs x = ffs x - 1 \<and> arm_ffs_idx const x = of_nat (gen_ffs x)"
    by (simp add: arm_ffs_idx_def arm_ffs_eq ffs_eq gen_ffs_eq [OF assms(1)] assms(1))
  moreover have "1 \<le> ffs x \<and> bit x (ffs x - 1) \<and> (\<forall>j. bit x j \<longrightarrow> ffs x - 1 \<le> j)"
    using ffs_word_bit [OF assms(1)] by (auto simp: ffs_eq assms(1)) (meson not_le)
  ultimately show ?thesis
    using fls_bounds [OF assms(1)] fls64_bounds [OF assms(2)] rounddown_spec [OF assms(1)] roundup_spec [OF assms(1)] unfolding arm_fls_eq arm_ffs_eq is_power_of_2_iff by blast
qed

theorem bit_searches_agree_witness:
  "arm_fls False 0x50 = 7 \<and> arm_ffs True 0x50 = 5 \<and> fls 0x50 = 7 \<and> gen_ffs 0x50 = 4 \<and> \<not> is_power_of_2 0x50 \<and> fls64 0x500000000 = 35"
proof -
  have "(0x50 :: u32) \<noteq> 0" "(0x500000000 :: u64) \<noteq> 0" by simp_all
  note t = bit_searches_agree [OF this]
  have "fls 0x50 = 7" "ffs 0x50 = 5" by (simp_all add: fls_def ffs_def)
  moreover have "\<not> is_power_of_2 0x50" "fls64 0x500000000 = 35" by (simp_all add: is_power_of_2_def fls64_def fls_def)
  ultimately show ?thesis using t [of False] t [of True] by (simp only: simp_thms)
qed

end
