(* ===== verification/KArith.thy ===== *)
theory KArith
  imports Bitops
begin

text \<open>
  Integer arithmetic: \<^verbatim>\<open>lib/gcd.c\<close>, \<^verbatim>\<open>lib/lcm.c\<close>, \<^verbatim>\<open>lib/int_sqrt.c\<close>, \<^verbatim>\<open>lib/reciprocal_div.c\<close> with \<open>reciprocal_divide\<close> of its
  header, and \<^verbatim>\<open>lib/div64.c\<close>. Every variable keeps its width, so sums, products and shifts wrap around as in the code.
\<close>

section \<open>gcd.c and lcm.c\<close>

text \<open>The loop of \<open>gcd\<close>; its second argument is not zero.\<close>

function gcd_loop :: "u32 \<Rightarrow> u32 \<Rightarrow> u32" where
  "gcd_loop a b = (let r = a mod b in if b = 0 \<or> r = 0 then b else gcd_loop b r)"
  by pat_completeness auto
termination by (relation "measure (\<lambda>(a, b). unat b)") (auto simp: unat_mod_distrib word_gt_0 word_unat_eq_iff)

declare gcd_loop.simps [simp del]

definition gcd_ul :: "u32 \<Rightarrow> u32 \<Rightarrow> u32" where
  "gcd_ul a b =
     (let (a, b) = (if a < b then (b, a) else (a, b))
      in if b = 0 then a else gcd_loop a b)"

definition lcm_ul :: "u32 \<Rightarrow> u32 \<Rightarrow> u32" where
  "lcm_ul a b = (if a \<noteq> 0 \<and> b \<noteq> 0 then (a div gcd_ul a b) * b else 0)"

definition lcm_not_zero :: "u32 \<Rightarrow> u32 \<Rightarrow> u32" where
  "lcm_not_zero a b = (let l = lcm_ul a b in if l \<noteq> 0 then l else if b \<noteq> 0 then b else a)"

lemma gcd_loop_spec: "b \<noteq> 0 \<Longrightarrow> unat (gcd_loop a b) = gcd (unat a) (unat b)"
proof (induction a b rule: gcd_loop.induct)
  case (1 a b)
  have m: "unat (a mod b) = unat a mod unat b" by (rule unat_mod_distrib)
  show ?case
  proof (cases "a mod b = 0")
    case True
    then have "unat b dvd unat a" using m by (simp add: mod_eq_0_iff_dvd)
    moreover have "gcd_loop a b = b" using True by (subst gcd_loop.simps) simp
    ultimately show ?thesis by (simp add: gcd_nat.absorb2)
  next
    case False
    then have "gcd_loop a b = gcd_loop b (a mod b)" using "1.prems" by (subst gcd_loop.simps) simp
    then show ?thesis using "1.IH" [of "a mod b"] False "1.prems" m by (simp add: gcd_red_nat [of "unat a"])
  qed
qed

lemma gcd_ul_spec: "unat (gcd_ul a b) = gcd (unat a) (unat b)"
  by (auto simp: gcd_ul_def gcd_loop_spec gcd.commute)

section \<open>int\_sqrt.c\<close>

function sqrt_loop :: "u32 \<Rightarrow> u32 \<Rightarrow> u32 \<Rightarrow> u32" where
  "sqrt_loop x y m =
     (if m \<noteq> 0 then
        let b = y + m; y = drop_bit 1 y;
            (x, y) = (if x \<ge> b then (x - b, y + m) else (x, y))
        in sqrt_loop x y (drop_bit 2 m)
      else y)"
  by pat_completeness auto
termination
proof (relation "measure (\<lambda>(x, y, m). unat m)", goal_cases)
  case (2 x y m)
  have "unat (drop_bit 2 m) = unat m div 4" by (simp add: drop_bit_eq_div unat_div)
  moreover have "0 < unat m" using 2 by (simp add: word_unat_eq_iff)
  ultimately show ?case by simp
qed simp

declare sqrt_loop.simps [simp del]

definition int_sqrt :: "u32 \<Rightarrow> u32" where
  "int_sqrt x = (if x \<le> 1 then x else sqrt_loop x 0 0x40000000)"

text \<open>
  With \<open>m = 4 ^ k\<close> the loop has the root \<open>R\<close> so far, a multiple of \<open>2 ^ (k + 1)\<close>: it keeps the rest \<open>X - R\<^sup>2\<close> in \<open>x\<close> and
  \<open>R * 2 ^ (k + 1)\<close> in \<open>y\<close>, and the test is \<open>(R + 2 ^ k)\<^sup>2 \<le> X\<close>.
\<close>

lemma of_nat_le_iff32: "a < 2 ^ 32 \<Longrightarrow> b < 2 ^ 32 \<Longrightarrow> (of_nat a :: u32) \<le> of_nat b \<longleftrightarrow> a \<le> b"
  by (simp add: word_le_nat_alt unat_of_nat take_bit_nat_eq_self)

lemma sqrt_step:
  assumes "X < 2 ^ 32" "k \<le> 15" "R * R \<le> X" "R + 2 * 2 ^ k \<le> 2 ^ 16"
  shows "sqrt_loop (of_nat (X - R * R)) (of_nat (2 * R * 2 ^ k)) (of_nat (4 ^ k)) =
    (let R' = (if (R + 2 ^ k) * (R + 2 ^ k) \<le> X then R + 2 ^ k else R)
     in sqrt_loop (of_nat (X - R' * R')) (of_nat (R' * 2 ^ k)) (of_nat (4 ^ k div 4)))"
proof -
  have sq: "(R + 2 ^ k) * (R + 2 ^ k) = R * R + (2 * R * 2 ^ k + 4 ^ k)"
    by (simp add: algebra_simps flip: power_mult_distrib)
  have "0 < (2 :: nat) ^ k" by simp
  then have "R + 2 ^ k < 2 ^ 16" using assms(4) by linarith
  then have "(R + 2 ^ k) * (R + 2 ^ k) < 2 ^ 16 * 2 ^ 16" by (intro mult_strict_mono) auto
  then have b: "2 * R * 2 ^ k + 4 ^ k < 2 ^ 32" unfolding sq by simp
  have m: "(4 :: nat) ^ k < 2 ^ 32" "of_nat (4 ^ k) \<noteq> (0 :: u32)"
  proof -
    show l: "(4 :: nat) ^ k < 2 ^ 32" using b by linarith
    then have "unat (of_nat (4 ^ k) :: u32) = 4 ^ k" by (simp only: unat_of_nat) (simp add: take_bit_nat_eq_self)
    then show "of_nat (4 ^ k) \<noteq> (0 :: u32)" by (metis power_not_zero unsigned_0 zero_neq_numeral)
  qed
  have y: "drop_bit 1 (of_nat (2 * R * 2 ^ k)) = (of_nat (R * 2 ^ k) :: u32)"
    using drop_bit_of_nat [of "2 * R * 2 ^ k" 1] b by simp
  have m4: "drop_bit 2 (of_nat (4 ^ k)) = (of_nat (4 ^ k div 4) :: u32)" using drop_bit_of_nat [OF m(1), of 2] by simp
  have bs: "of_nat (2 * R * 2 ^ k) + of_nat (4 ^ k) = (of_nat (2 * R * 2 ^ k + 4 ^ k) :: u32)" by simp
  have c: "(of_nat (2 * R * 2 ^ k + 4 ^ k) :: u32) \<le> of_nat (X - R * R) \<longleftrightarrow> (R + 2 ^ k) * (R + 2 ^ k) \<le> X"
    unfolding sq using b assms(1,3) by (subst of_nat_le_iff32) auto
  show ?thesis
  proof (cases "(R + 2 ^ k) * (R + 2 ^ k) \<le> X")
    case True
    have "of_nat (X - R * R) - of_nat (2 * R * 2 ^ k + 4 ^ k) = (of_nat (X - (R + 2 ^ k) * (R + 2 ^ k)) :: u32)"
    proof -
      have "X - (R + 2 ^ k) * (R + 2 ^ k) = X - R * R - (2 * R * 2 ^ k + 4 ^ k)" unfolding sq by simp
      moreover have "2 * R * 2 ^ k + 4 ^ k \<le> X - R * R" using True unfolding sq by simp
      ultimately show ?thesis by (simp only: of_nat_diff)
    qed
    moreover have "of_nat (R * 2 ^ k) + of_nat (4 ^ k) = (of_nat ((R + 2 ^ k) * 2 ^ k) :: u32)"
      by (simp add: algebra_simps flip: power_mult_distrib)
    ultimately show ?thesis
      using True m(2) c by (subst sqrt_loop.simps) (simp only: if_True Let_def prod.case y m4 bs not_False_eq_True)
  next
    case False
    then show ?thesis using m(2) c by (subst sqrt_loop.simps) (simp only: if_False if_True Let_def prod.case y m4 bs not_False_eq_True)
  qed
qed

lemma sqrt_loop_spec:
  assumes "X < 2 ^ 32"
  shows "k \<le> 15 \<Longrightarrow> R * R \<le> X \<Longrightarrow> X < (R + 2 * 2 ^ k) * (R + 2 * 2 ^ k) \<Longrightarrow> R + 2 * 2 ^ k \<le> 2 ^ 16 \<Longrightarrow>
    \<exists>S. sqrt_loop (of_nat (X - R * R)) (of_nat (2 * R * 2 ^ k)) (of_nat (4 ^ k)) = of_nat S \<and> S * S \<le> X \<and> X < Suc S * Suc S"
proof (induction k arbitrary: R)
  case 0
  define R' where "R' = (if (R + 1) * (R + 1) \<le> X then R + 1 else R)"
  have "sqrt_loop (of_nat (X - R * R)) (of_nat (2 * R * 2 ^ 0)) (of_nat (4 ^ 0)) = of_nat R'"
    using sqrt_step [OF assms "0"(1,2,4)] by (simp add: Let_def R'_def sqrt_loop.simps [of _ _ 0])
  moreover have "R' * R' \<le> X" "X < Suc R' * Suc R'" using 0 by (auto simp: R'_def)
  ultimately show ?case by blast
next
  case (Suc k)
  define R' where "R' = (if (R + 2 ^ Suc k) * (R + 2 ^ Suc k) \<le> X then R + 2 ^ Suc k else R)"
  have "sqrt_loop (of_nat (X - R * R)) (of_nat (2 * R * 2 ^ Suc k)) (of_nat (4 ^ Suc k)) =
      sqrt_loop (of_nat (X - R' * R')) (of_nat (2 * R' * 2 ^ k)) (of_nat (4 ^ k))"
    using sqrt_step [OF assms Suc.prems(1,2,4)] by (simp add: Let_def R'_def mult.assoc mult.left_commute)
  moreover have "\<exists>S. sqrt_loop (of_nat (X - R' * R')) (of_nat (2 * R' * 2 ^ k)) (of_nat (4 ^ k)) = of_nat S \<and> S * S \<le> X \<and> X < Suc S * Suc S"
    using Suc.prems by (intro Suc.IH) (auto simp: R'_def algebra_simps)
  ultimately show ?case by simp
qed

lemma int_sqrt_spec: "unat (int_sqrt x) * unat (int_sqrt x) \<le> unat x \<and> unat x < Suc (unat (int_sqrt x)) * Suc (unat (int_sqrt x))"
proof (cases "x \<le> 1")
  case True
  then have "x = 0 \<or> x = 1" by (metis linorder_not_le word_less_1 order_antisym_conv word_gt_0 leI inc_le word_zero_le add_0)
  then show ?thesis by (auto simp: int_sqrt_def)
next
  case False
  have x: "unat x < 2 ^ 32" using unsigned_less [of x] by simp
  obtain S where S: "sqrt_loop (of_nat (unat x)) 0 (of_nat (4 ^ 15)) = of_nat S" "S * S \<le> unat x" "unat x < Suc S * Suc S"
    using sqrt_loop_spec [OF x, of 15 0] x by auto
  have "S < 2 ^ 32" using S(2) x by (meson le_less_trans le_square)
  then have "unat (of_nat S :: u32) = S" by (simp add: unat_of_nat take_bit_nat_eq_self)
  moreover have "int_sqrt x = of_nat S" using S(1) False by (simp add: int_sqrt_def)
  ultimately show ?thesis using S(2,3) by simp
qed

section \<open>div64.c\<close>

lemma sint64_cases: "sint b = (if uint b < 2 ^ 63 then uint b else uint b - 2 ^ 64)" for b :: u64
proof -
  have u: "0 \<le> uint b" "uint b < 2 ^ 64" using uint_lt2p [of b] by simp_all
  have s: "sint b = (uint b + 2 ^ 63) mod 2 ^ 64 - 2 ^ 63"
    unfolding sint_uint signed_take_bit_eq_take_bit_shift by (simp add: take_bit_eq_mod)
  show ?thesis
  proof (cases "uint b < 2 ^ 63")
    case True
    have "(uint b + 2 ^ 63) mod 2 ^ 64 = uint b + 2 ^ 63" 
      using u True by (intro mod_pos_pos_trivial) simp_all
    then show ?thesis using True unfolding s by simp
  next
    case False
    have "(uint b + 2 ^ 63) mod 2 ^ 64 = (uint b + 2 ^ 63 - 2 ^ 64) mod 2 ^ 64"
      by (metis minus_mod_self2)
    also have "\<dots> = uint b + 2 ^ 63 - 2 ^ 64" 
      using u False by (intro mod_pos_pos_trivial) simp_all
    finally show ?thesis using False unfolding s by simp
  qed
qed

lemma sint64_pos: "0 < sint b \<longleftrightarrow> 0 < unat b \<and> unat b < 2 ^ 63" for b :: u64
proof -
  have u: "0 \<le> uint b" "uint b < 2 ^ 64" "int (unat b) = uint b" using uint_lt2p [of b] by simp_all
  have "unat b < 2 ^ 63 \<longleftrightarrow> uint b < 2 ^ 63" 
    unfolding u(3) [symmetric] of_nat_less_numeral_iff of_nat_less_numeral_power_cancel_iff ..
  moreover have "0 < unat b \<longleftrightarrow> 0 < uint b" unfolding u(3) [symmetric] by linarith
  ultimately show ?thesis using u(2) unfolding sint64_cases by (simp split: if_splits)
qed

text \<open>The three parts of \<open>__div64_32\<close>: doubling the divisor, subtracting its halves, and the reduction of the high word.\<close>

function div_up :: "u64 \<Rightarrow> u64 \<Rightarrow> u64 \<Rightarrow> u64 \<times> u64" where
  "div_up r b d = (if 0 < sint b \<and> b < r then div_up r (b + b) (d + d) else (b, d))"
  by pat_completeness auto
termination
proof (relation "measure (\<lambda>(r, b, d). 2 ^ 64 - unat b)", goal_cases)
  case (2 r b d)
  have u: "unat b < 2 ^ 63" "0 < unat b"
    using sint64_pos [of b] 2 by auto
  then show ?case by (simp add: unat_word_ariths)
qed simp

function div_down :: "u64 \<Rightarrow> u64 \<Rightarrow> u64 \<Rightarrow> u64 \<Rightarrow> u64 \<times> u64" where
  "div_down r b d q =
     (let (r, q) = (if r \<ge> b then (r - b, q + d) else (r, q));
          b = drop_bit 1 b; d = drop_bit 1 d
      in if d \<noteq> 0 then div_down r b d q else (r, q))"
  by pat_completeness auto
termination
proof (relation "measure (\<lambda>(r, b, d, q). unat d)", goal_cases)
  case (2 r b d q)
  then have "0 < unat (drop_bit 1 d)" by (auto simp: word_unat_eq_iff)
  moreover have "unat (drop_bit 1 d) = unat d div 2" by (simp add: drop_bit_eq_div unat_div)
  ultimately show ?case using 2 by auto
qed simp

declare div_up.simps [simp del] div_down.simps [simp del]

definition div64_32 :: "u64 \<Rightarrow> u32 \<Rightarrow> (u32 \<times> u64) res" where
  "div64_32 n base =
     (let high = ucast (drop_bit 32 n) :: u32 in
      rbind (if high \<ge> base then
               if base = 0 then Inl DivByZero
               else let high = high div base
                    in Inr (push_bit 32 (ucast high), n - push_bit 32 (ucast (high * base)))
             else Inr (0, n)) (\<lambda>(q, r).
      let (b, d) = div_up r (ucast base) 1;
          (r, q) = div_down r b d q
      in Inr (ucast r, q)))"

text \<open>\<open>do_div\<close>: the remainder and the quotient, which replaces the dividend.\<close>

definition do_div :: "u64 \<Rightarrow> u32 \<Rightarrow> (u32 \<times> u64) res" where
  "do_div n base =
     (if drop_bit 32 n = 0 then
        if base = 0 then Inl DivByZero
        else Inr ((ucast n :: u32) mod base, ucast ((ucast n :: u32) div base))
      else div64_32 n base)"

definition div_u64_rem :: "u64 \<Rightarrow> u32 \<Rightarrow> (u64 \<times> u32) res" where
  "div_u64_rem dividend divisor = rbind (do_div dividend divisor) (\<lambda>(r, q). Inr (q, r))"

definition div_u64 :: "u64 \<Rightarrow> u32 \<Rightarrow> u64 res" where
  "div_u64 dividend divisor = rbind (div_u64_rem dividend divisor) (\<lambda>(q, r). Inr q)"

definition div64_u64 :: "u64 \<Rightarrow> u64 \<Rightarrow> u64 res" where
  "div64_u64 dividend divisor =
     (let high = ucast (drop_bit 32 divisor) :: u32 in
      if high = 0 then div_u64 dividend (ucast divisor)
      else let n = 1 + fls high in
        rbind (div_u64 (drop_bit n dividend) (ucast (drop_bit n divisor))) (\<lambda>quot.
        let quot = (if quot \<noteq> 0 then quot - 1 else quot)
        in Inr (if dividend - quot * divisor \<ge> divisor then quot + 1 else quot)))"

definition div64_u64_rem :: "u64 \<Rightarrow> u64 \<Rightarrow> (u64 \<times> u64) res" where
  "div64_u64_rem dividend divisor =
     (let high = ucast (drop_bit 32 divisor) :: u32 in
      if high = 0 then rbind (div_u64_rem dividend (ucast divisor)) (\<lambda>(quot, rem32). Inr (quot, ucast rem32))
      else let n = 1 + fls high in
        rbind (div_u64 (drop_bit n dividend) (ucast (drop_bit n divisor))) (\<lambda>quot.
        let quot = (if quot \<noteq> 0 then quot - 1 else quot);
            remainder = dividend - quot * divisor
        in Inr (if remainder \<ge> divisor then (quot + 1, remainder - divisor) else (quot, remainder))))"

text \<open>The signed divisions: a signed value is a word read by \<open>sint\<close>, and \<open>abs\<close> leaves the least value as it is.\<close>

definition abs_word :: "'a :: len word \<Rightarrow> 'a word" where
  "abs_word x = (if sint x < 0 then - x else x)"

definition div_s64_rem :: "u64 \<Rightarrow> u32 \<Rightarrow> (u64 \<times> u32) res" where
  "div_s64_rem dividend divisor =
     (if sint dividend < 0 then
        rbind (div_u64_rem (- dividend) (abs_word divisor)) (\<lambda>(quotient, remainder).
        Inr (if 0 < sint divisor then - quotient else quotient, - remainder))
      else
        rbind (div_u64_rem dividend (abs_word divisor)) (\<lambda>(quotient, remainder).
        Inr (if sint divisor < 0 then - quotient else quotient, remainder)))"

definition div_s64 :: "u64 \<Rightarrow> u32 \<Rightarrow> u64 res" where
  "div_s64 dividend divisor = rbind (div_s64_rem dividend divisor) (\<lambda>(quotient, remainder). Inr quotient)"

definition div64_s64 :: "u64 \<Rightarrow> u64 \<Rightarrow> u64 res" where
  "div64_s64 dividend divisor =
     rbind (div64_u64 (abs_word dividend) (abs_word divisor)) (\<lambda>quot.
     let t = signed_drop_bit 63 (dividend XOR divisor)
     in Inr ((quot XOR t) - t))"

partial_function (option) iter_div_u64_rem :: "u32 \<Rightarrow> u64 \<Rightarrow> u32 \<Rightarrow> (u32 \<times> u64) option" where
  "iter_div_u64_rem ret dividend divisor =
     (if dividend \<ge> ucast divisor then iter_div_u64_rem (ret + 1) (dividend - ucast divisor) divisor
      else Some (ret, dividend))"

lemma of_nat_le_iff64: "a < 2 ^ 64 \<Longrightarrow> b < 2 ^ 64 \<Longrightarrow> (of_nat a :: u64) \<le> of_nat b \<longleftrightarrow> a \<le> b"
  by (simp add: word_le_nat_alt unat_of_nat take_bit_nat_eq_self)

text \<open>The doubled divisor exceeds half of the rest.\<close>

lemma div_up_spec:
  assumes "0 < B"
  shows "B * 2 ^ j < 2 ^ 64 \<Longrightarrow> \<exists>k. div_up r (of_nat (B * 2 ^ j)) (of_nat (2 ^ j)) = (of_nat (B * 2 ^ k), of_nat (2 ^ k)) \<and>
    B * 2 ^ k < 2 ^ 64 \<and> unat r < 2 * (B * 2 ^ k)"
proof (induction "2 ^ 64 - B * 2 ^ j" arbitrary: j rule: less_induct)
  case less
  let ?b = "B * 2 ^ j"
  have b: "unat (of_nat ?b :: u64) = ?b" using less.prems by (rule unat_of_nat64)
  have p: "0 < ?b" using assms by simp
  show ?case
  proof (cases "?b < 2 ^ 63 \<and> ?b < unat r")
    case True
    then have "0 < sint (of_nat ?b :: u64) \<and> (of_nat ?b :: u64) < r"
      unfolding sint64_pos b word_less_nat_alt using p by blast
    then have "div_up r (of_nat ?b) (of_nat (2 ^ j)) = div_up r (of_nat ?b + of_nat ?b) (of_nat (2 ^ j) + of_nat (2 ^ j))"
      by (subst div_up.simps) (simp only: simp_thms if_True)
    also have "\<dots> = div_up r (of_nat (B * 2 ^ Suc j)) (of_nat (2 ^ Suc j))" by (simp add: mult.left_commute)
    finally have e: "div_up r (of_nat ?b) (of_nat (2 ^ j)) = div_up r (of_nat (B * 2 ^ Suc j)) (of_nat (2 ^ Suc j))" .
    have l: "B * 2 ^ Suc j < 2 ^ 64" "?b < B * 2 ^ Suc j" using True p by auto
    show ?thesis unfolding e by (rule less.hyps [OF diff_less_mono2 [OF l(2) less.prems] l(1)])
  next
    case False
    then have "\<not> (0 < sint (of_nat ?b :: u64) \<and> (of_nat ?b :: u64) < r)"
      unfolding sint64_pos b word_less_nat_alt by blast
    then have "div_up r (of_nat ?b) (of_nat (2 ^ j)) = (of_nat ?b, of_nat (2 ^ j))" by (subst div_up.simps) (simp only: if_False)
    moreover have "unat r < 2 * ?b"
    proof (cases "?b < unat r")
      case True
      then have "2 ^ 63 \<le> ?b" using False by simp
      then show ?thesis using unat_less64 [of r] by simp
    qed (use p in linarith)
    ultimately show ?thesis using less.prems by blast
  qed
qed

lemma div_down_spec:
  assumes "0 < B"
  shows "r < 2 * (B * 2 ^ j) \<Longrightarrow> r < 2 ^ 64 \<Longrightarrow> B * 2 ^ j < 2 ^ 64 \<Longrightarrow>
    div_down (of_nat r) (of_nat (B * 2 ^ j)) (of_nat (2 ^ j)) q = (of_nat (r mod B), q + of_nat (r div B))"
proof (induction j arbitrary: r q)
  case 0
  have "drop_bit 1 (1 :: u64) = 0" by simp
  moreover have "r mod B = (if B \<le> r then r - B else r)" "r div B = (if B \<le> r then 1 else 0)"
    using 0(1) assms by (auto simp: mod_if div_if)
  ultimately show ?case using 0 by (subst div_down.simps) (auto simp: of_nat_le_iff64 of_nat_diff)
next
  case (Suc j)
  let ?b = "B * 2 ^ Suc j" and ?d = "2 ^ Suc j :: nat"
  have d64: "?d < 2 ^ 64"
  proof -
    have "?d \<le> ?b" using assms by simp
    then show ?thesis using Suc.prems(3) by (rule le_less_trans)
  qed
  define r' where "r' = (if ?b \<le> r then r - ?b else r)"
  define q' where "q' = (if ?b \<le> r then q + of_nat ?d else q)"
  have sh: "drop_bit 1 (of_nat ?b :: u64) = of_nat (B * 2 ^ j)" "drop_bit 1 (of_nat ?d :: u64) = of_nat (2 ^ j)"
    using drop_bit_of_nat64 [OF Suc.prems(3), of 1] drop_bit_of_nat64 [OF d64, of 1] by simp_all
  have nz: "of_nat (2 ^ j) \<noteq> (0 :: u64)"
  proof -
    have "unat (of_nat (2 ^ j) :: u64) = 2 ^ j" using d64 by (intro unat_of_nat64) simp
    then show ?thesis by (metis power_not_zero unsigned_0 zero_neq_numeral)
  qed
  have "(if (of_nat r :: u64) \<ge> of_nat ?b then (of_nat r - of_nat ?b :: u64, q + of_nat ?d) else (of_nat r, q)) = (of_nat r', q')"
    unfolding of_nat_le_iff64 [OF Suc.prems(3,2)] r'_def q'_def by (simp add: of_nat_diff del: power_Suc)
  then have "div_down (of_nat r) (of_nat ?b) (of_nat ?d) q = div_down (of_nat r') (of_nat (B * 2 ^ j)) (of_nat (2 ^ j)) q'"
    using nz by (subst div_down.simps) (simp only: Let_def prod.case sh if_True not_False_eq_True)
  also have "\<dots> = (of_nat (r' mod B), q' + of_nat (r' div B))"
    using Suc.prems by (intro Suc.IH) (auto simp: r'_def)
  also have "r' mod B = r mod B"
    unfolding r'_def by (auto simp: mod_mult_self1 dest!: le_Suc_ex simp del: power_Suc)
  also have "q' + of_nat (r' div B) = q + of_nat (r div B)"
  proof (cases "?b \<le> r")
    case True
    then obtain c where c: "r = ?b + c" using le_Suc_ex by blast
    have "r div B = ?d + c div B" unfolding c using assms by (simp del: power_Suc)
    then show ?thesis using c by (simp add: r'_def q'_def del: power_Suc)
  qed (simp add: r'_def q'_def)
  finally show ?case .
qed

text \<open>The reduction of the high word, in \<open>nat\<close>.\<close>

lemma div64_reduce:
  fixes base :: u32 and n :: u64
  assumes "base \<noteq> 0" and "H = unat n div 2 ^ 32"
  shows "(if ucast (drop_bit 32 n) \<ge> base then
            if base = 0 then Inl DivByZero
            else Inr (push_bit 32 (ucast (ucast (drop_bit 32 n) div base)), n - push_bit 32 (ucast (ucast (drop_bit 32 n) div base * base)))
          else Inr (0, n)) =
    (Inr (of_nat (H div unat base * 2 ^ 32), n - of_nat (H div unat base * unat base * 2 ^ 32)) :: (u64 \<times> u64) res)"
proof -
  have H: "H < 2 ^ 32" using high_word(2) assms(2) by blast
  have u: "unat (of_nat H :: u32) = H" using H by (intro unat_of_nat_small) simp
  have q: "(of_nat H :: u32) div base = of_nat (H div unat base)" unfolding word_arith_nat_div u ..
  have l: "H div unat base < 2 ^ LENGTH(32)" using le_less_trans [OF div_le_dividend H] by simp
  have m: "(of_nat (H div unat base) :: u32) * base = of_nat (H div unat base * unat base)" by simp
  have lm: "H div unat base * unat base < 2 ^ LENGTH(32)"
    using le_less_trans [OF div_times_less_eq_dividend H] by simp
  have c: "base \<le> of_nat H \<longleftrightarrow> unat base \<le> H" by (simp add: word_le_nat_alt u)
  show ?thesis
    unfolding high_word(1) assms(2) [symmetric] q m ucast_of_nat [OF l] ucast_of_nat [OF lm] c
    using assms(1) by (auto simp: push_bit_of_nat push_bit_eq_mult)
qed

lemma div64_32_spec:
  assumes "base \<noteq> 0"
  shows "div64_32 n base = Inr (of_nat (unat n mod unat base), of_nat (unat n div unat base))"
proof -
  let ?N = "unat n" and ?B = "unat base"
  let ?H = "?N div 2 ^ 32"
  let ?q = "?H div ?B * 2 ^ 32"
  let ?r = "?N - ?H div ?B * ?B * 2 ^ 32"
  have B: "0 < ?B" using assms by (simp add: unat_gt_0)
  have b64: "?B * 2 ^ 0 < 2 ^ 64" using unat_less32 [of base] by simp
  have N: "?N < 2 ^ 64" using unat_less64 [of n] by simp
  have le: "?H div ?B * ?B * 2 ^ 32 \<le> ?N"
  proof -
    have "?H div ?B * ?B * 2 ^ 32 \<le> ?H * 2 ^ 32" by simp
    also have "\<dots> \<le> ?N" by (rule div_times_less_eq_dividend)
    finally show ?thesis .
  qed
  have r: "?r < 2 ^ 64" using N by (rule le_less_trans [OF diff_le_self])
  obtain k where k: "div_up (of_nat ?r) (of_nat (?B * 2 ^ 0)) (of_nat (2 ^ 0)) = (of_nat (?B * 2 ^ k), of_nat (2 ^ k))"
      "?B * 2 ^ k < 2 ^ 64" "unat (of_nat ?r :: u64) < 2 * (?B * 2 ^ k)"
    using div_up_spec [OF B, of 0 "of_nat ?r"] b64 by auto
  have d: "div_down (of_nat ?r) (of_nat (?B * 2 ^ k)) (of_nat (2 ^ k)) (of_nat ?q) = (of_nat (?r mod ?B), of_nat ?q + of_nat (?r div ?B))"
    using k(3) unfolding unat_of_nat64 [OF r] by (rule div_down_spec [OF B _ r k(2)])
  have e: "?N = ?r + (?H div ?B * 2 ^ 32) * ?B" using le by simp
  have m: "?N mod ?B = ?r mod ?B" "?N div ?B = ?q + ?r div ?B"
    by (subst e, rule mod_mult_self1) (subst e, subst div_mult_self1, use B in simp_all)
  have lr: "?r mod ?B < 2 ^ LENGTH(64)" using le_less_trans [OF mod_less_eq_dividend r] by simp
  have rw: "n - of_nat (?H div ?B * ?B * 2 ^ 32) = of_nat ?r" unfolding of_nat_diff [OF le] by simp
  show ?thesis
    unfolding div64_32_def Let_def div64_reduce [OF assms refl] rbind_simps prod.case rw
    using k(1) d ucast_of_nat [OF lr, where 'b = 32] unfolding m by simp
qed

lemma do_div_spec:
  "do_div n base = (if base = 0 then Inl DivByZero else Inr (of_nat (unat n mod unat base), of_nat (unat n div unat base)))"
proof (cases "drop_bit 32 n = 0")
  case True
  have "unat n div 2 ^ 32 = 0"
    using arg_cong [OF True, of unat] by (simp add: drop_bit_eq_div unat_div)
  then have n: "unat n < 2 ^ 32" by (simp add: div_eq_0_iff)
  then have "(ucast n :: u32) = of_nat (unat n)" using ucast_of_nat [where 'a = 64 and 'b = 32, of "unat n"] by simp
  moreover have u: "unat (of_nat (unat n) :: u32) = unat n" using n by (intro unat_of_nat_small) simp
  moreover have l: "unat n div unat base < 2 ^ LENGTH(32)" using le_less_trans [OF div_le_dividend n] by simp
  ultimately show ?thesis
    using True ucast_of_nat [OF l, where 'b = 64] unfolding do_div_def word_arith_nat_div word_arith_nat_mod by simp
next
  case False
  then have d: "do_div n base = div64_32 n base" by (simp add: do_div_def)
  show ?thesis
  proof (cases "base = 0")
    case True
    then show ?thesis unfolding d by (simp add: div64_32_def)
  qed (simp add: d div64_32_spec)
qed

lemma div_u64_rem_spec:
  "div_u64_rem n base = (if base = 0 then Inl DivByZero else Inr (of_nat (unat n div unat base), of_nat (unat n mod unat base)))"
  by (simp add: div_u64_rem_def do_div_spec)

lemma div_u64_spec: "div_u64 n base = (if base = 0 then Inl DivByZero else Inr (of_nat (unat n div unat base)))"
  by (simp add: div_u64_def div_u64_rem_spec)

text \<open>Dividing the leading parts of both numbers gives the quotient or one more, as long as the quotient is
  smaller than the leading part of the divisor.\<close>

lemma quot_estimate:
  fixes N D s :: nat
  assumes "0 < s" and "0 < D div s" and "N div D < D div s"
  shows "N div D \<le> N div s div (D div s) \<and> N div s div (D div s) \<le> Suc (N div D)"
proof
  let ?q = "N div D" and ?C = "D div s" and ?A = "N div s"
  let ?p = "?A div ?C"
  have D: "0 < D" using assms(2) by (metis div_0 gr0I less_irrefl)
  have "?q * ?C * s \<le> ?q * D" by (simp add: mult.assoc)
  also have "\<dots> \<le> N" by (rule div_times_less_eq_dividend)
  finally have "?q * ?C \<le> ?A" using assms(1) by (simp add: less_eq_div_iff_mult_less_eq)
  then show "?q \<le> ?p" using assms(2) by (simp add: less_eq_div_iff_mult_less_eq)
  have "?p * ?C * s \<le> ?A * s" by (simp add: div_times_less_eq_dividend)
  also have "\<dots> \<le> N" by (rule div_times_less_eq_dividend)
  also have "N < Suc ?q * D" using dividend_less_div_times [OF D, of N] by simp
  also have "\<dots> \<le> Suc ?q * (Suc ?C * s)" using dividend_less_div_times [OF assms(1), of D] by (intro mult_le_mono2) simp
  finally have "?p * ?C < Suc ?q * Suc ?C" by (simp add: mult.assoc [symmetric] del: mult_Suc)
  also have "\<dots> \<le> Suc ?q * ?C + ?C" using assms(3) by simp
  finally have "?p * ?C < Suc (Suc ?q) * ?C" by simp
  then show "?p \<le> Suc ?q" by (simp only: mult_less_cancel2 less_Suc_eq_le)
qed

lemma div64_leading:
  fixes divisor :: u64
  assumes "high = (ucast (drop_bit 32 divisor) :: u32)" and "high \<noteq> 0" and "n = 1 + fls high"
  shows "2 ^ 30 \<le> unat divisor div 2 ^ n" and "unat divisor div 2 ^ n < 2 ^ 31"
proof -
  let ?D = "unat divisor"
  have u: "unat high = ?D div 2 ^ 32" unfolding assms(1) high_word(1) using high_word(2) by (intro unat_of_nat_small) simp
  note f = fls_bounds [OF assms(2), unfolded u]
  have "2 ^ 30 * 2 ^ n = 2 ^ (fls high - 1) * (2 :: nat) ^ 32" using f assms(3) by (simp only: power_add [symmetric]) simp
  also have "\<dots> \<le> ?D" using f by (meson div_times_less_eq_dividend mult_le_mono1 order_trans)
  finally show "2 ^ 30 \<le> ?D div 2 ^ n" by (simp only: less_eq_div_iff_mult_less_eq zero_less_power zero_less_numeral)
  have "?D < 2 ^ fls high * 2 ^ 32" using f by (metis div_less_iff_less_mult zero_less_power zero_less_numeral)
  also have "\<dots> = 2 ^ 31 * 2 ^ n" unfolding assms(3) by (simp only: power_add [symmetric]) simp
  finally show "?D div 2 ^ n < 2 ^ 31" by (simp only: div_less_iff_less_mult zero_less_power zero_less_numeral)
qed

lemma quot_adjust:
  fixes N D p :: nat
  assumes "0 < D" and "N div D \<le> p" and "p \<le> Suc (N div D)"
  shows "(if D \<le> N - (p - 1) * D then (p - 1 + 1, N - (p - 1) * D - D) else (p - 1, N - (p - 1) * D)) = (N div D, N mod D)"
    and "(p - 1) * D \<le> N"
proof -
  have e: "N = N div D * D + N mod D" and l: "N mod D < D" using assms(1) by simp_all
  consider "p - 1 = N div D" | q where "N div D = Suc q" "p - 1 = q" using assms(2,3) by (cases "N div D") (auto simp: le_Suc_eq)
  then have "((if D \<le> N - (p - 1) * D then (p - 1 + 1, N - (p - 1) * D - D) else (p - 1, N - (p - 1) * D)) = (N div D, N mod D)) \<and> (p - 1) * D \<le> N"
  proof cases
    case 1
    have "N - N div D * D = N mod D" by (simp add: minus_div_mult_eq_mod)
    then show ?thesis unfolding 1 using l by simp
  next
    case 2
    have "N = q * D + (D + N mod D)" using e unfolding 2(1) by simp
    then have "N - q * D = D + N mod D" "q * D \<le> N" by linarith+
    then show ?thesis unfolding 2 by simp
  qed
  then show "(if D \<le> N - (p - 1) * D then (p - 1 + 1, N - (p - 1) * D - D) else (p - 1, N - (p - 1) * D)) = (N div D, N mod D)"
    and "(p - 1) * D \<le> N" by blast+
qed

lemma div64_words:
  fixes dividend divisor :: u64
  defines "N \<equiv> unat dividend" and "D \<equiv> unat divisor"
  assumes "0 < D" and "N div D \<le> p" and "p \<le> Suc (N div D)" and "p < 2 ^ 64"
    and "quot = (if (of_nat p :: u64) \<noteq> 0 then of_nat p - 1 else of_nat p)"
  shows "(if dividend - quot * divisor \<ge> divisor then (quot + 1, dividend - quot * divisor - divisor) else (quot, dividend - quot * divisor)) =
    (of_nat (N div D), of_nat (N mod D))"
proof -
  note adj = quot_adjust [OF assms(3-5)]
  have "(of_nat p :: u64) = 0 \<longleftrightarrow> unat (of_nat p :: u64) = 0" by (rule unsigned_eq_0_iff [symmetric])
  then have "(of_nat p :: u64) = 0 \<longleftrightarrow> p = 0" unfolding unat_of_nat64 [OF assms(6)] .
  then have q: "quot = of_nat (p - 1)" unfolding assms(7) by (cases "p = 0") (simp_all add: of_nat_diff Suc_leI)
  have dv: "dividend = of_nat N" "divisor = of_nat D" by (simp_all add: N_def D_def)
  have "dividend - quot * divisor = of_nat N - of_nat ((p - 1) * D)" unfolding q dv by simp
  also have "\<dots> = of_nat (N - (p - 1) * D)" using adj(2) by (simp only: of_nat_diff)
  finally have r: "dividend - quot * divisor = of_nat (N - (p - 1) * D)" .
  have lN: "N - (p - 1) * D < 2 ^ 64" using unat_less64 [of dividend] by (simp only: N_def less_imp_diff_less)
  have lD: "D < 2 ^ 64" unfolding D_def by (rule unat_less64)
  have le: "divisor \<le> dividend - quot * divisor \<longleftrightarrow> D \<le> N - (p - 1) * D"
    unfolding r by (subst dv(2)) (rule of_nat_le_iff64 [OF lD lN])
  show ?thesis
  proof (cases "D \<le> N - (p - 1) * D")
    case True
    then have e: "N div D = p - 1 + 1" "N mod D = N - (p - 1) * D - D" using adj(1) by simp_all
    have "(of_nat (N - (p - 1) * D) :: u64) - divisor = of_nat (N - (p - 1) * D - D)"
      by (subst dv(2)) (simp only: of_nat_diff [OF True])
    moreover have "quot + 1 = of_nat (p - 1 + 1)" unfolding q by simp
    ultimately show ?thesis using True le unfolding r e by (simp only: if_True)
  next
    case False
    then have e: "(N div D, N mod D) = (p - 1, N - (p - 1) * D)" using adj(1) by (simp only: if_False)
    then have "N div D = p - 1" "N mod D = N - (p - 1) * D" by blast+
    then show ?thesis using False le unfolding r by (simp only: if_False q)
  qed
qed

lemma div64_u64_large:
  fixes dividend divisor :: u64
  assumes h: "(ucast (drop_bit 32 divisor) :: u32) \<noteq> 0" and q: "unat dividend div unat divisor < 2 ^ 30"
  shows "div64_u64_rem dividend divisor = Inr (of_nat (unat dividend div unat divisor), of_nat (unat dividend mod unat divisor))"
    and "div64_u64 dividend divisor = Inr (of_nat (unat dividend div unat divisor))"
proof -
  let ?N = "unat dividend" and ?D = "unat divisor"
  define n where "n = 1 + fls (ucast (drop_bit 32 divisor))"
  define p where "p = ?N div 2 ^ n div (?D div 2 ^ n)"
  note C = div64_leading [OF refl h n_def]
  have D: "0 < ?D" using C(1) by (metis div_0 gr0I le_zero_eq power_not_zero zero_neq_numeral)
  have est: "?N div ?D \<le> p" "p \<le> Suc (?N div ?D)"
    using quot_estimate [of "2 ^ n" ?D ?N] less_le_trans [OF q C(1)] C(1) unfolding p_def by auto
  have p: "p < 2 ^ 64"
    unfolding p_def by (rule le_less_trans [OF order_trans [OF div_le_dividend div_le_dividend] unat_less64])
  have dn: "drop_bit n dividend = of_nat (?N div 2 ^ n)" "drop_bit n divisor = of_nat (?D div 2 ^ n)"
    using drop_bit_of_nat64 [OF unat_less64, of n dividend] drop_bit_of_nat64 [OF unat_less64, of n divisor] by simp_all
  have l: "?D div 2 ^ n < 2 ^ LENGTH(64)" "?D div 2 ^ n < 2 ^ LENGTH(32)" using C(2) by simp_all
  have uN: "unat (drop_bit n dividend) = ?N div 2 ^ n"
    unfolding dn by (rule unat_of_nat64 [OF le_less_trans [OF div_le_dividend unat_less64]])
  have uD: "unat (ucast (drop_bit n divisor) :: u32) = ?D div 2 ^ n"
    unfolding dn ucast_of_nat [OF l(1)] by (rule unat_of_nat_small [OF l(2)])
  have "(ucast (drop_bit n divisor) :: u32) \<noteq> 0" using uD C(1) by (metis unsigned_0 le_zero_eq power_not_zero zero_neq_numeral)
  then have d: "div_u64 (drop_bit n dividend) (ucast (drop_bit n divisor)) = Inr (of_nat p)"
    unfolding div_u64_spec uN uD p_def by (simp only: if_False)
  note w = div64_words [OF D est p refl]
  show "div64_u64_rem dividend divisor = Inr (of_nat (?N div ?D), of_nat (?N mod ?D))"
    using h unfolding div64_u64_rem_def Let_def n_def [symmetric] d rbind_simps w by (simp only: if_False)
  show "div64_u64 dividend divisor = Inr (of_nat (?N div ?D))"
    using h arg_cong [OF w, of fst] unfolding div64_u64_def Let_def n_def [symmetric] d rbind_simps if_distrib [of fst] fst_conv by (simp only: if_False)
qed

lemma div64_u64_small:
  fixes dividend divisor :: u64
  assumes h: "(ucast (drop_bit 32 divisor) :: u32) = 0"
  shows "div64_u64_rem dividend divisor =
      (if divisor = 0 then Inl DivByZero else Inr (of_nat (unat dividend div unat divisor), of_nat (unat dividend mod unat divisor)))"
    and "div64_u64 dividend divisor = (if divisor = 0 then Inl DivByZero else Inr (of_nat (unat dividend div unat divisor)))"
proof -
  have "unat (ucast (drop_bit 32 divisor) :: u32) = unat divisor div 2 ^ 32"
    unfolding high_word(1) by (rule unat_of_nat_small) (use high_word(2) in simp)
  then have "unat divisor < 2 ^ 32" using h by (simp add: div_eq_0_iff)
  then have u: "unat (ucast divisor :: u32) = unat divisor" by (simp add: unsigned_ucast_eq take_bit_nat_eq_self)
  have z: "(ucast divisor :: u32) = 0 \<longleftrightarrow> divisor = 0" using u by (metis unsigned_eq_0_iff)
  show "div64_u64 dividend divisor = (if divisor = 0 then Inl DivByZero else Inr (of_nat (unat dividend div unat divisor)))"
    using h by (simp add: div64_u64_def div_u64_spec u z)
  have "divisor \<noteq> 0 \<Longrightarrow> unat dividend mod unat divisor < 2 ^ 32"
    using \<open>unat divisor < 2 ^ 32\<close> by (metis less_trans mod_less_divisor unat_gt_0)
  then have "divisor \<noteq> 0 \<Longrightarrow> (ucast (of_nat (unat dividend mod unat divisor) :: u32) :: u64) = of_nat (unat dividend mod unat divisor)"
    by (intro ucast_of_nat) simp
  then show "div64_u64_rem dividend divisor =
      (if divisor = 0 then Inl DivByZero else Inr (of_nat (unat dividend div unat divisor), of_nat (unat dividend mod unat divisor)))"
    using h by (simp add: div64_u64_rem_def div_u64_rem_spec u z)
qed

text \<open>The signed divisions round towards zero.\<close>

lemma unat_abs_word: "int (unat (abs_word x)) = \<bar>sint x\<bar>" for x :: "'a :: len word"
proof -
  have b: "- (2 ^ (LENGTH('a) - 1)) \<le> sint x" "sint x < 2 ^ (LENGTH('a) - 1)"
    using sint_greater_eq [of x] sint_less [of x] by simp_all
  have "(2 :: int) ^ (LENGTH('a) - 1) < 2 ^ LENGTH('a)" by simp
  then have r: "\<bar>sint x\<bar> < 2 ^ LENGTH('a)" using b by linarith
  have "abs_word x = of_int \<bar>sint x\<bar>" by (simp add: abs_word_def)
  then have "uint (abs_word x) = \<bar>sint x\<bar>" using r by (simp add: uint_word_of_int_eq take_bit_int_eq_self)
  then show ?thesis by simp
qed

lemma abs_word_zero: "abs_word x = 0 \<longleftrightarrow> x = 0" for x :: "'a :: len word"
  by (auto simp: abs_word_def)

lemma of_nat_abs_div:
  "(of_nat (unat (abs_word x) div unat (abs_word y)) :: 'c :: len word) = of_int (\<bar>sint x\<bar> div \<bar>sint y\<bar>)"
  "(of_nat (unat (abs_word x) mod unat (abs_word y)) :: 'c :: len word) = of_int (\<bar>sint x\<bar> mod \<bar>sint y\<bar>)"
  by (metis of_int_of_nat_eq unat_abs_word zdiv_int zmod_int)+

lemma div_s64_rem_spec:
  "div_s64_rem dividend divisor =
    (if divisor = 0 then Inl DivByZero
     else Inr (of_int (sgn (sint dividend) * sgn (sint divisor) * (\<bar>sint dividend\<bar> div \<bar>sint divisor\<bar>)),
               of_int (sgn (sint dividend) * (\<bar>sint dividend\<bar> mod \<bar>sint divisor\<bar>))))"
proof (cases "divisor = 0")
  case True
  then show ?thesis by (simp add: div_s64_rem_def div_u64_rem_spec abs_word_def)
next
  case False
  have d: "div_u64_rem (abs_word dividend) (abs_word divisor) =
      Inr (of_int (\<bar>sint dividend\<bar> div \<bar>sint divisor\<bar>), of_int (\<bar>sint dividend\<bar> mod \<bar>sint divisor\<bar>))"
    unfolding div_u64_rem_spec of_nat_abs_div using False by (simp add: abs_word_zero)
  have nz: "sint divisor \<noteq> 0" using False by (simp add: signed_eq_0_iff)
  show ?thesis
  proof (cases "sint dividend < 0")
    case True
    then have "abs_word dividend = - dividend" by (simp add: abs_word_def)
    then show ?thesis using d True False nz unfolding div_s64_rem_def by (auto simp: sgn_if)
  next
    case 2: False
    then have "abs_word dividend = dividend" by (simp add: abs_word_def)
    then show ?thesis using d 2 False nz unfolding div_s64_rem_def by (auto simp: sgn_if)
  qed
qed

lemma sign_shift: "signed_drop_bit 63 x = (if sint x < 0 then - 1 else 0)" for x :: u64
proof -
  have "bit x 63 \<longleftrightarrow> sint x < 0" using bit_last_iff [of x] by simp
  moreover have "signed_drop_bit 63 x = (if bit x 63 then - 1 else 0)"
    by (rule bit_word_eqI) (auto simp: bit_simps not_le)
  ultimately show ?thesis by simp
qed

lemma sint_xor_neg: "sint (x XOR y) < 0 \<longleftrightarrow> (sint x < 0) \<noteq> (sint y < 0)" for x y :: u64
  using bit_last_iff [of x] bit_last_iff [of y] bit_last_iff [of "x XOR y"] by (simp add: bit_xor_iff)

lemma div64_u64_range:
  assumes "divisor \<noteq> 0" and "unat divisor < 2 ^ 32 \<or> unat dividend div unat divisor < 2 ^ 30"
  shows "div64_u64 dividend divisor = Inr (of_nat (unat dividend div unat divisor)) \<and>
      div64_u64_rem dividend divisor = Inr (of_nat (unat dividend div unat divisor), of_nat (unat dividend mod unat divisor))"
proof (cases "(ucast (drop_bit 32 divisor) :: u32) = 0")
  case True
  then show ?thesis using assms(1) by (simp add: div64_u64_small)
next
  case False
  have "unat (ucast (drop_bit 32 divisor) :: u32) = unat divisor div 2 ^ 32"
    unfolding high_word(1) by (rule unat_of_nat_small) (use high_word(2) in simp)
  then have "\<not> unat divisor < 2 ^ 32" using False by (metis div_less unsigned_eq_0_iff)
  then show ?thesis using div64_u64_large [OF False] assms(2) by blast
qed

lemma div64_s64_spec:
  assumes "divisor \<noteq> 0" and "\<bar>sint divisor\<bar> < 2 ^ 32 \<or> \<bar>sint dividend\<bar> div \<bar>sint divisor\<bar> < 2 ^ 30"
  shows "div64_s64 dividend divisor = Inr (of_int (sgn (sint dividend) * sgn (sint divisor) * (\<bar>sint dividend\<bar> div \<bar>sint divisor\<bar>)))"
proof -
  have "unat (abs_word divisor) < 2 ^ 32 \<or> unat (abs_word dividend) div unat (abs_word divisor) < 2 ^ 30"
    using assms(2) unfolding unat_abs_word [symmetric] zdiv_int [symmetric] of_nat_less_numeral_power_cancel_iff .
  with assms(1) have d: "div64_u64 (abs_word dividend) (abs_word divisor) = Inr (of_int (\<bar>sint dividend\<bar> div \<bar>sint divisor\<bar>))"
    using div64_u64_range [of "abs_word divisor" "abs_word dividend"] unfolding abs_word_zero of_nat_abs_div by blast
  have nz: "sint divisor \<noteq> 0" using assms(1) by (simp add: signed_eq_0_iff)
  have z: "sgn (sint dividend) * q = (if sint dividend < 0 then - q else q)" if "q = \<bar>sint dividend\<bar> div \<bar>sint divisor\<bar>" for q
    using that by (auto simp: sgn_if)
  have x: "NOT w + 1 = - w" for w :: u64 by (rule minus_eq_not_plus_1 [symmetric])
  show ?thesis
    unfolding div64_s64_def d rbind_simps Let_def sign_shift sint_xor_neg
    using nz z [OF refl] by (auto simp: sgn_if x mult.commute)
qed

text \<open>The division by repeated subtraction; its counter has 32 bits and wraps around.\<close>

lemma iter_div_spec:
  assumes "divisor \<noteq> 0"
  shows "iter_div_u64_rem ret dividend divisor = Some (ret + of_nat (unat dividend div unat divisor), of_nat (unat dividend mod unat divisor))"
proof (induction "unat dividend" arbitrary: ret dividend rule: less_induct)
  case less
  let ?d = "ucast divisor :: u64"
  have D: "unat ?d = unat divisor" "0 < unat divisor" using assms by (simp_all add: unsigned_ucast_eq take_bit_nat_eq_self unat_gt_0 less_trans [OF unat_less32])
  show ?case
  proof (cases "?d \<le> dividend")
    case True
    then have le: "unat divisor \<le> unat dividend" using D by (simp add: word_le_nat_alt)
    have u: "unat (dividend - ?d) = unat dividend - unat divisor" using True D by (simp add: unat_sub)
    have "iter_div_u64_rem ret dividend divisor = iter_div_u64_rem (ret + 1) (dividend - ?d) divisor"
      using True by (subst iter_div_u64_rem.simps) simp
    also have "\<dots> = Some (ret + 1 + of_nat (unat (dividend - ?d) div unat divisor), of_nat (unat (dividend - ?d) mod unat divisor))"
      using le D(2) u by (intro less) simp
    finally show ?thesis unfolding u using le D(2) by (simp add: le_div_geq le_mod_geq)
  next
    case False
    then have "unat dividend < unat divisor" using D by (simp add: word_le_nat_alt)
    then show ?thesis using False by (subst iter_div_u64_rem.simps) simp
  qed
qed

section \<open>reciprocal\_div.c\<close>

record recip_value =
  rv_m :: u32
  rv_sh1 :: nat
  rv_sh2 :: nat

definition reciprocal_value :: "u32 \<Rightarrow> recip_value res" where
  "reciprocal_value d =
     (let l = fls (d - 1);
          m = push_bit 32 1 * (push_bit l 1 - ucast d) :: u64
      in rbind (do_div m d) (\<lambda>(r, m).
         let m = m + 1
         in Inr \<lparr>rv_m = ucast m, rv_sh1 = min l 1, rv_sh2 = l - 1\<rparr>))"

definition reciprocal_divide :: "u32 \<Rightarrow> recip_value \<Rightarrow> u32" where
  "reciprocal_divide a R =
     (let t = ucast (drop_bit 32 (ucast a * ucast (rv_m R) :: u64))
      in drop_bit (rv_sh2 R) (t + drop_bit (rv_sh1 R) (a - t)))"

text \<open>A multiplier just above \<open>2 ^ k / d\<close> divides: the error stays below one for every dividend that matters.\<close>

lemma multiplier_div:
  fixes M a d K e :: nat
  assumes "M * d = K + e" and "e * a < K" and "0 < d"
  shows "M * a div K = a div d"
proof -
  let ?q = "a div d" and ?r = "a mod d"
  have r: "?r < d" using assms(3) by simp
  have a: "a = ?q * d + ?r" by simp
  have "M * a = M * (?q * d) + M * ?r" by (subst a) (rule add_mult_distrib2)
  also have "M * (?q * d) = ?q * (K + e)" unfolding assms(1) [symmetric] by simp
  finally have m: "M * a = ?q * K + (?q * e + M * ?r)" by (simp add: add_mult_distrib2)
  have "(?q * e + M * ?r) * d = e * (?q * d) + (K + e) * ?r" unfolding assms(1) [symmetric] by (simp add: algebra_simps)
  also have "\<dots> = e * a + K * ?r" by (subst (3) a) (simp only: add_mult_distrib add_mult_distrib2 ac_simps)
  also have "\<dots> < K * Suc ?r" using assms(2) by simp
  also have "\<dots> \<le> K * d" using r by (intro mult_le_mono2) simp
  finally have "?q * e + M * ?r < K" by simp
  then show ?thesis unfolding m by simp
qed

lemma shift_bounds:
  assumes "d \<noteq> 0" and "l = fls (d - 1)"
  shows "unat d \<le> 2 ^ l" and "l \<le> 32" and "l = 0 \<longrightarrow> unat d = 1" and "0 < l \<longrightarrow> 2 ^ (l - 1) < unat d"
proof -
  have u: "unat (d - 1) = unat d - 1" using assms(1) by (simp add: unat_minus_one)
  have p: "0 < unat d" using assms(1) by (simp add: unat_gt_0)
  have "unat d \<le> 2 ^ l \<and> l \<le> 32 \<and> (l = 0 \<longrightarrow> unat d = 1) \<and> (0 < l \<longrightarrow> 2 ^ (l - 1) < unat d)"
  proof (cases "d - 1 = 0")
    case True
    then have "unat d = 1" using u p by (metis Suc_diff_1 One_nat_def unsigned_0)
    moreover have "l = 0" unfolding assms(2) True by (simp add: fls_def)
    ultimately show ?thesis by simp
  next
    case False
    from fls_bounds [OF False, folded assms(2), unfolded u] p show ?thesis by auto
  qed
  then show "unat d \<le> 2 ^ l" and "l \<le> 32" and "l = 0 \<longrightarrow> unat d = 1" and "0 < l \<longrightarrow> 2 ^ (l - 1) < unat d" by blast+
qed

text \<open>The multiplier that \<open>reciprocal_value\<close> stores, less its highest bit.\<close>

lemma reciprocal_multiplier:
  fixes D l :: nat
  assumes "0 < D" and "D \<le> 2 ^ l" and "l \<le> 32" and "l = 0 \<longrightarrow> D = 1" and "0 < l \<longrightarrow> 2 ^ (l - 1) < D"
  shows "2 ^ 32 * (2 ^ l - D) < (2 :: nat) ^ 64" and "2 ^ 32 * (2 ^ l - D) div D + 1 < 2 ^ 32"
    and "a < 2 ^ 32 \<Longrightarrow> (2 ^ 32 * (2 ^ l - D) div D + 1 + 2 ^ 32) * a div 2 ^ 32 div 2 ^ l = a div D"
proof -
  have "(2 :: nat) ^ l - D < 2 ^ 32"
    using assms(1) power_increasing [OF assms(3), of "2 :: nat"] by simp
  then show "2 ^ 32 * (2 ^ l - D) < (2 :: nat) ^ 64" by simp
  show "2 ^ 32 * (2 ^ l - D) div D + 1 < 2 ^ 32"
  proof (cases "l = 0")
    case False
    have e: "(2 :: nat) ^ l = 2 * 2 ^ (l - 1)" using False by (cases l) simp_all
    have "2 ^ (l - 1) \<le> (2 :: nat) ^ 31" using assms(3) by (intro power_increasing) auto
    moreover have "2 ^ (l - 1) < D" using assms(5) False by blast
    ultimately have "2 ^ 32 * (2 ^ l - D) < (2 ^ 32 - 1) * D" unfolding e by simp
    then show ?thesis using assms(1) by (simp add: less_mult_imp_div_less Suc_less_eq2 less_diff_conv)
  qed (use assms in simp)
  define P where "P = (2 :: nat) ^ 32 * 2 ^ l"
  define M where "M = 2 ^ 32 * (2 ^ l - D) div D + 1 + 2 ^ 32"
  have "2 ^ 32 * (2 ^ l - D) + 2 ^ 32 * D = P" using assms(2) unfolding P_def by (simp flip: add_mult_distrib2)
  then have "P div D = 2 ^ 32 * (2 ^ l - D) div D + 2 ^ 32" using assms(1) by (metis add.commute div_mult_self1 less_not_refl)
  then have "M = Suc (P div D)" by (simp add: M_def)
  then have "M * D = P + (D - P mod D)"
    using div_mult_mod_eq [of P D] mod_less_divisor [OF assms(1), of P] by (simp only: mult_Suc)
  moreover have "(D - P mod D) * a < P" if "a < 2 ^ 32"
  proof -
    have "(D - P mod D) * a \<le> 2 ^ l * a" using assms(2) by (intro mult_le_mono1) simp
    also have "\<dots> < P" using that unfolding P_def by simp
    finally show ?thesis .
  qed
  ultimately have "M * a div P = a div D" if "a < 2 ^ 32" using multiplier_div assms(1) that by blast
  then show "a < 2 ^ 32 \<Longrightarrow> (2 ^ 32 * (2 ^ l - D) div D + 1 + 2 ^ 32) * a div 2 ^ 32 div 2 ^ l = a div D"
    unfolding M_def [symmetric] P_def div_mult2_eq [symmetric] by blast
qed

lemma reciprocal_divide_words:
  fixes a m :: u32
  assumes "unat m = M" and "M < 2 ^ 32" and "R = \<lparr>rv_m = m, rv_sh1 = min l 1, rv_sh2 = l - 1\<rparr>"
  shows "reciprocal_divide a R = of_nat ((M + 2 ^ 32) * unat a div 2 ^ 32 div 2 ^ l) \<or> l = 0"
proof (cases "l = 0")
  case False
  let ?A = "unat a" and ?T = "unat a * M div 2 ^ 32"
  have "?A * M < 2 ^ 32 * 2 ^ 32" using unat_less32 [of a] assms(2) by (intro mult_strict_mono) simp_all
  then have p: "?A * M < 2 ^ 64" by simp
  have "?T \<le> ?A * 2 ^ 32 div 2 ^ 32" by (intro div_le_mono mult_le_mono2 less_imp_le assms(2))
  then have T: "?T \<le> ?A" by simp
  have w: "(ucast a * ucast m :: u64) = of_nat (?A * M)" unfolding assms(1) [symmetric] by simp
  have "(ucast (drop_bit 32 (ucast a * ucast m :: u64)) :: u32) = of_nat ?T"
    unfolding w high_word(1) unat_of_nat64 [OF p] ..
  then have "reciprocal_divide a R = drop_bit (l - 1) (of_nat ?T + drop_bit 1 (a - of_nat ?T))"
    using False unfolding reciprocal_divide_def assms(3) by (simp add: Let_def)
  also have "a - of_nat ?T = of_nat (?A - ?T)" using T by (simp add: of_nat_diff)
  also have "drop_bit 1 \<dots> = (of_nat ((?A - ?T) div 2 ^ 1) :: u32)"
    using unat_less32 [of a] by (intro drop_bit_of_nat_len) simp
  also have "of_nat ?T + \<dots> = of_nat (?T + (?A - ?T) div 2 ^ 1)" by simp
  also have "?T + (?A - ?T) div 2 ^ 1 = (?A + ?T) div 2" using T by simp
  also have "drop_bit (l - 1) (of_nat ((?A + ?T) div 2) :: u32) = of_nat ((?A + ?T) div 2 div 2 ^ (l - 1))"
    using unat_less32 [of a] T by (intro drop_bit_of_nat_len) simp
  also have "(?A + ?T) div 2 div 2 ^ (l - 1) = (?A + ?T) div 2 ^ l"
    using False by (cases l) (simp_all add: div_mult2_eq)
  also have "?A + ?T = (M + 2 ^ 32) * ?A div 2 ^ 32" by (simp add: add_mult_distrib mult.commute [of _ M])
  finally show ?thesis ..
qed simp

lemma reciprocal_exact_lemma:
  assumes "d \<noteq> 0"
  shows "\<exists>R. reciprocal_value d = Inr R \<and> (\<forall>a. reciprocal_divide a R = a div d)"
proof -
  define l where "l = fls (d - 1)"
  let ?D = "unat d"
  let ?K = "2 ^ 32 * (2 ^ l - ?D) :: nat"
  note b = shift_bounds [OF assms l_def]
  have D: "0 < ?D" using assms by (simp add: unat_gt_0)
  note m = reciprocal_multiplier [OF D b]
  have w: "push_bit 32 1 * (push_bit l 1 - ucast d) = (of_nat ?K :: u64)"
    using b(1) by (simp add: of_nat_diff push_bit_eq_mult)
  have dd: "do_div (of_nat ?K) d = Inr (of_nat (?K mod ?D), of_nat (?K div ?D))"
    unfolding do_div_spec unat_of_nat64 [OF m(1)] using assms by (simp only: if_False)
  have c: "?K div ?D + 1 < 2 ^ LENGTH(64)" using m(2) by simp
  have "(ucast (of_nat (?K div ?D) + 1 :: u64) :: u32) = of_nat (?K div ?D + 1)"
    using ucast_of_nat [OF c, where 'b = 32] by (simp only: of_nat_add of_nat_1)
  then have v: "reciprocal_value d = Inr \<lparr>rv_m = of_nat (?K div ?D + 1), rv_sh1 = min l 1, rv_sh2 = l - 1\<rparr>"
    unfolding reciprocal_value_def Let_def l_def [symmetric] w dd rbind_simps prod.case by (simp only:)
  have u: "unat (of_nat (?K div ?D + 1) :: u32) = ?K div ?D + 1" using m(2) by (intro unat_of_nat_small) simp
  have "reciprocal_divide a \<lparr>rv_m = of_nat (?K div ?D + 1), rv_sh1 = min l 1, rv_sh2 = l - 1\<rparr> = a div d" for a
  proof (cases "l = 0")
    case True
    then have "?D = 1" using b(3) by blast
    then have "d = 1" by (metis unat_1 unsigned_1 word_unat_eq_iff)
    then show ?thesis using True by (simp add: reciprocal_divide_def)
  next
    case False
    then show ?thesis
      using reciprocal_divide_words [OF u m(2) refl [of "\<lparr>rv_m = _, rv_sh1 = min l 1, rv_sh2 = l - 1\<rparr>"], of a] m(3) [OF unat_less32, of a] unfolding word_arith_nat_div by simp
  qed
  then show ?thesis using v by blast
qed

lemma lcm_ul_spec:
  assumes "lcm (unat a) (unat b) < 2 ^ 32"
  shows "unat (lcm_ul a b) = lcm (unat a) (unat b)"
proof (cases "a = 0 \<or> b = 0")
  case False
  have e: "unat a div gcd (unat a) (unat b) * unat b = lcm (unat a) (unat b)" by (simp add: lcm_nat_def dvd_div_mult)
  have "lcm_ul a b = of_nat (unat a div gcd (unat a) (unat b) * unat b)"
    using False by (simp add: lcm_ul_def word_arith_nat_div gcd_ul_spec)
  then show ?thesis unfolding e using assms by (simp add: unat_of_nat_small)
qed (auto simp: lcm_ul_def)

text \<open>
  the arithmetic helpers compute what they are named after, for every argument of 32 bits. \<open>gcd\<close> is the greatest common
  divisor, with \<open>gcd(a, 0) = a\<close>; \<open>lcm\<close> is the least common multiple as long as that fits in a word, and zero when an
  argument is zero, where \<open>lcm_not_zero\<close> falls back to the other argument. \<open>int_sqrt\<close>, which its comment calls a very rough
  approximation, is the exact integer square root: the largest number whose square does not exceed the argument.
\<close>

theorem gcd_lcm_sqrt_exact:
  "unat (gcd_ul a b) = gcd (unat a) (unat b) \<and>
   (lcm (unat a) (unat b) < 2 ^ 32 \<longrightarrow> unat (lcm_ul a b) = lcm (unat a) (unat b)) \<and>
   lcm_not_zero a 0 = a \<and> lcm_not_zero 0 b = b \<and>
   unat (int_sqrt x) * unat (int_sqrt x) \<le> unat x \<and> unat x < Suc (unat (int_sqrt x)) * Suc (unat (int_sqrt x))"
proof -
  have "lcm_not_zero a 0 = a" "lcm_not_zero 0 b = b" by (simp_all add: lcm_not_zero_def lcm_ul_def)
  then show ?thesis using gcd_ul_spec lcm_ul_spec int_sqrt_spec by blast
qed

theorem gcd_lcm_sqrt_exact_witness:
  "unat (gcd_ul 12 18) = 6 \<and> unat (lcm_ul 12 18) = 36"
proof -
  have "lcm (unat (12 :: u32)) (unat (18 :: u32)) < 2 ^ 32" by (simp add: lcm_nat_def gcd_non_0_nat)
  with gcd_lcm_sqrt_exact [of 12 18] show ?thesis
    by (simp add: lcm_nat_def gcd_non_0_nat)
qed

text \<open>
  division by multiplication. For every divisor but zero \<open>reciprocal_value\<close> returns a reciprocal, whose multiplier fits in 32 bits,
  with which \<open>reciprocal_divide\<close> computes the exact quotient of every 32-bit dividend, by one multiplication, one addition and
  shifts and without a wrap-around; a divisor of zero faults in \<open>do_div\<close>.
\<close>

theorem reciprocal_exact:
  "(case reciprocal_value d of Inl e \<Rightarrow> d = 0 \<and> e = DivByZero | Inr R \<Rightarrow> d \<noteq> 0 \<and> (\<forall>a. reciprocal_divide a R = a div d))"
proof (cases "d = 0")
  case True
  then show ?thesis by (simp add: reciprocal_value_def do_div_spec)
next
  case False
  then show ?thesis using reciprocal_exact_lemma [OF False] by auto
qed

text \<open>
  C40: the 64-bit divisions of a 32-bit machine, on words. \<open>do_div\<close>, and with it \<open>div_u64_rem\<close> and \<open>div_u64\<close>, returns the exact
  quotient and remainder for every dividend and every divisor but zero, which is a fault: the fast path, the reduction of
  the high word and the two loops of \<open>__div64_32\<close> together are division with remainder, and both loops end; the signed \<open>div_s64_rem\<close> rounds
  towards zero, and its remainder has the sign of the dividend; \<open>iter_div_u64_rem\<close> returns and gives the same, its quotient modulo
  \<open>2 ^ 32\<close>. \<open>div64_u64\<close> and
  \<open>div64_u64_rem\<close> are exact when the divisor fits in 32 bits or the quotient is below \<open>2 ^ 30\<close>. Beyond that they are not:
  the code shifts by \<open>1 + fls(high)\<close>, one bit more than the divisor needs, and for the dividend \<open>2 ^ 64 - 1\<close> and the divisor
  \<open>2 ^ 32 + 3\<close> it returns a quotient that is two too large.
\<close>

theorem div64_exact:
  "do_div n base = (if base = 0 then Inl DivByZero else Inr (of_nat (unat n mod unat base), of_nat (unat n div unat base))) \<and>
   div_u64_rem n base = (if base = 0 then Inl DivByZero else Inr (of_nat (unat n div unat base), of_nat (unat n mod unat base))) \<and>
   (base \<noteq> 0 \<longrightarrow> div_s64_rem n base =
      Inr (of_int (sgn (sint n) * sgn (sint base) * (\<bar>sint n\<bar> div \<bar>sint base\<bar>)), of_int (sgn (sint n) * (\<bar>sint n\<bar> mod \<bar>sint base\<bar>)))) \<and>
   (divisor \<noteq> 0 \<and> (unat divisor < 2 ^ 32 \<or> unat n div unat divisor < 2 ^ 30) \<longrightarrow>
      div64_u64 n divisor = Inr (of_nat (unat n div unat divisor)) \<and>
      div64_u64_rem n divisor = Inr (of_nat (unat n div unat divisor), of_nat (unat n mod unat divisor))) \<and>
   div64_u64 n 0 = Inl DivByZero \<and>
   (base \<noteq> 0 \<longrightarrow> iter_div_u64_rem 0 n base = Some (of_nat (unat n div unat base), of_nat (unat n mod unat base))) \<and>
   div64_u64 (2 ^ 64 - 1) (2 ^ 32 + 3) = Inr 4294967295 \<and> (2 ^ 64 - 1) div (2 ^ 32 + 3) = (4294967293 :: nat)"
proof -
  have "div64_u64 (2 ^ 64 - 1) (2 ^ 32 + 3) = Inr 4294967295"
    by (simp add: div64_u64_def fls_def div_u64_spec unat_drop_bit_eq)
  moreover have "(2 ^ 64 - 1) div (2 ^ 32 + 3) = (4294967293 :: nat)" by simp
  moreover have "div64_u64 n 0 = Inl DivByZero" by (simp add: div64_u64_small)
  moreover have "base \<noteq> 0 \<longrightarrow> div_s64_rem n base =
      Inr (of_int (sgn (sint n) * sgn (sint base) * (\<bar>sint n\<bar> div \<bar>sint base\<bar>)), of_int (sgn (sint n) * (\<bar>sint n\<bar> mod \<bar>sint base\<bar>)))"
    by (simp add: div_s64_rem_spec)
  moreover have "base \<noteq> 0 \<longrightarrow> iter_div_u64_rem 0 n base = Some (of_nat (unat n div unat base), of_nat (unat n mod unat base))"
    by (simp add: iter_div_spec)
  ultimately show ?thesis
    using do_div_spec [of n base] div_u64_rem_spec [of n base] div64_u64_range [of divisor n] by blast
qed

theorem div64_exact_witness:
  "div64_u64 1000000000000 (2 ^ 33) = Inr 116 \<and> do_div 1000000000000 7 = Inr (1, 142857142857)"
proof -
  have "(2 ^ 33 :: u64) \<noteq> 0 \<and> (unat (2 ^ 33 :: u64) < 2 ^ 32 \<or> unat (1000000000000 :: u64) div unat (2 ^ 33 :: u64) < 2 ^ 30)" by simp
  then have "div64_u64 1000000000000 (2 ^ 33) = Inr (of_nat (unat (1000000000000 :: u64) div unat (2 ^ 33 :: u64)))"
      "do_div 1000000000000 7 = Inr (of_nat (unat (1000000000000 :: u64) mod unat (7 :: u32)), of_nat (unat (1000000000000 :: u64) div unat (7 :: u32)))"
    using div64_exact [of 1000000000000 7 "2 ^ 33"] by simp_all
  then show ?thesis by simp
qed

end
