(* ===== verification/KSort.thy ===== *)
theory KSort
  imports KPWM_Base "HOL-Library.Multiset"
begin

text \<open>
  Sorting and searching arrays of elements of any size: \<^verbatim>\<open>lib/sort.c\<close>, \<^verbatim>\<open>lib/bsearch.c\<close>, and the exception table of
  \<^verbatim>\<open>lib/extable.c\<close> that uses the first and brings its own search. Memory is the list of bytes from the base pointer;
  an element is the slice of \<open>sz\<close> bytes at its offset, which is what the comparison function reads. The offsets of \<open>sort\<close> are
  scaled by the size, as in the code; they are exact, so the model is about arrays shorter than \<open>2 ^ 31\<close> bytes, and about offsets
  within the memory, which every theorem assumes of the array it is given.
  \<open>sort\<close> may run forever (it does for a size of zero), so its loops are partial functions and that they return is proved.
\<close>

section \<open>sort.c\<close>

type_synonym mem = "u8 list"

definition obj :: "nat \<Rightarrow> mem \<Rightarrow> nat \<Rightarrow> u8 list" where
  "obj sz m off = take sz (drop off m)"

text \<open>Both swaps take the offsets of the elements; \<open>u32_swap\<close> moves the four bytes of a word at once.\<close>

definition put_bytes :: "mem \<Rightarrow> nat \<Rightarrow> u8 list \<Rightarrow> mem" where
  "put_bytes m off bs = take off m @ bs @ drop (off + length bs) m"

definition u32_swap :: "mem \<Rightarrow> nat \<Rightarrow> nat \<Rightarrow> nat \<Rightarrow> mem" where
  "u32_swap m a b sz =
     (let t = obj 4 m a;
          m = put_bytes m a (obj 4 m b)
      in put_bytes m b t)"

fun generic_swap :: "mem \<Rightarrow> nat \<Rightarrow> nat \<Rightarrow> nat \<Rightarrow> mem" where
  "generic_swap m a b sz =
     (let t = m ! a;
          m = m[a := m ! b];
          m = m[b := t]
      in if sz - 1 > 0 then generic_swap m (a + 1) (b + 1) (sz - 1) else m)"

declare generic_swap.simps [simp del]

text \<open>The loop that lets the element at \<open>r\<close> sink in the heap of the first \<open>n\<close> bytes.\<close>

partial_function (option) sift_down ::
  "(u8 list \<Rightarrow> u8 list \<Rightarrow> int) \<Rightarrow> (mem \<Rightarrow> nat \<Rightarrow> nat \<Rightarrow> nat \<Rightarrow> mem) \<Rightarrow> nat \<Rightarrow> int \<Rightarrow> int \<Rightarrow> mem \<Rightarrow> mem option" where
  "sift_down cmp_func swap_func sz n r m =
     (if r * 2 + int sz < n then
        let c = r * 2 + int sz;
            c = (if c < n - int sz \<and> cmp_func (obj sz m (nat c)) (obj sz m (nat (c + int sz))) < 0 then c + int sz else c)
        in if cmp_func (obj sz m (nat r)) (obj sz m (nat c)) \<ge> 0 then Some m
           else sift_down cmp_func swap_func sz n c (swap_func m (nat r) (nat c) sz)
      else Some m)"

partial_function (option) heapify_loop ::
  "(u8 list \<Rightarrow> u8 list \<Rightarrow> int) \<Rightarrow> (mem \<Rightarrow> nat \<Rightarrow> nat \<Rightarrow> nat \<Rightarrow> mem) \<Rightarrow> nat \<Rightarrow> int \<Rightarrow> int \<Rightarrow> mem \<Rightarrow> mem option" where
  "heapify_loop cmp_func swap_func sz n i m =
     (if i \<ge> 0 then
        Option.bind (sift_down cmp_func swap_func sz n i m) (heapify_loop cmp_func swap_func sz n (i - int sz))
      else Some m)"

partial_function (option) sort_loop ::
  "(u8 list \<Rightarrow> u8 list \<Rightarrow> int) \<Rightarrow> (mem \<Rightarrow> nat \<Rightarrow> nat \<Rightarrow> nat \<Rightarrow> mem) \<Rightarrow> nat \<Rightarrow> int \<Rightarrow> mem \<Rightarrow> mem option" where
  "sort_loop cmp_func swap_func sz i m =
     (if i > 0 then
        let m = swap_func m 0 (nat i) sz
        in Option.bind (sift_down cmp_func swap_func sz i 0 m) (sort_loop cmp_func swap_func sz (i - int sz))
      else Some m)"

definition ksort :: "mem \<Rightarrow> nat \<Rightarrow> nat \<Rightarrow> (u8 list \<Rightarrow> u8 list \<Rightarrow> int) \<Rightarrow> (mem \<Rightarrow> nat \<Rightarrow> nat \<Rightarrow> nat \<Rightarrow> mem) option \<Rightarrow> mem option" where
  "ksort base num sz cmp_func swap_func =
     (let i = (int (num div 2) - 1) * int sz;
          n = int (num * sz);
          swap = (case swap_func of None \<Rightarrow> if sz = 4 then u32_swap else generic_swap | Some f \<Rightarrow> f)
      in Option.bind (heapify_loop cmp_func swap sz n i base) (sort_loop cmp_func swap sz (n - int sz)))"

declare sift_down.simps [code] heapify_loop.simps [code] sort_loop.simps [code]

text \<open>With elements of size zero the first loop never moves.\<close>

lemma heapify_loop_zero:
  assumes "heapify_loop cmp sw sz n i m = Some m'"
  shows "\<not> (sz = 0 \<and> 0 \<le> i)"
proof (rule heapify_loop.raw_induct [where P = "\<lambda>_ _ sz _ i _ _. \<not> (sz = 0 \<and> 0 \<le> i)", OF _ assms])
  fix loop cmp sw sz n i m m'
  assume ih: "\<And>cmp sw sz n i m m'. loop cmp sw sz n i m = Some m' \<Longrightarrow> \<not> (sz = (0 :: nat) \<and> 0 \<le> (i :: int))"
    and b: "(if 0 \<le> i then Option.bind (sift_down cmp sw sz n i m) (loop cmp sw sz n (i - int sz)) else Some m) = Some m'"
  show "\<not> (sz = 0 \<and> 0 \<le> i)"
  proof
    assume z: "sz = 0 \<and> 0 \<le> i"
    then obtain m1 where "loop cmp sw sz n (i - int sz) m1 = Some m'" using b by (auto simp: bind_eq_Some_conv)
    from ih [OF this] z show False by simp
  qed
qed

lemma ksort_size_zero: "ksort m num 0 cmp sw = None"
proof -
  have "heapify_loop cmp f 0 0 0 m = None" for f
    using heapify_loop_zero [of cmp f 0 0 0 m] by (cases "heapify_loop cmp f 0 0 0 m") auto
  then show ?thesis by (simp add: ksort_def Let_def)
qed

section \<open>bsearch.c\<close>

function bsearch_loop :: "'k \<Rightarrow> mem \<Rightarrow> nat \<Rightarrow> ('k \<Rightarrow> u8 list \<Rightarrow> int) \<Rightarrow> nat \<Rightarrow> nat \<Rightarrow> nat option" where
  "bsearch_loop key base sz cmp start fin =
     (if start < fin then
        let mid = start + (fin - start) div 2;
            result = cmp key (obj sz base (mid * sz))
        in if result < 0 then bsearch_loop key base sz cmp start mid
           else if result > 0 then bsearch_loop key base sz cmp (mid + 1) fin
           else Some (mid * sz)
      else None)"
  by pat_completeness auto
termination by (relation "measure (\<lambda>(key, base, sz, cmp, start, fin). fin - start)") auto

declare bsearch_loop.simps [simp del]

definition bsearch :: "'k \<Rightarrow> mem \<Rightarrow> nat \<Rightarrow> nat \<Rightarrow> ('k \<Rightarrow> u8 list \<Rightarrow> int) \<Rightarrow> nat option" where
  "bsearch key base num sz cmp = bsearch_loop key base sz cmp 0 num"

section \<open>The swaps\<close>

abbreviation in_slot :: "nat \<Rightarrow> nat \<Rightarrow> nat \<Rightarrow> bool" where
  "in_slot a sz k \<equiv> a \<le> k \<and> k < a + sz"

definition bytes_swapped :: "mem \<Rightarrow> nat \<Rightarrow> nat \<Rightarrow> nat \<Rightarrow> mem \<Rightarrow> bool" where
  "bytes_swapped m a b sz m' \<longleftrightarrow> length m' = length m \<and>
     (\<forall>k < length m. m' ! k = (if in_slot a sz k then m ! (b + (k - a)) else if in_slot b sz k then m ! (a + (k - b)) else m ! k))"

lemma generic_swap_bytes:
  assumes "0 < sz" and "a + sz \<le> length m" and "b + sz \<le> length m" and "a + sz \<le> b \<or> b + sz \<le> a"
  shows "bytes_swapped m a b sz (generic_swap m a b sz)"
  using assms
proof (induction sz arbitrary: m a b)
  case (Suc n)
  let ?m = "m[a := m ! b, b := m ! a]"
  have l: "a < length m" "b < length m" "a \<noteq> b" using Suc.prems by auto
  show ?case
  proof (cases "n = 0")
    case True
    then show ?thesis using l by (subst generic_swap.simps) (auto simp: bytes_swapped_def nth_list_update Let_def)
  next
    case False
    have e: "generic_swap m a b (Suc n) = generic_swap ?m (Suc a) (Suc b) n"
      using False by (subst generic_swap.simps) (simp add: Let_def)
    have "bytes_swapped ?m (Suc a) (Suc b) n (generic_swap ?m (Suc a) (Suc b) n)"
      using False Suc.prems by (intro Suc.IH) auto
    then have i: "length (generic_swap ?m (Suc a) (Suc b) n) = length m"
      "\<And>k. k < length m \<Longrightarrow> generic_swap ?m (Suc a) (Suc b) n ! k =
        (if in_slot (Suc a) n k then ?m ! (Suc b + (k - Suc a)) else if in_slot (Suc b) n k then ?m ! (Suc a + (k - Suc b)) else ?m ! k)"
      by (auto simp: bytes_swapped_def)
    have "generic_swap ?m (Suc a) (Suc b) n ! k =
        (if in_slot a (Suc n) k then m ! (b + (k - a)) else if in_slot b (Suc n) k then m ! (a + (k - b)) else m ! k)"
      if k: "k < length m" for k
    proof -
      consider "k = a" | "k = b" | "in_slot (Suc a) n k" | "in_slot (Suc b) n k"
        | "\<not> in_slot a (Suc n) k" "\<not> in_slot b (Suc n) k" by linarith
      then show ?thesis using i(2) [OF k] l Suc.prems(4) by cases (auto intro!: arg_cong [of _ _ "(!) m"])
    qed
    then show ?thesis unfolding e bytes_swapped_def using i(1) by blast
  qed
qed simp

lemma nth_put_bytes:
  "off + length bs \<le> length m \<Longrightarrow> k < length m \<Longrightarrow> put_bytes m off bs ! k = (if in_slot off (length bs) k then bs ! (k - off) else m ! k)"
  by (auto simp: put_bytes_def nth_append)

lemma length_put_bytes: "off + length bs \<le> length m \<Longrightarrow> length (put_bytes m off bs) = length m"
  by (simp add: put_bytes_def)

lemma u32_swap_bytes:
  assumes "a + 4 \<le> length m" and "b + 4 \<le> length m" and "a + 4 \<le> b \<or> b + 4 \<le> a"
  shows "bytes_swapped m a b 4 (u32_swap m a b 4)"
proof -
  have l: "length (obj 4 m a) = 4" "length (obj 4 m b) = 4" using assms by (simp_all add: obj_def)
  have n: "obj 4 m a ! i = m ! (a + i)" "obj 4 m b ! i = m ! (b + i)" if "i < 4" for i
    using that assms by (simp_all add: obj_def)
  show ?thesis
    using assms unfolding bytes_swapped_def u32_swap_def Let_def
    by (auto simp: nth_put_bytes length_put_bytes l n)
qed

text \<open>The elements of an array, and what a swap of two of them does.\<close>

abbreviation el :: "nat \<Rightarrow> mem \<Rightarrow> nat \<Rightarrow> u8 list" where
  "el sz m k \<equiv> obj sz m (k * sz)"

definition els :: "nat \<Rightarrow> nat \<Rightarrow> mem \<Rightarrow> u8 list list" where
  "els num sz m = map (el sz m) [0..<num]"

definition swap_ok :: "nat \<Rightarrow> (mem \<Rightarrow> nat \<Rightarrow> nat \<Rightarrow> nat \<Rightarrow> mem) \<Rightarrow> bool" where
  "swap_ok sz sw \<longleftrightarrow> (\<forall>m a b num. num * sz \<le> length m \<and> a < num \<and> b < num \<and> a \<noteq> b \<longrightarrow>
     (let m' = sw m (a * sz) (b * sz) sz
      in length m' = length m \<and> (\<forall>k < num. el sz m' k = (if k = a then el sz m b else if k = b then el sz m a else el sz m k)) \<and>
         drop (num * sz) m' = drop (num * sz) m))"

lemma slot_index: "j < sz \<Longrightarrow> in_slot (a * sz) sz (k * sz + j) \<longleftrightarrow> k = a" for a k j sz :: nat
proof
  assume j: "j < sz" and s: "in_slot (a * sz) sz (k * sz + j)"
  have "(k * sz + j) div sz = k" using j by simp
  moreover have "(k * sz + j) div sz = a" using s j by (intro div_nat_eqI) (auto simp: algebra_simps)
  ultimately show "k = a" by simp
qed auto

lemma slots_apart: "a \<noteq> b \<Longrightarrow> a * sz + sz \<le> b * sz \<or> b * sz + sz \<le> a * sz" for a b sz :: nat
proof -
  assume "a \<noteq> b"
  then have "Suc a \<le> b \<or> Suc b \<le> a" by auto
  then have "Suc a * sz \<le> b * sz \<or> Suc b * sz \<le> a * sz" using mult_le_mono1 by blast
  then show ?thesis by (simp only: mult_Suc add.commute)
qed

lemma slot_le: "k < num \<Longrightarrow> k * sz + sz \<le> num * sz" for k num sz :: nat
  using mult_le_mono1 [of "Suc k" num sz] by simp

lemma bytes_swapped_els:
  assumes bs: "bytes_swapped m (a * sz) (b * sz) sz m'" and ab: "num * sz \<le> length m" "a < num" "b < num" "a \<noteq> b"
  shows "length m' = length m \<and> (\<forall>k < num. el sz m' k = (if k = a then el sz m b else if k = b then el sz m a else el sz m k)) \<and>
         drop (num * sz) m' = drop (num * sz) m"
proof (intro conjI allI impI)
  show l: "length m' = length m" using bs by (simp add: bytes_swapped_def)
  have nth: "m' ! k = (if in_slot (a * sz) sz k then m ! (b * sz + (k - a * sz)) else if in_slot (b * sz) sz k then m ! (a * sz + (k - b * sz)) else m ! k)"
    if "k < length m" for k using bs that by (simp add: bytes_swapped_def)
  show "drop (num * sz) m' = drop (num * sz) m"
  proof (rule nth_equalityI)
    fix i assume "i < length (drop (num * sz) m')"
    then have i: "num * sz + i < length m" using l by simp
    have ns: "in_slot (a * sz) sz (num * sz + i) = False" "in_slot (b * sz) sz (num * sz + i) = False"
      using slot_le [OF ab(2), of sz] slot_le [OF ab(3), of sz] by auto
    have "m' ! (num * sz + i) = m ! (num * sz + i)" unfolding nth [OF i] ns by (simp only: if_False)
    then show "drop (num * sz) m' ! i = drop (num * sz) m ! i" using i l by simp
  qed (simp add: l)
  fix k assume k: "k < num"
  have len: "length (el sz m i) = sz" if "i < num" for i using slot_le [OF that, of sz] ab(1) by (simp add: obj_def)
  show "el sz m' k = (if k = a then el sz m b else if k = b then el sz m a else el sz m k)"
  proof (rule nth_equalityI)
    show "length (el sz m' k) = length (if k = a then el sz m b else if k = b then el sz m a else el sz m k)"
      using len [OF k] len [OF ab(2)] len [OF ab(3)] l by (simp add: obj_def)
    fix j assume "j < length (el sz m' k)"
    then have j: "j < sz" by (simp add: obj_def)
    have kj: "k * sz + j < length m" using slot_le [OF k, of sz] j ab(1) by linarith
    have o: "el sz m i ! j = m ! (i * sz + j)" if "i < num" for i
      using j slot_le [OF that, of sz] ab(1) by (simp add: obj_def)
    have "el sz m' k ! j = m' ! (k * sz + j)" using j l kj by (simp add: obj_def)
    then show "el sz m' k ! j = (if k = a then el sz m b else if k = b then el sz m a else el sz m k) ! j"
      unfolding nth [OF kj] slot_index [OF j] using o k ab by auto
  qed
qed

lemma swap_ok_default: "0 < sz \<Longrightarrow> swap_ok sz (if sz = 4 then u32_swap else generic_swap)"
  unfolding swap_ok_def Let_def
proof (intro allI impI bytes_swapped_els)
  fix m :: mem and a b num :: nat
  assume s: "0 < sz" and c: "num * sz \<le> length m \<and> a < num \<and> b < num \<and> a \<noteq> b"
  have l: "a * sz + sz \<le> length m" "b * sz + sz \<le> length m" "a * sz + sz \<le> b * sz \<or> b * sz + sz \<le> a * sz"
    using slot_le [of a num sz] slot_le [of b num sz] slots_apart [of a b sz] c by auto
  show "bytes_swapped m (a * sz) (b * sz) sz ((if sz = 4 then u32_swap else generic_swap) m (a * sz) (b * sz) sz)"
    using generic_swap_bytes [OF s l] u32_swap_bytes [of "a * sz" m "b * sz"] l by auto
qed auto

section \<open>Heaps\<close>

text \<open>What \<open>sort\<close> and \<open>bsearch\<close> ask of a comparison function: it is a total preorder, with the sign convention of C.\<close>

locale comparison =
  fixes cmp :: "'a \<Rightarrow> 'a \<Rightarrow> int"
  assumes cmp_flip: "cmp x y < 0 \<longleftrightarrow> 0 < cmp y x"
    and cmp_trans: "cmp x y \<le> 0 \<Longrightarrow> cmp y z \<le> 0 \<Longrightarrow> cmp x z \<le> 0"

definition kids :: "nat \<Rightarrow> nat set" where
  "kids k = {2 * k + 1, 2 * k + 2}"

definition heap_at :: "('a \<Rightarrow> 'a \<Rightarrow> int) \<Rightarrow> (nat \<Rightarrow> 'a) \<Rightarrow> nat \<Rightarrow> nat \<Rightarrow> bool" where
  "heap_at cmp f n k \<longleftrightarrow> (\<forall>c \<in> kids k. c < n \<longrightarrow> cmp (f k) (f c) \<ge> 0)"

text \<open>The heap above \<open>lo\<close> while the element at \<open>r\<close> sinks: every other node is in order, and the parent of \<open>r\<close> is in order
  with the children of \<open>r\<close>.\<close>

definition sinking :: "('a \<Rightarrow> 'a \<Rightarrow> int) \<Rightarrow> (nat \<Rightarrow> 'a) \<Rightarrow> nat \<Rightarrow> nat \<Rightarrow> nat \<Rightarrow> bool" where
  "sinking cmp f lo n r \<longleftrightarrow> (\<forall>k \<ge> lo. k \<noteq> r \<longrightarrow> heap_at cmp f n k) \<and>
     (\<forall>p \<ge> lo. r \<in> kids p \<longrightarrow> (\<forall>c \<in> kids r. c < n \<longrightarrow> cmp (f p) (f c) \<ge> 0))"

lemma kids_less: "c \<in> kids k \<Longrightarrow> k < c"
  by (auto simp: kids_def)

lemma kids_inj: "c \<in> kids k \<Longrightarrow> c \<in> kids j \<Longrightarrow> k = j"
  by (auto simp: kids_def)

lemma parent_kids: "0 < k \<Longrightarrow> k \<in> kids ((k - 1) div 2)"
  by (auto simp: kids_def)

context comparison
begin

lemma cmp_ge: "cmp x y \<ge> 0 \<longleftrightarrow> cmp y x \<le> 0"
  using cmp_flip [of x y] by linarith

lemma cmp_ge_trans: "cmp x y \<ge> 0 \<Longrightarrow> cmp y z \<ge> 0 \<Longrightarrow> cmp x z \<ge> 0"
  unfolding cmp_ge using cmp_trans by blast

lemma cmp_refl: "cmp x x = 0"
  using cmp_flip [of x x] by linarith

lemma cmp_total: "cmp x y \<le> 0 \<or> cmp y x \<le> 0"
  using cmp_flip [of x y] by linarith

lemma heap_root:
  assumes "\<And>k. heap_at cmp f n k"
  shows "k < n \<Longrightarrow> cmp (f 0) (f k) \<ge> 0"
proof (induction k rule: less_induct)
  case (less k)
  show ?case
  proof (cases "k = 0")
    case False
    let ?p = "(k - 1) div 2"
    have p: "k \<in> kids ?p" "?p < k" using parent_kids [of k] kids_less False by auto
    then have "cmp (f ?p) (f k) \<ge> 0" using assms [of ?p] less.prems by (auto simp: heap_at_def)
    moreover have "cmp (f 0) (f ?p) \<ge> 0" using less p by simp
    ultimately show ?thesis using cmp_ge_trans by blast
  qed (simp add: cmp_refl)
qed

lemma sinking_step:
  assumes s: "sinking cmp f lo n r" and r: "lo \<le> r" "r < n" and c: "c \<in> kids r" "c < n"
    and max: "\<And>d. d \<in> kids r \<Longrightarrow> d < n \<Longrightarrow> cmp (f c) (f d) \<ge> 0" and less: "cmp (f r) (f c) < 0"
    and f': "\<And>k. k < n \<Longrightarrow> f' k = (if k = r then f c else if k = c then f r else f k)"
  shows "sinking cmp f' lo n c"
proof -
  have rc: "r < c" using kids_less [OF c(1)] .
  have fr: "f' r = f c" "f' c = f r" using f' r c rc by auto
  have k_ok: "heap_at cmp f n k" if "lo \<le> k" "k \<noteq> r" for k using s that by (simp add: sinking_def)
  have par: "cmp (f p) (f d) \<ge> 0" if "lo \<le> p" "r \<in> kids p" "d \<in> kids r" "d < n" for p d using s that by (simp add: sinking_def)
  have "heap_at cmp f' n k" if k: "lo \<le> k" "k \<noteq> c" for k
    unfolding heap_at_def
  proof (intro ballI impI)
    fix d assume d: "d \<in> kids k" "d < n"
    have kn: "k < n" using kids_less [OF d(1)] d(2) by simp
    show "cmp (f' k) (f' d) \<ge> 0"
    proof (cases "k = r")
      case True
      then have "d \<noteq> r" using kids_less [OF d(1)] by simp
      then show ?thesis using True fr f' [OF d(2)] max [of d] d less cmp_flip [of "f r" "f c"] by auto
    next
      case False
      then have kf: "f' k = f k" using f' [OF kn] k(2) by simp
      have "d \<noteq> c" using False kids_inj [OF c(1)] d(1) by blast
      then have "f' d = (if d = r then f c else f d)" using f' [OF d(2)] by simp
      then show ?thesis using par [OF k(1) _ c] k_ok [OF k(1) False] d kf by (auto simp: heap_at_def)
    qed
  qed
  moreover have "cmp (f' p) (f' d) \<ge> 0" if p: "lo \<le> p" "c \<in> kids p" and d: "d \<in> kids c" "d < n" for p d
  proof -
    have "p = r" using kids_inj [OF p(2) c(1)] .
    moreover have "d \<noteq> r" "d \<noteq> c" using kids_less [OF d(1)] rc by auto
    moreover have "heap_at cmp f n c" using k_ok [of c] r rc by simp
    ultimately show ?thesis using fr f' [OF d(2)] d by (auto simp: heap_at_def)
  qed
  ultimately show ?thesis by (simp add: sinking_def)
qed

end

text \<open>Exchanging two elements keeps the multiset of the elements.\<close>

lemma mset_exchange:
  assumes "a < num" and "b < num" and f': "\<And>k. k < num \<Longrightarrow> f' k = (if k = a then f b else if k = b then f a else f k)"
  shows "mset (map f' [0..<num]) = mset (map f [0..<num])"
proof -
  let ?l = "map f [0..<num]"
  have "map f' [0..<num] = ?l[a := ?l ! b, b := ?l ! a]"
    using assms by (intro nth_equalityI) (auto simp: nth_list_update)
  then show ?thesis using mset_swap [of a ?l b] mset_swap [of b ?l a] assms by simp
qed

text \<open>The larger child, in units of elements.\<close>

definition kid :: "(u8 list \<Rightarrow> u8 list \<Rightarrow> int) \<Rightarrow> nat \<Rightarrow> nat \<Rightarrow> nat \<Rightarrow> mem \<Rightarrow> nat" where
  "kid cmp sz n r m = (if 2 * r + 2 < n \<and> cmp (el sz m (2 * r + 1)) (el sz m (2 * r + 2)) < 0 then 2 * r + 2 else 2 * r + 1)"

text \<open>An element size, a comparison function and a swap function that fit together.\<close>

locale array_sort = comparison cmp for cmp :: "u8 list \<Rightarrow> u8 list \<Rightarrow> int" +
  fixes sw :: "mem \<Rightarrow> nat \<Rightarrow> nat \<Rightarrow> nat \<Rightarrow> mem" and sz :: nat
  assumes sz_pos: "0 < sz" and swaps: "swap_ok sz sw"
begin

lemma swap_view:
  assumes "num * sz \<le> length m" and "a < num" and "b < num" and "a \<noteq> b"
  shows "length (sw m (a * sz) (b * sz) sz) = length m"
    and "\<And>k. k < num \<Longrightarrow> el sz (sw m (a * sz) (b * sz) sz) k = (if k = a then el sz m b else if k = b then el sz m a else el sz m k)"
    and "drop (num * sz) (sw m (a * sz) (b * sz) sz) = drop (num * sz) m"
    and "mset (els num sz (sw m (a * sz) (b * sz) sz)) = mset (els num sz m)"
proof -
  show l: "length (sw m (a * sz) (b * sz) sz) = length m"
    and v: "\<And>k. k < num \<Longrightarrow> el sz (sw m (a * sz) (b * sz) sz) k = (if k = a then el sz m b else if k = b then el sz m a else el sz m k)"
    and "drop (num * sz) (sw m (a * sz) (b * sz) sz) = drop (num * sz) m"
    using swaps assms by (simp_all add: swap_ok_def Let_def)
  show "mset (els num sz (sw m (a * sz) (b * sz) sz)) = mset (els num sz m)"
    unfolding els_def using assms(2,3) v by (rule mset_exchange)
qed

lemma kid_max:
  assumes "2 * r + 1 < n"
  shows "kid cmp sz n r m \<in> kids r" and "kid cmp sz n r m < n" and "d \<in> kids r \<Longrightarrow> d < n \<Longrightarrow> cmp (el sz m (kid cmp sz n r m)) (el sz m d) \<ge> 0"
  using assms cmp_flip [of "el sz m (2 * r + 1)" "el sz m (2 * r + 2)"] by (auto simp: kid_def kids_def cmp_refl)

lemma sift_down_unfold:
  "sift_down cmp sw sz (int (n * sz)) (int (r * sz)) m =
     (if 2 * r + 1 < n then
        if cmp (el sz m r) (el sz m (kid cmp sz n r m)) \<ge> 0 then Some m
        else sift_down cmp sw sz (int (n * sz)) (int (kid cmp sz n r m * sz)) (sw m (r * sz) (kid cmp sz n r m * sz) sz)
      else Some m)"
proof -
  have c: "int (r * sz) * 2 + int sz = int ((2 * r + 1) * sz)" "int ((2 * r + 1) * sz) + int sz = int ((2 * r + 2) * sz)"
    by (simp_all add: algebra_simps)
  have "int ((2 * r + 1) * sz) < int (n * sz) - int sz \<longleftrightarrow> int ((2 * r + 1) * sz) + int sz < int (n * sz)" by linarith
  also have "\<dots> \<longleftrightarrow> 2 * r + 2 < n" unfolding c(2) of_nat_less_iff mult_less_cancel2 using sz_pos by simp
  finally have l: "int ((2 * r + 1) * sz) < int (n * sz) - int sz \<longleftrightarrow> 2 * r + 2 < n" .
  have g: "int ((2 * r + 1) * sz) < int (n * sz) \<longleftrightarrow> 2 * r + 1 < n" unfolding of_nat_less_iff mult_less_cancel2 using sz_pos by simp
  have k: "(if 2 * r + 2 < n \<and> cmp (el sz m (2 * r + 1)) (el sz m (2 * r + 2)) < 0 then int ((2 * r + 2) * sz) else int ((2 * r + 1) * sz)) =
      int (kid cmp sz n r m * sz)" by (simp only: kid_def if_distrib [of "\<lambda>x. int (x * sz)"])
  show ?thesis
    by (subst sift_down.simps) (simp only: c l g k Let_def nat_int)
qed

lemma sift_down_heap:
  assumes "num * sz \<le> length m" and "n \<le> num" and "lo \<le> r" and "r < n \<or> n = 0" and "sinking cmp (el sz m) lo n r"
  shows "\<exists>m'. sift_down cmp sw sz (int (n * sz)) (int (r * sz)) m = Some m' \<and> length m' = length m \<and>
    drop (num * sz) m' = drop (num * sz) m \<and> mset (els num sz m') = mset (els num sz m) \<and>
    (\<forall>k \<ge> lo. heap_at cmp (el sz m') n k) \<and> (\<forall>k < num. n \<le> k \<longrightarrow> el sz m' k = el sz m k) \<and>
    (\<forall>k < n. \<exists>j < n. el sz m' k = el sz m j)"
  using assms
proof (induction "n - r" arbitrary: r m rule: less_induct)
  case less
  let ?c = "kid cmp sz n r m"
  show ?case
  proof (cases "2 * r + 1 < n \<and> cmp (el sz m r) (el sz m ?c) < 0")
    case False
    have "heap_at cmp (el sz m) n r"
      unfolding heap_at_def
    proof (intro ballI impI)
      fix d assume d: "d \<in> kids r" "d < n"
      then have l: "2 * r + 1 < n" by (auto simp: kids_def)
      then have "cmp (el sz m r) (el sz m ?c) \<ge> 0" using False by simp
      then show "cmp (el sz m r) (el sz m d) \<ge> 0" using kid_max(3) [OF l d] cmp_ge_trans by blast
    qed
    then have "\<forall>k \<ge> lo. heap_at cmp (el sz m) n k" using less.prems(5) by (auto simp: sinking_def)
    moreover have "sift_down cmp sw sz (int (n * sz)) (int (r * sz)) m = Some m" using False by (subst sift_down_unfold) auto
    ultimately show ?thesis by blast
  next
    case True
    then have l: "2 * r + 1 < n" and lt: "cmp (el sz m r) (el sz m ?c) < 0" by auto
    note c = kid_max [OF l, where m = m]
    have rc: "r < ?c" using kids_less [OF c(1)] .
    let ?m = "sw m (r * sz) (?c * sz) sz"
    have rn: "r < num" "?c < num" "r \<noteq> ?c" using c(2) rc less.prems(2) by auto
    note v = swap_view [OF less.prems(1) rn]
    have "sinking cmp (el sz ?m) lo n ?c"
      using v(2) less.prems(2) rc c(2) by (intro sinking_step [OF less.prems(5,3) _ c lt]) auto
    moreover have "n - ?c < n - r" using rc c(2) by simp
    ultimately obtain m' where m': "sift_down cmp sw sz (int (n * sz)) (int (?c * sz)) ?m = Some m'" "length m' = length ?m"
      "drop (num * sz) m' = drop (num * sz) ?m" "mset (els num sz m') = mset (els num sz ?m)"
      "\<forall>k \<ge> lo. heap_at cmp (el sz m') n k" "\<forall>k < num. n \<le> k \<longrightarrow> el sz m' k = el sz ?m k" "\<forall>k < n. \<exists>j < n. el sz m' k = el sz ?m j"
      using less.hyps [of ?c ?m] less.prems(1,2,3) v(1) rc c(2) by auto
    have "sift_down cmp sw sz (int (n * sz)) (int (r * sz)) m = Some m'" using True m'(1) by (subst sift_down_unfold) auto
    moreover have "\<forall>k < num. n \<le> k \<longrightarrow> el sz m' k = el sz m k" using m'(6) v(2) rc c(2) by auto
    moreover have "\<forall>k < n. \<exists>j < n. el sz m' k = el sz m j"
    proof (intro allI impI)
      fix k assume "k < n"
      then obtain j where j: "j < n" "el sz m' k = el sz ?m j" using m'(7) by blast
      then have "el sz ?m j = (if j = r then el sz m ?c else if j = ?c then el sz m r else el sz m j)" using v(2) less.prems(2) by simp
      then show "\<exists>j < n. el sz m' k = el sz m j" using j rc c(2) by (metis less_trans)
    qed
    ultimately show ?thesis using m'(2-5) v(1,3,4) by auto
  qed
qed

lemma heapify_heap:
  assumes "num * sz \<le> length m" and "k \<le> num" and "\<And>j. k \<le> j \<Longrightarrow> heap_at cmp (el sz m) num j"
  shows "\<exists>m'. heapify_loop cmp sw sz (int (num * sz)) ((int k - 1) * int sz) m = Some m' \<and> length m' = length m \<and>
    drop (num * sz) m' = drop (num * sz) m \<and> mset (els num sz m') = mset (els num sz m) \<and> (\<forall>j. heap_at cmp (el sz m') num j)"
  using assms
proof (induction k arbitrary: m)
  case 0
  then show ?case using sz_pos by (subst heapify_loop.simps) auto
next
  case (Suc k)
  have "sinking cmp (el sz m) k num k" using Suc.prems(3) kids_less by (fastforce simp: sinking_def)
  with Suc.prems obtain m1 where m1: "sift_down cmp sw sz (int (num * sz)) (int (k * sz)) m = Some m1" "length m1 = length m"
    "drop (num * sz) m1 = drop (num * sz) m" "mset (els num sz m1) = mset (els num sz m)" "\<forall>j \<ge> k. heap_at cmp (el sz m1) num j"
    using sift_down_heap [OF Suc.prems(1) order_refl order_refl] by (metis Suc_le_lessD)
  have i: "(int (Suc k) - 1) * int sz = int (k * sz)" "int (k * sz) - int sz = (int k - 1) * int sz" by (simp_all add: algebra_simps)
  have "heapify_loop cmp sw sz (int (num * sz)) ((int (Suc k) - 1) * int sz) m = heapify_loop cmp sw sz (int (num * sz)) ((int k - 1) * int sz) m1"
    unfolding i(1) by (subst heapify_loop.simps) (simp add: m1(1) i(2) del: of_nat_mult)
  then show ?case using Suc.IH [of m1] Suc.prems(1,2) m1 by simp
qed

lemma sort_loop_sorts:
  assumes "num * sz \<le> length m" and "k \<le> num" and "\<And>j. heap_at cmp (el sz m) k j"
    and "\<And>j l. k \<le> j \<Longrightarrow> j < num \<Longrightarrow> l \<le> j \<Longrightarrow> cmp (el sz m l) (el sz m j) \<le> 0"
  shows "\<exists>m'. sort_loop cmp sw sz ((int k - 1) * int sz) m = Some m' \<and> length m' = length m \<and>
    drop (num * sz) m' = drop (num * sz) m \<and> mset (els num sz m') = mset (els num sz m) \<and>
    (\<forall>j < num. \<forall>l \<le> j. cmp (el sz m' l) (el sz m' j) \<le> 0)"
  using assms
proof (induction k arbitrary: m)
  case 0
  then show ?case using sz_pos by (subst sort_loop.simps) auto
next
  case (Suc k)
  show ?case
  proof (cases "k = 0")
    case True
    have "cmp (el sz m l) (el sz m j) \<le> 0" if "j < num" "l \<le> j" for j l
      using Suc.prems(4) [of j l] that True cmp_refl by (cases "j = 0") auto
    then show ?thesis using True by (subst sort_loop.simps) auto
  next
    case False
    let ?m = "sw m 0 (k * sz) sz"
    have z: "0 < num" "k < num" "0 \<noteq> k" using Suc.prems(2) False by auto
    note v = swap_view [OF Suc.prems(1) z, simplified]
    have "sinking cmp (el sz ?m) 0 k 0"
      unfolding sinking_def heap_at_def
    proof (intro conjI allI impI ballI)
      fix j c assume c: "j \<noteq> 0" "c \<in> kids j" "c < k"
      have "cmp (el sz m j) (el sz m c) \<ge> 0" using Suc.prems(3) [of j] c by (simp add: heap_at_def)
      then show "cmp (el sz ?m j) (el sz ?m c) \<ge> 0" using v(2) [of j] v(2) [of c] c kids_less [OF c(2)] Suc.prems(2) by simp
    qed (use kids_less in blast)
    then obtain m1 where m1: "sift_down cmp sw sz (int (k * sz)) (int (0 * sz)) ?m = Some m1" "length m1 = length ?m"
      "drop (num * sz) m1 = drop (num * sz) ?m" "mset (els num sz m1) = mset (els num sz ?m)" "\<forall>j \<ge> 0. heap_at cmp (el sz m1) k j"
      "\<forall>j < num. k \<le> j \<longrightarrow> el sz m1 j = el sz ?m j" "\<forall>j < k. \<exists>i < k. el sz m1 j = el sz ?m i"
      using sift_down_heap [of num ?m k 0 0] Suc.prems(1,2) v(1) False by auto
    have low: "\<exists>i \<le> k. el sz m1 l = el sz m i" if lk: "l \<le> k" for l
    proof (cases "l = k")
      case True
      then show ?thesis using m1(6) v(2) [of k] z by auto
    next
      case False
      then obtain i where "i < k" "el sz m1 l = el sz ?m i" using m1(7) lk by (metis le_neq_implies_less)
      then show ?thesis using v(2) [of i] z by (cases "i = 0") (auto intro: less_imp_le)
    qed
    have "cmp (el sz m1 l) (el sz m1 j) \<le> 0" if j: "k \<le> j" "j < num" "l \<le> j" for j l
    proof (cases "j = k")
      case True
      have "el sz m1 k = el sz m 0" using m1(6) v(2) [of k] z by simp
      moreover obtain i where "i \<le> k" "el sz m1 l = el sz m i" using low [of l] j True by blast
      moreover have "cmp (el sz m 0) (el sz m i) \<ge> 0" using heap_root [OF Suc.prems(3), of i] \<open>i \<le> k\<close> by simp
      ultimately show ?thesis using True cmp_ge by simp
    next
      case False
      then have kj: "el sz m1 j = el sz m j" using m1(6) v(2) [of j] j by simp
      have "\<exists>i \<le> j. el sz m1 l = el sz m i"
      proof (cases "l \<le> k")
        case True
        then show ?thesis using low j by (meson order_trans)
      next
        case False
        then show ?thesis using m1(6) v(2) [of l] j by auto
      qed
      then show ?thesis using Suc.prems(4) [of j] j False kj by (metis Suc_leI le_neq_implies_less)
    qed
    moreover have i: "(int (Suc k) - 1) * int sz = int (k * sz)" "int (k * sz) - int sz = (int k - 1) * int sz" by (simp_all add: algebra_simps)
    have "sort_loop cmp sw sz ((int (Suc k) - 1) * int sz) m = sort_loop cmp sw sz ((int k - 1) * int sz) m1"
      unfolding i(1) using m1(1) sz_pos False by (subst sort_loop.simps) (simp add: i(2) del: of_nat_mult)
    ultimately show ?thesis using Suc.IH [of m1] Suc.prems(1,2) m1 v by simp
  qed
qed

lemma loops_sort:
  assumes "num * sz \<le> length m"
  shows "\<exists>m'. Option.bind (heapify_loop cmp sw sz (int (num * sz)) ((int (num div 2) - 1) * int sz) m) (sort_loop cmp sw sz ((int num - 1) * int sz)) = Some m' \<and>
    length m' = length m \<and> drop (num * sz) m' = drop (num * sz) m \<and> mset (els num sz m') = mset (els num sz m) \<and>
    (\<forall>j < num. \<forall>l \<le> j. cmp (el sz m' l) (el sz m' j) \<le> 0)"
proof -
  have "heap_at cmp (el sz m) num j" if "num div 2 \<le> j" for j using that by (auto simp: heap_at_def kids_def)
  then obtain m1 where
    m1: "heapify_loop cmp sw sz (int (num * sz)) ((int (num div 2) - 1) * int sz) m = Some m1" "length m1 = length m"
    "drop (num * sz) m1 = drop (num * sz) m" "mset (els num sz m1) = mset (els num sz m)" "\<forall>j. heap_at cmp (el sz m1) num j"
    using heapify_heap [OF assms, of "num div 2"] div_le_dividend by metis
  then show ?thesis using sort_loop_sorts [of num m1 num] assms by auto
qed

end

lemma ksort_sorts:
  assumes c: "comparison cmp" and sz: "0 < sz" and l: "num * sz \<le> length m" and sw: "\<And>f. sw = Some f \<Longrightarrow> swap_ok sz f"
  shows "\<exists>m'. ksort m num sz cmp sw = Some m' \<and> length m' = length m \<and> drop (num * sz) m' = drop (num * sz) m \<and>
    mset (els num sz m') = mset (els num sz m) \<and> sorted_wrt (\<lambda>x y. cmp x y \<le> 0) (els num sz m')"
proof -
  define f where "f = (case sw of None \<Rightarrow> if sz = 4 then u32_swap else generic_swap | Some f \<Rightarrow> f)"
  have "swap_ok sz f" using swap_ok_default [OF sz] sw by (auto simp: f_def split: option.split)
  then have "array_sort cmp f sz" using c sz by (simp add: array_sort_def array_sort_axioms_def)
  from array_sort.loops_sort [OF this l] obtain m' where
    m': "Option.bind (heapify_loop cmp f sz (int (num * sz)) ((int (num div 2) - 1) * int sz) m) (sort_loop cmp f sz ((int num - 1) * int sz)) = Some m'"
      "length m' = length m" "drop (num * sz) m' = drop (num * sz) m" "mset (els num sz m') = mset (els num sz m)"
      "\<And>j l. j < num \<Longrightarrow> l \<le> j \<Longrightarrow> cmp (el sz m' l) (el sz m' j) \<le> 0" by auto
  have n: "int (num * sz) - int sz = (int num - 1) * int sz" by (simp add: algebra_simps)
  have "ksort m num sz cmp sw = Some m'" using m'(1) unfolding ksort_def Let_def f_def [symmetric] n .
  moreover have "sorted_wrt (\<lambda>x y. cmp x y \<le> 0) (els num sz m')"
    unfolding sorted_wrt_iff_nth_less els_def using m'(5) by simp
  ultimately show ?thesis using m'(2-4) by blast
qed

section \<open>Binary search\<close>

text \<open>The keys of a sorted array split it: first the elements below the key, then the equal ones, then the ones above.\<close>

lemma bsearch_loop_spec:
  assumes "fin \<le> num"
    and dn: "\<And>i j. i \<le> j \<Longrightarrow> j < num \<Longrightarrow> cmp key (el sz m i) < 0 \<Longrightarrow> cmp key (el sz m j) < 0"
    and up: "\<And>i j. i \<le> j \<Longrightarrow> j < num \<Longrightarrow> cmp key (el sz m j) > 0 \<Longrightarrow> cmp key (el sz m i) > 0"
    and out: "\<And>i. i < num \<Longrightarrow> cmp key (el sz m i) = 0 \<Longrightarrow> start \<le> i \<and> i < fin"
  shows "case bsearch_loop key m sz cmp start fin of
      None \<Rightarrow> \<forall>i < num. cmp key (el sz m i) \<noteq> 0
    | Some off \<Rightarrow> \<exists>i < num. off = i * sz \<and> cmp key (el sz m i) = 0"
  using assms(1) out
proof (induction "fin - start" arbitrary: start fin rule: less_induct)
  case less
  let ?mid = "start + (fin - start) div 2"
  let ?r = "cmp key (el sz m ?mid)"
  show ?case
  proof (cases "start < fin")
    case False
    then show ?thesis using less.prems(2) by (subst bsearch_loop.simps) fastforce
  next
    case True
    then have mid: "start \<le> ?mid" "?mid < fin" by auto
    then have mn: "?mid < num" using less.prems(1) by simp
    consider "?r < 0" | "?r > 0" | "?r = 0" by linarith
    then show ?thesis
    proof cases
      case 1
      have "start \<le> i \<and> i < ?mid" if "i < num" "cmp key (el sz m i) = 0" for i
        using dn [of ?mid i] less.prems(2) [OF that] that 1 by (metis less_irrefl linorder_not_le)
      then show ?thesis using less.hyps [of ?mid start] less.prems(1) mid True 1 by (subst bsearch_loop.simps) (simp add: Let_def)
    next
      case 2
      have "?mid + 1 \<le> i \<and> i < fin" if "i < num" "cmp key (el sz m i) = 0" for i
        using up [of i ?mid] less.prems(2) [OF that] that 2 mn by (metis Suc_eq_plus1 Suc_leI less_irrefl linorder_not_le)
      then show ?thesis using less.hyps [of fin "?mid + 1"] less.prems(1) mid True 2 by (subst bsearch_loop.simps) (simp add: Let_def)
    next
      case 3
      then show ?thesis using True mn by (subst bsearch_loop.simps) (auto simp: Let_def)
    qed
  qed
qed

section \<open>extable.c\<close>

text \<open>An entry of the exception table is eight bytes: the address of the instruction and of its fixup.\<close>

definition insn :: "u8 list \<Rightarrow> u32" where
  "insn e = ucast (e ! 0) OR push_bit 8 (ucast (e ! 1)) OR push_bit 16 (ucast (e ! 2)) OR push_bit 24 (ucast (e ! 3))"

definition sizeof_entry :: nat where
  "sizeof_entry = 8"

definition cmp_ex :: "u8 list \<Rightarrow> u8 list \<Rightarrow> int" where
  "cmp_ex x y = (if insn x > insn y then 1 else if insn x < insn y then - 1 else 0)"

definition sort_extable :: "mem \<Rightarrow> nat \<Rightarrow> mem option" where
  "sort_extable start num = ksort start num sizeof_entry cmp_ex None"

text \<open>The search on the pointers \<open>first\<close> and \<open>last\<close> (\<open>lst\<close>), in units of entries; \<open>lst\<close> may be one before the table.\<close>

function search_extable :: "mem \<Rightarrow> int \<Rightarrow> int \<Rightarrow> u32 \<Rightarrow> int option" where
  "search_extable tab first lst val =
     (if first \<le> lst then
        let mid = (lst - first) div 2 + first;
            e = el sizeof_entry tab (nat mid)
        in if insn e < val then search_extable tab (mid + 1) lst val
           else if insn e > val then search_extable tab first (mid - 1) val
           else Some mid
      else None)"
  by pat_completeness auto
termination by (relation "measure (\<lambda>(tab, first, lst, val). nat (lst - first + 1))") auto

declare search_extable.simps [simp del]

text \<open>\<open>trim_init_extable\<close>: \<open>init a\<close> says whether an address is in the init section of the module. The two fields of the module are
  the index of the first entry and the number of entries.\<close>

fun trim_front :: "(u32 \<Rightarrow> bool) \<Rightarrow> mem \<Rightarrow> nat \<Rightarrow> nat \<Rightarrow> nat \<times> nat" where
  "trim_front init tab extable 0 = (extable, 0)"
| "trim_front init tab extable (Suc num_exentries) =
     (if init (insn (el sizeof_entry tab extable)) then trim_front init tab (extable + 1) num_exentries
      else (extable, Suc num_exentries))"

fun trim_back :: "(u32 \<Rightarrow> bool) \<Rightarrow> mem \<Rightarrow> nat \<Rightarrow> nat \<Rightarrow> nat" where
  "trim_back init tab extable 0 = 0"
| "trim_back init tab extable (Suc num_exentries) =
     (if init (insn (el sizeof_entry tab (extable + num_exentries))) then trim_back init tab extable num_exentries
      else Suc num_exentries)"

definition trim_init_extable :: "(u32 \<Rightarrow> bool) \<Rightarrow> mem \<Rightarrow> nat \<Rightarrow> nat \<Rightarrow> nat \<times> nat" where
  "trim_init_extable init tab extable num_exentries =
     (let (extable, num_exentries) = trim_front init tab extable num_exentries
      in (extable, trim_back init tab extable num_exentries))"

interpretation ex: comparison cmp_ex
  by unfold_locales (auto simp: cmp_ex_def split: if_splits)

interpretation ex_sort: array_sort cmp_ex generic_swap sizeof_entry
  using swap_ok_default [of sizeof_entry] by unfold_locales (simp_all add: sizeof_entry_def)

lemma search_extable_spec:
  assumes "0 \<le> first" and "lst < int num"
    and mono: "\<And>i j. i \<le> j \<Longrightarrow> j < num \<Longrightarrow> insn (el sizeof_entry tab i) \<le> insn (el sizeof_entry tab j)"
    and out: "\<And>i. i < num \<Longrightarrow> insn (el sizeof_entry tab i) = val \<Longrightarrow> first \<le> int i \<and> int i \<le> lst"
  shows "case search_extable tab first lst val of
      None \<Rightarrow> \<forall>i < num. insn (el sizeof_entry tab i) \<noteq> val
    | Some mid \<Rightarrow> 0 \<le> mid \<and> mid < int num \<and> insn (el sizeof_entry tab (nat mid)) = val"
  using assms(1,2) out
proof (induction "nat (lst - first + 1)" arbitrary: first lst rule: less_induct)
  case less
  let ?mid = "(lst - first) div 2 + first"
  let ?e = "insn (el sizeof_entry tab (nat ?mid))"
  show ?case
  proof (cases "first \<le> lst")
    case False
    then show ?thesis using less.prems(3) by (subst search_extable.simps) fastforce
  next
    case True
    then have mid: "first \<le> ?mid" "?mid \<le> lst" by auto
    then have mn: "nat ?mid < num" "0 \<le> ?mid" using less.prems(1,2) by auto
    consider "?e < val" | "?e > val" | "?e = val" by (meson linorder_less_linear)
    then show ?thesis
    proof cases
      case 1
      have "?mid + 1 \<le> int i \<and> int i \<le> lst" if "i < num" "insn (el sizeof_entry tab i) = val" for i
        using mono [of i "nat ?mid"] less.prems(3) [OF that] that 1 mn by (metis add1_zle_eq leD le_nat_iff linorder_not_le)
      then show ?thesis using less.hyps [of lst "?mid + 1"] less.prems(1,2) mid mn True 1 by (subst search_extable.simps) (simp add: Let_def)
    next
      case 2
      have "first \<le> int i \<and> int i \<le> ?mid - 1" if "i < num" "insn (el sizeof_entry tab i) = val" for i
        using mono [of "nat ?mid" i] less.prems(3) [OF that] that 2 mn by (metis leD nat_le_iff le_diff_eq add1_zle_eq linorder_not_le)
      then show ?thesis using less.hyps [of "?mid - 1" first] less.prems(1,2) mid mn True 2
        by (subst search_extable.simps) (auto simp: Let_def)
    next
      case 3
      then show ?thesis using True mn by (subst search_extable.simps) (simp add: Let_def nat_less_iff)
    qed
  qed
qed

lemma trim_front_spec:
  "trim_front init tab x n = (x', n') \<Longrightarrow> x \<le> x' \<and> x' + n' = x + n \<and> (\<forall>i. x \<le> i \<and> i < x' \<longrightarrow> init (insn (el sizeof_entry tab i))) \<and>
     (0 < n' \<longrightarrow> \<not> init (insn (el sizeof_entry tab x')))"
proof (induction init tab x n arbitrary: x' n' rule: trim_front.induct)
  case (2 init tab x n)
  show ?case
  proof (cases "init (insn (el sizeof_entry tab x))")
    case True
    then have "trim_front init tab (x + 1) n = (x', n')" using "2.prems" by simp
    from "2.IH" [OF True this] have i: "x + 1 \<le> x'" "x' + n' = x + 1 + n" "\<forall>i. x + 1 \<le> i \<and> i < x' \<longrightarrow> init (insn (el sizeof_entry tab i))"
      "0 < n' \<longrightarrow> \<not> init (insn (el sizeof_entry tab x'))" by auto
    have "init (insn (el sizeof_entry tab j))" if "x \<le> j" "j < x'" for j
      using i(3) True that by (cases "j = x") auto
    then show ?thesis using i by auto
  qed (use "2.prems" in auto)
qed auto

lemma trim_back_spec:
  "trim_back init tab x n \<le> n \<and> (\<forall>i. x + trim_back init tab x n \<le> i \<and> i < x + n \<longrightarrow> init (insn (el sizeof_entry tab i))) \<and>
     (0 < trim_back init tab x n \<longrightarrow> \<not> init (insn (el sizeof_entry tab (x + trim_back init tab x n - 1))))"
  by (induction init tab x n rule: trim_back.induct) (auto simp: le_less less_Suc_eq)

lemma trim_init_extable_spec:
  assumes "trim_init_extable init t x n = (x', n')"
  shows "x \<le> x' \<and> x' + n' \<le> x + n \<and>
      (\<forall>i. x \<le> i \<and> i < x + n \<and> \<not> (x' \<le> i \<and> i < x' + n') \<longrightarrow> init (insn (el sizeof_entry t i))) \<and>
      (0 < n' \<longrightarrow> \<not> init (insn (el sizeof_entry t x')) \<and> \<not> init (insn (el sizeof_entry t (x' + n' - 1))))"
proof -
  obtain k where f: "trim_front init t x n = (x', k)" and n': "n' = trim_back init t x' k"
    using assms by (auto simp: trim_init_extable_def split: prod.splits)
  note tf = trim_front_spec [OF f] and tb = trim_back_spec [of init t x' k, folded n']
  have "init (insn (el sizeof_entry t i))" if "x \<le> i" "i < x + n" "\<not> (x' \<le> i \<and> i < x' + n')" for i
    using tf tb that by (cases "i < x'") auto
  then show ?thesis using tf tb by auto
qed

section \<open>Properties\<close>

text \<open>
  C39: \<open>sort\<close> sorts. For every element size but zero and every comparison function that is a total preorder (the comparison of
  \<open>y\<close> with \<open>x\<close> has the opposite sign of that of \<open>x\<close> with \<open>y\<close>, and not being above is transitive), with the default swap or one that
  exchanges two elements, the heap sort returns; its elements are a permutation of the old ones in ascending order, and the
  bytes behind the array are not touched. \<open>bsearch\<close> with the same comparison function then returns the offset of an element that
  is equal to the key, and \<open>NULL\<close> only when there is none.
\<close>

theorem sort_bsearch:
  assumes c: "comparison cmp" and sz: "0 < sz" and l: "num * sz \<le> length m" and sw: "\<And>f. sw = Some f \<Longrightarrow> swap_ok sz f"
  shows "\<exists>m'. ksort m num sz cmp sw = Some m' \<and> length m' = length m \<and> drop (num * sz) m' = drop (num * sz) m \<and>
    mset (els num sz m') = mset (els num sz m) \<and> sorted_wrt (\<lambda>x y. cmp x y \<le> 0) (els num sz m') \<and>
    (case bsearch key m' num sz cmp of
       None \<Rightarrow> \<forall>x \<in> set (els num sz m). cmp key x \<noteq> 0
     | Some off \<Rightarrow> \<exists>i < num. off = i * sz \<and> cmp key (el sz m' i) = 0)"
proof -
  obtain m' where m': "ksort m num sz cmp sw = Some m'" "length m' = length m" "drop (num * sz) m' = drop (num * sz) m"
    "mset (els num sz m') = mset (els num sz m)" "sorted_wrt (\<lambda>x y. cmp x y \<le> 0) (els num sz m')"
    using ksort_sorts [OF assms] by blast
  have le: "cmp (el sz m' i) (el sz m' j) \<le> 0" if "i \<le> j" "j < num" for i j
  proof (cases "i = j")
    case False
    then have "i < j" using that by simp
    then show ?thesis using m'(5) that unfolding sorted_wrt_iff_nth_less els_def by simp
  qed (simp add: comparison.cmp_refl [OF c])
  note flip = comparison.cmp_flip [OF c] and trans = comparison.cmp_trans [OF c]
  have dn: "cmp key (el sz m' j) < 0" if "i \<le> j" "j < num" "cmp key (el sz m' i) < 0" for i j
  proof (rule ccontr)
    assume "\<not> cmp key (el sz m' j) < 0"
    then have "cmp (el sz m' j) key \<le> 0" using flip by (meson not_le)
    then show False using trans [OF le [OF that(1,2)]] flip that(3) by (meson not_le)
  qed
  have up: "cmp key (el sz m' i) > 0" if "i \<le> j" "j < num" "cmp key (el sz m' j) > 0" for i j
  proof (rule ccontr)
    assume "\<not> cmp key (el sz m' i) > 0"
    then have "cmp key (el sz m' j) \<le> 0" using trans [OF _ le [OF that(1,2)]] by simp
    then show False using that(3) by simp
  qed
  have "set (els num sz m) = set (els num sz m')" using m'(4) by (metis set_mset_mset)
  then have "\<forall>x \<in> set (els num sz m). cmp key x \<noteq> 0" if "\<forall>i < num. cmp key (el sz m' i) \<noteq> 0"
    using that by (auto simp: els_def)
  then show ?thesis
    using bsearch_loop_spec [of num num cmp key sz m' 0] dn up m' unfolding bsearch_def by (auto split: option.splits)
qed

theorem sort_bsearch_witness:
  "\<exists>m'. ksort [2, 0, 0, 0, 7, 0, 0, 0, 1, 0, 0, 0, 9, 0, 0, 0, 5] 2 8 cmp_ex None = Some m' \<and> drop 16 m' = [5] \<and>
     sorted_wrt (\<lambda>x y. cmp_ex x y \<le> 0) (els 2 8 m') \<and> mset (els 2 8 m') = {# [1, 0, 0, 0, 9, 0, 0, 0], [2, 0, 0, 0, 7, 0, 0, 0] #}"
proof -
  let ?m = "[2, 0, 0, 0, 7, 0, 0, 0, 1, 0, 0, 0, 9, 0, 0, 0, 5] :: mem"
  have "0 < (8 :: nat)" "2 * 8 \<le> length ?m" "\<And>f. (None :: (mem \<Rightarrow> nat \<Rightarrow> nat \<Rightarrow> nat \<Rightarrow> mem) option) = Some f \<Longrightarrow> swap_ok 8 f" by simp_all
  from sort_bsearch [OF ex.comparison_axioms this, where key = "[]"]
  have "\<exists>m'. ksort ?m 2 8 cmp_ex None = Some m' \<and> drop (2 * 8) m' = drop (2 * 8) ?m \<and>
      mset (els 2 8 m') = mset (els 2 8 ?m) \<and> sorted_wrt (\<lambda>x y. cmp_ex x y \<le> 0) (els 2 8 m')" by blast
  moreover have "mset (els 2 8 ?m) = {# [1, 0, 0, 0, 9, 0, 0, 0], [2, 0, 0, 0, 7, 0, 0, 0] #}"
    by (simp add: els_def obj_def upt_rec eval_nat_numeral)
  moreover have "drop (2 * 8) ?m = [5]" by simp
  ultimately show ?thesis by auto
qed

text \<open>
  the exception table. \<open>sort_extable\<close> returns the same entries in ascending order of their instruction addresses, compared as
  unsigned words, and \<open>search_extable\<close> on a table sorted so finds an entry for every address that has one and returns
  \<open>NULL\<close> for the others. \<open>trim_init_extable\<close> cuts entries off both ends of a table: what it cuts off refers to the init section, and
  the first and the last entry that remain do not.
\<close>

theorem extable_sort_search:
  assumes "num * sizeof_entry \<le> length tab"
  shows "(\<exists>tab'. sort_extable tab num = Some tab' \<and> mset (els num sizeof_entry tab') = mset (els num sizeof_entry tab) \<and>
    sorted (map insn (els num sizeof_entry tab')) \<and>
    (case search_extable tab' 0 (int num - 1) val of
       None \<Rightarrow> val \<notin> insn ` set (els num sizeof_entry tab)
     | Some i \<Rightarrow> 0 \<le> i \<and> i < int num \<and> insn (el sizeof_entry tab' (nat i)) = val)) \<and>
    (trim_init_extable init t x n = (x', n') \<longrightarrow> x \<le> x' \<and> x' + n' \<le> x + n \<and>
      (\<forall>i. x \<le> i \<and> i < x + n \<and> \<not> (x' \<le> i \<and> i < x' + n') \<longrightarrow> init (insn (el sizeof_entry t i))) \<and>
      (0 < n' \<longrightarrow> \<not> init (insn (el sizeof_entry t x')) \<and> \<not> init (insn (el sizeof_entry t (x' + n' - 1)))))"
proof (rule conjI)
  obtain t where t: "sort_extable tab num = Some t" "mset (els num sizeof_entry t) = mset (els num sizeof_entry tab)"
    "sorted_wrt (\<lambda>x y. cmp_ex x y \<le> 0) (els num sizeof_entry t)"
    using ksort_sorts [OF ex.comparison_axioms _ assms, of None] by (auto simp: sort_extable_def sizeof_entry_def)
  have e: "cmp_ex x y \<le> 0 \<longleftrightarrow> insn x \<le> insn y" for x y by (auto simp: cmp_ex_def)
  have s: "sorted (map insn (els num sizeof_entry t))" using t(3) by (simp add: e sorted_wrt_map)
  have mono: "insn (el sizeof_entry t i) \<le> insn (el sizeof_entry t j)" if "i \<le> j" "j < num" for i j
    using sorted_nth_mono [OF s that(1)] that by (simp add: els_def)
  have "set (els num sizeof_entry tab) = set (els num sizeof_entry t)" using t(2) by (metis set_mset_mset)
  then have "val \<notin> insn ` set (els num sizeof_entry tab)" if "\<forall>i < num. insn (el sizeof_entry t i) \<noteq> val"
    using that by (auto simp: els_def)
  then show "\<exists>tab'. sort_extable tab num = Some tab' \<and> mset (els num sizeof_entry tab') = mset (els num sizeof_entry tab) \<and>
    sorted (map insn (els num sizeof_entry tab')) \<and>
    (case search_extable tab' 0 (int num - 1) val of
       None \<Rightarrow> val \<notin> insn ` set (els num sizeof_entry tab)
     | Some i \<Rightarrow> 0 \<le> i \<and> i < int num \<and> insn (el sizeof_entry tab' (nat i)) = val)"
    using search_extable_spec [of 0 "int num - 1" num t val] mono t s by (auto split: option.splits)
qed (use trim_init_extable_spec in blast)

theorem extable_sort_search_witness:
  "\<exists>tab'. sort_extable [2, 0, 0, 0, 7, 0, 0, 0, 1, 0, 0, 0, 9, 0, 0, 0] 2 = Some tab' \<and> sorted (map insn (els 2 8 tab')) \<and>
     (\<exists>i. search_extable tab' 0 1 2 = Some i)"
proof -
  let ?m = "[2, 0, 0, 0, 7, 0, 0, 0, 1, 0, 0, 0, 9, 0, 0, 0] :: mem"
  have "2 * sizeof_entry \<le> length ?m" by (simp add: sizeof_entry_def)
  from extable_sort_search [OF this, of 2] obtain t where t: "sort_extable ?m 2 = Some t" "sorted (map insn (els 2 sizeof_entry t))"
    "case search_extable t 0 (int 2 - 1) 2 of None \<Rightarrow> 2 \<notin> insn ` set (els 2 sizeof_entry ?m)
     | Some i \<Rightarrow> 0 \<le> i \<and> i < int 2 \<and> insn (el sizeof_entry t (nat i)) = 2" by blast
  have "els 2 sizeof_entry ?m = [[2, 0, 0, 0, 7, 0, 0, 0], [1, 0, 0, 0, 9, 0, 0, 0]]"
    by (simp add: els_def obj_def sizeof_entry_def upt_rec eval_nat_numeral)
  moreover have "insn [2, 0, 0, 0, 7, 0, 0, 0] = 2" by (simp add: insn_def)
  ultimately have "2 \<in> insn ` set (els 2 sizeof_entry ?m)" by simp
  then show ?thesis using t by (auto simp: sizeof_entry_def split: option.splits)
qed

end
