(* ===== verification/Glob.thy ===== *)
theory Glob
  imports KString
begin

text \<open>
  The shell-style matcher of \<^verbatim>\<open>lib/glob.c\<close>. \<^verbatim>\<open>glob_match\<close> walks the pattern and the string with two
  pointers and remembers, in \<^verbatim>\<open>back_pat\<close> and \<^verbatim>\<open>back_str\<close>, the last \<open>*\<close> it passed and the position of the
  string that \<open>*\<close> was tried at. A pointer is the list of bytes from it to the end of its object. One
  iteration of the loop is \<open>glob_step\<close>; \<open>glob_loop n\<close> runs at most \<open>n\<close> iterations.

  The specification reads the pattern as a list of tokens and matches them by searching every split
  at a \<open>*\<close>. The code never backtracks past the last \<open>*\<close>; the theorems show that it decides the same
  relation, within the quadratic number of iterations its comment announces, except that a complemented class
  accepts the NUL at the end of the string, after which the string is read past its end.
\<close>

section \<open>The code\<close>

type_synonym glob_back = "(u8 list \<times> u8 list) option"

datatype glob_out = GReturn bool | GContinue "u8 list" "u8 list" glob_back

text \<open>One span of a class that begins with the byte \<open>a\<close>: its last byte and the pointer after it,
  or \<open>None\<close> for a malformed one.\<close>

definition glob_span :: "u8 \<Rightarrow> u8 list \<Rightarrow> (u8 \<times> u8 list) option res" where
  "glob_span a cls =
     (if a = 0 then Inr None
      else rbind (rd cls) (\<lambda>c0.
      if c0 \<noteq> 45 then Inr (Some (a, cls))
      else rbind (rd (tl cls)) (\<lambda>c1.
      if c1 = 93 then Inr (Some (a, cls))
      else if c1 = 0 then Inr None
      else Inr (Some (c1, drop 2 cls)))))"

lemma glob_span_length: "glob_span a cls = Inr (Some (b, cls')) \<Longrightarrow> length cls' \<le> length cls"
  by (auto simp: glob_span_def rbind_Inr_iff split: if_splits)

text \<open>The \<open>do\<close> loop over the spans of a class; \<open>m\<close> is \<^verbatim>\<open>match\<close>.\<close>

function glob_class :: "u8 \<Rightarrow> u8 \<Rightarrow> u8 list \<Rightarrow> bool \<Rightarrow> (bool \<times> u8 list) option res" where
  "glob_class c a cls m =
     (case glob_span a cls of
        Inl e \<Rightarrow> Inl e
      | Inr None \<Rightarrow> Inr None
      | Inr (Some (b, cls')) \<Rightarrow>
          (case cls' of
             [] \<Rightarrow> Inl OutOfBounds
           | a' # cls'' \<Rightarrow>
               let m' = (m \<or> (a \<le> c \<and> c \<le> b))
               in if a' \<noteq> 93 then glob_class c a' cls'' m' else Inr (Some (m', cls''))))"
  by pat_completeness auto
termination
  by (relation "measure (\<lambda>(c, a, cls, m). length cls)") (auto dest: glob_span_length)

declare glob_class.simps [simp del]

definition glob_backtrack :: "u8 \<Rightarrow> glob_back \<Rightarrow> glob_out" where
  "glob_backtrack c bk =
     (case bk of
        None \<Rightarrow> GReturn False
      | Some (back_pat, back_str) \<Rightarrow>
          if c = 0 then GReturn False else GContinue back_pat (tl back_str) (Some (back_pat, tl back_str)))"

definition glob_literal :: "u8 \<Rightarrow> u8 \<Rightarrow> u8 list \<Rightarrow> u8 list \<Rightarrow> glob_back \<Rightarrow> glob_out" where
  "glob_literal c d pat str bk =
     (if c = d then (if d = 0 then GReturn True else GContinue pat str bk) else glob_backtrack c bk)"

definition glob_step :: "u8 list \<Rightarrow> u8 list \<Rightarrow> glob_back \<Rightarrow> glob_out res" where
  "glob_step pat0 str0 bk =
     rbind (rd str0) (\<lambda>c. rbind (rd pat0) (\<lambda>d.
     let str = tl str0; pat = tl pat0 in
     if d = 63 then Inr (if c = 0 then GReturn False else GContinue pat str bk)
     else if d = 42 then
       rbind (rd pat) (\<lambda>e.
       Inr (if e = 0 then GReturn True else GContinue pat str0 (Some (pat, str0))))
     else if d = 91 then
       rbind (rd pat) (\<lambda>e.
       let inverted = (e = 33); cls = drop (of_bool inverted) pat in
       rbind (rd cls) (\<lambda>a.
       rbind (glob_class c a (tl cls) False) (\<lambda>r.
       Inr (case r of
              None \<Rightarrow> glob_literal c d pat str bk
            | Some (m, rest) \<Rightarrow> if m = inverted then glob_backtrack c bk else GContinue rest str bk))))
     else if d = 92 then
       rbind (rd pat) (\<lambda>d. Inr (glob_literal c d (tl pat) str bk))
     else Inr (glob_literal c d pat str bk)))"

fun glob_loop :: "nat \<Rightarrow> u8 list \<Rightarrow> u8 list \<Rightarrow> glob_back \<Rightarrow> bool res option" where
  "glob_loop 0 pat str bk = None"
| "glob_loop (Suc n) pat str bk =
     (case glob_step pat str bk of
        Inl e \<Rightarrow> Some (Inl e)
      | Inr (GReturn b) \<Rightarrow> Some (Inr b)
      | Inr (GContinue pat' str' bk') \<Rightarrow> glob_loop n pat' str' bk')"

definition glob_match :: "nat \<Rightarrow> u8 list \<Rightarrow> u8 list \<Rightarrow> bool res option" where
  "glob_match n pat str = glob_loop n pat str None"

section \<open>The self-test\<close>

text \<open>
  The self-test of the module: a byte array of tests, each the expected result as a digit and two
  NUL-terminated strings, ended by a NUL. \<open>glob_test\<close> returns what \<^verbatim>\<open>test\<close> does and, when it prints, whether
  the message is the one of a success and whether it says match.
\<close>

definition glob_tests :: "u8 list" where
  "glob_tests = concat (map (\<lambda>(e, pat, str). str_bytes e @ str_bytes pat @ [0] @ str_bytes str @ [0])
     [(''1'', ''a'', ''a''), (''0'', ''a'', ''b''), (''0'', ''a'', ''aa''), (''0'', ''a'', ''''),
      (''1'', '''', ''''), (''0'', '''', ''a''), (''1'', ''[a]'', ''a''), (''0'', ''[a]'', ''b''),
      (''0'', ''[!a]'', ''a''), (''1'', ''[!a]'', ''b''), (''1'', ''[ab]'', ''a''), (''1'', ''[ab]'', ''b''),
      (''0'', ''[ab]'', ''c''), (''1'', ''[!ab]'', ''c''), (''1'', ''[a-c]'', ''b''), (''0'', ''[a-c]'', ''d''),
      (''1'', ''[a-c-e-g]'', ''-''), (''0'', ''[a-c-e-g]'', ''d''), (''1'', ''[a-c-e-g]'', ''f''),
      (''1'', ''[]a-ceg-ik[]'', ''a''), (''1'', ''[]a-ceg-ik[]'', '']''), (''1'', ''[]a-ceg-ik[]'', ''[''),
      (''1'', ''[]a-ceg-ik[]'', ''h''), (''0'', ''[]a-ceg-ik[]'', ''f''), (''0'', ''[!]a-ceg-ik[]'', ''h''),
      (''0'', ''[!]a-ceg-ik[]'', '']''), (''1'', ''[!]a-ceg-ik[]'', ''f''), (''1'', ''?'', ''a''),
      (''0'', ''?'', ''aa''), (''0'', ''??'', ''a''), (''1'', ''?x?'', ''axb''), (''0'', ''?x?'', ''abx''),
      (''0'', ''?x?'', ''xab''), (''0'', ''*??'', ''a''), (''1'', ''*??'', ''ab''), (''1'', ''*??'', ''abc''),
      (''1'', ''*??'', ''abcd''), (''0'', ''??*'', ''a''), (''1'', ''??*'', ''ab''), (''1'', ''??*'', ''abc''),
      (''1'', ''??*'', ''abcd''), (''0'', ''?*?'', ''a''), (''1'', ''?*?'', ''ab''), (''1'', ''?*?'', ''abc''),
      (''1'', ''?*?'', ''abcd''), (''1'', ''*b'', ''b''), (''1'', ''*b'', ''ab''), (''0'', ''*b'', ''ba''),
      (''1'', ''*b'', ''bb''), (''1'', ''*b'', ''abb''), (''1'', ''*b'', ''bab''), (''1'', ''*bc'', ''abbc''),
      (''1'', ''*bc'', ''bc''), (''1'', ''*bc'', ''bbc''), (''1'', ''*bc'', ''bcbc''),
      (''1'', ''*ac*'', ''abacadaeafag''), (''1'', ''*ac*ae*ag*'', ''abacadaeafag''),
      (''1'', ''*a*b*[bc]*[ef]*g*'', ''abacadaeafag''), (''0'', ''*a*b*[ef]*[cd]*g*'', ''abacadaeafag''),
      (''1'', ''*abcd*'', ''abcabcabcabcdefg''), (''1'', ''*ab*cd*'', ''abcabcabcabcdefg''),
      (''1'', ''*abcd*abcdef*'', ''abcabcdabcdeabcdefg''), (''0'', ''*abcd*'', ''abcabcabcabcefg''),
      (''0'', ''*ab*cd*'', ''abcabcabcabcefg'')]) @ [0]"

definition glob_test :: "bool \<Rightarrow> nat \<Rightarrow> u8 list \<Rightarrow> u8 list \<Rightarrow> bool \<Rightarrow> (bool \<times> (bool \<times> bool) option) res option" where
  "glob_test verbose fuel pat str expected =
     map_option (\<lambda>r. rbind r (\<lambda>m.
       let success = (m = expected)
       in Inr (success, if \<not> success then Some (False, m) else if verbose then Some (True, m) else None)))
       (glob_match fuel pat str)"

function glob_init_loop :: "nat \<Rightarrow> u8 list \<Rightarrow> nat \<Rightarrow> nat \<Rightarrow> (nat \<times> nat) res option" where
  "glob_init_loop fuel [] successes n = Some (Inl OutOfBounds)"
| "glob_init_loop fuel (e # pat) successes n =
     (if e = 0 then Some (Inr (successes, n))
      else case strlen pat of
        Inl f \<Rightarrow> Some (Inl f)
      | Inr k \<Rightarrow>
          let str = drop (k + 1) pat in
          (case glob_test False fuel pat str (e AND 1 = 1) of
             None \<Rightarrow> None
           | Some (Inl f) \<Rightarrow> Some (Inl f)
           | Some (Inr (ok, _)) \<Rightarrow>
               (case strlen str of
                  Inl f \<Rightarrow> Some (Inl f)
                | Inr l \<Rightarrow> glob_init_loop fuel (drop (l + 1) str) (successes + of_bool ok) (n + 1))))"
  by pat_completeness auto
termination
  by (relation "measure (\<lambda>(fuel, p, successes, n). length p)") auto

text \<open>The value \<^verbatim>\<open>glob_init\<close> returns, with the counts it prints: -125 is \<^verbatim>\<open>-ECANCELED\<close>.\<close>

definition glob_init :: "nat \<Rightarrow> (int \<times> nat \<times> nat) res option" where
  "glob_init fuel =
     map_option (\<lambda>r. rbind r (\<lambda>(successes, n).
       let failed = n - successes in Inr (if failed \<noteq> 0 then - 125 else 0, successes, failed)))
       (glob_init_loop fuel glob_tests 0 0)"

text \<open>The tests on classes and single wildcards, and the ones on several asterisks, all pass.\<close>

lemma glob_selftest_classes: "glob_init_loop 60 (take 322 glob_tests @ [0]) 0 0 = Some (Inr (33, 33))"
  by code_simp

lemma glob_selftest_asterisks: "glob_init_loop 200 (drop 504 glob_tests) 0 0 = Some (Inr (9, 9))"
  by code_simp

section \<open>What a pattern means\<close>

datatype glob_tok = AnyChar | AnySeq | Exactly u8 | OneOf bool "(u8 \<times> u8) list"

text \<open>A span that begins with \<open>a\<close> is a range \<open>a-b\<close> or the single byte; the rest of the pattern follows.\<close>

definition one_span :: "u8 \<Rightarrow> u8 list \<Rightarrow> (u8 \<times> u8) \<times> u8 list" where
  "one_span a p =
     (case p of
        x # b # p' \<Rightarrow> if x = 45 \<and> b \<noteq> 93 then ((a, b), p') else ((a, a), p)
      | _ \<Rightarrow> ((a, a), p))"

lemma one_span_length: "length (snd (one_span a p)) \<le> length p"
  by (auto simp: one_span_def split: list.splits)

text \<open>The spans of a class and the pattern after its closing bracket; the first span may begin with
  that bracket. \<open>None\<close> when there is no closing bracket.\<close>

function spans :: "u8 list \<Rightarrow> ((u8 \<times> u8) list \<times> u8 list) option" where
  "spans [] = None"
| "spans (a # p) =
     (let s = fst (one_span a p); p' = snd (one_span a p)
      in if p' \<noteq> [] \<and> hd p' = 93 then Some ([s], tl p')
         else map_option (\<lambda>(ss, rest). (s # ss, rest)) (spans p'))"
  by pat_completeness auto
termination
  by (relation "measure length") (auto simp: le_imp_less_Suc one_span_length)

lemma spans_length: "spans p = Some (ss, rest) \<Longrightarrow> length rest < length p"
proof (induction p arbitrary: ss rule: spans.induct)
  case (2 a p)
  have l: "length (snd (one_span a p)) \<le> length p" by (rule one_span_length)
  show ?case
  proof (cases "snd (one_span a p) \<noteq> [] \<and> hd (snd (one_span a p)) = 93")
    case True
    with 2(2) l show ?thesis by (auto simp: Let_def)
  next
    case False
    with 2(2) obtain ss' where "spans (snd (one_span a p)) = Some (ss', rest)" by (auto simp: Let_def)
    from 2(1) [OF refl refl False this] l show ?thesis by simp
  qed
qed simp

definition class_of :: "u8 list \<Rightarrow> (glob_tok \<times> u8 list) option" where
  "class_of p =
     (let inverted = (p \<noteq> [] \<and> hd p = 33)
      in map_option (\<lambda>(ss, rest). (OneOf inverted ss, rest)) (spans (if inverted then tl p else p)))"

lemma class_of_length: "class_of p = Some (t, rest) \<Longrightarrow> length rest < length p"
  by (auto simp: class_of_def Let_def dest!: spans_length split: if_splits)

function glob_tokens :: "u8 list \<Rightarrow> glob_tok list" where
  "glob_tokens [] = []"
| "glob_tokens (d # p) =
     (if d = 63 then AnyChar # glob_tokens p
      else if d = 42 then AnySeq # glob_tokens p
      else if d = 91 then
        (case class_of p of None \<Rightarrow> Exactly d # glob_tokens p | Some (t, rest) \<Rightarrow> t # glob_tokens rest)
      else if d = 92 then (case p of [] \<Rightarrow> [] | e # p' \<Rightarrow> Exactly e # glob_tokens p')
      else Exactly d # glob_tokens p)"
  by pat_completeness auto
termination
  by (relation "measure length") (auto dest: class_of_length)

fun tok_accepts :: "glob_tok \<Rightarrow> u8 \<Rightarrow> bool" where
  "tok_accepts AnyChar c \<longleftrightarrow> True"
| "tok_accepts AnySeq c \<longleftrightarrow> False"
| "tok_accepts (Exactly d) c \<longleftrightarrow> c = d"
| "tok_accepts (OneOf inverted ss) c \<longleftrightarrow> (\<exists>(a, b) \<in> set ss. a \<le> c \<and> c \<le> b) \<noteq> inverted"

fun toks_match :: "glob_tok list \<Rightarrow> u8 list \<Rightarrow> bool" where
  "toks_match [] s \<longleftrightarrow> s = []"
| "toks_match (t # ts) s \<longleftrightarrow>
     (if t = AnySeq then (\<exists>k \<in> set [0..<Suc (length s)]. toks_match ts (drop k s))
      else s \<noteq> [] \<and> tok_accepts t (hd s) \<and> toks_match ts (tl s))"

definition glob_spec :: "u8 list \<Rightarrow> u8 list \<Rightarrow> bool" where
  "glob_spec p s \<longleftrightarrow> toks_match (glob_tokens p) s"

definition has_inverted_class :: "u8 list \<Rightarrow> bool" where
  "has_inverted_class p \<longleftrightarrow> (\<exists>t \<in> set (glob_tokens p). case t of OneOf inverted ss \<Rightarrow> inverted | _ \<Rightarrow> False)"

section \<open>The code reads the tokens of the pattern\<close>

lemma glob_span_nul:
  assumes "a \<noteq> 0" "0 \<notin> set p"
  shows "glob_span a (p @ 0 # x) =
    (if p = [45] then Inr None else Inr (Some (snd (fst (one_span a p)), snd (one_span a p) @ 0 # x)))"
  using assms by (cases p rule: remdups_adj.cases) (auto simp: glob_span_def one_span_def)

lemma one_span_fst [simp]: "fst (fst (one_span a p)) = a"
  by (auto simp: one_span_def split: list.splits)

lemma one_span_set: "set (snd (one_span a p)) \<subseteq> set p"
  by (auto simp: one_span_def split: list.splits)

lemma glob_class_zero [simp]: "glob_class c 0 cls m = Inr None"
  by (simp add: glob_class.simps glob_span_def)

definition in_spans :: "u8 \<Rightarrow> (u8 \<times> u8) list \<Rightarrow> bool" where
  "in_spans c ss \<longleftrightarrow> (\<exists>(a, b) \<in> set ss. a \<le> c \<and> c \<le> b)"

lemma in_spans_Cons [simp]: "in_spans c ((a, b) # ss) \<longleftrightarrow> (a \<le> c \<and> c \<le> b) \<or> in_spans c ss"
  by (auto simp: in_spans_def)

lemma in_spans_Nil [simp]: "\<not> in_spans c []"
  by (simp add: in_spans_def)

lemma glob_class_spans:
  "a \<noteq> 0 \<Longrightarrow> 0 \<notin> set p \<Longrightarrow>
   glob_class c a (p @ 0 # x) m =
     Inr (map_option (\<lambda>(ss, rest). (m \<or> in_spans c ss, rest @ 0 # x)) (spans (a # p)))"
proof (induction p arbitrary: a m rule: length_induct)
  case (1 p)
  note sp = glob_span_nul [OF 1(2,3), of x]
  show ?case
  proof (cases "p = [45]")
    case True
    then show ?thesis using 1(2) by (simp add: glob_class.simps glob_span_def one_span_def)
  next
    case False
    define p' where "p' = snd (one_span a p)"
    define b where "b = snd (fst (one_span a p))"
    have o: "fst (one_span a p) = (a, b)" by (metis b_def one_span_fst prod.collapse)
    have z: "0 \<notin> set p'" using 1(3) one_span_set [of a p] by (auto simp: p'_def)
    have l: "length p' \<le> length p" unfolding p'_def by (rule one_span_length)
    have sp': "glob_span a (p @ 0 # x) = Inr (Some (b, p' @ 0 # x))" using sp False by (simp add: p'_def b_def)
    show ?thesis
    proof (cases p')
      case Nil
      then show ?thesis using sp' p'_def by (simp add: glob_class.simps [of c a "p @ 0 # x"] Let_def)
    next
      case (Cons a' q)
      have sa: "spans (a # p) = (if a' = 93 then Some ([(a, b)], q) else map_option (\<lambda>(ss, rest). ((a, b) # ss, rest)) (spans (a' # q)))"
        using Cons o by (simp add: Let_def p'_def [symmetric] del: spans.simps(2) add: spans.simps(2) [of a p])
      have "glob_class c a (p @ 0 # x) m =
        (if a' \<noteq> 93 then glob_class c a' (q @ 0 # x) (m \<or> (a \<le> c \<and> c \<le> b)) else Inr (Some (m \<or> (a \<le> c \<and> c \<le> b), q @ 0 # x)))"
        using sp' Cons by (simp add: glob_class.simps [of c a "p @ 0 # x"] Let_def)
      moreover have "a' \<noteq> 0" "0 \<notin> set q" "length q < length p" using z l Cons by auto
      ultimately show ?thesis using 1(1) sa
        by (auto simp del: spans.simps simp: option.map_comp comp_def split_def intro!: option.map_cong)
    qed
  qed
qed

lemma spans_set: "spans p = Some (ss, rest) \<Longrightarrow> set rest \<subseteq> set p"
proof (induction p arbitrary: ss rule: spans.induct)
  case (2 a p)
  have l: "set (snd (one_span a p)) \<subseteq> set p" by (rule one_span_set)
  show ?case
  proof (cases "snd (one_span a p) \<noteq> [] \<and> hd (snd (one_span a p)) = 93")
    case True
    with 2(2) l show ?thesis by (auto simp: Let_def dest: list.set_sel(2))
  next
    case False
    with 2(2) obtain ss' where "spans (snd (one_span a p)) = Some (ss', rest)" by (auto simp: Let_def)
    from 2(1) [OF refl refl False this] l show ?thesis by auto
  qed
qed simp

text \<open>No span of a class holds the NUL byte.\<close>

lemma spans_not_nul: "0 \<notin> set p \<Longrightarrow> spans p = Some (ss, rest) \<Longrightarrow> \<not> in_spans 0 ss"
proof (induction p arbitrary: ss rule: spans.induct)
  case (2 a p)
  have l: "set (snd (one_span a p)) \<subseteq> set p" by (rule one_span_set)
  obtain b where o: "fst (one_span a p) = (a, b)" by (metis one_span_fst prod.collapse)
  have a: "\<not> a \<le> 0" using 2(2) by (auto simp: word_le_0_iff)
  show ?case
  proof (cases "snd (one_span a p) \<noteq> [] \<and> hd (snd (one_span a p)) = 93")
    case True
    with 2(3) a o show ?thesis by (auto simp: Let_def)
  next
    case False
    with 2(3) obtain ss' where s: "spans (snd (one_span a p)) = Some (ss', rest)" "ss = (a, b) # ss'" by (auto simp: Let_def o)
    have "0 \<notin> set (snd (one_span a p))" using 2(2) l by auto
    from 2(1) [OF refl refl False this s(1)] a s(2) show ?thesis by simp
  qed
qed simp

lemma glob_class_open:
  assumes "0 \<notin> set p"
  shows "rbind (rd (p @ 0 # x)) (\<lambda>a. rbind (glob_class c a (tl (p @ 0 # x)) False) f) =
    f (map_option (\<lambda>(ss, rest). (in_spans c ss, rest @ 0 # x)) (spans p))"
  using assms by (cases p) (auto simp: glob_class_spans simp del: spans.simps(2))

definition nul_tok :: "glob_tok \<Rightarrow> bool" where
  "nul_tok t \<longleftrightarrow> (case t of OneOf inverted ss \<Rightarrow> inverted | _ \<Rightarrow> False)"

text \<open>What one iteration does with a single-byte token: at the end of the string only a complemented
  class goes on.\<close>

definition tok_step :: "glob_tok \<Rightarrow> u8 list \<Rightarrow> u8 list \<Rightarrow> u8 list \<Rightarrow> glob_back \<Rightarrow> glob_out" where
  "tok_step t pat s y bk =
     (if s = [] then (if nul_tok t then GContinue pat y bk else GReturn False)
      else if tok_accepts t (hd s) then GContinue pat (tl s @ 0 # y) bk else glob_backtrack (hd s) bk)"

lemma glob_backtrack_zero [simp]: "glob_backtrack 0 bk = GReturn False"
  by (auto simp: glob_backtrack_def split: option.split)

lemma glob_literal_tok:
  "d \<noteq> 0 \<Longrightarrow> 0 \<notin> set s \<Longrightarrow>
   glob_literal (hd (s @ 0 # y)) d pat (tl (s @ 0 # y)) bk = tok_step (Exactly d) pat s y bk"
  by (cases s) (auto simp: glob_literal_def tok_step_def nul_tok_def)

lemma rd_nul [simp]: "rd (s @ 0 # y) = Inr (hd (s @ 0 # y))"
  by (cases s) auto

lemma glob_step_bracket:
  assumes "0 \<notin> set p" "0 \<notin> set s"
  shows "glob_step (91 # p @ 0 # x) (s @ 0 # y) bk =
    Inr (case class_of p of None \<Rightarrow> tok_step (Exactly 91) (p @ 0 # x) s y bk
         | Some (t, rest) \<Rightarrow> tok_step t (rest @ 0 # x) s y bk)"
proof -
  let ?c = "hd (s @ 0 # y)"
  let ?inv = "p \<noteq> [] \<and> hd p = 33"
  let ?q = "if ?inv then tl p else p"
  have e: "(hd (p @ 0 # x) = 33) = ?inv" by (cases p) auto
  have d: "drop (of_bool ?inv) (p @ 0 # x) = ?q @ 0 # x" by (cases p) auto
  have z: "0 \<notin> set ?q" using assms(1) by (auto dest: list.set_sel(2))
  have g: "\<And>f. rbind (rd (?q @ 0 # x)) (\<lambda>a. rbind (glob_class ?c a (tl (?q @ 0 # x)) False) f) =
    f (map_option (\<lambda>(ss, rest). (in_spans ?c ss, rest @ 0 # x)) (spans ?q))"
    by (rule glob_class_open [OF z])
  note g' = g [unfolded rd_nul rbind_simps]
  have t: "(if in_spans ?c ss = ?inv then glob_backtrack ?c bk else GContinue (rest @ 0 # x) (tl (s @ 0 # y)) bk) =
    tok_step (OneOf ?inv ss) (rest @ 0 # x) s y bk" if "spans ?q = Some (ss, rest)" for ss rest
    using spans_not_nul [OF z that] assms(2)
    by (cases s) (auto simp: tok_step_def nul_tok_def in_spans_def)
  have "glob_step (91 # p @ 0 # x) (s @ 0 # y) bk =
    Inr (case spans ?q of None \<Rightarrow> glob_literal ?c 91 (p @ 0 # x) (tl (s @ 0 # y)) bk
         | Some (ss, rest) \<Rightarrow> if in_spans ?c ss = ?inv then glob_backtrack ?c bk
             else GContinue (rest @ 0 # x) (tl (s @ 0 # y)) bk)"
    unfolding glob_step_def rd_nul rbind_simps rd_simps Let_def e d list.sel
    by (simp add: g' option.case_eq_if split_def option.map_sel del: spans.simps)
  also have "\<dots> = Inr (case class_of p of None \<Rightarrow> tok_step (Exactly 91) (p @ 0 # x) s y bk
         | Some (t, rest) \<Rightarrow> tok_step t (rest @ 0 # x) s y bk)"
    using t assms(2) by (auto simp: class_of_def Let_def glob_literal_tok simp del: spans.simps split: option.split)
  finally show ?thesis .
qed

lemma class_of_set: "class_of p = Some (t, rest) \<Longrightarrow> set rest \<subseteq> set p"
  by (auto simp: class_of_def Let_def dest!: spans_set dest: list.set_sel(2) split: if_splits)

lemma class_of_tok: "class_of p = Some (t, rest) \<Longrightarrow> t \<noteq> AnySeq"
  by (auto simp: class_of_def Let_def)

text \<open>The shapes of one iteration, by the first token of the pattern.\<close>

lemma glob_step_cases:
  assumes "0 \<notin> set p" "0 \<notin> set s"
  obtains (Finished) "glob_tokens p = []"
      "glob_step (p @ 0 # x) (s @ 0 # y) bk = Inr (if s = [] then GReturn True else glob_backtrack (hd s) bk)"
  | (Star) p' where "glob_tokens p = AnySeq # glob_tokens p'" "0 \<notin> set p'" "length p' < length p"
      "glob_step (p @ 0 # x) (s @ 0 # y) bk =
        Inr (if p' = [] then GReturn True else GContinue (p' @ 0 # x) (s @ 0 # y) (Some (p' @ 0 # x, s @ 0 # y)))"
  | (One) t p' where "glob_tokens p = t # glob_tokens p'" "t \<noteq> AnySeq" "0 \<notin> set p'" "length p' < length p"
      "glob_step (p @ 0 # x) (s @ 0 # y) bk = Inr (tok_step t (p' @ 0 # x) s y bk)"
proof (cases p)
  case Nil
  show ?thesis by (rule Finished) (use Nil assms in \<open>cases s; auto simp: glob_step_def glob_literal_def\<close>)+
next
  case (Cons d p')
  note pc = this
  have z: "0 \<notin> set p'" "d \<noteq> 0" using assms(1) Cons by auto
  have "d = 63 \<or> d = 42 \<or> d = 91 \<or> d = 92 \<or> (d \<noteq> 63 \<and> d \<noteq> 42 \<and> d \<noteq> 91 \<and> d \<noteq> 92)" by auto
  then show ?thesis
  proof (elim disjE)
    assume d: "d = 63"
    show ?thesis
      by (rule One [of AnyChar p']) (use Cons d z assms in \<open>cases s; auto simp: glob_step_def tok_step_def nul_tok_def\<close>)+
  next
    assume d: "d = 42"
    have h: "(hd (p' @ 0 # x) = 0) = (p' = [])" using z by (cases p') auto
    show ?thesis
      by (rule Star [of p']) (use Cons d z h in \<open>simp_all add: glob_step_def Let_def\<close>)
  next
    assume d: "d = 91"
    show ?thesis
    proof (cases "class_of p'")
      case None
      show ?thesis
        by (rule One [of "Exactly 91" p']) (use Cons d z None assms in \<open>simp_all add: glob_step_bracket\<close>)
    next
      case (Some a)
      obtain t rest where a: "a = (t, rest)" by force
      have c: "class_of p' = Some (t, rest)" using Some a by simp
      show ?thesis
        by (rule One [of t rest])
          (use Cons d z c assms class_of_set [OF c] class_of_length [OF c] class_of_tok [OF c] in \<open>auto simp: glob_step_bracket\<close>)
    qed
  next
    assume d: "d = 92"
    show ?thesis
    proof (cases p')
      case Nil
      show ?thesis
        by (rule Finished) (use Cons Nil d assms in \<open>cases s; auto simp: glob_step_def glob_literal_def\<close>)+
    next
      case (Cons h q)
      have "glob_step (p @ 0 # x) (s @ 0 # y) bk = Inr (tok_step (Exactly h) (q @ 0 # x) s y bk)"
        using glob_literal_tok [of h s y "q @ 0 # x" bk] pc Cons d z assms(2) by (simp add: glob_step_def)
      then show ?thesis
        by (intro One [of "Exactly h" q]) (use Cons pc d z in simp_all)
    qed
  next
    assume d: "d \<noteq> 63 \<and> d \<noteq> 42 \<and> d \<noteq> 91 \<and> d \<noteq> 92"
    have "glob_step (p @ 0 # x) (s @ 0 # y) bk = Inr (tok_step (Exactly d) (p' @ 0 # x) s y bk)"
      using glob_literal_tok [of d s y "p' @ 0 # x" bk] Cons d z assms(2) by (simp add: glob_step_def)
    then show ?thesis
      by (intro One [of "Exactly d" p']) (use Cons d z in simp_all)
  qed
qed

section \<open>One level of backtracking is enough\<close>

lemma toks_match_AnySeq [simp]: "toks_match (AnySeq # ts) s \<longleftrightarrow> (\<exists>k \<le> length s. toks_match ts (drop k s))"
  by (auto simp: less_Suc_eq_le simp del: upt_Suc)

lemma toks_match_One:
  "t \<noteq> AnySeq \<Longrightarrow> toks_match (t # ts) s \<longleftrightarrow> s \<noteq> [] \<and> tok_accepts t (hd s) \<and> toks_match ts (tl s)"
  by simp

declare toks_match.simps(2) [simp del]

lemma toks_match_singles:
  "AnySeq \<notin> set ts \<Longrightarrow>
   toks_match (ts @ us) s \<longleftrightarrow>
     length ts \<le> length s \<and> list_all2 tok_accepts ts (take (length ts) s) \<and> toks_match us (drop (length ts) s)"
proof (induction ts arbitrary: s)
  case (Cons t ts)
  have t: "t \<noteq> AnySeq" "AnySeq \<notin> set ts" using Cons.prems by auto
  show ?case
  proof (cases s)
    case Nil
    then show ?thesis using t(1) by (simp add: toks_match_One)
  next
    case (Cons c s')
    then show ?thesis using Cons.IH [OF t(2), of s'] t(1) by (auto simp: toks_match_One)
  qed
qed simp

text \<open>
  The alternatives a remembered \<open>*\<close> still offers, and the relation of the remembered pointers to the current
  ones: only single-byte tokens lie between them.
\<close>

type_synonym glob_mark = "(u8 list \<times> u8 list) option"

definition later_match :: "glob_mark \<Rightarrow> bool" where
  "later_match m \<longleftrightarrow> (case m of None \<Rightarrow> False
     | Some (bp, bs) \<Rightarrow> \<exists>k. 0 < k \<and> k \<le> length bs \<and> toks_match (glob_tokens bp) (drop k bs))"

definition mark_ok :: "nat \<Rightarrow> u8 list \<Rightarrow> u8 list \<Rightarrow> glob_mark \<Rightarrow> bool" where
  "mark_ok N p s m \<longleftrightarrow> (case m of None \<Rightarrow> True
     | Some (bp, bs) \<Rightarrow> 0 \<notin> set bp \<and> 0 \<notin> set bs \<and> length bp \<le> N \<and>
         (\<exists>ts. glob_tokens bp = ts @ glob_tokens p \<and> AnySeq \<notin> set ts \<and> length ts \<le> length bs \<and> s = drop (length ts) bs))"

definition mark_rank :: "u8 list \<Rightarrow> glob_mark \<Rightarrow> nat" where
  "mark_rank s m = (case m of None \<Rightarrow> length s | Some (bp, bs) \<Rightarrow> length bs)"

definition mark_ptrs :: "u8 list \<Rightarrow> u8 list \<Rightarrow> glob_mark \<Rightarrow> glob_back" where
  "mark_ptrs x y m = map_option (\<lambda>(bp, bs). (bp @ 0 # x, bs @ 0 # y)) m"

lemma toks_match_star_now:
  "toks_match (AnySeq # glob_tokens p) s \<longleftrightarrow> toks_match (glob_tokens p) s \<or> later_match (Some (p, s))" (is "?l \<longleftrightarrow> ?r")
proof
  assume ?l
  then obtain k where "k \<le> length s" "toks_match (glob_tokens p) (drop k s)" by auto
  then show ?r by (cases "k = 0") (auto simp: later_match_def)
next
  assume ?r
  then show ?l by (auto simp: later_match_def intro: exI [of _ 0])
qed

lemma mark_ok_step:
  assumes "mark_ok N p s m" "glob_tokens p = t # glob_tokens p'" "t \<noteq> AnySeq" "s \<noteq> []"
  shows "mark_ok N p' (tl s) m"
proof (cases m)
  case (Some a)
  obtain bp bs where a: "a = (bp, bs)" by force
  from assms Some a obtain ts where ts: "glob_tokens bp = ts @ glob_tokens p" "AnySeq \<notin> set ts"
    "length ts \<le> length bs" "s = drop (length ts) bs" by (auto simp: mark_ok_def)
  have "length ts < length bs" using ts(4) assms(4) by auto
  then show ?thesis using assms(1-3) ts Some a
    by (auto simp: mark_ok_def intro!: exI [of _ "ts @ [t]"] simp: tl_drop drop_Suc)
qed (simp add: mark_ok_def)

lemma mark_ok_star: "mark_ok N p s m \<Longrightarrow> 0 \<notin> set p' \<Longrightarrow> 0 \<notin> set s \<Longrightarrow> length p' \<le> N \<Longrightarrow> mark_ok N p' s (Some (p', s))"
  by (auto simp: mark_ok_def intro!: exI [of _ "[]"])

lemma later_match_star:
  assumes "mark_ok N p s m" "glob_tokens p = AnySeq # glob_tokens p'" "later_match m"
  shows "toks_match (glob_tokens p) s"
proof -
  from assms obtain bp bs ts k where ts: "glob_tokens bp = ts @ glob_tokens p" "AnySeq \<notin> set ts" "s = drop (length ts) bs"
    and k: "k \<le> length bs" "toks_match (ts @ glob_tokens p) (drop k bs)"
    by (auto simp: mark_ok_def later_match_def split: option.splits)
  from k(2) ts(2) have l: "length ts \<le> length bs - k" "toks_match (glob_tokens p) (drop (length ts) (drop k bs))"
    by (auto simp: toks_match_singles)
  then obtain j where j: "j \<le> length bs - k - length ts" "toks_match (glob_tokens p') (drop j (drop (length ts) (drop k bs)))"
    unfolding assms(2) toks_match_AnySeq length_drop by blast
  have "drop j (drop (length ts) (drop k bs)) = drop (j + k) s" by (simp add: ts(3) ac_simps)
  moreover have "j + k \<le> length s" using j(1) l(1) k(1) by (simp add: ts(3))
  ultimately show ?thesis using j(2) assms(2) by auto
qed

text \<open>At the end of the string, with a single-byte token left, no later start can match either.\<close>

lemma later_match_end:
  assumes "mark_ok N p [] m" "glob_tokens p = t # us" "t \<noteq> AnySeq"
  shows "\<not> later_match m"
proof
  assume "later_match m"
  then obtain bp bs ts k where h: "AnySeq \<notin> set ts" "length ts = length bs" "0 < k" "k \<le> length bs"
    "toks_match (ts @ t # us) (drop k bs)"
    using assms(1,2) unfolding mark_ok_def later_match_def by (auto split: option.splits)
  then show False by (auto simp: toks_match_singles)
qed

lemma later_match_next:
  assumes "m = Some (bp, bs)" "bs \<noteq> []"
  shows "later_match m \<longleftrightarrow> toks_match (glob_tokens bp) (tl bs) \<or> later_match (Some (bp, tl bs))" (is "_ \<longleftrightarrow> ?R")
proof
  assume "later_match m"
  then obtain k where k: "0 < k" "k \<le> length bs" "toks_match (glob_tokens bp) (drop k bs)"
    using assms by (auto simp: later_match_def)
  show ?R
  proof (cases "k = 1")
    case True
    with k show ?thesis by (simp add: drop_Suc)
  next
    case False
    with k assms(2) show ?thesis
      by (intro disjI2) (auto simp: later_match_def drop_Suc [symmetric] intro!: exI [of _ "k - 1"])
  qed
next
  assume ?R
  then show "later_match m"
  proof
    assume "toks_match (glob_tokens bp) (tl bs)"
    then show ?thesis using assms by (auto simp: later_match_def drop_Suc Suc_le_eq intro!: exI [of _ 1])
  next
    assume "later_match (Some (bp, tl bs))"
    then obtain k where "0 < k" "k \<le> length bs - 1" "toks_match (glob_tokens bp) (drop k (tl bs))"
      by (auto simp: later_match_def)
    then have "Suc k \<le> length bs" "toks_match (glob_tokens bp) (drop (Suc k) bs)"
      using assms(2) by (auto simp: drop_Suc)
    then show ?thesis unfolding assms(1) later_match_def by auto
  qed
qed

text \<open>Whether a pattern, or the one remembered, complements a class.\<close>

definition nul_in :: "u8 list \<Rightarrow> glob_mark \<Rightarrow> bool" where
  "nul_in p m \<longleftrightarrow> (\<exists>t \<in> set (glob_tokens (case m of None \<Rightarrow> p | Some (bp, bs) \<Rightarrow> bp)). nul_tok t)"

text \<open>What the loop returns from a state whose remembered pointers are in order.\<close>

definition loop_ok :: "nat \<Rightarrow> u8 list \<Rightarrow> u8 list \<Rightarrow> u8 list \<Rightarrow> u8 list \<Rightarrow> glob_mark \<Rightarrow> bool \<Rightarrow> bool" where
  "loop_ok n x y p s m neg \<longleftrightarrow>
     (let r = glob_loop n (p @ 0 # x) (s @ 0 # y) (mark_ptrs x y m);
          good = (toks_match (glob_tokens p) s \<or> later_match m)
      in r = Some (Inr good) \<or> (neg \<and> \<not> good \<and> (y = [] \<longrightarrow> r = Some (Inl OutOfBounds))))"

lemma mark_ok_nul_in:
  assumes "mark_ok N p s m" "t \<in> set (glob_tokens p)" "nul_tok t"
  shows "nul_in p m"
  using assms by (cases m) (auto simp: mark_ok_def nul_in_def intro: bexI [of _ t])

lemma loop_ok_backtrack:
  assumes IH: "\<And>p s m neg. 0 \<notin> set p \<Longrightarrow> 0 \<notin> set s \<Longrightarrow> mark_ok N p s m \<Longrightarrow> length p \<le> N \<Longrightarrow>
      mark_rank s m * Suc N + Suc (length p) \<le> n \<Longrightarrow> (nul_in p m \<longrightarrow> neg) \<Longrightarrow> loop_ok n x y p s m neg"
    and s: "0 \<notin> set s" "s \<noteq> []" and ok: "mark_ok N p s m" "mark_rank s m * Suc N + Suc (length p) \<le> Suc n"
    and no: "\<not> toks_match (glob_tokens p) s" and neg: "nul_in p m \<longrightarrow> neg"
    and step: "glob_step (p @ 0 # x) (s @ 0 # y) (mark_ptrs x y m) = Inr (glob_backtrack (hd s) (mark_ptrs x y m))"
  shows "loop_ok (Suc n) x y p s m neg"
proof (cases m)
  case None
  then show ?thesis using no step by (simp add: loop_ok_def later_match_def mark_ptrs_def glob_backtrack_def)
next
  case (Some a)
  obtain bp bs where m: "m = Some (bp, bs)" using Some by (cases a) auto
  have bs: "bs \<noteq> []" "0 \<notin> set bs" "0 \<notin> set bp" "length bp \<le> N" using ok(1) m s(2) by (auto simp: mark_ok_def)
  have z: "hd s \<noteq> 0" using s by (metis hd_in_set)
  let ?m = "Some (bp, tl bs)"
  obtain b bs' where b: "bs = b # bs'" using bs(1) by (cases bs) auto
  have "mark_rank (tl bs) ?m * Suc N + Suc (length bp) \<le> n"
    using ok(2) bs(4) by (simp add: mark_rank_def m b)
  moreover have "mark_ok N bp (tl bs) ?m" using bs by (auto simp: mark_ok_def b intro!: exI [of _ "[]"])
  moreover have "nul_in bp ?m \<longrightarrow> neg" using neg by (simp add: nul_in_def m)
  ultimately have "loop_ok n x y bp (tl bs) ?m neg" using bs by (intro IH) (auto simp: b)
  moreover have "glob_loop (Suc n) (p @ 0 # x) (s @ 0 # y) (mark_ptrs x y m) =
    glob_loop n (bp @ 0 # x) (tl bs @ 0 # y) (mark_ptrs x y ?m)"
    using step z bs(1) by (simp add: m mark_ptrs_def glob_backtrack_def b)
  ultimately show ?thesis using no later_match_next [OF m bs(1)] by (simp add: loop_ok_def Let_def)
qed

lemma glob_loop_decides:
  "0 \<notin> set p \<Longrightarrow> 0 \<notin> set s \<Longrightarrow> mark_ok N p s m \<Longrightarrow> length p \<le> N \<Longrightarrow>
   mark_rank s m * Suc N + Suc (length p) \<le> n \<Longrightarrow> (nul_in p m \<longrightarrow> neg) \<Longrightarrow> loop_ok n x y p s m neg"
proof (induction n arbitrary: p s m neg)
  case 0
  then show ?case by simp
next
  case (Suc n)
  note pz = Suc.prems(1) and sz = Suc.prems(2) and ok = Suc.prems(3) and pN = Suc.prems(4) and fuel = Suc.prems(5) and neg = Suc.prems(6)
  note bt = loop_ok_backtrack [OF Suc.IH sz _ ok fuel _ neg]
  from pz sz show ?case
  proof (cases rule: glob_step_cases [where x = x and y = y and bk = "mark_ptrs x y m"])
    case Finished
    show ?thesis
    proof (cases "s = []")
      case True
      then show ?thesis using Finished by (simp add: loop_ok_def)
    next
      case False
      then show ?thesis using Finished by (intro bt) auto
    qed
  next
    case (Star p')
    show ?thesis
    proof (cases "p' = []")
      case True
      then show ?thesis using Star by (auto simp: loop_ok_def Let_def)
    next
      case False
      let ?m = "Some (p', s)"
      have "length s \<le> mark_rank s m" using ok by (auto simp: mark_rank_def mark_ok_def split: option.splits)
      then have "length s * Suc N \<le> mark_rank s m * Suc N" by (rule mult_le_mono1)
      then have "mark_rank s ?m * Suc N + Suc (length p') \<le> n" using fuel Star(3) by (simp add: mark_rank_def)
      moreover have "mark_ok N p' s ?m" using ok Star sz pN by (intro mark_ok_star) auto
      moreover have "nul_in p' ?m \<longrightarrow> neg" using neg mark_ok_nul_in [OF ok] Star(1) by (auto simp: nul_in_def)
      ultimately have "loop_ok n x y p' s ?m neg" using Star sz pN by (intro Suc.IH) auto
      moreover have "toks_match (glob_tokens p) s \<or> later_match m \<longleftrightarrow> toks_match (glob_tokens p') s \<or> later_match ?m"
        using later_match_star [OF ok Star(1)] unfolding Star(1) toks_match_star_now by auto
      ultimately show ?thesis using Star(4) False by (simp add: loop_ok_def Let_def mark_ptrs_def)
    qed
  next
    case (One t p')
    consider (over) "s = []" | (take) "s \<noteq> []" "tok_accepts t (hd s)" | (miss) "s \<noteq> []" "\<not> tok_accepts t (hd s)" by auto
    then show ?thesis
    proof cases
      case over
      have no: "\<not> toks_match (glob_tokens p) s" "\<not> later_match m"
        using One(1,2) over later_match_end [OF _ One(1,2)] ok by (auto simp: toks_match_One)
      show ?thesis
      proof (cases "nul_tok t")
        case True
        then have neg using neg mark_ok_nul_in [OF ok _ True] One(1) by simp
        moreover have "n \<noteq> 0" using fuel One(4) by auto
        then have "y = [] \<longrightarrow> glob_loop (Suc n) (p @ 0 # x) (s @ 0 # y) (mark_ptrs x y m) = Some (Inl OutOfBounds)"
          using One(5) over True by (cases n) (auto simp: tok_step_def glob_step_def)
        ultimately show ?thesis using no by (simp add: loop_ok_def Let_def)
      next
        case False
        then show ?thesis using One(5) over no by (simp add: loop_ok_def Let_def tok_step_def)
      qed
    next
      case take
      have r: "mark_rank (tl s) m \<le> mark_rank s m" by (auto simp: mark_rank_def split: option.split)
      then have "mark_rank (tl s) m * Suc N \<le> mark_rank s m * Suc N" by (rule mult_le_mono1)
      then have "mark_rank (tl s) m * Suc N + Suc (length p') \<le> n" using fuel One(4) by simp
      moreover have ok': "mark_ok N p' (tl s) m" using mark_ok_step [OF ok One(1,2) take(1)] .
      moreover have "nul_in p' m \<longrightarrow> neg" using neg One(1) by (cases m) (auto simp: nul_in_def)
      ultimately have "loop_ok n x y p' (tl s) m neg"
        using One sz pN take by (intro Suc.IH) (auto dest: list.set_sel(2))
      then show ?thesis using One(1,2,5) take by (simp add: loop_ok_def Let_def tok_step_def toks_match_One)
    next
      case miss
      then show ?thesis using One by (intro bt) (auto simp: tok_step_def toks_match_One)
    qed
  qed
qed

section \<open>Properties\<close>

lemma nul_in_None: "nul_in p None = has_inverted_class p"
  by (simp add: nul_in_def has_inverted_class_def nul_tok_def)

lemma glob_match_loop_ok:
  assumes "0 \<notin> set p" "0 \<notin> set s" "(length p + 1) * (length s + 1) \<le> n"
  shows "loop_ok n x y p s None (has_inverted_class p)"
proof (rule glob_loop_decides [where N = "length p"])
  show "mark_rank s None * Suc (length p) + Suc (length p) \<le> n"
    using assms(3) by (simp add: mark_rank_def algebra_simps)
qed (use assms in \<open>simp_all add: mark_ok_def nul_in_None\<close>)

text \<open>
  C32: \<^verbatim>\<open>glob_match\<close> decides the pattern language. For a NUL-terminated pattern and string, it returns within
  (strlen(pat) + 1) * (strlen(str) + 1) iterations of its loop, the quadratic bound its comment states, never reads
  outside the two strings, and its result is that the tokens of the pattern (single bytes, \<open>?\<close>, classes with ranges,
  escapes, and \<open>*\<close> standing for any sequence) match the whole string, found by trying every split at every \<open>*\<close>, although the code only
  ever goes back to the last \<open>*\<close>. With a complemented class \<open>[!...]\<close> in the pattern one more outcome is possible, on
  strings that do not match: the class accepts the terminating NUL and the next iteration reads the byte after the end
  of the string.\<close>

theorem glob_match_decides:
  assumes "0 \<notin> set p" "0 \<notin> set s" "(length p + 1) * (length s + 1) \<le> n"
  shows "(\<not> has_inverted_class p \<longrightarrow> glob_match n (p @ 0 # x) (s @ 0 # y) = Some (Inr (glob_spec p s))) \<and>
    (glob_spec p s \<longrightarrow> glob_match n (p @ 0 # x) (s @ 0 # y) = Some (Inr True)) \<and>
    glob_match n (p @ 0 # x) (s @ [0]) \<in> {Some (Inr (glob_spec p s)), Some (Inl OutOfBounds)}"
  using glob_match_loop_ok [OF assms, of x y] glob_match_loop_ok [OF assms, of x "[]"]
  by (auto simp: loop_ok_def Let_def glob_match_def glob_spec_def later_match_def mark_ptrs_def)

text \<open>The pattern \<open>*ab[a-c]\<close> on the string \<open>xabab\<close> followed by \<open>b\<close>, where the first attempt at the \<open>*\<close> fails; and the
  pattern \<open>[!a]\<close>, which on the empty string reads the byte after it.\<close>

theorem glob_match_decides_witness:
  "glob_match 63 ([42, 97, 98, 91, 97, 45, 99, 93] @ 0 # []) ([120, 97, 98, 97, 98, 98] @ 0 # []) = Some (Inr True) \<and>
   has_inverted_class [91, 33, 97, 93] \<and>
   glob_match 5 ([91, 33, 97, 93] @ [0]) [0] = Some (Inl OutOfBounds)"
proof -
  have "glob_spec [42, 97, 98, 91, 97, 45, 99, 93] [120, 97, 98, 97, 98, 98]" by code_simp
  moreover have "0 \<notin> set [42, 97, 98, 91, 97, 45, 99, 93 :: u8]" "0 \<notin> set [120, 97, 98, 97, 98, 98 :: u8]" by simp_all
  ultimately have "glob_match 63 ([42, 97, 98, 91, 97, 45, 99, 93] @ 0 # []) ([120, 97, 98, 97, 98, 98] @ 0 # []) = Some (Inr True)"
    using glob_match_decides [of "[42, 97, 98, 91, 97, 45, 99, 93]" "[120, 97, 98, 97, 98, 98]" 63 "[]" "[]"] by simp
  moreover have "has_inverted_class [91, 33, 97, 93]" "glob_match 5 ([91, 33, 97, 93] @ [0]) [0] = Some (Inl OutOfBounds)"
    by code_simp+
  ultimately show ?thesis by blast
qed

end
