(* ===== verification/KHex.thy ===== *)
theory KHex
  imports KString Bitops
begin

text \<open>
  Hexadecimal text, \<^verbatim>\<open>lib/hexdump.c\<close>: the conversion of a digit, of a byte and of a block of bytes to
  text and back, and the dump of one line of a buffer and of a whole buffer. Buffers are lists of
  bytes, a write outside them is a fault. \<open>char\<close> is unsigned on ARM. The calls of \<^verbatim>\<open>snprintf\<close> with
  the formats \<open>%16.16llx\<close>, \<open>%8.8x\<close> and \<open>%4.4x\<close> are what the C library documents: the digits of the
  number in the given width, cut to the size with a final NUL, and the untruncated length as the value.
\<close>

section \<open>Digits and bytes\<close>

definition hex_asc :: "u8 list" where "hex_asc = str_bytes ''0123456789abcdef''"
definition hex_asc_upper :: "u8 list" where "hex_asc_upper = str_bytes ''0123456789ABCDEF''"

definition hex_asc_lo :: "u8 \<Rightarrow> u8" where "hex_asc_lo x = hex_asc ! unat (x AND 0x0f)"
definition hex_asc_hi :: "u8 \<Rightarrow> u8" where "hex_asc_hi x = hex_asc ! unat (drop_bit 4 (x AND 0xf0))"
definition hex_asc_upper_lo :: "u8 \<Rightarrow> u8" where "hex_asc_upper_lo x = hex_asc_upper ! unat (x AND 0x0f)"
definition hex_asc_upper_hi :: "u8 \<Rightarrow> u8" where "hex_asc_upper_hi x = hex_asc_upper ! unat (drop_bit 4 (x AND 0xf0))"

text \<open>The bytes written; the pointer returned is two further.\<close>

fun hex_byte_pack :: "u8 list \<Rightarrow> u8 \<Rightarrow> u8 list res" where
  "hex_byte_pack (a # b # buf) byte = Inr (hex_asc_hi byte # hex_asc_lo byte # buf)"
| "hex_byte_pack buf byte = Inl OutOfBounds"

fun hex_byte_pack_upper :: "u8 list \<Rightarrow> u8 \<Rightarrow> u8 list res" where
  "hex_byte_pack_upper (a # b # buf) byte = Inr (hex_asc_upper_hi byte # hex_asc_upper_lo byte # buf)"
| "hex_byte_pack_upper buf byte = Inl OutOfBounds"

definition hex_to_bin :: "u8 \<Rightarrow> int" where
  "hex_to_bin ch =
     (if 48 \<le> ch \<and> ch \<le> 57 then uint ch - 48
      else let ch = tolower ch
           in if 97 \<le> ch \<and> ch \<le> 102 then uint ch - 97 + 10 else - 1)"

text \<open>The buffer after the call and the value.\<close>

fun hex2bin :: "u8 list \<Rightarrow> u8 list \<Rightarrow> nat \<Rightarrow> (u8 list \<times> int) res" where
  "hex2bin dst src 0 = Inr (dst, 0)"
| "hex2bin dst src (Suc count) =
     rbind (rd src) (\<lambda>a. rbind (rd (tl src)) (\<lambda>b.
     let hi = hex_to_bin a; lo = hex_to_bin b in
     if hi < 0 \<or> lo < 0 then Inr (dst, - 1)
     else case dst of
       [] \<Rightarrow> Inl OutOfBounds
     | _ # dst' \<Rightarrow>
         rbind (hex2bin dst' (drop 2 src) count) (\<lambda>(d, r). Inr (word_of_int (push_bit 4 hi OR lo) # d, r))))"

text \<open>The buffer after the call and the distance of the returned pointer from its start.\<close>

fun bin2hex :: "u8 list \<Rightarrow> u8 list \<Rightarrow> nat \<Rightarrow> (u8 list \<times> nat) res" where
  "bin2hex dst src 0 = Inr (dst, 0)"
| "bin2hex dst src (Suc count) =
     rbind (rd src) (\<lambda>b. rbind (hex_byte_pack dst b) (\<lambda>d.
     rbind (bin2hex (drop 2 d) (tl src) count) (\<lambda>(d', n). Inr (take 2 d @ d', n + 2))))"

section \<open>One line of a dump\<close>

definition hex_rowsize :: "int \<Rightarrow> nat" where
  "hex_rowsize rowsize = (if rowsize \<noteq> 16 \<and> rowsize \<noteq> 32 then 16 else nat rowsize)"

definition hex_len :: "nat \<Rightarrow> int \<Rightarrow> nat" where
  "hex_len len rowsize = (if len > hex_rowsize rowsize then hex_rowsize rowsize else len)"

definition hex_groupsize :: "nat \<Rightarrow> s32 \<Rightarrow> s32" where
  "hex_groupsize len groupsize =
     (let g = (if \<not> is_power_of_2 groupsize \<or> sint groupsize > 8 then 1 else groupsize)
      in if len mod unat g \<noteq> 0 then 1 else g)"

text \<open>The bytes from a position on, read as a little-endian number of the given number of bytes.\<close>

fun le_value :: "u8 list \<Rightarrow> nat" where
  "le_value [] = 0"
| "le_value (b # bs) = unat b + 256 * le_value bs"

definition le_load :: "u8 list \<Rightarrow> nat \<Rightarrow> nat \<Rightarrow> nat res" where
  "le_load buf i n = (if i + n \<le> length buf then Inr (le_value (take n (drop i buf))) else Inl OutOfBounds)"

definition hex_digits :: "nat \<Rightarrow> nat \<Rightarrow> u8 list" where
  "hex_digits w v = map (\<lambda>i. hex_asc ! (v div 16 ^ i mod 16)) (rev [0..<w])"

definition blit :: "u8 list \<Rightarrow> nat \<Rightarrow> u8 list \<Rightarrow> u8 list res" where
  "blit lb i bs = (if i + length bs \<le> length lb then Inr (take i lb @ bs @ drop (i + length bs) lb) else Inl OutOfBounds)"

definition snprintf_at :: "u8 list \<Rightarrow> nat \<Rightarrow> nat \<Rightarrow> u8 list \<Rightarrow> u8 list res" where
  "snprintf_at lb i n txt = (if n = 0 then Inr lb else blit lb i (take (n - 1) txt @ [0]))"

text \<open>The loop over groups of two, four or eight bytes, \<open>k\<close> groups left; the flag is the jump to \<^verbatim>\<open>overflow1\<close>.\<close>

fun hex_groups :: "u8 list \<Rightarrow> nat \<Rightarrow> nat \<Rightarrow> u8 list \<Rightarrow> nat \<Rightarrow> nat \<Rightarrow> nat \<Rightarrow> (bool \<times> u8 list \<times> nat) res" where
  "hex_groups buf g linebuflen lb lx j 0 = Inr (False, lb, lx)"
| "hex_groups buf g linebuflen lb lx j (Suc k) =
     rbind (le_load buf (j * g) g) (\<lambda>v.
     let txt = (if j \<noteq> 0 then [32] else []) @ hex_digits (2 * g) v in
     rbind (snprintf_at lb lx (linebuflen - lx) txt) (\<lambda>lb'.
     if length txt \<ge> linebuflen - lx then Inr (True, lb', lx)
     else hex_groups buf g linebuflen lb' (lx + length txt) (Suc j) k))"

text \<open>The loop over single bytes; the flag is the jump to \<^verbatim>\<open>overflow2\<close>.\<close>

fun hex_bytes :: "u8 list \<Rightarrow> nat \<Rightarrow> u8 list \<Rightarrow> nat \<Rightarrow> nat \<Rightarrow> nat \<Rightarrow> (bool \<times> u8 list \<times> nat) res" where
  "hex_bytes ptr linebuflen lb lx j 0 = Inr (False, lb, lx)"
| "hex_bytes ptr linebuflen lb lx j (Suc k) =
     (if linebuflen < lx + 3 then Inr (True, lb, lx)
      else rbind (arr_get ptr j) (\<lambda>ch.
      rbind (arr_set lb lx (hex_asc_hi ch)) (\<lambda>lb.
      rbind (arr_set lb (lx + 1) (hex_asc_lo ch)) (\<lambda>lb.
      rbind (arr_set lb (lx + 2) 32) (\<lambda>lb.
      hex_bytes ptr linebuflen lb (lx + 3) (Suc j) k)))))"

function hex_pad :: "nat \<Rightarrow> nat \<Rightarrow> u8 list \<Rightarrow> nat \<Rightarrow> (bool \<times> u8 list \<times> nat) res" where
  "hex_pad ascii_column linebuflen lb lx =
     (if lx < ascii_column then
        (if linebuflen < lx + 2 then Inr (True, lb, lx)
         else rbind (arr_set lb lx 32) (\<lambda>lb. hex_pad ascii_column linebuflen lb (lx + 1)))
      else Inr (False, lb, lx))"
  by pat_completeness auto
termination
  by (relation "measure (\<lambda>(c, n, lb, lx). c - lx)") auto

declare hex_pad.simps [simp del]

definition hex_printable :: "u8 \<Rightarrow> u8" where
  "hex_printable ch = (if isascii ch \<and> isprint ch then ch else 46)"

fun hex_ascii :: "u8 list \<Rightarrow> nat \<Rightarrow> u8 list \<Rightarrow> nat \<Rightarrow> nat \<Rightarrow> nat \<Rightarrow> (bool \<times> u8 list \<times> nat) res" where
  "hex_ascii ptr linebuflen lb lx j 0 = Inr (False, lb, lx)"
| "hex_ascii ptr linebuflen lb lx j (Suc k) =
     (if linebuflen < lx + 2 then Inr (True, lb, lx)
      else rbind (arr_get ptr j) (\<lambda>ch.
      rbind (arr_set lb lx (hex_printable ch)) (\<lambda>lb.
      hex_ascii ptr linebuflen lb (lx + 1) (Suc j) k)))"

text \<open>The labels at the end of the function.\<close>

definition hex_nil :: "u8 list \<Rightarrow> nat \<Rightarrow> (u8 list \<times> int) res" where
  "hex_nil lb lx = rbind (arr_set lb lx 0) (\<lambda>lb. Inr (lb, int lx))"

definition hex_overflow1 :: "nat \<Rightarrow> s32 \<Rightarrow> nat \<Rightarrow> nat \<Rightarrow> bool \<Rightarrow> int" where
  "hex_overflow1 len groupsize ngroups ascii_column ascii =
     (if ascii then int ascii_column + int len else (sint groupsize * 2 + 1) * int ngroups - 1)"

definition hex_overflow2 :: "nat \<Rightarrow> s32 \<Rightarrow> nat \<Rightarrow> nat \<Rightarrow> bool \<Rightarrow> u8 list \<Rightarrow> nat \<Rightarrow> (u8 list \<times> int) res" where
  "hex_overflow2 len groupsize ngroups ascii_column ascii lb lx =
     rbind (arr_set lb lx 0) (\<lambda>lb. Inr (lb, hex_overflow1 len groupsize ngroups ascii_column ascii))"

definition hex_tail :: "u8 list \<Rightarrow> nat \<Rightarrow> s32 \<Rightarrow> nat \<Rightarrow> nat \<Rightarrow> bool \<Rightarrow> nat \<Rightarrow> u8 list \<Rightarrow> nat \<Rightarrow> (u8 list \<times> int) res" where
  "hex_tail ptr len groupsize ngroups ascii_column ascii linebuflen lb lx =
     (if \<not> ascii then hex_nil lb lx
      else rbind (hex_pad ascii_column linebuflen lb lx) (\<lambda>(ov, lb, lx).
      if ov then hex_overflow2 len groupsize ngroups ascii_column ascii lb lx
      else rbind (hex_ascii ptr linebuflen lb lx 0 len) (\<lambda>(ov, lb, lx).
      if ov then hex_overflow2 len groupsize ngroups ascii_column ascii lb lx
      else hex_nil lb lx)))"

definition hex_dump_to_buffer ::
    "u8 list \<Rightarrow> nat \<Rightarrow> int \<Rightarrow> s32 \<Rightarrow> u8 list \<Rightarrow> nat \<Rightarrow> bool \<Rightarrow> (u8 list \<times> int) res" where
  "hex_dump_to_buffer buf len0 rowsize0 groupsize0 linebuf linebuflen ascii =
     (let rowsize = hex_rowsize rowsize0;
          len = hex_len len0 rowsize0;
          groupsize = hex_groupsize len groupsize0;
          ngroups = len div unat groupsize;
          ascii_column = rowsize * 2 + nat (int rowsize sdiv sint groupsize) + 1
      in if linebuflen = 0 then Inr (linebuf, hex_overflow1 len groupsize ngroups ascii_column ascii)
         else if len = 0 then hex_nil linebuf 0
         else if groupsize = 8 \<or> groupsize = 4 \<or> groupsize = 2 then
           rbind (hex_groups buf (unat groupsize) linebuflen linebuf 0 0 ngroups) (\<lambda>(ov, lb, lx).
           if ov then Inr (lb, hex_overflow1 len groupsize ngroups ascii_column ascii)
           else hex_tail buf len groupsize ngroups ascii_column ascii linebuflen lb lx)
         else
           rbind (hex_bytes buf linebuflen linebuf 0 0 len) (\<lambda>(ov, lb, lx).
           if ov then hex_overflow2 len groupsize ngroups ascii_column ascii lb lx
           else hex_tail buf len groupsize ngroups ascii_column ascii linebuflen lb (lx - (if len \<noteq> 0 then 1 else 0))))"

section \<open>A whole dump\<close>

text \<open>The calls of \<^verbatim>\<open>printk\<close> as a list: what stands in front of the line and the line. The address of the buffer is a
  number; \<^verbatim>\<open>linebuf\<close> is an array of 131 bytes that starts with any contents.\<close>

datatype dump_prefix = DumpAddress nat | DumpOffset nat | DumpNone

definition DUMP_PREFIX_ADDRESS :: int where "DUMP_PREFIX_ADDRESS = 1"
definition DUMP_PREFIX_OFFSET :: int where "DUMP_PREFIX_OFFSET = 2"

definition dump_prefix_of :: "int \<Rightarrow> nat \<Rightarrow> nat \<Rightarrow> dump_prefix" where
  "dump_prefix_of prefix_type addr i =
     (if prefix_type = DUMP_PREFIX_ADDRESS then DumpAddress (addr + i)
      else if prefix_type = DUMP_PREFIX_OFFSET then DumpOffset i else DumpNone)"

lemma hex_rowsize_cases: "hex_rowsize r = 16 \<or> hex_rowsize r = 32"
  by (auto simp: hex_rowsize_def)

lemma hex_rowsize_pos [simp]: "0 < hex_rowsize r"
  by (simp add: hex_rowsize_def)

function print_hex_loop ::
    "int \<Rightarrow> int \<Rightarrow> s32 \<Rightarrow> nat \<Rightarrow> u8 list \<Rightarrow> nat \<Rightarrow> bool \<Rightarrow> nat \<Rightarrow> int \<Rightarrow> u8 list \<Rightarrow> (dump_prefix \<times> u8 list) list res" where
  "print_hex_loop prefix_type rowsize groupsize addr ptr len ascii i remaining linebuf =
     (if i < len then
        let r = hex_rowsize rowsize; linelen = min remaining (int r) in
        rbind (hex_dump_to_buffer (drop i ptr) (nat linelen) (int r) groupsize linebuf 131 ascii) (\<lambda>(lb, _).
        rbind (strlen lb) (\<lambda>n.
        rbind (print_hex_loop prefix_type rowsize groupsize addr ptr len ascii (i + r) (remaining - int r) lb) (\<lambda>out.
        Inr ((dump_prefix_of prefix_type addr i, take n lb) # out))))
      else Inr [])"
  by pat_completeness auto
termination
  by (relation "measure (\<lambda>(t, r, g, a, p, len, asc, i, rem, lb). len - i)") (auto intro: diff_less_mono2)

declare print_hex_loop.simps [simp del]

definition print_hex_dump ::
    "int \<Rightarrow> int \<Rightarrow> s32 \<Rightarrow> nat \<Rightarrow> u8 list \<Rightarrow> nat \<Rightarrow> bool \<Rightarrow> u8 list \<Rightarrow> (dump_prefix \<times> u8 list) list res" where
  "print_hex_dump prefix_type rowsize groupsize addr buf len ascii linebuf =
     print_hex_loop prefix_type rowsize groupsize addr buf len ascii 0 (int len) linebuf"

definition print_hex_dump_bytes :: "int \<Rightarrow> nat \<Rightarrow> u8 list \<Rightarrow> nat \<Rightarrow> u8 list \<Rightarrow> (dump_prefix \<times> u8 list) list res" where
  "print_hex_dump_bytes prefix_type addr buf len linebuf = print_hex_dump prefix_type 16 1 addr buf len True linebuf"

section \<open>Bytes as text\<close>

definition byte_hex :: "u8 \<Rightarrow> u8 list" where
  "byte_hex b = [hex_asc ! (unat b div 16), hex_asc ! (unat b mod 16)]"

lemma length_byte_hex [simp]: "length (byte_hex b) = 2"
  by (simp add: byte_hex_def)

lemma hex_asc_halves: "hex_asc_hi b = hex_asc ! (unat b div 16)" "hex_asc_lo b = hex_asc ! (unat b mod 16)"
proof -
  have e: "b AND 0x0f = take_bit 4 b" by (simp add: take_bit_eq_mask mask_eq_exp_minus_1)
  have "unat (b AND 0x0f) = unat b mod 16" unfolding e unsigned_take_bit_eq unfolding take_bit_eq_mod by simp
  then show "hex_asc_lo b = hex_asc ! (unat b mod 16)" by (simp add: hex_asc_lo_def)
  have "unat (drop_bit 4 (b AND 0xf0)) = unat b div 16"
  proof -
    have m: "(0xf0 :: u8) = NOT (mask 4)" by (simp add: mask_eq_exp_minus_1)
    have "drop_bit 4 (b AND 0xf0) = drop_bit 4 b"
      unfolding m by (rule bit_word_eqI) (auto simp: bit_simps dest: bit_imp_le_length)
    moreover have "unat b < 2 ^ LENGTH(8)" by (rule unsigned_less)
    then have "unat (drop_bit 4 b) = unat b div 16"
      unfolding unsigned_drop_bit_eq by (simp add: drop_bit_eq_div take_bit_nat_eq_self)
    ultimately show ?thesis by (simp only:)
  qed
  then show "hex_asc_hi b = hex_asc ! (unat b div 16)" by (simp add: hex_asc_hi_def)
qed

lemma pack_byte_hex: "[hex_asc_hi b, hex_asc_lo b] = byte_hex b"
  by (simp add: byte_hex_def hex_asc_halves)

lemma hex_byte_pack_eq: "2 \<le> length buf \<Longrightarrow> hex_byte_pack buf b = Inr (byte_hex b @ drop 2 buf)"
  by (cases buf rule: remdups_adj.cases) (auto simp: byte_hex_def hex_asc_halves)

lemma hex_to_bin_val: "hex_to_bin c = (case hex_val c of None \<Rightarrow> - 1 | Some v \<Rightarrow> int v)"
proof -
  have "all_entries (\<lambda>c m. (if 48 \<le> c \<and> c \<le> 57 then uint c - 48
      else let c = (if m AND CT_U \<noteq> 0 then c - (65 - 97) else c)
           in if 97 \<le> c \<and> c \<le> 102 then uint c - 97 + 10 else - 1) = (case hex_val c of None \<Rightarrow> - 1 | Some v \<Rightarrow> int v))"
    by code_simp
  from all_entriesD [OF this, of c] show ?thesis unfolding hex_to_bin_def tolower_def isupper_def .
qed

lemma hex_val_lower: "hex_val c = Some v \<Longrightarrow> v < 16 \<and> hex_asc ! v = tolower c"
proof -
  have "all_entries (\<lambda>c m. case hex_val c of None \<Rightarrow> True
      | Some v \<Rightarrow> v < 16 \<and> hex_asc ! v = (if m AND CT_U \<noteq> 0 then c - (65 - 97) else c))"
    by code_simp
  from all_entriesD [OF this, of c] show "hex_val c = Some v \<Longrightarrow> ?thesis" unfolding tolower_def isupper_def by simp
qed

lemma hex_val_asc: "v < 16 \<Longrightarrow> hex_val (hex_asc ! v) = Some v"
proof -
  have "list_all (\<lambda>v. hex_val (hex_asc ! v) = Some v) [0..<16]" by code_simp
  then show "v < 16 \<Longrightarrow> ?thesis" by (simp add: list_all_iff)
qed

text \<open>Two digits make the byte whose text they are.\<close>

lemma hex_join:
  assumes "h < 16" "l < 16"
  shows "word_of_int (push_bit 4 (int h) OR int l) = (of_nat (16 * h + l) :: u8)"
proof -
  have "push_bit 4 (int h) OR int l = push_bit 4 (int h) + int l"
  proof (rule disjunctive_add [symmetric])
    fix n
    have "take_bit 4 (int l) = int l" using assms(2) by (simp add: take_bit_int_eq_self)
    then have "bit (int l) n \<Longrightarrow> n < 4" by (metis bit_take_bit_iff)
    then show "\<not> bit (push_bit 4 (int h)) n \<or> \<not> bit (int l) n" by (auto simp: bit_push_bit_iff)
  qed
  also have "\<dots> = int (16 * h + l)" by (simp add: push_bit_eq_mult)
  finally show ?thesis by (metis of_int_of_nat_eq)
qed

lemma bin2hex_eq:
  "count \<le> length src \<Longrightarrow> 2 * count \<le> length dst \<Longrightarrow>
   bin2hex dst src count = Inr (concat (map byte_hex (take count src)) @ drop (2 * count) dst, 2 * count)"
proof (induction count arbitrary: dst src)
  case (Suc count)
  from Suc.prems obtain b src' where "src = b # src'" by (cases src) auto
  with Suc show ?case by (simp add: hex_byte_pack_eq)
qed simp

lemma hex2bin_step:
  assumes "hex_val a = Some h" "hex_val b = Some l" "dst = d # dst'"
  shows "hex2bin dst (a # b # src) (Suc count) =
    rbind (hex2bin dst' src count) (\<lambda>(d, r). Inr (of_nat (16 * h + l) # d, r))"
proof -
  have "word_of_int (push_bit 4 (int h) OR int l) = (of_nat (16 * h + l) :: u8)"
    using hex_val_lower [OF assms(1)] hex_val_lower [OF assms(2)] by (intro hex_join) auto
  then show ?thesis using assms by (simp add: hex_to_bin_val numeral_2_eq_2)
qed

lemma hex2bin_digits:
  "2 * count \<le> length src \<Longrightarrow> count \<le> length dst \<Longrightarrow> list_all isxdigit (take (2 * count) src) \<Longrightarrow>
   \<exists>bs. length bs = count \<and> hex2bin dst src count = Inr (bs @ drop count dst, 0) \<and>
        concat (map byte_hex bs) = map tolower (take (2 * count) src)"
proof (induction count arbitrary: dst src)
  case (Suc count)
  from Suc.prems obtain a b src' where s: "src = a # b # src'" by (cases src rule: remdups_adj.cases) auto
  from Suc.prems obtain d dst' where d: "dst = d # dst'" by (cases dst) auto
  from Suc.prems obtain h l where v: "hex_val a = Some h" "hex_val b = Some l" by (auto simp: s hex_val_xdigit)
  have hl: "h < 16" "l < 16" "hex_asc ! h = tolower a" "hex_asc ! l = tolower b"
    using hex_val_lower [OF v(1)] hex_val_lower [OF v(2)] by auto
  have "16 * h + l < 2 ^ LENGTH(8)" using hl by simp
  then have u: "unat (of_nat (16 * h + l) :: u8) = 16 * h + l" by (rule unat_of_nat_small)
  have t: "byte_hex (of_nat (16 * h + l)) = [tolower a, tolower b]"
    using hl unfolding byte_hex_def u by simp
  from Suc.IH [of src' dst'] Suc.prems obtain bs where bs: "length bs = count" "hex2bin dst' src' count = Inr (bs @ drop count dst', 0)"
    "concat (map byte_hex bs) = map tolower (take (2 * count) src')" by (auto simp: s d)
  show ?case
    by (rule exI [of _ "of_nat (16 * h + l) # bs"])
      (simp add: bs t s d hex2bin_step [OF v refl] del: hex2bin.simps of_nat_add of_nat_mult)
qed simp

lemma hex2bin_bad:
  "2 * count \<le> length src \<Longrightarrow> count \<le> length dst \<Longrightarrow> \<not> list_all isxdigit (take (2 * count) src) \<Longrightarrow>
   \<exists>d. length d = length dst \<and> hex2bin dst src count = Inr (d, - 1)"
proof (induction count arbitrary: dst src)
  case (Suc count)
  from Suc.prems obtain a b src' where s: "src = a # b # src'" by (cases src rule: remdups_adj.cases) auto
  from Suc.prems obtain d dst' where d: "dst = d # dst'" by (cases dst) auto
  show ?case
  proof (cases "isxdigit a \<and> isxdigit b")
    case True
    then obtain h l where v: "hex_val a = Some h" "hex_val b = Some l" by (auto simp: hex_val_xdigit)
    from Suc.IH [of src' dst'] Suc.prems True obtain d' where "length d' = length dst'" "hex2bin dst' src' count = Inr (d', - 1)"
      by (auto simp: s d)
    then show ?thesis by (simp add: s d hex2bin_step [OF v refl] del: hex2bin.simps)
  next
    case False
    then show ?thesis by (auto simp: s hex_to_bin_val hex_val_xdigit)
  qed
qed simp

lemma byte_hex_xdigit: "list_all isxdigit (byte_hex b)"
proof -
  have "unat b < 256" using unsigned_less [where 'a = nat, of b] by simp
  then have "unat b div 16 < 16" "unat b mod 16 < 16" by auto
  then show ?thesis by (simp add: byte_hex_def hex_val_xdigit hex_val_asc)
qed

lemma byte_hex_inj: "byte_hex a = byte_hex b \<Longrightarrow> a = b"
proof -
  assume e: "byte_hex a = byte_hex b"
  have l: "unat a < 256" "unat b < 256" using unsigned_less [where 'a = nat, of a] unsigned_less [where 'a = nat, of b] by simp_all
  from e have "hex_val (hex_asc ! (unat a div 16)) = hex_val (hex_asc ! (unat b div 16))"
    "hex_val (hex_asc ! (unat a mod 16)) = hex_val (hex_asc ! (unat b mod 16))" by (simp_all add: byte_hex_def)
  then have "unat a div 16 = unat b div 16" "unat a mod 16 = unat b mod 16" using l by (simp_all add: hex_val_asc)
  then show "a = b" by (metis div_mult_mod_eq word_unat_eq_iff)
qed

lemma concat_byte_hex_inj: "length as = length bs \<Longrightarrow> concat (map byte_hex as) = concat (map byte_hex bs) \<Longrightarrow> as = bs"
  by (induction as bs rule: list_induct2) (auto dest: byte_hex_inj)

section \<open>What a line of a dump holds\<close>

text \<open>The groups as text: the bytes of a group from the last to the first, as the processor is little-endian, and
  a blank between groups.\<close>

definition group_hex :: "u8 list \<Rightarrow> nat \<Rightarrow> nat \<Rightarrow> u8 list" where
  "group_hex buf g j = concat (map byte_hex (rev (take g (drop (j * g) buf))))"

definition group_text :: "u8 list \<Rightarrow> nat \<Rightarrow> nat \<Rightarrow> u8 list" where
  "group_text buf g j = (if j \<noteq> 0 then [32] else []) @ group_hex buf g j"

definition hex_part :: "u8 list \<Rightarrow> nat \<Rightarrow> nat \<Rightarrow> u8 list" where
  "hex_part buf g n = concat (map (group_text buf g) [0..<n])"

text \<open>A line: the groups, and with \<^verbatim>\<open>ascii\<close> the printable bytes from a fixed column on.\<close>

definition hex_line :: "u8 list \<Rightarrow> nat \<Rightarrow> nat \<Rightarrow> nat \<Rightarrow> bool \<Rightarrow> u8 list" where
  "hex_line buf len rowsize g ascii =
     (let h = hex_part buf g (len div g); col = rowsize * 2 + rowsize div g + 1
      in if ascii then h @ replicate (col - length h) 32 @ map hex_printable (take len buf) else h)"

lemma hex_digits_append: "v < 256 \<Longrightarrow> hex_digits (2 + w) (v + 256 * u) = hex_digits w u @ hex_digits 2 v"
proof -
  assume v: "v < 256"
  have d: "(v + 256 * u) div 16 ^ (i + 2) = u div 16 ^ i" for i
  proof -
    have e: "(16 :: nat) ^ (i + 2) = 256 * 16 ^ i" by (simp add: power_add)
    have "(v + 256 * u) div 16 ^ (i + 2) = (v + 256 * u) div 256 div 16 ^ i" unfolding e by (rule div_mult2_eq)
    also have "(v + 256 * u) div 256 = u" using v by simp
    finally show ?thesis .
  qed
  have r: "rev [0..<2 + w] = map (\<lambda>i. i + 2) (rev [0..<w]) @ [1, 0]"
  proof -
    have "[0..<2 + w] = [0..<2] @ [2..<2 + w]" by (rule upt_add_eq_append) simp
    also have "[2..<2 + w] = map (\<lambda>i. i + 2) [0..<w]" using map_add_upt [of 2 w] by (simp only: add.commute)
    finally show ?thesis by (simp add: rev_map numeral_2_eq_2)
  qed
  have e: "v + 256 * u = v + 16 * (16 * u)" by simp
  have "(v + 256 * u) div 16 = v div 16 + 16 * u" unfolding e by (subst div_mult_self2) simp_all
  then have "(v + 256 * u) div 16 mod 16 = v div 16 mod 16" by (simp only: mod_mult_self2)
  moreover have "(v + 256 * u) mod 16 = v mod 16" unfolding e by (rule mod_mult_self2)
  moreover have "rev [0..<2] = [1, 0 :: nat]" by (simp add: numeral_2_eq_2)
  ultimately show ?thesis unfolding hex_digits_def r
    by (simp only: map_append map_map comp_def d list.map power_0 power_one_right div_by_1)
qed

lemma hex_digits_byte: "hex_digits 2 (unat b) = byte_hex b"
proof -
  have "unat b < 256" using unsigned_less [where 'a = nat, of b] by simp
  then have "unat b div 16 mod 16 = unat b div 16" by auto
  then show ?thesis by (simp add: hex_digits_def byte_hex_def numeral_2_eq_2)
qed

lemma hex_digits_le: "hex_digits (2 * length bs) (le_value bs) = concat (map byte_hex (rev bs))"
proof (induction bs)
  case (Cons b bs)
  have "unat b < 256" using unsigned_less [where 'a = nat, of b] by simp
  from hex_digits_append [OF this, of "2 * length bs" "le_value bs"] Cons show ?case
    by (simp add: hex_digits_byte)
qed (simp add: hex_digits_def)

lemma group_load:
  assumes "(Suc j) * g \<le> length buf"
  shows "rbind (le_load buf (j * g) g) (\<lambda>v. f (hex_digits (2 * g) v)) = f (group_hex buf g j)"
proof -
  have "length (take g (drop (j * g) buf)) = g" using assms by simp
  then show ?thesis using assms hex_digits_le [of "take g (drop (j * g) buf)"]
    by (simp add: le_load_def group_hex_def add.commute)
qed

lemma length_concat_byte_hex [simp]: "length (concat (map byte_hex bs)) = 2 * length bs"
  by (induction bs) auto

lemma length_group_text:
  "(Suc j) * g \<le> length buf \<Longrightarrow> length (group_text buf g j) = (if j = 0 then 2 * g else 2 * g + 1)"
  by (simp add: group_text_def group_hex_def)

lemma length_hex_part: "n * g \<le> length buf \<Longrightarrow> length (hex_part buf g n) = (2 * g + 1) * n - of_bool (n \<noteq> 0)"
proof (induction n)
  case (Suc n)
  have "length (hex_part buf g n) = (2 * g + 1) * n - of_bool (n \<noteq> 0)" using Suc by simp
  moreover have "length (hex_part buf g (Suc n)) = length (hex_part buf g n) + length (group_text buf g n)"
    by (simp add: hex_part_def)
  moreover have "n \<noteq> 0 \<Longrightarrow> (2 * g + 1) * n > 0" by simp
  ultimately show ?case using length_group_text [OF Suc.prems] by (cases "n = 0") (auto simp: algebra_simps)
qed (simp add: hex_part_def)

section \<open>Writing a line\<close>

text \<open>The first \<open>n\<close> bytes of the line are in the buffer, the bytes after position \<open>n\<close> are as before the call.\<close>

definition written :: "u8 list \<Rightarrow> u8 list \<Rightarrow> nat \<Rightarrow> u8 list \<Rightarrow> bool" where
  "written L lb0 n lb \<longleftrightarrow> length lb = length lb0 \<and> n \<le> length L \<and> take n lb = take n L \<and> drop (Suc n) lb = drop (Suc n) lb0"

lemma written_length: "written L lb0 n lb \<Longrightarrow> length lb = length lb0"
  by (simp add: written_def)

lemma written_set:
  assumes "written L lb0 n lb" "n < length L" "n < length lb0"
  shows "written L lb0 (Suc n) (lb[n := L ! n])"
proof -
  have "drop (Suc (Suc n)) lb = drop (Suc (Suc n)) lb0"
    using assms(1) by (metis drop_drop plus_1_eq_Suc written_def)
  then show ?thesis using assms by (simp add: written_def take_Suc_conv_app_nth)
qed

lemma written_end:
  assumes "written L lb0 n lb" "n < length lb0"
  shows "lb[n := 0] = take n L @ [0] @ drop (Suc n) lb0"
  using assms by (simp add: written_def upd_conv_take_nth_drop)

lemma written_mono: "written L lb0 n lb \<Longrightarrow> written (L @ M) lb0 n lb"
  by (simp add: written_def)

lemma written_blit:
  assumes "written L lb0 n lb" "n + length t \<le> length L" "take (length t) (drop n L) = t" "n + length t < length lb0"
  shows "\<exists>lb'. blit lb n (t @ [0]) = Inr lb' \<and> written L lb0 (n + length t) lb' \<and> lb' ! (n + length t) = 0"
proof -
  let ?lb = "take n lb @ (t @ [0]) @ drop (n + length (t @ [0])) lb"
  have l: "length lb = length lb0" using assms(1) by (rule written_length)
  have t: "take (n + length t) L = take n L @ t" using assms(3) by (simp add: take_add)
  have "drop (Suc (n + length t)) lb = drop (Suc (n + length t)) lb0"
    using assms(1) unfolding written_def by (metis add.commute add_Suc_right drop_drop)
  then have "written L lb0 (n + length t) ?lb"
    using assms l t by (simp add: written_def)
  moreover have "?lb ! (n + length t) = 0" using assms(4) l by (simp add: nth_append)
  ultimately show ?thesis using assms(4) l by (auto simp: blit_def)
qed

lemma hex_part_split:
  "j < n \<Longrightarrow> hex_part buf g n = hex_part buf g j @ group_text buf g j @ concat (map (group_text buf g) [Suc j..<n])"
proof -
  assume "j < n"
  then have "[0..<n] = [0..<j] @ j # [Suc j..<n]" by (metis less_imp_le_nat upt_add_eq_append upt_conv_Cons le0 le_add_diff_inverse)
  then show ?thesis by (simp add: hex_part_def)
qed

lemma hex_part_Suc: "hex_part buf g (Suc j) = hex_part buf g j @ group_text buf g j"
  by (simp add: hex_part_def)

lemma hex_groups_run:
  assumes "(j + k) * g \<le> length buf" "length lb0 = linebuflen" "H = hex_part buf g (j + k)"
    "written H lb0 lx lb" "lx = length (hex_part buf g j)" "lx < linebuflen"
  shows "if length H < linebuflen
    then \<exists>lb'. hex_groups buf g linebuflen lb lx j k = Inr (False, lb', length H) \<and> written H lb0 (length H) lb'
    else \<exists>lx'. hex_groups buf g linebuflen lb lx j k = Inr (True, take (linebuflen - 1) H @ [0], lx')"
  using assms
proof (induction k arbitrary: j lb lx)
  case 0
  then show ?case by simp
next
  case (Suc k)
  let ?t = "group_text buf g j"
  have b: "Suc j * g \<le> length buf" using Suc.prems(1) by (metis add_Suc_right add_leE mult_le_mono1 le_add1 le_trans add_Suc)
  have H: "H = hex_part buf g j @ ?t @ concat (map (group_text buf g) [Suc j..<j + Suc k])"
    using Suc.prems(3) hex_part_split [of j "j + Suc k" buf g] by simp
  have fits: "lx + length ?t \<le> length H" "take (length ?t) (drop lx H) = ?t" using Suc.prems(5) by (simp_all add: H)
  have step: "hex_groups buf g linebuflen lb lx j (Suc k) =
    rbind (snprintf_at lb lx (linebuflen - lx) ?t) (\<lambda>lb'. if length ?t \<ge> linebuflen - lx then Inr (True, lb', lx)
     else hex_groups buf g linebuflen lb' (lx + length ?t) (Suc j) k)"
    unfolding hex_groups.simps Let_def group_text_def by (rule group_load [OF b])
  show ?case
  proof (cases "length ?t < linebuflen - lx")
    case True
    then have sn: "snprintf_at lb lx (linebuflen - lx) ?t = blit lb lx (?t @ [0])" by (auto simp: snprintf_at_def)
    have "lx + length ?t < length lb0" using True Suc.prems(2) by simp
    from written_blit [OF Suc.prems(4) fits this]
    obtain lb' where lb': "blit lb lx (?t @ [0]) = Inr lb'" "written H lb0 (lx + length ?t) lb'" by blast
    have e: "hex_groups buf g linebuflen lb lx j (Suc k) = hex_groups buf g linebuflen lb' (lx + length ?t) (Suc j) k"
      using step True by (simp add: sn lb'(1))
    have "lx + length ?t = length (hex_part buf g (Suc j))" using Suc.prems(5) by (simp add: hex_part_Suc)
    then show ?thesis unfolding e using Suc.prems True lb'(2) by (intro Suc.IH) auto
  next
    case False
    let ?n = "linebuflen - lx - 1"
    have n: "length (take ?n ?t) = ?n" using False by simp
    have lb: "length lb = linebuflen" "take lx lb = take lx H" using Suc.prems(2,4) by (auto simp: written_def)
    have "snprintf_at lb lx (linebuflen - lx) ?t = Inr (take lx lb @ take ?n ?t @ [0])"
      using Suc.prems(6) n lb(1) by (simp add: snprintf_at_def blit_def)
    also have "take lx lb @ take ?n ?t = take (linebuflen - 1) H"
    proof -
      have "?n \<le> length ?t" using False by simp
      then have "take ?n (drop lx H) = take ?n (take (length ?t) (drop lx H))" by (simp add: min_absorb1)
      then have "take ?n (drop lx H) = take ?n ?t" unfolding fits(2) .
      then show ?thesis using Suc.prems(6) lb(2) take_add [of lx ?n H] by simp
    qed
    then have "take lx lb @ take ?n ?t @ [0] = take (linebuflen - 1) H @ [0]" by (metis append_assoc)
    finally have "snprintf_at lb lx (linebuflen - lx) ?t = Inr (take (linebuflen - 1) H @ [0])" .
    moreover have "\<not> length H < linebuflen" using fits(1) False Suc.prems(6) by simp
    ultimately show ?thesis using step False by auto
  qed
qed

text \<open>The loop over single bytes leaves a blank after every byte.\<close>

definition bytes_text :: "u8 list \<Rightarrow> nat \<Rightarrow> u8 list" where
  "bytes_text buf n = concat (map (\<lambda>i. byte_hex (buf ! i) @ [32]) [0..<n])"

lemma length_bytes_text [simp]: "length (bytes_text buf n) = 3 * n"
  by (induction n) (auto simp: bytes_text_def)

lemma bytes_text_part: "0 < n \<Longrightarrow> n \<le> length buf \<Longrightarrow> bytes_text buf n = hex_part buf 1 n @ [32]"
proof (induction n)
  case (Suc n)
  have g: "group_hex buf 1 n = byte_hex (buf ! n)" using Suc.prems by (simp add: group_hex_def take_Suc_conv_app_nth hd_drop_conv_nth take_Suc)
  show ?case
  proof (cases "n = 0")
    case True
    then show ?thesis using g by (simp add: bytes_text_def hex_part_def group_text_def)
  next
    case False
    then have "bytes_text buf n = hex_part buf 1 n @ [32]" using Suc by simp
    then show ?thesis using False g by (simp add: bytes_text_def hex_part_Suc group_text_def)
  qed
qed simp

lemma bytes_text_nth:
  assumes "j < n"
  shows "[bytes_text buf n ! (3 * j), bytes_text buf n ! (3 * j + 1), bytes_text buf n ! (3 * j + 2)] =
    [hex_asc_hi (buf ! j), hex_asc_lo (buf ! j), 32]"
proof -
  have "[0..<n] = [0..<j] @ j # [Suc j..<n]" using assms
    by (metis less_imp_le_nat upt_add_eq_append upt_conv_Cons le0 le_add_diff_inverse)
  then have b: "bytes_text buf n = bytes_text buf j @ byte_hex (buf ! j) @ 32 # concat (map (\<lambda>i. byte_hex (buf ! i) @ [32]) [Suc j..<n])"
    by (simp add: bytes_text_def)
  show ?thesis unfolding b by (simp add: nth_append byte_hex_def hex_asc_halves)
qed

definition laid :: "u8 list \<Rightarrow> u8 list \<Rightarrow> nat \<Rightarrow> u8 list" where
  "laid B lb0 n = take n B @ drop n lb0"

lemma laid_set:
  "n < length B \<Longrightarrow> n < length lb0 \<Longrightarrow> arr_set (laid B lb0 n) n (B ! n) = Inr (laid B lb0 (Suc n))"
  by (simp add: laid_def arr_set_def take_Suc_conv_app_nth list_update_append Cons_nth_drop_Suc [symmetric])

lemma laid_written: "n \<le> length B \<Longrightarrow> n \<le> length lb0 \<Longrightarrow> written B lb0 n (laid B lb0 n)"
  by (simp add: written_def laid_def)

lemma hex_bytes_run:
  assumes "j + k \<le> length ptr" "length lb0 = linebuflen" "B = bytes_text ptr (j + k)" "3 * j \<le> linebuflen"
  shows "hex_bytes ptr linebuflen (laid B lb0 (3 * j)) (3 * j) j k =
    (if 3 * (j + k) \<le> linebuflen then Inr (False, laid B lb0 (3 * (j + k)), 3 * (j + k))
     else Inr (True, laid B lb0 (3 * (linebuflen div 3)), 3 * (linebuflen div 3)))"
  using assms
proof (induction k arbitrary: j)
  case (Suc k)
  show ?case
  proof (cases "linebuflen < 3 * j + 3")
    case True
    with Suc.prems(4) have "linebuflen div 3 = j" by presburger
    then show ?thesis using True by simp
  next
    case False
    have B: "length B = 3 * (j + Suc k)" using Suc.prems(3) by simp
    have nth: "B ! (3 * j) = hex_asc_hi (ptr ! j)" "B ! Suc (3 * j) = hex_asc_lo (ptr ! j)" "B ! Suc (Suc (3 * j)) = 32"
      using bytes_text_nth [of j "j + Suc k" ptr] Suc.prems(3) by simp_all
    have s: "arr_set (laid B lb0 (3 * j)) (3 * j) (hex_asc_hi (ptr ! j)) = Inr (laid B lb0 (Suc (3 * j)))"
      "arr_set (laid B lb0 (Suc (3 * j))) (Suc (3 * j)) (hex_asc_lo (ptr ! j)) = Inr (laid B lb0 (Suc (Suc (3 * j))))"
      "arr_set (laid B lb0 (Suc (Suc (3 * j)))) (Suc (Suc (3 * j))) 32 = Inr (laid B lb0 (Suc (Suc (Suc (3 * j)))))"
      using laid_set [of "3 * j" B lb0] laid_set [of "Suc (3 * j)" B lb0] laid_set [of "Suc (Suc (3 * j))" B lb0] B False Suc.prems(2)
      unfolding nth by simp_all
    have "hex_bytes ptr linebuflen (laid B lb0 (3 * j)) (3 * j) j (Suc k) =
      hex_bytes ptr linebuflen (laid B lb0 (3 * Suc j)) (3 * Suc j) (Suc j) k"
      using False Suc.prems(1) s by (simp add: numeral_3_eq_3)
    then show ?thesis using Suc.IH [of "Suc j"] Suc.prems False by simp
  qed
qed simp

lemma hex_pad_run:
  assumes "written L lb0 lx lb" "length lb0 = linebuflen" "lx < linebuflen" "lx \<le> col" "col \<le> length L"
    "\<And>i. lx \<le> i \<Longrightarrow> i < col \<Longrightarrow> L ! i = 32"
  shows "\<exists>lb'. (if col < linebuflen
    then hex_pad col linebuflen lb lx = Inr (False, lb', col) \<and> written L lb0 col lb'
    else hex_pad col linebuflen lb lx = Inr (True, lb', linebuflen - 1) \<and> written L lb0 (linebuflen - 1) lb')"
  using assms
proof (induction "col - lx" arbitrary: lx lb)
  case 0
  then show ?case by (subst hex_pad.simps) auto
next
  case (Suc d)
  then have lx: "lx < col" by simp
  show ?case
  proof (cases "linebuflen < lx + 2")
    case True
    with Suc.prems(3) have "lx = linebuflen - 1" by simp
    then show ?thesis using lx True Suc.prems(1,3) by (subst hex_pad.simps) auto
  next
    case False
    have w: "written L lb0 (Suc lx) (lb[lx := 32])"
      using written_set [OF Suc.prems(1), of] lx Suc.prems by simp
    have e: "hex_pad col linebuflen lb lx = hex_pad col linebuflen (lb[lx := 32]) (Suc lx)"
      using lx False Suc.prems(2,3) written_length [OF Suc.prems(1)] by (subst hex_pad.simps) simp
    have d: "d = col - Suc lx" using Suc.hyps(2) by simp
    show ?thesis unfolding e
      by (rule Suc.hyps(1) [OF d w Suc.prems(2)]) (use lx False Suc.prems in auto)
  qed
qed

lemma hex_ascii_run:
  assumes "written L lb0 lx lb" "length lb0 = linebuflen" "lx < linebuflen" "length L = lx + k" "j + k \<le> length ptr"
    "\<And>i. i < k \<Longrightarrow> L ! (lx + i) = hex_printable (ptr ! (j + i))"
  shows "\<exists>lb'. (if length L < linebuflen
    then hex_ascii ptr linebuflen lb lx j k = Inr (False, lb', length L) \<and> written L lb0 (length L) lb'
    else hex_ascii ptr linebuflen lb lx j k = Inr (True, lb', linebuflen - 1) \<and> written L lb0 (linebuflen - 1) lb')"
  using assms
proof (induction k arbitrary: j lx lb)
  case 0
  then show ?case by auto
next
  case (Suc k)
  show ?case
  proof (cases "linebuflen < lx + 2")
    case True
    with Suc.prems(3) have "lx = linebuflen - 1" by simp
    then show ?thesis using True Suc.prems(1,3,4) by auto
  next
    case False
    have v: "L ! lx = hex_printable (ptr ! j)" using Suc.prems(6) [of 0] by simp
    have w: "written L lb0 (Suc lx) (lb[lx := hex_printable (ptr ! j)])"
      using written_set [OF Suc.prems(1)] Suc.prems v by simp
    have e: "hex_ascii ptr linebuflen lb lx j (Suc k) = hex_ascii ptr linebuflen (lb[lx := hex_printable (ptr ! j)]) (Suc lx) (Suc j) k"
      using False Suc.prems(2,3,5) written_length [OF Suc.prems(1)] by simp
    show ?thesis unfolding e
      by (rule Suc.IH [OF w Suc.prems(2)]) (use False Suc.prems(4,5) Suc.prems(6) [of "Suc _"] in auto)
  qed
qed

text \<open>The final NUL and the value, by where the writing stopped.\<close>

lemma written_nil: "written L lb0 n lb \<Longrightarrow> n < length lb0 \<Longrightarrow> hex_nil lb n = Inr (take n L @ [0] @ drop (Suc n) lb0, int n)"
  by (simp add: hex_nil_def written_end written_length)

lemma written_overflow2: "written L lb0 n lb \<Longrightarrow> n < length lb0 \<Longrightarrow>
  hex_overflow2 len g ng col a lb n = Inr (take n L @ [0] @ drop (Suc n) lb0, hex_overflow1 len g ng col a)"
  by (simp add: hex_overflow2_def written_end written_length)

text \<open>The ASCII column: the line is complete, or cut at the last position of the buffer.\<close>

lemma hex_tail_run:
  assumes w: "written h lb0 (length h) lb" and l: "length lb0 = linebuflen" "length h < linebuflen"
    and col: "length h \<le> col" and buf: "len \<le> length ptr"
    and L: "L = (if ascii then h @ replicate (col - length h) 32 @ map hex_printable (take len ptr) else h)"
    and ret: "hex_overflow1 len g ng col ascii = int (length L)"
  shows "hex_tail ptr len g ng col ascii linebuflen lb (length h) =
    (let k = min (length L) (linebuflen - 1) in Inr (take k L @ [0] @ drop (Suc k) lb0, int (length L)))"
proof (cases ascii)
  case False
  then show ?thesis using w l L written_nil [OF w] by (simp add: hex_tail_def Let_def)
next
  case True
  then have L': "L = h @ replicate (col - length h) 32 @ map hex_printable (take len ptr)" using L by simp
  have lenL: "length L = col + len" using col buf by (simp add: L')
  have wL: "written L lb0 (length h) lb" unfolding L' by (rule written_mono [OF w])
  have pad: "L ! i = 32" if "length h \<le> i" "i < col" for i using that by (auto simp: L' nth_append)
  have asc: "L ! (col + i) = hex_printable (ptr ! (0 + i))" if "i < len" for i
    using that col buf by (auto simp: L' nth_append)
  have lh: "length h < linebuflen" "length h \<le> col" "col \<le> length L" using l col lenL by auto
  from hex_pad_run [OF wL l(1) lh pad] obtain lb1 where lb1: "if col < linebuflen
    then hex_pad col linebuflen lb (length h) = Inr (False, lb1, col) \<and> written L lb0 col lb1
    else hex_pad col linebuflen lb (length h) = Inr (True, lb1, linebuflen - 1) \<and> written L lb0 (linebuflen - 1) lb1" by blast
  show ?thesis
  proof (cases "col < linebuflen")
    case False
    then show ?thesis using lb1 True ret l lenL written_overflow2 [of L lb0 "linebuflen - 1" lb1]
      by (simp add: hex_tail_def Let_def)
  next
    case c: True
    have p: "hex_pad col linebuflen lb (length h) = Inr (False, lb1, col)" and w1: "written L lb0 col lb1" using lb1 c by auto
    have b0: "0 + len \<le> length ptr" using buf by simp
    from hex_ascii_run [OF w1 l(1) c lenL b0 asc] obtain lb2 where lb2: "if length L < linebuflen
      then hex_ascii ptr linebuflen lb1 col 0 len = Inr (False, lb2, length L) \<and> written L lb0 (length L) lb2
      else hex_ascii ptr linebuflen lb1 col 0 len = Inr (True, lb2, linebuflen - 1) \<and> written L lb0 (linebuflen - 1) lb2" by blast
    show ?thesis
    proof (cases "length L < linebuflen")
      case t: True
      then show ?thesis using lb2 p True l written_nil [of L lb0 "length L" lb2] by (simp add: hex_tail_def Let_def)
    next
      case f: False
      then show ?thesis using lb2 p True l ret written_overflow2 [of L lb0 "linebuflen - 1" lb2] by (simp add: hex_tail_def Let_def)
    qed
  qed
qed

section \<open>The whole line\<close>

lemma hex_len_bounds: "0 < len \<Longrightarrow> 0 < hex_len len r \<and> hex_len len r \<le> hex_rowsize r"
  using hex_rowsize_cases [of r] by (auto simp: hex_len_def)

lemma hex_groupsize_cases:
  assumes "0 < len" "len \<le> 32"
  shows "hex_groupsize len g \<in> {1, 2, 4, 8} \<and> len mod unat (hex_groupsize len g) = 0"
proof (cases "is_power_of_2 g \<and> sint g \<le> 8")
  case False
  then have "hex_groupsize len g = 1" by (auto simp: hex_groupsize_def Let_def not_le)
  then show ?thesis by simp
next
  case True
  then obtain i where i: "i < 32" "g = push_bit i 1" by (auto simp: is_power_of_2_iff)
  have gs: "hex_groupsize len g = (if len mod unat g \<noteq> 0 then 1 else g)" using True by (simp add: hex_groupsize_def)
  have "g = of_nat (2 ^ i)" using i(2) by (simp add: push_bit_eq_mult)
  moreover have "(2 :: nat) ^ i < 2 ^ LENGTH(32)" using i(1) by (intro power_strict_increasing) auto
  ultimately have u: "unat g = 2 ^ i" by (simp only: unat_of_nat_small)
  show ?thesis
  proof (cases "i \<le> 3")
    case True
    then have "i = 0 \<or> i = 1 \<or> i = 2 \<or> i = 3" by auto
    then show ?thesis using gs u i by (auto simp: push_bit_eq_mult)
  next
    case big: False
    have "\<not> i < 31"
    proof
      assume "i < 31"
      then have "(2 :: int) ^ i < 2 ^ 31" by (intro power_strict_increasing) auto
      then have "sint (word_of_int (2 ^ i) :: s32) = 2 ^ i"
        by (intro sint_of_small) (auto intro: order_trans [of _ 0])
      moreover have "g = word_of_int (2 ^ i)" using i(2) by (simp add: push_bit_eq_mult)
      ultimately have "sint g = int (2 ^ i)" by simp
      moreover have "(2 :: int) ^ 4 \<le> 2 ^ i" using big by (intro power_increasing) auto
      ultimately show False using True by simp
    qed
    then have "i = 31" using i by simp
    then have "len mod unat g \<noteq> 0" using assms u by simp
    then show ?thesis using gs by simp
  qed
qed

lemma hex_sizes:
  assumes "g \<in> {1, 2, 4, 8 :: s32}"
  shows "sint g = int (unat g)" "unat g \<in> {1, 2, 4, 8}" "g = 1 \<longleftrightarrow> unat g = 1" "nat (int r sdiv sint g) = r div unat g"
proof -
  show s: "sint g = int (unat g)" and u: "unat g \<in> {1, 2, 4, 8}" and "g = 1 \<longleftrightarrow> unat g = 1" using assms by auto
  have d: "0 < n \<Longrightarrow> nat (int r sdiv int n) = r div n" for n by (simp add: sdiv_nonneg nat_div_distrib)
  have "0 < unat g" using u by auto
  from d [OF this] show "nat (int r sdiv sint g) = r div unat g" unfolding s .
qed

lemma hex_part_column:
  assumes "len \<le> rowsize" "g \<noteq> 0" "len \<le> length buf"
  shows "length (hex_part buf g (len div g)) \<le> rowsize * 2 + rowsize div g + 1"
proof -
  have "len div g * g \<le> length buf" using assms(3) by (meson div_times_less_eq_dividend le_trans)
  then have "length (hex_part buf g (len div g)) \<le> (2 * g + 1) * (len div g)" by (simp add: length_hex_part)
  also have "\<dots> = 2 * (len div g * g) + len div g" by (simp add: algebra_simps)
  also have "\<dots> \<le> 2 * rowsize + rowsize div g"
    using assms(1) by (meson add_mono div_le_mono div_times_less_eq_dividend le_trans mult_le_mono2)
  finally show ?thesis by simp
qed

lemma hex_line_length:
  assumes "0 < len" "len \<le> rowsize" "g \<noteq> 0" "len \<le> length buf" "len mod g = 0"
  shows "length (hex_line buf len rowsize g ascii) =
    (if ascii then rowsize * 2 + rowsize div g + 1 + len else (2 * g + 1) * (len div g) - 1)"
proof -
  have "len div g * g \<le> length buf" using assms(4) by (meson div_times_less_eq_dividend le_trans)
  moreover have "len div g \<noteq> 0" using assms by (metis div_eq_0_iff mod_less not_gr_zero)
  ultimately show ?thesis using hex_part_column [OF assms(2,3,4)] assms(4)
    by (simp add: hex_line_def Let_def length_hex_part)
qed

section \<open>Properties\<close>

text \<open>
  Hexadecimal text and bytes are inverse to each other. \<^verbatim>\<open>bin2hex\<close> fills exactly 2 * count bytes of its buffer and returns the
  pointer after them. \<^verbatim>\<open>hex2bin\<close> on 2 * count characters returns 0 exactly when all of them are hexadecimal digits of
  either case, and -1 otherwise; on digits it writes count bytes whose text, by \<^verbatim>\<open>bin2hex\<close>, is the given one in lower case. What
  \<^verbatim>\<open>bin2hex\<close> printed reads back as the same bytes.\<close>

theorem hex_roundtrip:
  assumes "2 * count \<le> length txt" "count \<le> length dst" "2 * count \<le> length out" "count \<le> length src"
  shows "(if list_all isxdigit (take (2 * count) txt)
      then \<exists>bs. length bs = count \<and> hex2bin dst txt count = Inr (bs @ drop count dst, 0) \<and>
             bin2hex out bs count = Inr (map tolower (take (2 * count) txt) @ drop (2 * count) out, 2 * count)
      else \<exists>d. length d = length dst \<and> hex2bin dst txt count = Inr (d, - 1)) \<and>
    (\<exists>t. bin2hex out src count = Inr (t, 2 * count) \<and> length t = length out \<and> drop (2 * count) t = drop (2 * count) out \<and>
       hex2bin dst t count = Inr (take count src @ drop count dst, 0))"
proof -
  let ?t = "concat (map byte_hex (take count src))"
  have lt: "length ?t = 2 * count" using assms(4) by simp
  have x: "list_all isxdigit ?t" using byte_hex_xdigit by (simp add: list_all_iff)
  have "list_all isxdigit (take (2 * count) (?t @ drop (2 * count) out))" using x lt by simp
  then obtain bs where bs: "length bs = count" "hex2bin dst (?t @ drop (2 * count) out) count = Inr (bs @ drop count dst, 0)"
    "concat (map byte_hex bs) = map tolower ?t"
    using hex2bin_digits [of count "?t @ drop (2 * count) out" dst] assms(2) lt by auto
  have low: "map tolower (byte_hex b) = byte_hex b" for b
  proof -
    have "unat b < 256" using unsigned_less [where 'a = nat, of b] by simp
    then have "unat b div 16 < 16" "unat b mod 16 < 16" by auto
    then have "tolower (hex_asc ! (unat b div 16)) = hex_asc ! (unat b div 16)" "tolower (hex_asc ! (unat b mod 16)) = hex_asc ! (unat b mod 16)"
      using hex_val_lower [OF hex_val_asc] by simp_all
    then show ?thesis by (simp add: byte_hex_def)
  qed
  have "map tolower ?t = ?t" by (simp add: map_concat comp_def low)
  with bs have "concat (map byte_hex bs) = concat (map byte_hex (take count src))" by simp
  moreover have "length bs = length (take count src)" using bs(1) assms(4) by simp
  ultimately have "bs = take count src" by (rule concat_byte_hex_inj [rotated])
  then have "\<exists>t. bin2hex out src count = Inr (t, 2 * count) \<and> length t = length out \<and> drop (2 * count) t = drop (2 * count) out \<and>
       hex2bin dst t count = Inr (take count src @ drop count dst, 0)"
    using bin2hex_eq [OF assms(4,3)] bs(2) lt assms(3) by simp
  moreover have "list_all isxdigit (take (2 * count) txt) \<Longrightarrow> \<exists>bs. length bs = count \<and> hex2bin dst txt count = Inr (bs @ drop count dst, 0) \<and>
             bin2hex out bs count = Inr (map tolower (take (2 * count) txt) @ drop (2 * count) out, 2 * count)"
    using hex2bin_digits [OF assms(1,2)] bin2hex_eq assms(3) by (metis order_refl take_all)
  ultimately show ?thesis using hex2bin_bad [OF assms(1,2)] by simp
qed

text \<open>The text \<open>0aF\<close> with one more digit, and a letter that is no digit.\<close>

theorem hex_roundtrip_witness:
  "list_all isxdigit (take (2 * 2) (str_bytes ''0aF7'')) \<and>
   hex2bin [1, 2, 3] (str_bytes ''0aF7'') 2 = Inr ([0x0a, 0xf7, 3], 0) \<and>
   (\<exists>bs. length bs = 2 \<and> hex2bin [1, 2, 3] (str_bytes ''0aF7'') 2 = Inr (bs @ drop 2 [1, 2, 3], 0) \<and>
     bin2hex [0, 0, 0, 0, 9] bs 2 = Inr (map tolower (take (2 * 2) (str_bytes ''0aF7'')) @ drop (2 * 2) [0, 0, 0, 0, 9], 2 * 2))"
proof -
  have d: "list_all isxdigit (take (2 * 2) (str_bytes ''0aF7''))" by code_simp
  moreover have "hex2bin [1, 2, 3] (str_bytes ''0aF7'') 2 = Inr ([0x0a, 0xf7, 3], 0)" by code_simp
  moreover have "2 * 2 \<le> length (str_bytes ''0aF7'')" by code_simp
  ultimately show ?thesis using hex_roundtrip [of 2 "str_bytes ''0aF7''" "[1, 2, 3]" "[0, 0, 0, 0, 9]" "[5, 6]"] by simp
qed

lemma hex_dump_groups:
  assumes lb: "length linebuf = linebuflen" "0 < linebuflen" and len: "0 < len" "len \<le> rowsize" "len \<le> length buf"
    and g: "g \<noteq> 0" "len mod g = 0" and L: "L = hex_line buf len rowsize g ascii"
    and ret: "hex_overflow1 len gs (len div g) (rowsize * 2 + rowsize div g + 1) ascii = int (length L)"
  shows "rbind (hex_groups buf g linebuflen linebuf 0 0 (len div g)) (\<lambda>(ov, lb, lx).
      if ov then Inr (lb, hex_overflow1 len gs (len div g) (rowsize * 2 + rowsize div g + 1) ascii)
      else hex_tail buf len gs (len div g) (rowsize * 2 + rowsize div g + 1) ascii linebuflen lb lx) =
    (let k = min (length L) (linebuflen - 1) in Inr (take k L @ [0] @ drop (Suc k) linebuf, int (length L)))"
proof -
  let ?h = "hex_part buf g (len div g)" and ?col = "rowsize * 2 + rowsize div g + 1"
  have pre: "\<exists>m. L = ?h @ m" by (auto simp: L hex_line_def Let_def)
  have b: "(0 + len div g) * g \<le> length buf" using len(3) by (simp add: div_times_less_eq_dividend le_trans [of _ len])
  have w0: "written ?h linebuf 0 linebuf" by (simp add: written_def)
  from hex_groups_run [OF b lb(1) _ w0 _ lb(2), of]
  have run: "if length ?h < linebuflen
    then \<exists>lb'. hex_groups buf g linebuflen linebuf 0 0 (len div g) = Inr (False, lb', length ?h) \<and> written ?h linebuf (length ?h) lb'
    else \<exists>lx'. hex_groups buf g linebuflen linebuf 0 0 (len div g) = Inr (True, take (linebuflen - 1) ?h @ [0], lx')"
    by (simp add: hex_part_def)
  show ?thesis
  proof (cases "length ?h < linebuflen")
    case True
    then obtain lb' where lb': "hex_groups buf g linebuflen linebuf 0 0 (len div g) = Inr (False, lb', length ?h)" "written ?h linebuf (length ?h) lb'"
      using run by auto
    from hex_tail_run [OF lb'(2) lb(1) True hex_part_column [OF len(2) g(1) len(3)] len(3) _ ret] lb'(1)
    show ?thesis by (simp add: L hex_line_def Let_def)
  next
    case False
    then obtain lx' where "hex_groups buf g linebuflen linebuf 0 0 (len div g) = Inr (True, take (linebuflen - 1) ?h @ [0], lx')"
      using run by auto
    moreover have "take (linebuflen - 1) ?h = take (linebuflen - 1) L" "linebuflen - 1 \<le> length L" using pre False by auto
    ultimately show ?thesis using lb ret by (simp add: Let_def min_def)
  qed
qed

lemma hex_dump_bytes:
  assumes lb: "length linebuf = linebuflen" "0 < linebuflen" and len: "0 < len" "len \<le> rowsize" "len \<le> length buf"
    and L: "L = hex_line buf len rowsize 1 ascii"
    and ret: "hex_overflow1 len gs len (rowsize * 2 + rowsize + 1) ascii = int (length L)"
  shows "rbind (hex_bytes buf linebuflen linebuf 0 0 len) (\<lambda>(ov, lb, lx).
      if ov then hex_overflow2 len gs len (rowsize * 2 + rowsize + 1) ascii lb lx
      else hex_tail buf len gs len (rowsize * 2 + rowsize + 1) ascii linebuflen lb (lx - 1)) =
    (let k = (if linebuflen < 3 * len then 3 * (linebuflen div 3) else min (length L) (linebuflen - 1)) in
     if k < linebuflen then Inr (take k L @ [0] @ drop (Suc k) linebuf, int (length L)) else Inl OutOfBounds)"
proof -
  let ?h = "hex_part buf 1 len" and ?col = "rowsize * 2 + rowsize + 1"
  have B: "bytes_text buf len = ?h @ [32]" using len by (intro bytes_text_part) auto
  have lh: "length ?h = 3 * len - 1" using length_bytes_text [of buf len] unfolding B by simp
  have run: "hex_bytes buf linebuflen linebuf 0 0 len =
    (if 3 * len \<le> linebuflen then Inr (False, laid (?h @ [32]) linebuf (3 * len), 3 * len)
     else Inr (True, laid (?h @ [32]) linebuf (3 * (linebuflen div 3)), 3 * (linebuflen div 3)))"
    using hex_bytes_run [of 0 len buf linebuf linebuflen "?h @ [32]"] lb len B by (simp add: laid_def)
  show ?thesis
  proof (cases "3 * len \<le> linebuflen")
    case True
    have "drop (3 * len) (laid (?h @ [32]) linebuf (3 * len)) = drop (3 * len) linebuf" using True lb lh by (simp add: laid_def)
    moreover have "take (3 * len - 1) (laid (?h @ [32]) linebuf (3 * len)) = ?h" using lh by (simp add: laid_def)
    ultimately have w: "written ?h linebuf (length ?h) (laid (?h @ [32]) linebuf (3 * len))"
      using True lb lh len by (simp add: written_def laid_def)
    have c: "length ?h \<le> ?col" using lh len by simp
    have l': "length ?h < linebuflen" using True lh len by simp
    have "hex_tail buf len gs len ?col ascii linebuflen (laid (?h @ [32]) linebuf (3 * len)) (length ?h) =
      (let k = min (length L) (linebuflen - 1) in Inr (take k L @ [0] @ drop (Suc k) linebuf, int (length L)))"
      by (rule hex_tail_run [OF w lb(1) l' c len(3) _ ret]) (simp add: L hex_line_def Let_def)
    then show ?thesis using True run lh lb by (simp add: Let_def)
  next
    case False
    let ?k = "3 * (linebuflen div 3)"
    have k: "?k \<le> linebuflen" "?k \<le> length ?h" using False lh by auto
    have pre: "\<exists>m. L = ?h @ m" by (auto simp: L hex_line_def Let_def)
    have w: "written (?h @ [32]) linebuf ?k (laid (?h @ [32]) linebuf ?k)" using k lb by (intro laid_written) auto
    show ?thesis
    proof (cases "?k < linebuflen")
      case True
      have "take ?k (?h @ [32]) = take ?k L" using pre k(2) by auto
      then show ?thesis using written_overflow2 [OF w] True False run ret lb by (simp add: Let_def)
    next
      case eq: False
      then show ?thesis using False run lb k(1) by (simp add: Let_def hex_overflow2_def laid_def)
    qed
  qed
qed

text \<open>
  C33: One line of a hex dump, exactly. For a buffer of linebuflen bytes and non-empty data, \<^verbatim>\<open>hex_dump_to_buffer\<close> returns the length of the whole
  line (the groups of one, two, four or eight bytes, least significant byte last, and with ascii the printable characters in their fixed
  column), whether it fits or not. If the line and its NUL fit, they are written and nothing else; otherwise the line is cut, at the last
  byte of the buffer or, for groups of one byte that do not all fit, after the last whole byte, and a NUL follows it inside the buffer. The one exception is
  the second case when linebuflen is a multiple of three: then the NUL goes to linebuf[linebuflen], one past the end.\<close>

theorem hex_dump_line:
  assumes "length linebuf = linebuflen" "0 < len" "hex_len len rowsize \<le> length buf"
  shows "let l = hex_len len rowsize; g = unat (hex_groupsize l groupsize);
      L = hex_line buf l (hex_rowsize rowsize) g ascii;
      k = (if g = 1 \<and> linebuflen < 3 * l then 3 * (linebuflen div 3) else min (length L) (linebuflen - 1))
    in hex_dump_to_buffer buf len rowsize groupsize linebuf linebuflen ascii =
      (if linebuflen = 0 then Inr (linebuf, int (length L))
       else if k < linebuflen then Inr (take k L @ [0] @ drop (Suc k) linebuf, int (length L))
       else Inl OutOfBounds)"
proof -
  define l where "l = hex_len len rowsize"
  define gw where "gw = hex_groupsize l groupsize"
  define g where "g = unat gw"
  define R where "R = hex_rowsize rowsize"
  define L where "L = hex_line buf l R g ascii"
  have l: "0 < l" "l \<le> R" "l \<le> length buf" "l \<le> 32"
    using hex_len_bounds [OF assms(2), of rowsize] assms(3) hex_rowsize_cases [of rowsize] by (auto simp: l_def R_def)
  have gw: "gw \<in> {1, 2, 4, 8}" "l mod g = 0" using hex_groupsize_cases [OF l(1,4), of groupsize] by (auto simp: gw_def g_def)
  note sz = hex_sizes [OF gw(1), folded g_def]
  have g0: "g \<noteq> 0" using sz(2) by auto
  let ?col = "R * 2 + R div g + 1"
  have ret: "hex_overflow1 l gw (l div g) ?col ascii = int (length L)"
  proof -
    have "l div g \<noteq> 0" using gw(2) l(1) by (metis div_eq_0_iff mod_less not_gr_zero g0)
    then have "0 < (2 * g + 1) * (l div g)" by simp
    then show ?thesis using hex_line_length [OF l(1,2) g0 l(3) gw(2), of ascii]
      by (auto simp: hex_overflow1_def L_def sz(1) of_nat_diff algebra_simps)
  qed
  have body: "hex_dump_to_buffer buf len rowsize groupsize linebuf linebuflen ascii =
    (if linebuflen = 0 then Inr (linebuf, int (length L))
     else if gw = 8 \<or> gw = 4 \<or> gw = 2 then rbind (hex_groups buf g linebuflen linebuf 0 0 (l div g)) (\<lambda>(ov, lb, lx).
       if ov then Inr (lb, hex_overflow1 l gw (l div g) ?col ascii) else hex_tail buf l gw (l div g) ?col ascii linebuflen lb lx)
     else rbind (hex_bytes buf linebuflen linebuf 0 0 l) (\<lambda>(ov, lb, lx).
       if ov then hex_overflow2 l gw (l div g) ?col ascii lb lx
       else hex_tail buf l gw (l div g) ?col ascii linebuflen lb (lx - 1)))"
    using l(1) ret unfolding hex_dump_to_buffer_def Let_def l_def [symmetric] gw_def [symmetric] g_def [symmetric] R_def [symmetric] sz(4)
    by simp
  have "hex_dump_to_buffer buf len rowsize groupsize linebuf linebuflen ascii =
    (let k = (if g = 1 \<and> linebuflen < 3 * l then 3 * (linebuflen div 3) else min (length L) (linebuflen - 1)) in
     if linebuflen = 0 then Inr (linebuf, int (length L))
     else if k < linebuflen then Inr (take k L @ [0] @ drop (Suc k) linebuf, int (length L)) else Inl OutOfBounds)"
  proof (cases "gw = 1")
    case True
    then have g1: "g = 1" using sz(3) by simp
    have "hex_overflow1 l gw l (R * 2 + R + 1) ascii = int (length L)" using ret unfolding g1 div_by_1 .
    note b = hex_dump_bytes [OF assms(1) _ l(1,2,3) L_def [unfolded g1] this]
    show ?thesis
    proof (cases "linebuflen = 0")
      case False
      then show ?thesis using b unfolding body g1 div_by_1 True by (simp add: Let_def)
    qed (use body in simp)
  next
    case False
    then have gs: "gw = 8 \<or> gw = 4 \<or> gw = 2" "g \<noteq> 1" using gw(1) sz(3) by auto
    show ?thesis
      using hex_dump_groups [OF assms(1) _ l(1,2,3) g0 gw(2) L_def ret] gs unfolding body by (auto simp: Let_def min_def)
  qed
  then show ?thesis by (simp only: Let_def l_def gw_def g_def R_def L_def)
qed

text \<open>Four bytes in one group with the ASCII column; and three bytes into a buffer of six bytes, where the NUL goes past the end.\<close>

theorem hex_dump_line_witness:
  "hex_line [0x40, 0x41, 0x07, 0x43] 4 16 4 True = str_bytes ''43074140'' @ replicate 29 32 @ str_bytes ''@A.C'' \<and>
   hex_dump_to_buffer [0x40, 0x41, 0x07, 0x43] 4 16 4 (replicate 60 1) 60 True =
     Inr (str_bytes ''43074140'' @ replicate 29 32 @ str_bytes ''@A.C'' @ [0] @ replicate 18 1, 41) \<and>
   hex_dump_to_buffer [1, 2, 3] 3 16 1 (replicate 6 0) 6 False = Inl OutOfBounds"
proof -
  have L: "hex_line [0x40, 0x41, 0x07, 0x43] 4 16 4 True = str_bytes ''43074140'' @ replicate 29 32 @ str_bytes ''@A.C''" by code_simp
  have h: "hex_len 4 16 = 4" "hex_rowsize 16 = 16" "unat (hex_groupsize 4 4) = 4" "hex_len 3 16 = 3" "unat (hex_groupsize 3 1) = 1"
    by code_simp+
  have s: "length (str_bytes ''43074140'') = 8" "length (str_bytes ''@A.C'') = 4" by code_simp+
  have "hex_dump_to_buffer [0x40, 0x41, 0x07, 0x43] 4 16 4 (replicate 60 1) 60 True =
     Inr (str_bytes ''43074140'' @ replicate 29 32 @ str_bytes ''@A.C'' @ [0] @ replicate 18 1, 41)"
    using hex_dump_line [of "replicate 60 1" 60 4 16 "[0x40, 0x41, 0x07, 0x43]" 4 True] by (simp add: h L s Let_def)
  moreover have "hex_dump_to_buffer [1, 2, 3] 3 16 1 (replicate 6 0) 6 False = Inl OutOfBounds"
    using hex_dump_line [of "replicate 6 0" 6 3 16 "[1, 2, 3]" 1 False] by (simp add: h Let_def)
  ultimately show ?thesis using L by blast
qed

section \<open>A dump is its lines\<close>

lemma hex_asc_not_nul: "v < 16 \<Longrightarrow> hex_asc ! v \<noteq> 0"
  using hex_val_asc [of v] by (auto simp: hex_val_def)

lemma byte_hex_not_nul: "0 \<notin> set (byte_hex b)"
proof -
  have "unat b < 256" using unsigned_less [where 'a = nat, of b] by simp
  then have "unat b div 16 < 16" "unat b mod 16 < 16" by auto
  then show ?thesis using hex_asc_not_nul by (auto simp: byte_hex_def)
qed

lemma hex_line_not_nul: "0 \<notin> set (hex_line buf len rowsize g ascii)"
proof -
  have "hex_printable c \<noteq> 0" for c using ctype_ascii [of 0] by (auto simp: hex_printable_def)
  then have "0 \<notin> set (map hex_printable (take len buf))" by auto
  moreover have "0 \<notin> set (hex_part buf g n)" for n using byte_hex_not_nul by (auto simp: hex_part_def group_text_def group_hex_def)
  ultimately show ?thesis by (auto simp: hex_line_def Let_def)
qed

lemma strlen_at_nul: "0 \<notin> set s \<Longrightarrow> strlen (s @ 0 # t) = Inr (length s)"
  by (induction s) auto

definition hex_line_at :: "int \<Rightarrow> s32 \<Rightarrow> u8 list \<Rightarrow> nat \<Rightarrow> bool \<Rightarrow> nat \<Rightarrow> u8 list" where
  "hex_line_at rowsize groupsize buf len ascii i =
     (let r = hex_rowsize rowsize; l = min (len - i) r
      in hex_line (drop i buf) l r (unat (hex_groupsize l groupsize)) ascii)"

lemma hex_dump_fits:
  assumes "length lb = 131" "i < len" "len \<le> length buf"
  shows "\<exists>rest. length (hex_line_at rowsize groupsize buf len ascii i @ [0] @ rest) = 131 \<and>
    hex_dump_to_buffer (drop i buf) (min (len - i) (hex_rowsize rowsize)) (int (hex_rowsize rowsize)) groupsize lb 131 ascii =
      Inr (hex_line_at rowsize groupsize buf len ascii i @ [0] @ rest, int (length (hex_line_at rowsize groupsize buf len ascii i)))"
proof -
  define r where "r = hex_rowsize rowsize"
  define l where "l = min (len - i) r"
  define g where "g = unat (hex_groupsize l groupsize)"
  define L where "L = hex_line (drop i buf) l r g ascii"
  have r: "r = 16 \<or> r = 32" using hex_rowsize_cases [of rowsize] by (simp add: r_def)
  have rr: "hex_rowsize (int r) = r" "hex_len l (int r) = l" using r by (auto simp: hex_rowsize_def hex_len_def l_def)
  have l: "0 < l" "l \<le> r" "l \<le> 32" "l \<le> length (drop i buf)" using assms r by (auto simp: l_def)
  have g: "g \<in> {1, 2, 4, 8}" "l mod g = 0" using hex_groupsize_cases [OF l(1,3), of groupsize] by (auto simp: g_def)
  have e: "length L = (if ascii then r * 2 + r div g + 1 + l else (2 * g + 1) * (l div g) - 1)"
    unfolding L_def by (rule hex_line_length) (use l g in auto)
  have "r div g \<le> r" "l div g \<le> l" by simp_all
  moreover have "g * (l div g) \<le> l" by simp
  then have "(2 * g + 1) * (l div g) \<le> 2 * l + l div g" by (simp add: add_mult_distrib mult.assoc)
  ultimately have L: "length L \<le> 130" using r l(2) unfolding e by (simp only: split: if_split) linarith
  have "hex_dump_to_buffer (drop i buf) l (int r) groupsize lb 131 ascii = Inr (L @ [0] @ drop (Suc (length L)) lb, int (length L))"
    using hex_dump_line [OF assms(1) l(1), of "int r" "drop i buf" groupsize ascii] L l
    by (simp add: Let_def rr g_def [symmetric] L_def [symmetric])
  moreover have "hex_line_at rowsize groupsize buf len ascii i = L"
    by (simp add: hex_line_at_def L_def l_def r_def g_def Let_def)
  ultimately show ?thesis using L assms(1) by (simp add: l_def r_def)
qed

lemma print_hex_loop_lines:
  assumes "length lb = 131" "len \<le> length buf" "remaining = int len - int i"
  shows "print_hex_loop t rowsize groupsize addr buf len ascii i remaining lb =
    Inr (map (\<lambda>k. (dump_prefix_of t addr (i + k * hex_rowsize rowsize), hex_line_at rowsize groupsize buf len ascii (i + k * hex_rowsize rowsize)))
      [0..<(len - i + hex_rowsize rowsize - 1) div hex_rowsize rowsize])"
  using assms
proof (induction "len - i" arbitrary: i remaining lb rule: less_induct)
  case less
  let ?r = "hex_rowsize rowsize"
  have r: "0 < ?r" using hex_rowsize_cases [of rowsize] by auto
  show ?case
  proof (cases "i < len")
    case False
    then have "(len - i + ?r - 1) div ?r = 0" using r by simp
    then show ?thesis using False by (subst print_hex_loop.simps) simp
  next
    case True
    let ?L = "hex_line_at rowsize groupsize buf len ascii i"
    from hex_dump_fits [OF less.prems(1) True less.prems(2), of rowsize groupsize ascii]
    obtain rest where rest: "length (?L @ [0] @ rest) = 131"
      "hex_dump_to_buffer (drop i buf) (min (len - i) ?r) (int ?r) groupsize lb 131 ascii = Inr (?L @ [0] @ rest, int (length ?L))" by blast
    have m: "nat (min remaining (int ?r)) = min (len - i) ?r" using less.prems(3) True by (auto simp: min_def)
    have s: "strlen (?L @ [0] @ rest) = Inr (length ?L)"
      using strlen_at_nul [of ?L rest] hex_line_not_nul by (simp add: hex_line_at_def Let_def)
    have d: "len - (i + ?r) < len - i" "remaining - int ?r = int len - int (i + ?r)" using True r less.prems(3) by (auto intro: diff_less_mono2)
    have n: "(len - i + ?r - 1) div ?r = Suc ((len - (i + ?r) + ?r - 1) div ?r)"
    proof (cases "len \<le> i + ?r")
      case le: True
      then have "(len - (i + ?r) + ?r - 1) div ?r = 0" using r by simp
      moreover have "(len - i + ?r - 1) div ?r = 1" using le True r by (intro div_nat_eqI) auto
      ultimately show ?thesis by simp
    next
      case False
      then have "len - i + ?r - 1 = (len - (i + ?r) + ?r - 1) + ?r" using r by simp
      then show ?thesis using r div_add_self2 [of ?r "len - (i + ?r) + ?r - 1"] by (simp only:)
    qed
    have "print_hex_loop t rowsize groupsize addr buf len ascii i remaining lb =
      rbind (print_hex_loop t rowsize groupsize addr buf len ascii (i + ?r) (remaining - int ?r) (?L @ [0] @ rest)) (\<lambda>out.
        Inr ((dump_prefix_of t addr i, ?L) # out))"
      by (subst print_hex_loop.simps) (use True m rest(2) s in \<open>simp add: Let_def\<close>)
    then show ?thesis unfolding less.hyps [OF d(1) rest(1) less.prems(2) d(2)] n
      by (simp add: upt_conv_Cons map_Suc_upt [symmetric] comp_def add.assoc [symmetric] del: upt_Suc)
  qed
qed

lemma print_hex_dump_lines:
  assumes "length linebuf = 131" "len \<le> length buf"
  shows "print_hex_dump t rowsize groupsize addr buf len ascii linebuf =
    Inr (map (\<lambda>k. (dump_prefix_of t addr (k * hex_rowsize rowsize), hex_line_at rowsize groupsize buf len ascii (k * hex_rowsize rowsize)))
      [0..<(len + hex_rowsize rowsize - 1) div hex_rowsize rowsize])"
  using print_hex_loop_lines [OF assms, of "int len" 0] by (simp add: print_hex_dump_def)

end
