(* ===== verification/Kfifo.thy ===== *)
theory Kfifo
  imports Bitops
begin

text \<open>
  The ring buffer of \<^verbatim>\<open>lib/kfifo.c\<close> and the macros of \<^verbatim>\<open>include/linux/kfifo.h\<close>. The indices \<^verbatim>\<open>in\<close> and \<^verbatim>\<open>out\<close> are 32-bit
  counters that are never reduced: they wrap around together, and the position in the buffer is the index masked
  by the size minus one. Buffers are lists of bytes and an access outside them is a fault. \<^verbatim>\<open>kmalloc\<close> is a
  parameter that gives the bytes of the new object. The copies from and to user space are parameters:
  \<open>cfu off n\<close> is what a \<^verbatim>\<open>copy_from_user\<close> of \<open>n\<close> bytes at offset \<open>off\<close> of the user's buffer stores and how many bytes it
  could not read, \<open>ctu off bs\<close> is how many of the bytes \<open>bs\<close> a \<^verbatim>\<open>copy_to_user\<close> at offset \<open>off\<close> could not write.
  The write barriers order the accesses of two processors and have no effect here.
\<close>

section \<open>State\<close>

record kfifo =
  kf_in :: u32
  kf_out :: u32
  kf_mask :: u32
  kf_esize :: u32
  kf_data :: "u8 list option"

definition kfifo_unused :: "kfifo \<Rightarrow> u32" where
  "kfifo_unused fifo = (kf_mask fifo + 1) - (kf_in fifo - kf_out fifo)"

definition kfifo_size :: "kfifo \<Rightarrow> u32" where "kfifo_size fifo = kf_mask fifo + 1"
definition kfifo_len :: "kfifo \<Rightarrow> u32" where "kfifo_len fifo = kf_in fifo - kf_out fifo"
definition kfifo_is_empty :: "kfifo \<Rightarrow> bool" where "kfifo_is_empty fifo \<longleftrightarrow> kf_in fifo = kf_out fifo"
definition kfifo_is_full :: "kfifo \<Rightarrow> bool" where "kfifo_is_full fifo \<longleftrightarrow> kfifo_len fifo > kf_mask fifo"
definition kfifo_initialized :: "kfifo \<Rightarrow> bool" where "kfifo_initialized fifo \<longleftrightarrow> kf_mask fifo \<noteq> 0"
definition kfifo_reset :: "kfifo \<Rightarrow> kfifo" where "kfifo_reset fifo = fifo\<lparr>kf_in := 0, kf_out := 0\<rparr>"
definition kfifo_reset_out :: "kfifo \<Rightarrow> kfifo" where "kfifo_reset_out fifo = fifo\<lparr>kf_out := kf_in fifo\<rparr>"

definition kfifo_alloc :: "(u32 \<Rightarrow> u8 list option) \<Rightarrow> kfifo \<Rightarrow> u32 \<Rightarrow> u32 \<Rightarrow> (kfifo \<times> int) res" where
  "kfifo_alloc kmalloc fifo size0 esize =
     rbind (roundup_pow_of_two size0) (\<lambda>sz.
     let fifo = fifo\<lparr>kf_in := 0, kf_out := 0, kf_esize := esize\<rparr> in
     if sz < 2 then Inr (fifo\<lparr>kf_data := None, kf_mask := 0\<rparr>, - 22)
     else case kmalloc (sz * esize) of
       None \<Rightarrow> Inr (fifo\<lparr>kf_data := None, kf_mask := 0\<rparr>, - 12)
     | Some d \<Rightarrow> Inr (fifo\<lparr>kf_data := Some d, kf_mask := sz - 1\<rparr>, 0))"

definition kfifo_free :: "kfifo \<Rightarrow> kfifo" where
  "kfifo_free fifo = fifo\<lparr>kf_in := 0, kf_out := 0, kf_esize := 0, kf_data := None, kf_mask := 0\<rparr>"

definition kfifo_init :: "kfifo \<Rightarrow> u8 list \<Rightarrow> u32 \<Rightarrow> u32 \<Rightarrow> (kfifo \<times> int) res" where
  "kfifo_init fifo buffer size0 esize =
     (if esize = 0 then Inl DivByZero
      else rbind (roundup_pow_of_two (size0 div esize)) (\<lambda>sz.
      let fifo = fifo\<lparr>kf_in := 0, kf_out := 0, kf_esize := esize, kf_data := Some buffer\<rparr> in
      if sz < 2 then Inr (fifo\<lparr>kf_mask := 0\<rparr>, - 22)
      else Inr (fifo\<lparr>kf_mask := sz - 1\<rparr>, 0)))"

section \<open>Elements of a fixed size\<close>

text \<open>\<^verbatim>\<open>memcpy\<close> of \<open>n\<close> bytes at offset \<open>soff\<close> of \<open>src\<close> to offset \<open>off\<close> of \<open>d\<close>.\<close>

definition copy_bytes :: "u8 list \<Rightarrow> nat \<Rightarrow> u8 list \<Rightarrow> nat \<Rightarrow> nat \<Rightarrow> u8 list res" where
  "copy_bytes d off src soff n =
     (if n = 0 then Inr d
      else if off + n \<le> length d \<and> soff + n \<le> length src
        then Inr (take off d @ take n (drop soff src) @ drop (off + n) d)
        else Inl OutOfBounds)"

text \<open>The offset and length in bytes of a transfer, and how much of it lies before the end of the buffer.\<close>

definition kfifo_split :: "kfifo \<Rightarrow> u32 \<Rightarrow> u32 \<Rightarrow> u32 \<times> u32 \<times> u32" where
  "kfifo_split fifo len0 off0 =
     (let off1 = off0 AND kf_mask fifo; esize = kf_esize fifo; sz1 = kf_mask fifo + 1;
          off = (if esize \<noteq> 1 then off1 * esize else off1);
          sz = (if esize \<noteq> 1 then sz1 * esize else sz1);
          len = (if esize \<noteq> 1 then len0 * esize else len0)
      in (off, len, min len (sz - off)))"

definition kfifo_copy_in :: "kfifo \<Rightarrow> u8 list \<Rightarrow> u32 \<Rightarrow> u32 \<Rightarrow> kfifo res" where
  "kfifo_copy_in fifo src len0 off0 =
     (case kfifo_split fifo len0 off0 of (off, len, l) \<Rightarrow>
      rbind (deref (kf_data fifo)) (\<lambda>d.
      rbind (copy_bytes d (unat off) src 0 (unat l)) (\<lambda>d.
      rbind (copy_bytes d 0 src (unat l) (unat (len - l))) (\<lambda>d.
      Inr (fifo\<lparr>kf_data := Some d\<rparr>)))))"

definition kfifo_in :: "kfifo \<Rightarrow> u8 list \<Rightarrow> u32 \<Rightarrow> (kfifo \<times> u32) res" where
  "kfifo_in fifo buf len0 =
     (let l = kfifo_unused fifo; len = (if len0 > l then l else len0) in
      rbind (kfifo_copy_in fifo buf len (kf_in fifo)) (\<lambda>fifo.
      Inr (fifo\<lparr>kf_in := kf_in fifo + len\<rparr>, len)))"

text \<open>The destination after the copy.\<close>

definition kfifo_copy_out :: "kfifo \<Rightarrow> u8 list \<Rightarrow> u32 \<Rightarrow> u32 \<Rightarrow> u8 list res" where
  "kfifo_copy_out fifo dst len0 off0 =
     (case kfifo_split fifo len0 off0 of (off, len, l) \<Rightarrow>
      rbind (deref (kf_data fifo)) (\<lambda>d.
      rbind (copy_bytes dst 0 d (unat off) (unat l)) (\<lambda>dst.
      copy_bytes dst (unat l) d 0 (unat (len - l)))))"

definition kfifo_out_peek :: "kfifo \<Rightarrow> u8 list \<Rightarrow> u32 \<Rightarrow> (u8 list \<times> u32) res" where
  "kfifo_out_peek fifo buf len0 =
     (let l = kf_in fifo - kf_out fifo; len = (if len0 > l then l else len0) in
      rbind (kfifo_copy_out fifo buf len (kf_out fifo)) (\<lambda>buf. Inr (buf, len)))"

definition kfifo_out :: "kfifo \<Rightarrow> u8 list \<Rightarrow> u32 \<Rightarrow> (kfifo \<times> u8 list \<times> u32) res" where
  "kfifo_out fifo buf len0 =
     rbind (kfifo_out_peek fifo buf len0) (\<lambda>(buf, len).
     Inr (fifo\<lparr>kf_out := kf_out fifo + len\<rparr>, buf, len))"

definition div_round_up :: "u32 \<Rightarrow> u32 \<Rightarrow> u32 res" where
  "div_round_up n d = (if d = 0 then Inl DivByZero else Inr ((n + d - 1) div d))"

text \<open>The buffer after the copies, the number of elements not copied, and \<^verbatim>\<open>copied\<close>.\<close>

definition kfifo_copy_from_user ::
    "(nat \<Rightarrow> nat \<Rightarrow> u8 list \<times> nat) \<Rightarrow> kfifo \<Rightarrow> u32 \<Rightarrow> u32 \<Rightarrow> (kfifo \<times> u32 \<times> u32) res" where
  "kfifo_copy_from_user cfu fifo len0 off0 =
     (case kfifo_split fifo len0 off0 of (off, len, l) \<Rightarrow>
      rbind (deref (kf_data fifo)) (\<lambda>d.
      case cfu 0 (unat l) of (bs, ret) \<Rightarrow>
      rbind (copy_bytes d (unat off) bs 0 (unat l)) (\<lambda>d.
      rbind
        (if ret \<noteq> 0 then rbind (div_round_up (of_nat ret + len - l) (kf_esize fifo)) (\<lambda>r. Inr (d, r))
         else case cfu (unat l) (unat (len - l)) of (bs, ret) \<Rightarrow>
           rbind (copy_bytes d 0 bs 0 (unat (len - l))) (\<lambda>d.
           if ret \<noteq> 0 then rbind (div_round_up (of_nat ret) (kf_esize fifo)) (\<lambda>r. Inr (d, r)) else Inr (d, 0)))
        (\<lambda>(d, ret). Inr (fifo\<lparr>kf_data := Some d\<rparr>, ret, len - ret * kf_esize fifo)))))"

definition kfifo_from_user ::
    "(nat \<Rightarrow> nat \<Rightarrow> u8 list \<times> nat) \<Rightarrow> kfifo \<Rightarrow> u32 \<Rightarrow> (kfifo \<times> u32 \<times> int) res" where
  "kfifo_from_user cfu fifo len0 =
     (if kf_esize fifo = 0 then Inl DivByZero
      else let len1 = (if kf_esize fifo \<noteq> 1 then len0 div kf_esize fifo else len0);
               l = kfifo_unused fifo; len = (if len1 > l then l else len1) in
      rbind (kfifo_copy_from_user cfu fifo len (kf_in fifo)) (\<lambda>(fifo, ret, copied).
      Inr (if ret \<noteq> 0 then (fifo\<lparr>kf_in := kf_in fifo + (len - ret)\<rparr>, copied, - 14)
           else (fifo\<lparr>kf_in := kf_in fifo + len\<rparr>, copied, 0))))"

text \<open>The bytes the user's buffer received, the number of elements not copied, and \<^verbatim>\<open>copied\<close>.\<close>

definition kfifo_copy_to_user ::
    "(nat \<Rightarrow> u8 list \<Rightarrow> nat) \<Rightarrow> kfifo \<Rightarrow> u32 \<Rightarrow> u32 \<Rightarrow> (u8 list \<times> u32 \<times> u32) res" where
  "kfifo_copy_to_user ctu fifo len0 off0 =
     (case kfifo_split fifo len0 off0 of (off, len, l) \<Rightarrow>
      rbind (deref (kf_data fifo)) (\<lambda>d.
      rbind (copy_bytes (replicate (unat l) 0) 0 d (unat off) (unat l)) (\<lambda>b1.
      let ret = ctu 0 b1 in
      rbind
        (if ret \<noteq> 0 then rbind (div_round_up (of_nat ret + len - l) (kf_esize fifo)) (\<lambda>r. Inr (take (length b1 - ret) b1, r))
         else rbind (copy_bytes (replicate (unat (len - l)) 0) 0 d 0 (unat (len - l))) (\<lambda>b2.
           let ret = ctu (unat l) b2 in
           if ret \<noteq> 0 then rbind (div_round_up (of_nat ret) (kf_esize fifo)) (\<lambda>r. Inr (b1 @ take (length b2 - ret) b2, r))
           else Inr (b1 @ b2, 0)))
        (\<lambda>(out, ret). Inr (out, ret, len - ret * kf_esize fifo)))))"

definition kfifo_to_user ::
    "(nat \<Rightarrow> u8 list \<Rightarrow> nat) \<Rightarrow> kfifo \<Rightarrow> u32 \<Rightarrow> (kfifo \<times> u8 list \<times> u32 \<times> int) res" where
  "kfifo_to_user ctu fifo len0 =
     (if kf_esize fifo = 0 then Inl DivByZero
      else let len1 = (if kf_esize fifo \<noteq> 1 then len0 div kf_esize fifo else len0);
               l = kf_in fifo - kf_out fifo; len = (if len1 > l then l else len1) in
      rbind (kfifo_copy_to_user ctu fifo len (kf_out fifo)) (\<lambda>(out, ret, copied).
      Inr (if ret \<noteq> 0 then (fifo\<lparr>kf_out := kf_out fifo + (len - ret)\<rparr>, out, copied, - 14)
           else (fifo\<lparr>kf_out := kf_out fifo + len\<rparr>, out, copied, 0))))"

section \<open>Reading and writing around the end of a buffer\<close>

text \<open>The byte at a position counted around the buffer.\<close>

definition cyc :: "u8 list \<Rightarrow> nat \<Rightarrow> u8" where
  "cyc d a = d ! (a mod length d)"

definition ring_get :: "u8 list \<Rightarrow> nat \<Rightarrow> nat \<Rightarrow> u8 list" where
  "ring_get d a n = map (\<lambda>i. cyc d (a + i)) [0..<n]"

definition ring_put :: "u8 list \<Rightarrow> nat \<Rightarrow> u8 list \<Rightarrow> u8 list" where
  "ring_put d a src =
     map (\<lambda>j. let i = (j + length d - a mod length d) mod length d in if i < length src then src ! i else d ! j) [0..<length d]"

lemma length_ring_get [simp]: "length (ring_get d a n) = n"
  by (simp add: ring_get_def)

lemma length_ring_put [simp]: "length (ring_put d a src) = length d"
  by (simp add: ring_put_def)

lemma ring_get_nth [simp]: "i < n \<Longrightarrow> ring_get d a n ! i = cyc d (a + i)"
  by (simp add: ring_get_def)

lemma ring_get_append: "ring_get d a (m + n) = ring_get d a m @ ring_get d (a + m) n"
  by (rule nth_equalityI) (auto simp: nth_append)

lemma ring_get_take: "k \<le> n \<Longrightarrow> take k (ring_get d a n) = ring_get d a k"
  by (rule nth_equalityI) auto

lemma ring_get_drop: "k \<le> n \<Longrightarrow> drop k (ring_get d a n) = ring_get d (a + k) (n - k)"
  by (rule nth_equalityI) (auto simp: add.assoc)

lemma cyc_mod: "cyc d (a mod length d + i) = cyc d (a + i)"
  by (simp add: cyc_def mod_simps)

lemma ring_get_mod: "ring_get d (a mod length d) n = ring_get d a n"
  by (simp add: ring_get_def cyc_mod)

text \<open>What a write leaves at the positions counted from its start.\<close>

lemma cyc_ring_put:
  assumes "i < length d" "length src \<le> length d"
  shows "cyc (ring_put d a src) (a + i) = (if i < length src then src ! i else cyc d (a + i))"
proof -
  let ?S = "length d"
  let ?j = "(a + i) mod ?S"
  have j: "?j < ?S" using assms(1) by (intro mod_less_divisor) auto
  have "(?j + ?S - a mod ?S) mod ?S = i"
  proof -
    have l: "a mod ?S < ?S" using assms(1) by (intro mod_less_divisor) auto
    have e: "?j = (a mod ?S + i) mod ?S" by (simp add: mod_simps)
    show ?thesis
    proof (cases "a mod ?S + i < ?S")
      case True
      then have "?j + ?S - a mod ?S = i + ?S" unfolding e using l by simp
      then show ?thesis using assms(1) by simp
    next
      case False
      then have "?j = a mod ?S + i - ?S" unfolding e using l assms(1) by (simp add: le_mod_geq)
      then have "?j + ?S - a mod ?S = i" using l False by simp
      then show ?thesis using assms(1) by simp
    qed
  qed
  then show ?thesis using j by (simp add: cyc_def ring_put_def Let_def)
qed

text \<open>The copies of the code: up to the end of the buffer, then from its beginning.\<close>

lemma ring_get_split:
  assumes "p < length d" "n \<le> length d"
  shows "ring_get d p n = take (min n (length d - p)) (drop p d) @ take (n - min n (length d - p)) d"
proof (rule nth_equalityI)
  fix i
  assume "i < length (ring_get d p n)"
  then have i: "i < n" by simp
  show "ring_get d p n ! i = (take (min n (length d - p)) (drop p d) @ take (n - min n (length d - p)) d) ! i"
  proof (cases "i < length d - p")
    case True
    then have "(p + i) mod length d = p + i" by simp
    then show ?thesis using i True by (simp add: cyc_def nth_append)
  next
    case False
    then have "(p + i) mod length d = p + i - length d" using assms i by (simp add: le_mod_geq)
    then show ?thesis using i False assms by (simp add: cyc_def nth_append min_def add.commute)
  qed
qed (use assms in auto)

lemma ring_put_split:
  assumes "p < length d" "length src \<le> length d" "l = min (length src) (length d - p)"
  shows "ring_put d p src =
    drop l src @ drop (length src - l) (take p d @ take l src @ drop (p + l) d)"
proof (rule nth_equalityI)
  show "length (ring_put d p src) = length (drop l src @ drop (length src - l) (take p d @ take l src @ drop (p + l) d))"
    using assms by auto
next
  fix j
  assume "j < length (ring_put d p src)"
  then have j: "j < length d" by simp
  let ?X = "take p d @ take l src @ drop (p + l) d" and ?n = "length src"
  have l: "l \<le> ?n" "p + l \<le> length d" "?n - l \<le> p" using assms by auto
  have X: "?X ! j = (if p \<le> j \<and> j < p + l then src ! (j - p) else d ! j)"
    using j l assms(1) by (auto simp: nth_append not_less)
  have R: "(drop l src @ drop (?n - l) ?X) ! j = (if j < ?n - l then src ! (l + j) else ?X ! j)"
  proof -
    have "(drop l src @ drop m Y) ! j = (if j < m then src ! (l + j) else Y ! j)" if "length Y = length d" "m = ?n - l" for Y m
      using that l j by (simp add: nth_append)
    moreover have "length ?X = length d" using l assms(1) by simp
    ultimately show ?thesis by blast
  qed
  have P: "ring_put d p src ! j = (let i = (j + length d - p) mod length d in if i < ?n then src ! i else d ! j)"
    using j assms(1) by (simp add: ring_put_def Let_def)
  show "ring_put d p src ! j = (drop l src @ drop (?n - l) ?X) ! j"
  proof (cases "j < p")
    case True
    then have "(j + length d - p) mod length d = j + length d - p" using assms(1) by (intro mod_less) linarith
    moreover have "j < ?n - l \<longleftrightarrow> j + length d - p < ?n" "j < ?n - l \<Longrightarrow> l + j = j + length d - p"
      using True assms by (auto simp: min_def split: if_splits)
    ultimately show ?thesis unfolding P R X using True by (simp add: Let_def)
  next
    case False
    have "(j + length d - p) mod length d = ((j - p) + length d) mod length d" using False by simp
    then have "(j + length d - p) mod length d = j - p" using j by simp
    moreover have "\<not> j < ?n - l" "j < p + l \<longleftrightarrow> j - p < ?n" using False l(3) j assms by (auto simp: min_def split: if_splits)
    ultimately show ?thesis unfolding P R X using False by (simp add: Let_def)
  qed
qed

lemma ring_put_mod: "ring_put d (a mod length d) src = ring_put d a src"
  by (simp add: ring_put_def)

section \<open>The invariant and the queue a fifo stands for\<close>

definition kf_cap :: "kfifo \<Rightarrow> nat" where "kf_cap fifo = unat (kf_mask fifo) + 1"
definition kf_es :: "kfifo \<Rightarrow> nat" where "kf_es fifo = unat (kf_esize fifo)"

lemma kf_sizes_upd [simp]:
  "kf_cap (fifo\<lparr>kf_in := i\<rparr>) = kf_cap fifo" "kf_cap (fifo\<lparr>kf_out := i\<rparr>) = kf_cap fifo" "kf_cap (fifo\<lparr>kf_data := x\<rparr>) = kf_cap fifo"
  "kf_es (fifo\<lparr>kf_in := i\<rparr>) = kf_es fifo" "kf_es (fifo\<lparr>kf_out := i\<rparr>) = kf_es fifo" "kf_es (fifo\<lparr>kf_data := x\<rparr>) = kf_es fifo"
  by (simp_all add: kf_cap_def kf_es_def)

text \<open>
  The number of elements is a power of two, the buffer has exactly their bytes, and the counters are at most
  that number apart.
\<close>

definition kfifo_ok :: "kfifo \<Rightarrow> bool" where
  "kfifo_ok fifo \<longleftrightarrow> is_power_of_2 (kf_mask fifo + 1) \<and> kf_esize fifo \<noteq> 0 \<and>
     (case kf_data fifo of None \<Rightarrow> False | Some d \<Rightarrow> length d = kf_cap fifo * kf_es fifo \<and> length d < 2 ^ 32) \<and>
     unat (kf_in fifo - kf_out fifo) \<le> kf_cap fifo"

text \<open>The bytes in the fifo, oldest first.\<close>

definition contents :: "kfifo \<Rightarrow> u8 list" where
  "contents fifo = (case kf_data fifo of None \<Rightarrow> []
     | Some d \<Rightarrow> ring_get d (unat (kf_out fifo) * kf_es fifo) (unat (kf_in fifo - kf_out fifo) * kf_es fifo))"

lemma kfifo_ok_power:
  assumes "kfifo_ok fifo"
  obtains k where "k < 32" "kf_cap fifo = 2 ^ k" "kf_mask fifo = mask k" "unat (kf_mask fifo + 1) = 2 ^ k"
proof -
  from assms obtain k where k: "k < 32" "kf_mask fifo + 1 = push_bit k 1" by (auto simp: kfifo_ok_def is_power_of_2_iff)
  have "kf_mask fifo = push_bit k 1 - 1" using k(2) by (metis add_diff_cancel_right')
  then have m: "kf_mask fifo = mask k" by (simp add: mask_eq_exp_minus_1 push_bit_eq_mult)
  have p: "(2 :: nat) ^ k < 2 ^ LENGTH(32)" using k(1) by (intro power_strict_increasing) auto
  have "(push_bit k 1 :: u32) = of_nat (2 ^ k)" by (simp add: push_bit_eq_mult)
  then have u: "unat (kf_mask fifo + 1) = 2 ^ k" using unat_of_nat_small [OF p] k(2) by (simp only:)
  then have "kf_mask fifo + 1 \<noteq> 0" by (metis power_not_zero unat_0 zero_neq_numeral)
  then have "unat (kf_mask fifo + 1) = unat (kf_mask fifo) + 1" using unatSuc [of "kf_mask fifo"] by (simp add: add.commute)
  then have "kf_cap fifo = 2 ^ k" using u by (simp add: kf_cap_def)
  then show thesis using that k(1) m u by blast
qed

lemma kfifo_okE:
  assumes "kfifo_ok fifo"
  obtains d where "kf_data fifo = Some d" "length d = kf_cap fifo * kf_es fifo" "length d < 2 ^ 32"
    "0 < kf_es fifo" "0 < kf_cap fifo" "0 < length d"
proof -
  from assms obtain d where "kf_data fifo = Some d" "length d = kf_cap fifo * kf_es fifo" "length d < 2 ^ 32"
    by (auto simp: kfifo_ok_def split: option.splits)
  moreover have "0 < kf_es fifo" using assms by (simp add: kfifo_ok_def kf_es_def unat_gt_0)
  moreover have "0 < kf_cap fifo" by (simp add: kf_cap_def)
  ultimately show thesis using that by simp
qed

lemma kfifo_ok_used: "kfifo_ok fifo \<Longrightarrow> unat (kf_in fifo - kf_out fifo) \<le> kf_cap fifo"
  by (simp add: kfifo_ok_def)

text \<open>The counters wrap around at a multiple of the capacity.\<close>

lemma kf_cap_dvd: "kfifo_ok fifo \<Longrightarrow> kf_cap fifo dvd 2 ^ 32"
  by (erule kfifo_ok_power) (simp only: le_imp_power_dvd)

lemma index_wrap:
  assumes "kfifo_ok fifo"
  shows "(unat (x + y :: u32) * kf_es fifo) mod (kf_cap fifo * kf_es fifo) =
    ((unat x + unat y) * kf_es fifo) mod (kf_cap fifo * kf_es fifo)"
proof -
  have "unat (x + y) = (unat x + unat y) mod 2 ^ 32" by (simp add: unat_word_ariths)
  then have "unat (x + y) mod kf_cap fifo = (unat x + unat y) mod kf_cap fifo"
    using kf_cap_dvd [OF assms] by (simp add: mod_mod_cancel)
  then show ?thesis by (simp only: mult_mod_left [symmetric])
qed

lemma ring_get_wrap:
  assumes "kfifo_ok fifo" "length d = kf_cap fifo * kf_es fifo"
  shows "ring_get d (unat (x + y :: u32) * kf_es fifo) n = ring_get d (unat x * kf_es fifo + unat y * kf_es fifo) n"
  using index_wrap [OF assms(1), of x y] ring_get_mod [of d _ n] assms(2) by (metis add_mult_distrib)

lemma ring_put_wrap:
  assumes "kfifo_ok fifo" "length d = kf_cap fifo * kf_es fifo"
  shows "ring_put d (unat (x + y :: u32) * kf_es fifo) src = ring_put d (unat x * kf_es fifo + unat y * kf_es fifo) src"
  using index_wrap [OF assms(1), of x y] ring_put_mod [of d _ src] assms(2) by (metis add_mult_distrib)

lemma masked_index:
  assumes "kfifo_ok fifo"
  shows "unat (i AND kf_mask fifo) = unat i mod kf_cap fifo"
proof -
  obtain k where k: "k < 32" "kf_cap fifo = 2 ^ k" "kf_mask fifo = mask k" using assms by (rule kfifo_ok_power)
  have "i AND kf_mask fifo = take_bit k i" by (simp add: k(3) take_bit_eq_mask)
  then show ?thesis unfolding k(2) by (simp only: unsigned_take_bit_eq) (simp only: take_bit_eq_mod)
qed

lemma unat_mult_small: "unat a * unat b < 2 ^ 32 \<Longrightarrow> unat (a * b :: u32) = unat a * unat b"
  by (simp add: unat_word_ariths)

lemma scaled: "(if e \<noteq> 1 then x * e else x) = x * (e :: u32)"
  by simp

lemma kfifo_split_eq:
  assumes ok: "kfifo_ok fifo" and len: "unat len0 \<le> kf_cap fifo" and sp: "kfifo_split fifo len0 off0 = (off, len, l)"
  shows "unat off = unat off0 * kf_es fifo mod (kf_cap fifo * kf_es fifo)" and "unat len = unat len0 * kf_es fifo"
    and "unat l = min (unat len0 * kf_es fifo) (kf_cap fifo * kf_es fifo - unat off)"
    and "unat (len - l) = unat len0 * kf_es fifo - unat l" and "unat off < kf_cap fifo * kf_es fifo"
proof -
  obtain d :: "u8 list" where d: "length d = kf_cap fifo * kf_es fifo" "length d < 2 ^ 32" "0 < kf_es fifo" "0 < kf_cap fifo"
    using ok by (auto elim: kfifo_okE)
  obtain k where k: "kf_cap fifo = 2 ^ k" "unat (kf_mask fifo + 1) = 2 ^ k" using ok by (rule kfifo_ok_power)
  have e: "off = (off0 AND kf_mask fifo) * kf_esize fifo" "len = len0 * kf_esize fifo"
    "l = min len ((kf_mask fifo + 1) * kf_esize fifo - off)"
    using sp unfolding kfifo_split_def Let_def scaled by auto
  have m: "unat (off0 AND kf_mask fifo) = unat off0 mod kf_cap fifo" by (rule masked_index [OF ok])
  have S: "unat ((kf_mask fifo + 1) * kf_esize fifo) = kf_cap fifo * kf_es fifo"
    using unat_mult_small [of "kf_mask fifo + 1" "kf_esize fifo"] d k by (simp add: kf_es_def)
  have "unat off0 mod kf_cap fifo < kf_cap fifo" using d(4) by simp
  then have lt: "unat off0 mod kf_cap fifo * kf_es fifo < kf_cap fifo * kf_es fifo" using d(3) by simp
  then have "unat (off0 AND kf_mask fifo) * unat (kf_esize fifo) < 2 ^ 32" using d(1,2) unfolding m kf_es_def by linarith
  from unat_mult_small [OF this] have off: "unat off = unat off0 mod kf_cap fifo * kf_es fifo"
    unfolding e(1) m kf_es_def .
  then show o: "unat off = unat off0 * kf_es fifo mod (kf_cap fifo * kf_es fifo)" by (simp only: mult_mod_left)
  show ol: "unat off < kf_cap fifo * kf_es fifo" using off lt by simp
  have "unat len0 * kf_es fifo \<le> kf_cap fifo * kf_es fifo" using len by simp
  then have "unat len0 * unat (kf_esize fifo) < 2 ^ 32" using d(1,2) unfolding kf_es_def by linarith
  from unat_mult_small [OF this] show ln: "unat len = unat len0 * kf_es fifo" unfolding e(2) kf_es_def .
  have "unat ((kf_mask fifo + 1) * kf_esize fifo - off) = kf_cap fifo * kf_es fifo - unat off"
    using ol S by (subst unat_sub) (simp_all add: word_le_nat_alt)
  then show l: "unat l = min (unat len0 * kf_es fifo) (kf_cap fifo * kf_es fifo - unat off)"
    unfolding e(3) ln [symmetric] by (simp add: min_def word_le_nat_alt)
  have "l \<le> len" unfolding e(3) by simp
  then show "unat (len - l) = unat len0 * kf_es fifo - unat l" using ln by (simp add: unat_sub)
qed

section \<open>The operations on the queue\<close>

lemma copy_bytes_ok:
  "off + n \<le> length d \<Longrightarrow> soff + n \<le> length src \<Longrightarrow>
   copy_bytes d off src soff n = Inr (take off d @ take n (drop soff src) @ drop (off + n) d)"
  by (simp add: copy_bytes_def)

lemma copy_bytes_parts:
  assumes "length bs = n" "length bs2 = m"
  shows "copy_bytes d p (bs @ bs2) 0 n = copy_bytes d p bs 0 n" "copy_bytes d p (bs @ bs2) n m = copy_bytes d p bs2 0 m"
  using assms by (simp_all add: copy_bytes_def)

lemma ring_put_copies:
  assumes "p < length d" "n \<le> length d" "n \<le> length src" "l = min n (length d - p)"
  shows "rbind (copy_bytes d p src 0 l) (\<lambda>d. copy_bytes d 0 src l (n - l)) = Inr (ring_put d p (take n src))"
proof -
  let ?X = "take p d @ take l src @ drop (p + l) d"
  have l: "l \<le> n" "p + l \<le> length d" "n - l \<le> p" using assms by auto
  have "copy_bytes d p src 0 l = Inr ?X" using l assms by (subst copy_bytes_ok) auto
  moreover have "copy_bytes ?X 0 src l (n - l) = Inr (take (n - l) (drop l src) @ drop (n - l) ?X)"
    using l assms by (subst copy_bytes_ok) auto
  moreover have "ring_put d p (take n src) = drop l (take n src) @ drop (length (take n src) - l) (take p d @ take l (take n src) @ drop (p + l) d)"
    by (rule ring_put_split) (use assms in auto)
  then have "ring_put d p (take n src) = take (n - l) (drop l src) @ drop (n - l) ?X"
    using l assms by (simp add: drop_take min_absorb1)
  ultimately show ?thesis by simp
qed

lemma kfifo_copy_in_eq:
  assumes ok: "kfifo_ok fifo" and d: "kf_data fifo = Some d" and len: "unat len \<le> kf_cap fifo"
    and src: "unat len * kf_es fifo \<le> length src"
  shows "kfifo_copy_in fifo src len off = Inr (fifo\<lparr>kf_data := Some (ring_put d (unat off * kf_es fifo) (take (unat len * kf_es fifo) src))\<rparr>)"
proof -
  obtain o' ln l where sp: "kfifo_split fifo len off = (o', ln, l)" by (metis prod_cases3)
  note e = kfifo_split_eq [OF ok len sp]
  have S: "length d = kf_cap fifo * kf_es fifo" using ok d by (auto elim: kfifo_okE)
  have n: "unat len * kf_es fifo \<le> length d" using len S by simp
  have l: "unat l = min (unat len * kf_es fifo) (length d - unat o')" "unat o' < length d" using e(3,5) S by simp_all
  have "rbind (copy_bytes d (unat o') src 0 (unat l)) (\<lambda>d. copy_bytes d 0 src (unat l) (unat (ln - l))) =
    Inr (ring_put d (unat o') (take (unat len * kf_es fifo) src))"
    unfolding e(4) by (rule ring_put_copies [OF l(2) n src l(1)])
  also have "ring_put d (unat o') = ring_put d (unat off * kf_es fifo)"
    unfolding e(1) S [symmetric] by (rule ext) (rule ring_put_mod)
  finally show ?thesis by (auto simp: kfifo_copy_in_def sp d rbind_Inr_iff)
qed

lemma kfifo_copy_out_eq:
  assumes ok: "kfifo_ok fifo" and d: "kf_data fifo = Some d" and len: "unat len \<le> kf_cap fifo"
    and dst: "unat len * kf_es fifo \<le> length dst"
  shows "kfifo_copy_out fifo dst len off = Inr (ring_get d (unat off * kf_es fifo) (unat len * kf_es fifo) @ drop (unat len * kf_es fifo) dst)"
proof -
  obtain o' ln l where sp: "kfifo_split fifo len off = (o', ln, l)" by (metis prod_cases3)
  note e = kfifo_split_eq [OF ok len sp]
  let ?n = "unat len * kf_es fifo"
  have S: "length d = kf_cap fifo * kf_es fifo" using ok d by (auto elim: kfifo_okE)
  have n: "?n \<le> length d" using len S by simp
  have l: "unat l = min ?n (length d - unat o')" "unat o' < length d" using e(3,5) S by simp_all
  have c1: "copy_bytes dst 0 d (unat o') (unat l) = Inr (take (unat l) (drop (unat o') d) @ drop (unat l) dst)"
    using l dst n by (subst copy_bytes_ok) auto
  have t: "length (take (unat l) (drop (unat o') d)) = unat l" using l by simp
  have c2: "copy_bytes (take (unat l) (drop (unat o') d) @ drop (unat l) dst) (unat l) d 0 (unat (ln - l)) =
    Inr (take (unat l) (drop (unat o') d) @ take (?n - unat l) d @ drop ?n dst)"
    unfolding e(4) using l dst n t by (subst copy_bytes_ok) auto
  have "ring_get d (unat off * kf_es fifo) ?n = ring_get d (unat o') ?n" unfolding e(1) S [symmetric] by (rule ring_get_mod [symmetric])
  also have "\<dots> = take (unat l) (drop (unat o') d) @ take (?n - unat l) d" using ring_get_split [OF l(2) n] l(1) by simp
  finally show ?thesis by (simp add: kfifo_copy_out_def sp d c1 c2)
qed

lemma kfifo_unused_eq:
  assumes "kfifo_ok fifo"
  shows "unat (kfifo_unused fifo) = kf_cap fifo - unat (kf_in fifo - kf_out fifo)"
proof -
  obtain k where k: "kf_cap fifo = 2 ^ k" "unat (kf_mask fifo + 1) = 2 ^ k" using assms by (auto elim: kfifo_ok_power)
  have "kf_in fifo - kf_out fifo \<le> kf_mask fifo + 1" using kfifo_ok_used [OF assms] k by (simp add: word_le_nat_alt)
  then show ?thesis using k by (simp add: kfifo_unused_def unat_sub)
qed

lemma used_grows:
  assumes "kfifo_ok fifo" "unat (kf_in fifo - kf_out fifo) + unat len \<le> kf_cap fifo"
  shows "unat (kf_in fifo + len - kf_out fifo) = unat (kf_in fifo - kf_out fifo) + unat len"
proof -
  obtain k where k: "k < 32" "kf_cap fifo = 2 ^ k" using assms(1) by (auto elim: kfifo_ok_power)
  have "(2 :: nat) ^ k < 2 ^ 32" using k(1) by (intro power_strict_increasing) auto
  then have "unat (kf_in fifo - kf_out fifo) + unat len < 2 ^ 32" using assms(2) k(2) by linarith
  then have "unat (kf_in fifo - kf_out fifo + len) = unat (kf_in fifo - kf_out fifo) + unat len" by (simp add: unat_word_ariths)
  moreover have "kf_in fifo + len - kf_out fifo = kf_in fifo - kf_out fifo + len" by simp
  ultimately show ?thesis by (simp only:)
qed

lemma used_shrinks:
  assumes "unat len \<le> unat (kf_in fifo - kf_out fifo)"
  shows "unat (kf_in fifo - (kf_out fifo + len)) = unat (kf_in fifo - kf_out fifo) - unat len"
proof -
  have "unat (kf_in fifo - kf_out fifo - len) = unat (kf_in fifo - kf_out fifo) - unat len"
    using assms by (intro unat_sub) (simp add: word_le_nat_alt)
  moreover have "kf_in fifo - (kf_out fifo + len) = kf_in fifo - kf_out fifo - len" by simp
  ultimately show ?thesis by (simp only:)
qed

text \<open>Writing behind the last element appends it; advancing \<^verbatim>\<open>out\<close> removes from the front.\<close>

lemma contents_extend:
  assumes ok: "kfifo_ok fifo" and d: "kf_data fifo = Some d"
    and fit: "unat (kf_in fifo - kf_out fifo) * kf_es fifo + length src \<le> kf_cap fifo * kf_es fifo"
    and len: "unat len * kf_es fifo \<le> length src"
  defines "fifo' \<equiv> fifo\<lparr>kf_data := Some (ring_put d (unat (kf_in fifo) * kf_es fifo) src), kf_in := kf_in fifo + len\<rparr>"
  shows "kfifo_ok fifo' \<and> contents fifo' = contents fifo @ take (unat len * kf_es fifo) src"
proof
  let ?E = "kf_es fifo" and ?u = "unat (kf_in fifo - kf_out fifo)" and ?a = "unat (kf_out fifo) * kf_es fifo"
  have S: "length d = kf_cap fifo * ?E" "length d < 2 ^ 32" "0 < length d" "0 < ?E" using ok d by (auto elim: kfifo_okE)
  have "(?u + unat len) * ?E \<le> kf_cap fifo * ?E" using fit len by (simp add: add_mult_distrib)
  then have fl: "?u + unat len \<le> kf_cap fifo" using S(4) by simp
  have u: "unat (kf_in fifo + len - kf_out fifo) = ?u + unat len" by (rule used_grows [OF ok fl])
  show "kfifo_ok fifo'" using ok d fl u S
    by (simp add: fifo'_def kfifo_ok_def)
  have in_: "ring_put d (unat (kf_in fifo) * ?E) src = ring_put d (?a + ?u * ?E) src"
    using ring_put_wrap [OF ok S(1), of "kf_out fifo" "kf_in fifo - kf_out fifo"] by simp
  let ?d = "ring_put d (?a + ?u * ?E) src"
  have fit': "?u * ?E + length src \<le> length d" using fit unfolding S(1) .
  have old: "ring_get ?d ?a (?u * ?E) = ring_get d ?a (?u * ?E)"
  proof (rule nth_equalityI)
    fix i assume "i < length (ring_get ?d ?a (?u * ?E))"
    then have i: "i < ?u * ?E" by simp
    let ?k = "length d - ?u * ?E + i"
    have k: "?k < length d" "\<not> ?k < length src" using i fit' by linarith+
    have e: "?a + ?u * ?E + ?k = (?a + i) + length d" using fit' by linarith
    have "cyc ?d (?a + ?u * ?E + ?k) = cyc d (?a + ?u * ?E + ?k)"
      using cyc_ring_put [OF k(1), of src "?a + ?u * ?E"] k(2) fit' by simp
    then have "cyc ?d (?a + i) = cyc d (?a + i)" unfolding e by (simp add: cyc_def)
    then show "ring_get ?d ?a (?u * ?E) ! i = ring_get d ?a (?u * ?E) ! i" using i by simp
  qed simp
  have new: "ring_get ?d (?a + ?u * ?E) (unat len * ?E) = take (unat len * ?E) src"
  proof (rule nth_equalityI)
    fix i assume "i < length (ring_get ?d (?a + ?u * ?E) (unat len * ?E))"
    then have i: "i < unat len * ?E" "i < length src" using len by auto
    then have "cyc ?d (?a + ?u * ?E + i) = src ! i" using cyc_ring_put [of i d src] fit' by simp
    then show "ring_get ?d (?a + ?u * ?E) (unat len * ?E) ! i = take (unat len * ?E) src ! i" using i by simp
  qed (use len in simp)
  have "contents fifo' = ring_get ?d ?a (?u * ?E + unat len * ?E)"
    using u by (simp add: contents_def fifo'_def in_ add_mult_distrib)
  then show "contents fifo' = contents fifo @ take (unat len * ?E) src" using old new d by (simp add: ring_get_append contents_def)
qed

lemma contents_append:
  assumes "kfifo_ok fifo" "kf_data fifo = Some d" "unat (kf_in fifo - kf_out fifo) + unat len \<le> kf_cap fifo"
    "length src = unat len * kf_es fifo"
  shows "kfifo_ok (fifo\<lparr>kf_data := Some (ring_put d (unat (kf_in fifo) * kf_es fifo) src), kf_in := kf_in fifo + len\<rparr>) \<and>
    contents (fifo\<lparr>kf_data := Some (ring_put d (unat (kf_in fifo) * kf_es fifo) src), kf_in := kf_in fifo + len\<rparr>) = contents fifo @ src"
proof -
  have "unat (kf_in fifo - kf_out fifo) * kf_es fifo + length src \<le> kf_cap fifo * kf_es fifo"
    unfolding assms(4) using assms(3) by (simp flip: add_mult_distrib)
  from contents_extend [OF assms(1,2) this, of len] assms(4) show ?thesis by simp
qed

lemma contents_drop:
  assumes ok: "kfifo_ok fifo" and len: "unat len \<le> unat (kf_in fifo - kf_out fifo)"
  shows "kfifo_ok (fifo\<lparr>kf_out := kf_out fifo + len\<rparr>) \<and>
    contents (fifo\<lparr>kf_out := kf_out fifo + len\<rparr>) = drop (unat len * kf_es fifo) (contents fifo)"
proof
  obtain d where d: "kf_data fifo = Some d" "length d = kf_cap fifo * kf_es fifo" using ok by (auto elim: kfifo_okE)
  note u = used_shrinks [OF len]
  show "kfifo_ok (fifo\<lparr>kf_out := kf_out fifo + len\<rparr>)" using ok u by (auto simp: kfifo_ok_def split: option.splits)
  have "unat len * kf_es fifo \<le> unat (kf_in fifo - kf_out fifo) * kf_es fifo" using len by simp
  then show "contents (fifo\<lparr>kf_out := kf_out fifo + len\<rparr>) = drop (unat len * kf_es fifo) (contents fifo)"
    using u d ring_get_wrap [OF ok d(2), of "kf_out fifo" len]
    by (simp add: contents_def ring_get_drop diff_mult_distrib)
qed

lemma length_contents: "kfifo_ok fifo \<Longrightarrow> length (contents fifo) = unat (kf_in fifo - kf_out fifo) * kf_es fifo"
  by (erule kfifo_okE) (simp add: contents_def)

lemma kfifo_in_ok:
  assumes ok: "kfifo_ok fifo" and buf: "min (unat len) (kf_cap fifo - unat (kfifo_len fifo)) * kf_es fifo \<le> length buf"
  shows "\<exists>fifo' n. kfifo_in fifo buf len = Inr (fifo', n) \<and> unat n = min (unat len) (kf_cap fifo - unat (kfifo_len fifo)) \<and>
    kfifo_ok fifo' \<and> kf_cap fifo' = kf_cap fifo \<and> kf_es fifo' = kf_es fifo \<and>
    contents fifo' = contents fifo @ take (unat n * kf_es fifo) buf"
proof -
  obtain d where d: "kf_data fifo = Some d" using ok by (auto elim: kfifo_okE)
  define n where "n = (if len > kfifo_unused fifo then kfifo_unused fifo else len)"
  have n: "unat n = min (unat len) (kf_cap fifo - unat (kfifo_len fifo))"
    using kfifo_unused_eq [OF ok] by (auto simp: n_def word_less_nat_alt kfifo_len_def)
  have fit: "unat (kf_in fifo - kf_out fifo) + unat n \<le> kf_cap fifo" using n kfifo_ok_used [OF ok] by (simp add: kfifo_len_def)
  let ?s = "take (unat n * kf_es fifo) buf"
  have c: "kfifo_copy_in fifo buf n (kf_in fifo) = Inr (fifo\<lparr>kf_data := Some (ring_put d (unat (kf_in fifo) * kf_es fifo) ?s)\<rparr>)"
    by (rule kfifo_copy_in_eq [OF ok d]) (use fit n buf in auto)
  have "kfifo_in fifo buf len = Inr (fifo\<lparr>kf_data := Some (ring_put d (unat (kf_in fifo) * kf_es fifo) ?s), kf_in := kf_in fifo + n\<rparr>, n)"
    by (simp add: kfifo_in_def n_def [symmetric] c Let_def)
  moreover have "length ?s = unat n * kf_es fifo" using buf n by simp
  from contents_append [OF ok d fit this] have "kfifo_ok (fifo\<lparr>kf_data := Some (ring_put d (unat (kf_in fifo) * kf_es fifo) ?s), kf_in := kf_in fifo + n\<rparr>) \<and>
    contents (fifo\<lparr>kf_data := Some (ring_put d (unat (kf_in fifo) * kf_es fifo) ?s), kf_in := kf_in fifo + n\<rparr>) = contents fifo @ ?s" .
  ultimately show ?thesis using n by auto
qed

lemma kfifo_out_peek_ok:
  assumes ok: "kfifo_ok fifo" and buf: "min (unat len) (unat (kfifo_len fifo)) * kf_es fifo \<le> length buf"
  shows "\<exists>n. unat n = min (unat len) (unat (kfifo_len fifo)) \<and>
    kfifo_out_peek fifo buf len = Inr (take (unat n * kf_es fifo) (contents fifo) @ drop (unat n * kf_es fifo) buf, n)"
proof -
  obtain d where d: "kf_data fifo = Some d" using ok by (auto elim: kfifo_okE)
  define n where "n = (if len > kfifo_len fifo then kfifo_len fifo else len)"
  have n: "unat n = min (unat len) (unat (kfifo_len fifo))" by (auto simp: n_def word_less_nat_alt)
  have le: "unat n \<le> unat (kf_in fifo - kf_out fifo)" using n by (simp add: kfifo_len_def)
  have c: "kfifo_copy_out fifo buf n (kf_out fifo) = Inr (ring_get d (unat (kf_out fifo) * kf_es fifo) (unat n * kf_es fifo) @ drop (unat n * kf_es fifo) buf)"
    by (rule kfifo_copy_out_eq [OF ok d]) (use le n buf kfifo_ok_used [OF ok] in auto)
  have "ring_get d (unat (kf_out fifo) * kf_es fifo) (unat n * kf_es fifo) = take (unat n * kf_es fifo) (contents fifo)"
    using le d by (simp add: contents_def ring_get_take)
  then have "kfifo_out_peek fifo buf len = Inr (take (unat n * kf_es fifo) (contents fifo) @ drop (unat n * kf_es fifo) buf, n)"
    using c by (simp add: kfifo_out_peek_def n_def [symmetric] kfifo_len_def [symmetric] Let_def)
  then show ?thesis using n by blast
qed

lemma kfifo_out_ok:
  assumes ok: "kfifo_ok fifo" and buf: "min (unat len) (unat (kfifo_len fifo)) * kf_es fifo \<le> length buf"
  shows "\<exists>fifo' n. unat n = min (unat len) (unat (kfifo_len fifo)) \<and>
    kfifo_out fifo buf len = Inr (fifo', take (unat n * kf_es fifo) (contents fifo) @ drop (unat n * kf_es fifo) buf, n) \<and>
    kfifo_ok fifo' \<and> kf_cap fifo' = kf_cap fifo \<and> kf_es fifo' = kf_es fifo \<and>
    contents fifo' = drop (unat n * kf_es fifo) (contents fifo)"
proof -
  from kfifo_out_peek_ok [OF assms] obtain n where n: "unat n = min (unat len) (unat (kfifo_len fifo))"
    "kfifo_out_peek fifo buf len = Inr (take (unat n * kf_es fifo) (contents fifo) @ drop (unat n * kf_es fifo) buf, n)" by blast
  have "unat n \<le> unat (kf_in fifo - kf_out fifo)" using n(1) by (simp add: kfifo_len_def)
  from contents_drop [OF ok this] n show ?thesis by (auto simp: kfifo_out_def)
qed

section \<open>A queue as a stream\<close>

text \<open>
  What a client of a bounded queue relies on: a put takes as many elements as there is room for and appends
  them, a get removes elements from the front. Whatever the order of the calls, the bytes that came out and those still
  inside are then the bytes that went in, in order.
\<close>

datatype queue_op = Put "u8 list" nat | Get nat

fun queue_run :: "('q \<Rightarrow> u8 list \<Rightarrow> nat \<Rightarrow> ('q \<times> nat) res) \<Rightarrow> ('q \<Rightarrow> nat \<Rightarrow> ('q \<times> u8 list) res) \<Rightarrow> nat \<Rightarrow>
    'q \<Rightarrow> queue_op list \<Rightarrow> ('q \<times> u8 list \<times> u8 list) res" where
  "queue_run put get e q [] = Inr (q, [], [])"
| "queue_run put get e q (Put bs n # ops) =
     rbind (put q bs n) (\<lambda>(q, m).
     rbind (queue_run put get e q ops) (\<lambda>(q, i, t). Inr (q, take (m * e) bs @ i, t)))"
| "queue_run put get e q (Get n # ops) =
     rbind (get q n) (\<lambda>(q, bs).
     rbind (queue_run put get e q ops) (\<lambda>(q, i, t). Inr (q, i, bs @ t)))"

definition queue_op_ok :: "nat \<Rightarrow> queue_op \<Rightarrow> bool" where
  "queue_op_ok e x \<longleftrightarrow> (case x of Put bs n \<Rightarrow> n * e \<le> length bs \<and> n < 2 ^ 32 | Get n \<Rightarrow> n < 2 ^ 32)"

locale bounded_queue =
  fixes ok :: "'q \<Rightarrow> bool" and items :: "'q \<Rightarrow> u8 list" and cap :: nat and es :: nat
    and put :: "'q \<Rightarrow> u8 list \<Rightarrow> nat \<Rightarrow> ('q \<times> nat) res" and get :: "'q \<Rightarrow> nat \<Rightarrow> ('q \<times> u8 list) res"
  assumes es: "ok q \<Longrightarrow> 0 < es"
    and within: "ok q \<Longrightarrow> length (items q) \<le> cap * es"
    and put: "ok q \<Longrightarrow> n * es \<le> length bs \<Longrightarrow> n < 2 ^ 32 \<Longrightarrow>
      \<exists>q' m. put q bs n = Inr (q', m) \<and> m = min n (cap - length (items q) div es) \<and> ok q' \<and> items q' = items q @ take (m * es) bs"
    and get: "ok q \<Longrightarrow> n < 2 ^ 32 \<Longrightarrow>
      \<exists>q'. get q n = Inr (q', take (n * es) (items q)) \<and> ok q' \<and> items q' = drop (n * es) (items q)"
begin

lemma stream:
  assumes "ok q" "list_all (queue_op_ok es) ops"
  shows "\<exists>q' i t. queue_run put get es q ops = Inr (q', i, t) \<and> ok q' \<and> t @ items q' = items q @ i"
  using assms
proof (induction ops arbitrary: q)
  case (Cons x ops)
  show ?case
  proof (cases x)
    case (Put bs n)
    from put [OF Cons.prems(1), of n bs] Cons.prems(2) Put
    obtain q1 m where q1: "put q bs n = Inr (q1, m)" "ok q1" "items q1 = items q @ take (m * es) bs" by (auto simp: queue_op_ok_def)
    from Cons.IH [OF q1(2)] Cons.prems(2)
    obtain q' i t where "queue_run put get es q1 ops = Inr (q', i, t)" "ok q'" "t @ items q' = items q1 @ i" by auto
    then show ?thesis using q1 Put by simp
  next
    case (Get n)
    from get [OF Cons.prems(1), of n] Cons.prems(2) Get
    obtain q1 where q1: "get q n = Inr (q1, take (n * es) (items q))" "ok q1" "items q1 = drop (n * es) (items q)" by (auto simp: queue_op_ok_def)
    from Cons.IH [OF q1(2)] Cons.prems(2)
    obtain q' i t where "queue_run put get es q1 ops = Inr (q', i, t)" "ok q'" "t @ items q' = items q1 @ i" by auto
    then show ?thesis using q1 Get by simp
  qed
qed simp

text \<open>What was put into an empty queue with room for it comes out again.\<close>

lemma put_get:
  assumes "ok q" "items q = []" "length bs = n * es" "n \<le> cap" "n < 2 ^ 32"
  shows "\<exists>q' q''. put q bs n = Inr (q', n) \<and> get q' n = Inr (q'', bs) \<and> items q'' = []"
proof -
  from put [OF assms(1), of n bs] assms obtain q' where q': "put q bs n = Inr (q', n)" "ok q'" "items q' = bs" by auto
  from get [OF q'(2) assms(5)] q'(1,3) assms(3) show ?thesis by auto
qed

end

text \<open>The calls of a client of \<^verbatim>\<open>__kfifo_in\<close> and \<^verbatim>\<open>__kfifo_out\<close>, the latter into a buffer of its own.\<close>

definition kfifo_put_op :: "kfifo \<Rightarrow> u8 list \<Rightarrow> nat \<Rightarrow> (kfifo \<times> nat) res" where
  "kfifo_put_op fifo bs n = rbind (kfifo_in fifo bs (of_nat n)) (\<lambda>(fifo, m). Inr (fifo, unat m))"

definition kfifo_get_op :: "kfifo \<Rightarrow> nat \<Rightarrow> (kfifo \<times> u8 list) res" where
  "kfifo_get_op fifo n =
     rbind (kfifo_out fifo (replicate (n * kf_es fifo) 0) (of_nat n)) (\<lambda>(fifo, buf, m). Inr (fifo, take (unat m * kf_es fifo) buf))"

definition kfifo_sized :: "nat \<Rightarrow> nat \<Rightarrow> kfifo \<Rightarrow> bool" where
  "kfifo_sized cap es fifo \<longleftrightarrow> kfifo_ok fifo \<and> kf_cap fifo = cap \<and> kf_es fifo = es \<and> 0 < es"

lemma kfifo_len_items: "kfifo_ok fifo \<Longrightarrow> length (contents fifo) div kf_es fifo = unat (kfifo_len fifo)"
  by (frule kfifo_okE) (auto simp: length_contents kfifo_len_def)

lemma take_min_items:
  assumes "kfifo_ok fifo"
  shows "take (min n (unat (kfifo_len fifo)) * kf_es fifo) (contents fifo) = take (n * kf_es fifo) (contents fifo)"
    and "drop (min n (unat (kfifo_len fifo)) * kf_es fifo) (contents fifo) = drop (n * kf_es fifo) (contents fifo)"
  using length_contents [OF assms] by (auto simp: min_def kfifo_len_def)

interpretation kq: bounded_queue "kfifo_sized cap es" contents cap es kfifo_put_op kfifo_get_op for cap es
proof (unfold_locales, goal_cases)
  case (1 q)
  then show ?case by (simp add: kfifo_sized_def)
next
  case (2 q)
  then show ?case using length_contents [of q] kfifo_ok_used [of q] by (auto simp: kfifo_sized_def)
next
  case (3 q n bs)
  then have ok: "kfifo_ok q" and c: "kf_cap q = cap" "kf_es q = es" "0 < es" by (auto simp: kfifo_sized_def)
  have u: "unat (of_nat n :: u32) = n" using 3(3) by (intro unat_of_nat_small) simp
  have "min (unat (of_nat n :: u32)) (kf_cap q - unat (kfifo_len q)) * kf_es q \<le> length bs"
    using 3(2) unfolding u c by (meson le_trans min.cobounded1 mult_le_mono1)
  from kfifo_in_ok [OF ok this] show ?case
    using kfifo_len_items [OF ok] c unfolding u by (auto simp: kfifo_put_op_def kfifo_sized_def)
next
  case (4 q n)
  then have ok: "kfifo_ok q" and c: "kf_cap q = cap" "kf_es q = es" "0 < es" by (auto simp: kfifo_sized_def)
  have u: "unat (of_nat n :: u32) = n" using 4(2) by (intro unat_of_nat_small) simp
  have "min (unat (of_nat n :: u32)) (unat (kfifo_len q)) * kf_es q \<le> length (replicate (n * kf_es q) (0 :: u8))"
    unfolding u by simp
  from kfifo_out_ok [OF ok this] obtain q' m where m: "unat m = min n (unat (kfifo_len q))"
    "kfifo_out q (replicate (n * kf_es q) 0) (of_nat n) = Inr (q', take (unat m * kf_es q) (contents q) @ drop (unat m * kf_es q) (replicate (n * kf_es q) 0), m)"
    "kfifo_ok q'" "kf_cap q' = kf_cap q" "kf_es q' = kf_es q" "contents q' = drop (unat m * kf_es q) (contents q)"
    unfolding u by blast
  have l: "unat m * kf_es q \<le> length (contents q)" using m(1) length_contents [OF ok] by (simp add: kfifo_len_def)
  have "kfifo_get_op q n = Inr (q', take (n * es) (contents q))"
    using m l take_min_items(1) [OF ok, of n] c by (simp add: kfifo_get_op_def)
  moreover have "contents q' = drop (n * es) (contents q)" using m(1,6) take_min_items(2) [OF ok, of n] c by simp
  ultimately show ?case using m(3,4,5) c by (simp add: kfifo_sized_def)
qed

section \<open>Properties of plain fifos\<close>

text \<open>
  C28: A kfifo is a bounded queue. On every fifo whose counters and buffer are in order, and with the counters anywhere in their
  32-bit range, \<^verbatim>\<open>__kfifo_in\<close> takes as many of the offered elements as there is room for and appends them to the contents,
  \<^verbatim>\<open>__kfifo_out_peek\<close> copies the oldest elements, as many as asked for and present, and \<^verbatim>\<open>__kfifo_out\<close> also removes them. Each returns the number of
  elements, keeps the invariant, touches the caller's buffer only where data goes and never leaves the ring buffer.\<close>

theorem kfifo_refines_queue:
  assumes "kfifo_ok fifo" "unat len * kf_es fifo \<le> length buf"
  shows "\<exists>fi fo n m. kfifo_in fifo buf len = Inr (fi, n) \<and>
      unat n = min (unat len) (kf_cap fifo - length (contents fifo) div kf_es fifo) \<and> kfifo_ok fi \<and>
      contents fi = contents fifo @ take (unat n * kf_es fifo) buf \<and>
    kfifo_out fifo buf len = Inr (fo, take (unat m * kf_es fifo) (contents fifo) @ drop (unat m * kf_es fifo) buf, m) \<and>
      kfifo_out_peek fifo buf len = Inr (take (unat m * kf_es fifo) (contents fifo) @ drop (unat m * kf_es fifo) buf, m) \<and>
      unat m = min (unat len) (length (contents fifo) div kf_es fifo) \<and> kfifo_ok fo \<and>
      contents fo = drop (unat m * kf_es fifo) (contents fifo)"
proof -
  note len = kfifo_len_items [OF assms(1)]
  have b: "min (unat len) x * kf_es fifo \<le> length buf" for x
    using assms(2) by (meson le_trans min.cobounded1 mult_le_mono1)
  obtain m where m: "unat m = min (unat len) (unat (kfifo_len fifo))"
    "kfifo_out_peek fifo buf len = Inr (take (unat m * kf_es fifo) (contents fifo) @ drop (unat m * kf_es fifo) buf, m)"
    using kfifo_out_peek_ok [OF assms(1) b] by blast
  obtain fo m' where fo: "unat m' = min (unat len) (unat (kfifo_len fifo))"
    "kfifo_out fifo buf len = Inr (fo, take (unat m' * kf_es fifo) (contents fifo) @ drop (unat m' * kf_es fifo) buf, m')"
    "kfifo_ok fo" "contents fo = drop (unat m' * kf_es fifo) (contents fifo)" using kfifo_out_ok [OF assms(1) b] by blast
  have "m' = m" using m(1) fo(1) by (simp add: word_unat_eq_iff)
  then show ?thesis using kfifo_in_ok [OF assms(1) b] m fo unfolding len by blast
qed

text \<open>A fifo of four two-byte elements whose counters are about to wrap around, with three elements in it.\<close>

definition sample_fifo :: kfifo where
  "sample_fifo = \<lparr>kf_in = 1, kf_out = - 2, kf_mask = 3, kf_esize = 2, kf_data = Some [5, 6, 9, 9, 1, 2, 3, 4]\<rparr>"

lemma sample_fifo_ok: "kfifo_ok sample_fifo"
  by (simp add: kfifo_ok_def sample_fifo_def kf_cap_def kf_es_def is_power_of_2_def)

theorem kfifo_refines_queue_witness:
  "kfifo_ok sample_fifo \<and> contents sample_fifo = [1, 2, 3, 4, 5, 6] \<and>
   (\<exists>fi n. kfifo_in sample_fifo [7, 8, 7, 7] 2 = Inr (fi, n) \<and> unat n = 1 \<and> contents fi = [1, 2, 3, 4, 5, 6, 7, 8])"
proof -
  have "contents sample_fifo = [1, 2, 3, 4, 5, 6]"
    by (simp add: contents_def sample_fifo_def kf_es_def ring_get_def cyc_def upt_conv_Cons)
  moreover have "kf_es sample_fifo = 2" "kf_cap sample_fifo = 4" by (simp_all add: sample_fifo_def kf_es_def kf_cap_def)
  ultimately show ?thesis using kfifo_refines_queue [OF sample_fifo_ok, of 2 "[7, 8, 7, 7]"] sample_fifo_ok by auto
qed

lemma roundup_cap:
  assumes "size0 \<noteq> 0" "unat size0 \<le> 2 ^ 31"
  obtains k where "k < 32" "roundup_pow_of_two size0 = Inr (push_bit k 1)" "unat (push_bit k 1 :: u32) = 2 ^ k"
    "unat size0 \<le> 2 ^ k" "\<forall>j. unat size0 \<le> 2 ^ j \<longrightarrow> k \<le> j" "unat (push_bit k 1 - 1 :: u32) + 1 = 2 ^ k"
proof -
  from roundup_spec [OF assms(1)] assms(2) obtain k where k: "k < 32" "roundup_pow_of_two size0 = Inr (push_bit k 1)"
    "unat size0 \<le> 2 ^ k" "\<forall>j. unat size0 \<le> 2 ^ j \<longrightarrow> k \<le> j" by auto
  have p: "(2 :: nat) ^ k < 2 ^ LENGTH(32)" using k(1) by (intro power_strict_increasing) auto
  have e: "(push_bit k 1 :: u32) = of_nat (2 ^ k)" by (simp add: push_bit_eq_mult)
  have u: "unat (push_bit k 1 :: u32) = 2 ^ k" unfolding e by (rule unat_of_nat_small [OF p])
  then have "(push_bit k 1 :: u32) \<noteq> 0" by (metis power_not_zero unat_0 zero_neq_numeral)
  from unat_minus_one [OF this] have "unat (push_bit k 1 - 1 :: u32) + 1 = 2 ^ k" unfolding u by (metis le_add_diff_inverse2 one_le_numeral one_le_power)
  then show thesis using that [OF k(1,2) u k(3,4)] by blast
qed

lemma fresh_fifo_ok:
  assumes "k < 32" "esize \<noteq> 0" "length d = 2 ^ k * unat esize" "length d < 2 ^ 32" "unat (push_bit k 1 - 1 :: u32) + 1 = 2 ^ k"
  defines "fifo \<equiv> \<lparr>kf_in = 0, kf_out = 0, kf_mask = push_bit k 1 - 1, kf_esize = esize, kf_data = Some d\<rparr>"
  shows "kfifo_ok fifo \<and> contents fifo = [] \<and> kf_cap fifo = 2 ^ k \<and> kf_es fifo = unat esize"
proof -
  have "is_power_of_2 (push_bit k 1 - 1 + 1 :: u32)" using assms(1) by (auto simp: is_power_of_2_iff)
  moreover have "kf_cap fifo = 2 ^ k" using assms(5) by (simp add: kf_cap_def fifo_def)
  ultimately show ?thesis using assms(2-4)
    by (simp add: kfifo_ok_def contents_def kf_es_def fifo_def ring_get_def)
qed



text \<open>
  A kfifo transports its input in order and without loss. After any sequence of \<^verbatim>\<open>__kfifo_in\<close> and \<^verbatim>\<open>__kfifo_out\<close> calls, in any
  interleaving and however often the counters wrap around, no call has faulted, and the bytes delivered by the outs followed by the bytes still in
  the fifo are the bytes that were in it at the start followed by the bytes the ins accepted.\<close>

theorem kfifo_stream:
  assumes "kfifo_ok fifo" "list_all (queue_op_ok (kf_es fifo)) ops"
  shows "\<exists>fifo' i t. queue_run kfifo_put_op kfifo_get_op (kf_es fifo) fifo ops = Inr (fifo', i, t) \<and> kfifo_ok fifo' \<and>
    t @ contents fifo' = contents fifo @ i"
proof -
  have "kfifo_sized (kf_cap fifo) (kf_es fifo) fifo" using assms(1) by (auto simp: kfifo_sized_def elim: kfifo_okE)
  from kq.stream [OF this assms(2)] show ?thesis by (auto simp: kfifo_sized_def)
qed

theorem kfifo_stream_witness:
  "queue_run kfifo_put_op kfifo_get_op 2 sample_fifo [Get 1, Put [7, 8, 7, 9] 2, Get 3] =
     Inr (\<lparr>kf_in = 3, kf_out = 2, kf_mask = 3, kf_esize = 2, kf_data = Some [5, 6, 7, 8, 7, 9, 3, 4]\<rparr>, [7, 8, 7, 9], [1, 2, 3, 4, 5, 6, 7, 8]) \<and>
   (\<exists>fifo' i t. queue_run kfifo_put_op kfifo_get_op (kf_es sample_fifo) sample_fifo [Get 1, Put [7, 8, 7, 9] 2, Get 3] = Inr (fifo', i, t) \<and>
     kfifo_ok fifo' \<and> t @ contents fifo' = contents sample_fifo @ i)"
proof
  show "queue_run kfifo_put_op kfifo_get_op 2 sample_fifo [Get 1, Put [7, 8, 7, 9] 2, Get 3] =
     Inr (\<lparr>kf_in = 3, kf_out = 2, kf_mask = 3, kf_esize = 2, kf_data = Some [5, 6, 7, 8, 7, 9, 3, 4]\<rparr>, [7, 8, 7, 9], [1, 2, 3, 4, 5, 6, 7, 8])"
    by code_simp
  have "list_all (queue_op_ok (kf_es sample_fifo)) [Get 1, Put [7, 8, 7, 9] 2, Get 3]"
    by (simp add: queue_op_ok_def kf_es_def sample_fifo_def)
  with sample_fifo_ok show "\<exists>fifo' i t. queue_run kfifo_put_op kfifo_get_op (kf_es sample_fifo) sample_fifo [Get 1, Put [7, 8, 7, 9] 2, Get 3] = Inr (fifo', i, t) \<and>
     kfifo_ok fifo' \<and> t @ contents fifo' = contents sample_fifo @ i" by (rule kfifo_stream)
qed

section \<open>Copies from and to user space\<close>

text \<open>
  What the code relies on: \<^verbatim>\<open>copy_from_user\<close> stores as many bytes as asked for, the first of which, up to
  those it reports as missing, are the user's; \<^verbatim>\<open>copy_to_user\<close> reports at most as many bytes missing as asked for.
\<close>

definition cfu_ok :: "u8 list \<Rightarrow> (nat \<Rightarrow> nat \<Rightarrow> u8 list \<times> nat) \<Rightarrow> bool" where
  "cfu_ok user cfu \<longleftrightarrow> (\<forall>off n bs r. cfu off n = (bs, r) \<longrightarrow>
     length bs = n \<and> r \<le> n \<and> take (n - r) bs = take (n - r) (drop off user))"

definition ctu_ok :: "(nat \<Rightarrow> u8 list \<Rightarrow> nat) \<Rightarrow> bool" where
  "ctu_ok ctu \<longleftrightarrow> (\<forall>off bs. ctu off bs \<le> length bs)"

lemma ceil_missing:
  fixes e :: nat
  assumes "0 < e" "b \<le> n * e"
  shows "(n * e - b + e - 1) div e = n - b div e"
proof -
  define q r where "q = b div e" and "r = b mod e"
  have b: "b = q * e + r" "r < e" using assms(1) by (simp_all add: q_def r_def)
  have "q \<le> n" unfolding q_def using assms by (metis div_le_mono nonzero_mult_div_cancel_right not_gr_zero)
  then obtain m where m: "n = q + m" using le_Suc_ex by blast
  define t where "t = m * e"
  have n: "n * e = q * e + t" by (simp add: m t_def add_mult_distrib)
  have "r \<le> t" using assms(2) unfolding n b(1) by simp
  then have "n * e - b + e - 1 = t + (e - 1 - r)" unfolding n b(1) using b(2) by linarith
  moreover have "(e - 1 - r) div e = 0" using assms(1) by simp
  ultimately have "(n * e - b + e - 1) div e = m" using assms(1) by (simp add: t_def)
  then show ?thesis by (simp add: m q_def [symmetric])
qed

lemma div_round_up_missing:
  assumes "e \<noteq> 0" "b \<le> n * unat e" "n * unat e + unat e \<le> 2 ^ 32"
  shows "div_round_up (of_nat (n * unat e - b)) e = Inr (of_nat (n - b div unat e))"
proof -
  let ?x = "n * unat e - b"
  have e: "0 < unat e" using assms(1) by (simp add: unat_gt_0)
  have x: "?x + unat e - 1 < 2 ^ 32" using assms(3) e by linarith
  have "of_nat ?x + e - 1 = (of_nat (?x + unat e - 1) :: u32)" using e by (simp add: of_nat_diff)
  then have "unat (of_nat ?x + e - 1) = ?x + unat e - 1" using unat_of_nat_small [of "?x + unat e - 1", where 'a = 32] x by simp
  then have "(of_nat ?x + e - 1) div e = of_nat (n - b div unat e)"
    unfolding word_arith_nat_div [of "of_nat ?x + e - 1"] using ceil_missing [OF e assms(2)] by simp
  then show ?thesis using assms(1) by (simp add: div_round_up_def)
qed

text \<open>The number of bytes in whole elements, and the bytes missing of a transfer whose first part failed.\<close>

lemma copied_whole:
  assumes "b \<le> unat len * kf_es fifo" "0 < kf_es fifo" "ln = of_nat (unat len * kf_es fifo)"
  shows "ln - of_nat (unat len - b div kf_es fifo) * kf_esize fifo = of_nat (b div kf_es fifo * kf_es fifo)"
proof -
  let ?E = "kf_es fifo"
  have "b div ?E \<le> unat len" using assms(1,2) by (metis div_le_mono nonzero_mult_div_cancel_right not_gr_zero)
  then have "unat len * ?E = (unat len - b div ?E) * ?E + b div ?E * ?E" by (simp flip: add_mult_distrib)
  then have "ln = of_nat ((unat len - b div ?E) * ?E + b div ?E * ?E)" unfolding assms(3) by (rule arg_cong)
  then show ?thesis by (simp add: kf_es_def)
qed

lemma missing_word:
  assumes "r \<le> unat l" "unat l \<le> n" "ln = of_nat n"
  shows "of_nat r + ln - l = (of_nat (n - (unat l - r)) :: u32)"
proof -
  have "n - (unat l - r) + unat l = r + n" using assms(1,2) by simp
  then have "of_nat (n - (unat l - r)) + l = (of_nat r + ln :: u32)"
    unfolding assms(3) by (metis of_nat_add of_nat_unat unsigned_ucast_eq ucast_id)
  then show ?thesis by (metis add_diff_cancel_right')
qed

text \<open>How many bytes of a transfer in two parts arrived.\<close>

lemma kfifo_copy_from_user_eq:
  assumes ok: "kfifo_ok fifo" and d: "kf_data fifo = Some d" and len: "unat len \<le> kf_cap fifo"
    and cfu: "cfu_ok user cfu" and big: "kf_cap fifo * kf_es fifo + kf_es fifo \<le> 2 ^ 32"
  shows "\<exists>W b. length W \<le> unat len * kf_es fifo \<and> b \<le> length W \<and> take b W = take b user \<and>
    ((\<forall>o' n. snd (cfu o' n) = 0) \<longrightarrow> b = unat len * kf_es fifo) \<and>
    kfifo_copy_from_user cfu fifo len off =
      Inr (fifo\<lparr>kf_data := Some (ring_put d (unat off * kf_es fifo) W)\<rparr>, of_nat (unat len - b div kf_es fifo), of_nat (b div kf_es fifo * kf_es fifo))"
proof -
  obtain o' ln l where sp: "kfifo_split fifo len off = (o', ln, l)" by (metis prod_cases3)
  note e = kfifo_split_eq [OF ok len sp]
  let ?E = "kf_es fifo" and ?n = "unat len * kf_es fifo"
  have S: "length d = kf_cap fifo * ?E" "0 < ?E" using ok d by (auto elim: kfifo_okE)
  have e0: "kf_esize fifo \<noteq> 0" using ok by (simp add: kfifo_ok_def)
  have n: "?n \<le> length d" using len S by simp
  have l: "unat l = min ?n (length d - unat o')" "unat o' < length d" using e(3,5) S by simp_all
  have ring: "ring_put d (unat o') W = ring_put d (unat off * ?E) W" for W unfolding e(1) S(1) [symmetric] by (rule ring_put_mod)
  have big': "unat len * unat (kf_esize fifo) + unat (kf_esize fifo) \<le> 2 ^ 32" using big n S(1) unfolding kf_es_def by linarith
  have dru: "div_round_up (of_nat (?n - b)) (kf_esize fifo) = Inr (of_nat (unat len - b div ?E))" if "b \<le> ?n" for b
    using div_round_up_missing [OF e0 _ big', of b] that by (simp add: kf_es_def)
  have lnw: "ln = of_nat ?n" using e(2) by (metis of_nat_unat unsigned_ucast_eq ucast_id)
  have cop: "ln - of_nat (unat len - b div ?E) * kf_esize fifo = of_nat (b div ?E * ?E)" if "b \<le> ?n" for b
    by (rule copied_whole [OF that S(2) lnw])
  obtain bs r where c1: "cfu 0 (unat l) = (bs, r)" by (metis prod.exhaust)
  have bs: "length bs = unat l" "r \<le> unat l" "take (unat l - r) bs = take (unat l - r) user"
    using cfu c1 unfolding cfu_ok_def by fastforce+
  show ?thesis
  proof (cases "r = 0")
    case False
    let ?b = "unat l - r"
    have "copy_bytes d (unat o') bs 0 (unat l) = Inr (ring_put d (unat o') bs)"
      using ring_put_copies [of "unat o'" d "unat l" bs "unat l"] l bs by (simp add: copy_bytes_def rbind_Inr_iff split: if_splits)
    moreover have "of_nat r + ln - l = (of_nat (?n - ?b) :: u32)" by (rule missing_word [OF bs(2) _ lnw]) (use l in simp)
    moreover have bl: "?b \<le> ?n" using l(1) by simp
    ultimately have "kfifo_copy_from_user cfu fifo len off =
      Inr (fifo\<lparr>kf_data := Some (ring_put d (unat off * ?E) bs)\<rparr>, of_nat (unat len - ?b div ?E), of_nat (?b div ?E * ?E))"
      using False dru [OF bl] cop [OF bl] by (simp add: kfifo_copy_from_user_def sp d c1 ring)
    moreover have "\<not> (\<forall>o' n. snd (cfu o' n) = 0)" using c1 False by (metis snd_conv)
    ultimately show ?thesis using bs l by (intro exI [of _ bs] exI [of _ ?b]) auto
  next
    case True
    obtain bs2 r2 where c2: "cfu (unat l) (?n - unat l) = (bs2, r2)" by (metis prod.exhaust)
    have bs2: "length bs2 = ?n - unat l" "r2 \<le> ?n - unat l" "take (?n - unat l - r2) bs2 = take (?n - unat l - r2) (drop (unat l) user)"
      using cfu c2 unfolding cfu_ok_def by fastforce+
    let ?W = "bs @ bs2" and ?b = "?n - r2"
    have W: "length ?W = ?n" using bs bs2 l(1) by simp
    have "rbind (copy_bytes d (unat o') bs 0 (unat l)) (\<lambda>d. copy_bytes d 0 bs2 0 (?n - unat l)) = Inr (ring_put d (unat o') ?W)"
      using ring_put_copies [OF l(2) n _ l(1), of ?W] W copy_bytes_parts [of bs "unat l" bs2 "?n - unat l"] bs(1) bs2(1) by simp
    then obtain d1 where d1: "copy_bytes d (unat o') bs 0 (unat l) = Inr d1" "copy_bytes d1 0 bs2 0 (?n - unat l) = Inr (ring_put d (unat o') ?W)"
      by (auto simp: rbind_Inr_iff)
    have b: "?b \<le> ?n" "?n - ?b = r2" using bs2(2) by auto
    have "kfifo_copy_from_user cfu fifo len off =
      Inr (fifo\<lparr>kf_data := Some (ring_put d (unat off * ?E) ?W)\<rparr>, of_nat (unat len - ?b div ?E), of_nat (?b div ?E * ?E))"
    proof (cases "r2 = 0")
      case r2: True
      then have bd: "?b div ?E = unat len" using S(2) by simp
      show ?thesis unfolding bd lnw [symmetric] using True r2 d1 c2 by (simp add: kfifo_copy_from_user_def sp d c1 e(4) ring)
    next
      case False
      then show ?thesis using True d1 c2 dru [OF b(1)] cop [OF b(1)] unfolding b(2) by (simp add: kfifo_copy_from_user_def sp d c1 e(4) ring)
    qed
    moreover have "take ?b ?W = take ?b user"
    proof -
      have "?b = unat l + (?n - unat l - r2)" using bs2(2) l(1) by simp
      then have "take ?b ?W = bs @ take (?n - unat l - r2) bs2" "take ?b user = take (unat l) user @ take (?n - unat l - r2) (drop (unat l) user)"
        using bs(1) by (simp_all add: take_add)
      then show ?thesis using bs bs2(3) True by simp
    qed
    moreover have "(\<forall>o' n. snd (cfu o' n) = 0) \<longrightarrow> ?b = ?n" using c2 by (metis diff_zero snd_conv)
    ultimately show ?thesis using W b by (intro exI [of _ ?W] exI [of _ ?b]) auto
  qed
qed

lemma left_word:
  fixes n :: u32
  assumes "q \<le> unat n"
  shows "of_nat (unat n - q) \<noteq> (0 :: u32) \<longleftrightarrow> q < unat n" "unat (n - of_nat (unat n - q)) = q"
proof -
  have "unat n - q < 2 ^ LENGTH(32)" using unat_less32 [of n] by simp
  then have u: "unat (of_nat (unat n - q) :: u32) = unat n - q" by (rule unat_of_nat_small)
  then show "of_nat (unat n - q) \<noteq> (0 :: u32) \<longleftrightarrow> q < unat n" using assms by (metis unat_eq_zero zero_less_diff not_gr_zero)
  have "unat (n - of_nat (unat n - q)) = unat n - unat (of_nat (unat n - q) :: u32)"
    by (rule unat_sub) (simp only: word_le_nat_alt u diff_le_self)
  then show "unat (n - of_nat (unat n - q)) = q" unfolding u using assms by simp
qed

lemma kfifo_copy_to_user_eq:
  assumes ok: "kfifo_ok fifo" and d: "kf_data fifo = Some d" and len: "unat len \<le> kf_cap fifo"
    and ctu: "ctu_ok ctu" and big: "kf_cap fifo * kf_es fifo + kf_es fifo \<le> 2 ^ 32"
  shows "\<exists>b. b \<le> unat len * kf_es fifo \<and> ((\<forall>o' bs. ctu o' bs = 0) \<longrightarrow> b = unat len * kf_es fifo) \<and>
    kfifo_copy_to_user ctu fifo len off =
      Inr (ring_get d (unat off * kf_es fifo) b, of_nat (unat len - b div kf_es fifo), of_nat (b div kf_es fifo * kf_es fifo))"
proof -
  obtain o' ln l where sp: "kfifo_split fifo len off = (o', ln, l)" by (metis prod_cases3)
  note e = kfifo_split_eq [OF ok len sp]
  let ?E = "kf_es fifo" and ?n = "unat len * kf_es fifo"
  have S: "length d = kf_cap fifo * ?E" "0 < ?E" using ok d by (auto elim: kfifo_okE)
  have e0: "kf_esize fifo \<noteq> 0" using ok by (simp add: kfifo_ok_def)
  have n: "?n \<le> length d" using len S by simp
  have l: "unat l = min ?n (length d - unat o')" "unat o' < length d" using e(3,5) S by simp_all
  have big': "unat len * unat (kf_esize fifo) + unat (kf_esize fifo) \<le> 2 ^ 32" using big n S(1) unfolding kf_es_def by linarith
  have dru: "div_round_up (of_nat (?n - b)) (kf_esize fifo) = Inr (of_nat (unat len - b div ?E))" if "b \<le> ?n" for b
    using div_round_up_missing [OF e0 _ big', of b] that by (simp add: kf_es_def)
  have lnw: "ln = of_nat ?n" using e(2) by (metis of_nat_unat unsigned_ucast_eq ucast_id)
  have cop: "ln - of_nat (unat len - b div ?E) * kf_esize fifo = of_nat (b div ?E * ?E)" if "b \<le> ?n" for b
    by (rule copied_whole [OF that S(2) lnw])
  let ?b1 = "take (unat l) (drop (unat o') d)" and ?b2 = "take (?n - unat l) d"
  have ring: "ring_get d (unat off * ?E) ?n = ?b1 @ ?b2"
    using ring_get_split [OF l(2) n] l(1) ring_get_mod [of d "unat off * ?E" ?n] unfolding e(1) S(1) by simp
  then have rb: "ring_get d (unat off * ?E) b = take b (?b1 @ ?b2)" if "b \<le> ?n" for b using that by (metis ring_get_take)
  have lens: "length ?b1 = unat l" "length ?b2 = ?n - unat l" using l n by auto
  have c1: "copy_bytes (replicate (unat l) 0) 0 d (unat o') (unat l) = Inr ?b1" using l by (subst copy_bytes_ok) auto
  have c2: "copy_bytes (replicate (?n - unat l) 0) 0 d 0 (?n - unat l) = Inr ?b2" using l n by (subst copy_bytes_ok) auto
  have r1: "ctu 0 ?b1 \<le> unat l" and r2: "ctu (unat l) ?b2 \<le> ?n - unat l" using ctu lens unfolding ctu_ok_def by metis+
  show ?thesis
  proof (cases "ctu 0 ?b1 = 0")
    case False
    let ?b = "unat l - ctu 0 ?b1"
    have "of_nat (ctu 0 ?b1) + ln - l = (of_nat (?n - ?b) :: u32)" by (rule missing_word [OF r1 _ lnw]) (use l in simp)
    moreover have bl: "?b \<le> ?n" using l(1) by simp
    ultimately have "kfifo_copy_to_user ctu fifo len off =
      Inr (take ?b ?b1, of_nat (unat len - ?b div ?E), of_nat (?b div ?E * ?E))"
      using False dru [OF bl] cop [OF bl] lens by (simp add: kfifo_copy_to_user_def sp d c1 Let_def)
    moreover have "take ?b ?b1 = ring_get d (unat off * ?E) ?b" unfolding rb [OF bl] using lens by simp
    ultimately show ?thesis using bl False by (intro exI [of _ ?b]) auto
  next
    case True
    let ?r = "ctu (unat l) ?b2"
    let ?b = "?n - ?r"
    have b: "?b \<le> ?n" "?n - ?b = ?r" using r2 by auto
    have "kfifo_copy_to_user ctu fifo len off =
      Inr (?b1 @ take (?n - unat l - ?r) ?b2, of_nat (unat len - ?b div ?E), of_nat (?b div ?E * ?E))"
    proof (cases "?r = 0")
      case r: True
      then have bd: "?b div ?E = unat len" using S(2) by simp
      show ?thesis unfolding bd lnw [symmetric] using True r c1 c2 lens by (simp add: kfifo_copy_to_user_def sp d e(4) Let_def)
    next
      case False
      then show ?thesis using True c1 c2 dru [OF b(1)] cop [OF b(1)] lens unfolding b(2) by (simp add: kfifo_copy_to_user_def sp d e(4) Let_def)
    qed
    moreover have "?b1 @ take (?n - unat l - ?r) ?b2 = ring_get d (unat off * ?E) ?b"
    proof -
      have "unat l \<le> ?n" unfolding l(1) by (rule min.cobounded1)
      then have "length ?b1 \<le> ?b" unfolding lens(1) using r2 by linarith
      then have "take ?b ?b1 = ?b1" by (rule take_all)
      moreover have "?b - unat l = ?n - unat l - ?r" by (rule diff_commute)
      ultimately have "take ?b (?b1 @ ?b2) = ?b1 @ take (?n - unat l - ?r) ?b2"
        by (simp only: take_append lens(1))
      then show ?thesis unfolding rb [OF b(1)] by (rule sym)
    qed
    ultimately show ?thesis using b by (intro exI [of _ ?b]) auto
  qed
qed

text \<open>
  Copies between a fifo and user space move whole elements. \<^verbatim>\<open>__kfifo_from_user\<close> offers the user's elements that fit; if the user's memory
  can be read throughout, all of them are appended and the result is 0, and if reading stops after b bytes, the elements that are
  complete within them are appended, \<^verbatim>\<open>copied\<close> is their size in bytes and the result is -EFAULT. \<^verbatim>\<open>__kfifo_to_user\<close> does the same in the other direction: the user receives
  the first b bytes of the contents and the elements complete within them are removed. Both keep the invariant, also when the transfer wraps around the end of
  the ring and fails in either half.\<close>

theorem kfifo_user_copies:
  assumes ok: "kfifo_ok fifo" and big: "kf_cap fifo * kf_es fifo + kf_es fifo \<le> 2 ^ 32"
    and cfu: "cfu_ok user cfu" and ctu: "ctu_ok ctu"
  shows "(\<exists>b fifo'. let n = min (unat len div kf_es fifo) (kf_cap fifo - length (contents fifo) div kf_es fifo); m = b div kf_es fifo in
      b \<le> n * kf_es fifo \<and> ((\<forall>off k. snd (cfu off k) = 0) \<longrightarrow> b = n * kf_es fifo) \<and>
      kfifo_from_user cfu fifo len = Inr (fifo', of_nat (m * kf_es fifo), if m < n then - 14 else 0) \<and>
      kfifo_ok fifo' \<and> contents fifo' = contents fifo @ take (m * kf_es fifo) user) \<and>
    (\<exists>b fifo'. let n = min (unat len div kf_es fifo) (length (contents fifo) div kf_es fifo); m = b div kf_es fifo in
      b \<le> n * kf_es fifo \<and> ((\<forall>off bs. ctu off bs = 0) \<longrightarrow> b = n * kf_es fifo) \<and>
      kfifo_to_user ctu fifo len = Inr (fifo', take b (contents fifo), of_nat (m * kf_es fifo), if m < n then - 14 else 0) \<and>
      kfifo_ok fifo' \<and> contents fifo' = drop (m * kf_es fifo) (contents fifo))"
    (is "?in \<and> ?out")
proof
  let ?E = "kf_es fifo"
  obtain d where d: "kf_data fifo = Some d" "0 < ?E" using ok by (auto elim: kfifo_okE)
  have e0: "kf_esize fifo \<noteq> 0" using ok by (simp add: kfifo_ok_def)
  define len1 where "len1 = (if kf_esize fifo \<noteq> 1 then len div kf_esize fifo else len)"
  have l1: "unat len1 = unat len div ?E" by (simp add: len1_def unat_div kf_es_def)
  have items: "length (contents fifo) div ?E = unat (kf_in fifo - kf_out fifo)" using kfifo_len_items [OF ok] by (simp add: kfifo_len_def)
  have div: "b div ?E \<le> unat n" if "b \<le> unat n * ?E" for b and n :: u32
    using that d(2) by (metis div_le_mono nonzero_mult_div_cancel_right not_gr_zero)
  have small: "of_nat (unat n - b div ?E) \<noteq> (0 :: u32) \<longleftrightarrow> b div ?E < unat n" and
    adv: "unat (n - of_nat (unat n - b div ?E)) = b div ?E" if "b \<le> unat n * ?E" for b and n :: u32
    using left_word [OF div [OF that]] by auto
  show ?in
  proof -
    define n where "n = (if len1 > kfifo_unused fifo then kfifo_unused fifo else len1)"
    have n: "unat n = min (unat len div ?E) (kf_cap fifo - unat (kf_in fifo - kf_out fifo))"
      using kfifo_unused_eq [OF ok] l1 by (auto simp: n_def word_less_nat_alt)
    have cap: "unat n \<le> kf_cap fifo" using n by simp
    from kfifo_copy_from_user_eq [OF ok d(1) cap cfu big, of "kf_in fifo"] obtain W b where
      W: "length W \<le> unat n * ?E" "b \<le> length W" "take b W = take b user" "(\<forall>o' n. snd (cfu o' n) = 0) \<longrightarrow> b = unat n * ?E"
      and c: "kfifo_copy_from_user cfu fifo n (kf_in fifo) =
        Inr (fifo\<lparr>kf_data := Some (ring_put d (unat (kf_in fifo) * ?E) W)\<rparr>, of_nat (unat n - b div ?E), of_nat (b div ?E * ?E))" by blast
    have b: "b \<le> unat n * ?E" using W by simp
    let ?k = "if b div ?E < unat n then n - of_nat (unat n - b div ?E) else n"
    have k: "unat ?k = b div ?E" using adv [OF b] div [OF b] by auto
    have "unat (kf_in fifo - kf_out fifo) + unat n \<le> kf_cap fifo" using n kfifo_ok_used [OF ok] by (auto simp: min_def)
    then have "unat (kf_in fifo - kf_out fifo) * ?E + unat n * ?E \<le> kf_cap fifo * ?E"
      unfolding add_mult_distrib [symmetric] by (rule mult_le_mono1)
    then have fit: "unat (kf_in fifo - kf_out fifo) * ?E + length W \<le> kf_cap fifo * ?E" using W(1) by linarith
    have kW: "unat ?k * ?E \<le> length W" unfolding k using W(2) by (meson div_times_less_eq_dividend le_trans)
    have "kfifo_from_user cfu fifo len = Inr (fifo\<lparr>kf_data := Some (ring_put d (unat (kf_in fifo) * ?E) W), kf_in := kf_in fifo + ?k\<rparr>,
        of_nat (b div ?E * ?E), if b div ?E < unat n then - 14 else 0)"
      using e0 c small [OF b] by (simp add: kfifo_from_user_def len1_def [symmetric] n_def [symmetric] Let_def)
    moreover have "take (b div ?E * ?E) W = take (b div ?E * ?E) user"
      using W(3) by (metis div_times_less_eq_dividend min.absorb1 take_take)
    ultimately show ?thesis using contents_extend [OF ok d(1) fit kW] b W(4) n unfolding k items Let_def
      by (intro exI [of _ b]) auto
  qed
  show ?out
  proof -
    define n where "n = (if len1 > kf_in fifo - kf_out fifo then kf_in fifo - kf_out fifo else len1)"
    have n: "unat n = min (unat len div ?E) (unat (kf_in fifo - kf_out fifo))" using l1 by (auto simp: n_def word_less_nat_alt)
    have cap: "unat n \<le> kf_cap fifo" using n kfifo_ok_used [OF ok] by simp
    from kfifo_copy_to_user_eq [OF ok d(1) cap ctu big, of "kf_out fifo"] obtain b where
      b: "b \<le> unat n * ?E" "(\<forall>o' bs. ctu o' bs = 0) \<longrightarrow> b = unat n * ?E" and
      c: "kfifo_copy_to_user ctu fifo n (kf_out fifo) = Inr (ring_get d (unat (kf_out fifo) * ?E) b, of_nat (unat n - b div ?E), of_nat (b div ?E * ?E))" by blast
    let ?k = "if b div ?E < unat n then n - of_nat (unat n - b div ?E) else n"
    have k: "unat ?k = b div ?E" using adv [OF b(1)] div [OF b(1)] by auto
    have ku: "unat ?k \<le> unat (kf_in fifo - kf_out fifo)" unfolding k using div [OF b(1)] n by simp
    have "b \<le> unat (kf_in fifo - kf_out fifo) * ?E" using b(1) unfolding n by (rule le_trans) (intro mult_le_mono1 min.cobounded2)
    then have "ring_get d (unat (kf_out fifo) * ?E) b = take b (contents fifo)" using d(1) by (simp add: contents_def ring_get_take)
    then have "kfifo_to_user ctu fifo len = Inr (fifo\<lparr>kf_out := kf_out fifo + ?k\<rparr>, take b (contents fifo),
        of_nat (b div ?E * ?E), if b div ?E < unat n then - 14 else 0)"
      using e0 c small [OF b(1)] by (simp add: kfifo_to_user_def len1_def [symmetric] n_def [symmetric] Let_def)
    then show ?thesis using contents_drop [OF ok ku] b n unfolding k items Let_def
      by (intro exI [of _ b]) auto
  qed
qed

text \<open>A user buffer of which only three bytes can be read: one of the two elements offered is complete, and the fifo has room for it.\<close>

definition roomy_fifo :: kfifo where
  "roomy_fifo = \<lparr>kf_in = 1, kf_out = - 1, kf_mask = 3, kf_esize = 2, kf_data = Some [5, 6, 9, 9, 1, 2, 3, 4]\<rparr>"

definition short_user :: "nat \<Rightarrow> nat \<Rightarrow> u8 list \<times> nat" where
  "short_user off n = (let a = take n (drop off [7, 8, 9]) in (a @ replicate (n - length a) 0, n - length a))"

lemma short_user_ok: "cfu_ok [7, 8, 9] short_user"
  by (auto simp: cfu_ok_def short_user_def Let_def min_def)

theorem kfifo_user_copies_witness:
  "kfifo_from_user short_user roomy_fifo 4 =
     Inr (\<lparr>kf_in = 2, kf_out = - 1, kf_mask = 3, kf_esize = 2, kf_data = Some [5, 6, 7, 8, 9, 0, 3, 4]\<rparr>, 2, - 14) \<and>
   (\<exists>b fifo'. let n = min (unat (4 :: u32) div kf_es roomy_fifo)
         (kf_cap roomy_fifo - length (contents roomy_fifo) div kf_es roomy_fifo);
       m = b div kf_es roomy_fifo in
      b \<le> n * kf_es roomy_fifo \<and> ((\<forall>off k. snd (short_user off k) = 0) \<longrightarrow> b = n * kf_es roomy_fifo) \<and>
      kfifo_from_user short_user roomy_fifo 4 = Inr (fifo', of_nat (m * kf_es roomy_fifo), if m < n then - 14 else 0) \<and>
      kfifo_ok fifo' \<and> contents fifo' = contents roomy_fifo @ take (m * kf_es roomy_fifo) [7, 8, 9])"
proof
  show "kfifo_from_user short_user roomy_fifo 4 =
     Inr (\<lparr>kf_in = 2, kf_out = - 1, kf_mask = 3, kf_esize = 2, kf_data = Some [5, 6, 7, 8, 9, 0, 3, 4]\<rparr>, 2, - 14)"
    by code_simp
  have "kfifo_ok roomy_fifo"
    by (simp add: kfifo_ok_def roomy_fifo_def kf_cap_def kf_es_def is_power_of_2_def)
  moreover have "kf_cap roomy_fifo * kf_es roomy_fifo + kf_es roomy_fifo \<le> 2 ^ 32"
    by (simp add: roomy_fifo_def kf_cap_def kf_es_def)
  moreover have "ctu_ok (\<lambda>off bs. 0)" by (simp add: ctu_ok_def)
  ultimately show "\<exists>b fifo'. let n = min (unat (4 :: u32) div kf_es roomy_fifo)
         (kf_cap roomy_fifo - length (contents roomy_fifo) div kf_es roomy_fifo);
       m = b div kf_es roomy_fifo in
      b \<le> n * kf_es roomy_fifo \<and> ((\<forall>off k. snd (short_user off k) = 0) \<longrightarrow> b = n * kf_es roomy_fifo) \<and>
      kfifo_from_user short_user roomy_fifo 4 = Inr (fifo', of_nat (m * kf_es roomy_fifo), if m < n then - 14 else 0) \<and>
      kfifo_ok fifo' \<and> contents fifo' = contents roomy_fifo @ take (m * kf_es roomy_fifo) [7, 8, 9]"
    using kfifo_user_copies [OF _ _ short_user_ok, of roomy_fifo "\<lambda>off bs. 0" 4] by blast
qed

end
