(* ===== verification/Kfifo_Rec.thy ===== *)
theory Kfifo_Rec
  imports Kfifo
begin

text \<open>
  Fifos of records of variable length, the second half of \<^verbatim>\<open>lib/kfifo.c\<close>, and the macros of \<^verbatim>\<open>include/linux/kfifo.h\<close> for one
  element. The elements of such a fifo are bytes; a record is preceded by its length in one or two bytes. The theory shows that
  the fifo keeps a list of records, and what happens to a record that is longer than its length field can say.
\<close>

section \<open>Records\<close>

text \<open>A record is a length of one or two bytes (\<^verbatim>\<open>recsize\<close>) and that many bytes.\<close>

definition kfifo_max_r :: "u32 \<Rightarrow> u32 \<Rightarrow> u32 res" where
  "kfifo_max_r len recsize =
     rbind (shl32 1 (uint (push_bit 3 recsize))) (\<lambda>x. let m = x - 1 in Inr (if len > m then m else len))"

definition kfifo_peek_n :: "kfifo \<Rightarrow> u32 \<Rightarrow> u32 res" where
  "kfifo_peek_n fifo recsize =
     rbind (deref (kf_data fifo)) (\<lambda>d.
     rbind (arr_get d (unat (kf_out fifo AND kf_mask fifo))) (\<lambda>a.
     if recsize - 1 \<noteq> 0 then
       rbind (arr_get d (unat ((kf_out fifo + 1) AND kf_mask fifo))) (\<lambda>b.
       Inr (ucast a OR push_bit 8 (ucast b)))
     else Inr (ucast a)))"

definition kfifo_poke_n :: "kfifo \<Rightarrow> u32 \<Rightarrow> u32 \<Rightarrow> kfifo res" where
  "kfifo_poke_n fifo n recsize =
     rbind (deref (kf_data fifo)) (\<lambda>d.
     rbind (arr_set d (unat (kf_in fifo AND kf_mask fifo)) (ucast n)) (\<lambda>d.
     rbind (if recsize > 1 then arr_set d (unat ((kf_in fifo + 1) AND kf_mask fifo)) (ucast (drop_bit 8 n)) else Inr d) (\<lambda>d.
     Inr (fifo\<lparr>kf_data := Some d\<rparr>))))"

definition kfifo_len_r :: "kfifo \<Rightarrow> u32 \<Rightarrow> u32 res" where
  "kfifo_len_r fifo recsize = kfifo_peek_n fifo recsize"

definition kfifo_in_r :: "kfifo \<Rightarrow> u8 list \<Rightarrow> u32 \<Rightarrow> u32 \<Rightarrow> (kfifo \<times> u32) res" where
  "kfifo_in_r fifo buf len recsize =
     (if len + recsize > kfifo_unused fifo then Inr (fifo, 0)
      else rbind (kfifo_poke_n fifo len recsize) (\<lambda>fifo.
      rbind (kfifo_copy_in fifo buf len (kf_in fifo + recsize)) (\<lambda>fifo.
      Inr (fifo\<lparr>kf_in := kf_in fifo + (len + recsize)\<rparr>, len))))"

text \<open>The destination, the number of bytes copied and the length of the record.\<close>

definition kfifo_out_copy_r :: "kfifo \<Rightarrow> u8 list \<Rightarrow> u32 \<Rightarrow> u32 \<Rightarrow> (u8 list \<times> u32 \<times> u32) res" where
  "kfifo_out_copy_r fifo buf len0 recsize =
     rbind (kfifo_peek_n fifo recsize) (\<lambda>n.
     let len = (if len0 > n then n else len0) in
     rbind (kfifo_copy_out fifo buf len (kf_out fifo + recsize)) (\<lambda>buf. Inr (buf, len, n)))"

definition kfifo_out_peek_r :: "kfifo \<Rightarrow> u8 list \<Rightarrow> u32 \<Rightarrow> u32 \<Rightarrow> (u8 list \<times> u32) res" where
  "kfifo_out_peek_r fifo buf len recsize =
     (if kf_in fifo = kf_out fifo then Inr (buf, 0)
      else rbind (kfifo_out_copy_r fifo buf len recsize) (\<lambda>(buf, len, n). Inr (buf, len)))"

definition kfifo_out_r :: "kfifo \<Rightarrow> u8 list \<Rightarrow> u32 \<Rightarrow> u32 \<Rightarrow> (kfifo \<times> u8 list \<times> u32) res" where
  "kfifo_out_r fifo buf len recsize =
     (if kf_in fifo = kf_out fifo then Inr (fifo, buf, 0)
      else rbind (kfifo_out_copy_r fifo buf len recsize) (\<lambda>(buf, len, n).
      Inr (fifo\<lparr>kf_out := kf_out fifo + (n + recsize)\<rparr>, buf, len)))"

definition kfifo_skip_r :: "kfifo \<Rightarrow> u32 \<Rightarrow> kfifo res" where
  "kfifo_skip_r fifo recsize =
     rbind (kfifo_peek_n fifo recsize) (\<lambda>n. Inr (fifo\<lparr>kf_out := kf_out fifo + (n + recsize)\<rparr>))"

definition kfifo_from_user_r ::
    "(nat \<Rightarrow> nat \<Rightarrow> u8 list \<times> nat) \<Rightarrow> kfifo \<Rightarrow> u32 \<Rightarrow> u32 \<Rightarrow> (kfifo \<times> u32 \<times> int) res" where
  "kfifo_from_user_r cfu fifo len0 recsize =
     rbind (kfifo_max_r len0 recsize) (\<lambda>len.
     if len + recsize > kfifo_unused fifo then Inr (fifo, 0, 0)
     else rbind (kfifo_poke_n fifo len recsize) (\<lambda>fifo.
     rbind (kfifo_copy_from_user cfu fifo len (kf_in fifo + recsize)) (\<lambda>(fifo, ret, copied).
     Inr (if ret \<noteq> 0 then (fifo, 0, - 14) else (fifo\<lparr>kf_in := kf_in fifo + (len + recsize)\<rparr>, copied, 0)))))"

definition kfifo_to_user_r ::
    "(nat \<Rightarrow> u8 list \<Rightarrow> nat) \<Rightarrow> kfifo \<Rightarrow> u32 \<Rightarrow> u32 \<Rightarrow> (kfifo \<times> u8 list \<times> u32 \<times> int) res" where
  "kfifo_to_user_r ctu fifo len0 recsize =
     (if kf_in fifo = kf_out fifo then Inr (fifo, [], 0, 0)
      else rbind (kfifo_peek_n fifo recsize) (\<lambda>n.
      let len = (if len0 > n then n else len0) in
      rbind (kfifo_copy_to_user ctu fifo len (kf_out fifo + recsize)) (\<lambda>(out, ret, copied).
      Inr (if ret \<noteq> 0 then (fifo, out, 0, - 14) else (fifo\<lparr>kf_out := kf_out fifo + (n + recsize)\<rparr>, out, copied, 0)))))"

definition kfifo_dma_in_finish_r :: "kfifo \<Rightarrow> u32 \<Rightarrow> u32 \<Rightarrow> kfifo res" where
  "kfifo_dma_in_finish_r fifo len0 recsize =
     rbind (kfifo_max_r len0 recsize) (\<lambda>len.
     rbind (kfifo_poke_n fifo len recsize) (\<lambda>fifo. Inr (fifo\<lparr>kf_in := kf_in fifo + (len + recsize)\<rparr>)))"

definition kfifo_dma_out_finish_r :: "kfifo \<Rightarrow> u32 \<Rightarrow> kfifo res" where
  "kfifo_dma_out_finish_r fifo recsize =
     rbind (kfifo_peek_n fifo recsize) (\<lambda>len. Inr (fifo\<lparr>kf_out := kf_out fifo + (len + recsize)\<rparr>))"

section \<open>Single elements\<close>

text \<open>The macros for one element; \<open>recsize\<close> is the size of the length field of the fifo's type, 0 for a fifo without records.\<close>

definition kfifo_avail :: "kfifo \<Rightarrow> u32 \<Rightarrow> u32 res" where
  "kfifo_avail fifo recsize =
     (let avail = kfifo_size fifo - kfifo_len fifo in
      if recsize \<noteq> 0 then (if avail \<le> recsize then Inr 0 else kfifo_max_r (avail - recsize) recsize) else Inr avail)"

definition kfifo_skip :: "kfifo \<Rightarrow> u32 \<Rightarrow> kfifo res" where
  "kfifo_skip fifo recsize =
     (if recsize \<noteq> 0 then kfifo_skip_r fifo recsize else Inr (fifo\<lparr>kf_out := kf_out fifo + 1\<rparr>))"

definition kfifo_peek_len :: "kfifo \<Rightarrow> u32 \<Rightarrow> u32 res" where
  "kfifo_peek_len fifo recsize =
     (if recsize = 0 then Inr (kfifo_len fifo * kf_esize fifo) else kfifo_len_r fifo recsize)"

definition elem_at :: "kfifo \<Rightarrow> u32 \<Rightarrow> nat" where
  "elem_at fifo i = unat (i AND kf_mask fifo) * unat (kf_esize fifo)"

definition kfifo_put :: "kfifo \<Rightarrow> u8 list \<Rightarrow> u32 \<Rightarrow> (kfifo \<times> u32) res" where
  "kfifo_put fifo val recsize =
     (if recsize \<noteq> 0 then kfifo_in_r fifo val (of_nat (length val)) recsize
      else if kfifo_is_full fifo then Inr (fifo, 0)
      else rbind (deref (kf_data fifo)) (\<lambda>d.
      rbind (copy_bytes d (elem_at fifo (kf_in fifo)) val 0 (unat (kf_esize fifo))) (\<lambda>d.
      Inr (fifo\<lparr>kf_data := Some d, kf_in := kf_in fifo + 1\<rparr>, 1))))"

definition kfifo_peek :: "kfifo \<Rightarrow> u8 list \<Rightarrow> u32 \<Rightarrow> (u8 list \<times> u32) res" where
  "kfifo_peek fifo val recsize =
     (if recsize \<noteq> 0 then kfifo_out_peek_r fifo val (of_nat (length val)) recsize
      else if kfifo_is_empty fifo then Inr (val, 0)
      else rbind (deref (kf_data fifo)) (\<lambda>d.
      rbind (copy_bytes val 0 d (elem_at fifo (kf_out fifo)) (unat (kf_esize fifo))) (\<lambda>val. Inr (val, 1))))"

definition kfifo_get :: "kfifo \<Rightarrow> u8 list \<Rightarrow> u32 \<Rightarrow> (kfifo \<times> u8 list \<times> u32) res" where
  "kfifo_get fifo val recsize =
     (if recsize \<noteq> 0 then kfifo_out_r fifo val (of_nat (length val)) recsize
      else if kfifo_is_empty fifo then Inr (fifo, val, 0)
      else rbind (deref (kf_data fifo)) (\<lambda>d.
      rbind (copy_bytes val 0 d (elem_at fifo (kf_out fifo)) (unat (kf_esize fifo))) (\<lambda>val.
      Inr (fifo\<lparr>kf_out := kf_out fifo + 1\<rparr>, val, 1))))"

section \<open>Writing in pieces\<close>

lemma ring_eqI:
  assumes "length d = length d'" "0 < length d" "\<And>i. i < length d \<Longrightarrow> cyc d (a + i) = cyc d' (a + i)"
  shows "d = d'"
proof (rule nth_equalityI)
  fix j
  assume j: "j < length d"
  let ?S = "length d"
  let ?i = "(j + (?S - a mod ?S)) mod ?S"
  have "(a + ?i) mod ?S = (a mod ?S + (j + (?S - a mod ?S))) mod ?S" by (simp add: mod_simps)
  also have "a mod ?S + (j + (?S - a mod ?S)) = j + ?S" using mod_less_divisor [OF assms(2), of a] by linarith
  finally have "(a + ?i) mod ?S = j" using j by simp
  then show "d ! j = d' ! j" using assms(3) [of ?i] assms(1,2) by (simp add: cyc_def)
qed (rule assms(1))

lemma ring_put_append:
  assumes "length x + length y \<le> length d"
  shows "ring_put (ring_put d a x) (a + length x) y = ring_put d a (x @ y)"
proof (cases "length d = 0")
  case True
  then show ?thesis by (simp add: ring_put_def)
next
  case False
  show ?thesis
  proof (rule ring_eqI [where a = a])
    fix i
    assume "i < length (ring_put (ring_put d a x) (a + length x) y)"
    then have i: "i < length d" by simp
    have r: "cyc (ring_put d a (x @ y)) (a + i) = (if i < length x + length y then (x @ y) ! i else cyc d (a + i))"
      using cyc_ring_put [OF i, of "x @ y" a] assms by simp
    have x: "cyc (ring_put d a x) (a + i) = (if i < length x then x ! i else cyc d (a + i))"
      using cyc_ring_put [OF i, of x a] assms by simp
    show "cyc (ring_put (ring_put d a x) (a + length x) y) (a + i) = cyc (ring_put d a (x @ y)) (a + i)"
    proof (cases "i < length x")
      case True
      let ?k = "length d - length x + i"
      have k: "?k < length (ring_put d a x)" "\<not> ?k < length y" using True assms by (simp_all; linarith)+
      have e: "a + length x + ?k = (a + i) + length d" using assms by linarith
      have "cyc (ring_put (ring_put d a x) (a + length x) y) (a + length x + ?k) = cyc (ring_put d a x) (a + length x + ?k)"
        using cyc_ring_put [OF k(1), of y "a + length x"] k(2) assms by simp
      then have "cyc (ring_put (ring_put d a x) (a + length x) y) (a + i) = cyc (ring_put d a x) (a + i)"
        unfolding e by (simp add: cyc_def)
      then show ?thesis using x r True by (simp add: nth_append)
    next
      case ge: False
      have "cyc (ring_put (ring_put d a x) (a + length x) y) (a + length x + (i - length x)) =
        (if i - length x < length y then y ! (i - length x) else cyc (ring_put d a x) (a + length x + (i - length x)))"
        by (rule cyc_ring_put) (use i assms in auto)
      then show ?thesis using ge x r by (auto simp: nth_append)
    qed
  qed (use False in simp_all)
qed

lemma ring_put_single: "0 < length d \<Longrightarrow> ring_put d a [v] = d[a mod length d := v]"
proof (rule ring_eqI [where a = a])
  fix i
  assume S: "0 < length d" and "i < length (ring_put d a [v])"
  then have i: "i < length d" by simp
  have "(a + i) mod length d = a mod length d \<longleftrightarrow> i = 0"
  proof
    assume "(a + i) mod length d = a mod length d"
    then have "length d dvd i" by (metis add.commute add_diff_cancel_right' mod_eq_dvd_iff_nat le_add1)
    then show "i = 0" using i by (auto dest: dvd_imp_le)
  qed simp
  then show "cyc (ring_put d a [v]) (a + i) = cyc (d[a mod length d := v]) (a + i)"
    using cyc_ring_put [OF i, of "[v]" a] S i by (auto simp: cyc_def nth_list_update)
qed simp_all

section \<open>The length field\<close>

definition enc :: "u32 \<Rightarrow> u32 \<Rightarrow> u8 list" where
  "enc recsize n = (if recsize = 1 then [ucast n] else [ucast n, ucast (drop_bit 8 n)])"

definition rec_fifo :: "u32 \<Rightarrow> kfifo \<Rightarrow> bool" where
  "rec_fifo recsize fifo \<longleftrightarrow> kfifo_ok fifo \<and> kf_esize fifo = 1 \<and> recsize \<in> {1, 2}"

lemma rec_fifoD:
  assumes "rec_fifo recsize fifo"
  shows "kfifo_ok fifo" "kf_es fifo = 1" "length (enc recsize n) = unat recsize" "unat recsize \<le> 2"
  using assms by (auto simp: rec_fifo_def kf_es_def enc_def)

lemma rec_fifo_data:
  assumes "rec_fifo recsize fifo"
  obtains d where "kf_data fifo = Some d" "length d = kf_cap fifo" "0 < length d"
  using rec_fifoD(1) [OF assms] by (rule kfifo_okE) (use rec_fifoD(2) [OF assms] that in simp)

lemma kfifo_poke_n_eq:
  assumes r: "rec_fifo recsize fifo" and d: "kf_data fifo = Some d" and room: "unat recsize \<le> kf_cap fifo"
  shows "kfifo_poke_n fifo n recsize = Inr (fifo\<lparr>kf_data := Some (ring_put d (unat (kf_in fifo)) (enc recsize n))\<rparr>)"
proof -
  note ok = rec_fifoD(1) [OF r] and es = rec_fifoD(2) [OF r]
  obtain d' where "kf_data fifo = Some d'" "length d' = kf_cap fifo" "0 < length d'" using r by (rule rec_fifo_data)
  then have S: "length d = kf_cap fifo" "0 < length d" using d by simp_all
  have i0: "unat (kf_in fifo AND kf_mask fifo) = unat (kf_in fifo) mod length d" unfolding S(1) by (rule masked_index [OF ok])
  have i1: "unat ((kf_in fifo + 1) AND kf_mask fifo) = (unat (kf_in fifo) + 1) mod length d"
    unfolding S(1) masked_index [OF ok] using index_wrap [OF ok, of "kf_in fifo" 1] es by simp
  have p: "unat (kf_in fifo) mod length d < length d" "(unat (kf_in fifo) + 1) mod length d < length d" using S(2) by simp_all
  consider "recsize = 1" | "recsize = 2" using r by (auto simp: rec_fifo_def)
  then show ?thesis
  proof cases
    case 1
    then show ?thesis using p(1) S(2) by (simp add: kfifo_poke_n_def d i0 enc_def ring_put_single)
  next
    case 2
    then have "1 + 1 \<le> length d" using room S(1) by simp
    then have "ring_put (ring_put d (unat (kf_in fifo)) [ucast n]) (unat (kf_in fifo) + 1) [ucast (drop_bit 8 n)] =
      ring_put d (unat (kf_in fifo)) [ucast n, ucast (drop_bit 8 n)]"
      using ring_put_append [of "[ucast n]" "[ucast (drop_bit 8 n)]" d "unat (kf_in fifo)"] by simp
    then show ?thesis using p 2 S(2) by (simp add: kfifo_poke_n_def d i0 i1 enc_def ring_put_single)
  qed
qed

lemma kfifo_in_r_eq:
  assumes r: "rec_fifo recsize fifo" and buf: "unat len \<le> length buf" and small: "unat len + unat recsize < 2 ^ 32"
  shows "if unat len + unat recsize \<le> kf_cap fifo - length (contents fifo)
    then \<exists>fifo'. kfifo_in_r fifo buf len recsize = Inr (fifo', len) \<and> rec_fifo recsize fifo' \<and> kf_cap fifo' = kf_cap fifo \<and>
      contents fifo' = contents fifo @ enc recsize len @ take (unat len) buf
    else kfifo_in_r fifo buf len recsize = Inr (fifo, 0)"
proof -
  note ok = rec_fifoD(1) [OF r] and es = rec_fifoD(2) [OF r]
  obtain d where d: "kf_data fifo = Some d" "length d = kf_cap fifo" "0 < length d" using r by (rule rec_fifo_data)
  have lc: "length (contents fifo) = unat (kf_in fifo - kf_out fifo)" using length_contents [OF ok] es by simp
  have sum: "unat (len + recsize) = unat len + unat recsize" using small by (simp add: unat_word_ariths)
  have room: "len + recsize > kfifo_unused fifo \<longleftrightarrow> \<not> unat len + unat recsize \<le> kf_cap fifo - length (contents fifo)"
    by (simp add: word_less_nat_alt sum kfifo_unused_eq [OF ok] lc not_le)
  show ?thesis
  proof (cases "unat len + unat recsize \<le> kf_cap fifo - length (contents fifo)")
    case False
    then show ?thesis using room by (simp add: kfifo_in_r_def)
  next
    case True
    let ?i = "unat (kf_in fifo)" and ?e = "enc recsize len" and ?b = "take (unat len) buf"
    have le: "length ?e = unat recsize" by (rule rec_fifoD(3) [OF r])
    have poke: "kfifo_poke_n fifo len recsize = Inr (fifo\<lparr>kf_data := Some (ring_put d ?i ?e)\<rparr>)"
      by (rule kfifo_poke_n_eq [OF r d(1)]) (use True in simp)
    let ?f = "fifo\<lparr>kf_data := Some (ring_put d ?i ?e)\<rparr>"
    have fok: "kfifo_ok ?f" using ok d(1) by (simp add: kfifo_ok_def)
    have "kfifo_copy_in ?f buf len (kf_in fifo + recsize) =
      Inr (?f\<lparr>kf_data := Some (ring_put (ring_put d ?i ?e) (unat (kf_in fifo + recsize) * kf_es ?f) (take (unat len * kf_es ?f) buf))\<rparr>)"
      by (rule kfifo_copy_in_eq [OF fok]) (use True es buf in auto)
    also have "ring_put (ring_put d ?i ?e) (unat (kf_in fifo + recsize) * kf_es ?f) (take (unat len * kf_es ?f) buf) =
      ring_put (ring_put d ?i ?e) (?i + length ?e) ?b"
      using ring_put_wrap [OF ok, of "ring_put d ?i ?e" "kf_in fifo" recsize] d(2) es le by simp
    also have "\<dots> = ring_put d ?i (?e @ ?b)"
      by (rule ring_put_append) (use True le d(2) in simp)
    finally have copy: "kfifo_copy_in ?f buf len (kf_in fifo + recsize) = Inr (fifo\<lparr>kf_data := Some (ring_put d ?i (?e @ ?b))\<rparr>)" by simp
    let ?g = "fifo\<lparr>kf_data := Some (ring_put d ?i (?e @ ?b)), kf_in := kf_in fifo + (len + recsize)\<rparr>"
    have "kfifo_in_r fifo buf len recsize = Inr (?g, len)"
      using True room by (simp add: kfifo_in_r_def poke copy)
    moreover have "unat (kf_in fifo - kf_out fifo) + unat (len + recsize) \<le> kf_cap fifo" using True kfifo_ok_used [OF ok] by (simp add: lc sum)
    then have "kfifo_ok ?g \<and> contents ?g = contents fifo @ ?e @ ?b"
      using contents_append [OF ok d(1), of "len + recsize" "?e @ ?b"] es le buf sum by simp
    moreover have "kf_esize ?g = 1" using r by (simp add: rec_fifo_def)
    ultimately show ?thesis using True r by (auto simp: rec_fifo_def)
  qed
qed

text \<open>Reading a length back: its low byte or its two low bytes.\<close>

definition dec :: "u32 \<Rightarrow> u8 list \<Rightarrow> u32" where
  "dec recsize c = (if recsize = 1 then ucast (c ! 0) else ucast (c ! 0) OR push_bit 8 (ucast (c ! 1)))"

lemma dec_enc: "recsize \<in> {1, 2} \<Longrightarrow> dec recsize (enc recsize n @ x) = take_bit (8 * unat recsize) n"
  by (rule bit_word_eqI) (auto simp: dec_def enc_def bit_simps)

lemma take_bit_small: "unat n < 2 ^ k \<Longrightarrow> take_bit k n = n" for n :: u32
  by (simp add: word_unat_eq_iff unsigned_take_bit_eq take_bit_nat_eq_self)

lemma kfifo_peek_n_eq:
  assumes r: "rec_fifo recsize fifo" and c: "unat recsize \<le> length (contents fifo)"
  shows "kfifo_peek_n fifo recsize = Inr (dec recsize (contents fifo))"
proof -
  note ok = rec_fifoD(1) [OF r] and es = rec_fifoD(2) [OF r]
  obtain d where d: "kf_data fifo = Some d" "length d = kf_cap fifo" "0 < length d" using r by (rule rec_fifo_data)
  have i0: "unat (kf_out fifo AND kf_mask fifo) = unat (kf_out fifo) mod length d" unfolding d(2) by (rule masked_index [OF ok])
  have i1: "unat ((kf_out fifo + 1) AND kf_mask fifo) = (unat (kf_out fifo) + 1) mod length d"
    unfolding d(2) masked_index [OF ok] using index_wrap [OF ok, of "kf_out fifo" 1] es by simp
  have p: "unat (kf_out fifo) mod length d < length d" "(unat (kf_out fifo) + 1) mod length d < length d" using d(3) by simp_all
  have nth: "contents fifo ! j = d ! ((unat (kf_out fifo) + j) mod length d)" if "j < length (contents fifo)" for j
    using that d(1) es by (simp add: contents_def cyc_def)
  consider "recsize = 1" | "recsize = 2" using r by (auto simp: rec_fifo_def)
  then show ?thesis
  proof cases
    case 1
    then have "0 < length (contents fifo)" using c by (cases "contents fifo") auto
    then show ?thesis using p(1) 1 nth [of 0] by (simp add: kfifo_peek_n_def d(1) i0 dec_def)
  next
    case 2
    then have "0 < length (contents fifo)" "1 < length (contents fifo)" using c by (cases "contents fifo"; auto)+
    then show ?thesis using p 2 nth [of 0] nth [of 1] by (simp add: kfifo_peek_n_def d(1) i0 i1 dec_def)
  qed
qed

lemma rec_fifo_drop:
  assumes r: "rec_fifo recsize fifo" and n: "unat n + unat recsize \<le> length (contents fifo)"
  shows "rec_fifo recsize (fifo\<lparr>kf_out := kf_out fifo + (n + recsize)\<rparr>) \<and> kf_cap (fifo\<lparr>kf_out := kf_out fifo + (n + recsize)\<rparr>) = kf_cap fifo \<and>
    contents (fifo\<lparr>kf_out := kf_out fifo + (n + recsize)\<rparr>) = drop (unat n + unat recsize) (contents fifo)"
proof -
  note ok = rec_fifoD(1) [OF r] and es = rec_fifoD(2) [OF r]
  have lc: "length (contents fifo) = unat (kf_in fifo - kf_out fifo)" using length_contents [OF ok] es by simp
  have "unat n + unat recsize < 2 ^ 32" using n unfolding lc using unat_less32 [of "kf_in fifo - kf_out fifo"] by linarith
  then have s: "unat (n + recsize) = unat n + unat recsize" by (simp add: unat_word_ariths)
  have "unat (n + recsize) \<le> unat (kf_in fifo - kf_out fifo)" using n lc s by simp
  from contents_drop [OF ok this] show ?thesis using r es s by (simp add: rec_fifo_def)
qed

lemma kfifo_out_copy_r_eq:
  assumes r: "rec_fifo recsize fifo" and n: "dec recsize (contents fifo) = n" "unat n + unat recsize \<le> length (contents fifo)"
    and buf: "min (unat len) (unat n) \<le> length buf"
  shows "\<exists>m. unat m = min (unat len) (unat n) \<and> kfifo_out_copy_r fifo buf len recsize =
    Inr (take (unat m) (drop (unat recsize) (contents fifo)) @ drop (unat m) buf, m, n)"
proof -
  note ok = rec_fifoD(1) [OF r] and es = rec_fifoD(2) [OF r]
  obtain d where d: "kf_data fifo = Some d" "length d = kf_cap fifo" "0 < length d" using r by (rule rec_fifo_data)
  have lc: "length (contents fifo) = unat (kf_in fifo - kf_out fifo)" using length_contents [OF ok] es by simp
  define m where "m = (if len > n then n else len)"
  have m: "unat m = min (unat len) (unat n)" by (auto simp: m_def word_less_nat_alt)
  have "unat m \<le> kf_cap fifo" using m n(2) lc kfifo_ok_used [OF ok] by linarith
  then have "kfifo_copy_out fifo buf m (kf_out fifo + recsize) =
    Inr (ring_get d (unat (kf_out fifo + recsize) * kf_es fifo) (unat m * kf_es fifo) @ drop (unat m * kf_es fifo) buf)"
    by (rule kfifo_copy_out_eq [OF ok d(1)]) (use m buf es in simp)
  also have "ring_get d (unat (kf_out fifo + recsize) * kf_es fifo) (unat m * kf_es fifo) = ring_get d (unat (kf_out fifo) + unat recsize) (unat m)"
    using ring_get_wrap [OF ok, of d "kf_out fifo" recsize] d(2) es by simp
  also have "\<dots> = take (unat m) (drop (unat recsize) (contents fifo))"
  proof -
    have "contents fifo = ring_get d (unat (kf_out fifo)) (unat (kf_in fifo - kf_out fifo))" using d(1) es by (simp add: contents_def)
    then show ?thesis using n(2) m lc by (simp add: ring_get_drop ring_get_take)
  qed
  finally have "kfifo_out_copy_r fifo buf len recsize =
    Inr (take (unat m) (drop (unat recsize) (contents fifo)) @ drop (unat m) buf, m, n)"
    using kfifo_peek_n_eq [OF r] n es by (simp add: kfifo_out_copy_r_def m_def [symmetric] Let_def)
  then show ?thesis using m by blast
qed

section \<open>A list of records\<close>

definition frame :: "u32 \<Rightarrow> u8 list \<Rightarrow> u8 list" where
  "frame recsize r = enc recsize (of_nat (length r)) @ r"

definition records :: "u32 \<Rightarrow> u8 list list \<Rightarrow> kfifo \<Rightarrow> bool" where
  "records recsize rs fifo \<longleftrightarrow> rec_fifo recsize fifo \<and> contents fifo = concat (map (frame recsize) rs) \<and>
     (\<forall>r \<in> set rs. length r < 256 ^ unat recsize)"

lemma records_first:
  assumes "records recsize (r # rs) fifo"
  shows "dec recsize (contents fifo) = of_nat (length r)" "unat (of_nat (length r) :: u32) = length r"
    "length r + unat recsize \<le> length (contents fifo)" "take (length r) (drop (unat recsize) (contents fifo)) = r"
    "drop (length r + unat recsize) (contents fifo) = concat (map (frame recsize) rs)"
proof -
  have rf: "rec_fifo recsize fifo" and c: "contents fifo = enc recsize (of_nat (length r)) @ r @ concat (map (frame recsize) rs)"
    and l: "length r < 256 ^ unat recsize" using assms by (auto simp: records_def frame_def)
  have rs: "recsize \<in> {1, 2}" using rf by (simp add: rec_fifo_def)
  then have k: "256 ^ unat recsize = (2 :: nat) ^ (8 * unat recsize)" "(256 :: nat) ^ unat recsize \<le> 65536" by auto
  have "length r < 2 ^ LENGTH(32)" using l k(2) by simp
  then show u: "unat (of_nat (length r) :: u32) = length r" by (rule unat_of_nat_small)
  show "dec recsize (contents fifo) = of_nat (length r)"
    unfolding c dec_enc [OF rs] by (rule take_bit_small) (use l k(1) u in simp)
  note le = rec_fifoD(3) [OF rf, of "of_nat (length r)"]
  show "length r + unat recsize \<le> length (contents fifo)" "take (length r) (drop (unat recsize) (contents fifo)) = r"
    "drop (length r + unat recsize) (contents fifo) = concat (map (frame recsize) rs)" unfolding c using le by simp_all
qed


text \<open>An empty fifo of eight bytes with one-byte lengths, at the point where its counters wrap around.\<close>

definition rec_sample :: kfifo where
  "rec_sample = \<lparr>kf_in = - 1, kf_out = - 1, kf_mask = 7, kf_esize = 1, kf_data = Some [0, 0, 0, 0, 0, 0, 0, 0]\<rparr>"

lemma rec_sample_ok: "records 1 [] rec_sample"
  by (simp add: records_def rec_fifo_def kfifo_ok_def rec_sample_def kf_cap_def kf_es_def is_power_of_2_def contents_def ring_get_def)


text \<open>
  \<^verbatim>\<open>__kfifo_in_r\<close> does not check the length against its field: a longer record is stored whole, but what is read back is the
  length modulo the range of the field, and the rest of the record is then taken for further records.
\<close>

lemma kfifo_in_r_truncates:
  assumes r: "rec_fifo recsize fifo" and e: "contents fifo = []" and buf: "unat len \<le> length buf"
    and small: "unat len + unat recsize < 2 ^ 32" and fit: "unat len + unat recsize \<le> kf_cap fifo"
  shows "\<exists>fifo'. kfifo_in_r fifo buf len recsize = Inr (fifo', len) \<and>
    kfifo_len_r fifo' recsize = Inr (take_bit (8 * unat recsize) len)"
proof -
  have rs: "recsize \<in> {1, 2}" using r by (simp add: rec_fifo_def)
  from kfifo_in_r_eq [OF r buf small] e fit obtain fifo' where f: "kfifo_in_r fifo buf len recsize = Inr (fifo', len)"
    "rec_fifo recsize fifo'" "contents fifo' = enc recsize len @ take (unat len) buf" by auto
  have "unat recsize \<le> length (contents fifo')" using rec_fifoD(3) [OF r, of len] by (simp add: f(3))
  from kfifo_peek_n_eq [OF f(2) this] show ?thesis using f dec_enc [OF rs] by (auto simp: kfifo_len_r_def)
qed

section \<open>Records from and to user space\<close>

lemma kfifo_max_r_eq:
  assumes "recsize \<in> {1, 2}"
  shows "\<exists>m. kfifo_max_r len recsize = Inr m \<and> unat m = min (unat len) (256 ^ unat recsize - 1)"
proof -
  have "(push_bit 8 1 :: u32) = 256" "(push_bit 16 1 :: u32) = 65536" by (simp_all add: push_bit_eq_mult)
  then show ?thesis using assms
    by (auto simp: kfifo_max_r_def shl32_def push_bit_eq_mult Let_def word_less_nat_alt min_def)
qed

text \<open>A record from user space is appended whole or not at all.\<close>

lemma kfifo_from_user_r_eq:
  assumes rec: "records recsize rs fifo" and cfu: "cfu_ok user cfu"
  shows "\<exists>b. let m = min (unat len) (256 ^ unat recsize - 1) in b \<le> m \<and> ((\<forall>off k. snd (cfu off k) = 0) \<longrightarrow> b = m) \<and>
    (\<exists>fifo'. if m + unat recsize \<le> kf_cap fifo - length (contents fifo)
      then if b = m then kfifo_from_user_r cfu fifo len recsize = Inr (fifo', of_nat m, 0) \<and> records recsize (rs @ [take m user]) fifo'
        else kfifo_from_user_r cfu fifo len recsize = Inr (fifo', 0, - 14) \<and> records recsize rs fifo'
      else kfifo_from_user_r cfu fifo len recsize = Inr (fifo, 0, 0))"
proof -
  have rf: "rec_fifo recsize fifo" and c: "contents fifo = concat (map (frame recsize) rs)"
    and ls: "\<forall>r \<in> set rs. length r < 256 ^ unat recsize" using rec by (auto simp: records_def)
  have r2: "recsize \<in> {1, 2}" using rf by (simp add: rec_fifo_def)
  then have k: "(256 :: nat) ^ unat recsize \<le> 65536" "unat recsize \<le> 2" "(0 :: nat) < 256 ^ unat recsize" by auto
  obtain m where m: "kfifo_max_r len recsize = Inr m" "unat m = min (unat len) (256 ^ unat recsize - 1)" using kfifo_max_r_eq [OF r2] by blast
  note ok = rec_fifoD(1) [OF rf] and es = rec_fifoD(2) [OF rf]
  obtain d where d: "kf_data fifo = Some d" "length d = kf_cap fifo" "0 < length d" using rf by (rule rec_fifo_data)
  have lc: "length (contents fifo) = unat (kf_in fifo - kf_out fifo)" using length_contents [OF ok] es by simp
  have m6: "unat m < 256 ^ unat recsize" unfolding m(2) using k(3) by linarith
  then have "unat m + unat recsize < 65536 + 3" using k(1,2) by linarith
  then have sum: "unat (m + recsize) = unat m + unat recsize" by (simp add: unat_word_ariths)
  have room: "m + recsize > kfifo_unused fifo \<longleftrightarrow> \<not> unat m + unat recsize \<le> kf_cap fifo - length (contents fifo)"
    by (simp add: word_less_nat_alt sum kfifo_unused_eq [OF ok] lc not_le)
  show ?thesis
  proof (cases "unat m + unat recsize \<le> kf_cap fifo - length (contents fifo)")
    case False
    then have "kfifo_from_user_r cfu fifo len recsize = Inr (fifo, 0, 0)" using room m(1) by (simp add: kfifo_from_user_r_def)
    then show ?thesis using False unfolding m(2) [symmetric] Let_def by (intro exI [of _ "unat m"]) simp
  next
    case True
    let ?i = "unat (kf_in fifo)" and ?e = "enc recsize m"
    let ?f = "fifo\<lparr>kf_data := Some (ring_put d ?i ?e)\<rparr>"
    have le: "length ?e = unat recsize" by (rule rec_fifoD(3) [OF rf])
    have poke: "kfifo_poke_n fifo m recsize = Inr ?f" by (rule kfifo_poke_n_eq [OF rf d(1)]) (use True in simp)
    have fok: "kfifo_ok ?f" using ok d(1) by (simp add: kfifo_ok_def)
    have cap: "unat m \<le> kf_cap ?f" using True by simp
    have big: "kf_cap ?f * kf_es ?f + kf_es ?f \<le> 2 ^ 32" using ok d(1,2) es by (simp add: kfifo_ok_def)
    have es1: "kf_es ?f = 1" and dat: "kf_data ?f = Some (ring_put d ?i ?e)" using es by simp_all
    from kfifo_copy_from_user_eq [OF fok dat cap cfu big, of "kf_in fifo + recsize", unfolded es1 mult_1_right div_by_1] obtain W b where
      W: "length W \<le> unat m" "b \<le> length W" "take b W = take b user" "(\<forall>o' n. snd (cfu o' n) = 0) \<longrightarrow> b = unat m" and
      "kfifo_copy_from_user cfu ?f m (kf_in fifo + recsize) =
        Inr (?f\<lparr>kf_data := Some (ring_put (ring_put d ?i ?e) (unat (kf_in fifo + recsize)) W)\<rparr>, of_nat (unat m - b), of_nat b)"
      by blast
    then have cp: "kfifo_copy_from_user cfu ?f m (kf_in fifo + recsize) =
        Inr (fifo\<lparr>kf_data := Some (ring_put (ring_put d ?i ?e) (unat (kf_in fifo + recsize)) W)\<rparr>, of_nat (unat m - b), of_nat b)" by simp
    have rp: "ring_put (ring_put d ?i ?e) (unat (kf_in fifo + recsize)) W = ring_put d ?i (?e @ W)"
    proof -
      have "ring_put (ring_put d ?i ?e) (unat (kf_in fifo + recsize)) W = ring_put (ring_put d ?i ?e) (?i + length ?e) W"
        using ring_put_wrap [OF ok, of "ring_put d ?i ?e" "kf_in fifo" recsize] d(2) es le by simp
      then show ?thesis using ring_put_append [of ?e W d ?i] True le d(2) W(1) by simp
    qed
    have fit: "unat (kf_in fifo - kf_out fifo) * kf_es fifo + length (?e @ W) \<le> kf_cap fifo * kf_es fifo"
      using True W(1) le lc es kfifo_ok_used [OF ok] by simp
    have bm: "b \<le> unat m" using W(1,2) by simp
    have z: "of_nat (unat m - b) \<noteq> (0 :: u32) \<longleftrightarrow> b < unat m" by (rule left_word(1) [OF bm])
    show ?thesis
    proof (cases "b = unat m")
      case all: True
      let ?g = "fifo\<lparr>kf_data := Some (ring_put d ?i (?e @ W)), kf_in := kf_in fifo + (m + recsize)\<rparr>"
      have "W = take (unat m) user" using all W by (metis le_antisym take_all)
      then have lu: "length (take (unat m) user) = unat m" "W = take (unat m) user" using all W(1,2) by auto
      have "unat (m + recsize) * kf_es fifo \<le> length (?e @ W)" using lu le es sum by simp
      from contents_extend [OF ok d(1) fit this]
      have g: "kfifo_ok ?g" "contents ?g = contents fifo @ ?e @ W" using es sum le lu by simp_all
      have "frame recsize (take (unat m) user) = ?e @ W" using lu by (simp add: frame_def)
      then have "records recsize (rs @ [take (unat m) user]) ?g" using g c ls m6 lu(1) rf by (simp add: records_def rec_fifo_def)
      moreover have "kfifo_from_user_r cfu fifo len recsize = Inr (?g, of_nat (unat m), 0)"
        using True room m(1) poke cp rp all by (simp add: kfifo_from_user_r_def)
      ultimately show ?thesis using True all W(4) unfolding m(2) [symmetric] Let_def by (intro exI [of _ b]) auto
    next
      case part: False
      let ?g = "fifo\<lparr>kf_data := Some (ring_put d ?i (?e @ W))\<rparr>"
      from contents_extend [OF ok d(1) fit, of 0] have g: "kfifo_ok ?g" "contents ?g = contents fifo" using es by simp_all
      then have "records recsize rs ?g" using c ls rf by (simp add: records_def rec_fifo_def)
      moreover have "kfifo_from_user_r cfu fifo len recsize = Inr (?g, 0, - 14)"
        using True room m(1) poke cp rp part z bm by (simp add: kfifo_from_user_r_def)
      ultimately show ?thesis using True part W(4) bm unfolding m(2) [symmetric] Let_def by (intro exI [of _ b]) auto
    qed
  qed
qed

section \<open>Single elements\<close>

text \<open>The macros for one element do what the general routines do for a count of one.\<close>

lemma elem_at_eq: "kfifo_ok fifo \<Longrightarrow> elem_at fifo i = unat i * kf_es fifo mod (kf_cap fifo * kf_es fifo)"
  by (simp add: elem_at_def masked_index kf_es_def mult_mod_left)

lemma elem_at_end:
  assumes "kfifo_ok fifo"
  shows "elem_at fifo i + kf_es fifo \<le> kf_cap fifo * kf_es fifo"
proof -
  have "0 < kf_cap fifo" using assms by (rule kfifo_okE)
  then have "unat i mod kf_cap fifo + 1 \<le> kf_cap fifo" by (simp add: Suc_leI)
  then have "(unat i mod kf_cap fifo + 1) * kf_es fifo \<le> kf_cap fifo * kf_es fifo" by (rule mult_le_mono1)
  then show ?thesis unfolding elem_at_def masked_index [OF assms] kf_es_def [symmetric] by (simp add: add.commute)
qed

lemma kfifo_put_is_in:
  assumes ok: "kfifo_ok fifo" and val: "kf_es fifo \<le> length val"
  shows "kfifo_put fifo val 0 = kfifo_in fifo val 1"
proof -
  obtain d where d: "kf_data fifo = Some d" "length d = kf_cap fifo * kf_es fifo" "0 < kf_es fifo" "0 < kf_cap fifo" "0 < length d"
    using ok by (auto elim: kfifo_okE)
  have full: "kfifo_is_full fifo \<longleftrightarrow> kfifo_unused fifo = 0"
  proof -
    have "kfifo_is_full fifo \<longleftrightarrow> kf_cap fifo \<le> unat (kf_in fifo - kf_out fifo)"
      by (simp add: kfifo_is_full_def kfifo_len_def word_less_nat_alt kf_cap_def Suc_le_eq)
    also have "\<dots> \<longleftrightarrow> unat (kfifo_unused fifo) = 0" unfolding kfifo_unused_eq [OF ok] by simp
    finally show ?thesis by (simp add: unat_eq_zero)
  qed
  have put: "copy_bytes d (elem_at fifo (kf_in fifo)) val 0 (kf_es fifo) = Inr (ring_put d (unat (kf_in fifo) * kf_es fifo) (take (kf_es fifo) val))"
  proof -
    let ?p = "elem_at fifo (kf_in fifo)"
    have e: "?p + kf_es fifo \<le> length d" using elem_at_end [OF ok] d(2) by simp
    have "rbind (copy_bytes d ?p val 0 (kf_es fifo)) (\<lambda>d. copy_bytes d 0 val (kf_es fifo) (kf_es fifo - kf_es fifo)) =
      Inr (ring_put d ?p (take (kf_es fifo) val))"
      by (rule ring_put_copies) (use e d(3) val in auto)
    moreover have "ring_put d ?p = ring_put d (unat (kf_in fifo) * kf_es fifo)"
      unfolding elem_at_eq [OF ok] d(2) [symmetric] by (rule ext) (rule ring_put_mod)
    ultimately show ?thesis by (auto simp: rbind_Inr_iff copy_bytes_def split: if_splits)
  qed
  show ?thesis
  proof (cases "kfifo_unused fifo = 0")
    case True
    have "kfifo_copy_in fifo val 0 (kf_in fifo) = Inr (fifo\<lparr>kf_data := Some (ring_put d (unat (kf_in fifo) * kf_es fifo) [])\<rparr>)"
      using kfifo_copy_in_eq [OF ok d(1), of 0 val "kf_in fifo"] by simp
    moreover have "ring_put d (unat (kf_in fifo) * kf_es fifo) [] = d" by (simp add: ring_put_def map_nth)
    ultimately show ?thesis using True full d(1) by (simp add: kfifo_put_def kfifo_in_def)
  next
    case False
    then have n: "\<not> 1 > kfifo_unused fifo" by (simp add: word_less_nat_alt unat_eq_zero)
    have "kfifo_copy_in fifo val 1 (kf_in fifo) =
      Inr (fifo\<lparr>kf_data := Some (ring_put d (unat (kf_in fifo) * kf_es fifo) (take (kf_es fifo) val))\<rparr>)"
      using kfifo_copy_in_eq [OF ok d(1), of 1 val "kf_in fifo"] val d(4) by simp
    then show ?thesis using False n full d(1) put by (simp add: kfifo_put_def kfifo_in_def kf_es_def Let_def)
  qed
qed

lemma kfifo_get_is_out:
  assumes ok: "kfifo_ok fifo" and val: "kf_es fifo \<le> length val"
  shows "kfifo_get fifo val 0 = kfifo_out fifo val 1" and "kfifo_peek fifo val 0 = kfifo_out_peek fifo val 1"
proof -
  obtain d where d: "kf_data fifo = Some d" "length d = kf_cap fifo * kf_es fifo" "0 < kf_es fifo" "0 < kf_cap fifo" "0 < length d"
    using ok by (auto elim: kfifo_okE)
  let ?p = "elem_at fifo (kf_out fifo)" and ?g = "ring_get d (unat (kf_out fifo) * kf_es fifo) (kf_es fifo) @ drop (kf_es fifo) val"
  have get: "copy_bytes val 0 d ?p (kf_es fifo) = Inr ?g"
  proof -
    have e: "?p + kf_es fifo \<le> length d" using elem_at_end [OF ok] d(2) by simp
    have "?p < length d" "kf_es fifo \<le> length d" using e d(3) by auto
    from ring_get_split [OF this] have "ring_get d ?p (kf_es fifo) = take (kf_es fifo) (drop ?p d)" using e by (simp add: min_absorb1)
    moreover have "ring_get d ?p (kf_es fifo) = ring_get d (unat (kf_out fifo) * kf_es fifo) (kf_es fifo)"
      unfolding elem_at_eq [OF ok] d(2) [symmetric] by (rule ring_get_mod)
    ultimately show ?thesis using e val by (subst copy_bytes_ok) auto
  qed
  have peek: "kfifo_out_peek fifo val 1 = (if kfifo_is_empty fifo then Inr (val, 0) else Inr (?g, 1))"
  proof (cases "kfifo_is_empty fifo")
    case True
    then show ?thesis using kfifo_copy_out_eq [OF ok d(1), of 0 val "kf_out fifo"]
      by (simp add: kfifo_is_empty_def kfifo_out_peek_def ring_get_def)
  next
    case False
    then have "kf_in fifo - kf_out fifo \<noteq> 0" by (simp add: kfifo_is_empty_def)
    then have n: "\<not> 1 > kf_in fifo - kf_out fifo" by (simp only: word_less_nat_alt not_less unat_1) (simp add: unat_gt_0 Suc_leI)
    have "kfifo_copy_out fifo val 1 (kf_out fifo) = Inr ?g"
      using kfifo_copy_out_eq [OF ok d(1), of 1 val "kf_out fifo"] val d(4) by simp
    then show ?thesis using False n by (simp add: kfifo_out_peek_def Let_def)
  qed
  show "kfifo_peek fifo val 0 = kfifo_out_peek fifo val 1" using peek get d(1) by (simp add: kfifo_peek_def kf_es_def)
  show "kfifo_get fifo val 0 = kfifo_out fifo val 1" using peek get d(1) by (simp add: kfifo_get_def kfifo_out_def kf_es_def)
qed

end
