(* ===== verification/Kfifo_Conc.thy ===== *)
theory Kfifo_Conc
  imports Kfifo
begin

text \<open>
  One reader and one writer of a kfifo on two processors. \<^verbatim>\<open>include/linux/kfifo.h\<close> promises that they need no lock. Here
  \<^verbatim>\<open>__kfifo_in\<close> and \<^verbatim>\<open>__kfifo_out\<close> are cut into the accesses another processor can see between: reading the counters, each byte of the copies, and
  the update of the own counter. The steps of both sides are interleaved in every order. Memory is sequentially consistent, which the
  barriers \<^verbatim>\<open>smp_wmb\<close> before the update of a counter are there for.
\<close>

section \<open>The calls, step by step\<close>

text \<open>Where the copies of the code put, or get, byte \<open>k\<close>: behind the offset, then from the beginning of the buffer.\<close>

definition copy_index :: "kfifo \<Rightarrow> u32 \<Rightarrow> u32 \<Rightarrow> nat \<Rightarrow> nat" where
  "copy_index fifo len0 off0 k =
     (case kfifo_split fifo len0 off0 of (off, len, l) \<Rightarrow> if k < unat l then unat off + k else k - unat l)"

definition copy_size :: "kfifo \<Rightarrow> u32 \<Rightarrow> u32 \<Rightarrow> nat" where
  "copy_size fifo len0 off0 = (case kfifo_split fifo len0 off0 of (off, len, l) \<Rightarrow> unat len)"

text \<open>
  A writer is between calls, or has room for \<open>len\<close> elements of its buffer and has copied \<open>k\<close> bytes; a reader is between calls, or takes
  \<open>len\<close> elements and has copied the bytes \<open>bs\<close>.
\<close>

datatype writer = WIdle | WCopy "u8 list" u32 nat
datatype reader = RIdle | RCopy u32 "u8 list"

text \<open>The shared fifo, both threads, and the bytes that calls so far have accepted and delivered.\<close>

record conc =
  c_fifo :: kfifo
  c_writer :: writer
  c_reader :: reader
  c_sent :: "u8 list"
  c_got :: "u8 list"

text \<open>One step of the writer; the arguments are those of the next call.\<close>

definition writer_step :: "u8 list \<Rightarrow> u32 \<Rightarrow> conc \<Rightarrow> conc res" where
  "writer_step buf0 len0 c =
     (let fifo = c_fifo c in
      case c_writer c of
        WIdle \<Rightarrow>
          let l = kfifo_unused fifo in Inr (c\<lparr>c_writer := WCopy buf0 (if len0 > l then l else len0) 0\<rparr>)
      | WCopy buf len k \<Rightarrow>
          if k < copy_size fifo len (kf_in fifo)
          then rbind (deref (kf_data fifo)) (\<lambda>d.
               rbind (arr_get buf k) (\<lambda>b.
               rbind (arr_set d (copy_index fifo len (kf_in fifo) k) b) (\<lambda>d.
               Inr (c\<lparr>c_fifo := fifo\<lparr>kf_data := Some d\<rparr>, c_writer := WCopy buf len (Suc k)\<rparr>))))
          else Inr (c\<lparr>c_fifo := fifo\<lparr>kf_in := kf_in fifo + len\<rparr>, c_writer := WIdle, c_sent := c_sent c @ take k buf\<rparr>))"

definition reader_step :: "u32 \<Rightarrow> conc \<Rightarrow> conc res" where
  "reader_step len0 c =
     (let fifo = c_fifo c in
      case c_reader c of
        RIdle \<Rightarrow>
          let l = kf_in fifo - kf_out fifo in Inr (c\<lparr>c_reader := RCopy (if len0 > l then l else len0) []\<rparr>)
      | RCopy len bs \<Rightarrow>
          if length bs < copy_size fifo len (kf_out fifo)
          then rbind (deref (kf_data fifo)) (\<lambda>d.
               rbind (arr_get d (copy_index fifo len (kf_out fifo) (length bs))) (\<lambda>b.
               Inr (c\<lparr>c_reader := RCopy len (bs @ [b])\<rparr>)))
          else Inr (c\<lparr>c_fifo := fifo\<lparr>kf_out := kf_out fifo + len\<rparr>, c_reader := RIdle, c_got := c_got c @ bs\<rparr>))"

text \<open>Every interleaving; the buffer of a call has the bytes of the elements it offers.\<close>

inductive conc_step :: "conc \<Rightarrow> conc \<Rightarrow> bool" where
  wr: "writer_step buf len c = Inr c' \<Longrightarrow> unat len * kf_es (c_fifo c) \<le> length buf \<Longrightarrow> conc_step c c'"
| re: "reader_step len c = Inr c' \<Longrightarrow> conc_step c c'"

inductive conc_reach :: "conc \<Rightarrow> conc \<Rightarrow> bool" where
  refl: "conc_reach c c"
| step: "conc_reach c c' \<Longrightarrow> conc_step c' c'' \<Longrightarrow> conc_reach c c''"

definition conc_start :: "kfifo \<Rightarrow> conc" where
  "conc_start fifo = \<lparr>c_fifo = fifo, c_writer = WIdle, c_reader = RIdle, c_sent = [], c_got = []\<rparr>"

section \<open>Single bytes around the buffer\<close>

lemma position_of:
  assumes "j < length d"
  obtains i where "i < length d" "j = (a + i) mod length d"
proof
  let ?i = "(j + length d - a mod length d) mod length d"
  show "?i < length d" using assms by (intro mod_less_divisor) auto
  have l: "a mod length d < length d" using assms by (intro mod_less_divisor) auto
  have "(a + ?i) mod length d = (a mod length d + (j + length d - a mod length d)) mod length d" by (simp only: mod_simps)
  also have "\<dots> = j" using assms l by simp
  finally show "j = (a + ?i) mod length d" by simp
qed

lemma ring_put_eqI:
  assumes "length src \<le> length d" "length e = length d"
    and "\<And>i. i < length d \<Longrightarrow> cyc e (a + i) = (if i < length src then src ! i else cyc d (a + i))"
  shows "ring_put d a src = e"
proof (rule nth_equalityI)
  fix j assume "j < length (ring_put d a src)"
  then obtain i where i: "i < length d" "j = (a + i) mod length d" using position_of [of j d a] by auto
  then have "cyc (ring_put d a src) (a + i) = cyc e (a + i)" using cyc_ring_put [OF i(1) assms(1)] assms(3) [OF i(1)] by simp
  then show "ring_put d a src ! j = e ! j" using i(2) assms(2) by (simp add: cyc_def)
qed (use assms in simp)

lemma ring_put_same:
  assumes "length src \<le> length d" "ring_get d a (length src) = src"
  shows "ring_put d a src = d"
  by (rule ring_put_eqI) (use assms ring_get_nth [of _ "length src" d a] in auto)

lemma ring_put_byte:
  assumes "k < length d" "k < length buf" "ring_get d a k = take k buf"
  shows "ring_put d a (take (Suc k) buf) = d[(a + k) mod length d := buf ! k]"
proof (rule ring_put_eqI)
  fix i assume i: "i < length d"
  have "(a + i) mod length d = (a + k) mod length d \<longleftrightarrow> i = k"
  proof
    assume "(a + i) mod length d = (a + k) mod length d"
    then obtain p q where "a + i + length d * p = a + k + length d * q" by (auto simp: nat_mod_eq_iff)
    then have "i + length d * p = k + length d * q" by simp
    then have "i mod length d = k mod length d" unfolding nat_mod_eq_iff by blast
    then show "i = k" using i assms(1) by simp
  qed simp
  moreover have "(a + i) mod length d < length d" using i by (intro mod_less_divisor) auto
  ultimately have "cyc (d[(a + k) mod length d := buf ! k]) (a + i) = (if i = k then buf ! k else cyc d (a + i))"
    by (cases "i = k") (auto simp: cyc_def)
  moreover have "cyc d (a + i) = buf ! i" if "i < k"
    using that ring_get_nth [of i k d a] assms(2,3) by simp
  ultimately show "cyc (d[(a + k) mod length d := buf ! k]) (a + i) =
      (if i < length (take (Suc k) buf) then take (Suc k) buf ! i else cyc d (a + i))"
    using assms(2) by (auto simp: less_Suc_eq)
qed (use assms in auto)

lemma ring_get_put: "length src \<le> length d \<Longrightarrow> ring_get (ring_put d a src) a (length src) = src"
  by (rule nth_equalityI) (auto simp: cyc_ring_put)

lemma copy_index_eq:
  assumes ok: "kfifo_ok fifo" and len: "unat len \<le> kf_cap fifo" and k: "k < unat len * kf_es fifo"
  shows "copy_index fifo len off k = (unat off * kf_es fifo + k) mod (kf_cap fifo * kf_es fifo)"
proof -
  let ?S = "kf_cap fifo * kf_es fifo"
  obtain o' ln l where sp: "kfifo_split fifo len off = (o', ln, l)" by (metis prod_cases3)
  note e = kfifo_split_eq [OF ok len sp]
  have "unat len * kf_es fifo \<le> ?S" using len by simp
  then have kS: "k < ?S" using k by linarith
  have "(unat off * kf_es fifo + k) mod ?S = (unat o' + k) mod ?S" unfolding e(1) by (simp only: mod_simps)
  also have "\<dots> = (if k < unat l then unat o' + k else k - unat l)"
  proof (cases "k < unat l")
    case True
    have "unat l \<le> ?S - unat o'" using e(3) by simp
    then have "unat o' + k < ?S" using True by linarith
    then show ?thesis using True by simp
  next
    case False
    then have l: "unat l = ?S - unat o'" using e(3) k by (simp add: min_def split: if_splits)
    then have "?S \<le> unat o' + k" "unat o' + k - ?S = k - unat l" using False e(5) by linarith+
    then show ?thesis using False e(5) kS by (simp add: le_mod_geq)
  qed
  finally show ?thesis by (simp add: copy_index_def sp)
qed

lemma copy_size_eq: "kfifo_ok fifo \<Longrightarrow> unat len \<le> kf_cap fifo \<Longrightarrow> copy_size fifo len off = unat len * kf_es fifo"
  by (cases "kfifo_split fifo len off") (simp add: copy_size_def kfifo_split_eq(2))

section \<open>The invariant of the interleaving\<close>

text \<open>
  The writer has room for what it writes and its bytes already are behind the contents; the reader has the oldest bytes of
  the contents; what was delivered and what is inside is what was inside at the start and what was accepted.
\<close>

fun writer_ok :: "kfifo \<Rightarrow> writer \<Rightarrow> bool" where
  "writer_ok fifo WIdle \<longleftrightarrow> True"
| "writer_ok fifo (WCopy buf len k) \<longleftrightarrow>
     (case kf_data fifo of None \<Rightarrow> False | Some d \<Rightarrow> ring_get d (unat (kf_in fifo) * kf_es fifo) k = take k buf) \<and>
     unat (kf_in fifo - kf_out fifo) + unat len \<le> kf_cap fifo \<and> k \<le> unat len * kf_es fifo \<and> unat len * kf_es fifo \<le> length buf"

fun reader_ok :: "kfifo \<Rightarrow> reader \<Rightarrow> bool" where
  "reader_ok fifo RIdle \<longleftrightarrow> True"
| "reader_ok fifo (RCopy len bs) \<longleftrightarrow>
     bs = take (length bs) (contents fifo) \<and> length bs \<le> unat len * kf_es fifo \<and> unat len \<le> unat (kf_in fifo - kf_out fifo)"

definition conc_inv :: "kfifo \<Rightarrow> conc \<Rightarrow> bool" where
  "conc_inv fifo c \<longleftrightarrow> kfifo_ok (c_fifo c) \<and> kf_es fifo = kf_es (c_fifo c) \<and> writer_ok (c_fifo c) (c_writer c) \<and> reader_ok (c_fifo c) (c_reader c) \<and>
     c_got c @ contents (c_fifo c) = contents fifo @ c_sent c"

lemma unused_fits:
  assumes "kfifo_ok fifo"
  shows "unat (kf_in fifo - kf_out fifo) + unat (if len > kfifo_unused fifo then kfifo_unused fifo else len) \<le> kf_cap fifo"
  using kfifo_unused_eq [OF assms] kfifo_ok_used [OF assms] by (auto simp: word_less_nat_alt)

text \<open>A byte stored behind the contents changes neither them nor the bytes stored before it.\<close>

lemma store_behind:
  assumes ok: "kfifo_ok fifo" and d: "kf_data fifo = Some d"
    and old: "ring_get d (unat (kf_in fifo) * kf_es fifo) k = take k buf"
    and room: "unat (kf_in fifo - kf_out fifo) + unat len \<le> kf_cap fifo"
    and k: "k < unat len * kf_es fifo" "unat len * kf_es fifo \<le> length buf"
  defines "d' \<equiv> d[copy_index fifo len (kf_in fifo) k := buf ! k]"
  shows "copy_index fifo len (kf_in fifo) k < length d" and "kfifo_ok (fifo\<lparr>kf_data := Some d'\<rparr>)"
    and "contents (fifo\<lparr>kf_data := Some d'\<rparr>) = contents fifo"
    and "ring_get d' (unat (kf_in fifo) * kf_es fifo) (Suc k) = take (Suc k) buf"
proof -
  let ?a = "unat (kf_in fifo) * kf_es fifo" and ?u = "unat (kf_in fifo - kf_out fifo)"
  have S: "length d = kf_cap fifo * kf_es fifo" "0 < length d" using ok d by (auto elim: kfifo_okE)
  have "(?u + unat len) * kf_es fifo \<le> kf_cap fifo * kf_es fifo" using room by (intro mult_le_mono1)
  then have fit: "?u * kf_es fifo + unat len * kf_es fifo \<le> length d" unfolding S(1) by (simp add: add_mult_distrib)
  have ix: "copy_index fifo len (kf_in fifo) k = (?a + k) mod length d"
    unfolding S(1) using room k(1) by (intro copy_index_eq [OF ok]) auto
  then show "copy_index fifo len (kf_in fifo) k < length d" using S(2) by simp
  have put: "d' = ring_put d ?a (take (Suc k) buf)"
    unfolding d'_def ix using ring_put_byte [OF _ _ old] k fit by simp
  have sl: "length (take (Suc k) buf) = Suc k" using k by simp
  have "?u * kf_es fifo + length (take (Suc k) buf) \<le> kf_cap fifo * kf_es fifo" using fit k(1) sl S(1) by linarith
  from contents_extend [OF ok d this, of 0] show "kfifo_ok (fifo\<lparr>kf_data := Some d'\<rparr>)" "contents (fifo\<lparr>kf_data := Some d'\<rparr>) = contents fifo"
    by (simp_all add: put)
  show "ring_get d' ?a (Suc k) = take (Suc k) buf"
    using ring_get_put [of "take (Suc k) buf" d ?a] sl fit k(1) unfolding put by simp
qed

text \<open>Advancing \<^verbatim>\<open>in\<close> over bytes that are already there appends them.\<close>

lemma publish:
  assumes ok: "kfifo_ok fifo" and d: "kf_data fifo = Some d"
    and old: "ring_get d (unat (kf_in fifo) * kf_es fifo) (unat len * kf_es fifo) = take (unat len * kf_es fifo) buf"
    and room: "unat (kf_in fifo - kf_out fifo) + unat len \<le> kf_cap fifo" and buf: "unat len * kf_es fifo \<le> length buf"
  shows "kfifo_ok (fifo\<lparr>kf_in := kf_in fifo + len\<rparr>)"
    and "contents (fifo\<lparr>kf_in := kf_in fifo + len\<rparr>) = contents fifo @ take (unat len * kf_es fifo) buf"
proof -
  let ?s = "take (unat len * kf_es fifo) buf"
  have S: "length d = kf_cap fifo * kf_es fifo" using ok d by (auto elim: kfifo_okE)
  have l: "length ?s = unat len * kf_es fifo" using buf by simp
  have "unat len \<le> kf_cap fifo" using room by simp
  then have "length ?s \<le> length d" unfolding l S by (intro mult_le_mono1)
  then have "ring_put d (unat (kf_in fifo) * kf_es fifo) ?s = d" by (rule ring_put_same) (unfold l, rule old)
  moreover have "fifo\<lparr>kf_data := Some d, kf_in := kf_in fifo + len\<rparr> = fifo\<lparr>kf_in := kf_in fifo + len\<rparr>" using d by (cases fifo) simp
  ultimately show "kfifo_ok (fifo\<lparr>kf_in := kf_in fifo + len\<rparr>)" "contents (fifo\<lparr>kf_in := kf_in fifo + len\<rparr>) = contents fifo @ ?s"
    using contents_append [OF ok d room l] by simp_all
qed

section \<open>Steps\<close>

lemma writer_step_ok:
  assumes inv: "conc_inv fifo c" and buf0: "unat len0 * kf_es (c_fifo c) \<le> length buf0"
  shows "\<exists>c'. writer_step buf0 len0 c = Inr c' \<and> conc_inv fifo c'"
proof (cases "c_writer c")
  case WIdle
  let ?f = "c_fifo c"
  define l where "l = (if len0 > kfifo_unused ?f then kfifo_unused ?f else len0)"
  have ok: "kfifo_ok ?f" using inv by (simp add: conc_inv_def)
  obtain d where d: "kf_data ?f = Some d" using ok by (auto elim: kfifo_okE)
  have "l \<le> len0" by (auto simp: l_def)
  then have "unat l * kf_es ?f \<le> length buf0" using buf0 by (meson le_trans mult_le_mono1 word_le_nat_alt)
  moreover have "unat (kf_in ?f - kf_out ?f) + unat l \<le> kf_cap ?f" unfolding l_def by (rule unused_fits [OF ok])
  ultimately have "conc_inv fifo (c\<lparr>c_writer := WCopy buf0 l 0\<rparr>)" using inv d
    by (simp add: conc_inv_def ring_get_def)
  then show ?thesis using WIdle by (simp add: writer_step_def Let_def l_def)
next
  case (WCopy buf len k)
  let ?f = "c_fifo c"
  have ok: "kfifo_ok ?f" using inv by (simp add: conc_inv_def)
  obtain d where d: "kf_data ?f = Some d" using ok by (auto elim: kfifo_okE)
  from inv WCopy d have w: "ring_get d (unat (kf_in ?f) * kf_es ?f) k = take k buf"
    "unat (kf_in ?f - kf_out ?f) + unat len \<le> kf_cap ?f" "k \<le> unat len * kf_es ?f" "unat len * kf_es ?f \<le> length buf"
    by (simp_all add: conc_inv_def)
  have sz: "copy_size ?f len (kf_in ?f) = unat len * kf_es ?f" using w(2) by (intro copy_size_eq [OF ok]) simp
  show ?thesis
  proof (cases "k < unat len * kf_es ?f")
    case True
    note s = store_behind [OF ok d w(1,2) True w(4)]
    have "conc_inv fifo (c\<lparr>c_fifo := ?f\<lparr>kf_data := Some (d[copy_index ?f len (kf_in ?f) k := buf ! k])\<rparr>, c_writer := WCopy buf len (Suc k)\<rparr>)"
      using inv s(2-4) w(2,4) True by (cases "c_reader c") (simp_all add: conc_inv_def)
    moreover have "writer_step buf0 len0 c =
        Inr (c\<lparr>c_fifo := ?f\<lparr>kf_data := Some (d[copy_index ?f len (kf_in ?f) k := buf ! k])\<rparr>, c_writer := WCopy buf len (Suc k)\<rparr>)"
      using WCopy True w(4) d sz s(1) by (simp add: writer_step_def Let_def)
    ultimately show ?thesis by blast
  next
    case False
    then have k: "k = unat len * kf_es ?f" using w(3) by simp
    note p = publish [OF ok d w(1) [unfolded k] w(2,4)]
    have u: "unat (kf_in ?f + len - kf_out ?f) = unat (kf_in ?f - kf_out ?f) + unat len" by (rule used_grows [OF ok w(2)])
    have lr: "length bs \<le> length (contents ?f)" if "c_reader c = RCopy n bs" for n bs
      using inv that by (metis conc_inv_def reader_ok.simps(2) length_take min.cobounded1)
    have "conc_inv fifo (c\<lparr>c_fifo := ?f\<lparr>kf_in := kf_in ?f + len\<rparr>, c_writer := WIdle, c_sent := c_sent c @ take k buf\<rparr>)"
      using inv p u lr by (cases "c_reader c") (simp_all add: conc_inv_def k flip: append_assoc)
    then show ?thesis using WCopy False sz by (simp add: writer_step_def Let_def)
  qed
qed

lemma reader_step_ok:
  assumes inv: "conc_inv fifo c"
  shows "\<exists>c'. reader_step len0 c = Inr c' \<and> conc_inv fifo c'"
proof (cases "c_reader c")
  case RIdle
  let ?f = "c_fifo c"
  define l where "l = (if len0 > kf_in ?f - kf_out ?f then kf_in ?f - kf_out ?f else len0)"
  have "unat l \<le> unat (kf_in ?f - kf_out ?f)" by (auto simp: l_def word_less_nat_alt)
  then have "conc_inv fifo (c\<lparr>c_reader := RCopy l []\<rparr>)" using inv
    by (simp add: conc_inv_def)
  then show ?thesis using RIdle by (simp add: reader_step_def Let_def l_def)
next
  case (RCopy len bs)
  let ?f = "c_fifo c" and ?n = "length bs"
  have ok: "kfifo_ok ?f" using inv by (simp add: conc_inv_def)
  obtain d where d: "kf_data ?f = Some d" "length d = kf_cap ?f * kf_es ?f" "0 < length d" using ok by (auto elim: kfifo_okE)
  from inv RCopy have r: "bs = take ?n (contents ?f)" "?n \<le> unat len * kf_es ?f" "unat len \<le> unat (kf_in ?f - kf_out ?f)"
    by (simp_all add: conc_inv_def)
  have cap: "unat len \<le> kf_cap ?f" using r(3) kfifo_ok_used [OF ok] by simp
  have sz: "copy_size ?f len (kf_out ?f) = unat len * kf_es ?f" using cap by (rule copy_size_eq [OF ok])
  have "unat len * kf_es ?f \<le> length (contents ?f)" using r(3) length_contents [OF ok] by simp
  note lc = this
  show ?thesis
  proof (cases "?n < unat len * kf_es ?f")
    case True
    let ?i = "copy_index ?f len (kf_out ?f) ?n"
    have ix: "?i = (unat (kf_out ?f) * kf_es ?f + ?n) mod length d" unfolding d(2) by (rule copy_index_eq [OF ok cap True])
    then have il: "?i < length d" using d(3) by simp
    have nu: "?n < unat (kf_in ?f - kf_out ?f) * kf_es ?f" using True lc unfolding length_contents [OF ok] by linarith
    have "contents ?f ! ?n = cyc d (unat (kf_out ?f) * kf_es ?f + ?n)"
      using d(1) ring_get_nth [OF nu, of d "unat (kf_out ?f) * kf_es ?f"] by (simp add: contents_def)
    then have "d ! ?i = contents ?f ! ?n" by (simp add: ix cyc_def)
    then have "bs @ [d ! ?i] = take (Suc ?n) (contents ?f)"
      using take_Suc_conv_app_nth [of ?n "contents ?f"] True lc r(1) by simp
    moreover have "min (length (contents ?f)) (Suc ?n) = Suc ?n" using True lc by linarith
    ultimately have "conc_inv fifo (c\<lparr>c_reader := RCopy len (bs @ [d ! ?i])\<rparr>)" using inv r True
      by (simp add: conc_inv_def)
    moreover have "reader_step len0 c = Inr (c\<lparr>c_reader := RCopy len (bs @ [d ! ?i])\<rparr>)"
      using RCopy True sz il d(1) by (simp add: reader_step_def Let_def)
    ultimately show ?thesis by blast
  next
    case False
    then have n: "?n = unat len * kf_es ?f" using r(2) by simp
    note cd = contents_drop [OF ok r(3)]
    have "contents ?f = bs @ contents (?f\<lparr>kf_out := kf_out ?f + len\<rparr>)" using cd r(1) n by (metis append_take_drop_id)
    then have "conc_inv fifo (c\<lparr>c_fifo := ?f\<lparr>kf_out := kf_out ?f + len\<rparr>, c_reader := RIdle, c_got := c_got c @ bs\<rparr>)"
      using inv cd used_shrinks [OF r(3)] d(1) by (cases "c_writer c") (auto simp: conc_inv_def)
    then show ?thesis using RCopy False sz by (simp add: reader_step_def Let_def)
  qed
qed

lemma conc_reach_inv:
  assumes "conc_reach c c'" "conc_inv fifo c"
  shows "conc_inv fifo c'"
  using assms
proof (induction rule: conc_reach.induct)
  case (step c c' c'')
  from step.hyps(2) show ?case
  proof cases
    case (wr buf len)
    then show ?thesis using writer_step_ok [OF step.IH [OF step.prems], of len buf] by auto
  next
    case (re len)
    then show ?thesis using reader_step_ok [OF step.IH [OF step.prems], of len] by auto
  qed
qed

lemma conc_start_inv: "kfifo_ok fifo \<Longrightarrow> conc_inv fifo (conc_start fifo)"
  by (simp add: conc_inv_def conc_start_def)

section \<open>A call without interference\<close>

fun run_writer :: "nat \<Rightarrow> u8 list \<Rightarrow> u32 \<Rightarrow> conc \<Rightarrow> conc res" where
  "run_writer 0 buf len c = Inr c"
| "run_writer (Suc n) buf len c = rbind (run_writer n buf len c) (writer_step buf len)"

fun run_reader :: "nat \<Rightarrow> u32 \<Rightarrow> conc \<Rightarrow> conc res" where
  "run_reader 0 len c = Inr c"
| "run_reader (Suc n) len c = rbind (run_reader n len c) (reader_step len)"

lemma ring_put_longer:
  assumes "k < length buf" "k < length d"
  shows "ring_put (ring_put d a (take k buf)) a (take (Suc k) buf) = ring_put d a (take (Suc k) buf)"
proof (rule ring_put_eqI)
  fix i assume "i < length (ring_put d a (take k buf))"
  then show "cyc (ring_put d a (take (Suc k) buf)) (a + i) =
      (if i < length (take (Suc k) buf) then take (Suc k) buf ! i else cyc (ring_put d a (take k buf)) (a + i))"
    using assms by (auto simp: cyc_ring_put)
qed (use assms in auto)

text \<open>The steps of the writer alone are \<^verbatim>\<open>__kfifo_in\<close>, those of the reader alone \<^verbatim>\<open>__kfifo_out\<close>.\<close>

lemma writer_alone:
  assumes ok: "kfifo_ok (c_fifo c)" and idle: "c_writer c = WIdle" and buf: "unat len * kf_es (c_fifo c) \<le> length buf"
  shows "\<exists>m n fifo'. kfifo_in (c_fifo c) buf len = Inr (fifo', n) \<and>
    run_writer m buf len c = Inr (c\<lparr>c_fifo := fifo', c_sent := c_sent c @ take (unat n * kf_es (c_fifo c)) buf\<rparr>)"
proof -
  let ?f = "c_fifo c"
  let ?a = "unat (kf_in ?f) * kf_es ?f"
  define n where "n = (if len > kfifo_unused ?f then kfifo_unused ?f else len)"
  let ?N = "unat n * kf_es ?f"
  obtain d where d: "kf_data ?f = Some d" "length d = kf_cap ?f * kf_es ?f" "0 < length d" using ok by (auto elim: kfifo_okE)
  have fit: "unat (kf_in ?f - kf_out ?f) + unat n \<le> kf_cap ?f" unfolding n_def by (rule unused_fits [OF ok])
  then have cap: "unat n \<le> kf_cap ?f" by simp
  have "n \<le> len" by (auto simp: n_def)
  then have nb: "?N \<le> length buf" using buf by (meson le_trans mult_le_mono1 word_le_nat_alt)
  have nd: "?N \<le> length d" unfolding d(2) using cap by (rule mult_le_mono1)
  define g where "g k = ?f\<lparr>kf_data := Some (ring_put d ?a (take k buf))\<rparr>" for k
  have g: "kfifo_ok (g k)" "kf_data (g k) = Some (ring_put d ?a (take k buf))" "kf_in (g k) = kf_in ?f" "kf_out (g k) = kf_out ?f"
    "kf_cap (g k) = kf_cap ?f" "kf_es (g k) = kf_es ?f" for k
    using ok d(1,2) by (simp_all add: g_def kfifo_ok_def)
  have "run_writer (Suc k) buf len c = Inr (c\<lparr>c_fifo := g k, c_writer := WCopy buf n k\<rparr>)" if "k \<le> ?N" for k
    using that
  proof (induction k)
    case 0
    have "g 0 = ?f" using d(1) ring_put_same [of "[]" d ?a] by (cases ?f) (simp add: g_def ring_get_def)
    then show ?case using idle by (simp add: writer_step_def Let_def n_def)
  next
    case (Suc k)
    have k: "k < ?N" using Suc.prems by simp
    have kl: "length (take k buf) = k" using k nb by simp
    have old: "ring_get (ring_put d ?a (take k buf)) (unat (kf_in (g k)) * kf_es (g k)) k = take k buf"
      using ring_get_put [of "take k buf" d ?a] kl k nd unfolding g by simp
    note s = store_behind [OF g(1,2) old, of n]
    have ix: "copy_index (g k) n (kf_in (g k)) k = (?a + k) mod length d"
      using copy_index_eq [OF g(1), of n k k] cap k unfolding g d(2) by simp
    have "(ring_put d ?a (take k buf))[(?a + k) mod length d := buf ! k] = ring_put (ring_put d ?a (take k buf)) ?a (take (Suc k) buf)"
      using ring_put_byte [of k "ring_put d ?a (take k buf)" buf ?a] ring_get_put [of "take k buf" d ?a] kl k nb nd by simp
    also have "\<dots> = ring_put d ?a (take (Suc k) buf)" using k nb nd by (intro ring_put_longer) auto
    finally have upd: "(ring_put d ?a (take k buf))[(?a + k) mod length d := buf ! k] = ring_put d ?a (take (Suc k) buf)" .
    have sz: "copy_size (g k) n (kf_in (g k)) = ?N" using copy_size_eq [OF g(1), of n k] cap unfolding g by simp
    have "writer_step buf len (c\<lparr>c_fifo := g k, c_writer := WCopy buf n k\<rparr>) = Inr (c\<lparr>c_fifo := g (Suc k), c_writer := WCopy buf n (Suc k)\<rparr>)"
      using k nb sz ix upd d(3) g(2) by (simp add: writer_step_def Let_def) (simp add: g_def)
    then show ?case using Suc k by simp
  qed
  then have "run_writer (Suc ?N) buf len c = Inr (c\<lparr>c_fifo := g ?N, c_writer := WCopy buf n ?N\<rparr>)" by blast
  moreover have "copy_size (g ?N) n (kf_in (g ?N)) = ?N" using copy_size_eq [OF g(1), of n ?N] cap unfolding g by simp
  ultimately have "run_writer (Suc (Suc ?N)) buf len c =
      Inr (c\<lparr>c_fifo := (g ?N)\<lparr>kf_in := kf_in ?f + n\<rparr>, c_sent := c_sent c @ take ?N buf\<rparr>)"
    using idle by (cases c) (simp add: writer_step_def Let_def g)
  moreover have "kfifo_in ?f buf len = Inr ((g ?N)\<lparr>kf_in := kf_in ?f + n\<rparr>, n)"
    using kfifo_copy_in_eq [OF ok d(1) cap nb, of "kf_in ?f"] by (simp add: kfifo_in_def Let_def n_def [symmetric] g_def)
  ultimately show ?thesis by blast
qed

lemma reader_alone:
  assumes inv: "conc_inv fifo c" and idle: "c_reader c = RIdle" and buf: "unat len * kf_es (c_fifo c) \<le> length buf"
  shows "\<exists>m n bs fifo'. kfifo_out (c_fifo c) buf len = Inr (fifo', bs @ drop (unat n * kf_es (c_fifo c)) buf, n) \<and>
    length bs = unat n * kf_es (c_fifo c) \<and> run_reader m len c = Inr (c\<lparr>c_fifo := fifo', c_got := c_got c @ bs\<rparr>)"
proof -
  let ?f = "c_fifo c"
  have ok: "kfifo_ok ?f" using inv by (simp add: conc_inv_def)
  define n where "n = (if len > kf_in ?f - kf_out ?f then kf_in ?f - kf_out ?f else len)"
  let ?N = "unat n * kf_es ?f" and ?bs = "\<lambda>k. take k (contents ?f)"
  have n: "unat n \<le> unat (kf_in ?f - kf_out ?f)" "unat n = min (unat len) (unat (kfifo_len ?f))"
    by (auto simp: n_def word_less_nat_alt kfifo_len_def)
  have cap: "unat n \<le> kf_cap ?f" using n(1) kfifo_ok_used [OF ok] by simp
  have lc: "?N \<le> length (contents ?f)" unfolding length_contents [OF ok] using n(1) by (rule mult_le_mono1)
  have sz: "copy_size ?f n (kf_out ?f) = ?N" by (rule copy_size_eq [OF ok cap])
  have "run_reader (Suc k) len c = Inr (c\<lparr>c_reader := RCopy n (?bs k)\<rparr>)" if "k \<le> ?N" for k
    using that
  proof (induction k)
    case 0
    then show ?case using idle by (simp add: reader_step_def Let_def n_def)
  next
    case (Suc k)
    let ?c = "c\<lparr>c_reader := RCopy n (?bs k)\<rparr>"
    have k: "k < ?N" "length (?bs k) = k" using Suc.prems lc by auto
    have "conc_inv fifo ?c" using inv n(1) k by (simp add: conc_inv_def)
    from reader_step_ok [OF this, of len] obtain c' where c': "reader_step len ?c = Inr c'" "conc_inv fifo c'" by blast
    moreover from c'(1) obtain b where "c' = c\<lparr>c_reader := RCopy n (?bs k @ [b])\<rparr>"
      using sz k by (auto simp: reader_step_def Let_def rbind_Inr_iff)
    ultimately have "c' = c\<lparr>c_reader := RCopy n (?bs (Suc k))\<rparr>" using k(2) by (auto simp: conc_inv_def)
    then show ?case using Suc c'(1) by simp
  qed
  then have "run_reader (Suc ?N) len c = Inr (c\<lparr>c_reader := RCopy n (?bs ?N)\<rparr>)" by blast
  then have "run_reader (Suc (Suc ?N)) len c = Inr (c\<lparr>c_fifo := ?f\<lparr>kf_out := kf_out ?f + n\<rparr>, c_got := c_got c @ ?bs ?N\<rparr>)"
    using idle sz lc by (cases c) (simp add: reader_step_def Let_def)
  moreover have "kfifo_out ?f buf len = Inr (?f\<lparr>kf_out := kf_out ?f + n\<rparr>, ?bs ?N @ drop ?N buf, n)"
  proof -
    have "min (unat len) (unat (kfifo_len ?f)) * kf_es ?f \<le> length buf"
      using buf by (meson le_trans min.cobounded1 mult_le_mono1)
    from kfifo_out_peek_ok [OF ok this] obtain n' where n': "unat n' = unat n" "kfifo_out_peek ?f buf len = Inr (take (unat n' * kf_es ?f) (contents ?f) @ drop (unat n' * kf_es ?f) buf, n')"
      unfolding n(2) by blast
    then have "n' = n" by (simp add: word_unat_eq_iff)
    then show ?thesis using n'(2) by (simp add: kfifo_out_def)
  qed
  moreover have "length (?bs ?N) = ?N" using lc by simp
  ultimately show ?thesis by blast
qed

section \<open>The property\<close>

text \<open>
  C29: One reader and one writer need no lock, as \<^verbatim>\<open>kfifo.h\<close> promises. Start from a fifo in order with both threads between calls, let each make any
  calls of \<^verbatim>\<open>__kfifo_in\<close> and \<^verbatim>\<open>__kfifo_out\<close>, and interleave their accesses, down to the single byte of a copy, in any way. Then at every
  moment the fifo satisfies its invariant, neither thread's next access faults, the bytes the reader has taken so far in an unfinished call are the oldest
  ones, and the bytes delivered followed by the bytes inside are the bytes at the start followed by the bytes accepted: nothing is lost, repeated or
  reordered.\<close>

theorem kfifo_one_reader_one_writer:
  assumes "kfifo_ok fifo" "conc_reach (conc_start fifo) c"
  shows "kfifo_ok (c_fifo c) \<and> c_got c @ contents (c_fifo c) = contents fifo @ c_sent c \<and>
    (\<forall>len. \<exists>c'. reader_step len c = Inr c') \<and>
    (\<forall>buf len. unat len * kf_es fifo \<le> length buf \<longrightarrow> (\<exists>c'. writer_step buf len c = Inr c')) \<and>
    (\<forall>len bs. c_reader c = RCopy len bs \<longrightarrow> bs = take (length bs) (contents (c_fifo c)))"
proof -
  have inv: "conc_inv fifo c" using conc_reach_inv [OF assms(2)] conc_start_inv [OF assms(1)] by blast
  have "kf_es fifo = kf_es (c_fifo c)" using inv by (simp add: conc_inv_def)
  then have "\<forall>buf len. unat len * kf_es fifo \<le> length buf \<longrightarrow> (\<exists>c'. writer_step buf len c = Inr c')"
    using writer_step_ok [OF inv] by metis
  moreover have "\<forall>len. \<exists>c'. reader_step len c = Inr c'" using reader_step_ok [OF inv] by blast
  moreover have "reader_ok (c_fifo c) (c_reader c)" using inv by (simp add: conc_inv_def)
  then have "\<forall>len bs. c_reader c = RCopy len bs \<longrightarrow> bs = take (length bs) (contents (c_fifo c))" by (metis reader_ok.simps(2))
  ultimately show ?thesis using inv by (simp add: conc_inv_def)
qed

text \<open>A writer that has stored one of two bytes while a reader takes an element.\<close>

definition busy_conc :: conc where
  "busy_conc = (conc_start sample_fifo)
     \<lparr>c_fifo := sample_fifo\<lparr>kf_data := Some [5, 6, 7, 9, 1, 2, 3, 4]\<rparr>, c_writer := WCopy [7, 8] 1 1, c_reader := RCopy 1 [1]\<rparr>"

lemma busy_conc_reached: "conc_reach (conc_start sample_fifo) busy_conc"
proof -
  let ?w = "conc_start sample_fifo\<lparr>c_writer := WCopy [7, 8] 1 0\<rparr>"
  let ?r = "?w\<lparr>c_reader := RCopy 1 []\<rparr>"
  let ?x = "?r\<lparr>c_fifo := sample_fifo\<lparr>kf_data := Some [5, 6, 7, 9, 1, 2, 3, 4]\<rparr>, c_writer := WCopy [7, 8] 1 1\<rparr>"
  have es: "kf_es sample_fifo = 2" by (simp add: sample_fifo_def kf_es_def)
  have "writer_step [7, 8] 1 (conc_start sample_fifo) = Inr ?w" by code_simp
  moreover have "reader_step 1 ?w = Inr ?r" by code_simp
  moreover have "writer_step [7, 8] 1 ?r = Inr ?x" by code_simp
  moreover have "reader_step 1 ?x = Inr busy_conc" by code_simp
  moreover have "unat (1 :: u32) * kf_es (c_fifo (conc_start sample_fifo)) \<le> length ([7, 8] :: u8 list)"
    "unat (1 :: u32) * kf_es (c_fifo ?r) \<le> length ([7, 8] :: u8 list)" by (simp_all add: conc_start_def es)
  ultimately show ?thesis by (meson conc_reach.refl conc_reach.step conc_step.wr conc_step.re)
qed

theorem kfifo_one_reader_one_writer_witness:
  "kfifo_ok sample_fifo \<and> conc_reach (conc_start sample_fifo) busy_conc \<and>
   (\<exists>c'. reader_step 1 busy_conc = Inr c') \<and> (\<exists>c'. writer_step [7, 8] 1 busy_conc = Inr c') \<and> kfifo_ok (c_fifo busy_conc)"
proof -
  have "unat (1 :: u32) * kf_es sample_fifo \<le> length ([7, 8] :: u8 list)" by (simp add: sample_fifo_def kf_es_def)
  then show ?thesis using kfifo_one_reader_one_writer [OF sample_fifo_ok busy_conc_reached] sample_fifo_ok busy_conc_reached by blast
qed

end
