(* ===== verification/Bitmap_Map.thy ===== *)
theory Bitmap_Map
  imports Hweight
begin

text \<open>
  Single bits and maps between bit positions: \<^verbatim>\<open>asm-generic/bitops/non-atomic.h\<close> and the routines of \<^verbatim>\<open>lib/bitmap.c\<close> that relate the
  positions of one bitmap to the ordinals of another. The conventions are those of the theory of bitmaps. Where the code compares its
  pointers \<^verbatim>\<open>dst == src\<close>, the result of the comparison is an argument.
\<close>

section \<open>Single bits\<close>

definition BIT_WORD :: "nat \<Rightarrow> nat" where "BIT_WORD nr = nr div 32"
definition BIT_MASK :: "nat \<Rightarrow> u32" where "BIT_MASK nr = push_bit (nr mod 32) 1"

definition set_bit_at :: "nat \<Rightarrow> u32 list \<Rightarrow> u32 list res" where
  "set_bit_at nr addr = rbind (arr_get addr (BIT_WORD nr)) (\<lambda>w. arr_set addr (BIT_WORD nr) (w OR BIT_MASK nr))"

definition clear_bit_at :: "nat \<Rightarrow> u32 list \<Rightarrow> u32 list res" where
  "clear_bit_at nr addr = rbind (arr_get addr (BIT_WORD nr)) (\<lambda>w. arr_set addr (BIT_WORD nr) (w AND NOT (BIT_MASK nr)))"

definition change_bit_at :: "nat \<Rightarrow> u32 list \<Rightarrow> u32 list res" where
  "change_bit_at nr addr = rbind (arr_get addr (BIT_WORD nr)) (\<lambda>w. arr_set addr (BIT_WORD nr) (w XOR BIT_MASK nr))"

definition test_and_set_bit :: "nat \<Rightarrow> u32 list \<Rightarrow> (u32 list \<times> bool) res" where
  "test_and_set_bit nr addr =
     rbind (arr_get addr (BIT_WORD nr)) (\<lambda>old.
     rbind (arr_set addr (BIT_WORD nr) (old OR BIT_MASK nr)) (\<lambda>addr. Inr (addr, old AND BIT_MASK nr \<noteq> 0)))"

definition test_and_clear_bit :: "nat \<Rightarrow> u32 list \<Rightarrow> (u32 list \<times> bool) res" where
  "test_and_clear_bit nr addr =
     rbind (arr_get addr (BIT_WORD nr)) (\<lambda>old.
     rbind (arr_set addr (BIT_WORD nr) (old AND NOT (BIT_MASK nr))) (\<lambda>addr. Inr (addr, old AND BIT_MASK nr \<noteq> 0)))"

definition test_and_change_bit :: "nat \<Rightarrow> u32 list \<Rightarrow> (u32 list \<times> bool) res" where
  "test_and_change_bit nr addr =
     rbind (arr_get addr (BIT_WORD nr)) (\<lambda>old.
     rbind (arr_set addr (BIT_WORD nr) (old XOR BIT_MASK nr)) (\<lambda>addr. Inr (addr, old AND BIT_MASK nr \<noteq> 0)))"

definition test_bit_at :: "nat \<Rightarrow> u32 list \<Rightarrow> bool res" where
  "test_bit_at nr addr = rbind (arr_get addr (BIT_WORD nr)) (\<lambda>w. Inr (1 AND drop_bit (nr mod 32) w \<noteq> 0))"

definition bitmap_zero :: "u32 list \<Rightarrow> nat \<Rightarrow> u32 list res" where
  "bitmap_zero dst nbits = for_words (\<lambda>k. Inr 0) 0 (BITS_TO_LONGS nbits) dst"

section \<open>Positions and ordinals\<close>

text \<open>\<^verbatim>\<open>for_each_set_bit\<close> from position \<open>pos\<close> on; the body maps the state \<open>a\<close>.\<close>

function for_set_bits :: "(nat \<Rightarrow> 'a \<Rightarrow> 'a res) \<Rightarrow> u32 list \<Rightarrow> nat \<Rightarrow> nat \<Rightarrow> 'a \<Rightarrow> 'a res" where
  "for_set_bits f addr sz pos a =
     (if pos < sz then
        rbind (f pos a) (\<lambda>a. rbind (find_next_bit addr sz (pos + 1)) (\<lambda>pos. for_set_bits f addr sz pos a))
      else Inr a)"
  by pat_completeness auto
termination
proof (relation "measure (\<lambda>(f, addr, sz, pos, a). sz - pos)", goal_cases)
  case (2 f addr sz pos a x p)
  then show ?case using find_next_range [of addr sz "pos + 1" 0 p] by (auto simp: find_next_bit_def)
qed simp

declare for_set_bits.simps [simp del]

definition for_each_set_bit :: "(nat \<Rightarrow> 'a \<Rightarrow> 'a res) \<Rightarrow> u32 list \<Rightarrow> nat \<Rightarrow> 'a \<Rightarrow> 'a res" where
  "for_each_set_bit f addr sz a = rbind (find_first_bit addr sz) (\<lambda>pos. for_set_bits f addr sz pos a)"

definition bitmap_pos_to_ord :: "u32 list \<Rightarrow> nat \<Rightarrow> nat \<Rightarrow> int res" where
  "bitmap_pos_to_ord buf pos nbits =
     (if pos \<ge> nbits then Inr (- 1)
      else rbind (test_bit_at pos buf) (\<lambda>b.
           if \<not> b then Inr (- 1) else rbind (bitmap_weight buf pos) (\<lambda>w. Inr (sint w))))"

fun ord_loop :: "u32 list \<Rightarrow> nat \<Rightarrow> nat \<Rightarrow> nat \<Rightarrow> nat res" where
  "ord_loop buf nbits pos 0 = Inr pos"
| "ord_loop buf nbits pos (Suc ord) =
     (if pos < nbits then rbind (find_next_bit buf nbits (pos + 1)) (\<lambda>pos. ord_loop buf nbits pos ord) else Inr pos)"

definition bitmap_ord_to_pos :: "u32 list \<Rightarrow> nat \<Rightarrow> nat \<Rightarrow> nat res" where
  "bitmap_ord_to_pos buf ord nbits = rbind (find_first_bit buf nbits) (\<lambda>pos. ord_loop buf nbits pos ord)"

text \<open>The position \<open>oldbit\<close> is mapped to.\<close>

definition remap_bit :: "nat \<Rightarrow> u32 list \<Rightarrow> u32 list \<Rightarrow> nat \<Rightarrow> u32 \<Rightarrow> nat res" where
  "remap_bit oldbit old new nbits w =
     rbind (bitmap_pos_to_ord old oldbit nbits) (\<lambda>n.
     if n < 0 \<or> w = 0 then Inr oldbit else bitmap_ord_to_pos new (nat n mod unat w) nbits)"

definition bitmap_remap :: "bool \<Rightarrow> u32 list \<Rightarrow> u32 list \<Rightarrow> u32 list \<Rightarrow> u32 list \<Rightarrow> nat \<Rightarrow> u32 list res" where
  "bitmap_remap same dst src old new nbits =
     (if same then Inr dst
      else rbind (bitmap_zero dst nbits) (\<lambda>dst.
           rbind (bitmap_weight new nbits) (\<lambda>w.
           for_each_set_bit (\<lambda>oldbit dst. rbind (remap_bit oldbit old new nbits w) (\<lambda>b. set_bit_at b dst)) src nbits dst)))"

definition bitmap_bitremap :: "nat \<Rightarrow> u32 list \<Rightarrow> u32 list \<Rightarrow> nat \<Rightarrow> nat res" where
  "bitmap_bitremap oldbit old new bits =
     rbind (bitmap_weight new bits) (\<lambda>w. remap_bit oldbit old new bits w)"

definition bitmap_onto :: "bool \<Rightarrow> u32 list \<Rightarrow> u32 list \<Rightarrow> u32 list \<Rightarrow> nat \<Rightarrow> u32 list res" where
  "bitmap_onto same dst orig relmap bits =
     (if same then Inr dst
      else rbind (bitmap_zero dst bits) (\<lambda>dst.
           rbind (for_each_set_bit (\<lambda>n (m, dst).
             rbind (test_bit_at m orig) (\<lambda>b.
             rbind (if b then set_bit_at n dst else Inr dst) (\<lambda>dst. Inr (m + 1, dst)))) relmap bits (0, dst)) (\<lambda>(m, dst).
           Inr dst)))"

definition bitmap_fold :: "bool \<Rightarrow> u32 list \<Rightarrow> u32 list \<Rightarrow> nat \<Rightarrow> nat \<Rightarrow> u32 list res" where
  "bitmap_fold same dst orig sz nbits =
     (if same then Inr dst
      else rbind (bitmap_zero dst nbits) (\<lambda>dst.
           for_each_set_bit (\<lambda>oldbit dst. if sz = 0 then Inl DivByZero else set_bit_at (oldbit mod sz) dst) orig nbits dst))"

section \<open>Lemmas on single bits\<close>

lemma bit_mask_bit [bits_simps]: "bit (BIT_MASK nr) j \<longleftrightarrow> j = nr mod 32"
  by (auto simp: BIT_MASK_def push_bit_eq_mult bit_exp_iff)

lemma bm_update:
  assumes "i < 32 * length m" "\<And>r. r < 32 \<Longrightarrow> bit w r \<longleftrightarrow> (if r = i mod 32 then b else bit (m ! (i div 32)) r)"
  shows "bm (m[i div 32 := w]) j \<longleftrightarrow> (if j = i then b else bm m j)"
proof (cases "j div 32 = i div 32")
  case True
  then have "j = i \<longleftrightarrow> j mod 32 = i mod 32" by (metis div_mult_mod_eq)
  moreover have "i div 32 < length m" using assms(1) by linarith
  ultimately show ?thesis using True assms(2) [of "j mod 32"] by (simp add: bm_def)
next
  case False
  then show ?thesis by (auto simp: bm_def)
qed

definition setb :: "nat \<Rightarrow> u32 list \<Rightarrow> u32 list" where
  "setb i m = m[i div 32 := m ! (i div 32) OR BIT_MASK i]"

lemma length_setb [simp]: "length (setb i m) = length m"
  by (simp add: setb_def)

lemma bm_setb: "i < 32 * length m \<Longrightarrow> bm (setb i m) j \<longleftrightarrow> j = i \<or> bm m j"
  using bm_update [of i m "m ! (i div 32) OR BIT_MASK i" True j] by (auto simp: setb_def bit_or_iff bit_mask_bit)

lemma set_bit_at_ok: "i < 32 * length m \<Longrightarrow> set_bit_at i m = Inr (setb i m)"
  by (simp add: set_bit_at_def setb_def BIT_WORD_def)

lemma and_mask_bit: "w AND BIT_MASK nr \<noteq> 0 \<longleftrightarrow> bit w (nr mod 32)"
  by (auto simp: word_zero_bits bit_and_iff bit_mask_bit)

lemma test_bit_at_ok: "i < 32 * length m \<Longrightarrow> test_bit_at i m = Inr (bm m i)"
proof -
  assume "i < 32 * length m"
  moreover have "1 AND drop_bit k w \<noteq> 0 \<longleftrightarrow> bit w k" for k and w :: u32
    by (simp add: and.commute [of 1] and_one_eq bit_iff_odd_drop_bit odd_iff_mod_2_eq_one)
  ultimately show ?thesis by (simp add: test_bit_at_def BIT_WORD_def bm_def)
qed

lemma bitmap_zero_ok:
  assumes "n \<le> 32 * length dst"
  shows "\<exists>d. bitmap_zero dst n = Inr d \<and> bset n d = {} \<and> kept n dst d"
proof -
  let ?d = "over (\<lambda>j. 0) 0 (BITS_TO_LONGS n) dst"
  have "bitmap_zero dst n = Inr ?d"
    unfolding bitmap_zero_def using BITS_TO_LONGS_le [OF assms] by (intro for_words_spec) auto
  moreover have "bset n ?d = {}" using over_spec [OF assms, of "\<lambda>j. 0"] by (auto simp: bset_def)
  ultimately show ?thesis using over_spec [OF assms, of "\<lambda>j. 0"] by blast
qed

section \<open>The set positions in order\<close>

definition positions :: "nat \<Rightarrow> u32 list \<Rightarrow> nat list" where
  "positions n m = filter (bm m) [0..<n]"

lemma set_positions [simp]: "set (positions n m) = bset n m"
  by (auto simp: positions_def)

lemma length_positions: "length (positions n m) = card (bset n m)"
  by (metis distinct_card distinct_filter distinct_upt positions_def set_positions)

lemma filter_next:
  assumes "first_pos (\<lambda>i. s \<le> i \<and> Q i) n r" "s \<le> n"
  shows "filter Q [s..<n] = (if r < n then r # filter Q [Suc r..<n] else [])"
proof -
  have sr: "s \<le> r" using assms by (cases "r < n") (auto simp: first_pos_def)
  have rn: "r \<le> n" using assms(1) by (simp add: first_pos_def)
  have "[s..<n] = [s..<r] @ [r..<n]" using upt_add_eq_append [OF sr, of "n - r"] rn by simp
  moreover have "filter Q [s..<r] = []" using assms(1) by (auto simp: first_pos_def filter_empty_conv)
  moreover have "[r..<n] = (if r < n then r # [Suc r..<n] else [])" by (simp add: upt_conv_Cons)
  ultimately show ?thesis using assms(1) by (auto simp: first_pos_def)
qed

lemma first_filter:
  assumes "first_pos (\<lambda>i. s \<le> i \<and> Q i) n r" "s \<le> n"
  shows "filter Q [s..<n] = filter Q [r..<n]"
proof (cases "r < n")
  case True
  then have "Q r" using assms(1) by (simp add: first_pos_def)
  then show ?thesis using True filter_next [OF assms] by (simp add: upt_conv_Cons)
next
  case False
  then show ?thesis using filter_next [OF assms] by simp
qed

text \<open>The loop over the set bits is a fold over the positions, as long as the body does not fault on them.\<close>

lemma for_set_bits_fold:
  assumes "sz \<le> 32 * length addr"
    and body: "\<And>i a. P i a \<Longrightarrow> i < sz \<Longrightarrow> bm addr i \<Longrightarrow> f i a = Inr (g i a) \<and> (\<forall>j>i. P j (g i a))"
  shows "pos \<le> sz \<Longrightarrow> (pos < sz \<Longrightarrow> bm addr pos) \<Longrightarrow> (\<And>j. pos \<le> j \<Longrightarrow> P j a) \<Longrightarrow>
    for_set_bits f addr sz pos a = Inr (fold g (filter (bm addr) [pos..<sz]) a) \<and> P sz (fold g (filter (bm addr) [pos..<sz]) a)"
proof (induction "sz - pos" arbitrary: pos a rule: less_induct)
  case less
  show ?case
  proof (cases "pos < sz")
    case False
    then show ?thesis using less.prems by (subst for_set_bits.simps) simp
  next
    case True
    have b: "f pos a = Inr (g pos a)" "\<And>j. pos < j \<Longrightarrow> P j (g pos a)" using body less.prems True by auto
    obtain r where r: "find_next_bit addr sz (pos + 1) = Inr r" "first_pos (\<lambda>i. pos + 1 \<le> i \<and> bm addr i) sz r"
      using find_next_bit_spec [OF assms(1)] by blast
    have "pos < r" using r(2) True by (cases "r < sz") (auto simp: first_pos_def)
    then have ih: "for_set_bits f addr sz r (g pos a) = Inr (fold g (filter (bm addr) [r..<sz]) (g pos a)) \<and>
        P sz (fold g (filter (bm addr) [r..<sz]) (g pos a))"
      using r(2) b(2) True by (intro less.hyps) (auto simp: first_pos_def)
    have "filter (bm addr) [pos..<sz] = pos # filter (bm addr) [r..<sz]"
      using True less.prems(2) first_filter [OF r(2)] by (simp add: upt_conv_Cons)
    then show ?thesis using ih True b(1) r(1) by (subst for_set_bits.simps) simp
  qed
qed

lemma for_each_set_bit_fold:
  assumes "sz \<le> 32 * length addr" "\<And>j. P j a"
    and "\<And>i a. P i a \<Longrightarrow> i < sz \<Longrightarrow> bm addr i \<Longrightarrow> f i a = Inr (g i a) \<and> (\<forall>j>i. P j (g i a))"
  shows "for_each_set_bit f addr sz a = Inr (fold g (positions sz addr) a) \<and> P sz (fold g (positions sz addr) a)"
proof -
  obtain r where r: "find_first_bit addr sz = Inr r" "first_pos (bm addr) sz r" using find_first_bit_spec [OF assms(1)] by blast
  then have "first_pos (\<lambda>i. 0 \<le> i \<and> bm addr i) sz r" by simp
  from first_filter [OF this] have e: "filter (bm addr) [0..<sz] = filter (bm addr) [r..<sz]" by simp
  have "r \<le> sz" "r < sz \<Longrightarrow> bm addr r" using r(2) by (simp_all add: first_pos_def)
  from for_set_bits_fold [where P = P and g = g, OF assms(1) _ this] assms(2,3) r(1) show ?thesis
    by (simp add: for_each_set_bit_def positions_def e)
qed

lemma ord_loop_spec:
  assumes "n \<le> 32 * length m" "pos < n \<Longrightarrow> bm m pos" "pos \<le> n"
  shows "ord_loop m n pos k = Inr (if k < length (filter (bm m) [pos..<n]) then filter (bm m) [pos..<n] ! k else n)"
  using assms(2,3)
proof (induction k arbitrary: pos)
  case 0
  then show ?case by (cases "pos < n") (auto simp: upt_conv_Cons)
next
  case (Suc k)
  show ?case
  proof (cases "pos < n")
    case True
    obtain r where r: "find_next_bit m n (pos + 1) = Inr r" "first_pos (\<lambda>i. pos + 1 \<le> i \<and> bm m i) n r"
      using find_next_bit_spec [OF assms(1)] by blast
    have "filter (bm m) [pos..<n] = pos # filter (bm m) [r..<n]"
      using True Suc.prems(1) first_filter [OF r(2)] by (simp add: upt_conv_Cons)
    moreover have "ord_loop m n r k = Inr (if k < length (filter (bm m) [r..<n]) then filter (bm m) [r..<n] ! k else n)"
      using r(2) by (intro Suc.IH) (auto simp: first_pos_def)
    ultimately show ?thesis using True r(1) by simp
  qed (use Suc.prems in simp)
qed

lemma ord_to_pos_spec:
  assumes "n \<le> 32 * length m"
  shows "bitmap_ord_to_pos m k n = Inr (if k < card (bset n m) then positions n m ! k else n)"
proof -
  obtain r where r: "find_first_bit m n = Inr r" "first_pos (bm m) n r" using find_first_bit_spec [OF assms] by blast
  then have "first_pos (\<lambda>i. 0 \<le> i \<and> bm m i) n r" by simp
  from first_filter [OF this] have e: "filter (bm m) [r..<n] = positions n m" by (simp add: positions_def)
  have "ord_loop m n r k = Inr (if k < length (filter (bm m) [r..<n]) then filter (bm m) [r..<n] ! k else n)"
    using r(2) by (intro ord_loop_spec [OF assms]) (auto simp: first_pos_def)
  then show ?thesis using r(1) unfolding e length_positions by (simp add: bitmap_ord_to_pos_def)
qed

text \<open>The number of set bits below the one with ordinal \<open>k\<close> is \<open>k\<close>.\<close>

lemma ordinal_of:
  assumes "k < card (bset n m)"
  shows "card (bset (positions n m ! k) m) = k"
proof -
  have l: "k < length (positions n m)" using assms by (simp add: length_positions)
  have s: "sorted_wrt (<) (positions n m)" by (simp add: positions_def sorted_wrt_filter strict_sorted_iff)
  have pn: "positions n m ! k < n" using nth_mem [OF l] by simp
  have "bset (positions n m ! k) m = set (take k (positions n m))"
  proof (rule set_eqI)
    fix i
    show "i \<in> bset (positions n m ! k) m \<longleftrightarrow> i \<in> set (take k (positions n m))"
    proof
      assume i: "i \<in> bset (positions n m ! k) m"
      then have "i \<in> set (positions n m)" using pn by simp
      then obtain j where j: "j < length (positions n m)" "i = positions n m ! j" by (metis in_set_conv_nth)
      have "\<not> k \<le> j"
      proof
        assume "k \<le> j"
        then have "positions n m ! k \<le> positions n m ! j" using s j(1) by (metis le_neq_implies_less less_imp_le order_refl sorted_wrt_iff_nth_less)
        then show False using i j(2) by simp
      qed
      then show "i \<in> set (take k (positions n m))" using j by (auto simp: in_set_conv_nth intro!: exI [of _ j])
    next
      assume "i \<in> set (take k (positions n m))"
      then obtain j where j: "j < k" "j < length (positions n m)" "i = positions n m ! j" by (auto simp: in_set_conv_nth)
      then have "i < positions n m ! k" using s l by (simp add: sorted_wrt_iff_nth_less)
      moreover have "bm m i" using nth_mem [OF j(2)] j(3) by simp
      ultimately show "i \<in> bset (positions n m ! k) m" by simp
    qed
  qed
  moreover have "distinct (take k (positions n m))" by (simp add: positions_def)
  ultimately show ?thesis using l by (simp add: distinct_card)
qed

section \<open>Maps between positions\<close>

lemma card_bset_le: "card (bset n m) \<le> n"
  using card_mono [of "{..<n}" "bset n m"] by (auto simp: bset_def)

lemma pos_to_ord_spec:
  assumes "n \<le> 32 * length m" "n \<le> 2 ^ 31"
  shows "bitmap_pos_to_ord m pos n = Inr (if pos \<in> bset n m then int (card (bset pos m)) else - 1)"
proof (cases "pos < n")
  case True
  have "card (bset pos m) < 2 ^ 31" using card_bset_le [of pos m] True assms(2) by linarith
  then have "sint (of_nat (card (bset pos m)) :: s32) = int (card (bset pos m))"
    by (simp add: signed_of_nat signed_take_bit_int_eq_self)
  then show ?thesis using True assms(1) by (simp add: bitmap_pos_to_ord_def test_bit_at_ok bitmap_weight_spec)
qed (simp add: bitmap_pos_to_ord_def)

definition remapped :: "nat \<Rightarrow> u32 list \<Rightarrow> u32 list \<Rightarrow> nat \<Rightarrow> nat" where
  "remapped n old new i =
     (if i \<in> bset n old \<and> bset n new \<noteq> {} then positions n new ! (card (bset i old) mod card (bset n new)) else i)"

lemma remapped_less: "i < n \<Longrightarrow> remapped n old new i < n"
proof -
  assume i: "i < n"
  have "positions n new ! (k mod card (bset n new)) < n" if "bset n new \<noteq> {}" for k
  proof -
    have "0 < card (bset n new)" using that by (simp add: card_gt_0_iff bset_def)
    then have "k mod card (bset n new) < length (positions n new)" by (simp add: length_positions)
    from nth_mem [OF this] show ?thesis by simp
  qed
  then show ?thesis using i by (simp add: remapped_def)
qed

lemma remap_bit_spec:
  assumes "n \<le> 32 * length old" "n \<le> 32 * length new" "n \<le> 2 ^ 31"
  shows "remap_bit i old new n (of_nat (card (bset n new))) = Inr (remapped n old new i)"
proof -
  let ?c = "card (bset n new)"
  have "?c \<le> 2 ^ 31" using card_bset_le [of n new] assms(3) by linarith
  then have u: "unat (of_nat ?c :: u32) = ?c" by (intro unat_of_nat_small) simp
  have z: "(of_nat ?c :: u32) = 0 \<longleftrightarrow> ?c = 0" using u unat_0_iff [of "of_nat ?c :: u32"] by simp
  have c: "?c = 0 \<longleftrightarrow> bset n new = {}" by (simp add: bset_def)
  show ?thesis
  proof (cases "i \<in> bset n old \<and> bset n new \<noteq> {}")
    case True
    then have "card (bset i old) mod ?c < ?c" using c by simp
    then show ?thesis using True z c u
      by (simp add: remap_bit_def pos_to_ord_spec [OF assms(1,3)] ord_to_pos_spec [OF assms(2)] remapped_def)
  next
    case False
    then show ?thesis using z c by (auto simp: remap_bit_def pos_to_ord_spec [OF assms(1,3)] remapped_def)
  qed
qed

lemma kept_setb: "kept n dst d \<Longrightarrow> i < n \<Longrightarrow> kept n dst (setb i d)"
  using BITS_TO_LONGS_gt [of i n] by (auto simp: kept_def setb_def nth_list_update)

lemma bset_fold_setb:
  "(\<And>i. i \<in> set ps \<Longrightarrow> h i < n) \<Longrightarrow> n \<le> 32 * length d \<Longrightarrow> bset n (fold (\<lambda>i. setb (h i)) ps d) = bset n d \<union> h ` set ps"
proof (induction ps arbitrary: d)
  case (Cons i ps)
  have "h i < 32 * length d" using Cons.prems(1) [of i] Cons.prems(2) by simp
  then have "bset n (setb (h i) d) = insert (h i) (bset n d)" using Cons.prems(1) [of i] by (auto simp: bset_def bm_setb)
  moreover have "bset n (fold (\<lambda>i. setb (h i)) ps (setb (h i) d)) = bset n (setb (h i) d) \<union> h ` set ps"
    using Cons.prems by (intro Cons.IH) auto
  ultimately show ?case by simp
qed simp

text \<open>A loop that sets a bit of the destination for each bit of the source.\<close>

lemma mark_loop:
  assumes "n \<le> 32 * length dst" "n \<le> 32 * length src" "bset n dst = {}" "\<And>i. i \<in> bset n src \<Longrightarrow> h i < n"
    and "\<And>i d. i \<in> bset n src \<Longrightarrow> length d = length dst \<Longrightarrow> f i d = Inr (setb (h i) d)"
  shows "\<exists>d. for_each_set_bit f src n dst = Inr d \<and> bset n d = h ` bset n src \<and> kept n dst d"
proof -
  have "for_each_set_bit f src n dst = Inr (fold (\<lambda>i. setb (h i)) (positions n src) dst) \<and> kept n dst (fold (\<lambda>i. setb (h i)) (positions n src) dst)"
    using assms(4,5) by (intro for_each_set_bit_fold [OF assms(2), where P = "\<lambda>j d. kept n dst d"]) (auto simp: kept_setb, auto simp: kept_def)
  moreover have "bset n (fold (\<lambda>i. setb (h i)) (positions n src) dst) = bset n dst \<union> h ` set (positions n src)"
    using assms(1,4) by (intro bset_fold_setb) auto
  ultimately show ?thesis using assms(3) by auto
qed

lemma kept_trans: "kept n a b \<Longrightarrow> kept n b c \<Longrightarrow> kept n a c"
  by (simp add: kept_def)

lemma remap_spec:
  assumes "n \<le> 32 * length dst" "n \<le> 32 * length src" "n \<le> 32 * length old" "n \<le> 32 * length new" "n \<le> 2 ^ 31"
  shows "\<exists>d. bitmap_remap False dst src old new n = Inr d \<and> bset n d = remapped n old new ` bset n src \<and> kept n dst d"
proof -
  obtain z where z: "bitmap_zero dst n = Inr z" "bset n z = {}" "kept n dst z" using bitmap_zero_ok [OF assms(1)] by blast
  then have l: "length z = length dst" by (simp add: kept_def)
  let ?f = "\<lambda>oldbit dst. rbind (remap_bit oldbit old new n (of_nat (card (bset n new)))) (\<lambda>b. set_bit_at b dst)"
  have "\<exists>d. for_each_set_bit ?f src n z = Inr d \<and> bset n d = remapped n old new ` bset n src \<and> kept n z d"
    using assms z l by (intro mark_loop) (auto simp: remap_bit_spec remapped_less intro!: set_bit_at_ok dest: remapped_less [of _ n old new])
  then show ?thesis using z kept_trans by (auto simp: bitmap_remap_def bitmap_weight_spec [OF assms(4)])
qed

lemma fold_spec:
  assumes "n \<le> 32 * length dst" "n \<le> 32 * length orig" "0 < sz"
  shows "\<exists>d. bitmap_fold False dst orig sz n = Inr d \<and> bset n d = (\<lambda>i. i mod sz) ` bset n orig \<and> kept n dst d"
proof -
  obtain z where z: "bitmap_zero dst n = Inr z" "bset n z = {}" "kept n dst z" using bitmap_zero_ok [OF assms(1)] by blast
  then have l: "length z = length dst" by (simp add: kept_def)
  let ?f = "\<lambda>oldbit dst. if sz = 0 then Inl DivByZero else set_bit_at (oldbit mod sz) dst"
  have m: "i mod sz < n" if "i < n" for i using that by (meson le_less_trans mod_less_eq_dividend)
  have "\<exists>d. for_each_set_bit ?f orig n z = Inr d \<and> bset n d = (\<lambda>i. i mod sz) ` bset n orig \<and> kept n z d"
    using assms z l m by (intro mark_loop) (auto intro!: set_bit_at_ok dest: m)
  then show ?thesis using z kept_trans by (auto simp: bitmap_fold_def)
qed

lemma bset_fold_onto:
  "(\<And>i. i \<in> set ps \<Longrightarrow> i < n) \<Longrightarrow> n \<le> 32 * length d \<Longrightarrow>
   bset n (snd (fold (\<lambda>i (k, d). (k + 1, if bm orig k then setb i d else d)) ps (k, d))) =
     bset n d \<union> {ps ! j | j. j < length ps \<and> bm orig (k + j)}"
proof (induction ps arbitrary: k d)
  case (Cons i ps)
  let ?d = "if bm orig k then setb i d else d"
  have "i < 32 * length d" using Cons.prems(1) [of i] Cons.prems(2) by simp
  then have "bset n ?d = bset n d \<union> (if bm orig k then {i} else {})" using Cons.prems(1) [of i] by (auto simp: bset_def bm_setb)
  moreover have "{(i # ps) ! j | j. j < length (i # ps) \<and> bm orig (k + j)} =
      (if bm orig k then {i} else {}) \<union> {ps ! j | j. j < length ps \<and> bm orig (k + 1 + j)}"
  proof (rule set_eqI)
    fix x
    have "(\<exists>j. j < Suc (length ps) \<and> x = (i # ps) ! j \<and> bm orig (k + j)) \<longleftrightarrow>
        (x = i \<and> bm orig k) \<or> (\<exists>j. j < length ps \<and> x = ps ! j \<and> bm orig (k + Suc j))"
      by (simp add: Ex_less_Suc2)
    then show "x \<in> {(i # ps) ! j | j. j < length (i # ps) \<and> bm orig (k + j)} \<longleftrightarrow>
        x \<in> (if bm orig k then {i} else {}) \<union> {ps ! j | j. j < length ps \<and> bm orig (k + 1 + j)}" by auto
  qed
  moreover have "bset n (snd (fold (\<lambda>i (k, d). (k + 1, if bm orig k then setb i d else d)) ps (k + 1, ?d))) =
      bset n ?d \<union> {ps ! j | j. j < length ps \<and> bm orig (k + 1 + j)}"
    using Cons.prems by (intro Cons.IH) auto
  ultimately show ?case by (simp add: Un_assoc)
qed simp

lemma onto_spec:
  assumes "n \<le> 32 * length dst" "n \<le> 32 * length orig" "n \<le> 32 * length relmap"
  shows "\<exists>d. bitmap_onto False dst orig relmap n = Inr d \<and> kept n dst d \<and>
    bset n d = {positions n relmap ! m | m. m < card (bset n relmap) \<and> m \<in> bset n orig}"
proof -
  obtain z where z: "bitmap_zero dst n = Inr z" "bset n z = {}" "kept n dst z" using bitmap_zero_ok [OF assms(1)] by blast
  then have l: "length z = length dst" by (simp add: kept_def)
  let ?g = "\<lambda>i (k, d). (k + 1, if bm orig k then setb i d else d)"
  let ?f = "\<lambda>i (k, d). rbind (test_bit_at k orig) (\<lambda>b. rbind (if b then set_bit_at i d else Inr d) (\<lambda>d. Inr (k + 1, d)))"
  let ?r = "fold ?g (positions n relmap) (0, z)"
  have "for_each_set_bit ?f relmap n (0, z) = Inr ?r \<and> (case ?r of (k, d) \<Rightarrow> k \<le> n \<and> kept n dst d)"
  proof (rule for_each_set_bit_fold [OF assms(3), where P = "\<lambda>j (k, d). k \<le> j \<and> kept n dst d"])
    fix i a assume a: "case a of (k, d) \<Rightarrow> k \<le> i \<and> kept n dst d" and i: "i < n" "bm relmap i"
    obtain k d where kd: "a = (k, d)" by (cases a)
    have "length d = length dst" "k < 32 * length orig" "i < 32 * length dst" using a kd i assms by (auto simp: kept_def)
    then show "?f i a = Inr (?g i a) \<and> (\<forall>j>i. case ?g i a of (k, d) \<Rightarrow> k \<le> j \<and> kept n dst d)"
      using a kd i(1) by (auto simp: test_bit_at_ok set_bit_at_ok kept_setb)
  qed (use z in simp)
  moreover have "bset n (snd ?r) = bset n z \<union> {positions n relmap ! j | j. j < length (positions n relmap) \<and> bm orig (0 + j)}"
    using assms(1) l by (intro bset_fold_onto) auto
  moreover have "m < n" if "m < card (bset n relmap)" for m using that card_bset_le [of n relmap] by simp
  ultimately show ?thesis using z by (cases ?r) (auto simp: bitmap_onto_def length_positions)
qed

section \<open>Property\<close>

text \<open>
  C0: Maps between bitmaps, for bitmaps of \<open>n\<close> bits. \<^verbatim>\<open>bitmap_ord_to_pos\<close> finds the position of the set bit with a given ordinal and \<^verbatim>\<open>bitmap_pos_to_ord\<close>
  inverts it. \<^verbatim>\<open>bitmap_remap\<close> leaves exactly the images of the set bits of its source, and \<^verbatim>\<open>bitmap_bitremap\<close> gives the image of one bit: a set bit of \<open>old\<close>
  goes to the set bit of \<open>new\<close> with the same ordinal, modulo the number of those, and every other bit to itself. \<^verbatim>\<open>bitmap_onto\<close> sets the
  position of the \<open>m\<close>-th set bit of the relative map exactly when bit \<open>m\<close> of the original is set, and \<^verbatim>\<open>bitmap_fold\<close> reduces positions
  modulo a size. Folding to the number of set bits of the relative map and then mapping onto it yields an empty bitmap only if one of the two was
  empty. No other word of a destination changes.\<close>

theorem bitmap_maps:
  assumes "n \<le> 32 * length dst" "n \<le> 32 * length tmp" "n \<le> 32 * length src" "n \<le> 32 * length old" "n \<le> 32 * length new" "n \<le> 2 ^ 31"
  shows "(\<forall>k < card (bset n old). \<exists>p. bitmap_ord_to_pos old k n = Inr p \<and> p \<in> bset n old \<and> bitmap_pos_to_ord old p n = Inr (int k)) \<and>
    (\<forall>i < n. bitmap_bitremap i old new n = Inr (remapped n old new i)) \<and>
    (\<exists>d. bitmap_remap False dst src old new n = Inr d \<and> kept n dst d \<and> bset n d = remapped n old new ` bset n src) \<and>
    (\<exists>d. bitmap_onto False dst src new n = Inr d \<and> kept n dst d \<and>
      bset n d = {positions n new ! m | m. m < card (bset n new) \<and> m \<in> bset n src}) \<and>
    (bset n new \<noteq> {} \<longrightarrow> (\<exists>t d. bitmap_fold False tmp src (card (bset n new)) n = Inr t \<and> kept n tmp t \<and>
      bset n t = (\<lambda>i. i mod card (bset n new)) ` bset n src \<and> bitmap_onto False dst t new n = Inr d \<and> (bset n d = {} \<longleftrightarrow> bset n src = {})))"
proof (intro conjI allI impI)
  fix k assume k: "k < card (bset n old)"
  have "positions n old ! k \<in> bset n old" using nth_mem [of k "positions n old"] k by (simp add: length_positions)
  then show "\<exists>p. bitmap_ord_to_pos old k n = Inr p \<and> p \<in> bset n old \<and> bitmap_pos_to_ord old p n = Inr (int k)"
    using k by (simp add: ord_to_pos_spec [OF assms(4)] pos_to_ord_spec [OF assms(4,6)] ordinal_of)
next
  show "bitmap_bitremap i old new n = Inr (remapped n old new i)" if "i < n" for i
    by (simp add: bitmap_bitremap_def bitmap_weight_spec [OF assms(5)] remap_bit_spec [OF assms(4,5,6)])
  show "\<exists>d. bitmap_remap False dst src old new n = Inr d \<and> kept n dst d \<and> bset n d = remapped n old new ` bset n src"
    using remap_spec [OF assms(1,3,4,5,6)] by blast
  show "\<exists>d. bitmap_onto False dst src new n = Inr d \<and> kept n dst d \<and>
      bset n d = {positions n new ! m | m. m < card (bset n new) \<and> m \<in> bset n src}"
    by (rule onto_spec [OF assms(1,3,5)])
next
  assume "bset n new \<noteq> {}"
  then have c: "0 < card (bset n new)" by (simp add: card_gt_0_iff bset_def)
  obtain t where t: "bitmap_fold False tmp src (card (bset n new)) n = Inr t" "kept n tmp t"
    "bset n t = (\<lambda>i. i mod card (bset n new)) ` bset n src" using fold_spec [OF assms(2,3) c] by blast
  then have "n \<le> 32 * length t" using assms(2) by (simp add: kept_def)
  from onto_spec [OF assms(1) this assms(5)] obtain d where d: "bitmap_onto False dst t new n = Inr d"
    "bset n d = {positions n new ! m | m. m < card (bset n new) \<and> m \<in> bset n t}" by blast
  have "bset n d = {} \<longleftrightarrow> bset n src = {}"
  proof (cases "bset n src = {}")
    case False
    then obtain i where "i \<in> bset n src" by blast
    then have "i mod card (bset n new) < card (bset n new) \<and> i mod card (bset n new) \<in> bset n t" unfolding t(3) using c mod_less_divisor by blast
    then show ?thesis unfolding d(2) using False by blast
  qed (simp add: d(2) t(3))
  then show "\<exists>t d. bitmap_fold False tmp src (card (bset n new)) n = Inr t \<and> kept n tmp t \<and>
      bset n t = (\<lambda>i. i mod card (bset n new)) ` bset n src \<and> bitmap_onto False dst t new n = Inr d \<and> (bset n d = {} \<longleftrightarrow> bset n src = {})"
    using t d(1) by blast
qed

text \<open>The example of the comment: bits 4 to 7 are mapped to 12 to 15, so 1, 5 and 7 become 1, 13 and 15.\<close>

theorem bitmap_maps_witness:
  "bitmap_remap False [7] [0xA2] [0xF0] [0xF000] 32 = Inr [0xA002] \<and>
   (\<exists>d. bitmap_remap False [7] [0xA2] [0xF0] [0xF000] 32 = Inr d \<and> kept 32 [7] d \<and> bset 32 d = remapped 32 [0xF0] [0xF000] ` bset 32 [0xA2])"
proof
  show "bitmap_remap False [7] [0xA2] [0xF0] [0xF000] 32 = Inr [0xA002]" by code_simp
  show "\<exists>d. bitmap_remap False [7] [0xA2] [0xF0] [0xF000] 32 = Inr d \<and> kept 32 [7] d \<and> bset 32 d = remapped 32 [0xF0] [0xF000] ` bset 32 [0xA2]"
    using bitmap_maps [of 32 "[7]" "[0]" "[0xA2]" "[0xF0]" "[0xF000]"] by simp
qed

end
