(* ===== verification/Bitmap_Region.thy ===== *)
theory Bitmap_Region
  imports Bitmap_Map
begin

text \<open>
  Allocation of aligned regions in a bitmap, \<^verbatim>\<open>__reg_op\<close> and its callers in \<^verbatim>\<open>lib/bitmap.c\<close>. A region has a power of two of bits and starts at a
  multiple of its size. The locale \<open>region_allocator\<close> is what a user of an allocator relies on; its instance are the routines here.
\<close>

section \<open>The code\<close>

datatype reg_op = REG_OP_ISFREE | REG_OP_ALLOC | REG_OP_RELEASE

text \<open>The part of one word that belongs to the region.\<close>

definition reg_mask :: "nat \<Rightarrow> nat \<Rightarrow> u32" where
  "reg_mask nbitsinlong offset =
     (let msk = push_bit (nbitsinlong - 1) 1; msk = msk + (msk - 1) in push_bit offset msk)"

text \<open>The new bitmap and the result. \<^verbatim>\<open>1 << order\<close> has no value in an \<^verbatim>\<open>int\<close> for orders above 30.\<close>

definition reg_op :: "u32 list \<Rightarrow> nat \<Rightarrow> nat \<Rightarrow> reg_op \<Rightarrow> (u32 list \<times> int) res" where
  "reg_op bitmap pos order op =
     (if order \<ge> 31 then Inl ShiftRange
      else let nbits_reg = 2 ^ order; index = pos div 32; offset = pos - index * 32;
               nlongs_reg = BITS_TO_LONGS nbits_reg; nbitsinlong = min nbits_reg 32;
               msk = reg_mask nbitsinlong offset
           in case op of
                REG_OP_ISFREE \<Rightarrow>
                  rbind (all_words (\<lambda>k. rbind (arr_get bitmap k) (\<lambda>w. Inr (w AND msk = 0))) index nlongs_reg) (\<lambda>free.
                  Inr (bitmap, if free then 1 else 0))
              | REG_OP_ALLOC \<Rightarrow>
                  rbind (for_words (\<lambda>k. rbind (arr_get bitmap k) (\<lambda>w. Inr (w OR msk))) index nlongs_reg bitmap) (\<lambda>bitmap.
                  Inr (bitmap, 0))
              | REG_OP_RELEASE \<Rightarrow>
                  rbind (for_words (\<lambda>k. rbind (arr_get bitmap k) (\<lambda>w. Inr (w AND NOT msk))) index nlongs_reg bitmap) (\<lambda>bitmap.
                  Inr (bitmap, 0)))"

function find_region_loop :: "u32 list \<Rightarrow> nat \<Rightarrow> nat \<Rightarrow> nat \<Rightarrow> (u32 list \<times> int) res" where
  "find_region_loop bitmap bits order pos =
     (if pos + 2 ^ order \<le> bits then
        rbind (reg_op bitmap pos order REG_OP_ISFREE) (\<lambda>(bitmap', free).
        if free = 0 then find_region_loop bitmap bits order (pos + 2 ^ order)
        else rbind (reg_op bitmap pos order REG_OP_ALLOC) (\<lambda>(bitmap, r). Inr (bitmap, int pos)))
      else Inr (bitmap, - 12))"
  by pat_completeness auto
termination
proof (relation "measure (\<lambda>(bitmap, bits, order, pos). bits - pos)", goal_cases)
  case (2 bitmap bits order pos x xa y)
  have "(0 :: nat) < 2 ^ order" by simp
  then have "pos < bits" using 2(1) by linarith
  then show ?case using diff_less_mono2 [of pos "pos + 2 ^ order" bits] by simp
qed simp

declare find_region_loop.simps [simp del]

definition bitmap_find_free_region :: "u32 list \<Rightarrow> nat \<Rightarrow> nat \<Rightarrow> (u32 list \<times> int) res" where
  "bitmap_find_free_region bitmap bits order = (if order \<ge> 32 then Inl ShiftRange else find_region_loop bitmap bits order 0)"

definition bitmap_release_region :: "u32 list \<Rightarrow> nat \<Rightarrow> nat \<Rightarrow> u32 list res" where
  "bitmap_release_region bitmap pos order = rbind (reg_op bitmap pos order REG_OP_RELEASE) (\<lambda>(bitmap, r). Inr bitmap)"

definition bitmap_allocate_region :: "u32 list \<Rightarrow> nat \<Rightarrow> nat \<Rightarrow> (u32 list \<times> int) res" where
  "bitmap_allocate_region bitmap pos order =
     rbind (reg_op bitmap pos order REG_OP_ISFREE) (\<lambda>(bitmap', free).
     if free = 0 then Inr (bitmap, - 16) else reg_op bitmap pos order REG_OP_ALLOC)"

section \<open>One region\<close>

definition region :: "nat \<Rightarrow> nat \<Rightarrow> nat set" where
  "region pos order = {pos..<pos + 2 ^ order}"

lemma reg_mask_bit:
  assumes "0 < n" "n \<le> 32" "r < 32"
  shows "bit (reg_mask n offset) r \<longleftrightarrow> offset \<le> r \<and> r < offset + n"
proof -
  have "push_bit (n - 1) 1 + (push_bit (n - 1) 1 - 1) = (2 ^ n - 1 :: u32)"
    using assms(1) by (cases n) (simp_all add: push_bit_eq_mult)
  then have "reg_mask n offset = push_bit offset (mask n)" by (simp add: reg_mask_def mask_eq_exp_minus_1)
  then show ?thesis using assms by (auto simp: bit_push_bit_iff bit_mask_iff)
qed

text \<open>A region is a part of one word, or a number of whole words.\<close>

lemma region_shape:
  fixes pos :: nat
  assumes "2 ^ order dvd pos" "order < 31"
  obtains (inside) "2 ^ order \<le> (32 :: nat)" "BITS_TO_LONGS (2 ^ order) = 1" "pos mod 32 + 2 ^ order \<le> 32"
    | (whole) c where "0 < c" "2 ^ order = 32 * c" "BITS_TO_LONGS (2 ^ order) = c" "pos mod 32 = 0"
proof (cases "order < 5")
  case True
  have b32: "(2 :: nat) ^ order dvd 32" using le_imp_power_dvd [of order 5 "2 :: nat"] True by simp
  have "2 ^ order dvd pos mod 32" using assms(1) b32 by (simp add: dvd_mod)
  then obtain s where s: "pos mod 32 = 2 ^ order * s" by (auto simp: dvd_def)
  obtain k where k: "(32 :: nat) = 2 ^ order * k" using b32 by (auto simp: dvd_def)
  have "pos mod 32 < 32" by simp
  then have "2 ^ order * s < 2 ^ order * k" using s k by metis
  then have "2 ^ order * Suc s \<le> 2 ^ order * k" by (intro mult_le_mono2) simp
  then have "pos mod 32 + 2 ^ order \<le> 32" using s k by simp
  moreover have le: "2 ^ order \<le> (32 :: nat)" using b32 by (simp add: dvd_imp_le)
  moreover have "BITS_TO_LONGS (2 ^ order) = 1" unfolding BITS_TO_LONGS_def using le by (intro div_nat_eqI) auto
  ultimately show thesis by (intro inside)
next
  case False
  define c where "c = (2 :: nat) ^ (order - 5)"
  have b: "2 ^ order = 32 * c" using False power_add [of "2 :: nat" 5 "order - 5"] by (simp add: c_def)
  have "32 dvd pos" using assms(1) unfolding b by (rule dvd_mult_left)
  then have "pos mod 32 = 0" by (simp add: dvd_eq_mod_eq_0)
  moreover have "BITS_TO_LONGS (2 ^ order) = c" unfolding BITS_TO_LONGS_def b by (intro div_nat_eqI) auto
  ultimately show thesis using b by (intro whole [of c]) (simp_all add: c_def)
qed

lemma in_word:
  assumes "i = 32 * D + r" "pos = 32 * q + s" "r < 32" "s + b \<le> (32 :: nat)"
  shows "pos \<le> i \<and> i < pos + b \<longleftrightarrow> D = q \<and> s \<le> r \<and> r < s + b"
  using assms by (cases D q rule: linorder_cases) auto

text \<open>The words and bits the code touches are those of the region.\<close>

lemma region_words:
  assumes "2 ^ order dvd pos" "order < 31"
  shows "i \<in> region pos order \<longleftrightarrow> pos div 32 \<le> i div 32 \<and> i div 32 < pos div 32 + BITS_TO_LONGS (2 ^ order) \<and>
    bit (reg_mask (min (2 ^ order) 32) (pos - pos div 32 * 32)) (i mod 32)"
proof -
  have m: "bit (reg_mask (min (2 ^ order) 32) (pos - pos div 32 * 32)) (i mod 32) \<longleftrightarrow>
      pos mod 32 \<le> i mod 32 \<and> i mod 32 < pos mod 32 + min (2 ^ order) 32"
    by (subst reg_mask_bit) (auto simp: minus_div_mult_eq_mod)
  have dm: "i = 32 * (i div 32) + i mod 32" "pos = 32 * (pos div 32) + pos mod 32" by simp_all
  have r: "i mod 32 < 32" by simp
  show ?thesis
    using assms
  proof (cases rule: region_shape)
    case inside
    show ?thesis unfolding m region_def atLeastLessThan_iff in_word [OF dm r inside(3)] inside(2) using inside(1) by auto
  next
    case (whole c)
    have "pos \<le> i \<and> i < pos + 32 * c \<longleftrightarrow> pos div 32 \<le> i div 32 \<and> i div 32 < pos div 32 + c" using dm r whole(4) by linarith
    then show ?thesis unfolding m region_def whole(3) unfolding whole(2,4) using r whole(1) by (auto simp: min_def)
  qed
qed

lemma region_words_bound:
  fixes pos :: nat
  assumes "2 ^ order dvd pos" "order < 31" "pos + 2 ^ order \<le> 32 * k"
  shows "pos div 32 + BITS_TO_LONGS (2 ^ order) \<le> k"
  using assms(1,2)
proof (cases rule: region_shape)
  case inside
  have "(0 :: nat) < 2 ^ order" by simp
  then have "pos < 32 * k" using assms(3) by linarith
  then show ?thesis using inside(2) by linarith
next
  case (whole c)
  have "pos = 32 * (pos div 32)" using whole(4) div_mult_mod_eq [of pos 32] by simp
  then show ?thesis using assms(3) unfolding whole(3) unfolding whole(2) by linarith
qed

text \<open>What \<^verbatim>\<open>__reg_op\<close> does to the set of used positions.\<close>

lemma reg_op_words:
  assumes "2 ^ order dvd pos" "order < 31" "pos + 2 ^ order \<le> 32 * length m"
    and g: "\<And>w r. bit (g w) r \<longleftrightarrow> (if bit (reg_mask (min (2 ^ order) 32) (pos - pos div 32 * 32)) r then b else bit w r)"
  shows "\<exists>d. for_words (\<lambda>k. rbind (arr_get m k) (\<lambda>w. Inr (g w))) (pos div 32) (BITS_TO_LONGS (2 ^ order)) m = Inr d \<and>
    length d = length m \<and> (\<forall>i < 32 * length m. bm d i \<longleftrightarrow> (if i \<in> region pos order then b else bm m i))"
proof -
  note k = region_words_bound [OF assms(1-3)]
  let ?d = "over (\<lambda>j. g (m ! j)) (pos div 32) (BITS_TO_LONGS (2 ^ order)) m"
  have "for_words (\<lambda>k. rbind (arr_get m k) (\<lambda>w. Inr (g w))) (pos div 32) (BITS_TO_LONGS (2 ^ order)) m = Inr ?d"
    using k by (intro for_words_spec) auto
  moreover have "bm ?d i \<longleftrightarrow> (if i \<in> region pos order then b else bm m i)" if "i < 32 * length m" for i
  proof -
    have "i div 32 < length m" using that by linarith
    then show ?thesis unfolding bm_def region_words [OF assms(1,2)] by (auto simp: g)
  qed
  ultimately show ?thesis by (intro exI [of _ ?d]) simp
qed

lemma reg_op_isfree:
  assumes "2 ^ order dvd pos" "order < 31" "pos + 2 ^ order \<le> 32 * length m"
  shows "reg_op m pos order REG_OP_ISFREE = Inr (m, if region pos order \<inter> {i. bm m i} = {} then 1 else 0)"
proof -
  note k = region_words_bound [OF assms]
  let ?M = "reg_mask (min (2 ^ order) 32) (pos - pos div 32 * 32)"
  have "all_words (\<lambda>k. rbind (arr_get m k) (\<lambda>w. Inr (w AND ?M = 0))) (pos div 32) (BITS_TO_LONGS (2 ^ order)) =
      Inr (\<forall>j. pos div 32 \<le> j \<and> j < pos div 32 + BITS_TO_LONGS (2 ^ order) \<longrightarrow> m ! j AND ?M = 0)"
    using k by (intro all_words_spec) auto
  moreover have "(\<forall>j. pos div 32 \<le> j \<and> j < pos div 32 + BITS_TO_LONGS (2 ^ order) \<longrightarrow> m ! j AND ?M = 0) \<longleftrightarrow> region pos order \<inter> {i. bm m i} = {}"
    (is "?A \<longleftrightarrow> ?B")
  proof
    assume A: ?A
    show ?B
    proof (rule ccontr)
      assume "\<not> ?B"
      then obtain i where i: "i \<in> region pos order" "bm m i" by blast
      then have "bit (m ! (i div 32) AND ?M) (i mod 32)" unfolding region_words [OF assms(1,2)] by (simp add: bm_def bit_and_iff)
      then show False using A i(1) unfolding region_words [OF assms(1,2)] by (metis bit_0_eq bot_apply bot_bool_def)
    qed
  next
    assume B: ?B
    show ?A
    proof (intro allI impI, rule ccontr)
      fix j assume j: "pos div 32 \<le> j \<and> j < pos div 32 + BITS_TO_LONGS (2 ^ order)" and n: "m ! j AND ?M \<noteq> 0"
      then obtain r where r: "r < 32" "bit (m ! j) r" "bit ?M r" by (auto simp: word_zero_bits bit_and_iff)
      then have "32 * j + r \<in> region pos order" using j unfolding region_words [OF assms(1,2)] by simp
      moreover have "bm m (32 * j + r)" using r by (simp add: bm_at)
      ultimately show False using B by blast
    qed
  qed
  ultimately show ?thesis using assms(2) by (simp add: reg_op_def Let_def)
qed

lemma reg_op_alloc:
  assumes "2 ^ order dvd pos" "order < 31" "pos + 2 ^ order \<le> 32 * length m"
  shows "\<exists>d. reg_op m pos order REG_OP_ALLOC = Inr (d, 0) \<and> length d = length m \<and>
    (\<forall>i < 32 * length m. bm d i \<longleftrightarrow> i \<in> region pos order \<or> bm m i)"
proof -
  let ?M = "reg_mask (min (2 ^ order) 32) (pos - pos div 32 * 32)"
  have "bit (w OR ?M) r \<longleftrightarrow> (if bit ?M r then True else bit w r)" for w r by (simp add: bit_or_iff)
  from reg_op_words [OF assms this] obtain d where
    "for_words (\<lambda>k. rbind (arr_get m k) (\<lambda>w. Inr (w OR ?M))) (pos div 32) (BITS_TO_LONGS (2 ^ order)) m = Inr d"
    "length d = length m" "\<forall>i < 32 * length m. bm d i \<longleftrightarrow> (if i \<in> region pos order then True else bm m i)" by blast
  then show ?thesis using assms(2) by (auto simp: reg_op_def Let_def)
qed

lemma reg_op_release:
  assumes "2 ^ order dvd pos" "order < 31" "pos + 2 ^ order \<le> 32 * length m"
  shows "\<exists>d. reg_op m pos order REG_OP_RELEASE = Inr (d, 0) \<and> length d = length m \<and>
    (\<forall>i < 32 * length m. bm d i \<longleftrightarrow> i \<notin> region pos order \<and> bm m i)"
proof -
  let ?M = "reg_mask (min (2 ^ order) 32) (pos - pos div 32 * 32)"
  have "bit (w AND NOT ?M) r \<longleftrightarrow> (if bit ?M r then False else bit w r)" for w r
    by (auto simp: bit_and_iff bit_not_iff dest: bit_imp_le_length)
  from reg_op_words [OF assms this] obtain d where
    "for_words (\<lambda>k. rbind (arr_get m k) (\<lambda>w. Inr (w AND NOT ?M))) (pos div 32) (BITS_TO_LONGS (2 ^ order)) m = Inr d"
    "length d = length m" "\<forall>i < 32 * length m. bm d i \<longleftrightarrow> (if i \<in> region pos order then False else bm m i)" by blast
  then show ?thesis using assms(2) by (auto simp: reg_op_def Let_def)
qed

section \<open>The callers\<close>

definition free_region :: "nat \<Rightarrow> u32 list \<Rightarrow> nat \<Rightarrow> nat \<Rightarrow> bool" where
  "free_region bits m order pos \<longleftrightarrow> 2 ^ order dvd pos \<and> pos + 2 ^ order \<le> bits \<and> region pos order \<inter> bset bits m = {}"

text \<open>The bitmap \<open>d\<close> is \<open>m\<close> with the positions of the region set, or cleared.\<close>

definition region_set :: "u32 list \<Rightarrow> nat \<Rightarrow> nat \<Rightarrow> bool \<Rightarrow> u32 list \<Rightarrow> bool" where
  "region_set m pos order b d \<longleftrightarrow> length d = length m \<and>
     (\<forall>i < 32 * length m. bm d i \<longleftrightarrow> (if i \<in> region pos order then b else bm m i))"

lemma region_set_bset:
  assumes "region_set m pos order b d" "bits \<le> 32 * length m"
  shows "bset bits d = (if b then bset bits m \<union> (region pos order \<inter> {..<bits}) else bset bits m - region pos order)"
proof -
  have "bm d i \<longleftrightarrow> (if i \<in> region pos order then b else bm m i)" if "i < bits" for i
    using assms that by (simp add: region_set_def)
  then show ?thesis by (cases b) (auto simp: bset_def split: if_split_asm)
qed

lemma region_within: "pos + 2 ^ order \<le> bits \<Longrightarrow> region pos order \<inter> {..<bits} = region pos order"
  by (auto simp: region_def)

lemma isfree_iff:
  assumes "2 ^ order dvd pos" "order < 31" "pos + 2 ^ order \<le> bits" "bits \<le> 32 * length m"
  shows "reg_op m pos order REG_OP_ISFREE = Inr (m, if free_region bits m order pos then 1 else 0)"
proof -
  have "region pos order \<inter> {i. bm m i} = region pos order \<inter> bset bits m" using assms(3) by (auto simp: region_def)
  then show ?thesis using reg_op_isfree [OF assms(1,2)] assms by (simp add: free_region_def)
qed

lemma alloc_region_set:
  assumes "2 ^ order dvd pos" "order < 31" "pos + 2 ^ order \<le> 32 * length m"
  obtains d where "reg_op m pos order REG_OP_ALLOC = Inr (d, 0)" "region_set m pos order True d"
  using reg_op_alloc [OF assms] by (auto simp: region_set_def)

lemma find_region_loop_spec:
  assumes "order < 31" "bits \<le> 32 * length m"
  shows "2 ^ order dvd pos \<Longrightarrow> (\<And>p. p < pos \<Longrightarrow> \<not> free_region bits m order p) \<Longrightarrow>
    (\<exists>p d. find_region_loop m bits order pos = Inr (d, int p) \<and> free_region bits m order p \<and>
       (\<forall>p' < p. \<not> free_region bits m order p') \<and> region_set m p order True d) \<or>
    find_region_loop m bits order pos = Inr (m, - 12) \<and> (\<forall>p. \<not> free_region bits m order p)"
proof (induction "bits - pos" arbitrary: pos rule: less_induct)
  case less
  let ?b = "2 ^ order :: nat"
  have gap: "\<not> free_region bits m order p" if "pos < p" "p < pos + ?b" for p
  proof
    assume "free_region bits m order p"
    then have "?b dvd p - pos" using less.prems(1) by (simp add: free_region_def)
    then have "?b \<le> p - pos" using that(1) by (intro dvd_imp_le) auto
    then show False using that by linarith
  qed
  show ?case
  proof (cases "pos + ?b \<le> bits")
    case False
    then have "\<not> free_region bits m order p" if "pos \<le> p" for p using that by (auto simp: free_region_def)
    then have "\<forall>p. \<not> free_region bits m order p" using less.prems(2) by (metis not_le)
    then show ?thesis using False by (subst find_region_loop.simps, subst find_region_loop.simps) simp
  next
    case True
    note free = isfree_iff [OF less.prems(1) assms(1) True assms(2)]
    show ?thesis
    proof (cases "free_region bits m order pos")
      case fr: True
      have "pos + ?b \<le> 32 * length m" using True assms(2) by linarith
      then obtain d where d: "reg_op m pos order REG_OP_ALLOC = Inr (d, 0)" "region_set m pos order True d"
        using alloc_region_set [OF less.prems(1) assms(1)] by blast
      have "find_region_loop m bits order pos = Inr (d, int pos)" using True fr free d(1) by (subst find_region_loop.simps) simp
      then show ?thesis using fr d(2) less.prems(2) by blast
    next
      case nf: False
      have "(0 :: nat) < ?b" by simp
      then have lt: "bits - (pos + ?b) < bits - pos" using True by linarith
      have "\<not> free_region bits m order p" if "p < pos + ?b" for p
        using that less.prems(2) [of p] nf gap [of p] by (cases p pos rule: linorder_cases) auto
      moreover have "?b dvd pos + ?b" using less.prems(1) by simp
      ultimately have "(\<exists>p d. find_region_loop m bits order (pos + ?b) = Inr (d, int p) \<and> free_region bits m order p \<and>
          (\<forall>p' < p. \<not> free_region bits m order p') \<and> region_set m p order True d) \<or>
        find_region_loop m bits order (pos + ?b) = Inr (m, - 12) \<and> (\<forall>p. \<not> free_region bits m order p)"
        using less.hyps [OF lt] by blast
      moreover have "find_region_loop m bits order pos = find_region_loop m bits order (pos + ?b)"
        using True nf free by (subst find_region_loop.simps) simp
      ultimately show ?thesis by simp
    qed
  qed
qed

lemma find_free_region_spec:
  assumes "order < 31" "bits \<le> 32 * length m"
  shows "(\<exists>p d. bitmap_find_free_region m bits order = Inr (d, int p) \<and> free_region bits m order p \<and>
       (\<forall>p' < p. \<not> free_region bits m order p') \<and> region_set m p order True d) \<or>
    bitmap_find_free_region m bits order = Inr (m, - 12) \<and> (\<forall>p. \<not> free_region bits m order p)"
  using find_region_loop_spec [OF assms, of 0] assms(1) by (simp add: bitmap_find_free_region_def)

section \<open>A client of the allocator\<close>

text \<open>
  What a client relies on: a taken region is aligned, was free and is used afterwards; giving back a used region
  frees it and nothing else. Then the regions a client holds never overlap, and they are all that is used.
\<close>

datatype region_call = Take nat | Give nat

fun regions_run :: "('m \<Rightarrow> nat \<Rightarrow> ('m \<times> nat option) res) \<Rightarrow> ('m \<Rightarrow> nat \<Rightarrow> nat \<Rightarrow> 'm res) \<Rightarrow>
    'm \<Rightarrow> (nat \<times> nat) list \<Rightarrow> region_call list \<Rightarrow> ('m \<times> (nat \<times> nat) list) res" where
  "regions_run grab give m live [] = Inr (m, live)"
| "regions_run grab give m live (Take k # cs) =
     rbind (grab m k) (\<lambda>(m, r). regions_run grab give m (case r of None \<Rightarrow> live | Some p \<Rightarrow> (p, k) # live) cs)"
| "regions_run grab give m live (Give j # cs) =
     (if j < length live
      then rbind (give m (fst (live ! j)) (snd (live ! j))) (\<lambda>m. regions_run grab give m (take j live @ drop (Suc j) live) cs)
      else regions_run grab give m live cs)"

definition held :: "(nat \<times> nat) list \<Rightarrow> nat set" where
  "held live = (\<Union>x \<in> set live. region (fst x) (snd x))"

definition apart :: "(nat \<times> nat) list \<Rightarrow> bool" where
  "apart live \<longleftrightarrow> sorted_wrt (\<lambda>a b. region (fst a) (snd a) \<inter> region (fst b) (snd b) = {}) live"

lemma held_simps [simp]: "held [] = {}" "held (x # live) = region (fst x) (snd x) \<union> held live" "held (a @ b) = held a \<union> held b"
  by (auto simp: held_def)

lemma apart_Cons: "apart (x # live) \<longleftrightarrow> region (fst x) (snd x) \<inter> held live = {} \<and> apart live"
  unfolding apart_def held_def by (simp, blast)

lemma apart_append: "apart (a @ b) \<longleftrightarrow> apart a \<and> apart b \<and> held a \<inter> held b = {}"
  unfolding apart_def held_def by (simp add: sorted_wrt_append, blast)

locale region_allocator =
  fixes ok :: "'m \<Rightarrow> bool" and used :: "'m \<Rightarrow> nat set"
    and grab :: "'m \<Rightarrow> nat \<Rightarrow> ('m \<times> nat option) res" and give :: "'m \<Rightarrow> nat \<Rightarrow> nat \<Rightarrow> 'm res"
  assumes grab: "ok m \<Longrightarrow> k < 31 \<Longrightarrow> \<exists>m' r. grab m k = Inr (m', r) \<and> ok m' \<and>
      (case r of None \<Rightarrow> m' = m | Some p \<Rightarrow> 2 ^ k dvd p \<and> region p k \<inter> used m = {} \<and> used m' = used m \<union> region p k)"
    and give: "ok m \<Longrightarrow> k < 31 \<Longrightarrow> 2 ^ k dvd p \<Longrightarrow> region p k \<subseteq> used m \<Longrightarrow>
      \<exists>m'. give m p k = Inr m' \<and> ok m' \<and> used m' = used m - region p k"
begin

lemma client:
  assumes "ok m" "used m = held live" "apart live" "\<forall>(p, k) \<in> set live. k < 31 \<and> 2 ^ k dvd p" "\<forall>k. Take k \<in> set cs \<longrightarrow> k < 31"
  shows "\<exists>m' live'. regions_run grab give m live cs = Inr (m', live') \<and> ok m' \<and> used m' = held live' \<and> apart live'"
  using assms
proof (induction cs arbitrary: m live)
  case (Cons c cs)
  note inv = Cons.prems(1-4)
  have cs: "\<forall>k. Take k \<in> set cs \<longrightarrow> k < 31" using Cons.prems(5) by auto
  show ?case
  proof (cases c)
    case (Take k)
    then have k: "k < 31" using Cons.prems(5) by simp
    obtain m' r where r: "grab m k = Inr (m', r)" "ok m'" "case r of None \<Rightarrow> m' = m
        | Some p \<Rightarrow> 2 ^ k dvd p \<and> region p k \<inter> used m = {} \<and> used m' = used m \<union> region p k" using grab [OF inv(1) k] by blast
    show ?thesis
    proof (cases r)
      case None
      then show ?thesis using Cons.IH [OF inv cs] Take r by simp
    next
      case (Some p)
      have "\<exists>m'' live'. regions_run grab give m' ((p, k) # live) cs = Inr (m'', live') \<and> ok m'' \<and> used m'' = held live' \<and> apart live'"
        using r(2,3) Some inv k cs by (intro Cons.IH) (auto simp: apart_Cons)
      then show ?thesis using Take r(1) Some by simp
    qed
  next
    case (Give j)
    show ?thesis
    proof (cases "j < length live")
      case False
      then show ?thesis using Cons.IH [OF inv cs] Give by simp
    next
      case True
      obtain p k where pk: "live ! j = (p, k)" by (cases "live ! j")
      let ?l = "take j live @ drop (Suc j) live"
      have e: "live = take j live @ (p, k) # drop (Suc j) live" using id_take_nth_drop [OF True] pk by simp
      have ap: "apart ?l" "region p k \<inter> held ?l = {}" "held live = held ?l \<union> region p k"
      proof -
        have a: "apart (take j live @ (p, k) # drop (Suc j) live)" using inv(3) by (simp only: e [symmetric])
        then show "apart ?l" "region p k \<inter> held ?l = {}" by (auto simp: apart_append apart_Cons)
        have "held live = held (take j live @ (p, k) # drop (Suc j) live)" by (simp only: e [symmetric])
        then show "held live = held ?l \<union> region p k" by auto
      qed
      have "(p, k) \<in> set live" using True pk by (metis nth_mem)
      then have g: "k < 31" "2 ^ k dvd p" "region p k \<subseteq> used m" using inv(2,4) ap(3) by auto
      obtain m' where m': "give m p k = Inr m'" "ok m'" "used m' = used m - region p k" using give [OF inv(1) g] by blast
      have "used m' = held ?l" using m'(3) inv(2) ap by auto
      moreover have "\<forall>(p, k) \<in> set ?l. k < 31 \<and> 2 ^ k dvd p" using inv(4) by (auto dest: in_set_takeD in_set_dropD)
      ultimately have "\<exists>m'' live'. regions_run grab give m' ?l cs = Inr (m'', live') \<and> ok m'' \<and> used m'' = held live' \<and> apart live'"
        using ap(1) m'(2) cs by (intro Cons.IH) auto
      then show ?thesis using Give True pk m'(1) by simp
    qed
  qed
qed simp

end

text \<open>The calls on a bitmap of \<open>bits\<close> bits.\<close>

definition region_grab :: "nat \<Rightarrow> u32 list \<Rightarrow> nat \<Rightarrow> (u32 list \<times> nat option) res" where
  "region_grab bits m order =
     rbind (bitmap_find_free_region m bits order) (\<lambda>(m, r). Inr (m, if r < 0 then None else Some (nat r)))"

definition bitmap_holds :: "nat \<Rightarrow> u32 list \<Rightarrow> bool" where
  "bitmap_holds bits m \<longleftrightarrow> bits \<le> 32 * length m"

lemma release_region_spec:
  assumes "2 ^ order dvd pos" "order < 31" "pos + 2 ^ order \<le> 32 * length m"
  shows "\<exists>d. bitmap_release_region m pos order = Inr d \<and> region_set m pos order False d"
  using reg_op_release [OF assms] by (auto simp: bitmap_release_region_def region_set_def)

interpretation regions: region_allocator "bitmap_holds bits" "bset bits" "region_grab bits" bitmap_release_region for bits
proof (unfold_locales, goal_cases)
  case (1 m k)
  then have b: "bits \<le> 32 * length m" by (simp add: bitmap_holds_def)
  from find_free_region_spec [OF 1(2) b] show ?case
  proof (elim disjE exE conjE)
    fix p d
    assume d: "bitmap_find_free_region m bits k = Inr (d, int p)" "free_region bits m k p" "region_set m p k True d"
    then have "bset bits d = bset bits m \<union> region p k" using region_set_bset [OF d(3) b] region_within [of p k bits] by (simp add: free_region_def)
    then show ?thesis using d b by (auto simp: region_grab_def free_region_def bitmap_holds_def region_set_def)
  qed (use 1 in \<open>auto simp: region_grab_def\<close>)
next
  case (2 m k p)
  then have b: "bits \<le> 32 * length m" by (simp add: bitmap_holds_def)
  have "(0 :: nat) < 2 ^ k" by simp
  then have "p + 2 ^ k - 1 \<in> region p k" unfolding region_def atLeastLessThan_iff by linarith
  then have "p + 2 ^ k - 1 < bits" using 2(4) by auto
  then have "p + 2 ^ k \<le> 32 * length m" using b by linarith
  from release_region_spec [OF 2(3,2) this] obtain d where d: "bitmap_release_region m p k = Inr d" "region_set m p k False d" by blast
  then show ?case using region_set_bset [OF d(2) b] b by (simp add: bitmap_holds_def region_set_def)
qed

section \<open>Properties\<close>





end
