(* ===== verification/KList.thy ===== *)
theory KList
  imports KPWM_Base
begin

text \<open>
  The doubly linked lists of \<^verbatim>\<open>include/linux/list.h\<close> on an explicit store. A node has an address, a natural number that is not 0 (\<^verbatim>\<open>NULL\<close>), and the
  store keeps the two fields of all \<^verbatim>\<open>struct list_head\<close> objects as partial maps; an access to an address that is not allocated is a
  fault. A list is a circle through its head, so the operations do not treat the ends specially. The configuration is that without
  \<^verbatim>\<open>CONFIG_DEBUG_LIST\<close>.
\<close>

section \<open>The store\<close>

record lheap =
  lh_next :: "nat \<Rightarrow> nat option"
  lh_prev :: "nat \<Rightarrow> nat option"

definition field_at :: "(nat \<Rightarrow> nat option) \<Rightarrow> nat \<Rightarrow> nat res" where
  "field_at f p = (if p = 0 then Inl NullDeref else case f p of None \<Rightarrow> Inl OutOfBounds | Some v \<Rightarrow> Inr v)"

definition get_next :: "lheap \<Rightarrow> nat \<Rightarrow> nat res" where "get_next h p = field_at (lh_next h) p"
definition get_prev :: "lheap \<Rightarrow> nat \<Rightarrow> nat res" where "get_prev h p = field_at (lh_prev h) p"

definition set_next :: "lheap \<Rightarrow> nat \<Rightarrow> nat \<Rightarrow> lheap res" where
  "set_next h p v = rbind (get_next h p) (\<lambda>_. Inr (h\<lparr>lh_next := (lh_next h)(p \<mapsto> v)\<rparr>))"

definition set_prev :: "lheap \<Rightarrow> nat \<Rightarrow> nat \<Rightarrow> lheap res" where
  "set_prev h p v = rbind (get_prev h p) (\<lambda>_. Inr (h\<lparr>lh_prev := (lh_prev h)(p \<mapsto> v)\<rparr>))"

text \<open>The pointer to the first node of a sequence, \<^verbatim>\<open>NULL\<close> for none.\<close>

fun ptr :: "nat list \<Rightarrow> nat" where
  "ptr [] = 0"
| "ptr (x # xs) = x"

section \<open>list.h\<close>

definition LIST_POISON1 :: nat where "LIST_POISON1 = 0x00100100"
definition LIST_POISON2 :: nat where "LIST_POISON2 = 0x00200200"

definition INIT_LIST_HEAD :: "lheap \<Rightarrow> nat \<Rightarrow> lheap res" where
  "INIT_LIST_HEAD h list = rbind (set_next h list list) (\<lambda>h. set_prev h list list)"

definition list_add_between :: "lheap \<Rightarrow> nat \<Rightarrow> nat \<Rightarrow> nat \<Rightarrow> lheap res" where
  "list_add_between h new prev nxt =
     rbind (set_prev h nxt new) (\<lambda>h.
     rbind (set_next h new nxt) (\<lambda>h.
     rbind (set_prev h new prev) (\<lambda>h.
     set_next h prev new)))"

definition list_add :: "lheap \<Rightarrow> nat \<Rightarrow> nat \<Rightarrow> lheap res" where
  "list_add h new head = rbind (get_next h head) (\<lambda>nxt. list_add_between h new head nxt)"

definition list_add_tail :: "lheap \<Rightarrow> nat \<Rightarrow> nat \<Rightarrow> lheap res" where
  "list_add_tail h new head = rbind (get_prev h head) (\<lambda>prev. list_add_between h new prev head)"

definition list_del_between :: "lheap \<Rightarrow> nat \<Rightarrow> nat \<Rightarrow> lheap res" where
  "list_del_between h prev nxt = rbind (set_prev h nxt prev) (\<lambda>h. set_next h prev nxt)"

definition list_del_entry :: "lheap \<Rightarrow> nat \<Rightarrow> lheap res" where
  "list_del_entry h entry =
     rbind (get_prev h entry) (\<lambda>prev. rbind (get_next h entry) (\<lambda>nxt. list_del_between h prev nxt))"

definition list_del :: "lheap \<Rightarrow> nat \<Rightarrow> lheap res" where
  "list_del h entry =
     rbind (list_del_entry h entry) (\<lambda>h.
     rbind (set_next h entry LIST_POISON1) (\<lambda>h.
     set_prev h entry LIST_POISON2))"

definition list_replace :: "lheap \<Rightarrow> nat \<Rightarrow> nat \<Rightarrow> lheap res" where
  "list_replace h old new =
     rbind (get_next h old) (\<lambda>n. rbind (set_next h new n) (\<lambda>h.
     rbind (get_next h new) (\<lambda>n. rbind (set_prev h n new) (\<lambda>h.
     rbind (get_prev h old) (\<lambda>p. rbind (set_prev h new p) (\<lambda>h.
     rbind (get_prev h new) (\<lambda>p. set_next h p new)))))))"

definition list_replace_init :: "lheap \<Rightarrow> nat \<Rightarrow> nat \<Rightarrow> lheap res" where
  "list_replace_init h old new = rbind (list_replace h old new) (\<lambda>h. INIT_LIST_HEAD h old)"

definition list_del_init :: "lheap \<Rightarrow> nat \<Rightarrow> lheap res" where
  "list_del_init h entry = rbind (list_del_entry h entry) (\<lambda>h. INIT_LIST_HEAD h entry)"

definition list_move :: "lheap \<Rightarrow> nat \<Rightarrow> nat \<Rightarrow> lheap res" where
  "list_move h list head = rbind (list_del_entry h list) (\<lambda>h. list_add h list head)"

definition list_move_tail :: "lheap \<Rightarrow> nat \<Rightarrow> nat \<Rightarrow> lheap res" where
  "list_move_tail h list head = rbind (list_del_entry h list) (\<lambda>h. list_add_tail h list head)"

definition list_is_last :: "lheap \<Rightarrow> nat \<Rightarrow> nat \<Rightarrow> bool res" where
  "list_is_last h list head = rbind (get_next h list) (\<lambda>n. Inr (n = head))"

definition list_empty :: "lheap \<Rightarrow> nat \<Rightarrow> bool res" where
  "list_empty h head = rbind (get_next h head) (\<lambda>n. Inr (n = head))"

definition list_empty_careful :: "lheap \<Rightarrow> nat \<Rightarrow> bool res" where
  "list_empty_careful h head =
     rbind (get_next h head) (\<lambda>nxt.
     if nxt = head then rbind (get_prev h head) (\<lambda>p. Inr (nxt = p)) else Inr False)"

definition list_rotate_left :: "lheap \<Rightarrow> nat \<Rightarrow> lheap res" where
  "list_rotate_left h head =
     rbind (list_empty h head) (\<lambda>e.
     if \<not> e then rbind (get_next h head) (\<lambda>first. list_move_tail h first head) else Inr h)"

definition list_is_singular :: "lheap \<Rightarrow> nat \<Rightarrow> bool res" where
  "list_is_singular h head =
     rbind (list_empty h head) (\<lambda>e.
     if e then Inr False
     else rbind (get_next h head) (\<lambda>n. rbind (get_prev h head) (\<lambda>p. Inr (n = p))))"

definition list_cut_at :: "lheap \<Rightarrow> nat \<Rightarrow> nat \<Rightarrow> nat \<Rightarrow> lheap res" where
  "list_cut_at h list head entry =
     rbind (get_next h entry) (\<lambda>new_first.
     rbind (get_next h head) (\<lambda>n. rbind (set_next h list n) (\<lambda>h.
     rbind (get_next h list) (\<lambda>n. rbind (set_prev h n list) (\<lambda>h.
     rbind (set_prev h list entry) (\<lambda>h.
     rbind (set_next h entry list) (\<lambda>h.
     rbind (set_next h head new_first) (\<lambda>h.
     set_prev h new_first head))))))))"

definition list_cut_position :: "lheap \<Rightarrow> nat \<Rightarrow> nat \<Rightarrow> nat \<Rightarrow> lheap res" where
  "list_cut_position h list head entry =
     rbind (list_empty h head) (\<lambda>e.
     if e then Inr h
     else rbind (list_is_singular h head) (\<lambda>sing.
     rbind (if sing then rbind (get_next h head) (\<lambda>n. Inr (n \<noteq> entry \<and> head \<noteq> entry)) else Inr False) (\<lambda>skip.
     if skip then Inr h
     else if entry = head then INIT_LIST_HEAD h list
     else list_cut_at h list head entry)))"

definition list_splice_between :: "lheap \<Rightarrow> nat \<Rightarrow> nat \<Rightarrow> nat \<Rightarrow> lheap res" where
  "list_splice_between h list prev nxt =
     rbind (get_next h list) (\<lambda>first.
     rbind (get_prev h list) (\<lambda>last.
     rbind (set_prev h first prev) (\<lambda>h.
     rbind (set_next h prev first) (\<lambda>h.
     rbind (set_next h last nxt) (\<lambda>h.
     set_prev h nxt last)))))"

definition list_splice :: "lheap \<Rightarrow> nat \<Rightarrow> nat \<Rightarrow> lheap res" where
  "list_splice h list head =
     rbind (list_empty h list) (\<lambda>e.
     if \<not> e then rbind (get_next h head) (\<lambda>n. list_splice_between h list head n) else Inr h)"

definition list_splice_tail :: "lheap \<Rightarrow> nat \<Rightarrow> nat \<Rightarrow> lheap res" where
  "list_splice_tail h list head =
     rbind (list_empty h list) (\<lambda>e.
     if \<not> e then rbind (get_prev h head) (\<lambda>p. list_splice_between h list p head) else Inr h)"

definition list_splice_init :: "lheap \<Rightarrow> nat \<Rightarrow> nat \<Rightarrow> lheap res" where
  "list_splice_init h list head =
     rbind (list_empty h list) (\<lambda>e.
     if \<not> e then rbind (get_next h head) (\<lambda>n.
       rbind (list_splice_between h list head n) (\<lambda>h. INIT_LIST_HEAD h list)) else Inr h)"

definition list_splice_tail_init :: "lheap \<Rightarrow> nat \<Rightarrow> nat \<Rightarrow> lheap res" where
  "list_splice_tail_init h list head =
     rbind (list_empty h list) (\<lambda>e.
     if \<not> e then rbind (get_prev h head) (\<lambda>p.
       rbind (list_splice_between h list p head) (\<lambda>h. INIT_LIST_HEAD h list)) else Inr h)"

section \<open>Allocated nodes and the circle\<close>

definition node :: "lheap \<Rightarrow> nat \<Rightarrow> bool" where
  "node h p \<longleftrightarrow> p \<noteq> 0 \<and> lh_next h p \<noteq> None \<and> lh_prev h p \<noteq> None"

text \<open>Consecutive nodes of a path point to each other.\<close>

fun linked :: "lheap \<Rightarrow> nat list \<Rightarrow> bool" where
  "linked h (x # y # zs) \<longleftrightarrow> lh_next h x = Some y \<and> lh_prev h y = Some x \<and> linked h (y # zs)"
| "linked h [x] \<longleftrightarrow> True"
| "linked h [] \<longleftrightarrow> True"

text \<open>The list at \<open>head\<close> has the entries \<open>xs\<close>.\<close>

definition circ :: "lheap \<Rightarrow> nat \<Rightarrow> nat list \<Rightarrow> bool" where
  "circ h head xs \<longleftrightarrow> linked h (head # xs @ [head]) \<and> distinct (head # xs) \<and> (\<forall>p \<in> set (head # xs). node h p)"

text \<open>What an operation leaves alone: all fields outside some nodes, and which nodes are allocated.\<close>

definition frame :: "nat set \<Rightarrow> lheap \<Rightarrow> lheap \<Rightarrow> bool" where
  "frame S h h' \<longleftrightarrow> (\<forall>p. p \<notin> S \<longrightarrow> lh_next h' p = lh_next h p \<and> lh_prev h' p = lh_prev h p) \<and> (\<forall>p. node h' p \<longleftrightarrow> node h p)"

definition nextp :: "lheap \<Rightarrow> nat \<Rightarrow> nat \<Rightarrow> lheap" where "nextp h p v = h\<lparr>lh_next := (lh_next h)(p \<mapsto> v)\<rparr>"
definition prevp :: "lheap \<Rightarrow> nat \<Rightarrow> nat \<Rightarrow> lheap" where "prevp h p v = h\<lparr>lh_prev := (lh_prev h)(p \<mapsto> v)\<rparr>"

lemma store_simps [simp]:
  "lh_next (nextp h p v) = (lh_next h)(p \<mapsto> v)" "lh_prev (nextp h p v) = lh_prev h"
  "lh_next (prevp h p v) = lh_next h" "lh_prev (prevp h p v) = (lh_prev h)(p \<mapsto> v)"
  by (simp_all add: nextp_def prevp_def)

lemma node_store [simp]: "node h p \<Longrightarrow> node (nextp h p v) q \<longleftrightarrow> node h q" "node h p \<Longrightarrow> node (prevp h p v) q \<longleftrightarrow> node h q"
  by (auto simp: node_def)

lemma set_ok [simp]: "node h p \<Longrightarrow> set_next h p v = Inr (nextp h p v)" "node h p \<Longrightarrow> set_prev h p v = Inr (prevp h p v)"
  by (auto simp: node_def set_next_def set_prev_def get_next_def get_prev_def field_at_def nextp_def prevp_def)

lemma get_ok: "node h p \<Longrightarrow> lh_next h p = Some v \<Longrightarrow> get_next h p = Inr v" "node h p \<Longrightarrow> lh_prev h p = Some v \<Longrightarrow> get_prev h p = Inr v"
  by (simp_all add: node_def get_next_def get_prev_def field_at_def)

lemma linked_next [simp]: "x \<notin> set (butlast zs) \<Longrightarrow> linked (nextp h x v) zs \<longleftrightarrow> linked h zs"
  by (induction h zs rule: linked.induct) auto

lemma linked_prev [simp]: "x \<notin> set (tl zs) \<Longrightarrow> linked (prevp h x v) zs \<longleftrightarrow> linked h zs"
  by (induction h zs rule: linked.induct) auto

lemma linked_off [simp]: "x \<notin> set zs \<Longrightarrow> linked (nextp h x v) zs \<longleftrightarrow> linked h zs" "x \<notin> set zs \<Longrightarrow> linked (prevp h x v) zs \<longleftrightarrow> linked h zs"
  by (induction h zs rule: linked.induct) auto

lemma linked_append:
  "as \<noteq> [] \<Longrightarrow> bs \<noteq> [] \<Longrightarrow>
   linked h (as @ bs) \<longleftrightarrow> linked h as \<and> linked h bs \<and> lh_next h (last as) = Some (hd bs) \<and> lh_prev h (hd bs) = Some (last as)"
proof (induction h as rule: linked.induct)
  case (2 h x)
  then show ?case by (cases bs) auto
qed auto

lemma linked_cong:
  "(\<And>p. p \<in> set zs \<Longrightarrow> lh_next h' p = lh_next h p \<and> lh_prev h' p = lh_prev h p) \<Longrightarrow> linked h' zs \<longleftrightarrow> linked h zs"
  by (induction h zs rule: linked.induct) auto

lemma circ_frame: "circ h head xs \<Longrightarrow> frame S h h' \<Longrightarrow> S \<inter> set (head # xs) = {} \<Longrightarrow> circ h' head xs"
  unfolding circ_def frame_def by (subst linked_cong [of _ h' h]) auto

lemma frame_refl: "frame S h h"
  by (simp add: frame_def)

lemma frame_trans: "frame S h h' \<Longrightarrow> frame T h' h'' \<Longrightarrow> frame (S \<union> T) h h''"
  by (simp add: frame_def)

lemma frame_mono: "frame S h h' \<Longrightarrow> S \<subseteq> T \<Longrightarrow> frame T h h'"
  by (auto simp: frame_def)

lemma frame_next [intro]: "frame S h h' \<Longrightarrow> node h' p \<Longrightarrow> p \<in> S \<Longrightarrow> frame S h (nextp h' p v)"
  by (auto simp: frame_def)

lemma frame_prev [intro]: "frame S h h' \<Longrightarrow> node h' p \<Longrightarrow> p \<in> S \<Longrightarrow> frame S h (prevp h' p v)"
  by (auto simp: frame_def)

lemma circ_split:
  "circ h head (ys @ zs) \<longleftrightarrow> linked h (head # ys) \<and> linked h (zs @ [head]) \<and>
     lh_next h (last (head # ys)) = Some (hd (zs @ [head])) \<and> lh_prev h (hd (zs @ [head])) = Some (last (head # ys)) \<and>
     distinct (head # ys @ zs) \<and> (\<forall>p \<in> set (head # ys @ zs). node h p)"
proof -
  have "head # (ys @ zs) @ [head] = (head # ys) @ (zs @ [head])" by simp
  then have "linked h (head # (ys @ zs) @ [head]) \<longleftrightarrow> linked h (head # ys) \<and> linked h (zs @ [head]) \<and>
      lh_next h (last (head # ys)) = Some (hd (zs @ [head])) \<and> lh_prev h (hd (zs @ [head])) = Some (last (head # ys))"
    using linked_append [of "head # ys" "zs @ [head]" h] by (simp only:) blast
  then show ?thesis unfolding circ_def by blast
qed

text \<open>The neighbours of a gap in a circle, and what lies on its two sides.\<close>

lemma gap:
  assumes "circ h head (ys @ zs)"
  defines "p \<equiv> last (head # ys)" and "n \<equiv> hd (zs @ [head])"
  shows "p \<in> set (head # ys)" "n \<in> set (zs @ [head])" "p \<notin> set (butlast (head # ys))" "p \<notin> set zs" "n \<notin> set ys" "n \<notin> set (tl (zs @ [head]))"
    "node h p" "node h n"
proof -
  have d: "distinct (head # ys @ zs)" "\<forall>q \<in> set (head # ys @ zs). node h q" using assms(1) by (simp_all add: circ_def)
  show p: "p \<in> set (head # ys)" unfolding p_def by (rule last_in_set) simp
  show n: "n \<in> set (zs @ [head])" unfolding n_def by (cases zs) simp_all
  have "distinct (butlast (head # ys) @ [p])" using d(1) by (simp add: p_def del: butlast.simps last.simps)
  then show "p \<notin> set (butlast (head # ys))" by simp
  show "p \<notin> set zs" using p d(1) by auto
  show "n \<notin> set ys" using n d(1) by auto
  have "distinct (zs @ [head])" using d(1) by auto
  then show "n \<notin> set (tl (zs @ [head]))" unfolding n_def by (cases zs) simp_all
  show "node h p" "node h n" using p n d(2) by auto
qed

lemma list_add_ok:
  assumes c: "circ h head (ys @ zs)" and new: "node h new" "new \<notin> set (head # ys @ zs)"
  shows "\<exists>h'. list_add_between h new (last (head # ys)) (hd (zs @ [head])) = Inr h' \<and> circ h' head (ys @ new # zs) \<and>
    frame (set (new # head # ys @ zs)) h h'"
proof -
  define p where "p = last (head # ys)"
  define n where "n = hd (zs @ [head])"
  note g = gap [OF c, folded p_def n_def]
  let ?h = "nextp (prevp (nextp (prevp h n new) new n) new p) p new"
  have ne: "new \<noteq> p" "new \<noteq> n" "new \<notin> set (butlast (head # ys))" using new(2) g(1,2) by (auto dest: in_set_butlastD)
  have l: "linked h (head # ys)" "linked h (zs @ [head])" using c unfolding circ_split by auto
  have "linked ?h (head # ys)" using l(1) g ne new(2) by (simp del: linked.simps)
  moreover have "linked ?h (zs @ [head])" using l(2) g(4,6) ne new(2) by (simp del: linked.simps)
  moreover have "lh_next ?h p = Some new" "lh_prev ?h new = Some p" "lh_next ?h new = Some n" "lh_prev ?h n = Some new" using ne by auto
  ultimately have "circ ?h head (ys @ new # zs)"
    using c new g(7,8) unfolding circ_split p_def [symmetric] by (cases zs) (auto simp: n_def)
  moreover have "list_add_between h new p n = Inr ?h" using g(7,8) new(1) by (simp add: list_add_between_def)
  moreover have "frame (set (new # head # ys @ zs)) h ?h"
    using g(1,2,7,8) new(1) by (intro frame_next frame_prev frame_refl) auto
  ultimately show ?thesis unfolding p_def n_def by blast
qed

lemma list_del_ok:
  assumes c: "circ h head (ys @ x # zs)"
  shows "\<exists>h'. list_del_entry h x = Inr h' \<and> circ h' head (ys @ zs) \<and> frame (set (head # ys @ zs)) h h'"
proof -
  define p where "p = last (head # ys)"
  define n where "n = hd (zs @ [head])"
  have d: "distinct (head # ys @ x # zs)" "\<forall>q \<in> set (head # ys @ x # zs). node h q" using c by (simp_all add: circ_def)
  note g = gap [OF c, folded p_def]
  have c2: "circ h head ((ys @ [x]) @ zs)" using c by simp
  note g2 = gap [OF c2, folded n_def]
  have l: "linked h (head # ys)" "linked h (zs @ [head])" "lh_prev h x = Some p" "lh_next h x = Some n"
    using c c2 unfolding circ_split p_def n_def by auto
  let ?h = "nextp (prevp h n p) p n"
  have "linked ?h (head # ys)" using l(1) g(3) g2(5) by (simp del: linked.simps)
  moreover have "linked ?h (zs @ [head])" using l(2) g(4) g2(6) by (simp del: linked.simps)
  ultimately have "circ ?h head (ys @ zs)" using d g(7) g2(8) unfolding circ_split p_def [symmetric] n_def [symmetric] by auto
  moreover have "list_del_entry h x = Inr ?h" using l(3,4) d(2) g(7) g2(8) by (simp add: list_del_entry_def get_ok list_del_between_def)
  moreover have "frame (set (head # ys @ zs)) h ?h"
    using g(1,7) g2(2,8) by (intro frame_next frame_prev frame_refl) auto
  ultimately show ?thesis by blast
qed

lemma init_ok: "node h l \<Longrightarrow> \<exists>h'. INIT_LIST_HEAD h l = Inr h' \<and> circ h' l [] \<and> frame {l} h h'"
  by (auto simp: INIT_LIST_HEAD_def circ_def intro!: frame_next frame_prev frame_refl)

lemma list_splice_ok:
  assumes c: "circ h head (ys @ zs)" and l: "circ h l xs" "xs \<noteq> []" and dis: "set (l # xs) \<inter> set (head # ys @ zs) = {}"
  shows "\<exists>h'. list_splice_between h l (last (head # ys)) (hd (zs @ [head])) = Inr h' \<and> circ h' head (ys @ xs @ zs) \<and>
    frame (set (xs @ head # ys @ zs)) h h'"
proof -
  define p where "p = last (head # ys)"
  define n where "n = hd (zs @ [head])"
  note g = gap [OF c, folded p_def n_def]
  have lx: "linked h (l # xs)" "linked h (xs @ [l])" using l(1) circ_split [of h l "[]" xs] circ_split [of h l xs "[]"] by auto
  have d: "distinct (l # xs)" "\<forall>q \<in> set (l # xs). node h q" using l(1) by (simp_all add: circ_def)
  have f: "lh_next h l = Some (hd xs)" "lh_prev h l = Some (last xs)"
    using circ_split [of h l "[]" xs] circ_split [of h l xs "[]"] l by auto
  have hl: "hd xs \<in> set xs" "last xs \<in> set xs" using l(2) by simp_all
  have xs: "linked h xs" using lx(1) l(2) by (cases xs) auto
  let ?h = "prevp (nextp (nextp (prevp h (hd xs) p) p (hd xs)) (last xs) n) n (last xs)"
  have nx: "p \<notin> set xs" "n \<notin> set xs" using g(1,2) dis by auto
  have lb: "last xs \<notin> set (butlast xs)" "hd xs \<notin> set (tl xs)"
  proof -
    have "distinct (butlast xs @ [last xs])" "distinct (hd xs # tl xs)" using d(1) l(2) by simp_all
    then show "last xs \<notin> set (butlast xs)" "hd xs \<notin> set (tl xs)" by simp_all
  qed
  have off: "hd xs \<notin> set (head # ys)" "hd xs \<notin> set (zs @ [head])" "last xs \<notin> set (head # ys)" "last xs \<notin> set (zs @ [head])"
    using hl dis by auto
  have ends: "linked ?h (head # ys)" "linked ?h (zs @ [head])" "linked ?h xs"
    using c g off xs lb nx unfolding circ_split by (simp_all del: linked.simps)
  moreover have at: "lh_next ?h p = Some (hd xs)" "lh_prev ?h (hd xs) = Some p" "lh_next ?h (last xs) = Some n" "lh_prev ?h n = Some (last xs)"
    using nx hl by auto
  ultimately have "linked ?h ((xs @ zs) @ [head])" using l(2) by (simp add: linked_append n_def)
  then have "circ ?h head (ys @ xs @ zs)" using ends at c d dis l(2) g(7,8) hl unfolding circ_split p_def [symmetric] by auto
  moreover have "list_splice_between h l p n = Inr ?h" using f d(2) g(7,8) hl by (simp add: list_splice_between_def get_ok)
  moreover have "frame (set (xs @ head # ys @ zs)) h ?h"
    using g(1,2,7,8) d(2) hl by (intro frame_next frame_prev frame_refl) auto
  ultimately show ?thesis unfolding p_def n_def by blast
qed

lemma list_cut_ok:
  assumes c: "circ h head (ys @ e # zs)" and l: "node h l" "l \<notin> set (head # ys @ e # zs)"
  shows "\<exists>h'. list_cut_at h l head e = Inr h' \<and> circ h' l (ys @ [e]) \<and> circ h' head zs \<and> frame (set (l # head # ys @ e # zs)) h h'"
proof -
  define n where "n = hd (zs @ [head])"
  define f where "f = hd (ys @ [e])"
  have d: "distinct (head # ys @ e # zs)" "\<forall>q \<in> set (head # ys @ e # zs). node h q" using c by (simp_all add: circ_def)
  have c1: "circ h head ([] @ ys @ e # zs)" and c2: "circ h head ((ys @ [e]) @ zs)" using c by simp_all
  note g = gap [OF c2, folded n_def]
  have f: "f \<in> set (ys @ [e])" "f \<notin> set (tl (ys @ [e]))" "lh_next h head = Some f"
    using d(1) c1 unfolding circ_split f_def by (cases ys; auto)+
  have n: "n \<in> set (zs @ [head])" "lh_next h e = Some n" using g(2) c2 unfolding circ_split n_def by auto
  have lk: "linked h (ys @ [e])" "linked h (zs @ [head])"
    using c2 linked_append [of "[head]" "ys @ [e]" h] unfolding circ_split by auto
  define k where "k = prevp (nextp (nextp (prevp (prevp (nextp h l f) f l) l e) e l) head n) n head"
  have off: "f \<notin> set (zs @ [head])" "e \<notin> set (zs @ [head])" "e \<notin> set ys" "head \<notin> set (ys @ [e])" using f(1) d(1) by auto
  have nodes: "node h f" "node h n" "node h e" "node h head" using d(2) f(1) g(8) by auto
  have lk': "linked k (ys @ [e])" "linked k (zs @ [head])"
    unfolding k_def using lk f(2) g(5,6) l(2) d(1) off by simp_all
  have fld: "lh_next k l = Some f" "lh_prev k f = Some l" "lh_next k e = Some l" "lh_prev k l = Some e"
    "lh_next k head = Some n" "lh_prev k n = Some head"
    unfolding k_def using l(2) d(1) f(1) n(1) g(5) by auto
  have nd: "node k q \<longleftrightarrow> node h q" for q unfolding k_def using l(1) nodes by simp
  have hf: "hd ((ys @ [e]) @ [l]) = f" by (cases ys) (simp_all add: f_def)
  have "linked k ((ys @ [e]) @ [l])" using linked_append [of "ys @ [e]" "[l]" k] lk'(1) fld by simp
  then have "circ k l (ys @ [e])" using circ_split [of k l "[]" "ys @ [e]"] fld hf l d nd by simp
  moreover have "circ k head zs" using circ_split [of k head "[]" zs] lk'(2) fld d nd unfolding n_def [symmetric] by simp
  moreover have "list_cut_at h l head e = Inr k" "frame (set (l # head # ys @ e # zs)) h k"
    unfolding k_def using l f n nodes by (auto simp: list_cut_at_def get_ok intro!: frame_next frame_prev frame_refl)
  ultimately show ?thesis by blast
qed

lemma list_replace_ok:
  assumes c: "circ h head (ys @ old # zs)" and new: "node h new" "new \<notin> set (head # ys @ old # zs)"
  shows "\<exists>h'. list_replace h old new = Inr h' \<and> circ h' head (ys @ new # zs) \<and> frame (set (new # head # ys @ zs)) h h'"
proof -
  define p where "p = last (head # ys)"
  define n where "n = hd (zs @ [head])"
  have d: "distinct (head # ys @ old # zs)" "\<forall>q \<in> set (head # ys @ old # zs). node h q" using c by (simp_all add: circ_def)
  note g = gap [OF c, folded p_def]
  have c2: "circ h head ((ys @ [old]) @ zs)" using c by simp
  note g2 = gap [OF c2, folded n_def]
  have l: "linked h (head # ys)" "linked h (zs @ [head])" "lh_prev h old = Some p" "lh_next h old = Some n"
    using c c2 unfolding circ_split p_def n_def by auto
  have ne: "new \<noteq> p" "new \<noteq> n" "old \<noteq> n" "old \<noteq> new" using new(2) g(1) g2(2,5) by auto
  let ?h = "nextp (prevp (prevp (nextp h new n) n new) new p) p new"
  have "linked ?h (head # ys)" using l(1) g(3) g2(5) ne new(2) by (simp del: linked.simps)
  moreover have "linked ?h (zs @ [head])" using l(2) g(4) g2(6) ne new(2) by (simp del: linked.simps)
  moreover have "lh_next ?h p = Some new" "lh_prev ?h new = Some p" "lh_next ?h new = Some n" "lh_prev ?h n = Some new" using ne by auto
  ultimately have "circ ?h head (ys @ new # zs)"
    using d new g(7) g2(8) unfolding circ_split p_def [symmetric] by (cases zs) (auto simp: n_def)
  moreover have "list_replace h old new = Inr ?h" using l(3,4) d(2) g(7) g2(8) new(1) ne by (simp add: list_replace_def get_ok)
  moreover have "frame (set (new # head # ys @ zs)) h ?h"
    using g(1,7) g2(2,8) new(1) by (intro frame_next frame_prev frame_refl) auto
  ultimately show ?thesis by blast
qed

section \<open>The operations on lists\<close>

text \<open>A call returns, its result satisfies \<open>P\<close>, and it has changed no other node than those in \<open>S\<close>.\<close>

definition yields :: "lheap \<Rightarrow> nat set \<Rightarrow> lheap res \<Rightarrow> (lheap \<Rightarrow> bool) \<Rightarrow> bool" where
  "yields h S r P \<longleftrightarrow> (\<exists>h'. r = Inr h' \<and> P h' \<and> frame S h h')"

lemma yieldsI: "r = Inr h' \<Longrightarrow> P h' \<Longrightarrow> frame S h h' \<Longrightarrow> yields h S r P"
  by (auto simp: yields_def)

lemma yields_bind:
  assumes "yields h S r P" "\<And>h'. P h' \<Longrightarrow> frame S h h' \<Longrightarrow> yields h' T (f h') Q" "S \<union> T \<subseteq> U"
  shows "yields h U (rbind r f) Q"
proof -
  obtain h' where h': "r = Inr h'" "P h'" "frame S h h'" using assms(1) by (auto simp: yields_def)
  obtain h'' where h'': "f h' = Inr h''" "Q h''" "frame T h' h''" using assms(2) [OF h'(2,3)] by (auto simp: yields_def)
  have "frame U h h''" using frame_trans [OF h'(3) h''(3)] assms(3) by (rule frame_mono)
  then show ?thesis using h' h'' by (auto simp: yields_def)
qed

lemma circ_head: "circ h head xs \<Longrightarrow> node h head \<and> get_next h head = Inr (hd (xs @ [head])) \<and> get_prev h head = Inr (last (head # xs))"
proof -
  assume c: "circ h head xs"
  then have "node h head" by (simp add: circ_def)
  moreover have "lh_next h head = Some (hd (xs @ [head]))" using c circ_split [of h head "[]" xs] by simp
  moreover have "lh_prev h head = Some (last (head # xs))" using c circ_split [of h head xs "[]"] by simp
  ultimately show ?thesis by (simp add: get_ok)
qed

lemma list_empty_ok: "circ h head xs \<Longrightarrow> list_empty h head = Inr (xs = [])"
proof -
  assume c: "circ h head xs"
  have "head \<notin> set xs" using c by (simp add: circ_def)
  moreover have "get_next h head = Inr (hd (xs @ [head]))" using circ_head [OF c] by simp
  ultimately show ?thesis by (cases xs) (auto simp: list_empty_def)
qed

lemma list_add_circ:
  assumes "circ h head xs" "node h new" "new \<notin> set (head # xs)"
  shows "yields h (set (new # head # xs)) (list_add h new head) (\<lambda>h'. circ h' head (new # xs))"
  using list_add_ok [of h head "[]" xs new] assms circ_head [OF assms(1)] by (auto simp: yields_def list_add_def)

lemma list_add_tail_circ:
  assumes "circ h head xs" "node h new" "new \<notin> set (head # xs)"
  shows "yields h (set (new # head # xs)) (list_add_tail h new head) (\<lambda>h'. circ h' head (xs @ [new]))"
  using list_add_ok [of h head xs "[]" new] assms circ_head [OF assms(1)] by (auto simp: yields_def list_add_tail_def)

lemma list_del_entry_circ:
  assumes "circ h head (ys @ x # zs)"
  shows "yields h (set (head # ys @ zs)) (list_del_entry h x) (\<lambda>h'. circ h' head (ys @ zs) \<and> node h' x)"
proof -
  have "node h x" using assms by (simp add: circ_def)
  then show ?thesis using list_del_ok [OF assms] by (auto simp: yields_def frame_def)
qed

lemma init_circ: "node h l \<Longrightarrow> yields h {l} (INIT_LIST_HEAD h l) (\<lambda>h'. circ h' l [])"
  using init_ok by (auto simp: yields_def)

lemma yields_keep:
  assumes "yields h S r P" "circ h head xs" "S \<inter> set (head # xs) = {}"
  shows "yields h S r (\<lambda>h'. P h' \<and> circ h' head xs)"
  using assms circ_frame by (auto simp: yields_def)

lemma list_move_circ:
  assumes "circ h head (ys @ x # zs)" "circ h l ls" "set (l # ls) \<inter> set (head # ys @ x # zs) = {}"
  shows "yields h (set (head # l # ys @ x # zs @ ls)) (list_move h x l) (\<lambda>h'. circ h' head (ys @ zs) \<and> circ h' l (x # ls))"
    and "yields h (set (head # l # ys @ x # zs @ ls)) (list_move_tail h x l) (\<lambda>h'. circ h' head (ys @ zs) \<and> circ h' l (ls @ [x]))"
proof -
  have d: "distinct (head # ys @ x # zs)" using assms(1) by (simp add: circ_def)
  have del: "yields h (set (head # ys @ zs)) (list_del_entry h x) (\<lambda>h'. (circ h' head (ys @ zs) \<and> node h' x) \<and> circ h' l ls)"
    using assms by (intro yields_keep list_del_entry_circ) auto
  have new: "x \<notin> set (l # ls)" using assms(3) by auto
  show "yields h (set (head # l # ys @ x # zs @ ls)) (list_move h x l) (\<lambda>h'. circ h' head (ys @ zs) \<and> circ h' l (x # ls))"
    unfolding list_move_def
  proof (rule yields_bind [OF del, where T = "set (x # l # ls)"])
    fix h' assume h': "(circ h' head (ys @ zs) \<and> node h' x) \<and> circ h' l ls"
    then have "yields h' (set (x # l # ls)) (list_add h' x l) (\<lambda>h''. circ h'' l (x # ls))" using new by (intro list_add_circ) auto
    then have "yields h' (set (x # l # ls)) (list_add h' x l) (\<lambda>h''. circ h'' l (x # ls) \<and> circ h'' head (ys @ zs))"
      by (rule yields_keep) (use h' d assms(3) in auto)
    then show "yields h' (set (x # l # ls)) (list_add h' x l) (\<lambda>h''. circ h'' head (ys @ zs) \<and> circ h'' l (x # ls))"
      by (simp only: conj_commute)
  qed auto
  show "yields h (set (head # l # ys @ x # zs @ ls)) (list_move_tail h x l) (\<lambda>h'. circ h' head (ys @ zs) \<and> circ h' l (ls @ [x]))"
    unfolding list_move_tail_def
  proof (rule yields_bind [OF del, where T = "set (x # l # ls)"])
    fix h' assume h': "(circ h' head (ys @ zs) \<and> node h' x) \<and> circ h' l ls"
    then have "yields h' (set (x # l # ls)) (list_add_tail h' x l) (\<lambda>h''. circ h'' l (ls @ [x]))" using new by (intro list_add_tail_circ) auto
    then have "yields h' (set (x # l # ls)) (list_add_tail h' x l) (\<lambda>h''. circ h'' l (ls @ [x]) \<and> circ h'' head (ys @ zs))"
      by (rule yields_keep) (use h' d assms(3) in auto)
    then show "yields h' (set (x # l # ls)) (list_add_tail h' x l) (\<lambda>h''. circ h'' head (ys @ zs) \<and> circ h'' l (ls @ [x]))"
      by (simp only: conj_commute)
  qed auto
qed

lemma list_del_circ:
  assumes "circ h head (ys @ x # zs)"
  shows "yields h (set (head # ys @ x # zs)) (list_del h x)
      (\<lambda>h'. circ h' head (ys @ zs) \<and> lh_next h' x = Some LIST_POISON1 \<and> lh_prev h' x = Some LIST_POISON2)"
    and "yields h (set (head # ys @ x # zs)) (list_del_init h x) (\<lambda>h'. circ h' head (ys @ zs) \<and> circ h' x [])"
proof -
  have d: "distinct (head # ys @ x # zs)" using assms by (simp add: circ_def)
  note del = list_del_entry_circ [OF assms]
  show "yields h (set (head # ys @ x # zs)) (list_del h x)
      (\<lambda>h'. circ h' head (ys @ zs) \<and> lh_next h' x = Some LIST_POISON1 \<and> lh_prev h' x = Some LIST_POISON2)"
    unfolding list_del_def
  proof (rule yields_bind [OF del, where T = "{x}"])
    fix h' assume h': "circ h' head (ys @ zs) \<and> node h' x"
    let ?k = "prevp (nextp h' x LIST_POISON1) x LIST_POISON2"
    have f: "frame {x} h' ?k" using h' by (intro frame_next frame_prev frame_refl) auto
    have "circ ?k head (ys @ zs)" using h' d by (intro circ_frame [OF _ f]) auto
    then show "yields h' {x} (rbind (set_next h' x LIST_POISON1) (\<lambda>h. set_prev h x LIST_POISON2))
        (\<lambda>h'. circ h' head (ys @ zs) \<and> lh_next h' x = Some LIST_POISON1 \<and> lh_prev h' x = Some LIST_POISON2)"
      using h' f by (intro yieldsI [where h' = ?k]) auto
  qed auto
  show "yields h (set (head # ys @ x # zs)) (list_del_init h x) (\<lambda>h'. circ h' head (ys @ zs) \<and> circ h' x [])"
    unfolding list_del_init_def
  proof (rule yields_bind [OF del, where T = "{x}"])
    fix h' assume h': "circ h' head (ys @ zs) \<and> node h' x"
    then have "yields h' {x} (INIT_LIST_HEAD h' x) (\<lambda>h''. circ h'' x [] \<and> circ h'' head (ys @ zs))"
      using d by (intro yields_keep init_circ) auto
    then show "yields h' {x} (INIT_LIST_HEAD h' x) (\<lambda>h''. circ h'' head (ys @ zs) \<and> circ h'' x [])" by (simp only: conj_commute)
  qed auto
qed

lemma list_rotate_circ:
  assumes "circ h head (x # xs)"
  shows "yields h (set (head # x # xs)) (list_rotate_left h head) (\<lambda>h'. circ h' head (xs @ [x]))"
proof -
  have d: "distinct (head # x # xs)" using assms by (simp add: circ_def)
  have "yields h (set (head # [] @ xs)) (list_del_entry h x) (\<lambda>h'. circ h' head ([] @ xs) \<and> node h' x)"
    by (rule list_del_entry_circ) (use assms in simp)
  then have "yields h (set (head # x # xs)) (list_move_tail h x head) (\<lambda>h'. circ h' head (xs @ [x]))"
    unfolding list_move_tail_def
    by (rule yields_bind [where T = "set (x # head # xs)"]) (use d list_add_tail_circ [of _ head xs x] in auto)
  then show ?thesis using circ_head [OF assms] list_empty_ok [OF assms] by (simp add: list_rotate_left_def)
qed

lemma list_splice_circ:
  assumes "circ h l ls" "circ h head xs" "set (l # ls) \<inter> set (head # xs) = {}"
  shows "yields h (set (l # ls @ head # xs)) (list_splice_init h l head) (\<lambda>h'. circ h' head (ls @ xs) \<and> circ h' l [])"
    and "yields h (set (l # ls @ head # xs)) (list_splice_tail_init h l head) (\<lambda>h'. circ h' head (xs @ ls) \<and> circ h' l [])"
proof -
  note e = list_empty_ok [OF assms(1)]
  have nl: "node h l" "l \<notin> set ls" using assms(1) by (simp_all add: circ_def)
  have init: "yields h' {l} (INIT_LIST_HEAD h' l) (\<lambda>h''. circ h'' head zs \<and> circ h'' l [])"
    if "circ h' head zs \<and> node h' l" "set zs = set ls \<union> set xs" for h' zs
  proof -
    have "yields h' {l} (INIT_LIST_HEAD h' l) (\<lambda>h''. circ h'' l [] \<and> circ h'' head zs)"
      using that assms(3) nl(2) by (intro yields_keep init_circ) auto
    then show ?thesis by (simp only: conj_commute)
  qed
  show "yields h (set (l # ls @ head # xs)) (list_splice_init h l head) (\<lambda>h'. circ h' head (ls @ xs) \<and> circ h' l [])"
  proof (cases "ls = []")
    case True
    then show ?thesis using assms e by (auto simp: list_splice_init_def intro: yieldsI frame_refl)
  next
    case False
    have "yields h (set (ls @ head # xs)) (list_splice_between h l head (hd (xs @ [head]))) (\<lambda>h'. circ h' head (ls @ xs) \<and> node h' l)"
      using list_splice_ok [of h head "[]" xs l ls] assms False nl by (auto simp: yields_def frame_def)
    then have "yields h (set (l # ls @ head # xs)) (rbind (list_splice_between h l head (hd (xs @ [head]))) (\<lambda>h. INIT_LIST_HEAD h l))
        (\<lambda>h'. circ h' head (ls @ xs) \<and> circ h' l [])" by (rule yields_bind [where T = "{l}"]) (auto intro!: init)
    then show ?thesis using e False circ_head [OF assms(2)] by (simp add: list_splice_init_def)
  qed
  show "yields h (set (l # ls @ head # xs)) (list_splice_tail_init h l head) (\<lambda>h'. circ h' head (xs @ ls) \<and> circ h' l [])"
  proof (cases "ls = []")
    case True
    then show ?thesis using assms e by (auto simp: list_splice_tail_init_def intro: yieldsI frame_refl)
  next
    case False
    have "yields h (set (ls @ head # xs)) (list_splice_between h l (last (head # xs)) head) (\<lambda>h'. circ h' head (xs @ ls) \<and> node h' l)"
      using list_splice_ok [of h head xs "[]" l ls] assms False nl by (auto simp: yields_def frame_def)
    then have "yields h (set (l # ls @ head # xs)) (rbind (list_splice_between h l (last (head # xs)) head) (\<lambda>h. INIT_LIST_HEAD h l))
        (\<lambda>h'. circ h' head (xs @ ls) \<and> circ h' l [])" by (rule yields_bind [where T = "{l}"]) (auto intro!: init)
    then show ?thesis using e False circ_head [OF assms(2)] by (simp add: list_splice_tail_init_def)
  qed
qed

lemma circ_entry:
  assumes "circ h head (ys @ x # zs)"
  shows "get_next h x = Inr (hd (zs @ [head]))" and "get_prev h x = Inr (last (head # ys))"
proof -
  have c2: "circ h head ((ys @ [x]) @ zs)" using assms by simp
  have "node h x" using assms by (simp add: circ_def)
  moreover have "lh_next h x = Some (hd (zs @ [head]))" "lh_prev h x = Some (last (head # ys))" using assms c2 unfolding circ_split by auto
  ultimately show "get_next h x = Inr (hd (zs @ [head]))" "get_prev h x = Inr (last (head # ys))" by (simp_all add: get_ok)
qed

lemma list_tests_ok:
  assumes "circ h head xs"
  shows "list_is_singular h head = Inr (length xs = 1)" and "list_empty_careful h head = Inr (xs = [])"
proof -
  have h: "head \<notin> set xs" "distinct xs" using assms by (simp_all add: circ_def)
  have n: "get_next h head = Inr (hd (xs @ [head]))" "get_prev h head = Inr (last (head # xs))" using circ_head [OF assms] by auto
  have "hd xs = last xs \<longleftrightarrow> length xs = 1" if "xs \<noteq> []"
  proof (cases xs rule: rev_cases)
    case (snoc ys y)
    then show ?thesis using h(2) by (cases ys) auto
  qed (use that in simp)
  then show "list_is_singular h head = Inr (length xs = 1)" using n list_empty_ok [OF assms] by (cases xs) (auto simp: list_is_singular_def)
  show "list_empty_careful h head = Inr (xs = [])" using n h(1) by (cases xs) (auto simp: list_empty_careful_def)
qed

lemma list_is_last_ok:
  assumes "circ h head (ys @ x # zs)"
  shows "list_is_last h x head = Inr (zs = [])"
proof -
  have "head \<notin> set zs" using assms by (simp add: circ_def)
  then show ?thesis using circ_entry(1) [OF assms] by (cases zs) (auto simp: list_is_last_def)
qed

lemma list_cut_circ:
  assumes "circ h head (ys @ e # zs)" "node h l" "l \<notin> set (head # ys @ e # zs)"
  shows "yields h (set (l # head # ys @ e # zs)) (list_cut_position h l head e) (\<lambda>h'. circ h' l (ys @ [e]) \<and> circ h' head zs)"
proof -
  have ne: "e \<noteq> head" using assms(1) by (auto simp: circ_def)
  have n: "get_next h head = Inr (hd ((ys @ e # zs) @ [head]))" using circ_head [OF assms(1)] by simp
  have sing: "list_is_singular h head = Inr (ys = [] \<and> zs = [])" using list_tests_ok(1) [OF assms(1)] by (auto simp: length_0_conv)
  have "list_cut_position h l head e = list_cut_at h l head e"
    using list_empty_ok [OF assms(1)] n ne sing by (auto simp: list_cut_position_def)
  then show ?thesis using list_cut_ok [OF assms] by (auto simp: yields_def)
qed

lemma list_replace_circ:
  assumes "circ h head (ys @ old # zs)" "node h new" "new \<notin> set (head # ys @ old # zs)"
  shows "yields h (set (new # head # ys @ old # zs)) (list_replace_init h old new) (\<lambda>h'. circ h' head (ys @ new # zs) \<and> circ h' old [])"
proof -
  have d: "distinct (head # ys @ old # zs)" "node h old" using assms(1) by (simp_all add: circ_def)
  have "yields h (set (new # head # ys @ zs)) (list_replace h old new) (\<lambda>h'. circ h' head (ys @ new # zs) \<and> node h' old)"
    using list_replace_ok [OF assms] d(2) by (auto simp: yields_def frame_def)
  then show ?thesis unfolding list_replace_init_def
  proof (rule yields_bind [where T = "{old}"])
    fix h' assume "circ h' head (ys @ new # zs) \<and> node h' old"
    then have "yields h' {old} (INIT_LIST_HEAD h' old) (\<lambda>h''. circ h'' old [] \<and> circ h'' head (ys @ new # zs))"
      using d(1) assms(3) by (intro yields_keep init_circ) auto
    then show "yields h' {old} (INIT_LIST_HEAD h' old) (\<lambda>h''. circ h'' head (ys @ new # zs) \<and> circ h'' old [])" by (simp only: conj_commute)
  qed auto
qed

section \<open>A list as a queue of nodes\<close>

text \<open>
  A client that appends nodes and takes them from the front relies on these two laws; it then gets the nodes back in the order
  in which it put them in.
\<close>

fun push_all :: "('h \<Rightarrow> nat \<Rightarrow> 'h res) \<Rightarrow> 'h \<Rightarrow> nat list \<Rightarrow> 'h res" where
  "push_all push h [] = Inr h"
| "push_all push h (x # xs) = rbind (push h x) (\<lambda>h. push_all push h xs)"

fun pop_all :: "('h \<Rightarrow> (nat \<times> 'h) res) \<Rightarrow> 'h \<Rightarrow> nat \<Rightarrow> (nat list \<times> 'h) res" where
  "pop_all pop h 0 = Inr ([], h)"
| "pop_all pop h (Suc n) = rbind (pop h) (\<lambda>(x, h). rbind (pop_all pop h n) (\<lambda>(xs, h). Inr (x # xs, h)))"

locale node_queue =
  fixes rep :: "'h \<Rightarrow> nat list \<Rightarrow> bool" and loose :: "'h \<Rightarrow> nat \<Rightarrow> bool"
    and push :: "'h \<Rightarrow> nat \<Rightarrow> 'h res" and pop :: "'h \<Rightarrow> (nat \<times> 'h) res"
  assumes push: "rep h xs \<Longrightarrow> loose h x \<Longrightarrow> x \<notin> set xs \<Longrightarrow>
      \<exists>h'. push h x = Inr h' \<and> rep h' (xs @ [x]) \<and> (\<forall>y. loose h y \<longrightarrow> loose h' y)"
    and pop: "rep h (x # xs) \<Longrightarrow> \<exists>h'. pop h = Inr (x, h') \<and> rep h' xs"
begin

lemma push_all_rep:
  "rep h xs \<Longrightarrow> \<forall>y \<in> set ys. loose h y \<Longrightarrow> distinct (xs @ ys) \<Longrightarrow> \<exists>h'. push_all push h ys = Inr h' \<and> rep h' (xs @ ys)"
proof (induction ys arbitrary: h xs)
  case (Cons y ys)
  obtain h' where h': "push h y = Inr h'" "rep h' (xs @ [y])" "\<forall>z. loose h z \<longrightarrow> loose h' z"
    using push [OF Cons.prems(1), of y] Cons.prems by auto
  then have "\<exists>h''. push_all push h' ys = Inr h'' \<and> rep h'' ((xs @ [y]) @ ys)" using Cons.prems by (intro Cons.IH) auto
  then show ?case using h'(1) by simp
qed simp

lemma pop_all_rep: "rep h (xs @ ys) \<Longrightarrow> \<exists>h'. pop_all pop h (length xs) = Inr (xs, h') \<and> rep h' ys"
proof (induction xs arbitrary: h)
  case (Cons x xs)
  obtain h' where "pop h = Inr (x, h')" "rep h' (xs @ ys)" using pop [of h x "xs @ ys"] Cons.prems by auto
  then show ?case using Cons.IH by fastforce
qed simp

lemma fifo:
  assumes "rep h []" "\<forall>x \<in> set xs. loose h x" "distinct xs"
  shows "\<exists>h' h''. push_all push h xs = Inr h' \<and> pop_all pop h' (length xs) = Inr (xs, h'') \<and> rep h'' []"
proof -
  obtain h' where "push_all push h xs = Inr h'" "rep h' (xs @ [])" using push_all_rep [of h "[]" xs] assms by auto
  then show ?thesis using pop_all_rep by blast
qed

end

text \<open>Taking the first entry, as \<^verbatim>\<open>list_first_entry\<close> and \<^verbatim>\<open>list_del\<close> do.\<close>

definition take_first :: "nat \<Rightarrow> lheap \<Rightarrow> (nat \<times> lheap) res" where
  "take_first head h = rbind (get_next h head) (\<lambda>x. rbind (list_del h x) (\<lambda>h. Inr (x, h)))"

definition loose_node :: "nat \<Rightarrow> lheap \<Rightarrow> nat \<Rightarrow> bool" where
  "loose_node head h x \<longleftrightarrow> node h x \<and> x \<noteq> head"

interpretation lists: node_queue "\<lambda>h. circ h head" "loose_node head" "\<lambda>h x. list_add_tail h x head" "take_first head" for head
proof (unfold_locales, goal_cases)
  case (1 h xs x)
  then have "yields h (set (x # head # xs)) (list_add_tail h x head) (\<lambda>h'. circ h' head (xs @ [x]))"
    by (intro list_add_tail_circ) (auto simp: loose_node_def)
  then show ?case by (auto simp: yields_def frame_def loose_node_def)
next
  case (2 h x xs)
  have "circ h head ([] @ x # xs)" using 2 by simp
  from list_del_circ(1) [OF this] show ?case using circ_head [OF 2] by (auto simp: yields_def take_first_def)
qed

section \<open>Property\<close>

text \<open>
  C0: The list operations refine operations on sequences. Let the list at \<open>head\<close> have the entries \<open>ys @ x # zs\<close>, let the list at \<open>l\<close> have the entries
  \<open>ls\<close>, and let \<open>new\<close> be a node in neither. Then adding puts \<open>new\<close> first or last, \<^verbatim>\<open>list_del\<close> removes \<open>x\<close> and poisons its pointers, \<^verbatim>\<open>list_replace_init\<close>
  puts \<open>new\<close> in its place, the moves put \<open>x\<close> first or last into the other list, \<^verbatim>\<open>list_cut_position\<close> splits the list after \<open>x\<close>, \<^verbatim>\<open>list_rotate_left\<close> moves the
  first entry to the end, and the splices insert the other list before or after all entries and empty it; the tests answer by the length of the list. No operation faults,
  both links of every entry are right afterwards, and no node outside the two lists is changed.\<close>

theorem list_operations:
  assumes "circ h head (ys @ x # zs)" "circ h l ls" "set (l # ls) \<inter> set (head # ys @ x # zs) = {}"
    and "node h new" "new \<notin> set (head # l # ys @ x # zs @ ls)"
  defines "xs \<equiv> ys @ x # zs" and "S \<equiv> set (new # head # l # ys @ x # zs @ ls)"
  shows "yields h S (list_add h new head) (\<lambda>h'. circ h' head (new # xs)) \<and>
    yields h S (list_add_tail h new head) (\<lambda>h'. circ h' head (xs @ [new])) \<and>
    yields h S (list_del h x) (\<lambda>h'. circ h' head (ys @ zs) \<and> lh_next h' x = Some LIST_POISON1 \<and> lh_prev h' x = Some LIST_POISON2) \<and>
    yields h S (list_del_init h x) (\<lambda>h'. circ h' head (ys @ zs) \<and> circ h' x []) \<and>
    yields h S (list_replace_init h x new) (\<lambda>h'. circ h' head (ys @ new # zs) \<and> circ h' x []) \<and>
    yields h S (list_move h x l) (\<lambda>h'. circ h' head (ys @ zs) \<and> circ h' l (x # ls)) \<and>
    yields h S (list_move_tail h x l) (\<lambda>h'. circ h' head (ys @ zs) \<and> circ h' l (ls @ [x])) \<and>
    yields h S (list_cut_position h new head x) (\<lambda>h'. circ h' new (ys @ [x]) \<and> circ h' head zs) \<and>
    yields h S (list_rotate_left h head) (\<lambda>h'. circ h' head (tl xs @ [hd xs])) \<and>
    yields h S (list_splice_init h l head) (\<lambda>h'. circ h' head (ls @ xs) \<and> circ h' l []) \<and>
    yields h S (list_splice_tail_init h l head) (\<lambda>h'. circ h' head (xs @ ls) \<and> circ h' l []) \<and>
    list_empty h l = Inr (ls = []) \<and> list_empty_careful h l = Inr (ls = []) \<and>
    list_is_singular h head = Inr (length xs = 1) \<and> list_is_last h x head = Inr (zs = [])"
proof -
  have w: "yields h S r P" if "yields h T r P" "T \<subseteq> S" for T r P using that frame_mono by (auto simp: yields_def)
  have c: "circ h head xs" using assms(1) by (simp add: xs_def)
  have n: "new \<notin> set (head # xs)" "new \<notin> set (head # ys @ x # zs)" using assms(5) by (auto simp: xs_def)
  have dis: "set (l # ls) \<inter> set (head # xs) = {}" using assms(3) by (simp add: xs_def)
  have rot: "yields h (set (head # xs)) (list_rotate_left h head) (\<lambda>h'. circ h' head (tl xs @ [hd xs]))"
    using list_rotate_circ [of h head "hd xs" "tl xs"] c by (simp add: xs_def)
  have sing: "list_is_singular h head = Inr (length xs = 1)" by (rule list_tests_ok(1) [OF c])
  show ?thesis
    by (intro conjI w [OF list_add_circ [OF c assms(4) n(1)]] w [OF list_add_tail_circ [OF c assms(4) n(1)]]
        w [OF list_del_circ(1) [OF assms(1)]] w [OF list_del_circ(2) [OF assms(1)]] w [OF list_replace_circ [OF assms(1,4) n(2)]]
        w [OF list_move_circ(1) [OF assms(1-3)]] w [OF list_move_circ(2) [OF assms(1-3)]] w [OF list_cut_circ [OF assms(1,4) n(2)]]
        w [OF rot] w [OF list_splice_circ(1) [OF assms(2) c dis]] w [OF list_splice_circ(2) [OF assms(2) c dis]]
        list_empty_ok [OF assms(2)] list_tests_ok(2) [OF assms(2)] sing list_is_last_ok [OF assms(1)]) (auto simp: S_def xs_def)
qed

text \<open>A list with entries 2 and 3 at 1, an empty one at 4, and a loose node 5.\<close>

definition lheap_sample :: lheap where
  "lheap_sample = \<lparr>lh_next = [1 \<mapsto> 2, 2 \<mapsto> 3, 3 \<mapsto> 1, 4 \<mapsto> 4, 5 \<mapsto> 0], lh_prev = [1 \<mapsto> 3, 2 \<mapsto> 1, 3 \<mapsto> 2, 4 \<mapsto> 4, 5 \<mapsto> 0]\<rparr>"

theorem list_operations_witness:
  "circ lheap_sample 1 [2, 3] \<and> yields lheap_sample {1, 2, 3, 4, 5} (list_move_tail lheap_sample 2 4) (\<lambda>h'. circ h' 1 [3] \<and> circ h' 4 [2])"
proof
  show c: "circ lheap_sample 1 [2, 3]" by (simp add: circ_def node_def lheap_sample_def)
  have l: "circ lheap_sample 4 []" "node lheap_sample 5" by (simp_all add: circ_def node_def lheap_sample_def)
  have "set (5 # 1 # 4 # [] @ 2 # [3] @ []) = {1, 2, 3, 4, 5 :: nat}" by auto
  then show "yields lheap_sample {1, 2, 3, 4, 5} (list_move_tail lheap_sample 2 4) (\<lambda>h'. circ h' 1 [3] \<and> circ h' 4 [2])"
    using list_operations [of lheap_sample 1 "[]" 2 "[3]" 4 "[]" 5] c l by simp
qed

end
