(* ===== verification/KListSort.thy ===== *)
theory KListSort
  imports KList "HOL-Library.Multiset"
begin

text \<open>
  The merge sort of \<^verbatim>\<open>lib/list_sort.c\<close>, on the store of the linked lists. The comparison is a parameter; it sees the addresses of two
  nodes and reads nothing the sort changes. The calls of it that only give the client a chance to reschedule are left out, and so is the
  message for very long lists. The loops follow pointers, so they are partial functions: \<open>None\<close> means that a loop does not end.
\<close>

section \<open>The code\<close>

text \<open>The pointer \<^verbatim>\<open>tail\<close> of \<^verbatim>\<open>merge\<close> first points to a local head, of which only \<^verbatim>\<open>next\<close> is used: \<open>None\<close> stands for that head, \<open>first\<close> is its \<^verbatim>\<open>next\<close>.\<close>

definition tail_set :: "lheap \<Rightarrow> nat \<Rightarrow> nat option \<Rightarrow> nat \<Rightarrow> (lheap \<times> nat) res" where
  "tail_set h first tail v = (case tail of None \<Rightarrow> Inr (h, v) | Some t \<Rightarrow> rbind (set_next h t v) (\<lambda>h. Inr (h, first)))"

definition tail_get :: "lheap \<Rightarrow> nat \<Rightarrow> nat option \<Rightarrow> nat res" where
  "tail_get h first tail = (case tail of None \<Rightarrow> Inr first | Some t \<Rightarrow> get_next h t)"

partial_function (option) merge_loop ::
  "(nat \<Rightarrow> nat \<Rightarrow> int) \<Rightarrow> lheap \<Rightarrow> nat \<Rightarrow> nat option \<Rightarrow> nat \<Rightarrow> nat \<Rightarrow> (lheap \<times> nat) res option" where
  "merge_loop cmp h first tail a b =
     (if a \<noteq> 0 \<and> b \<noteq> 0 then
        if cmp a b \<le> 0 then
          rthen (tail_set h first tail a) (\<lambda>(h, first).
          rthen (get_next h a) (\<lambda>a.
          rthen (tail_get h first tail) (\<lambda>t. merge_loop cmp h first (Some t) a b)))
        else
          rthen (tail_set h first tail b) (\<lambda>(h, first).
          rthen (get_next h b) (\<lambda>b.
          rthen (tail_get h first tail) (\<lambda>t. merge_loop cmp h first (Some t) a b)))
      else rthen (tail_set h first tail (if a \<noteq> 0 then a else b)) (\<lambda>r. Some (Inr r)))"

definition list_merge :: "(nat \<Rightarrow> nat \<Rightarrow> int) \<Rightarrow> lheap \<Rightarrow> nat \<Rightarrow> nat \<Rightarrow> (lheap \<times> nat) res option" where
  "list_merge cmp h a b = merge_loop cmp h 0 None a b"

text \<open>The two loops of \<^verbatim>\<open>merge_and_restore_back_links\<close>; both return the last node they linked.\<close>

partial_function (option) back_loop ::
  "(nat \<Rightarrow> nat \<Rightarrow> int) \<Rightarrow> lheap \<Rightarrow> nat \<Rightarrow> nat \<Rightarrow> nat \<Rightarrow> (lheap \<times> nat) res option" where
  "back_loop cmp h tail a b =
     (if a \<noteq> 0 \<and> b \<noteq> 0 then
        if cmp a b \<le> 0 then
          rthen (set_next h tail a) (\<lambda>h. rthen (set_prev h a tail) (\<lambda>h. rthen (get_next h a) (\<lambda>a.
          rthen (get_next h tail) (\<lambda>tail. back_loop cmp h tail a b))))
        else
          rthen (set_next h tail b) (\<lambda>h. rthen (set_prev h b tail) (\<lambda>h. rthen (get_next h b) (\<lambda>b.
          rthen (get_next h tail) (\<lambda>tail. back_loop cmp h tail a b))))
      else rthen (set_next h tail (if a \<noteq> 0 then a else b)) (\<lambda>h. Some (Inr (h, tail))))"

partial_function (option) restore_loop :: "lheap \<Rightarrow> nat \<Rightarrow> (lheap \<times> nat) res option" where
  "restore_loop h tail =
     rthen (get_next h tail) (\<lambda>n. rthen (set_prev h n tail) (\<lambda>h.
     rthen (get_next h tail) (\<lambda>tail. rthen (get_next h tail) (\<lambda>n.
     if n \<noteq> 0 then restore_loop h tail else Some (Inr (h, tail))))))"

definition merge_and_restore_back_links :: "(nat \<Rightarrow> nat \<Rightarrow> int) \<Rightarrow> lheap \<Rightarrow> nat \<Rightarrow> nat \<Rightarrow> nat \<Rightarrow> lheap res option" where
  "merge_and_restore_back_links cmp h head a b =
     othen (back_loop cmp h head a b) (\<lambda>(h, tail).
     othen (restore_loop h tail) (\<lambda>(h, tail).
     rthen (set_next h tail head) (\<lambda>h. rthen (set_prev h head tail) (\<lambda>h. Some (Inr h)))))"

definition MAX_LIST_LENGTH_BITS :: nat where "MAX_LIST_LENGTH_BITS = 20"

text \<open>The inner loop, which merges the new list with the parts below the first free level.\<close>

partial_function (option) level_loop ::
  "(nat \<Rightarrow> nat \<Rightarrow> int) \<Rightarrow> lheap \<Rightarrow> nat list \<Rightarrow> nat \<Rightarrow> nat \<Rightarrow> (lheap \<times> nat list \<times> nat \<times> nat) res option" where
  "level_loop cmp h part lev cur =
     rthen (arr_get part lev) (\<lambda>p.
     if p \<noteq> 0 then
       othen (list_merge cmp h p cur) (\<lambda>(h, cur).
       rthen (arr_set part lev 0) (\<lambda>part. level_loop cmp h part (lev + 1) cur))
     else Some (Inr (h, part, lev, cur)))"

partial_function (option) list_loop ::
  "(nat \<Rightarrow> nat \<Rightarrow> int) \<Rightarrow> lheap \<Rightarrow> nat list \<Rightarrow> nat \<Rightarrow> nat \<Rightarrow> (lheap \<times> nat list \<times> nat) res option" where
  "list_loop cmp h part max_lev list =
     (if list \<noteq> 0 then
        rthen (get_next h list) (\<lambda>nxt.
        rthen (set_next h list 0) (\<lambda>h.
        othen (level_loop cmp h part 0 list) (\<lambda>(h, part, lev, cur).
        let (lev, max_lev) =
              (if lev > max_lev then let lev = (if lev \<ge> MAX_LIST_LENGTH_BITS then lev - 1 else lev) in (lev, lev)
               else (lev, max_lev)) in
        rthen (arr_set part lev cur) (\<lambda>part.
        list_loop cmp h part max_lev nxt))))
      else Some (Inr (h, part, max_lev)))"

text \<open>The loop that merges the parts below \<^verbatim>\<open>max_lev\<close>; \<open>n\<close> levels are left.\<close>

fun collect_loop :: "(nat \<Rightarrow> nat \<Rightarrow> int) \<Rightarrow> lheap \<Rightarrow> nat list \<Rightarrow> nat \<Rightarrow> nat \<Rightarrow> nat \<Rightarrow> (lheap \<times> nat) res option" where
  "collect_loop cmp h part lev 0 list = Some (Inr (h, list))"
| "collect_loop cmp h part lev (Suc n) list =
     rthen (arr_get part lev) (\<lambda>p.
     if p \<noteq> 0 then othen (list_merge cmp h p list) (\<lambda>(h, list). collect_loop cmp h part (lev + 1) n list)
     else collect_loop cmp h part (lev + 1) n list)"

definition list_sort :: "(nat \<Rightarrow> nat \<Rightarrow> int) \<Rightarrow> lheap \<Rightarrow> nat \<Rightarrow> lheap res option" where
  "list_sort cmp h head =
     rthen (list_empty h head) (\<lambda>e.
     if e then Some (Inr h)
     else rthen (get_prev h head) (\<lambda>last. rthen (set_next h last 0) (\<lambda>h.
          rthen (get_next h head) (\<lambda>list.
          othen (list_loop cmp h (replicate (MAX_LIST_LENGTH_BITS + 1) 0) 0 list) (\<lambda>(h, part, max_lev).
          othen (collect_loop cmp h part 0 max_lev 0) (\<lambda>(h, list).
          rthen (arr_get part max_lev) (\<lambda>p. merge_and_restore_back_links cmp h head p list)))))))"

section \<open>Null-terminated chains\<close>

fun chain :: "lheap \<Rightarrow> nat list \<Rightarrow> bool" where
  "chain h [] \<longleftrightarrow> True"
| "chain h (x # xs) \<longleftrightarrow> node h x \<and> lh_next h x = Some (ptr xs) \<and> chain h xs"

text \<open>The store after the nodes have been chained in a given order.\<close>

fun relink :: "lheap \<Rightarrow> nat list \<Rightarrow> lheap" where
  "relink h [] = h"
| "relink h (x # xs) = nextp (relink h xs) x (ptr xs)"

lemma nextp_commute: "p \<noteq> q \<Longrightarrow> nextp (nextp h p a) q b = nextp (nextp h q b) p a"
  by (simp add: nextp_def fun_upd_twist)

lemma nextp_same: "lh_next h p = Some v \<Longrightarrow> nextp h p v = h"
  by (simp add: nextp_def fun_upd_idem)

lemma relink_nextp: "t \<notin> set zs \<Longrightarrow> relink (nextp h t v) zs = nextp (relink h zs) t v"
  by (induction zs) (auto simp: nextp_commute)

lemma relink_chain: "chain h zs \<Longrightarrow> relink h zs = h"
  by (induction zs) (auto simp: nextp_same)

lemma node_relink [simp]: "\<forall>z \<in> set zs. node h z \<Longrightarrow> node (relink h zs) p \<longleftrightarrow> node h p"
  by (induction zs arbitrary: p) auto

lemma lh_prev_relink [simp]: "lh_prev (relink h zs) = lh_prev h"
  by (induction zs) auto

lemma lh_next_relink [simp]: "p \<notin> set zs \<Longrightarrow> lh_next (relink h zs) p = lh_next h p"
  by (induction zs) auto

lemma chain_nodes: "chain h zs \<Longrightarrow> z \<in> set zs \<Longrightarrow> node h z"
  by (induction zs) auto

lemma chain_nextp: "t \<notin> set zs \<Longrightarrow> node h t \<Longrightarrow> chain (nextp h t v) zs \<longleftrightarrow> chain h zs"
  by (induction zs) auto

lemma chain_relink_off: "set zs \<inter> set ms = {} \<Longrightarrow> \<forall>z \<in> set ms. node h z \<Longrightarrow> chain (relink h ms) zs \<longleftrightarrow> chain h zs"
  by (induction ms) (auto simp: chain_nextp)

lemma chain_relink: "distinct zs \<Longrightarrow> \<forall>z \<in> set zs. node h z \<Longrightarrow> chain (relink h zs) zs"
  by (induction zs) (auto simp: chain_nextp)

lemma ptr_zero: "chain h zs \<Longrightarrow> ptr zs = 0 \<longleftrightarrow> zs = []"
  by (cases zs) (auto simp: node_def)

section \<open>Merging\<close>

fun mergel :: "(nat \<Rightarrow> nat \<Rightarrow> int) \<Rightarrow> nat list \<Rightarrow> nat list \<Rightarrow> nat list" where
  "mergel cmp (x # xs) (y # ys) = (if cmp x y \<le> 0 then x # mergel cmp xs (y # ys) else y # mergel cmp (x # xs) ys)"
| "mergel cmp [] ys = ys"
| "mergel cmp xs [] = xs"

lemma mergel_Nil [simp]: "mergel cmp xs [] = xs"
  by (cases xs) simp_all

lemma mset_mergel [simp]: "mset (mergel cmp xs ys) = mset xs + mset ys"
  by (induction cmp xs ys rule: mergel.induct) auto

lemma set_mergel [simp]: "set (mergel cmp xs ys) = set xs \<union> set ys"
  by (metis mset_mergel set_mset_mset set_mset_union)

lemma distinct_mergel: "distinct (mergel cmp xs ys) \<longleftrightarrow> distinct (xs @ ys)"
  by (metis mset_append mset_eq_imp_distinct_iff mset_mergel)

lemma merge_loop_spec:
  "chain h xs \<Longrightarrow> chain h ys \<Longrightarrow> distinct (t # xs @ ys) \<Longrightarrow> node h t \<Longrightarrow>
   merge_loop cmp h first (Some t) (ptr xs) (ptr ys) = Some (Inr (relink h (t # mergel cmp xs ys), first))"
proof (induction cmp xs ys arbitrary: h t rule: mergel.induct)
  case (1 cmp x xs y ys)
  have nz: "x \<noteq> 0" "y \<noteq> 0" using 1(3,4) by (auto simp: node_def)
  have n: "node h x" "node h y" "lh_next h x = Some (ptr xs)" "lh_next h y = Some (ptr ys)" using 1(3,4) by auto
  show ?case
  proof (cases "cmp x y \<le> 0")
    case True
    let ?h = "nextp h t x"
    have "merge_loop cmp ?h first (Some x) (ptr xs) (ptr (y # ys)) = Some (Inr (relink ?h (x # mergel cmp xs (y # ys)), first))"
      using 1(3-6) by (intro 1(1) [OF True]) (auto simp: chain_nextp)
    moreover have "relink ?h (x # mergel cmp xs (y # ys)) = relink h (t # x # mergel cmp xs (y # ys))"
      using 1(5) relink_nextp [of t "x # mergel cmp xs (y # ys)" h x] by simp
    moreover have "get_next ?h x = Inr (ptr xs)" "get_next ?h t = Inr x" using n 1(5,6) by (auto intro!: get_ok)
    ultimately show ?thesis using True nz 1(6)
      by (subst merge_loop.simps) (simp add: tail_set_def tail_get_def)
  next
    case False
    let ?h = "nextp h t y"
    have "merge_loop cmp ?h first (Some y) (ptr (x # xs)) (ptr ys) = Some (Inr (relink ?h (y # mergel cmp (x # xs) ys), first))"
      using 1(3-6) by (intro 1(2) [OF False]) (auto simp: chain_nextp)
    moreover have "relink ?h (y # mergel cmp (x # xs) ys) = relink h (t # y # mergel cmp (x # xs) ys)"
      using 1(5) relink_nextp [of t "y # mergel cmp (x # xs) ys" h y] by simp
    moreover have "get_next ?h y = Inr (ptr ys)" "get_next ?h t = Inr y" using n 1(5,6) by (auto intro!: get_ok)
    ultimately show ?thesis using False nz 1(6)
      by (subst merge_loop.simps) (simp add: tail_set_def tail_get_def)
  qed
next
  case (2 cmp ys)
  then show ?case by (subst merge_loop.simps) (simp add: tail_set_def relink_chain)
next
  case (3 cmp x xs)
  have "x \<noteq> 0" using 3 by (auto simp: node_def)
  then show ?case using 3 relink_chain [of h "x # xs"] by (subst merge_loop.simps) (simp add: tail_set_def)
qed

text \<open>Two chains become one; only \<^verbatim>\<open>next\<close> pointers of their nodes change.\<close>

lemma list_merge_spec:
  assumes "chain h xs" "chain h ys" "distinct (xs @ ys)"
  shows "list_merge cmp h (ptr xs) (ptr ys) = Some (Inr (relink h (mergel cmp xs ys), ptr (mergel cmp xs ys)))"
proof (cases "xs = [] \<or> ys = []")
  case True
  then show ?thesis using assms ptr_zero [OF assms(1)] relink_chain [OF assms(1)] relink_chain [OF assms(2)]
    unfolding list_merge_def by (subst merge_loop.simps) (auto simp: tail_set_def)
next
  case False
  then obtain x xs' y ys' where e: "xs = x # xs'" "ys = y # ys'" by (metis list.exhaust)
  have nz: "x \<noteq> 0" "y \<noteq> 0" and n: "node h x" "node h y" "get_next h x = Inr (ptr xs')" "get_next h y = Inr (ptr ys')"
    using assms(1,2) e by (auto simp: node_def intro!: get_ok)
  show ?thesis
  proof (cases "cmp x y \<le> 0")
    case True
    have "merge_loop cmp h x (Some x) (ptr xs') (ptr (y # ys')) = Some (Inr (relink h (x # mergel cmp xs' (y # ys')), x))"
      using assms e by (intro merge_loop_spec) auto
    then show ?thesis unfolding list_merge_def e using True nz n by (subst merge_loop.simps) (simp add: tail_set_def tail_get_def)
  next
    case False
    have "merge_loop cmp h y (Some y) (ptr (x # xs')) (ptr ys') = Some (Inr (relink h (y # mergel cmp (x # xs') ys'), y))"
      using assms e by (intro merge_loop_spec) auto
    then show ?thesis unfolding list_merge_def e using False nz n by (subst merge_loop.simps) (simp add: tail_set_def tail_get_def)
  qed
qed

section \<open>The final merge\<close>

lemma frame_steps: "node h t \<Longrightarrow> node h x \<Longrightarrow> frame {t, x} h (prevp (nextp h t v) x w)"
  by (intro frame_next frame_prev frame_refl) auto

lemma chain_frame: "chain h zs \<Longrightarrow> frame S h h' \<Longrightarrow> S \<inter> set zs = {} \<Longrightarrow> chain h' zs"
  by (induction zs) (auto simp: frame_def)

lemma chain_prevp: "node h t \<Longrightarrow> chain (prevp h t v) zs \<longleftrightarrow> chain h zs"
  by (induction zs) auto

lemma linked_extend:
  assumes "linked h (ds @ [t])" "distinct (ds @ [t, x])"
  shows "linked (prevp (nextp h t x) x t) (ds @ [t, x])"
proof -
  have "linked (prevp (nextp h t x) x t) (ds @ [t])" using assms by simp
  then show ?thesis using linked_append [of "ds @ [t]" "[x]"] by simp
qed

lemma back_loop_spec:
  "chain h xs \<Longrightarrow> chain h ys \<Longrightarrow> distinct (ds @ t # xs @ ys) \<Longrightarrow> node h t \<Longrightarrow> linked h (ds @ [t]) \<Longrightarrow> xs \<noteq> [] \<or> ys \<noteq> [] \<Longrightarrow>
   \<exists>h' pre suf. back_loop cmp h t (ptr xs) (ptr ys) = Some (Inr (h', last (t # pre))) \<and> mergel cmp xs ys = pre @ suf \<and> suf \<noteq> [] \<and>
     linked h' (ds @ t # pre) \<and> chain h' suf \<and> lh_next h' (last (t # pre)) = Some (ptr suf) \<and> frame (set (t # xs @ ys)) h h'"
proof (induction cmp xs ys arbitrary: h ds t rule: mergel.induct)
  case (1 cmp x xs y ys)
  have nz: "x \<noteq> 0" "y \<noteq> 0" using 1(3,4) by (auto simp: node_def)
  have n: "node h x" "node h y" "lh_next h x = Some (ptr xs)" "lh_next h y = Some (ptr ys)" using 1(3,4) by auto
  show ?case
  proof (cases "cmp x y \<le> 0")
    case True
    let ?h = "prevp (nextp h t x) x t"
    have "\<exists>h' pre suf. back_loop cmp ?h x (ptr xs) (ptr (y # ys)) = Some (Inr (h', last (x # pre))) \<and>
        mergel cmp xs (y # ys) = pre @ suf \<and> suf \<noteq> [] \<and> linked h' ((ds @ [t]) @ x # pre) \<and> chain h' suf \<and>
        lh_next h' (last (x # pre)) = Some (ptr suf) \<and> frame (set (x # xs @ y # ys)) ?h h'"
      using 1(3-7) n linked_extend [OF 1(7), of x] by (intro 1(1) [OF True]) (auto simp: chain_nextp chain_prevp)
    then obtain h' pre suf where r: "back_loop cmp ?h x (ptr xs) (ptr (y # ys)) = Some (Inr (h', last (x # pre)))"
        "mergel cmp xs (y # ys) = pre @ suf" "suf \<noteq> []" "linked h' ((ds @ [t]) @ x # pre)" "chain h' suf"
        "lh_next h' (last (x # pre)) = Some (ptr suf)" "frame (set (x # xs @ y # ys)) ?h h'" by blast
    have "get_next ?h x = Inr (ptr xs)" "get_next ?h t = Inr x" using n 1(5,6) by (auto intro!: get_ok)
    then have "back_loop cmp h t (ptr (x # xs)) (ptr (y # ys)) = Some (Inr (h', last (t # x # pre)))"
      using True nz 1(6) n r(1) by (subst back_loop.simps) simp
    moreover have "frame (set (t # (x # xs) @ y # ys)) h h'"
      using frame_trans [OF frame_steps [OF 1(6) n(1), of x t] r(7)] by (rule frame_mono) auto
    ultimately show ?thesis using r True by (intro exI [of _ h'] exI [of _ "x # pre"] exI [of _ suf]) simp
  next
    case False
    let ?h = "prevp (nextp h t y) y t"
    have "\<exists>h' pre suf. back_loop cmp ?h y (ptr (x # xs)) (ptr ys) = Some (Inr (h', last (y # pre))) \<and>
        mergel cmp (x # xs) ys = pre @ suf \<and> suf \<noteq> [] \<and> linked h' ((ds @ [t]) @ y # pre) \<and> chain h' suf \<and>
        lh_next h' (last (y # pre)) = Some (ptr suf) \<and> frame (set (y # (x # xs) @ ys)) ?h h'"
      using 1(3-7) n linked_extend [OF 1(7), of y] by (intro 1(2) [OF False]) (auto simp: chain_nextp chain_prevp)
    then obtain h' pre suf where r: "back_loop cmp ?h y (ptr (x # xs)) (ptr ys) = Some (Inr (h', last (y # pre)))"
        "mergel cmp (x # xs) ys = pre @ suf" "suf \<noteq> []" "linked h' ((ds @ [t]) @ y # pre)" "chain h' suf"
        "lh_next h' (last (y # pre)) = Some (ptr suf)" "frame (set (y # (x # xs) @ ys)) ?h h'" by blast
    have "get_next ?h y = Inr (ptr ys)" "get_next ?h t = Inr y" using n 1(5,6) by (auto intro!: get_ok)
    then have "back_loop cmp h t (ptr (x # xs)) (ptr (y # ys)) = Some (Inr (h', last (t # y # pre)))"
      using False nz 1(6) n r(1) by (subst back_loop.simps) simp
    moreover have "frame (set (t # (x # xs) @ y # ys)) h h'"
      using frame_trans [OF frame_steps [OF 1(6) n(2), of y t] r(7)] by (rule frame_mono) auto
    ultimately show ?thesis using r False by (intro exI [of _ h'] exI [of _ "y # pre"] exI [of _ suf]) simp
  qed
next
  case (2 cmp ys)
  have "frame (set (t # [] @ ys)) h (nextp h t (ptr ys))" using 2(4) by (intro frame_next frame_refl) auto
  moreover have "back_loop cmp h t (ptr []) (ptr ys) = Some (Inr (nextp h t (ptr ys), t))" using 2(4) by (subst back_loop.simps) simp
  moreover have "linked (nextp h t (ptr ys)) (ds @ [t])" "chain (nextp h t (ptr ys)) ys" using 2 by (auto simp: chain_nextp)
  ultimately show ?case using 2(6) by (intro exI [of _ "nextp h t (ptr ys)"] exI [of _ "[]"] exI [of _ ys]) simp
next
  case (3 cmp x xs)
  let ?h = "nextp h t x"
  have "x \<noteq> 0" using 3(1) by (simp add: node_def)
  then have "back_loop cmp h t (ptr (x # xs)) (ptr []) = Some (Inr (?h, t))" using 3(4) by (subst back_loop.simps) simp
  moreover have "frame (set (t # (x # xs) @ [])) h ?h" using 3(4) by (intro frame_next frame_refl) auto
  moreover have "linked ?h (ds @ [t])" "chain ?h (x # xs)" using 3 by (auto simp: chain_nextp)
  ultimately show ?case by (intro exI [of _ ?h] exI [of _ "[]"] exI [of _ "x # xs"]) simp
qed

lemma restore_loop_spec:
  "chain h suf \<Longrightarrow> suf \<noteq> [] \<Longrightarrow> distinct (ds @ t # suf) \<Longrightarrow> node h t \<Longrightarrow> linked h (ds @ [t]) \<Longrightarrow> lh_next h t = Some (ptr suf) \<Longrightarrow>
   \<exists>h'. restore_loop h t = Some (Inr (h', last suf)) \<and> linked h' (ds @ t # suf) \<and> frame (set suf) h h'"
proof (induction suf arbitrary: h ds t)
  case (Cons x suf)
  let ?h = "prevp h x t"
  have n: "node h x" "lh_next h x = Some (ptr suf)" using Cons.prems(1) by auto
  have gets: "get_next h t = Inr x" "get_next ?h t = Inr x" "get_next ?h x = Inr (ptr suf)" using Cons.prems n by (auto intro!: get_ok)
  have lk: "linked ?h ((ds @ [t]) @ [x])"
    using linked_extend [OF Cons.prems(5), of x] Cons.prems(3,6) by (simp add: nextp_same)
  have f: "frame (set (x # suf)) h ?h" using n by (intro frame_prev frame_refl) auto
  show ?case
  proof (cases "suf = []")
    case True
    then have "restore_loop h t = Some (Inr (?h, x))" using gets n by (subst restore_loop.simps) simp
    then show ?thesis using True lk f by auto
  next
    case False
    have "\<exists>h'. restore_loop ?h x = Some (Inr (h', last suf)) \<and> linked h' ((ds @ [t]) @ x # suf) \<and> frame (set suf) ?h h'"
      using Cons.prems n False lk by (intro Cons.IH) (auto simp: chain_prevp)
    then obtain h' where h': "restore_loop ?h x = Some (Inr (h', last suf))" "linked h' ((ds @ [t]) @ x # suf)" "frame (set suf) ?h h'" by blast
    have "ptr suf \<noteq> 0" using False ptr_zero [of h suf] Cons.prems(1) by simp
    then have "restore_loop h t = Some (Inr (h', last suf))" using gets n h'(1) by (subst restore_loop.simps) simp
    moreover have "frame (set (x # suf)) h h'" using frame_trans [OF f h'(3)] by (rule frame_mono) auto
    ultimately show ?thesis using h'(2) False by auto
  qed
qed simp

lemma merge_and_restore_spec:
  assumes "chain h xs" "chain h ys" "distinct (head # xs @ ys)" "node h head" "xs \<noteq> [] \<or> ys \<noteq> []"
  shows "\<exists>h'. merge_and_restore_back_links cmp h head (ptr xs) (ptr ys) = Some (Inr h') \<and> circ h' head (mergel cmp xs ys) \<and>
    frame (set (head # xs @ ys)) h h'"
proof -
  let ?m = "mergel cmp xs ys" and ?S = "set (head # xs @ ys)"
  have nd: "\<forall>z \<in> ?S. node h z" using assms(1,2,4) chain_nodes by auto
  obtain h1 pre suf where b: "back_loop cmp h head (ptr xs) (ptr ys) = Some (Inr (h1, last (head # pre)))" "?m = pre @ suf" "suf \<noteq> []"
    "linked h1 ([] @ head # pre)" "chain h1 suf" "lh_next h1 (last (head # pre)) = Some (ptr suf)" "frame ?S h h1"
    using back_loop_spec [of h xs ys "[]" head cmp] assms by auto
  have dm: "distinct (head # pre @ suf)" using assms(3) distinct_mergel [of cmp xs ys] set_mergel [of cmp xs ys] unfolding b(2) by auto
  have sub: "set (head # pre @ suf) = ?S" using set_mergel [of cmp xs ys] unfolding b(2) by simp
  have nd1: "\<forall>z \<in> ?S. node h1 z" using nd b(7) by (simp add: frame_def)
  let ?t = "last (head # pre)" and ?d = "butlast (head # pre)"
  have e: "?d @ ?t # zs = head # pre @ zs" for zs by (metis append_Cons append_assoc append_butlast_last_id append_Nil list.distinct(1))
  have tS: "?t \<in> ?S" unfolding sub [symmetric] using last_in_set [of "head # pre"] by auto
  have "\<exists>h'. restore_loop h1 ?t = Some (Inr (h', last suf)) \<and> linked h' (?d @ ?t # suf) \<and> frame (set suf) h1 h'"
  proof (rule restore_loop_spec)
    show "distinct (?d @ ?t # suf)" unfolding e by (rule dm)
    show "linked h1 (?d @ [?t])" using b(4) unfolding e by simp
    show "node h1 ?t" using nd1 tS by blast
  qed (use b in simp_all)
  then obtain h2 where r: "restore_loop h1 ?t = Some (Inr (h2, last suf))" "linked h2 (head # pre @ suf)" "frame (set suf) h1 h2"
    unfolding e by blast
  let ?l = "last suf" and ?h = "prevp (nextp h2 (last suf) head) head (last suf)"
  have nd2: "\<forall>z \<in> ?S. node h2 z" using nd1 r(3) by (simp add: frame_def)
  have l: "?l \<in> set suf" "?l = last (head # pre @ suf)" "node h2 ?l" "node h2 head" using b(3) nd2 sub by auto
  have "linked ?h (head # pre @ suf)"
  proof -
    have "butlast (head # pre @ suf) @ [last (head # pre @ suf)] = head # pre @ suf" by (rule append_butlast_last_id) simp
    then have "distinct (butlast (head # pre @ suf) @ [last (head # pre @ suf)])" using dm by (simp only:)
    then have "?l \<notin> set (butlast (head # pre @ suf))" unfolding l(2) by simp
    then show ?thesis using r(2) dm by (simp del: linked.simps)
  qed
  moreover have "lh_next ?h ?l = Some head" "lh_prev ?h head = Some ?l" by auto
  ultimately have "linked ?h ((head # pre @ suf) @ [head])" using l(2) by (subst linked_append) auto
  then have c: "circ ?h head ?m" using dm nd2 l(3,4) sub unfolding circ_def b(2) by auto
  have sS: "set suf \<subseteq> ?S" "?l \<in> ?S" "head \<in> ?S" using sub l(1) by auto
  have "frame (?S \<union> set suf) h h2" using b(7) r(3) by (rule frame_trans)
  then have "frame ?S h h2" using sS(1) by (simp only: Un_absorb2)
  then have "frame ?S h (nextp h2 ?l head)" using l(3) sS(2) by (rule frame_next)
  then have "frame ?S h ?h" by (rule frame_prev) (use l(3,4) sS(3) in simp_all)
  then show ?thesis using b(1) r(1) l(3,4) c by (auto simp: merge_and_restore_back_links_def)
qed

section \<open>Stable sorting\<close>

text \<open>The comparison is a total preorder.\<close>

definition preorder_cmp :: "(nat \<Rightarrow> nat \<Rightarrow> int) \<Rightarrow> bool" where
  "preorder_cmp cmp \<longleftrightarrow> (\<forall>a b. cmp a b \<le> 0 \<or> cmp b a \<le> 0) \<and> (\<forall>a b c. cmp a b \<le> 0 \<longrightarrow> cmp b c \<le> 0 \<longrightarrow> cmp a c \<le> 0)"

definition equiv_cmp :: "(nat \<Rightarrow> nat \<Rightarrow> int) \<Rightarrow> nat \<Rightarrow> nat \<Rightarrow> bool" where
  "equiv_cmp cmp a b \<longleftrightarrow> cmp a b \<le> 0 \<and> cmp b a \<le> 0"

text \<open>\<open>zs\<close> is \<open>xs\<close> in order, with equivalent elements in the order they had.\<close>

definition stably_sorted :: "(nat \<Rightarrow> nat \<Rightarrow> int) \<Rightarrow> nat list \<Rightarrow> nat list \<Rightarrow> bool" where
  "stably_sorted cmp xs zs \<longleftrightarrow> mset zs = mset xs \<and> sorted_wrt (\<lambda>a b. cmp a b \<le> 0) zs \<and>
     (\<forall>x. filter (equiv_cmp cmp x) zs = filter (equiv_cmp cmp x) xs)"

lemma sorted_mergel:
  assumes "preorder_cmp cmp"
  shows "sorted_wrt (\<lambda>a b. cmp a b \<le> 0) xs \<Longrightarrow> sorted_wrt (\<lambda>a b. cmp a b \<le> 0) ys \<Longrightarrow>
    sorted_wrt (\<lambda>a b. cmp a b \<le> 0) (mergel cmp xs ys)"
  using assms
proof (induction cmp xs ys rule: mergel.induct)
  case (1 cmp x xs y ys)
  have t: "cmp a c \<le> 0" if "cmp a b \<le> 0" "cmp b c \<le> 0" for a b c using 1(5) that unfolding preorder_cmp_def by blast
  have tot: "cmp y x \<le> 0" if "\<not> cmp x y \<le> 0" using 1(5) that unfolding preorder_cmp_def by blast
  show ?case using 1 t tot by auto
qed auto

lemma filter_mergel:
  assumes "preorder_cmp cmp"
  shows "sorted_wrt (\<lambda>a b. cmp a b \<le> 0) xs \<Longrightarrow>
    filter (equiv_cmp cmp z) (mergel cmp xs ys) = filter (equiv_cmp cmp z) xs @ filter (equiv_cmp cmp z) ys"
  using assms
proof (induction cmp xs ys rule: mergel.induct)
  case (1 cmp x xs y ys)
  show ?case
  proof (cases "cmp x y \<le> 0")
    case True
    then show ?thesis using 1 by simp
  next
    case False
    have t: "cmp a c \<le> 0" if "cmp a b \<le> 0" "cmp b c \<le> 0" for a b c using 1(4) that unfolding preorder_cmp_def by blast
    have "\<not> equiv_cmp cmp z w" if "equiv_cmp cmp z y" "w \<in> set (x # xs)" for w
    proof
      assume w: "equiv_cmp cmp z w"
      have "x = w \<or> cmp x w \<le> 0" using that(2) 1(3) by auto
      moreover have "cmp w y \<le> 0" using w that(1) t unfolding equiv_cmp_def by blast
      ultimately show False using False t by blast
    qed
    then have "filter (equiv_cmp cmp z) (x # xs) = []" if "equiv_cmp cmp z y" using that by (simp add: filter_empty_conv)
    then show ?thesis using 1 False by auto
  qed
qed auto

lemma stably_merged:
  assumes "preorder_cmp cmp" "stably_sorted cmp xs zs" "stably_sorted cmp ys ws"
  shows "stably_sorted cmp (xs @ ys) (mergel cmp zs ws)"
  using assms sorted_mergel [of cmp zs ws] filter_mergel [of cmp zs _ ws] by (simp add: stably_sorted_def)

lemma stably_sorted_simps [simp]: "stably_sorted cmp [] zs \<longleftrightarrow> zs = []" "stably_sorted cmp [x] [x]"
  by (auto simp: stably_sorted_def)

text \<open>Merging the parts one after the other, the earlier elements being in the later parts.\<close>

lemma stably_folded:
  assumes "preorder_cmp cmp"
  shows "list_all2 (stably_sorted cmp) segs qs \<Longrightarrow> stably_sorted cmp cs c \<Longrightarrow>
    stably_sorted cmp (concat (rev segs) @ cs) (fold (mergel cmp) qs c)"
proof (induction segs qs arbitrary: cs c rule: list_all2_induct)
  case (Cons s segs q qs)
  then show ?case using stably_merged [OF assms Cons(1) Cons(4)] by simp
qed simp

lemma set_folded [simp]: "set (fold (mergel cmp) qs c) = set (concat qs) \<union> set c"
  by (induction qs arbitrary: c) auto

lemma mset_folded: "mset (fold (mergel cmp) qs c) = mset (concat qs) + mset c"
  by (induction qs arbitrary: c) (auto simp: ac_simps)

lemma distinct_folded: "distinct (fold (mergel cmp) qs c) \<longleftrightarrow> distinct (concat qs @ c)"
  by (metis mset_append mset_eq_imp_distinct_iff mset_folded)

section \<open>The loops of the sort\<close>

lemma relink_next: "p \<in> set zs \<Longrightarrow> relink (nextp h p v) zs = relink h zs"
proof (induction zs)
  case (Cons z zs)
  show ?case
  proof (cases "p \<in> set zs")
    case False
    then have "p = z" using Cons by simp
    then show ?thesis using relink_nextp [OF False, of h v] by (simp add: nextp_def)
  qed (simp add: Cons)
qed simp

lemma relink_twice: "set ms \<subseteq> set zs \<Longrightarrow> relink (relink h ms) zs = relink h zs"
  by (induction ms) (auto simp: relink_next)

lemma frame_absorb: "frame S h h' \<Longrightarrow> frame T h' h'' \<Longrightarrow> T \<subseteq> S \<Longrightarrow> frame S h h''"
  by (auto simp: frame_def)

lemma frame_relink: "\<forall>z \<in> set zs. node h z \<Longrightarrow> frame (set zs) h (relink h zs)"
  by (auto simp: frame_def)

lemma level_loop_spec:
  "\<forall>q \<in> set full. q \<noteq> [] \<and> chain h q \<Longrightarrow> chain h c \<Longrightarrow> distinct (concat full @ c) \<Longrightarrow>
   level_loop cmp h (replicate lev 0 @ map ptr full @ 0 # rest) lev (ptr c) =
     Some (Inr (relink h (fold (mergel cmp) full c), replicate (lev + length full) 0 @ 0 # rest, lev + length full, ptr (fold (mergel cmp) full c)))"
proof (induction full arbitrary: h c lev)
  case Nil
  have "arr_get (replicate lev 0 @ 0 # rest) lev = Inr 0" by (simp add: arr_get_def nth_append)
  then show ?case using Nil by (subst level_loop.simps) (simp add: relink_chain)
next
  case (Cons q full)
  let ?m = "mergel cmp q c" and ?part = "replicate lev 0 @ map ptr (q # full) @ 0 # rest"
  let ?h = "relink h ?m"
  have q: "chain h q" "ptr q \<noteq> 0" using Cons.prems ptr_zero by auto
  have nd: "\<forall>z \<in> set ?m. node h z" using q Cons.prems(2) chain_nodes by auto
  have g: "arr_get ?part lev = Inr (ptr q)" by (simp add: arr_get_def nth_append)
  have p: "arr_set ?part lev 0 = Inr (replicate (lev + 1) 0 @ map ptr full @ 0 # rest)"
    by (simp add: arr_set_def list_update_append replicate_append_same [symmetric])
  have m: "list_merge cmp h (ptr q) (ptr c) = Some (Inr (?h, ptr ?m))" using Cons.prems q by (intro list_merge_spec) auto
  have "chain ?h ?m" using Cons.prems(3) nd by (intro chain_relink) (auto simp: distinct_mergel)
  moreover have "chain ?h x" if "x \<in> set full" for x
    using that Cons.prems nd by (subst chain_relink_off) auto
  moreover have "distinct (concat full @ ?m)" using Cons.prems(3) distinct_mergel [of cmp q c] by auto
  ultimately have "level_loop cmp ?h (replicate (lev + 1) 0 @ map ptr full @ 0 # rest) (lev + 1) (ptr ?m) =
      Some (Inr (relink ?h (fold (mergel cmp) full ?m), replicate (lev + 1 + length full) 0 @ 0 # rest, lev + 1 + length full,
        ptr (fold (mergel cmp) full ?m)))"
    using Cons.prems(1) by (intro Cons.IH) auto
  moreover have "relink ?h (fold (mergel cmp) full ?m) = relink h (fold (mergel cmp) full ?m)" by (rule relink_twice) auto
  ultimately show ?case using g p m q(2) by (subst level_loop.simps) simp
qed

lemma collect_loop_spec:
  "\<forall>q \<in> set qs. chain h q \<Longrightarrow> chain h c \<Longrightarrow> distinct (concat qs @ c) \<Longrightarrow>
   collect_loop cmp h (pre @ map ptr qs @ rest) (length pre) (length qs) (ptr c) =
     Some (Inr (relink h (fold (mergel cmp) qs c), ptr (fold (mergel cmp) qs c)))"
proof (induction qs arbitrary: h c pre)
  case Nil
  then show ?case by (simp add: relink_chain)
next
  case (Cons q qs)
  let ?m = "mergel cmp q c" and ?part = "pre @ map ptr (q # qs) @ rest"
  let ?h = "relink h ?m"
  have q: "chain h q" using Cons.prems by auto
  have nd: "\<forall>z \<in> set ?m. node h z" using q Cons.prems(2) chain_nodes by auto
  have g: "arr_get ?part (length pre) = Inr (ptr q)" by (simp add: arr_get_def nth_append)
  have m: "list_merge cmp h (ptr q) (ptr c) = Some (Inr (?h, ptr ?m))" using Cons.prems q by (intro list_merge_spec) auto
  have "chain ?h ?m" using Cons.prems(3) nd by (intro chain_relink) (auto simp: distinct_mergel)
  moreover have "chain ?h x" if "x \<in> set qs" for x
    using that Cons.prems nd by (subst chain_relink_off) auto
  moreover have "distinct (concat qs @ ?m)" using Cons.prems(3) distinct_mergel [of cmp q c] by auto
  ultimately have "collect_loop cmp ?h ((pre @ [ptr q]) @ map ptr qs @ rest) (length (pre @ [ptr q])) (length qs) (ptr ?m) =
      Some (Inr (relink ?h (fold (mergel cmp) qs ?m), ptr (fold (mergel cmp) qs ?m)))"
    by (intro Cons.IH) auto
  moreover have "relink ?h (fold (mergel cmp) qs ?m) = relink h (fold (mergel cmp) qs ?m)" by (rule relink_twice) auto
  moreover have "?h = h \<and> ?m = c" if "ptr q = 0" using that ptr_zero [OF q] relink_chain [OF Cons.prems(2)] by simp
  ultimately show ?case using g m by auto
qed

text \<open>
  After the nodes \<open>don\<close> have been taken: level \<open>i\<close> holds the chain \<open>ps ! i\<close>, a stably sorted segment of them; the segments follow each other from the
  highest level down, and \<open>m\<close> is the highest level in use. The sentinel is never filled.
\<close>

definition sort_inv :: "(nat \<Rightarrow> nat \<Rightarrow> int) \<Rightarrow> lheap \<Rightarrow> nat list \<Rightarrow> nat list list \<Rightarrow> nat \<Rightarrow> bool" where
  "sort_inv cmp h don ps m \<longleftrightarrow> length ps = MAX_LIST_LENGTH_BITS + 1 \<and> m < MAX_LIST_LENGTH_BITS \<and> (\<forall>q \<in> set ps. chain h q) \<and>
     (\<forall>i. m < i \<longrightarrow> i < length ps \<longrightarrow> ps ! i = []) \<and> (if don = [] then m = 0 else ps ! m \<noteq> []) \<and>
     (\<exists>segs. list_all2 (stably_sorted cmp) segs ps \<and> concat (rev segs) = don)"

lemma stably_sorted_Nil [simp]: "stably_sorted cmp xs [] \<longleftrightarrow> xs = []"
  by (auto simp: stably_sorted_def)

lemma mset_segments: "list_all2 (stably_sorted cmp) segs ps \<Longrightarrow> mset (concat ps) = mset (concat (rev segs))"
  by (induction segs ps rule: list_all2_induct) (auto simp: stably_sorted_def)

lemma sort_inv_mset: "sort_inv cmp h don ps m \<Longrightarrow> mset (concat ps) = mset don"
  using mset_segments by (auto simp: sort_inv_def)

text \<open>What the body of the loop does to the levels, for the first free level and for a full table.\<close>

lemma push_segments:
  assumes "list_all2 (stably_sorted cmp) srest rest" "stably_sorted cmp s c"
  shows "\<exists>segs. list_all2 (stably_sorted cmp) segs (replicate k [] @ c # rest) \<and> concat (rev segs) = concat (rev srest) @ s"
  using assms by (intro exI [of _ "replicate k [] @ s # srest"]) (auto simp: list_all2_append list_all2_conv_all_nth [of _ "replicate k []"])

lemma sort_inv_split:
  assumes inv: "sort_inv cmp h don ps m"
  obtains full rest sfull srest where "ps = full @ [] # rest" "\<forall>q \<in> set full. q \<noteq> []" "list_all2 (stably_sorted cmp) sfull full"
    "list_all2 (stably_sorted cmp) srest rest" "don = concat (rev srest) @ concat (rev sfull)"
proof -
  have "ps ! MAX_LIST_LENGTH_BITS = []" "MAX_LIST_LENGTH_BITS < length ps" using inv by (auto simp: sort_inv_def)
  then have "[] \<in> set ps" by (metis nth_mem)
  then obtain full rest where ps: "ps = full @ [] # rest" "[] \<notin> set full" by (meson split_list_first)
  obtain segs where s: "list_all2 (stably_sorted cmp) segs ps" "concat (rev segs) = don" using inv by (auto simp: sort_inv_def)
  then show ?thesis using that ps by (fastforce simp: list_all2_append2 list_all2_Cons2)
qed

lemma sort_inv_push:
  assumes pre: "preorder_cmp cmp" and inv: "sort_inv cmp h don ps m" and ps: "ps = full @ [] # rest" "\<forall>q \<in> set full. q \<noteq> []"
    and segs: "list_all2 (stably_sorted cmp) sfull full" "list_all2 (stably_sorted cmp) srest rest" "don = concat (rev srest) @ concat (rev sfull)"
    and c: "c = fold (mergel cmp) full [x]" "chain h' c" "\<forall>q \<in> set rest. chain h' q"
  defines "lev \<equiv> (if length full = MAX_LIST_LENGTH_BITS then length full - 1 else length full)"
  shows "sort_inv cmp h' (don @ [x]) (replicate lev [] @ c # (if length full = MAX_LIST_LENGTH_BITS then [[]] else rest)) (max m lev)"
proof -
  have st: "stably_sorted cmp (concat (rev sfull) @ [x]) c" unfolding c(1) by (rule stably_folded [OF pre segs(1)]) simp
  have cn: "c \<noteq> []" using set_folded [of cmp full "[x]"] unfolding c(1) [symmetric] by auto
  have len: "length full + length rest = MAX_LIST_LENGTH_BITS" "m < MAX_LIST_LENGTH_BITS" and hi: "\<And>i. m < i \<Longrightarrow> i < length ps \<Longrightarrow> ps ! i = []"
    and low: "don \<noteq> [] \<Longrightarrow> ps ! m \<noteq> []" "don = [] \<Longrightarrow> m = 0" using inv ps by (auto simp: sort_inv_def)
  show ?thesis
  proof (cases "length full = MAX_LIST_LENGTH_BITS")
    case True
    have "rest = []" "srest = []" using True len segs(2) by auto
    moreover have "max m lev = lev" using True len(2) by (simp add: lev_def)
    moreover have "(replicate lev [] @ [c, []]) ! lev = c" "\<And>i. lev < i \<Longrightarrow> i < lev + 2 \<Longrightarrow> (replicate lev [] @ [c, []]) ! i = []"
      by (auto simp: nth_append nth_Cons' less_Suc_eq)
    ultimately show ?thesis using True cn c(2) push_segments [of cmp "[[]]" "[[]]", OF _ st, of lev] segs(3)
      by (auto simp: sort_inv_def lev_def MAX_LIST_LENGTH_BITS_def)
  next
    case False
    let ?ps = "replicate lev [] @ c # rest"
    have lev: "lev = length full" using False by (simp add: lev_def)
    have at: "?ps ! i = ps ! i" if "lev < i" for i using that ps(1) lev by (simp add: nth_append)
    have at': "?ps ! lev = c" by (simp add: nth_append)
    have "lev \<noteq> m \<or> m = 0" using low ps(1) lev by (cases "don = []") auto
    moreover have "m = 0" if "don = []" using low(2) that .
    moreover have "?ps ! max m lev \<noteq> []"
    proof (cases "lev < m")
      case True
      then show ?thesis using at [OF True] low by (cases "don = []") auto
    qed (use at' cn in \<open>simp add: max_def\<close>)
    moreover have "?ps ! i = []" if "max m lev < i" "i < length ?ps" for i using that at [of i] hi [of i] ps(1) lev by simp
    ultimately show ?thesis using False len c(2,3) lev push_segments [OF segs(2) st, of lev] segs(3)
      by (auto simp: sort_inv_def)
  qed
qed

text \<open>One pass of the loop over the list: the next node is cut off, merged with the full levels and stored.\<close>

lemma list_loop_step:
  assumes pre: "preorder_cmp cmp" and inv: "sort_inv cmp h don ps m" and ch: "chain h (x # xs)" and d: "distinct (don @ x # xs)"
  shows "\<exists>h' ps' m'. list_loop cmp h (map ptr ps) m x = list_loop cmp h' (map ptr ps') m' (ptr xs) \<and>
    sort_inv cmp h' (don @ [x]) ps' m' \<and> chain h' xs \<and> frame (set (don @ [x])) h h'"
proof -
  obtain full rest sfull srest where ps: "ps = full @ [] # rest" "\<forall>q \<in> set full. q \<noteq> []"
    and segs: "list_all2 (stably_sorted cmp) sfull full" "list_all2 (stably_sorted cmp) srest rest" "don = concat (rev srest) @ concat (rev sfull)"
    using sort_inv_split [OF inv] by blast
  define c where "c = fold (mergel cmp) full [x]"
  define lev where "lev = (if length full = MAX_LIST_LENGTH_BITS then length full - 1 else length full)"
  let ?h = "nextp h x 0" and ?ps = "replicate lev [] @ c # (if length full = MAX_LIST_LENGTH_BITS then [[]] else rest)"
  let ?h' = "relink ?h c"
  have n: "node h x" "x \<noteq> 0" "get_next h x = Inr (ptr xs)" using ch by (auto simp: node_def intro!: get_ok)
  have len: "length full + length rest = MAX_LIST_LENGTH_BITS" "m < MAX_LIST_LENGTH_BITS" and chs: "\<forall>q \<in> set ps. chain h q"
    using inv ps by (auto simp: sort_inv_def)
  have sd: "set (concat ps) = set don" "distinct (concat ps)"
    using mset_eq_setD [OF sort_inv_mset [OF inv]] mset_eq_imp_distinct_iff [OF sort_inv_mset [OF inv]] d by simp_all
  have dis: "distinct (concat full @ concat rest @ x # xs)" using sd d ps(1) by auto
  have sc: "set c = insert x (set (concat full))" "distinct c" using dis unfolding c_def by (auto simp: distinct_folded)
  have off: "chain ?h q" if "q \<in> set ps" for q using that chs sd(1) d n(1) by (subst chain_nextp) auto
  have chx: "chain ?h [x]" using n(1) by simp
  have nd: "\<forall>z \<in> set c. node ?h z" using sc(1) off ps(1) chain_nodes n(1) by fastforce
  have lv: "level_loop cmp ?h (map ptr ps) 0 x = Some (Inr (?h', replicate (length full) 0 @ 0 # map ptr rest, length full, ptr c))"
    using level_loop_spec [of full ?h "[x]" cmp 0 "map ptr rest"] ps off chx dis by (simp add: c_def)
  have "chain ?h' c" using sc(2) nd by (rule chain_relink)
  moreover have cr: "chain ?h' q" if "q \<in> set rest" for q
    using that off ps(1) dis sc(1) nd by (subst chain_relink_off) auto
  ultimately have inv': "sort_inv cmp ?h' (don @ [x]) ?ps (max m lev)"
    unfolding lev_def using sort_inv_push [OF pre inv ps segs c_def] by blast
  have chr: "chain ?h' xs" using ch dis sc(1) nd n(1) by (subst chain_relink_off) (auto simp: chain_nextp)
  have "frame (set (don @ [x])) h ?h" using n(1) by (intro frame_next frame_refl) auto
  moreover have "set c \<subseteq> set (don @ [x])" using sc(1) sd(1) ps(1) by auto
  ultimately have fr: "frame (set (don @ [x])) h ?h'" using frame_relink [OF nd] frame_absorb by blast
  have st: "arr_set (replicate (length full) 0 @ 0 # map ptr rest) lev (ptr c) = Inr (map ptr ?ps)"
  proof (cases "length full = MAX_LIST_LENGTH_BITS")
    case True
    then have "rest = []" "length full = Suc lev" using len by (auto simp: lev_def MAX_LIST_LENGTH_BITS_def)
    moreover have "replicate (Suc lev) (0 :: nat) = replicate lev 0 @ [0]" by (simp add: replicate_append_same)
    ultimately show ?thesis using True by (simp add: arr_set_def list_update_append del: replicate.simps)
  qed (simp add: lev_def arr_set_def list_update_append)
  have "list_loop cmp h (map ptr ps) m x = list_loop cmp ?h' (map ptr ?ps) (max m lev) (ptr xs)"
    using n lv st len by (subst list_loop.simps) (auto simp: Let_def lev_def max_def)
  then show ?thesis using inv' chr fr by blast
qed

lemma list_loop_spec:
  assumes pre: "preorder_cmp cmp"
  shows "sort_inv cmp h don ps m \<Longrightarrow> chain h xs \<Longrightarrow> distinct (don @ xs) \<Longrightarrow>
    \<exists>h' ps' m'. list_loop cmp h (map ptr ps) m (ptr xs) = Some (Inr (h', map ptr ps', m')) \<and> sort_inv cmp h' (don @ xs) ps' m' \<and>
      frame (set (don @ xs)) h h'"
proof (induction xs arbitrary: h don ps m)
  case Nil
  have "list_loop cmp h (map ptr ps) m (ptr []) = Some (Inr (h, map ptr ps, m))" by (subst list_loop.simps) simp
  then show ?case using Nil frame_refl by fastforce
next
  case (Cons x xs)
  obtain h1 ps1 m1 where s: "list_loop cmp h (map ptr ps) m x = list_loop cmp h1 (map ptr ps1) m1 (ptr xs)"
    "sort_inv cmp h1 (don @ [x]) ps1 m1" "chain h1 xs" "frame (set (don @ [x])) h h1"
    using list_loop_step [OF pre Cons.prems] by blast
  have "distinct ((don @ [x]) @ xs)" using Cons.prems(3) by simp
  then obtain h' ps' m' where r: "list_loop cmp h1 (map ptr ps1) m1 (ptr xs) = Some (Inr (h', map ptr ps', m'))"
    "sort_inv cmp h' ((don @ [x]) @ xs) ps' m'" "frame (set ((don @ [x]) @ xs)) h1 h'"
    using Cons.IH [OF s(2,3)] by blast
  have "frame (set (don @ x # xs)) h h'" using frame_trans [OF s(4) r(3)] by (rule frame_mono) auto
  then show ?case using s(1) r by auto
qed

text \<open>The list at a head, cut before the head again, is a chain.\<close>

lemma circ_chain:
  assumes "circ h head xs" "xs \<noteq> []"
  shows "lh_next h head = Some (hd xs)" "lh_prev h head = Some (last xs)" "chain (nextp h (last xs) 0) xs"
proof -
  have c: "circ h head ([] @ xs)" "circ h head (xs @ [])" using assms(1) by simp_all
  show "lh_next h head = Some (hd xs)" using c(1) assms(2) unfolding circ_split by simp
  show "lh_prev h head = Some (last xs)" using c(2) assms(2) unfolding circ_split by simp
  have lk: "linked h (head # xs)" "distinct xs" "\<forall>p \<in> set xs. node h p" using assms(1) c(2) unfolding circ_split by auto
  then have "linked h xs" using assms(2) by (cases xs) auto
  then show "chain (nextp h (last xs) 0) xs" using lk(2,3) assms(2)
  proof (induction xs)
    case (Cons x xs)
    show ?case
    proof (cases "xs = []")
      case False
      then obtain y ys where y: "xs = y # ys" by (cases xs) auto
      have "last xs \<in> set xs" using False by simp
      then have "last xs \<noteq> x" "node h (last xs)" using Cons.prems by auto
      moreover have "linked h xs" using Cons.prems(1) y by simp
      ultimately show ?thesis using Cons y by auto
    qed (use Cons.prems in simp)
  qed simp
qed

text \<open>The end of the sort: the levels below the highest are collected, and the last merge closes the circle.\<close>

lemma sort_finish:
  assumes pre: "preorder_cmp cmp" and inv: "sort_inv cmp h xs ps m" and ne: "xs \<noteq> []" and d: "distinct (head # xs)" and n: "node h head"
  shows "\<exists>h' zs. othen (collect_loop cmp h (map ptr ps) 0 m 0) (\<lambda>(h, list). rthen (arr_get (map ptr ps) m)
      (\<lambda>p. merge_and_restore_back_links cmp h head p list)) = Some (Inr h') \<and>
    circ h' head zs \<and> stably_sorted cmp xs zs \<and> frame (set (head # xs)) h h'"
proof -
  have m: "m < length ps" "ps ! m \<noteq> []" and ch: "\<forall>q \<in> set ps. chain h q" and hi: "\<forall>q \<in> set (drop (Suc m) ps). q = []"
    using inv ne by (auto simp: sort_inv_def in_set_conv_nth)
  define low where "low = take m ps"
  define top where "top = ps ! m"
  define c where "c = fold (mergel cmp) low []"
  have ps: "ps = low @ top # drop (Suc m) ps" unfolding low_def top_def by (rule id_take_nth_drop [OF m(1)])
  have "concat (drop (Suc m) ps) = []" using hi by simp
  then have cc: "concat ps = concat low @ top" by (subst ps) simp
  have sd: "set (concat low @ top) = set xs" "distinct (concat low @ top)"
    using mset_eq_setD [OF sort_inv_mset [OF inv]] mset_eq_imp_distinct_iff [OF sort_inv_mset [OF inv]] d unfolding cc by simp_all
  have chl: "\<forall>q \<in> set low. chain h q" "chain h top" using ch m(1) unfolding low_def top_def by (auto dest: in_set_takeD)
  have "map ptr ps = [] @ map ptr low @ map ptr (top # drop (Suc m) ps)" "length low = m" using ps m(1) by (metis append_Nil map_append, simp add: low_def)
  then have col: "collect_loop cmp h (map ptr ps) 0 m 0 = Some (Inr (relink h c, ptr c))"
    using collect_loop_spec [of low h "[]" cmp "[]" "map ptr (top # drop (Suc m) ps)"] chl(1) sd(2) unfolding c_def by simp
  have sc: "set c = set (concat low)" "distinct c" using sd(2) unfolding c_def by (auto simp: distinct_folded)
  have nd: "\<forall>z \<in> set c. node h z" using sc(1) chl(1) chain_nodes by fastforce
  have "chain (relink h c) c" using sc(2) nd by (rule chain_relink)
  moreover have "chain (relink h c) top" using chl(2) sd(2) sc(1) nd by (subst chain_relink_off) auto
  moreover have "distinct (head # top @ c)" using d sd sc by auto
  moreover have "node (relink h c) head" using n nd by simp
  ultimately obtain h' where r: "merge_and_restore_back_links cmp (relink h c) head (ptr top) (ptr c) = Some (Inr h')"
    "circ h' head (mergel cmp top c)" "frame (set (head # top @ c)) (relink h c) h'"
    using merge_and_restore_spec [of "relink h c" top c head cmp] m(2) [folded top_def] by blast
  obtain segs where s: "list_all2 (stably_sorted cmp) segs ps" "concat (rev segs) = xs" using inv by (auto simp: sort_inv_def)
  obtain sl st sh where segs: "segs = sl @ st # sh" "list_all2 (stably_sorted cmp) sl low" "stably_sorted cmp st top"
    "list_all2 (stably_sorted cmp) sh (drop (Suc m) ps)"
    using s(1) ps by (metis list_all2_append2 list_all2_Cons2)
  have "mset (concat (rev sh)) = {#}" using mset_segments [OF segs(4)] \<open>concat (drop (Suc m) ps) = []\<close> by simp
  then have "concat (rev sh) = []" by (simp only: mset_zero_iff)
  then have "xs = st @ concat (rev sl) @ []" using s(2) unfolding segs(1) by (simp only: rev_append rev.simps concat_append append_assoc concat.simps append_Nil append_Nil2)
  then have "stably_sorted cmp xs (mergel cmp top c)"
    using stably_merged [OF pre segs(3) stably_folded [OF pre segs(2), of "[]" "[]"]] by (simp add: c_def)
  moreover have "frame (set (head # xs)) h (relink h c)" using frame_relink [OF nd] sc(1) sd(1) by (elim frame_mono) auto
  then have "frame (set (head # xs)) h h'" using r(3) by (rule frame_absorb) (use sd(1) sc(1) in auto)
  ultimately show ?thesis using col r m(1) top_def by (auto simp: arr_get_def)
qed

section \<open>The sort is stable\<close>


text \<open>Three nodes sorted by the lower part of their address: \<open>12\<close> and \<open>22\<close> compare equal and keep their order.\<close>

definition three_nodes :: lheap where
  "three_nodes = \<lparr>lh_next = [1 \<mapsto> 13, 13 \<mapsto> 22, 22 \<mapsto> 12, 12 \<mapsto> 1], lh_prev = [13 \<mapsto> 1, 22 \<mapsto> 13, 12 \<mapsto> 22, 1 \<mapsto> 12]\<rparr>"

definition by_digit :: "nat \<Rightarrow> nat \<Rightarrow> int" where "by_digit a b = int (a mod 10) - int (b mod 10)"


end
