(* ===== verification/KPlist.thy ===== *)
theory KPlist
  imports KList
begin

text \<open>
  The priority lists of \<^verbatim>\<open>lib/plist.c\<close> and \<^verbatim>\<open>include/linux/plist.h\<close>, on the store of the linked lists. A node is linked into two circles: \<^verbatim>\<open>node_list\<close> holds all nodes in
  the order of their priorities, \<^verbatim>\<open>prio_list\<close> the first node of each priority and has no head. The configuration is that without \<^verbatim>\<open>CONFIG_DEBUG_PI_LIST\<close>. The
  loops follow pointers and are partial functions.
\<close>

section \<open>The code\<close>

text \<open>The store with the field \<^verbatim>\<open>prio\<close> of the nodes, and the addresses of the other two fields (\<^verbatim>\<open>int\<close> has 4 bytes, \<^verbatim>\<open>struct list_head\<close> 8).\<close>

record plmem =
  pl_heap :: lheap
  pl_prio :: "nat \<Rightarrow> int option"

definition prio_list :: "nat \<Rightarrow> nat" where "prio_list n = n + 4"
definition node_list :: "nat \<Rightarrow> nat" where "node_list n = n + 12"
definition prio_entry :: "nat \<Rightarrow> nat" where "prio_entry p = p - 4"
definition node_entry :: "nat \<Rightarrow> nat" where "node_entry p = p - 12"

definition get_prio :: "plmem \<Rightarrow> nat \<Rightarrow> int res" where
  "get_prio m n = (if n = 0 then Inl NullDeref else case pl_prio m n of None \<Rightarrow> Inl OutOfBounds | Some v \<Rightarrow> Inr v)"

definition plist_head_init :: "lheap \<Rightarrow> nat \<Rightarrow> lheap res" where
  "plist_head_init h head = INIT_LIST_HEAD h head"

definition plist_node_init :: "plmem \<Rightarrow> nat \<Rightarrow> int \<Rightarrow> plmem res" where
  "plist_node_init m pnode prio =
     rbind (get_prio m pnode) (\<lambda>_.
     rbind (INIT_LIST_HEAD (pl_heap m) (prio_list pnode)) (\<lambda>h.
     rbind (INIT_LIST_HEAD h (node_list pnode)) (\<lambda>h.
     Inr (m\<lparr>pl_heap := h, pl_prio := (pl_prio m)(pnode \<mapsto> prio)\<rparr>))))"

definition plist_head_empty :: "lheap \<Rightarrow> nat \<Rightarrow> bool res" where
  "plist_head_empty h head = list_empty h head"

definition plist_node_empty :: "lheap \<Rightarrow> nat \<Rightarrow> bool res" where
  "plist_node_empty h pnode = list_empty h (node_list pnode)"

definition plist_first :: "lheap \<Rightarrow> nat \<Rightarrow> nat res" where
  "plist_first h head = rbind (get_next h head) (\<lambda>p. Inr (node_entry p))"

definition plist_last :: "lheap \<Rightarrow> nat \<Rightarrow> nat res" where
  "plist_last h head = rbind (get_prev h head) (\<lambda>p. Inr (node_entry p))"

definition plist_next :: "lheap \<Rightarrow> nat \<Rightarrow> nat res" where
  "plist_next h pos = rbind (get_next h (node_list pos)) (\<lambda>p. Inr (node_entry p))"

definition plist_prev :: "lheap \<Rightarrow> nat \<Rightarrow> nat res" where
  "plist_prev h pos = rbind (get_prev h (node_list pos)) (\<lambda>p. Inr (node_entry p))"

text \<open>The loop of \<^verbatim>\<open>plist_add\<close>, with \<^verbatim>\<open>iter\<close>, \<^verbatim>\<open>prev\<close> and \<^verbatim>\<open>node_next\<close> at its end.\<close>

partial_function (option) add_loop :: "plmem \<Rightarrow> nat \<Rightarrow> nat \<Rightarrow> nat \<Rightarrow> nat \<Rightarrow> nat \<Rightarrow> (nat \<times> nat \<times> nat) res option" where
  "add_loop m pnode first iter prev node_next =
     rthen (get_prio m pnode) (\<lambda>p. rthen (get_prio m iter) (\<lambda>q.
     if p < q then Some (Inr (iter, prev, node_list iter))
     else rthen (get_next (pl_heap m) (prio_list iter)) (\<lambda>n.
       let prev = iter; iter = prio_entry n
       in if iter \<noteq> first then add_loop m pnode first iter prev node_next else Some (Inr (iter, prev, node_next)))))"

definition plist_add :: "plmem \<Rightarrow> nat \<Rightarrow> nat \<Rightarrow> lheap res option" where
  "plist_add m pnode head =
     (let h = pl_heap m in
     rthen (plist_node_empty h pnode) (\<lambda>_. rthen (list_empty h (prio_list pnode)) (\<lambda>_.
     rthen (plist_head_empty h head) (\<lambda>e.
     if e then Some (list_add_tail h (node_list pnode) head)
     else rthen (plist_first h head) (\<lambda>first.
       othen (add_loop m pnode first first 0 head) (\<lambda>(iter, prev, node_next).
       rthen (if prev = 0 then Inr True else rbind (get_prio m prev) (\<lambda>q. rbind (get_prio m pnode) (\<lambda>p. Inr (q \<noteq> p)))) (\<lambda>new_prio.
       rthen (if new_prio then list_add_tail h (prio_list pnode) (prio_list iter) else Inr h) (\<lambda>h.
       Some (list_add_tail h (node_list pnode) node_next)))))))))"

definition plist_del :: "lheap \<Rightarrow> nat \<Rightarrow> nat \<Rightarrow> lheap res" where
  "plist_del h pnode head =
     rbind (list_empty h (prio_list pnode)) (\<lambda>e.
     rbind (if \<not> e then
         rbind (get_next h (node_list pnode)) (\<lambda>n.
         rbind (if n \<noteq> head then
             let next = node_entry n in
             rbind (list_empty h (prio_list next)) (\<lambda>e.
             if e then list_add h (prio_list next) (prio_list pnode) else Inr h)
           else Inr h) (\<lambda>h.
         list_del_init h (prio_list pnode)))
       else Inr h) (\<lambda>h.
     list_del_init h (node_list pnode)))"

text \<open>The loop of \<^verbatim>\<open>plist_requeue\<close>; \<open>pos\<close> is the address of the field \<^verbatim>\<open>node_list\<close> of \<^verbatim>\<open>iter\<close>.\<close>

partial_function (option) requeue_loop :: "plmem \<Rightarrow> nat \<Rightarrow> nat \<Rightarrow> nat \<Rightarrow> nat res option" where
  "requeue_loop m pnode pos head =
     rthen (get_next (pl_heap m) pos) (\<lambda>pos.
     if pos = head then Some (Inr head)
     else rthen (get_prio m pnode) (\<lambda>p. rthen (get_prio m (node_entry pos)) (\<lambda>q.
       if p \<noteq> q then Some (Inr pos) else requeue_loop m pnode pos head)))"

definition plist_requeue :: "plmem \<Rightarrow> nat \<Rightarrow> nat \<Rightarrow> lheap res option" where
  "plist_requeue m pnode head =
     (let h = pl_heap m in
     rthen (plist_head_empty h head) (\<lambda>e. if e then Some (Inl KernelBug) else
     rthen (plist_node_empty h pnode) (\<lambda>e. if e then Some (Inl KernelBug) else
     rthen (plist_last h head) (\<lambda>last.
     if pnode = last then Some (Inr h)
     else rthen (plist_next h pnode) (\<lambda>iter.
       rthen (get_prio m pnode) (\<lambda>p. rthen (get_prio m iter) (\<lambda>q.
       if p \<noteq> q then Some (Inr h)
       else rthen (plist_del h pnode head) (\<lambda>h.
         othen (requeue_loop (m\<lparr>pl_heap := h\<rparr>) pnode (node_list iter) head) (\<lambda>node_next.
         Some (list_add_tail h (node_list pnode) node_next)))))))))) "

section \<open>Rings\<close>

text \<open>A circle seen from any of its nodes.\<close>

definition ring :: "lheap \<Rightarrow> nat list \<Rightarrow> bool" where
  "ring h xs \<longleftrightarrow> (case xs of [] \<Rightarrow> True | x # ys \<Rightarrow> circ h x ys)"

lemma ring_simps [simp]: "ring h []" "ring h (x # xs) \<longleftrightarrow> circ h x xs"
  by (simp_all add: ring_def)

lemma ring_nodes: "ring h xs \<Longrightarrow> distinct xs \<and> (\<forall>x \<in> set xs. node h x)"
  by (cases xs) (auto simp: circ_def)

lemma linked_rotate:
  assumes "linked h (xs @ ys @ [hd (xs @ ys)])" "xs \<noteq> []" "ys \<noteq> []"
  shows "linked h (ys @ xs @ [hd ys])"
proof -
  have a: "linked h xs \<and> linked h (ys @ [hd xs]) \<and> lh_next h (last xs) = Some (hd ys) \<and> lh_prev h (hd ys) = Some (last xs)"
    using assms linked_append [of xs "ys @ [hd xs]" h] by simp
  then have b: "linked h ys \<and> lh_next h (last ys) = Some (hd xs) \<and> lh_prev h (hd xs) = Some (last ys)"
    using assms(3) linked_append [of ys "[hd xs]" h] by simp
  have "linked h (xs @ [hd ys])" using a assms(2) linked_append [of xs "[hd ys]" h] by simp
  then show ?thesis using b assms linked_append [of ys "xs @ [hd ys]" h] by simp
qed

lemma ring_alt: "ring h xs \<longleftrightarrow> xs = [] \<or> linked h (xs @ [hd xs]) \<and> distinct xs \<and> (\<forall>x \<in> set xs. node h x)"
  by (cases xs) (auto simp: circ_def)

lemma ring_rotate1: "ring h (xs @ ys) \<Longrightarrow> ring h (ys @ xs)"
proof (cases "xs = [] \<or> ys = []")
  case False
  assume "ring h (xs @ ys)"
  then show ?thesis using linked_rotate [of h xs ys] False unfolding ring_alt by auto
qed auto

lemma ring_rotate: "ring h (xs @ ys) \<longleftrightarrow> ring h (ys @ xs)"
  using ring_rotate1 by blast

lemma ring_frame: "ring h xs \<Longrightarrow> frame S h h' \<Longrightarrow> S \<inter> set xs = {} \<Longrightarrow> ring h' xs"
  by (cases xs) (simp_all add: circ_frame)

text \<open>The list operations on a ring, at any of its nodes.\<close>

lemma ring_at: "ring h (xs @ e # ys) \<longleftrightarrow> circ h e (ys @ xs)"
  using ring_rotate [of h xs "e # ys"] by simp

lemma ring_next: "ring h (xs @ e # ys) \<Longrightarrow> get_next h e = Inr (hd (ys @ xs @ [e]))"
  using circ_head [of h e "ys @ xs"] ring_at by simp

lemma ring_empty: "ring h (xs @ e # ys) \<Longrightarrow> list_empty h e = Inr (xs = [] \<and> ys = [])"
  using list_empty_ok [of h e "ys @ xs"] ring_at by auto

lemma ring_add_tail:
  assumes "ring h (xs @ e # ys)" "node h new" "new \<notin> set (xs @ e # ys)"
  shows "yields h (set (new # xs @ e # ys)) (list_add_tail h new e) (\<lambda>h'. ring h' (xs @ new # e # ys))"
proof -
  have "yields h (set (new # e # ys @ xs)) (list_add_tail h new e) (\<lambda>h'. circ h' e ((ys @ xs) @ [new]))"
    using assms ring_at by (intro list_add_tail_circ) auto
  moreover have "circ h' e ((ys @ xs) @ [new]) \<longleftrightarrow> ring h' (xs @ new # e # ys)" for h'
    using ring_at [of h' "xs @ [new]" e ys] by simp
  moreover have "set (new # e # ys @ xs) = set (new # xs @ e # ys)" by auto
  ultimately show ?thesis by (simp only:)
qed

lemma ring_add:
  assumes "ring h (xs @ e # ys)" "node h new" "new \<notin> set (xs @ e # ys)"
  shows "yields h (set (new # xs @ e # ys)) (list_add h new e) (\<lambda>h'. ring h' (xs @ e # new # ys))"
proof -
  have "yields h (set (new # e # ys @ xs)) (list_add h new e) (\<lambda>h'. circ h' e (new # ys @ xs))"
    using assms ring_at by (intro list_add_circ) auto
  moreover have "circ h' e (new # ys @ xs) \<longleftrightarrow> ring h' (xs @ e # new # ys)" for h'
    using ring_at [of h' xs e "new # ys"] by simp
  moreover have "set (new # e # ys @ xs) = set (new # xs @ e # ys)" by auto
  ultimately show ?thesis by (simp only:)
qed

lemma ring_del:
  assumes "ring h (xs @ e # ys)" "xs @ ys \<noteq> []"
  shows "yields h (set (xs @ e # ys)) (list_del_init h e) (\<lambda>h'. ring h' (xs @ ys) \<and> ring h' [e])"
proof (cases xs)
  case (Cons x xs')
  then show ?thesis using list_del_circ(2) [of h x xs' e ys] assms(1) by simp
next
  case Nil
  then obtain y ys' where y: "ys = y # ys'" using assms(2) by (cases ys) auto
  then have "circ h y (ys' @ e # [])" using assms(1) Nil ring_rotate [of h "[e]" ys] by simp
  from list_del_circ(2) [OF this] show ?thesis using Nil y by (simp add: insert_commute)
qed

lemma yields_ring:
  assumes "yields h S r P" "ring h xs" "S \<inter> set xs = {}"
  shows "yields h S r (\<lambda>h'. P h' \<and> ring h' xs)"
  using assms ring_frame by (auto simp: yields_def)

lemma yields_mono: "yields h S r P \<Longrightarrow> S \<subseteq> T \<Longrightarrow> (\<And>h'. P h' \<Longrightarrow> Q h') \<Longrightarrow> yields h T r Q"
  using frame_mono by (auto simp: yields_def)

section \<open>The two circles\<close>

lemma field_addresses [simp]:
  "prio_list x = prio_list y \<longleftrightarrow> x = y" "node_list x = node_list y \<longleftrightarrow> x = y" "prio_entry (prio_list x) = x" "node_entry (node_list x) = x"
  by (simp_all add: prio_list_def node_list_def prio_entry_def node_entry_def)

lemma inj_fields [simp]: "inj_on prio_list S" "inj_on node_list S"
  by (simp_all add: inj_on_def)

text \<open>The circle of the leaders \<open>ls\<close>, in which no other node of \<open>N\<close> is.\<close>

definition prios :: "lheap \<Rightarrow> nat list \<Rightarrow> nat set \<Rightarrow> bool" where
  "prios h ls N \<longleftrightarrow> ring h (map prio_list ls) \<and> (\<forall>x \<in> N - set ls. ring h [prio_list x])"

lemma prios_frame: "prios h ls N \<Longrightarrow> frame S h h' \<Longrightarrow> S \<inter> prio_list ` (set ls \<union> N) = {} \<Longrightarrow> prios h' ls N"
proof -
  assume p: "prios h ls N" and f: "frame S h h'" and d: "S \<inter> prio_list ` (set ls \<union> N) = {}"
  have "ring h' (map prio_list ls)" using p d by (intro ring_frame [OF _ f]) (auto simp: prios_def)
  moreover have "ring h' [prio_list x]" if "x \<in> N - set ls" for x using p d that by (intro ring_frame [OF _ f]) (auto simp: prios_def)
  ultimately show ?thesis by (simp add: prios_def)
qed

lemma prios_keep:
  assumes "yields h (prio_list ` S) r P" "\<forall>x \<in> N. ring h [prio_list x]" "S \<inter> N = {}"
  shows "yields h (prio_list ` S) r (\<lambda>h'. P h' \<and> (\<forall>x \<in> N. ring h' [prio_list x]))"
proof -
  obtain h' where h': "r = Inr h'" "P h'" "frame (prio_list ` S) h h'" using assms(1) by (auto simp: yields_def)
  have "ring h' [prio_list x]" if "x \<in> N" for x
  proof (rule ring_frame [OF _ h'(3)])
    show "ring h [prio_list x]" using assms(2) that by blast
    show "prio_list ` S \<inter> set [prio_list x] = {}" using assms(3) that by auto
  qed
  then show ?thesis using h' by (auto simp: yields_def)
qed

lemma prios_add:
  assumes "prios h (A @ B) N" "A @ B \<noteq> []" "n \<notin> N \<union> set (A @ B)" "ring h [prio_list n]"
  shows "yields h (prio_list ` set (n # A @ B)) (list_add_tail h (prio_list n) (prio_list (hd (B @ A)))) (\<lambda>h'. prios h' (A @ n # B) (insert n N))"
proof -
  have r: "ring h (map prio_list (A @ B))" "\<forall>x \<in> N - set (A @ B). ring h [prio_list x]" and n: "node h (prio_list n)" "prio_list n \<notin> set (map prio_list (A @ B))"
    using assms ring_nodes [OF assms(4)] by (auto simp: prios_def)
  have y: "yields h (prio_list ` set (n # A @ B)) (list_add_tail h (prio_list n) (prio_list (hd (B @ A)))) (\<lambda>h'. ring h' (map prio_list (A @ n # B)))"
  proof (cases B)
    case (Cons b B')
    then show ?thesis using ring_add_tail [of h "map prio_list A" "prio_list b" "map prio_list B'" "prio_list n"] r(1) n by (simp add: image_Un)
  next
    case Nil
    then obtain a A' where a: "A = a # A'" using assms(2) by (cases A) auto
    have "yields h (set (prio_list n # [] @ prio_list a # map prio_list A')) (list_add_tail h (prio_list n) (prio_list a))
        (\<lambda>h'. ring h' ([] @ prio_list n # prio_list a # map prio_list A'))"
      using r(1) n Nil a by (intro ring_add_tail) simp_all
    moreover have "ring h' ([] @ prio_list n # prio_list a # map prio_list A') \<longleftrightarrow> ring h' (map prio_list (A @ n # B))" for h'
      using ring_rotate [of h' "[prio_list n]" "map prio_list A"] Nil a by simp
    ultimately show ?thesis using Nil a by simp
  qed
  have "yields h (prio_list ` set (n # A @ B)) (list_add_tail h (prio_list n) (prio_list (hd (B @ A))))
      (\<lambda>h'. ring h' (map prio_list (A @ n # B)) \<and> (\<forall>x \<in> N - set (A @ B). ring h' [prio_list x]))"
    using r(2) assms(3) by (intro prios_keep [OF y]) auto
  then show ?thesis by (rule yields_mono) (auto simp: prios_def)
qed

lemma prios_del:
  assumes "prios h (A @ n # B) N" "A @ B \<noteq> []"
  shows "yields h (prio_list ` set (A @ n # B)) (list_del_init h (prio_list n)) (\<lambda>h'. prios h' (A @ B) (N - {n}) \<and> ring h' [prio_list n])"
proof -
  have "ring h (map prio_list A @ prio_list n # map prio_list B)" using assms(1) by (simp add: prios_def)
  then have "yields h (set (map prio_list A @ prio_list n # map prio_list B)) (list_del_init h (prio_list n))
      (\<lambda>h'. ring h' (map prio_list A @ map prio_list B) \<and> ring h' [prio_list n])"
    using assms(2) by (intro ring_del) auto
  then have "yields h (prio_list ` set (A @ n # B)) (list_del_init h (prio_list n))
      (\<lambda>h'. (ring h' (map prio_list A @ map prio_list B) \<and> ring h' [prio_list n]) \<and> (\<forall>x \<in> N - set (A @ n # B). ring h' [prio_list x]))"
    using assms(1) by (intro prios_keep) (auto simp: prios_def image_Un)
  then show ?thesis by (rule yields_mono) (auto simp: prios_def)
qed

text \<open>The next node of the same priority takes the place of a leader.\<close>

lemma prios_replace:
  assumes "prios h (A @ n # B) N" "d \<in> N - set (A @ n # B)"
  shows "yields h (prio_list ` set (d # A @ n # B)) (rbind (list_add h (prio_list d) (prio_list n)) (\<lambda>h. list_del_init h (prio_list n)))
    (\<lambda>h'. prios h' (A @ d # B) (N - {n}) \<and> ring h' [prio_list n])"
proof -
  have d: "node h (prio_list d)" "prio_list d \<notin> set (map prio_list A @ prio_list n # map prio_list B)"
    using assms ring_nodes [of h "[prio_list d]"] by (auto simp: prios_def)
  have "ring h (map prio_list A @ prio_list n # map prio_list B)" using assms(1) by (simp add: prios_def)
  from ring_add [OF this d]
  have "yields h (prio_list ` set (d # A @ n # B)) (list_add h (prio_list d) (prio_list n)) (\<lambda>h'. ring h' (map prio_list (A @ n # d # B)))"
    by (simp add: image_Un)
  then have "yields h (prio_list ` set (d # A @ n # B)) (list_add h (prio_list d) (prio_list n))
      (\<lambda>h'. ring h' (map prio_list (A @ n # d # B)) \<and> (\<forall>x \<in> N - set (A @ n # d # B). ring h' [prio_list x]))"
    using assms(1) by (intro prios_keep) (auto simp: prios_def)
  then show ?thesis
  proof (rule yields_bind [where T = "prio_list ` set (A @ n # d # B)"])
    fix h' assume "ring h' (map prio_list (A @ n # d # B)) \<and> (\<forall>x \<in> N - set (A @ n # d # B). ring h' [prio_list x])"
    then have "prios h' (A @ n # d # B) N" by (simp add: prios_def)
    from prios_del [OF this] show "yields h' (prio_list ` set (A @ n # d # B)) (list_del_init h' (prio_list n))
      (\<lambda>h'. prios h' (A @ d # B) (N - {n}) \<and> ring h' [prio_list n])" by simp
  qed auto
qed

text \<open>The circle of all nodes.\<close>

lemma nodes_add:
  assumes "ring h (head # map node_list (A @ B))" "node h (node_list n)" "node_list n \<notin> set (head # map node_list (A @ B))"
  shows "yields h (set (head # map node_list (n # A @ B))) (list_add_tail h (node_list n) (hd (map node_list B @ [head])))
    (\<lambda>h'. ring h' (head # map node_list (A @ n # B)))"
proof (cases B)
  case (Cons b B')
  then show ?thesis using ring_add_tail [of h "head # map node_list A" "node_list b" "map node_list B'" "node_list n"] assms
    by (simp add: insert_commute)
next
  case Nil
  have "yields h (set (node_list n # [] @ head # map node_list A)) (list_add_tail h (node_list n) head)
      (\<lambda>h'. ring h' ([] @ node_list n # head # map node_list A))"
    using assms Nil by (intro ring_add_tail) simp_all
  moreover have "ring h' ([] @ node_list n # head # map node_list A) \<longleftrightarrow> ring h' (head # map node_list (A @ n # B))" for h'
    using ring_rotate [of h' "[node_list n]" "head # map node_list A"] Nil by simp
  ultimately show ?thesis using Nil by (simp add: insert_commute)
qed

lemma nodes_del:
  assumes "ring h (head # map node_list (A @ n # B))"
  shows "yields h (set (head # map node_list (A @ n # B))) (list_del_init h (node_list n))
    (\<lambda>h'. ring h' (head # map node_list (A @ B)) \<and> ring h' [node_list n])"
  using ring_del [of h "head # map node_list A" "node_list n" "map node_list B"] assms by simp

section \<open>The representation\<close>

definition prio_of :: "plmem \<Rightarrow> nat \<Rightarrow> int" where "prio_of m x = the (pl_prio m x)"

text \<open>The fields of the nodes do not overlap.\<close>

definition pl_apart :: "nat \<Rightarrow> nat list \<Rightarrow> bool" where
  "pl_apart head ns \<longleftrightarrow> distinct ns \<and> (\<forall>x \<in> set ns. head \<noteq> node_list x \<and> head \<noteq> prio_list x \<and> (\<forall>y \<in> set ns. node_list x \<noteq> prio_list y))"

text \<open>The nodes in blocks of equal priority, the blocks in increasing order.\<close>

definition blocks_ok :: "plmem \<Rightarrow> nat list list \<Rightarrow> bool" where
  "blocks_ok m bss \<longleftrightarrow> (\<forall>b \<in> set bss. b \<noteq> [] \<and> (\<forall>x \<in> set b. x \<noteq> 0 \<and> pl_prio m x = Some (prio_of m (hd b)))) \<and>
     sorted_wrt (<) (map (\<lambda>b. prio_of m (hd b)) bss)"

definition pl_rep :: "plmem \<Rightarrow> nat \<Rightarrow> nat list list \<Rightarrow> bool" where
  "pl_rep m head bss \<longleftrightarrow> ring (pl_heap m) (head # map node_list (concat bss)) \<and> prios (pl_heap m) (map hd bss) (set (concat bss)) \<and>
     blocks_ok m bss \<and> pl_apart head (concat bss)"

text \<open>An initialised node that is on no list.\<close>

definition pl_free :: "plmem \<Rightarrow> nat \<Rightarrow> nat list \<Rightarrow> nat \<Rightarrow> bool" where
  "pl_free m head ns n \<longleftrightarrow> n \<noteq> 0 \<and> pl_prio m n \<noteq> None \<and> ring (pl_heap m) [node_list n] \<and> ring (pl_heap m) [prio_list n] \<and> pl_apart head (n # ns)"

lemma pl_apart_subset: "pl_apart head ns \<Longrightarrow> set ms \<subseteq> set ns \<Longrightarrow> distinct ms \<Longrightarrow> pl_apart head ms"
  unfolding pl_apart_def by blast

lemma pl_apart_distinct: "pl_apart head ns \<Longrightarrow> distinct ns"
  by (simp add: pl_apart_def)

lemma pl_apart_fields: "pl_apart head ns \<Longrightarrow> x \<in> set ns \<Longrightarrow> y \<in> set ns \<Longrightarrow> node_list x \<noteq> prio_list y \<and> head \<noteq> node_list x \<and> head \<noteq> prio_list y"
  unfolding pl_apart_def by blast

lemma pl_apart_off:
  assumes "pl_apart head ns" "z \<in> set (head # map node_list ns)" "y \<in> set ns"
  shows "z \<noteq> prio_list y"
proof -
  have "z = head \<or> (\<exists>x \<in> set ns. z = node_list x)" using assms(2) by auto
  then show ?thesis
  proof
    assume "z = head"
    then show ?thesis using pl_apart_fields [OF assms(1,3,3)] by simp
  next
    assume "\<exists>x \<in> set ns. z = node_list x"
    then obtain x where "x \<in> set ns" "z = node_list x" ..
    then show ?thesis using pl_apart_fields [OF assms(1) _ assms(3), of x] by simp
  qed
qed

lemma pl_apart_disjoint: "pl_apart head ns \<Longrightarrow> X \<subseteq> set ns \<Longrightarrow> Y \<subseteq> set (head # map node_list ns) \<Longrightarrow> prio_list ` X \<inter> Y = {}"
proof -
  assume ap: "pl_apart head ns" and X: "X \<subseteq> set ns" and Y: "Y \<subseteq> set (head # map node_list ns)"
  have "prio_list y \<notin> Y" if "y \<in> X" for y
    using pl_apart_off [OF ap subsetD [OF Y] subsetD [OF X that], of "prio_list y"] by auto
  then show ?thesis by (auto simp: disjoint_iff)
qed

lemma blocks_prio: "blocks_ok m bss \<Longrightarrow> b \<in> set bss \<Longrightarrow> x \<in> set b \<Longrightarrow> get_prio m x = Inr (prio_of m (hd b)) \<and> prio_of m x = prio_of m (hd b)"
proof -
  assume "blocks_ok m bss" "b \<in> set bss" "x \<in> set b"
  then have x: "x \<noteq> 0" "pl_prio m x = Some (prio_of m (hd b))" unfolding blocks_ok_def by blast+
  then show ?thesis unfolding get_prio_def prio_of_def [of m x] by simp
qed

lemma blocks_split:
  "blocks_ok m (as @ bs) \<Longrightarrow> blocks_ok m as \<and> blocks_ok m bs"
  by (auto simp: blocks_ok_def sorted_wrt_append)

lemma blocks_hd: "blocks_ok m bss \<Longrightarrow> b \<in> set bss \<Longrightarrow> hd b \<in> set b"
  by (auto simp: blocks_ok_def)

section \<open>Adding\<close>

lemma add_loop_spec:
  "ring (pl_heap m) (map prio_list (map hd (pre @ rest))) \<Longrightarrow> rest \<noteq> [] \<Longrightarrow> \<forall>b \<in> set rest. get_prio m (hd b) = Inr (prio_of m (hd b)) \<Longrightarrow>
   get_prio m n = Inr p \<Longrightarrow> first = hd (hd (pre @ rest)) \<Longrightarrow>
   add_loop m n first (hd (hd rest)) prev head = Some (Inr (
     let prv = (case rev (takeWhile (\<lambda>b. prio_of m (hd b) \<le> p) rest) of [] \<Rightarrow> prev | b # _ \<Rightarrow> hd b)
     in case dropWhile (\<lambda>b. prio_of m (hd b) \<le> p) rest of [] \<Rightarrow> (first, prv, head) | b # _ \<Rightarrow> (hd b, prv, node_list (hd b))))"
proof (induction rest arbitrary: pre prev)
  case (Cons b rest)
  have q: "get_prio m (hd b) = Inr (prio_of m (hd b))" using Cons.prems(3) by simp
  show ?case
  proof (cases "p < prio_of m (hd b)")
    case True
    then show ?thesis using q Cons.prems(4) by (subst add_loop.simps) simp
  next
    case False
    have r: "ring (pl_heap m) (map prio_list (map hd pre) @ prio_list (hd b) # map prio_list (map hd rest))" using Cons.prems(1) by simp
    note nx = ring_next [OF r]
    show ?thesis
    proof (cases rest)
      case Nil
      have "get_next (pl_heap m) (prio_list (hd b)) = Inr (prio_list first)" using nx Nil Cons.prems(5) by (cases pre) auto
      then show ?thesis using False q Cons.prems(4) Nil by (subst add_loop.simps) simp
    next
      case (Cons c rest')
      have "distinct (map prio_list (map hd (pre @ b # rest)))" using ring_nodes [OF Cons.prems(1)] by simp
      then have ne: "hd c \<noteq> first" using Cons Cons.prems(5) by (cases pre) auto
      have "get_next (pl_heap m) (prio_list (hd b)) = Inr (prio_list (hd c))" using nx Cons by simp
      moreover have "add_loop m n first (hd (hd rest)) (hd b) head = Some (Inr (
          let prv = (case rev (takeWhile (\<lambda>b. prio_of m (hd b) \<le> p) rest) of [] \<Rightarrow> hd b | b # _ \<Rightarrow> hd b)
          in case dropWhile (\<lambda>b. prio_of m (hd b) \<le> p) rest of [] \<Rightarrow> (first, prv, head) | b # _ \<Rightarrow> (hd b, prv, node_list (hd b))))"
        using Cons.prems Cons by (intro Cons.IH [of "pre @ [b]"]) simp_all
      moreover have "(case rev (takeWhile (\<lambda>b. prio_of m (hd b) \<le> p) (b # rest)) of [] \<Rightarrow> prev | b # _ \<Rightarrow> hd b) =
          (case rev (takeWhile (\<lambda>b. prio_of m (hd b) \<le> p) rest) of [] \<Rightarrow> hd b | b # _ \<Rightarrow> hd b)"
        using False by (simp split: list.split)
      moreover have "dropWhile (\<lambda>b. prio_of m (hd b) \<le> p) (b # rest) = dropWhile (\<lambda>b. prio_of m (hd b) \<le> p) rest" using False by simp
      ultimately show ?thesis using False q Cons.prems(4) Cons ne
        by (subst add_loop.simps) (simp only: list.sel then_simps if_False if_True Let_def field_addresses not_False_eq_True)
    qed
  qed
qed simp

definition pl_area :: "nat \<Rightarrow> nat list \<Rightarrow> nat set" where
  "pl_area head ns = set (head # map node_list ns @ map prio_list ns)"

lemma nodes_phase:
  assumes "ring h (head # map node_list (A @ B))" "node h (node_list n)" "pl_apart head (n # A @ B)" "prios h L N" "set L \<union> N \<subseteq> set (n # A @ B)"
  shows "yields h (pl_area head (n # A @ B)) (list_add_tail h (node_list n) (hd (map node_list B @ [head])))
    (\<lambda>h'. ring h' (head # map node_list (A @ n # B)) \<and> prios h' L N)"
proof -
  let ?S = "set (head # map node_list (n # A @ B))"
  have "node_list n \<notin> set (head # map node_list (A @ B))" using assms(3) by (auto simp: pl_apart_def)
  then obtain h' where h': "list_add_tail h (node_list n) (hd (map node_list B @ [head])) = Inr h'" "ring h' (head # map node_list (A @ n # B))" "frame ?S h h'"
    using nodes_add [OF assms(1,2)] by (auto simp: yields_def)
  have "?S \<inter> prio_list ` (set L \<union> N) = {}" using pl_apart_disjoint [OF assms(3,5) subset_refl] by (simp only: Int_commute)
  then have "prios h' L N" using prios_frame [OF assms(4) h'(3)] by blast
  moreover have "frame (pl_area head (n # A @ B)) h h'" using h'(3) by (rule frame_mono) (auto simp: pl_area_def)
  ultimately show ?thesis using h' by (auto simp: yields_def)
qed

text \<open>Where the new node goes.\<close>

lemma while_stops: "xs = [] \<or> \<not> P (hd xs) \<Longrightarrow> takeWhile P xs = [] \<and> dropWhile P xs = xs"
  by (cases xs) auto

lemma blocks_take:
  fixes p :: int
  assumes "blocks_ok m bss"
  defines "as \<equiv> takeWhile (\<lambda>b. prio_of m (hd b) \<le> p) bss" and "bs \<equiv> dropWhile (\<lambda>b. prio_of m (hd b) \<le> p) bss"
  shows "takeWhile (\<lambda>x. prio_of m x \<le> p) (concat bss) = concat as" and "dropWhile (\<lambda>x. prio_of m x \<le> p) (concat bss) = concat bs"
    and "\<forall>b \<in> set as. prio_of m (hd b) \<le> p" and "\<forall>b \<in> set bs. p < prio_of m (hd b)"
proof -
  have e: "bss = as @ bs" by (simp add: as_def bs_def)
  have ok: "blocks_ok m as" "blocks_ok m bs" using blocks_split [of m as bs] assms(1) e by auto
  show as: "\<forall>b \<in> set as. prio_of m (hd b) \<le> p" unfolding as_def by (auto dest: set_takeWhileD)
  have sorted: "sorted_wrt (<) (map (\<lambda>b. prio_of m (hd b)) bs)" using ok(2) by (simp add: blocks_ok_def)
  have hd_bs: "p < prio_of m (hd (hd bs))" if "bs \<noteq> []" using hd_dropWhile [of "\<lambda>b. prio_of m (hd b) \<le> p" bss] that by (simp add: bs_def)
  show bs: "\<forall>b \<in> set bs. p < prio_of m (hd b)" using hd_bs sorted by (cases bs) auto
  have pas: "prio_of m x \<le> p" if x: "x \<in> set (concat as)" for x
  proof -
    obtain b where b: "b \<in> set as" "x \<in> set b" using x by auto
    then show ?thesis using blocks_prio [OF ok(1)] as by auto
  qed
  have "concat bs = [] \<or> p < prio_of m (hd (concat bs))" using hd_bs ok(2) by (cases bs) (auto simp: blocks_ok_def)
  then have "takeWhile (\<lambda>x. prio_of m x \<le> p) (concat bs) = []" "dropWhile (\<lambda>x. prio_of m x \<le> p) (concat bs) = concat bs"
    using while_stops [of "concat bs" "\<lambda>x. prio_of m x \<le> p"] by auto
  then show "takeWhile (\<lambda>x. prio_of m x \<le> p) (concat bss) = concat as" "dropWhile (\<lambda>x. prio_of m x \<le> p) (concat bss) = concat bs"
    using takeWhile_append2 [of "concat as" "\<lambda>x. prio_of m x \<le> p" "concat bs", OF pas]
      dropWhile_append2 [of "concat as" "\<lambda>x. prio_of m x \<le> p" "concat bs", OF pas] unfolding e concat_append by (simp_all only: append_Nil2)
qed

lemma blocks_insert:
  assumes ok: "blocks_ok m (as @ bs)" and as: "\<forall>b \<in> set as. prio_of m (hd b) \<le> prio_of m n" and bs: "\<forall>b \<in> set bs. prio_of m n < prio_of m (hd b)"
    and n: "n \<noteq> 0" "pl_prio m n \<noteq> None"
  shows "as \<noteq> [] \<Longrightarrow> prio_of m (hd (last as)) = prio_of m n \<Longrightarrow> blocks_ok m (butlast as @ (last as @ [n]) # bs)"
    and "as = [] \<or> prio_of m (hd (last as)) \<noteq> prio_of m n \<Longrightarrow> blocks_ok m (as @ [n] # bs)"
proof -
  have pn: "pl_prio m n = Some (prio_of m n)" using n(2) by (auto simp: prio_of_def)
  show "blocks_ok m (butlast as @ (last as @ [n]) # bs)" if join: "as \<noteq> []" "prio_of m (hd (last as)) = prio_of m n"
  proof -
    obtain as' l where l: "as = as' @ [l]" using join(1) by (cases as rule: rev_cases) auto
    have "l \<noteq> []" using ok l by (auto simp: blocks_ok_def)
    then show ?thesis using ok l join(2) pn n(1) by (auto simp: blocks_ok_def sorted_wrt_append)
  qed
  show "blocks_ok m (as @ [n] # bs)" if new: "as = [] \<or> prio_of m (hd (last as)) \<noteq> prio_of m n"
  proof -
    have "prio_of m (hd b) < prio_of m n" if "b \<in> set as" for b
    proof -
      obtain as' l where l: "as = as' @ [l]" using \<open>b \<in> set as\<close> by (cases as rule: rev_cases) auto
      have "prio_of m (hd l) < prio_of m n" using as new l by force
      moreover have "b = l \<or> prio_of m (hd b) < prio_of m (hd l)" using ok l that by (auto simp: blocks_ok_def sorted_wrt_append)
      ultimately show ?thesis by auto
    qed
    then show ?thesis using ok pn n(1) bs by (auto simp: blocks_ok_def sorted_wrt_append)
  qed
qed

lemma heap_update [simp]:
  "prio_of (m\<lparr>pl_heap := h\<rparr>) = prio_of m" "blocks_ok (m\<lparr>pl_heap := h\<rparr>) bss \<longleftrightarrow> blocks_ok m bss" "get_prio (m\<lparr>pl_heap := h\<rparr>) = get_prio m"
  by (auto simp: prio_of_def blocks_ok_def get_prio_def fun_eq_iff)

text \<open>A node is inserted behind the nodes of its priority.\<close>

definition pl_insert :: "plmem \<Rightarrow> nat \<Rightarrow> nat list \<Rightarrow> nat list" where
  "pl_insert m n ns = takeWhile (\<lambda>x. prio_of m x \<le> prio_of m n) ns @ n # dropWhile (\<lambda>x. prio_of m x \<le> prio_of m n) ns"

lemma pl_free_facts:
  assumes "pl_free m head ns n"
  shows "get_prio m n = Inr (prio_of m n)" "n \<noteq> 0" "pl_prio m n \<noteq> None" "node (pl_heap m) (node_list n)" "node (pl_heap m) (prio_list n)" "n \<notin> set ns"
    "list_empty (pl_heap m) (node_list n) = Inr True" "list_empty (pl_heap m) (prio_list n) = Inr True" "pl_apart head (n # ns)"
proof -
  have r: "ring (pl_heap m) ([] @ node_list n # [])" "ring (pl_heap m) ([] @ prio_list n # [])" using assms by (simp_all add: pl_free_def)
  show "list_empty (pl_heap m) (node_list n) = Inr True" "list_empty (pl_heap m) (prio_list n) = Inr True" using ring_empty [OF r(1)] ring_empty [OF r(2)] by simp_all
  show "node (pl_heap m) (node_list n)" "node (pl_heap m) (prio_list n)" using ring_nodes [OF r(1)] ring_nodes [OF r(2)] by simp_all
  show n: "n \<noteq> 0" "pl_prio m n \<noteq> None" "pl_apart head (n # ns)" using assms by (auto simp: pl_free_def)
  show "get_prio m n = Inr (prio_of m n)" using n(1,2) by (auto simp: get_prio_def prio_of_def)
  show "n \<notin> set ns" using n(3) by (simp add: pl_apart_def)
qed

lemma pl_rep_empty:
  assumes "pl_rep m head bss"
  shows "list_empty (pl_heap m) head = Inr (bss = [])"
proof -
  have r: "ring (pl_heap m) ([] @ head # map node_list (concat bss))" using assms by (simp add: pl_rep_def)
  have "concat bss = [] \<longleftrightarrow> bss = []" using assms by (cases bss) (auto simp: pl_rep_def blocks_ok_def)
  then show ?thesis using ring_empty [OF r] by simp
qed

text \<open>The first phase of \<^verbatim>\<open>plist_add\<close>: the node becomes the leader of a new block, or joins a block.\<close>

definition add_prio :: "plmem \<Rightarrow> nat \<Rightarrow> nat list list \<Rightarrow> nat list list \<Rightarrow> nat list list" where
  "add_prio m n as bs = (if as \<noteq> [] \<and> prio_of m (hd (last as)) = prio_of m n then butlast as @ (last as @ [n]) # bs else as @ [n] # bs)"

lemma add_prio_facts:
  assumes "blocks_ok m (as @ bs)"
  shows "concat (add_prio m n as bs) = concat as @ n # concat bs"
    and "map hd (add_prio m n as bs) = (if as \<noteq> [] \<and> prio_of m (hd (last as)) = prio_of m n then map hd (as @ bs) else map hd as @ n # map hd bs)"
proof -
  have "concat (butlast as @ [last as]) = concat as" "map hd (butlast as @ [last as]) = map hd as" if "as \<noteq> []" using that by simp_all
  moreover have "last as \<noteq> []" if "as \<noteq> []" using assms that by (auto simp: blocks_ok_def)
  ultimately show "concat (add_prio m n as bs) = concat as @ n # concat bs"
    "map hd (add_prio m n as bs) = (if as \<noteq> [] \<and> prio_of m (hd (last as)) = prio_of m n then map hd (as @ bs) else map hd as @ n # map hd bs)"
    unfolding add_prio_def by (auto simp del: append_butlast_last_id)
qed

lemma add_prio_phase:
  assumes rep: "pl_rep m head (as @ bs)" "as @ bs \<noteq> []" and free: "pl_free m head (concat (as @ bs)) n"
  defines "iter \<equiv> (if bs = [] then hd (hd as) else hd (hd bs))" and "join \<equiv> as \<noteq> [] \<and> prio_of m (hd (last as)) = prio_of m n"
  shows "yields (pl_heap m) (prio_list ` set (n # concat (as @ bs))) (if \<not> join then list_add_tail (pl_heap m) (prio_list n) (prio_list iter) else Inr (pl_heap m))
    (\<lambda>h'. prios h' (map hd (add_prio m n as bs)) (set (n # concat (as @ bs))))"
proof -
  let ?N = "set (concat (as @ bs))"
  have pr: "prios (pl_heap m) (map hd as @ map hd bs) ?N" and ok: "blocks_ok m (as @ bs)" using rep(1) by (simp_all add: pl_rep_def)
  note n = pl_free_facts [OF free]
  have sub: "hd b \<in> ?N" if "b \<in> set (as @ bs)" for b using that blocks_hd [OF ok that] by auto
  then have nl: "n \<notin> ?N \<union> set (map hd as @ map hd bs)" using n(6) by auto
  note f = add_prio_facts [OF ok, of n, folded join_def]
  show ?thesis
  proof (cases join)
    case True
    have "prios (pl_heap m) (map hd (as @ bs)) (insert n ?N)" using pr free nl by (auto simp: prios_def pl_free_def)
    then show ?thesis using True f by (auto simp: frame_refl intro!: yieldsI)
  next
    case False
    have iter: "iter = hd (map hd bs @ map hd as)" using rep(2) by (auto simp: iter_def hd_append hd_map)
    have "ring (pl_heap m) [prio_list n]" using free by (simp add: pl_free_def)
    then have "yields (pl_heap m) (prio_list ` set (n # map hd as @ map hd bs)) (list_add_tail (pl_heap m) (prio_list n) (prio_list iter))
        (\<lambda>h'. prios h' (map hd as @ n # map hd bs) (insert n ?N))"
      unfolding iter using pr nl rep(2) by (intro prios_add) auto
    then have "yields (pl_heap m) (prio_list ` set (n # concat (as @ bs))) (list_add_tail (pl_heap m) (prio_list n) (prio_list iter))
        (\<lambda>h'. prios h' (map hd as @ n # map hd bs) (insert n ?N))"
    proof (rule yields_mono)
      show "prio_list ` set (n # map hd as @ map hd bs) \<subseteq> prio_list ` set (n # concat (as @ bs))" by (rule image_mono) (use sub in auto)
    qed
    then show ?thesis using False f(2) by (simp only: if_False if_True not_False_eq_True list.set)
  qed
qed

lemma last_map_suffix: "last (h # map f (A @ x # ys)) = f (last (x # ys))"
  by (cases ys rule: rev_cases) simp_all

lemma hd_append_Cons: "hd (xs @ y # ys) = hd (xs @ [y])"
  by (cases xs) simp_all

lemma hd_map_append: "xs \<noteq> [] \<Longrightarrow> hd (map f xs @ ys) = f (hd xs)"
  by (cases xs) simp_all

lemma plist_add_ok:
  assumes rep: "pl_rep m head bss" and free: "pl_free m head (concat bss) n"
  shows "\<exists>h' bss'. plist_add m n head = Some (Inr h') \<and> pl_rep (m\<lparr>pl_heap := h'\<rparr>) head bss' \<and> concat bss' = pl_insert m n (concat bss) \<and>
    frame (pl_area head (n # concat bss)) (pl_heap m) h'"
proof -
  define as where "as = takeWhile (\<lambda>b. prio_of m (hd b) \<le> prio_of m n) bss"
  define bs where "bs = dropWhile (\<lambda>b. prio_of m (hd b) \<le> prio_of m n) bss"
  have e: "bss = as @ bs" by (simp add: as_def bs_def)
  let ?h = "pl_heap m" and ?bss = "add_prio m n as bs" and ?next = "hd (map node_list (concat bs) @ [head])"
  note n = pl_free_facts [OF free]
  have ok: "blocks_ok m bss" and rings: "ring ?h (head # map node_list (concat as @ concat bs))" using rep e by (simp_all add: pl_rep_def)
  note t = blocks_take [OF ok, of "prio_of m n", folded as_def bs_def]
  have ok': "blocks_ok m ?bss" using blocks_insert [OF ok [unfolded e] t(3,4) n(2,3)] by (auto simp: add_prio_def)
  note f = add_prio_facts [OF ok [unfolded e], of n]
  have ap: "pl_apart head (n # concat as @ concat bs)" using n(9) e by simp
  have ap': "pl_apart head (concat ?bss)" using ap by (rule pl_apart_subset) (use ap f(1) in \<open>auto simp: pl_apart_def\<close>)
  have "\<exists>h1. (\<forall>h'. list_add_tail h1 (node_list n) ?next = Inr h' \<longrightarrow> plist_add m n head = Some (Inr h')) \<and>
      prios h1 (map hd ?bss) (set (n # concat (as @ bs))) \<and> frame (prio_list ` set (n # concat (as @ bs))) ?h h1"
  proof (cases "bss = []")
    case True
    then have "prios ?h (map hd ?bss) (set (n # concat (as @ bs)))" using e free by (auto simp: prios_def add_prio_def pl_free_def)
    then show ?thesis using True e pl_rep_empty [OF rep] n(7,8)
      by (intro exI [of _ ?h]) (simp add: plist_add_def plist_node_empty_def plist_head_empty_def frame_refl)
  next
    case False
    let ?join = "as \<noteq> [] \<and> prio_of m (hd (last as)) = prio_of m n" and ?iter = "if bs = [] then hd (hd as) else hd (hd bs)"
    let ?prev = "case rev as of [] \<Rightarrow> 0 | b # _ \<Rightarrow> hd b"
    obtain h1 where h1: "(if \<not> ?join then list_add_tail ?h (prio_list n) (prio_list ?iter) else Inr ?h) = Inr h1"
      "prios h1 (map hd ?bss) (set (n # concat (as @ bs)))" "frame (prio_list ` set (n # concat (as @ bs))) ?h h1"
      using add_prio_phase [of m head as bs n] rep free False e unfolding yields_def by auto
    have lead: "get_prio m (hd b) = Inr (prio_of m (hd b)) \<and> hd b \<noteq> 0" if "b \<in> set bss" for b
      using blocks_prio [OF ok that blocks_hd [OF ok that]] blocks_hd [OF ok that] ok that by (auto simp: blocks_ok_def)
    have "ring ?h (map prio_list (map hd ([] @ bss)))" using rep by (simp add: pl_rep_def prios_def)
    then have loop: "add_loop m n (hd (hd bss)) (hd (hd bss)) 0 head = Some (Inr (?iter, ?prev, ?next))"
    proof (subst add_loop_spec [where p = "prio_of m n" and pre = "[]"], goal_cases)
      case 6
      have "concat bs \<noteq> [] \<and> hd (concat bs) = hd (hd bs)" if "bs \<noteq> []" using that ok e by (cases bs) (auto simp: blocks_ok_def)
      then show ?case using e False unfolding as_def [symmetric] bs_def [symmetric] by (auto simp: Let_def hd_map hd_append split: list.split)
    qed (use False lead n(1) in simp_all)
    have first: "plist_first ?h head = Inr (hd (hd bss))"
    proof -
      have r: "ring ?h ([] @ head # map node_list (concat bss))" using rings e by simp
      have c: "concat bss \<noteq> [] \<and> hd (concat bss) = hd (hd bss)" using False ok by (cases bss) (auto simp: blocks_ok_def)
      have "get_next ?h head = Inr (node_list (hd (hd bss)))" using ring_next [OF r] hd_map_append [OF conjunct1 [OF c], of node_list] c by (simp only: append_Nil)
      then show ?thesis by (simp add: plist_first_def)
    qed
    have prev: "(if ?prev = 0 then Inr True else rbind (get_prio m ?prev) (\<lambda>q. rbind (get_prio m n) (\<lambda>p. Inr (q \<noteq> p)))) = Inr (\<not> ?join)"
    proof (cases as rule: rev_cases)
      case (snoc as' l)
      then show ?thesis using lead [of l] n(1) e by simp
    qed simp
    show ?thesis using h1 loop first prev pl_rep_empty [OF rep] n(7,8) False
      by (intro exI [of _ h1]) (simp add: plist_add_def Let_def plist_node_empty_def plist_head_empty_def)
  qed
  then obtain h1 where h1: "\<forall>h'. list_add_tail h1 (node_list n) ?next = Inr h' \<longrightarrow> plist_add m n head = Some (Inr h')"
    "prios h1 (map hd ?bss) (set (n # concat (as @ bs)))" "frame (prio_list ` set (n # concat (as @ bs))) ?h h1" by blast
  have "prio_list ` set (n # concat (as @ bs)) \<inter> set (head # map node_list (concat as @ concat bs)) = {}"
    by (rule pl_apart_disjoint [OF ap]) auto
  then have r1: "ring h1 (head # map node_list (concat as @ concat bs))" using ring_frame [OF rings h1(3)] by simp
  have "set (map hd ?bss) \<union> set (n # concat (as @ bs)) \<subseteq> set (n # concat as @ concat bs)"
  proof -
    have "set (map hd ?bss) \<subseteq> set (concat ?bss)" using blocks_hd [OF ok'] by auto
    then show ?thesis unfolding f(1) by auto
  qed
  moreover have "node h1 (node_list n)" using h1(3) n(4) by (simp add: frame_def)
  ultimately obtain h' where h': "list_add_tail h1 (node_list n) ?next = Inr h'" "ring h' (head # map node_list (concat as @ n # concat bs))"
    "prios h' (map hd ?bss) (set (n # concat (as @ bs)))" "frame (pl_area head (n # concat as @ concat bs)) h1 h'"
    using nodes_phase [OF r1 _ ap h1(2)] unfolding yields_def by blast
  have "set (concat ?bss) = set (n # concat (as @ bs))" using f(1) by auto
  then have "pl_rep (m\<lparr>pl_heap := h'\<rparr>) head ?bss" using h'(2,3) ok' ap' f(1) by (simp add: pl_rep_def del: set_concat)
  moreover have "concat ?bss = pl_insert m n (concat bss)" using f(1) t(1,2) by (simp add: pl_insert_def)
  moreover have "frame (pl_area head (n # concat bss)) ?h h'"
    using frame_trans [OF h1(3) h'(4)] e by (elim frame_mono) (auto simp: pl_area_def)
  ultimately show ?thesis using h1(1) h'(1) by blast
qed

section \<open>Deleting\<close>

text \<open>The blocks without a node \<open>n\<close> that lies between \<open>c\<close> and \<open>d\<close> in its block.\<close>

definition del_blocks :: "nat list list \<Rightarrow> nat list \<Rightarrow> nat list \<Rightarrow> nat list list \<Rightarrow> nat list list" where
  "del_blocks as c d bs = as @ (if c @ d = [] then [] else [c @ d]) @ bs"

definition leave_prio :: "lheap \<Rightarrow> nat \<Rightarrow> nat \<Rightarrow> lheap res" where
  "leave_prio h pnode head =
     rbind (list_empty h (prio_list pnode)) (\<lambda>e. if \<not> e then
       rbind (get_next h (node_list pnode)) (\<lambda>n.
       rbind (if n \<noteq> head then rbind (list_empty h (prio_list (node_entry n))) (\<lambda>e.
           if e then list_add h (prio_list (node_entry n)) (prio_list pnode) else Inr h)
         else Inr h) (\<lambda>h. list_del_init h (prio_list pnode)))
     else Inr h)"

lemma plist_del_phases: "plist_del h n head = rbind (leave_prio h n head) (\<lambda>h. list_del_init h (node_list n))"
  unfolding plist_del_def leave_prio_def Let_def by (simp add: rbind_assoc)

lemma concat_del_blocks: "concat (del_blocks as c d bs) = concat as @ c @ d @ concat bs"
  by (auto simp: del_blocks_def)

lemma prios_less: "prios h ls N \<Longrightarrow> M \<subseteq> N \<Longrightarrow> prios h ls M"
  by (auto simp: prios_def)

lemma prios_single: "prios h ls N \<Longrightarrow> x \<in> N \<Longrightarrow> x \<notin> set ls \<Longrightarrow> list_empty h (prio_list x) = Inr True"
  using ring_empty [of h "[]" "prio_list x" "[]"] by (auto simp: prios_def)

lemma prios_leader: "prios h (A @ x # B) N \<Longrightarrow> list_empty h (prio_list x) = Inr (A @ B = [])"
  using ring_empty [of h "map prio_list A" "prio_list x" "map prio_list B"] by (auto simp: prios_def)

lemma leave_prio_ok:
  assumes rep: "pl_rep m head (as @ (c @ n # d) # bs)"
  defines "N \<equiv> set (concat (as @ (c @ n # d) # bs))"
  shows "yields (pl_heap m) (prio_list ` N) (leave_prio (pl_heap m) n head)
    (\<lambda>h'. prios h' (map hd (del_blocks as c d bs)) (N - {n}) \<and> ring h' [prio_list n])"
proof -
  let ?h = "pl_heap m" and ?bss = "as @ (c @ n # d) # bs"
  have pr: "prios ?h (map hd ?bss) N" and ok: "blocks_ok m ?bss" and ap: "pl_apart head (concat ?bss)"
    and nodes: "ring ?h (head # map node_list (concat ?bss))" using rep by (simp_all only: pl_rep_def N_def)
  have dist: "distinct (concat as @ c @ n # d @ concat bs)" using pl_apart_distinct [OF ap] by simp
  have lead: "set (map hd as) \<subseteq> set (concat as)" "set (map hd bs) \<subseteq> set (concat bs)" using blocks_hd [OF ok] by auto
  have off: "x \<notin> set (map hd as)" "x \<notin> set (map hd bs)" if "x \<in> set (c @ n # d)" for x
    using that dist subsetD [OF lead(1), of x] subsetD [OF lead(2), of x] by (auto simp del: set_concat set_map)
  have nN: "n \<in> N" "set (map hd as @ map hd bs) \<subseteq> N" using lead unfolding N_def by (simp, simp del: set_concat) blast
  show ?thesis
  proof (cases "c = []")
    case False
    have L: "map hd ?bss = map hd (del_blocks as c d bs)" using False by (auto simp: del_blocks_def)
    have "n \<notin> set (map hd ?bss)" using False dist off [of n] hd_in_set [OF False] by auto
    then have "list_empty ?h (prio_list n) = Inr True" "ring ?h [prio_list n]" using prios_single [OF pr] pr nN(1) by (auto simp: prios_def)
    moreover have "prios ?h (map hd (del_blocks as c d bs)) (N - {n})" using prios_less [OF pr, of "N - {n}"] unfolding L by blast
    ultimately show ?thesis by (auto simp: leave_prio_def frame_refl intro!: yieldsI)
  next
    case True
    have pr': "prios ?h (map hd as @ n # map hd bs) N" using pr True by simp
    note e = prios_leader [OF pr']
    show ?thesis
    proof (cases "as @ bs = []")
      case alone: True
      have "x \<in> N \<Longrightarrow> ring ?h [prio_list x]" for x using pr' alone by (cases "x = n") (auto simp: prios_def)
      moreover have "set (map hd (del_blocks as c d bs)) \<subseteq> N" "length (map hd (del_blocks as c d bs)) \<le> 1"
        using alone True by (auto simp: del_blocks_def N_def)
      ultimately have "prios ?h (map hd (del_blocks as c d bs)) (N - {n}) \<and> ring ?h [prio_list n]"
        using nN(1) by (cases "del_blocks as c d bs") (auto simp: prios_def simp del: ring_simps(2))
      then show ?thesis using e alone by (auto simp: leave_prio_def frame_refl intro!: yieldsI)
    next
      case False
      let ?nx = "hd (map node_list (d @ concat bs) @ [head])"
      have r: "ring ?h ((head # map node_list (concat as)) @ node_list n # map node_list (d @ concat bs))" using nodes True by simp
      have nx: "get_next ?h (node_list n) = Inr ?nx" using ring_next [OF r] hd_append_Cons [of "map node_list (d @ concat bs)" head "map node_list (concat as) @ [node_list n]"] by (simp only: append_Cons append_assoc)
      have sub: "prio_list ` set (map hd as @ n # map hd bs) \<subseteq> prio_list ` N" using nN by (intro image_mono) auto
      show ?thesis
      proof (cases d)
        case (Cons d1 d')
        have d1: "d1 \<in> N - set (map hd as @ n # map hd bs)" "head \<noteq> node_list d1"
          using Cons True dist off [of d1] pl_apart_fields [OF ap, of d1 d1] by (auto simp: N_def)
        have "list_empty ?h (prio_list d1) = Inr True" using prios_single [OF pr'] d1 by blast
        then have "leave_prio ?h n head = rbind (list_add ?h (prio_list d1) (prio_list n)) (\<lambda>h. list_del_init h (prio_list n))"
          using e False nx Cons d1(2) by (auto simp: leave_prio_def)
        moreover have "map hd (del_blocks as c d bs) = map hd as @ d1 # map hd bs" using Cons True by (simp add: del_blocks_def)
        moreover have "prio_list ` set (d1 # map hd as @ n # map hd bs) \<subseteq> prio_list ` N" using nN d1(1) by (intro image_mono) auto
        ultimately show ?thesis using yields_mono [OF prios_replace [OF pr' d1(1)]] by simp
      next
        case Nil
        have "rbind (list_empty ?h (prio_list (node_entry ?nx))) f = f False" if "?nx \<noteq> head" for f :: "bool \<Rightarrow> lheap res"
        proof (cases bs)
          case (Cons b bs')
          have "b \<noteq> []" using ok Cons by (auto simp: blocks_ok_def)
          then have "node_entry ?nx = hd b" using Nil Cons by (cases b) auto
          moreover have "prios ?h ((map hd as @ [n]) @ hd b # map hd bs') N" using pr' Cons by simp
          ultimately show ?thesis using prios_leader by fastforce
        qed (use that Nil in simp)
        then have "leave_prio ?h n head = list_del_init ?h (prio_list n)" using e False nx by (auto simp: leave_prio_def)
        moreover have "map hd (del_blocks as c d bs) = map hd as @ map hd bs" using Nil True by (simp add: del_blocks_def)
        moreover have "map hd as @ map hd bs \<noteq> []" using False by simp
        ultimately show ?thesis using yields_mono [OF prios_del [OF pr'] sub] by simp
      qed
    qed
  qed
qed

lemma blocks_order:
  assumes "blocks_ok m (as @ b # bs)"
  shows "x \<in> set (concat as) \<Longrightarrow> prio_of m x < prio_of m (hd b)" "x \<in> set b \<Longrightarrow> prio_of m x = prio_of m (hd b)"
    "x \<in> set (concat bs) \<Longrightarrow> prio_of m (hd b) < prio_of m x"
proof -
  have srt: "\<forall>a \<in> set as. prio_of m (hd a) < prio_of m (hd b)" "\<forall>a \<in> set bs. prio_of m (hd b) < prio_of m (hd a)"
    using assms by (auto simp: blocks_ok_def sorted_wrt_append)
  have p: "prio_of m x = prio_of m (hd a)" if "a \<in> set (as @ b # bs)" "x \<in> set a" for a x using blocks_prio [OF assms that] by blast
  show "prio_of m x < prio_of m (hd b)" if x: "x \<in> set (concat as)"
  proof -
    obtain a where "a \<in> set as" "x \<in> set a" using x by auto
    then show ?thesis using p [of a x] srt(1) by simp
  qed
  show "prio_of m (hd b) < prio_of m x" if x: "x \<in> set (concat bs)"
  proof -
    obtain a where "a \<in> set bs" "x \<in> set a" using x by auto
    then show ?thesis using p [of a x] srt(2) by simp
  qed
  show "prio_of m x = prio_of m (hd b)" if "x \<in> set b" using p that by simp
qed

lemma pl_insert_at:
  assumes "\<And>x. x \<in> set A \<Longrightarrow> prio_of m x \<le> prio_of m n" "\<And>x. x \<in> set B \<Longrightarrow> prio_of m n < prio_of m x"
  shows "pl_insert m n (A @ B) = A @ n # B"
proof -
  have "takeWhile (\<lambda>x. prio_of m x \<le> prio_of m n) B = [] \<and> dropWhile (\<lambda>x. prio_of m x \<le> prio_of m n) B = B"
    using assms(2) [of "hd B"] by (intro while_stops) (cases B; auto)
  then show ?thesis using takeWhile_append2 [of A "\<lambda>x. prio_of m x \<le> prio_of m n" B, OF assms(1)]
      dropWhile_append2 [of A "\<lambda>x. prio_of m x \<le> prio_of m n" B, OF assms(1)] by (simp only: pl_insert_def append_Nil2)
qed

lemma blocks_replace:
  assumes ok: "blocks_ok m (as @ b # bs)" and b': "b' \<noteq> []" "set b' \<subseteq> set b"
  shows "blocks_ok m (as @ b' # bs)"
proof -
  have p: "prio_of m (hd b') = prio_of m (hd b)" using blocks_order(2) [OF ok, of "hd b'"] hd_in_set [OF b'(1)] b'(2) by blast
  have "sorted_wrt (<) (map (\<lambda>b. prio_of m (hd b)) (as @ b' # bs))" using ok p unfolding blocks_ok_def by simp
  moreover have "a \<noteq> [] \<and> (\<forall>x \<in> set a. x \<noteq> 0 \<and> pl_prio m x = Some (prio_of m (hd a)))" if "a \<in> set (as @ b' # bs)" for a
  proof (cases "a = b'")
    case True
    then show ?thesis using ok b' p unfolding blocks_ok_def by auto
  next
    case False
    then have "a \<in> set (as @ b # bs)" using that by auto
    then show ?thesis using ok unfolding blocks_ok_def by blast
  qed
  ultimately show ?thesis unfolding blocks_ok_def by blast
qed

lemma blocks_del:
  assumes "blocks_ok m (as @ (c @ n # d) # bs)"
  shows "blocks_ok m (del_blocks as c d bs)"
proof (cases "c @ d = []")
  case True
  then show ?thesis using assms by (auto simp: del_blocks_def blocks_ok_def sorted_wrt_append)
next
  case False
  then show ?thesis using blocks_replace [OF assms, of "c @ d"] by (auto simp: del_blocks_def)
qed

lemma plist_del_ok:
  assumes rep: "pl_rep m head (as @ (c @ n # d) # bs)"
  shows "\<exists>h'. plist_del (pl_heap m) n head = Inr h' \<and> pl_rep (m\<lparr>pl_heap := h'\<rparr>) head (del_blocks as c d bs) \<and>
    pl_free (m\<lparr>pl_heap := h'\<rparr>) head (concat (del_blocks as c d bs)) n \<and> frame (pl_area head (concat (as @ (c @ n # d) # bs))) (pl_heap m) h'"
proof -
  let ?h = "pl_heap m" and ?bss = "as @ (c @ n # d) # bs" and ?ds = "del_blocks as c d bs"
  let ?N = "set (concat ?bss)" and ?S = "set (head # map node_list (concat ?bss))"
  have ok: "blocks_ok m ?bss" and ap: "pl_apart head (concat ?bss)" and nodes: "ring ?h (head # map node_list (concat ?bss))"
    using rep by (simp_all only: pl_rep_def)
  obtain h1 where h1: "leave_prio ?h n head = Inr h1" "prios h1 (map hd ?ds) (?N - {n})" "ring h1 [prio_list n]" "frame (prio_list ` ?N) ?h h1"
    using leave_prio_ok [OF rep] unfolding yields_def by blast
  have "ring h1 (head # map node_list (concat ?bss))" using pl_apart_disjoint [OF ap subset_refl subset_refl] by (rule ring_frame [OF nodes h1(4)])
  then have "ring h1 (head # map node_list ((concat as @ c) @ n # (d @ concat bs)))" by simp
  from nodes_del [OF this] obtain h' where h': "list_del_init h1 (node_list n) = Inr h'" "ring h' (head # map node_list (concat ?ds))"
    "ring h' [node_list n]" "frame ?S h1 h'" unfolding yields_def by (auto simp: concat_del_blocks)
  have dist: "distinct (concat ?bss)" using pl_apart_distinct [OF ap] .
  have sets: "set (concat ?ds) = ?N - {n}" "distinct (n # concat ?ds)" using dist by (auto simp: concat_del_blocks)
  have okd: "blocks_ok m ?ds" by (rule blocks_del [OF ok])
  have "set (map hd ?ds) \<subseteq> set (concat ?ds)" using blocks_hd [OF okd] by auto
  then have "?S \<inter> prio_list ` (set (map hd ?ds) \<union> (?N - {n})) = {}"
    using sets(1) pl_apart_disjoint [OF ap _ subset_refl, of "set (map hd ?ds) \<union> (?N - {n})"] by (simp only: Int_commute) blast
  then have "prios h' (map hd ?ds) (?N - {n})" using prios_frame [OF h1(2) h'(4)] by blast
  moreover have "ring h' [prio_list n]"
    using pl_apart_disjoint [OF ap _ subset_refl, of "{n}"] by (intro ring_frame [OF h1(3) h'(4)]) auto
  moreover have "pl_apart head (concat ?ds)" "pl_apart head (n # concat ?ds)"
    using sets by (auto intro!: pl_apart_subset [OF ap])
  moreover have "n \<noteq> 0" "pl_prio m n \<noteq> None" using ok by (auto simp: blocks_ok_def)
  moreover have "frame (pl_area head (concat ?bss)) ?h h'" using frame_trans [OF h1(4) h'(4)] by (rule frame_mono) (auto simp: pl_area_def)
  ultimately show ?thesis using h1(1) h'(1-3) okd sets(1) unfolding pl_rep_def pl_free_def plist_del_phases by simp
qed

section \<open>Requeueing\<close>

lemma requeue_loop_spec:
  "ring (pl_heap m) (head # map node_list (A @ x # ys @ zs)) \<Longrightarrow> get_prio m n = Inr p \<Longrightarrow> \<forall>y \<in> set ys. get_prio m y = Inr p \<Longrightarrow>
   zs = [] \<or> (\<exists>q. get_prio m (hd zs) = Inr q \<and> q \<noteq> p) \<Longrightarrow>
   requeue_loop m n (node_list x) head = Some (Inr (hd (map node_list zs @ [head])))"
proof (induction ys arbitrary: A x)
  case Nil
  then have r: "ring (pl_heap m) ((head # map node_list A) @ node_list x # map node_list zs)" by simp
  have nx: "get_next (pl_heap m) (node_list x) = Inr (hd (map node_list zs @ [head]))"
    using ring_next [OF r] hd_append_Cons [of "map node_list zs" head "map node_list A @ [node_list x]"] by (simp only: append_Cons append_assoc)
  show ?case
  proof (cases zs)
    case (Cons z zs')
    have "node_list z \<noteq> head" using ring_nodes [OF r] Cons by auto
    then show ?thesis using nx Nil.prems(2,4) Cons by (subst requeue_loop.simps) auto
  qed (use nx in \<open>subst requeue_loop.simps; simp\<close>)
next
  case (Cons y ys)
  then have r: "ring (pl_heap m) ((head # map node_list A) @ node_list x # map node_list (y # ys @ zs))" by simp
  have "get_next (pl_heap m) (node_list x) = Inr (node_list y)" using ring_next [OF r] by simp
  moreover have "node_list y \<noteq> head" using ring_nodes [OF r] by auto
  moreover have "requeue_loop m n (node_list y) head = Some (Inr (hd (map node_list zs @ [head])))"
    using Cons.prems by (intro Cons.IH [of "A @ [x]"]) simp_all
  ultimately show ?case using Cons.prems(2,3) by (subst requeue_loop.simps) simp
qed

lemma plist_requeue_ok:
  assumes rep: "pl_rep m head (as @ (c @ n # d) # bs)"
  shows "\<exists>h'. plist_requeue m n head = Some (Inr h') \<and> pl_rep (m\<lparr>pl_heap := h'\<rparr>) head (as @ (c @ d @ [n]) # bs) \<and>
    frame (pl_area head (concat (as @ (c @ n # d) # bs))) (pl_heap m) h'"
proof -
  let ?h = "pl_heap m" and ?bss = "as @ (c @ n # d) # bs" and ?ds = "del_blocks as c d bs"
  let ?p = "prio_of m n" and ?all = "d @ concat bs"
  have ok: "blocks_ok m ?bss" and ap: "pl_apart head (concat ?bss)" and "ring ?h (head # map node_list (concat ?bss))"
    using rep by (simp_all only: pl_rep_def)
  then have r: "ring ?h ((head # map node_list (concat as @ c)) @ node_list n # map node_list ?all)" by simp
  note ord = blocks_order [OF ok]
  have gp: "get_prio m x = Inr (prio_of m x)" if x: "x \<in> set (concat ?bss)" for x
  proof -
    obtain b where "b \<in> set ?bss" "x \<in> set b" using x unfolding set_concat by blast
    from blocks_prio [OF ok this] show ?thesis by simp
  qed
  have bp: "prio_of m x = ?p" if "x \<in> set (c @ n # d)" for x using ord(2) [of x] ord(2) [of n] that by simp
  have hi: "?p < prio_of m x" if "x \<in> set (concat bs)" for x using ord(3) [of x] ord(2) [of n] that by simp
  have dist: "distinct (concat as @ c @ n # ?all)" using pl_apart_distinct [OF ap] by simp
  have e: "plist_head_empty ?h head = Inr False" "plist_node_empty ?h n = Inr False"
    using pl_rep_empty [OF rep] ring_empty [OF r] by (simp_all add: plist_head_empty_def plist_node_empty_def)
  have cr: "circ ?h head (map node_list (concat as @ c @ n # ?all))" using r by simp
  have lst: "plist_last ?h head = Inr (last (n # ?all))"
  proof -
    have "last (head # map node_list (concat as @ c @ n # ?all)) = node_list (last (n # ?all))"
      using last_map_suffix [of head node_list "concat as @ c" n ?all] by (simp only: append_assoc)
    then show ?thesis using circ_head [OF cr] by (simp only: plist_last_def rbind_simps field_addresses)
  qed
  show ?thesis
  proof (cases "?all = []")
    case True
    then have "plist_requeue m n head = Some (Inr ?h)" using e lst by (simp add: plist_requeue_def)
    then show ?thesis using rep True frame_refl by (intro exI [of _ ?h]) simp
  next
    case False
    have nl: "n \<noteq> last (n # ?all)" using dist False last_in_set [OF False] by auto
    have nx: "plist_next ?h n = Inr (hd ?all)"
      using ring_next [OF r] hd_map_append [OF False, of node_list] by (simp only: plist_next_def rbind_simps field_addresses)
    have inall: "hd ?all \<in> set (concat ?bss)" "n \<in> set (concat ?bss)" using hd_in_set [OF False] by auto
    show ?thesis
    proof (cases d)
      case Nil
      have "hd ?all \<in> set (concat bs)" using Nil False hd_in_set [OF False] by simp
      then have "prio_of m (hd ?all) \<noteq> ?p" using hi [of "hd ?all"] by simp
      then have "plist_requeue m n head = Some (Inr ?h)" using e lst nl nx gp [OF inall(1)] gp [OF inall(2)]
        by (simp only: plist_requeue_def Let_def then_simps if_False if_True not_sym simp_thms)
      then show ?thesis using rep Nil frame_refl by (intro exI [of _ ?h]) simp
    next
      case (Cons d1 d')
      obtain h1 where h1: "plist_del ?h n head = Inr h1" "pl_rep (m\<lparr>pl_heap := h1\<rparr>) head ?ds" "pl_free (m\<lparr>pl_heap := h1\<rparr>) head (concat ?ds) n"
        "frame (pl_area head (concat ?bss)) ?h h1" using plist_del_ok [OF rep] by blast
      let ?next = "hd (map node_list (concat bs) @ [head])" and ?A = "concat as @ c @ d"
      have cd: "concat ?ds = ?A @ concat bs" "map hd ?ds = map hd (as @ (c @ d @ [n]) # bs)"
        using Cons by (simp_all add: concat_del_blocks) (auto simp: del_blocks_def hd_append)
      have r1: "ring h1 (head # map node_list (?A @ concat bs))" and pr1: "prios h1 (map hd ?ds) (set (concat ?ds))" and okd: "blocks_ok m ?ds"
        using h1(2) cd(1) by (simp_all add: pl_rep_def)
      have loop: "requeue_loop (m\<lparr>pl_heap := h1\<rparr>) n (node_list d1) head = Some (Inr ?next)"
      proof (rule requeue_loop_spec [where A = "concat as @ c" and ys = d' and p = ?p])
        show "ring (pl_heap (m\<lparr>pl_heap := h1\<rparr>)) (head # map node_list ((concat as @ c) @ d1 # d' @ concat bs))" using r1 Cons by simp
        show "get_prio (m\<lparr>pl_heap := h1\<rparr>) n = Inr ?p" using gp [OF inall(2)] by simp
        show "\<forall>y \<in> set d'. get_prio (m\<lparr>pl_heap := h1\<rparr>) y = Inr ?p"
        proof
          fix y assume "y \<in> set d'"
          then have "y \<in> set (c @ n # d)" "y \<in> set (concat ?bss)" using Cons by simp_all
          then show "get_prio (m\<lparr>pl_heap := h1\<rparr>) y = Inr ?p" using gp [of y] bp [of y] by (simp only: heap_update)
        qed
        show "concat bs = [] \<or> (\<exists>q. get_prio (m\<lparr>pl_heap := h1\<rparr>) (hd (concat bs)) = Inr q \<and> q \<noteq> ?p)"
        proof (cases "concat bs = []")
          case False
          then have "hd (concat bs) \<in> set (concat bs)" by (rule hd_in_set)
          moreover from this have "hd (concat bs) \<in> set (concat ?bss)" by simp
          ultimately show ?thesis using gp [of "hd (concat bs)"] hi [of "hd (concat bs)"] by (simp del: set_concat)
        qed simp
      qed
      note fr = pl_free_facts [OF h1(3), simplified]
      have "prios h1 (map hd ?ds) (insert n (set (concat ?ds)))" using pr1 h1(3) by (auto simp: prios_def pl_free_def)
      moreover have "set (map hd ?ds) \<subseteq> set (concat ?ds)" using blocks_hd [OF okd] by auto
      then have "set (map hd ?ds) \<union> insert n (set (concat ?ds)) \<subseteq> set (n # ?A @ concat bs)" unfolding cd(1) by auto
      moreover have apn: "pl_apart head (n # ?A @ concat bs)" using fr(9) cd(1) by simp
      ultimately obtain h' where h': "list_add_tail h1 (node_list n) ?next = Inr h'" "ring h' (head # map node_list (?A @ n # concat bs))"
        "prios h' (map hd ?ds) (insert n (set (concat ?ds)))" "frame (pl_area head (n # ?A @ concat bs)) h1 h'"
        using nodes_phase [OF r1 fr(4)] unfolding yields_def by blast
      have q: "prio_of m (hd ?all) = ?p" using Cons by (intro bp) simp
      have "hd ?all = d1" using Cons by simp
      then have "plist_requeue m n head = Some (Inr h')" using e lst nl nx gp [OF inall(1)] gp [OF inall(2)] q h1(1) loop h'(1)
        by (simp only: plist_requeue_def Let_def then_simps if_False if_True simp_thms)
      moreover have "blocks_ok m (as @ (c @ d @ [n]) # bs)" by (rule blocks_replace [OF ok]) auto
      moreover have "pl_apart head (concat (as @ (c @ d @ [n]) # bs))" using apn by (rule pl_apart_subset) (use dist in auto)
      moreover have "set (concat (as @ (c @ d @ [n]) # bs)) = insert n (set (concat ?ds))" unfolding cd(1) by auto
      moreover have "frame (pl_area head (concat ?bss)) ?h h'"
        using frame_trans [OF h1(4) h'(4)] by (rule frame_mono) (auto simp: pl_area_def)
      ultimately show ?thesis using h'(2,3) cd(2) unfolding pl_rep_def by (intro exI [of _ h']) (simp del: set_concat)
    qed
  qed
qed

section \<open>Priority lists\<close>

definition plist :: "plmem \<Rightarrow> nat \<Rightarrow> nat list \<Rightarrow> bool" where
  "plist m head ns \<longleftrightarrow> (\<exists>bss. pl_rep m head bss \<and> concat bss = ns)"

lemma blocks_sorted: "blocks_ok m bss \<Longrightarrow> sorted (map (prio_of m) (concat bss))"
proof (induction bss)
  case (Cons b bss)
  have ok: "blocks_ok m ([] @ b # bss)" using Cons.prems by simp
  note o = blocks_order [OF ok]
  have "blocks_ok m bss" using blocks_split [of m "[b]" bss] Cons.prems by simp
  then have s: "sorted (map (prio_of m) (concat bss))" by (rule Cons.IH)
  have "map (prio_of m) b = replicate (length b) (prio_of m (hd b))" by (rule nth_equalityI) (simp_all add: o(2))
  then have "sorted (map (prio_of m) b)" by simp
  moreover have "prio_of m x \<le> prio_of m y" if "x \<in> set b" "y \<in> set (concat bss)" for x y using o(2) [OF that(1)] o(3) [OF that(2)] by simp
  ultimately show ?case using s by (auto simp: sorted_append)
qed simp

lemma in_blocks:
  assumes "pl_rep m head bss" "x \<in> set (concat bss)"
  obtains as c d bs where "bss = as @ (c @ x # d) # bs" "remove1 x (concat bss) = concat as @ c @ d @ concat bs"
proof -
  obtain b where b: "b \<in> set bss" "x \<in> set b" using assms(2) unfolding set_concat by blast
  obtain as bs where "bss = as @ b # bs" using b(1) by (meson split_list)
  moreover obtain c d where "b = c @ x # d" using b(2) by (meson split_list)
  ultimately have e: "bss = as @ (c @ x # d) # bs" by simp
  have "distinct (concat bss)" using assms(1) pl_apart_distinct unfolding pl_rep_def by blast
  then have "remove1 x (concat bss) = concat as @ c @ d @ concat bs" using e by (auto simp: remove1_append)
  then show ?thesis using that e by blast
qed

text \<open>An initialised node is free, and an initialised head an empty list.\<close>

lemma plist_node_init_free:
  assumes "n \<noteq> 0" "pl_prio m n \<noteq> None" "node (pl_heap m) (prio_list n)" "node (pl_heap m) (node_list n)" "pl_apart head (n # ns)"
  shows "\<exists>m'. plist_node_init m n p = Inr m' \<and> pl_free m' head ns n \<and> prio_of m' n = p"
proof -
  obtain h1 where h1: "INIT_LIST_HEAD (pl_heap m) (prio_list n) = Inr h1" "ring h1 [prio_list n]" "frame {prio_list n} (pl_heap m) h1"
    using init_ok [OF assms(3)] by auto
  have "node h1 (node_list n)" using h1(3) assms(4) by (simp add: frame_def)
  then obtain h2 where h2: "INIT_LIST_HEAD h1 (node_list n) = Inr h2" "ring h2 [node_list n]" "frame {node_list n} h1 h2" using init_ok by fastforce
  have "{node_list n} \<inter> set [prio_list n] = {}" using pl_apart_fields [OF assms(5), of n n] by simp
  then have "ring h2 [prio_list n]" by (rule ring_frame [OF h1(2) h2(3)])
  then show ?thesis using h1(1) h2(1,2) assms(1,2,5) by (auto simp: plist_node_init_def get_prio_def pl_free_def prio_of_def)
qed

lemma plist_head_init_empty:
  assumes "node (pl_heap m) head"
  shows "\<exists>h'. plist_head_init (pl_heap m) head = Inr h' \<and> plist (m\<lparr>pl_heap := h'\<rparr>) head []"
proof -
  obtain h' where "INIT_LIST_HEAD (pl_heap m) head = Inr h'" "circ h' head []" using init_ok [OF assms] by blast
  then show ?thesis unfolding plist_def plist_head_init_def
    by (intro exI [of _ h'] conjI exI [of _ "[]"]) (simp_all add: pl_rep_def prios_def blocks_ok_def pl_apart_def)
qed

text \<open>
  C37: \<^verbatim>\<open>plist_add\<close>, \<^verbatim>\<open>plist_del\<close> and \<^verbatim>\<open>plist_requeue\<close> end without a fault and refine the operations on the sequence of nodes: a node that is added goes behind all nodes of its
  own or a lower number, a deleted node is removed and can be added again, and a requeued node moves behind the others of its priority. So the
  nodes are always in the order of their priorities and first-in, first-out within one. Both circles stay intact: all nodes on \<^verbatim>\<open>node_list\<close>, and exactly the first node of each
  priority on \<^verbatim>\<open>prio_list\<close>. \<^verbatim>\<open>plist_first\<close> and \<^verbatim>\<open>plist_last\<close> are the ends, and nothing but the fields of the nodes involved is written.
\<close>

theorem plist_operations:
  assumes "plist m head ns"
  shows "(\<forall>n. pl_free m head ns n \<longrightarrow> (\<exists>h'. plist_add m n head = Some (Inr h') \<and> plist (m\<lparr>pl_heap := h'\<rparr>) head (pl_insert m n ns) \<and>
      frame (pl_area head (n # ns)) (pl_heap m) h')) \<and>
    (\<forall>x \<in> set ns. \<exists>h'. plist_del (pl_heap m) x head = Inr h' \<and> plist (m\<lparr>pl_heap := h'\<rparr>) head (remove1 x ns) \<and>
      pl_free (m\<lparr>pl_heap := h'\<rparr>) head (remove1 x ns) x \<and> frame (pl_area head ns) (pl_heap m) h') \<and>
    (\<forall>x \<in> set ns. \<exists>h'. plist_requeue m x head = Some (Inr h') \<and> plist (m\<lparr>pl_heap := h'\<rparr>) head (pl_insert m x (remove1 x ns)) \<and>
      frame (pl_area head ns) (pl_heap m) h') \<and>
    sorted (map (prio_of m) ns) \<and> plist_head_empty (pl_heap m) head = Inr (ns = []) \<and>
    (ns \<noteq> [] \<longrightarrow> plist_first (pl_heap m) head = Inr (hd ns) \<and> plist_last (pl_heap m) head = Inr (last ns))"
proof -
  obtain bss where rep: "pl_rep m head bss" "concat bss = ns" using assms by (auto simp: plist_def)
  have ok: "blocks_ok m bss" and c: "circ (pl_heap m) head (map node_list ns)" using rep by (simp_all add: pl_rep_def)
  have add: "\<exists>h'. plist_add m n head = Some (Inr h') \<and> plist (m\<lparr>pl_heap := h'\<rparr>) head (pl_insert m n ns) \<and> frame (pl_area head (n # ns)) (pl_heap m) h'"
    if "pl_free m head ns n" for n using plist_add_ok [OF rep(1), of n] that unfolding plist_def rep(2) by blast
  have del: "\<exists>h'. plist_del (pl_heap m) x head = Inr h' \<and> plist (m\<lparr>pl_heap := h'\<rparr>) head (remove1 x ns) \<and>
      pl_free (m\<lparr>pl_heap := h'\<rparr>) head (remove1 x ns) x \<and> frame (pl_area head ns) (pl_heap m) h'" if "x \<in> set ns" for x
  proof -
    have "x \<in> set (concat bss)" using that rep(2) by simp
    then obtain as c d bs where b: "bss = as @ (c @ x # d) # bs" "remove1 x (concat bss) = concat as @ c @ d @ concat bs" by (rule in_blocks [OF rep(1)])
    then have "remove1 x ns = concat (del_blocks as c d bs)" using rep(2) by (simp add: concat_del_blocks)
    then show ?thesis using plist_del_ok [OF rep(1) [unfolded b(1)]] unfolding plist_def rep(2) [symmetric] b(1) by auto
  qed
  have req: "\<exists>h'. plist_requeue m x head = Some (Inr h') \<and> plist (m\<lparr>pl_heap := h'\<rparr>) head (pl_insert m x (remove1 x ns)) \<and>
      frame (pl_area head ns) (pl_heap m) h'" if "x \<in> set ns" for x
  proof -
    have "x \<in> set (concat bss)" using that rep(2) by simp
    then obtain as c d bs where b: "bss = as @ (c @ x # d) # bs" "remove1 x (concat bss) = concat as @ c @ d @ concat bs" by (rule in_blocks [OF rep(1)])
    note o = blocks_order [OF ok [unfolded b(1)]]
    have "pl_insert m x ((concat as @ c @ d) @ concat bs) = (concat as @ c @ d) @ x # concat bs"
    proof (rule pl_insert_at)
      fix y assume "y \<in> set (concat as @ c @ d)"
      then have "y \<in> set (concat as) \<or> y \<in> set (c @ x # d)" by auto
      then show "prio_of m y \<le> prio_of m x"
      proof
        assume y: "y \<in> set (concat as)"
        show ?thesis using o(1) [OF y] o(2) [of x] by simp
      next
        assume y: "y \<in> set (c @ x # d)"
        show ?thesis using o(2) [OF y] o(2) [of x] by simp
      qed
    qed (use o(3) o(2) [of x] in simp)
    then have "concat (as @ (c @ d @ [x]) # bs) = pl_insert m x (remove1 x ns)" using b(2) rep(2) by simp
    then show ?thesis using plist_requeue_ok [OF rep(1) [unfolded b(1)]] unfolding plist_def rep(2) [symmetric] b(1) by metis
  qed
  have "plist_first (pl_heap m) head = Inr (hd ns) \<and> plist_last (pl_heap m) head = Inr (last ns)" if "ns \<noteq> []"
    using circ_head [OF c] that by (simp add: plist_first_def plist_last_def hd_map last_map)
  moreover have "plist_head_empty (pl_heap m) head = Inr (ns = [])" using list_empty_ok [OF c] by (simp add: plist_head_empty_def)
  moreover have "sorted (map (prio_of m) ns)" using blocks_sorted [OF ok] rep(2) by simp
  ultimately show ?thesis using add del req by (intro conjI allI ballI impI) blast+
qed

text \<open>Two nodes of priority 5 on a list, and a free node of priority 3.\<close>

definition plist_sample :: plmem where
  "plist_sample = \<lparr>pl_heap = \<lparr>lh_next = [100 \<mapsto> 212, 212 \<mapsto> 312, 312 \<mapsto> 100, 204 \<mapsto> 204, 304 \<mapsto> 304, 412 \<mapsto> 412, 404 \<mapsto> 404],
       lh_prev = [212 \<mapsto> 100, 312 \<mapsto> 212, 100 \<mapsto> 312, 204 \<mapsto> 204, 304 \<mapsto> 304, 412 \<mapsto> 412, 404 \<mapsto> 404]\<rparr>,
     pl_prio = [200 \<mapsto> 5, 300 \<mapsto> 5, 400 \<mapsto> 3]\<rparr>"

lemma plist_sample_ok: "plist plist_sample 100 [200, 300]" "pl_free plist_sample 100 [200, 300] 400"
proof -
  have "pl_rep plist_sample 100 [[200, 300]]"
    by (simp add: pl_rep_def plist_sample_def circ_def node_def prios_def blocks_ok_def prio_of_def pl_apart_def prio_list_def node_list_def)
  then show "plist plist_sample 100 [200, 300]" unfolding plist_def by (intro exI [of _ "[[200, 300]]"]) simp
  show "pl_free plist_sample 100 [200, 300] 400"
    by (simp add: pl_free_def plist_sample_def circ_def node_def pl_apart_def prio_list_def node_list_def)
qed

theorem plist_operations_witness:
  "(\<exists>h'. plist_add plist_sample 400 100 = Some (Inr h') \<and> plist (plist_sample\<lparr>pl_heap := h'\<rparr>) 100 [400, 200, 300]) \<and>
   (\<exists>h'. plist_requeue plist_sample 200 100 = Some (Inr h') \<and> plist (plist_sample\<lparr>pl_heap := h'\<rparr>) 100 [300, 200])"
proof -
  have "pl_insert plist_sample 400 [200, 300] = [400, 200, 300]" "pl_insert plist_sample 200 (remove1 200 [200, 300]) = [300, 200]"
    by (simp_all add: pl_insert_def prio_of_def plist_sample_def)
  then show ?thesis using plist_operations [OF plist_sample_ok(1)] plist_sample_ok(2) by (metis list.set_intros(1))
qed

end
