(* ===== verification/LList.thy ===== *)
theory LList
  imports KList
begin

text \<open>
  The lock-less lists of \<^verbatim>\<open>lib/llist.c\<close> and \<^verbatim>\<open>include/linux/llist.h\<close>. The functions run without a lock, so each is a sequence of steps that access
  the shared memory once, and any number of callers of \<^verbatim>\<open>llist_add_batch\<close> interleave with one caller of \<^verbatim>\<open>llist_del_first\<close> and \<^verbatim>\<open>llist_del_all\<close>, the
  discipline the comments ask for. The specification is a stack on which each call takes effect at once, at its successful
  compare-and-exchange. Accesses are sequentially consistent, as \<^verbatim>\<open>cmpxchg\<close> and \<^verbatim>\<open>xchg\<close> are full barriers.
\<close>

section \<open>The code\<close>

record llmem =
  ll_first :: nat
  ll_next :: "nat \<Rightarrow> nat option"

definition init_llist_head :: "llmem \<Rightarrow> llmem" where "init_llist_head m = m\<lparr>ll_first := 0\<rparr>"

definition llist_empty :: "llmem \<Rightarrow> bool" where "llist_empty m \<longleftrightarrow> ll_first m = 0"

definition llist_next :: "llmem \<Rightarrow> nat \<Rightarrow> nat res" where "llist_next m p = field_at (ll_next m) p"

text \<open>\<^verbatim>\<open>cmpxchg (&head->first, old, new)\<close>, with the value it returns.\<close>

definition cmpxchg :: "llmem \<Rightarrow> nat \<Rightarrow> nat \<Rightarrow> llmem \<times> nat" where
  "cmpxchg m old new = (if ll_first m = old then m\<lparr>ll_first := new\<rparr> else m, ll_first m)"

definition llist_del_all :: "llmem \<Rightarrow> llmem \<times> nat" where
  "llist_del_all m = (m\<lparr>ll_first := 0\<rparr>, ll_first m)"

text \<open>The control points of \<^verbatim>\<open>llist_add_batch\<close>: before \<^verbatim>\<open>head->first\<close> is read, before the store, before the exchange, and after the return.\<close>

datatype adder = AddIdle | AddRead nat nat | AddStore nat nat nat | AddCas nat nat nat | AddDone bool

fun adder_step :: "llmem \<Rightarrow> adder \<Rightarrow> (llmem \<times> adder) res" where
  "adder_step m AddIdle = Inr (m, AddIdle)"
| "adder_step m (AddRead new_first new_last) = Inr (m, AddStore new_first new_last (ll_first m))"
| "adder_step m (AddStore new_first new_last first) =
     rbind (llist_next m new_last) (\<lambda>_.
     Inr (m\<lparr>ll_next := (ll_next m)(new_last \<mapsto> first)\<rparr>, AddCas new_first new_last first))"
| "adder_step m (AddCas new_first new_last first) =
     (let (m, old) = cmpxchg m first new_first
      in Inr (m, if old \<noteq> first then AddRead new_first new_last else AddDone (first = 0)))"
| "adder_step m (AddDone r) = Inr (m, AddDone r)"

text \<open>The control points of \<^verbatim>\<open>llist_del_first\<close>: before \<^verbatim>\<open>head->first\<close> is read, at the top of the loop, before the exchange, and after the return.\<close>

datatype deleter = DelIdle | DelRead | DelLoop nat | DelCas nat nat | DelDone nat

fun deleter_step :: "llmem \<Rightarrow> deleter \<Rightarrow> (llmem \<times> deleter) res" where
  "deleter_step m DelIdle = Inr (m, DelIdle)"
| "deleter_step m DelRead = Inr (m, DelLoop (ll_first m))"
| "deleter_step m (DelLoop entry) =
     (if entry = 0 then Inr (m, DelDone 0)
      else rbind (llist_next m entry) (\<lambda>next. Inr (m, DelCas entry next)))"
| "deleter_step m (DelCas old_entry next) =
     (let (m, entry) = cmpxchg m old_entry next
      in Inr (m, if entry = old_entry then DelDone entry else DelLoop entry))"
| "deleter_step m (DelDone r) = Inr (m, DelDone r)"

text \<open>\<^verbatim>\<open>llist_reverse_order\<close> walks a chain the caller owns.\<close>

partial_function (option) reverse_loop :: "llmem \<Rightarrow> nat \<Rightarrow> nat \<Rightarrow> (llmem \<times> nat) res option" where
  "reverse_loop m head new_head =
     (if head = 0 then Some (Inr (m, new_head))
      else case llist_next m head of Inl e \<Rightarrow> Some (Inl e)
      | Inr next \<Rightarrow> reverse_loop (m\<lparr>ll_next := (ll_next m)(head \<mapsto> new_head)\<rparr>) next head)"

definition llist_reverse_order :: "llmem \<Rightarrow> nat \<Rightarrow> (llmem \<times> nat) res option" where
  "llist_reverse_order m head = reverse_loop m head 0"

section \<open>The stack\<close>

datatype ll_event = EPush "nat list" bool | EPop nat | EPopAll nat

text \<open>What a call does to the stack, if it returned the right thing.\<close>

fun stack_step :: "nat list \<Rightarrow> ll_event \<Rightarrow> nat list option" where
  "stack_step st (EPush bs was_empty) = (if was_empty = (st = []) then Some (bs @ st) else None)"
| "stack_step st (EPop r) = (if r = ptr st then Some (tl st) else None)"
| "stack_step st (EPopAll r) = (if r = ptr st then Some [] else None)"

fun stack_run :: "nat list \<Rightarrow> ll_event list \<Rightarrow> nat list option" where
  "stack_run st [] = Some st"
| "stack_run st (e # es) = Option.bind (stack_step st e) (\<lambda>st. stack_run st es)"

lemma stack_run_append: "stack_run st (es @ fs) = Option.bind (stack_run st es) (\<lambda>st. stack_run st fs)"
  by (induction es arbitrary: st) (auto split: bind_splits)

section \<open>Interleaving\<close>

text \<open>The shared memory and the callers; \<open>batch\<close> is the batch a caller is adding, and \<open>ll_log\<close> the calls that have taken effect.\<close>

record llsys =
  ll_mem :: llmem
  adders :: "nat \<Rightarrow> adder"
  batch :: "nat \<Rightarrow> nat list"
  ll_deleter :: deleter
  ll_log :: "ll_event list"

fun add_event :: "nat list \<Rightarrow> adder \<Rightarrow> adder \<Rightarrow> ll_event list" where
  "add_event bs (AddCas _ _ _) (AddDone r) = [EPush bs r]"
| "add_event bs _ _ = []"

fun del_event :: "deleter \<Rightarrow> deleter \<Rightarrow> ll_event list" where
  "del_event (DelCas _ _) (DelDone r) = [EPop r]"
| "del_event DelRead (DelLoop e) = (if e = 0 then [EPop 0] else [])"
| "del_event (DelCas _ _) (DelLoop e) = (if e = 0 then [EPop 0] else [])"
| "del_event _ _ = []"

fun seg :: "(nat \<Rightarrow> nat option) \<Rightarrow> nat list \<Rightarrow> bool" where
  "seg f [] \<longleftrightarrow> True"
| "seg f [x] \<longleftrightarrow> x \<noteq> 0 \<and> f x \<noteq> None"
| "seg f (x # y # zs) \<longleftrightarrow> x \<noteq> 0 \<and> f x = Some y \<and> seg f (y # zs)"

definition in_use :: "llsys \<Rightarrow> nat \<Rightarrow> bool" where
  "in_use s p \<longleftrightarrow> (case stack_run [] (ll_log s) of None \<Rightarrow> False | Some st \<Rightarrow> p \<in> set st) \<or> (\<exists>i. p \<in> set (batch s i))"

text \<open>
  A step is a step of one of the running functions, a call, a return, or a client writing to a node it owns: one that is
  neither on the list nor being added. So a node that has been deleted can be added again at once.
\<close>

inductive ll_step :: "llsys \<Rightarrow> llsys \<Rightarrow> bool" where
  ll_write: "\<not> in_use s p \<Longrightarrow>
    ll_step s (s\<lparr>ll_mem := (ll_mem s)\<lparr>ll_next := (ll_next (ll_mem s))(p \<mapsto> v)\<rparr>\<rparr>)"
| ll_call_add: "adders s i = AddIdle \<Longrightarrow> bs \<noteq> [] \<Longrightarrow> distinct bs \<Longrightarrow> seg (ll_next (ll_mem s)) bs \<Longrightarrow> \<forall>p \<in> set bs. \<not> in_use s p \<Longrightarrow>
    ll_step s (s\<lparr>adders := (adders s)(i := AddRead (hd bs) (last bs)), batch := (batch s)(i := bs)\<rparr>)"
| ll_add: "adder_step (ll_mem s) (adders s i) = Inr (m, a) \<Longrightarrow> es = add_event (batch s i) (adders s i) a \<Longrightarrow>
    ll_step s (s\<lparr>ll_mem := m, adders := (adders s)(i := a), batch := (batch s)(i := if es = [] then batch s i else []), ll_log := ll_log s @ es\<rparr>)"
| ll_return_add: "adders s i = AddDone r \<Longrightarrow> ll_step s (s\<lparr>adders := (adders s)(i := AddIdle)\<rparr>)"
| ll_call_del: "ll_deleter s = DelIdle \<Longrightarrow> ll_step s (s\<lparr>ll_deleter := DelRead\<rparr>)"
| ll_del: "deleter_step (ll_mem s) (ll_deleter s) = Inr (m, d) \<Longrightarrow>
    ll_step s (s\<lparr>ll_mem := m, ll_deleter := d, ll_log := ll_log s @ del_event (ll_deleter s) d\<rparr>)"
| ll_return_del: "ll_deleter s = DelDone r \<Longrightarrow> ll_step s (s\<lparr>ll_deleter := DelIdle\<rparr>)"
| ll_del_all: "ll_deleter s = DelIdle \<Longrightarrow> llist_del_all (ll_mem s) = (m, r) \<Longrightarrow>
    ll_step s (s\<lparr>ll_mem := m, ll_log := ll_log s @ [EPopAll r]\<rparr>)"

definition ll_start :: "llmem \<Rightarrow> llsys" where
  "ll_start m = \<lparr>ll_mem = init_llist_head m, adders = (\<lambda>_. AddIdle), batch = (\<lambda>_. []), ll_deleter = DelIdle, ll_log = []\<rparr>"

inductive ll_reach :: "llsys \<Rightarrow> bool" where
  ll_reach_start: "ll_reach (ll_start m)"
| ll_reach_step: "ll_reach s \<Longrightarrow> ll_step s s' \<Longrightarrow> ll_reach s'"

section \<open>The invariant\<close>

fun lchain :: "(nat \<Rightarrow> nat option) \<Rightarrow> nat list \<Rightarrow> bool" where
  "lchain f [] \<longleftrightarrow> True"
| "lchain f (x # xs) \<longleftrightarrow> x \<noteq> 0 \<and> f x = Some (ptr xs) \<and> lchain f xs"

fun adder_ok :: "(nat \<Rightarrow> nat option) \<Rightarrow> nat list \<Rightarrow> adder \<Rightarrow> bool" where
  "adder_ok f bs (AddRead a b) \<longleftrightarrow> bs \<noteq> [] \<and> a = hd bs \<and> b = last bs \<and> distinct bs \<and> seg f bs"
| "adder_ok f bs (AddStore a b c) \<longleftrightarrow> bs \<noteq> [] \<and> a = hd bs \<and> b = last bs \<and> distinct bs \<and> seg f bs"
| "adder_ok f bs (AddCas a b c) \<longleftrightarrow> bs \<noteq> [] \<and> a = hd bs \<and> b = last bs \<and> distinct bs \<and> seg f bs \<and> f b = Some c"
| "adder_ok f bs _ \<longleftrightarrow> bs = []"

text \<open>The node the deleter looks at stays on the list, with the same successor, as nobody else deletes.\<close>

fun deleter_ok :: "nat list \<Rightarrow> deleter \<Rightarrow> bool" where
  "deleter_ok st (DelLoop e) \<longleftrightarrow> e = 0 \<or> e \<in> set st"
| "deleter_ok st (DelCas e n) \<longleftrightarrow> (\<exists>pre post. st = pre @ e # post \<and> n = ptr post)"
| "deleter_ok st _ \<longleftrightarrow> True"

definition ll_inv :: "llsys \<Rightarrow> nat list \<Rightarrow> bool" where
  "ll_inv s st \<longleftrightarrow> stack_run [] (ll_log s) = Some st \<and> ll_first (ll_mem s) = ptr st \<and> lchain (ll_next (ll_mem s)) st \<and> distinct st \<and>
     (\<forall>i. adder_ok (ll_next (ll_mem s)) (batch s i) (adders s i)) \<and> (\<forall>i. set (batch s i) \<inter> set st = {}) \<and>
     (\<forall>i j. i \<noteq> j \<longrightarrow> set (batch s i) \<inter> set (batch s j) = {}) \<and> deleter_ok st (ll_deleter s)"

lemma lchain_upd [simp]: "p \<notin> set zs \<Longrightarrow> lchain (f(p := v)) zs \<longleftrightarrow> lchain f zs"
  by (induction zs) auto

lemma seg_upd [simp]: "p \<notin> set zs \<Longrightarrow> seg (f(p := v)) zs \<longleftrightarrow> seg f zs"
  by (induction f zs rule: seg.induct) auto

lemma adder_ok_upd [simp]: "p \<notin> set bs \<Longrightarrow> adder_ok (f(p := v)) bs a \<longleftrightarrow> adder_ok f bs a"
  by (cases a) auto

lemma seg_last: "seg f bs \<Longrightarrow> bs \<noteq> [] \<Longrightarrow> last bs \<noteq> 0 \<and> f (last bs) \<noteq> None"
  by (induction f bs rule: seg.induct) auto

lemma seg_store: "seg f bs \<Longrightarrow> distinct bs \<Longrightarrow> seg (f(last bs \<mapsto> v)) bs"
  by (induction f bs rule: seg.induct) auto

lemma lchain_push: "seg f bs \<Longrightarrow> bs \<noteq> [] \<Longrightarrow> f (last bs) = Some (ptr st) \<Longrightarrow> lchain f st \<Longrightarrow> lchain f (bs @ st)"
  by (induction f bs rule: seg.induct) auto

lemma lchain_append: "lchain f (pre @ e # post) \<Longrightarrow> e \<noteq> 0 \<and> f e = Some (ptr post) \<and> lchain f post"
  by (induction pre) auto

lemma ptr_append [simp]: "bs \<noteq> [] \<Longrightarrow> ptr (bs @ st) = hd bs"
  by (cases bs) auto

lemma ptr_eq_0: "lchain f st \<Longrightarrow> ptr st = 0 \<longleftrightarrow> st = []"
  by (cases st) auto

lemma ptr_in_set: "ptr st = 0 \<or> ptr st \<in> set st"
  by (cases st) auto

lemma deleter_ok_push: "deleter_ok st d \<Longrightarrow> deleter_ok (bs @ st) d"
  by (cases d) (auto, metis append_assoc)

lemma distinct_top: "distinct (pre @ e # post) \<Longrightarrow> ptr (pre @ e # post) = e \<Longrightarrow> pre = []"
  by (cases pre) auto

lemma llist_next_ok: "p \<noteq> 0 \<Longrightarrow> ll_next m p = Some v \<Longrightarrow> llist_next m p = Inr v"
  by (simp add: llist_next_def field_at_def)

lemma llist_next_seg: "seg (ll_next m) bs \<Longrightarrow> bs \<noteq> [] \<Longrightarrow> \<exists>v. llist_next m (last bs) = Inr v"
  using seg_last [of "ll_next m" bs] llist_next_ok by fastforce

text \<open>No running function faults.\<close>

lemma ll_inv_runs:
  assumes "ll_inv s st"
  shows "\<exists>r. adder_step (ll_mem s) (adders s i) = Inr r" "\<exists>r. deleter_step (ll_mem s) (ll_deleter s) = Inr r"
proof -
  have a: "adder_ok (ll_next (ll_mem s)) (batch s i) (adders s i)" and d: "deleter_ok st (ll_deleter s)" and c: "lchain (ll_next (ll_mem s)) st"
    using assms by (auto simp: ll_inv_def)
  show "\<exists>r. adder_step (ll_mem s) (adders s i) = Inr r"
    using a llist_next_seg [of "ll_mem s" "batch s i"] by (cases "adders s i") (auto simp: cmpxchg_def)
  show "\<exists>r. deleter_step (ll_mem s) (ll_deleter s) = Inr r"
  proof (cases "ll_deleter s")
    case (DelLoop e)
    show ?thesis
    proof (cases "e = 0")
      case False
      then obtain pre post where "st = pre @ e # post" using d DelLoop by (auto dest: split_list)
      then have "llist_next (ll_mem s) e = Inr (ptr post)" using c lchain_append by (intro llist_next_ok) blast+
      then show ?thesis using DelLoop False by simp
    qed (simp add: DelLoop)
  qed (auto simp: cmpxchg_def)
qed

subsection \<open>Every step keeps it\<close>

lemma ll_inv_add:
  assumes inv: "ll_inv s st" and step: "adder_step (ll_mem s) (adders s i) = Inr (m, a)" and es: "es = add_event (batch s i) (adders s i) a"
  shows "\<exists>st'. ll_inv (s\<lparr>ll_mem := m, adders := (adders s)(i := a), batch := (batch s)(i := if es = [] then batch s i else []),
    ll_log := ll_log s @ es\<rparr>) st'"
proof -
  let ?bs = "batch s i" and ?f = "ll_next (ll_mem s)"
  have ok: "adder_ok ?f ?bs (adders s i)" using inv by (simp add: ll_inv_def)
  show ?thesis
  proof (cases "adders s i")
    case (AddStore nf nl f)
    obtain v where v: "llist_next (ll_mem s) nl = Inr v" using ok AddStore llist_next_seg [of "ll_mem s" ?bs] by auto
    have m: "m = (ll_mem s)\<lparr>ll_next := ?f(nl \<mapsto> f)\<rparr>" "a = AddCas nf nl f" "es = []" using step AddStore v es by auto
    have nl: "nl = last ?bs" "last ?bs \<in> set ?bs" using ok AddStore by auto
    then have "nl \<notin> set st" "\<And>j. j \<noteq> i \<Longrightarrow> nl \<notin> set (batch s j)" using inv unfolding ll_inv_def by blast+
    moreover have "adder_ok (?f(nl \<mapsto> f)) ?bs a" using ok AddStore m(2) seg_store [of ?f ?bs f] by simp
    ultimately show ?thesis using inv m by (intro exI [of _ st]) (auto simp: ll_inv_def)
  next
    case (AddCas nf nl f)
    show ?thesis
    proof (cases "ll_first (ll_mem s) = f")
      case True
      then have m: "m = (ll_mem s)\<lparr>ll_first := nf\<rparr>" "a = AddDone (f = 0)" "es = [EPush ?bs (f = 0)]"
        using step AddCas es by (auto simp: cmpxchg_def)
      have st: "stack_run [] (ll_log s) = Some st" "ptr st = f" "lchain ?f st" "distinct st" "deleter_ok st (ll_deleter s)"
        and disj: "\<And>j. set (batch s j) \<inter> set st = {}" "\<And>j k. j \<noteq> k \<Longrightarrow> set (batch s j) \<inter> set (batch s k) = {}"
        using inv True by (auto simp: ll_inv_def)
      have "lchain ?f (?bs @ st)" using ok AddCas st(2,3) by (intro lchain_push) auto
      moreover have "stack_run [] (ll_log s @ es) = Some (?bs @ st)" using st(1) ptr_eq_0 [OF st(3)] st(2) m(3) by (simp add: stack_run_append)
      moreover have "distinct (?bs @ st)" using ok AddCas st(4) disj(1) [of i] by auto
      moreover have "set (batch s j) \<inter> set (?bs @ st) = {}" if "j \<noteq> i" for j using disj(1) [of j] disj(2) [OF that] by auto
      ultimately show ?thesis using inv m ok AddCas deleter_ok_push [OF st(5), of ?bs]
        by (intro exI [of _ "?bs @ st"]) (auto simp: ll_inv_def)
    next
      case False
      then have "m = ll_mem s" "a = AddRead nf nl" "es = []" using step AddCas es by (auto simp: cmpxchg_def)
      then show ?thesis using inv ok AddCas by (intro exI [of _ st]) (auto simp: ll_inv_def)
    qed
  next
    case (AddRead nf nl)
    then have "m = ll_mem s" "a = AddStore nf nl (ll_first (ll_mem s))" "es = []" using step es by auto
    then show ?thesis using inv ok AddRead by (intro exI [of _ st]) (auto simp: ll_inv_def)
  next
    case AddIdle
    then have "m = ll_mem s" "a = adders s i" "es = []" using step es by auto
    then show ?thesis using inv by (intro exI [of _ st]) simp
  next
    case (AddDone r)
    then have ma: "m = ll_mem s" "a = AddDone r" using step by simp_all
    then have "es = []" using AddDone es by simp
    then show ?thesis using inv ma AddDone [symmetric] by (intro exI [of _ st]) simp
  qed
qed

lemma ll_inv_del:
  assumes inv: "ll_inv s st" and step: "deleter_step (ll_mem s) (ll_deleter s) = Inr (m, d)"
  shows "\<exists>st'. ll_inv (s\<lparr>ll_mem := m, ll_deleter := d, ll_log := ll_log s @ del_event (ll_deleter s) d\<rparr>) st'"
proof -
  let ?f = "ll_next (ll_mem s)"
  have st: "stack_run [] (ll_log s) = Some st" "ll_first (ll_mem s) = ptr st" "lchain ?f st" "distinct st" "deleter_ok st (ll_deleter s)"
    and disj: "\<And>j. set (batch s j) \<inter> set st = {}" using inv by (auto simp: ll_inv_def)
  have empty: "stack_run [] (ll_log s @ [EPop 0]) = Some st" if "ptr st = 0" using that ptr_eq_0 [OF st(3)] st(1) by (simp add: stack_run_append)
  show ?thesis
  proof (cases "ll_deleter s")
    case DelRead
    then have "m = ll_mem s" "d = DelLoop (ptr st)" using step st(2) by auto
    then show ?thesis using inv DelRead empty ptr_in_set [of st] by (intro exI [of _ st]) (auto simp: ll_inv_def)
  next
    case (DelLoop e)
    show ?thesis
    proof (cases "e = 0")
      case False
      then obtain pre post where p: "st = pre @ e # post" using st(5) DelLoop by (auto dest: split_list)
      then have "llist_next (ll_mem s) e = Inr (ptr post)" using st(3) lchain_append by (intro llist_next_ok) blast+
      then have "m = ll_mem s" "d = DelCas e (ptr post)" using step DelLoop False by auto
      then show ?thesis using inv DelLoop p by (intro exI [of _ st]) (auto simp: ll_inv_def)
    qed (use inv DelLoop step in \<open>auto simp: ll_inv_def intro!: exI [of _ st]\<close>)
  next
    case (DelCas e n)
    then obtain pre post where p: "st = pre @ e # post" "n = ptr post" using st(5) by auto
    show ?thesis
    proof (cases "ptr st = e")
      case True
      then have "pre = []" using distinct_top [of pre e post] st(4) unfolding p(1) by simp
      then have st': "st = e # post" using p(1) by simp
      have m: "m = (ll_mem s)\<lparr>ll_first := ptr post\<rparr>" "d = DelDone e" using step DelCas True p(2) st(2) by (auto simp: cmpxchg_def)
      moreover have "stack_run [] (ll_log s @ [EPop e]) = Some post" using st(1) st' by (simp add: stack_run_append)
      moreover have "lchain ?f post" "distinct post" "\<And>j. set (batch s j) \<inter> set post = {}" using st(3,4) disj st' by auto
      ultimately show ?thesis using inv DelCas by (intro exI [of _ post]) (auto simp: ll_inv_def)
    next
      case False
      then have "m = ll_mem s" "d = DelLoop (ptr st)" using step DelCas st(2) by (auto simp: cmpxchg_def)
      then show ?thesis using inv DelCas empty ptr_in_set [of st] by (intro exI [of _ st]) (auto simp: ll_inv_def)
    qed
  next
    case DelIdle
    then show ?thesis using inv step by (intro exI [of _ st]) (auto simp: ll_inv_def)
  next
    case (DelDone r)
    then have md: "m = ll_mem s" "d = DelDone r" using step by simp_all
    then have "del_event (ll_deleter s) d = []" using DelDone by simp
    then show ?thesis using inv DelDone md by (intro exI [of _ st]) (auto simp: ll_inv_def)
  qed
qed

lemma ll_inv_write:
  "ll_inv s st \<Longrightarrow> \<not> in_use s p \<Longrightarrow> ll_inv (s\<lparr>ll_mem := (ll_mem s)\<lparr>ll_next := (ll_next (ll_mem s))(p \<mapsto> v)\<rparr>\<rparr>) st"
  by (auto simp: ll_inv_def in_use_def)

lemma ll_inv_call:
  assumes "ll_inv s st" "adders s i = AddIdle" "bs \<noteq> []" "distinct bs" "seg (ll_next (ll_mem s)) bs" "\<forall>p \<in> set bs. \<not> in_use s p"
  shows "ll_inv (s\<lparr>adders := (adders s)(i := AddRead (hd bs) (last bs)), batch := (batch s)(i := bs)\<rparr>) st"
proof -
  have "set bs \<inter> set st = {}" "set bs \<inter> set (batch s j) = {}" for j using assms(1,6) unfolding ll_inv_def in_use_def by auto
  then show ?thesis using assms(1-5) unfolding ll_inv_def by auto
qed

lemma ll_inv_step: "ll_step s s' \<Longrightarrow> ll_inv s st \<Longrightarrow> \<exists>st'. ll_inv s' st'"
proof (induction rule: ll_step.induct)
  case (ll_add s i m a es)
  then show ?case by (intro ll_inv_add)
next
  case (ll_del s m d)
  then show ?case by (intro ll_inv_del)
next
  case (ll_return_add s i r)
  then have "batch s i = []" by (metis adder_ok.simps(5) ll_inv_def)
  then show ?case using ll_return_add by (intro exI [of _ st]) (auto simp: ll_inv_def)
next
  case (ll_del_all s m r)
  then have "stack_run [] (ll_log s @ [EPopAll r]) = Some []" by (auto simp: ll_inv_def stack_run_append llist_del_all_def)
  then show ?case using ll_del_all by (intro exI [of _ "[]"]) (auto simp: ll_inv_def llist_del_all_def)
qed (use ll_inv_write ll_inv_call in \<open>auto simp: ll_inv_def intro!: exI [of _ st]\<close>)

lemma ll_inv_reach: "ll_reach s \<Longrightarrow> \<exists>st. ll_inv s st"
proof (induction rule: ll_reach.induct)
  case (ll_reach_start m)
  have "ll_inv (ll_start m) []" by (simp add: ll_inv_def ll_start_def init_llist_head_def)
  then show ?case ..
qed (blast dest: ll_inv_step)

section \<open>Reversing\<close>

lemma reverse_loop_spec:
  "lchain (ll_next m) xs \<Longrightarrow> lchain (ll_next m) ys \<Longrightarrow> distinct (xs @ ys) \<Longrightarrow>
   \<exists>m'. reverse_loop m (ptr xs) (ptr ys) = Some (Inr (m', ptr (rev xs @ ys))) \<and> lchain (ll_next m') (rev xs @ ys) \<and>
     ll_first m' = ll_first m \<and> (\<forall>p. p \<notin> set xs \<longrightarrow> ll_next m' p = ll_next m p)"
proof (induction xs arbitrary: m ys)
  case Nil
  then show ?case by (subst reverse_loop.simps) auto
next
  case (Cons x xs)
  let ?m = "m\<lparr>ll_next := (ll_next m)(x \<mapsto> ptr ys)\<rparr>"
  have n: "llist_next m x = Inr (ptr xs)" "x \<noteq> 0" using Cons.prems(1) by (auto intro!: llist_next_ok)
  have "\<exists>m'. reverse_loop ?m (ptr xs) (ptr (x # ys)) = Some (Inr (m', ptr (rev xs @ x # ys))) \<and> lchain (ll_next m') (rev xs @ x # ys) \<and>
      ll_first m' = ll_first ?m \<and> (\<forall>p. p \<notin> set xs \<longrightarrow> ll_next m' p = ll_next ?m p)"
  proof (rule Cons.IH)
    show "lchain (ll_next ?m) xs" "lchain (ll_next ?m) (x # ys)" "distinct (xs @ x # ys)" using Cons.prems by simp_all
  qed
  then show ?case using n by (subst reverse_loop.simps) auto
qed

section \<open>The list is a stack\<close>

text \<open>
  C35: Whatever the interleaving of any number of callers of \<^verbatim>\<open>llist_add_batch\<close> with one that deletes, also when deleted nodes are added again, the calls that have
  taken effect so far, in the order of their exchanges, are a run of a stack: each add reports whether the stack was empty and puts its batch on
  top, \<^verbatim>\<open>llist_del_first\<close> returns the top or \<^verbatim>\<open>NULL\<close>, and \<^verbatim>\<open>llist_del_all\<close> returns and takes everything. The nodes from \<^verbatim>\<open>head->first\<close> on are the stack, and no
  function that is running faults at its next step. \<^verbatim>\<open>llist_reverse_order\<close> of what \<^verbatim>\<open>llist_del_all\<close> returns ends, and gives the nodes in the reverse order.
\<close>

theorem llist_is_a_stack:
  assumes "ll_reach s"
  shows "\<exists>st. stack_run [] (ll_log s) = Some st \<and> ll_first (ll_mem s) = ptr st \<and> lchain (ll_next (ll_mem s)) st \<and> distinct st \<and>
    (\<forall>i. \<exists>r. adder_step (ll_mem s) (adders s i) = Inr r) \<and> (\<exists>r. deleter_step (ll_mem s) (ll_deleter s) = Inr r) \<and>
    (\<exists>m'. llist_reverse_order (fst (llist_del_all (ll_mem s))) (snd (llist_del_all (ll_mem s))) = Some (Inr (m', ptr (rev st))) \<and>
       lchain (ll_next m') (rev st) \<and> ll_first m' = 0)"
proof -
  obtain st where inv: "ll_inv s st" using ll_inv_reach [OF assms] by blast
  have st: "stack_run [] (ll_log s) = Some st" "ll_first (ll_mem s) = ptr st" "lchain (ll_next (ll_mem s)) st" "distinct st"
    using inv by (auto simp: ll_inv_def)
  let ?m = "fst (llist_del_all (ll_mem s))"
  have "\<exists>m'. reverse_loop ?m (ptr st) (ptr []) = Some (Inr (m', ptr (rev st @ []))) \<and> lchain (ll_next m') (rev st @ []) \<and>
      ll_first m' = ll_first ?m \<and> (\<forall>p. p \<notin> set st \<longrightarrow> ll_next m' p = ll_next ?m p)"
    using st(3,4) by (intro reverse_loop_spec) (simp_all add: llist_del_all_def)
  then have "\<exists>m'. llist_reverse_order ?m (snd (llist_del_all (ll_mem s))) = Some (Inr (m', ptr (rev st))) \<and>
      lchain (ll_next m') (rev st) \<and> ll_first m' = 0"
    using st(2) by (auto simp: llist_reverse_order_def llist_del_all_def)
  then show ?thesis using st ll_inv_runs [OF inv] by blast
qed

text \<open>One caller adds the nodes \<open>5\<close> and \<open>7\<close> to the empty list.\<close>

definition two_free :: llmem where "two_free = \<lparr>ll_first = 9, ll_next = [5 \<mapsto> 7, 7 \<mapsto> 0]\<rparr>"

definition two_added :: llsys where
  "two_added = \<lparr>ll_mem = \<lparr>ll_first = 5, ll_next = [5 \<mapsto> 7, 7 \<mapsto> 0]\<rparr>, adders = (\<lambda>_. AddIdle)(0 := AddDone True), batch = (\<lambda>_. []),
     ll_deleter = DelIdle, ll_log = [EPush [5, 7] True]\<rparr>"

lemma two_added_reach: "ll_reach two_added"
proof -
  let ?s0 = "ll_start two_free"
  let ?s1 = "?s0\<lparr>adders := (adders ?s0)(0 := AddRead 5 7), batch := (batch ?s0)(0 := [5, 7])\<rparr>"
  let ?s2 = "?s1\<lparr>adders := (adders ?s0)(0 := AddStore 5 7 0)\<rparr>"
  let ?s3 = "?s2\<lparr>adders := (adders ?s0)(0 := AddCas 5 7 0)\<rparr>"
  have "ll_reach ?s0" by (rule ll_reach_start)
  moreover have "ll_step ?s0 ?s1" using ll_call_add [of ?s0 0 "[5, 7]"]
    by (simp add: ll_start_def init_llist_head_def two_free_def in_use_def)
  ultimately have "ll_reach ?s1" by (rule ll_reach_step)
  moreover have "ll_step ?s1 ?s2" using ll_add [of ?s1 0 "ll_mem ?s1" "AddStore 5 7 0" "[]"]
    by (simp add: ll_start_def init_llist_head_def two_free_def)
  ultimately have "ll_reach ?s2" by (rule ll_reach_step)
  moreover have "ll_step ?s2 ?s3" using ll_add [of ?s2 0 "ll_mem ?s2" "AddCas 5 7 0" "[]"]
    by (simp add: ll_start_def init_llist_head_def two_free_def llist_next_def field_at_def fun_upd_idem)
  ultimately have "ll_reach ?s3" by (rule ll_reach_step)
  moreover have "ll_step ?s3 two_added" using ll_add [of ?s3 0 "(ll_mem ?s3)\<lparr>ll_first := 5\<rparr>" "AddDone True" "[EPush [5, 7] True]"]
    by (simp add: ll_start_def init_llist_head_def two_free_def cmpxchg_def two_added_def fun_upd_idem)
  ultimately show ?thesis by (rule ll_reach_step)
qed

theorem llist_is_a_stack_witness:
  "ll_reach two_added \<and> (\<exists>m'. llist_reverse_order \<lparr>ll_first = 0, ll_next = [5 \<mapsto> 7, 7 \<mapsto> 0]\<rparr> 5 = Some (Inr (m', 7)) \<and> lchain (ll_next m') [7, 5])"
  using llist_is_a_stack [OF two_added_reach] two_added_reach by (auto simp: two_added_def llist_del_all_def)

text \<open>
  The restriction to one deleting caller is needed. Two of them start on the list \<open>1, 2\<close>; one is stopped before its exchange,
  the other takes both nodes and adds \<open>1\<close> again. The exchange then succeeds and makes \<open>2\<close> the first node, although it has been taken: the
  list should be empty.
\<close>

lemma llist_two_deleters_unsafe:
  defines "m0 \<equiv> \<lparr>ll_first = 1, ll_next = [1 \<mapsto> 2, 2 \<mapsto> 0]\<rparr>"
  shows "\<exists>m1 m2 m3 m4. rbind (deleter_step m0 DelRead) (\<lambda>(m, d). deleter_step m d) = Inr (m0, DelCas 1 2) \<and>
    deleter_step m0 (DelCas 1 2) = Inr (m1, DelDone 1) \<and>
    rbind (deleter_step m1 DelRead) (\<lambda>(m, d). rbind (deleter_step m d) (\<lambda>(m, d). deleter_step m d)) = Inr (m2, DelDone 2) \<and>
    rbind (adder_step m2 (AddRead 1 1)) (\<lambda>(m, a). rbind (adder_step m a) (\<lambda>(m, a). adder_step m a)) = Inr (m3, AddDone True) \<and>
    deleter_step m3 (DelCas 1 2) = Inr (m4, DelDone 1) \<and> ll_first m4 = 2"
  by (simp add: m0_def llist_next_def field_at_def cmpxchg_def)

end
