(* ===== verification/Spec2Isabelle.thy ===== *)
theory Spec2Isabelle
  imports Uapi Crc32 Armctrl Kstrtox Hweight KArith KSort Glob KHex Kfifo_Rec Kfifo_Conc Bitmap_Region KListSort KPlist LList
begin

text \<open>
  \<^bold>\<open>KsoftPWM\<close>: a verification of the software PWM drivers for the Raspberry Pi and of the kernel code around them.

  \<^bold>\<open>The program.\<close> A user program calls a small library (\<^verbatim>\<open>softPWM/uapi\<close>, \<^verbatim>\<open>xenoPWM/uapi\<close>) that turns \<open>pinMode\<close>, \<open>digitalWrite\<close>,
  \<open>softPwmCreate\<close> and \<open>softPwmWrite\<close> into ioctl calls. Two kernel modules answer them: the character device \<^verbatim>\<open>softPWM/main.c\<close>, with one
  kernel thread for each PWM pin, and the real-time device \<^verbatim>\<open>xenoPWM/main.c\<close>, with one RTDM task for each pin. Both set the pins
  through \<^verbatim>\<open>gpio.c\<close>, which writes the registers of the chip. The repository also holds the kernel it is built for; of that the board
  code and a selection of self-contained library routines is verified here.

  \<^bold>\<open>The theories.\<close>
  \<^item> \<open>KPWM_Base\<close>: C types as words, faults (\<open>'a res\<close> is a fault or a value), array accesses, searches and word lemmas.
  \<^item> \<open>Gpio\<close> (\<^verbatim>\<open>softPWM/gpio.c\<close>, \<^verbatim>\<open>tests/pi_gpio_access\<close>): the accessors over an abstract device; the locale \<open>gpio_bank\<close> is the
    contract of the registers, and a device with function-select, set, clear and level registers is its instance.
  \<^item> \<open>Pwm_Common\<close>: what the drivers share, that is the encoding of ioctl commands, the table of duty cycles and, as the locales
    \<open>pwm_timing\<close> and \<open>pwm_driver\<close>, what the two sleep times and an ioctl handler promise.
  \<^item> \<open>SoftPWM\<close>, \<open>SoftPWM_Task\<close> (\<^verbatim>\<open>softPWM/main.c\<close>): the globals as a record, \<open>pwm_ioctl\<close> with all its branches, \<open>pwm_init\<close> and \<open>pwm_exit\<close>
    with every failure path; \<open>pwm_task\<close> as a step function, interleaved with ioctl calls by an inductive relation.
  \<^item> \<open>XenoPWM\<close> (\<^verbatim>\<open>xenoPWM/main.c\<close>, \<^verbatim>\<open>xenoPWM/gpio.c\<close>): the same for the real-time driver.
  \<^item> \<open>Uapi\<close>: both libraries and both example programs, on top of either driver (locale \<open>pwm_service\<close>).
  \<^item> \<open>BcmGpio\<close>, \<open>Armctrl\<close> (\<^verbatim>\<open>arch/arm/mach-bcm2709\<close>): the board's GPIO and interrupt drivers, over the contract of \<open>Gpio\<close>.
  \<^item> \<open>Crc\<close>, \<open>Crc32\<close> (\<^verbatim>\<open>lib/crc*.c\<close>, \<^verbatim>\<open>lib/xz/xz_crc32.c\<close>, \<^verbatim>\<open>lib/gen_crc32table.c\<close>): tables, table generators and update loops; the locales
    \<open>byte_crc\<close> and \<open>sliced_crc\<close> say what a table has to hold.
  \<^item> \<open>KString\<close>, \<open>Kstrtox\<close> (\<^verbatim>\<open>lib/string.c\<close>, \<^verbatim>\<open>lib/ctype.c\<close>, \<^verbatim>\<open>lib/kstrtox.c\<close>): strings are lists of bytes up to the end of their object, and
    reading past it is a fault.
  \<^item> \<open>Bitmap\<close>, \<open>Hweight\<close>, \<open>Bitops\<close> (\<^verbatim>\<open>lib/bitmap.c\<close>, \<^verbatim>\<open>lib/find_bit.c\<close>, \<^verbatim>\<open>lib/hweight.c\<close>, \<^verbatim>\<open>asm-generic/bitops\<close>, \<^verbatim>\<open>arch/arm/include/asm/bitops.h\<close>):
    bitmaps as lists of words with the set of their ones as abstraction, population counts and bit searches.
  \<^item> \<open>Bitmap_Map\<close>, \<open>Bitmap_Region\<close> (\<^verbatim>\<open>lib/bitmap.c\<close>, \<^verbatim>\<open>asm-generic/bitops/non-atomic.h\<close>): single bits, maps between bitmaps, and the allocator of
    aligned regions, as an instance of the locale \<open>region_allocator\<close>.
  \<^item> \<open>KArith\<close> (\<^verbatim>\<open>lib/gcd.c\<close>, \<^verbatim>\<open>lcm.c\<close>, \<^verbatim>\<open>int_sqrt.c\<close>, \<^verbatim>\<open>div64.c\<close>, \<^verbatim>\<open>reciprocal_div.c\<close>): arithmetic on words of the code's width.
  \<^item> \<open>KSort\<close> (\<^verbatim>\<open>lib/sort.c\<close>, \<^verbatim>\<open>bsearch.c\<close>, \<^verbatim>\<open>extable.c\<close>): heap sort on bytes, binary searches; locales \<open>comparison\<close> and \<open>array_sort\<close>.
  \<^item> \<open>KList\<close>, \<open>KListSort\<close> (\<^verbatim>\<open>include/linux/list.h\<close>, \<^verbatim>\<open>lib/list_sort.c\<close>): doubly linked lists on a store of nodes, as an instance of the locale
    \<open>node_queue\<close>, and the merge sort on them.
  \<^item> \<open>KPlist\<close> (\<^verbatim>\<open>lib/plist.c\<close>): lists in the order of priorities, made of two circles of \<open>KList\<close>.
  \<^item> \<open>LList\<close> (\<^verbatim>\<open>lib/llist.c\<close>): lock-less lists, as steps of concurrent callers.
  \<^item> \<open>Glob\<close> (\<^verbatim>\<open>lib/glob.c\<close>): the pattern matcher, against a declarative meaning of patterns as lists of tokens, and its self-test.
  \<^item> \<open>KHex\<close> (\<^verbatim>\<open>lib/hexdump.c\<close>): bytes as hexadecimal text and back, and the dump of one line and of a buffer.
  \<^item> \<open>Kfifo\<close>, \<open>Kfifo_Rec\<close>, \<open>Kfifo_Conc\<close> (\<^verbatim>\<open>lib/kfifo.c\<close>, \<^verbatim>\<open>include/linux/kfifo.h\<close>): the ring buffer with free-running indices, as an instance of the
    locale \<open>bounded_queue\<close>; copies from and to user space; records with a length field; a
    reader and a writer that run at the same time, as steps of single bytes and indices.

  \<^bold>\<open>What is shown.\<close> For the drivers: an invariant of the global state that every ioctl call keeps and under which no call
  faults; that \<open>PWM_INIT\<close> and \<open>PWM_SET\<close> refine appending to and updating a list of pins; what is refused and with which code; that a
  thread alternates between high and low, never faults while the invariant holds, sleeps for one period and ends, with its
  pin low, once it is asked to stop; that the
  example programs drive the pins they name, through library, driver and registers; and where the code does not do what
  it means to: the sixth pin, equal bounds, the missing clean-up, a pin that does not become an output. For the
  board: that a pin is configured and driven without a change to the others, that interrupts are unmasked, masked and delivered
  in order, and that device-tree numbers and hardware lines agree. For the library: that the checksums are remainders of
  polynomial division and their tables and shift routines agree with it; that numbers are parsed to their value or refused; that
  bitmap operations are set operations and searches find the first position; that string and memory routines stay within
  their bounds; that counts, bit searches and divisions are exact, with the range in which \<open>div64_u64\<close> is; and that sorting returns an
  ordered permutation which the searches then search correctly; that the pattern matcher returns within a quadratic number of
  steps and decides whether the pattern matches; that hexadecimal text converts back and a dump stays in its buffer; and that a
  ring buffer is a bounded queue whose indices may wrap around, which delivers bytes and records in order and unchanged, also
  to one reader that runs at the same time as one writer; that the positions and ordinals of a bitmap are inverse and regions handed out
  never overlap; that each list operation is the operation on sequences it stands for; that the list sort ends and is
  stable; that a priority list is ordered, and first-in, first-out within a priority; and that a lock-less list is a stack for any number of
  concurrent callers that add and one that deletes, and need not be one for two that delete.

  \<^bold>\<open>Conventions.\<close> Machine integers are words where they can wrap around, and natural numbers where they index objects in
  memory. A loop is a recursive function with a termination proof; the loops of \<open>sort\<close> and those along pointers are partial functions, because
  the first do not end for elements of size zero and the others for a list that is not well formed, and the theorem that they return is part of
  their properties. The endless body of a
  thread is a step function. The loop of \<open>glob_match\<close> takes a number of iterations as fuel, and its property states how many are
  enough; no other definition uses fuel. Code outside the sources (kernel services, RTDM, the C library, the
  processor's registers) is an argument: an environment record, an \<open>mmio\<close> device or a function.

  \<^bold>\<open>Not modelled.\<close> Registration tables and module glue; the measurement programs under \<^verbatim>\<open>tests\<close>, which only time calls; the
  printing and parsing of \<^verbatim>\<open>lib/bitmap.c\<close>; the scatterlists of \<^verbatim>\<open>lib/kfifo.c\<close>; assembly variants of library routines; the rest of the vendored
  kernel, which the drivers do not call: trees over pointers, formatted printing, compression.
\<close>

end
